(* ===== verification/Prelude.thy ===== *)
theory Prelude
  imports Main "HOL-Library.Word"
begin

unbundle bit_operations_syntax

text \<open>
  The vocabulary shared by every theory of the development: the machine integers of
  \<^verbatim>\<open>libc/types.h\<close>, the constants of \<^verbatim>\<open>libc/constants.h\<close>, the result type in which every
  failed \<^verbatim>\<open>ASSERT\<close>, \<^verbatim>\<open>ASSERT_NOT_REACHED\<close> and \<^verbatim>\<open>NOT_IMPLEMENTED\<close> of \<^verbatim>\<open>libc/asserts.h\<close> is a
  value, the little-endian layout the packed structures of the kernel have in memory, and
  generic facts on lists and words used by several components.
\<close>

section \<open>Machine integers\<close>

type_synonym u8 = "8 word"
type_synonym u16 = "16 word"
type_synonym u32 = "32 word"
type_synonym u64 = "64 word"

abbreviation PAGE_SIZE :: u32 where "PAGE_SIZE \<equiv> 4096"
abbreviation PAGE_SIZE_nat :: nat where "PAGE_SIZE_nat \<equiv> 4096"
abbreviation SECTOR_SIZE_BYTES :: nat where "SECTOR_SIZE_BYTES \<equiv> 512"

text \<open>The error codes of \<^verbatim>\<open>kernel/errs.h\<close>.\<close>

abbreviation E_OK :: int where "E_OK \<equiv> 0"
abbreviation E_NOTFOUND :: int where "E_NOTFOUND \<equiv> 1"
abbreviation E_LIMIT :: int where "E_LIMIT \<equiv> 2"
abbreviation E_INVALID :: int where "E_INVALID \<equiv> 4"
abbreviation E_TOO_SMALL :: int where "E_TOO_SMALL \<equiv> 5"
abbreviation E_INVALID_SIZE :: int where "E_INVALID_SIZE \<equiv> 6"
abbreviation E_TAKEN :: int where "E_TAKEN \<equiv> 7"
abbreviation E_NOT_SUPPORTED :: int where "E_NOT_SUPPORTED \<equiv> 8"

text \<open>\<open>size_t\<close> subtraction on numbers below \<open>2 ^ 32\<close>: it wraps around.\<close>

definition size_sub :: "nat \<Rightarrow> nat \<Rightarrow> nat" where
  "size_sub a b = (if b \<le> a then a - b else 2 ^ 32 + a - b)"

text \<open>An address or a \<open>u32\<close> kept as a number: what the sum becomes in 32 bits.\<close>

definition wrap32 :: "nat \<Rightarrow> nat" where
  "wrap32 n = n mod 2 ^ 32"

lemma wrap32_id [simp]: "n < 4294967296 \<Longrightarrow> wrap32 n = n"
  by (simp add: wrap32_def)

lemma size_sub_id [simp]: "b \<le> a \<Longrightarrow> size_sub a b = a - b"
  by (simp add: size_sub_def)

section \<open>Results: a failed assertion is a value\<close>

text \<open>
  \<open>AssertionFailed\<close>, \<open>NotReached\<close> and \<open>NotImplemented\<close> are the three macros that call
  \<^verbatim>\<open>assertion_failed\<close>, which does not return. \<open>BadAccess\<close> is a read or write outside the
  object it is meant for, \<open>DivideError\<close> the processor's division trap, and \<open>Diverges\<close> a
  loop that does not end.
\<close>

datatype fault =
    AssertionFailed
  | NotReached
  | NotImplemented
  | BadAccess
  | DivideError
  | Diverges

type_synonym 'a result = "fault + 'a"

definition rbind :: "'a result \<Rightarrow> ('a \<Rightarrow> 'b result) \<Rightarrow> 'b result" where
  "rbind m f = (case m of Inl e \<Rightarrow> Inl e | Inr x \<Rightarrow> f x)"

definition assert_that :: "bool \<Rightarrow> unit result" where
  "assert_that b = (if b then Inr () else Inl AssertionFailed)"

named_theorems result_simps

lemma rbind_Inl [simp, result_simps]: "rbind (Inl e) f = Inl e"
  by (simp add: rbind_def)

lemma rbind_Inr [simp, result_simps]: "rbind (Inr x) f = f x"
  by (simp add: rbind_def)

lemma rbind_Inr_iff [simp]: "rbind m f = Inr y \<longleftrightarrow> (\<exists>x. m = Inr x \<and> f x = Inr y)"
  by (cases m) auto

lemma rbind_assoc: "rbind (rbind m f) g = rbind m (\<lambda>x. rbind (f x) g)"
  by (cases m) auto

lemma assert_that_True [simp, result_simps]: "b \<Longrightarrow> assert_that b = Inr ()"
  by (simp add: assert_that_def)

lemma assert_that_False [simp, result_simps]: "\<not> b \<Longrightarrow> assert_that b = Inl AssertionFailed"
  by (simp add: assert_that_def)

lemma assert_that_Inr_iff [simp]: "assert_that b = Inr u \<longleftrightarrow> b"
  by (simp add: assert_that_def)

lemma rbind_cong [fundef_cong]:
  "m = m' \<Longrightarrow> (\<And>x. m' = Inr x \<Longrightarrow> f x = f' x) \<Longrightarrow> rbind m f = rbind m' f'"
  by (cases m') auto

text \<open>A loop that may not end is an option; not ending is the fault \<open>Diverges\<close>.\<close>

definition loop :: "'a result option \<Rightarrow> 'a result" where
  "loop x = (case x of None \<Rightarrow> Inl Diverges | Some r \<Rightarrow> r)"

lemma loop_Some [simp]: "loop (Some r) = r"
  by (simp add: loop_def)

text \<open>A \<^verbatim>\<open>for\<close> loop over a list whose body may fail.\<close>

fun rfold :: "('a \<Rightarrow> 's \<Rightarrow> 's result) \<Rightarrow> 'a list \<Rightarrow> 's \<Rightarrow> 's result" where
  "rfold f [] s = Inr s"
| "rfold f (x # xs) s = rbind (f x s) (rfold f xs)"

lemma rfold_keeps:
  assumes "\<And>x s s'. f x s = Inr s' \<Longrightarrow> h s' = h s"
  shows "rfold f xs s = Inr s' \<Longrightarrow> h s' = h s"
  by (induction xs arbitrary: s) (auto dest: assms)

lemma rfold_total:
  assumes "\<And>x s. x \<in> set xs \<Longrightarrow> P s \<Longrightarrow> \<exists>s'. f x s = Inr s' \<and> P s'" "P s"
  shows "\<exists>s'. rfold f xs s = Inr s' \<and> P s'"
  using assms by (induction xs arbitrary: s) fastforce+

lemma rfold_map: "rfold f (map g xs) s = rfold (\<lambda>x. f (g x)) xs s"
  by (induction xs arbitrary: s) (auto intro: rbind_cong)

lemma rfold_append: "rfold f (xs @ ys) s = rbind (rfold f xs s) (rfold f ys)"
  by (induction xs arbitrary: s) (auto simp: rbind_assoc intro: rbind_cong)

lemma rfold_snoc: "rfold f (xs @ [x]) s = rbind (rfold f xs s) (f x)"
proof -
  have "rbind m (rfold f []) = m" for m by (cases m) simp_all
  then show ?thesis by (cases "rfold f xs s") (simp_all add: rfold_append)
qed

section \<open>Refinement of a step function\<close>

text \<open>
  The shape of a refinement by an abstract step function: every operation of the code that the
  abstract state allows ends the same way as the abstract one and keeps the relation between
  the states; then so does every sequence of operations.
\<close>

fun run_ops :: "('op \<Rightarrow> 's \<Rightarrow> ('r \<times> 's) result) \<Rightarrow> 'op list \<Rightarrow> 's \<Rightarrow> ('r list \<times> 's) result" where
  "run_ops step [] s = Inr ([], s)"
| "run_ops step (op # ops) s =
     rbind (step op s) (\<lambda>(r, s'). rbind (run_ops step ops s') (\<lambda>(rs, s''). Inr (r # rs, s'')))"

fun ops_ok :: "('op \<Rightarrow> 'a \<Rightarrow> ('r \<times> 'a) result) \<Rightarrow> ('op \<Rightarrow> 'a \<Rightarrow> bool) \<Rightarrow> 'op list \<Rightarrow> 'a \<Rightarrow> bool" where
  "ops_ok spec ok [] a \<longleftrightarrow> True"
| "ops_ok spec ok (op # ops) a \<longleftrightarrow> ok op a
     \<and> (case spec op a of Inl _ \<Rightarrow> True | Inr (_, a') \<Rightarrow> ops_ok spec ok ops a')"

lemma ops_ok_all: "list_all ok ops \<Longrightarrow> ops_ok spec (\<lambda>op _. ok op) ops a"
  by (induction ops arbitrary: a) (auto split: sum.split)

locale stepwise_refinement =
  fixes rel :: "'s \<Rightarrow> 'a \<Rightarrow> bool"
    and step :: "'op \<Rightarrow> 's \<Rightarrow> ('r \<times> 's) result"
    and spec :: "'op \<Rightarrow> 'a \<Rightarrow> ('r \<times> 'a) result"
    and ok :: "'op \<Rightarrow> 'a \<Rightarrow> bool"
  assumes fault_law: "rel s a \<Longrightarrow> ok op a \<Longrightarrow> spec op a = Inl e \<Longrightarrow> step op s = Inl e"
    and step_law: "rel s a \<Longrightarrow> ok op a \<Longrightarrow> spec op a = Inr (r, a') \<Longrightarrow> \<exists>s'. step op s = Inr (r, s') \<and> rel s' a'"
begin

lemma run_refines:
  "rel s a \<Longrightarrow> ops_ok spec ok ops a \<Longrightarrow>
    map_sum id fst (run_ops step ops s) = map_sum id fst (run_ops spec ops a)"
proof (induction ops arbitrary: s a)
  case (Cons op ops)
  then have ok: "ok op a" by simp
  show ?case
  proof (cases "spec op a")
    case (Inl e)
    then show ?thesis using fault_law [OF Cons.prems(1) ok] by simp
  next
    case (Inr ra)
    then obtain r a' where ra: "spec op a = Inr (r, a')" by (cases ra) auto
    then obtain s' where s': "step op s = Inr (r, s')" "rel s' a'" using step_law [OF Cons.prems(1) ok] by blast
    show ?thesis using ra s'(1) Cons.IH [OF s'(2)] Cons.prems(2)
      by (cases "run_ops step ops s'"; cases "run_ops spec ops a'") auto
  qed
qed simp

lemma run_related:
  "rel s a \<Longrightarrow> ops_ok spec ok ops a \<Longrightarrow> run_ops spec ops a = Inr (rs, a') \<Longrightarrow>
    \<exists>s'. run_ops step ops s = Inr (rs, s') \<and> rel s' a'"
proof (induction ops arbitrary: s a rs)
  case (Cons op ops)
  then obtain r b rs' where r: "spec op a = Inr (r, b)" "run_ops spec ops b = Inr (rs', a')" "rs = r # rs'" by auto
  then obtain s1 where "step op s = Inr (r, s1)" "rel s1 b" using step_law Cons.prems(1,2) by force
  with r Cons.IH [of s1 b rs'] Cons.prems(2) show ?case by auto
qed simp

end

section \<open>Little-endian memory layout\<close>

definition le16 :: "u16 \<Rightarrow> u8 list" where
  "le16 w = [ucast w, ucast (drop_bit 8 w)]"

definition le32 :: "u32 \<Rightarrow> u8 list" where
  "le32 w = [ucast w, ucast (drop_bit 8 w), ucast (drop_bit 16 w), ucast (drop_bit 24 w)]"

definition of_le16 :: "u8 \<Rightarrow> u8 \<Rightarrow> u16" where
  "of_le16 b0 b1 = ucast b0 OR push_bit 8 (ucast b1)"

definition of_le32 :: "u8 \<Rightarrow> u8 \<Rightarrow> u8 \<Rightarrow> u8 \<Rightarrow> u32" where
  "of_le32 b0 b1 b2 b3 =
     ucast b0 OR push_bit 8 (ucast b1) OR push_bit 16 (ucast b2) OR push_bit 24 (ucast b3)"

lemma length_le16 [simp]: "length (le16 w) = 2"
  by (simp add: le16_def)

lemma length_le32 [simp]: "length (le32 w) = 4"
  by (simp add: le32_def)

lemma of_le16_le16 [simp]: "of_le16 (ucast w) (ucast (drop_bit 8 w)) = w"
  by (rule bit_word_eqI) (auto simp: of_le16_def bit_simps)

lemma of_le32_le32 [simp]:
  "of_le32 (ucast w) (ucast (drop_bit 8 w)) (ucast (drop_bit 16 w)) (ucast (drop_bit 24 w)) = w"
proof (rule bit_word_eqI)
  fix n :: nat
  assume "n < LENGTH(32)"
  moreover have "n < 8 \<or> 8 \<le> n \<and> n < 16 \<or> 16 \<le> n \<and> n < 24 \<or> 24 \<le> n" by linarith
  ultimately show "bit (of_le32 (ucast w) (ucast (drop_bit 8 w)) (ucast (drop_bit 16 w))
      (ucast (drop_bit 24 w))) n = bit w n"
    by (auto simp: of_le32_def bit_simps)
qed

section \<open>Words\<close>

lemma unat_u8_less [simp]: "unat w < 256" for w :: u8
  using unsigned_less [of w, where 'a = nat] by simp

lemma unat_u16_less [simp]: "unat w < 65536" for w :: u16
  using unsigned_less [of w, where 'a = nat] by simp

lemma unat_u32_less [simp]: "unat w < 4294967296" for w :: u32
  using unsigned_less [of w, where 'a = nat] by simp

lemma unat_u64_less [simp]: "unat w < 18446744073709551616" for w :: u64
  using unsigned_less [of w, where 'a = nat] by simp

lemma unat_ucast_up:
  "LENGTH('a) \<le> LENGTH('b) \<Longrightarrow> unat (ucast w :: 'b::len word) = unat w" for w :: "'a::len word"
  using less_le_trans [OF unsigned_less [of w, where 'a = nat], of "2 ^ LENGTH('b)"]
  by (simp add: unsigned_ucast_eq take_bit_nat_eq_self)

text \<open>A byte mask keeps the low eight bits.\<close>

lemma word_and_0xFF: "w AND 0xFF = take_bit 8 w" for w :: "'a::len word"
  by (simp add: take_bit_eq_mask mask_eq_exp_minus_1)

lemma word_and_0xFFFF: "w AND 0xFFFF = take_bit 16 w" for w :: "'a::len word"
  by (simp add: take_bit_eq_mask mask_eq_exp_minus_1)

section \<open>Lists\<close>

text \<open>Overwriting a stretch of a buffer, and reading one.\<close>

definition blit :: "nat \<Rightarrow> 'a list \<Rightarrow> 'a list \<Rightarrow> 'a list" where
  "blit off src dst = take off dst @ src @ drop (off + length src) dst"

definition chunk :: "nat \<Rightarrow> nat \<Rightarrow> 'a list \<Rightarrow> 'a list" where
  "chunk off n xs = take n (drop off xs)"

lemma length_blit [simp]:
  "off + length src \<le> length dst \<Longrightarrow> length (blit off src dst) = length dst"
  by (simp add: blit_def)

lemma length_chunk [simp]: "off + n \<le> length xs \<Longrightarrow> length (chunk off n xs) = n"
  by (simp add: chunk_def)

lemma chunk_blit [simp]:
  "off + length src \<le> length dst \<Longrightarrow> n = length src \<Longrightarrow> chunk off n (blit off src dst) = src"
  by (simp add: chunk_def blit_def)

lemma chunk_blit_before:
  "off + length src \<le> length dst \<Longrightarrow> i + n \<le> off \<Longrightarrow> chunk i n (blit off src dst) = chunk i n dst"
  by (rule nth_equalityI) (auto simp: chunk_def blit_def nth_append)

lemma chunk_blit_after:
  "off + length src \<le> length dst \<Longrightarrow> off + length src \<le> i \<Longrightarrow>
   chunk i n (blit off src dst) = chunk i n dst"
  by (simp add: chunk_def blit_def)

lemma nth_blit:
  "off + length src \<le> length dst \<Longrightarrow> i < length dst \<Longrightarrow>
   blit off src dst ! i = (if off \<le> i \<and> i < off + length src then src ! (i - off) else dst ! i)"
  by (auto simp: blit_def nth_append min_def)

lemma take_map_the_Some [simp]: "map the (map Some xs) = xs"
  by (induction xs) auto

end
