(* ===== verification/CStrings.thy ===== *)
theory CStrings
  imports Prelude
begin

text \<open>
  The string and memory routines of the C library: \<^verbatim>\<open>libc/cstring.cpp\<close>,
  \<^verbatim>\<open>libc/strings.cpp\<close>, \<^verbatim>\<open>libc/ctype.cpp\<close> and the number parsers of \<^verbatim>\<open>libc/stdlib.cpp\<close>.
  A pointer into a buffer is the list of the cells from that position to the end of the
  buffer, so running past the end of the buffer is the empty list, a \<open>BadAccess\<close>. A \<open>char\<close>
  is signed on the target.
\<close>

unbundle bit_operations_syntax

abbreviation NUL :: char where "NUL \<equiv> CHR 0x00"

definition schar :: "char \<Rightarrow> int" where
  "schar c = (let n = int (of_char c) in if n < 128 then n else n - 256)"

text \<open>A \<^verbatim>\<open>char*\<close> seen as a \<^verbatim>\<open>u8*\<close>, and back.\<close>

definition byte_of_char :: "char \<Rightarrow> u8" where
  "byte_of_char c = word_of_nat (of_char c)"

definition char_of_byte :: "u8 \<Rightarrow> char" where
  "char_of_byte b = char_of (unat b)"

section \<open>Memory and string routines\<close>

fun strlen :: "string \<Rightarrow> nat result" where
  "strlen [] = Inl BadAccess"
| "strlen (c # str) = (if c = NUL then Inr 0 else rbind (strlen str) (\<lambda>len. Inr (Suc len)))"

fun memset :: "'a list \<Rightarrow> 'a \<Rightarrow> nat \<Rightarrow> 'a list result" where
  "memset p c 0 = Inr p"
| "memset (x # p) c (Suc n) = rbind (memset p c n) (\<lambda>p'. Inr (c # p'))"
| "memset [] c (Suc n) = Inl BadAccess"

fun memcpy :: "'a list \<Rightarrow> 'a list \<Rightarrow> nat \<Rightarrow> 'a list result" where
  "memcpy pd ps 0 = Inr pd"
| "memcpy (d # pd) (s # ps) (Suc n) = rbind (memcpy pd ps n) (\<lambda>pd'. Inr (s # pd'))"
| "memcpy pd ps (Suc n) = Inl BadAccess"

fun strcpy :: "string \<Rightarrow> string \<Rightarrow> string result" where
  "strcpy (d # dest) (c # src) =
     (if c \<noteq> NUL then rbind (strcpy dest src) (\<lambda>dest'. Inr (c # dest')) else Inr (NUL # dest))"
| "strcpy dest src = Inl BadAccess"

fun strncpy :: "string \<Rightarrow> string \<Rightarrow> nat \<Rightarrow> string result" where
  "strncpy dest src 0 = Inr dest"
| "strncpy (d # dest) (c # src) (Suc n) =
     (if c \<noteq> NUL then rbind (strncpy dest src n) (\<lambda>dest'. Inr (c # dest'))
      else memset (d # dest) NUL (Suc n))"
| "strncpy dest src (Suc n) = Inl BadAccess"

fun memcmp :: "string \<Rightarrow> string \<Rightarrow> nat \<Rightarrow> int result" where
  "memcmp p1 p2 0 = Inr 0"
| "memcmp (a # p1) (b # p2) (Suc n) =
     (if a \<noteq> b then Inr (schar a - schar b) else memcmp p1 p2 n)"
| "memcmp p1 p2 (Suc n) = Inl BadAccess"

fun strcmp :: "string \<Rightarrow> string \<Rightarrow> int result" where
  "strcmp (a # p1) (b # p2) =
     (if a = b \<and> a \<noteq> NUL then strcmp p1 p2 else Inr (schar a - schar b))"
| "strcmp p1 p2 = Inl BadAccess"

text \<open>The bound of the loop is \<open>n-1\<close> on a \<open>size_t\<close>: for \<open>n = 0\<close> it is \<open>2 ^ 32 - 1\<close>.\<close>

fun strncmp_loop :: "string \<Rightarrow> string \<Rightarrow> nat \<Rightarrow> nat \<Rightarrow> int result" where
  "strncmp_loop (a # p1) (b # p2) i n =
     (if a = b \<and> a \<noteq> NUL \<and> i < size_sub n 1 then strncmp_loop p1 p2 (Suc i) n
      else Inr (schar a - schar b))"
| "strncmp_loop p1 p2 i n = Inl BadAccess"

definition strncmp :: "string \<Rightarrow> string \<Rightarrow> nat \<Rightarrow> int result" where
  "strncmp s1 s2 n = strncmp_loop s1 s2 0 n"

text \<open>The returned pointer is the suffix it points to; \<open>None\<close> is \<open>nullptr\<close>.\<close>

fun strrchr :: "string \<Rightarrow> char \<Rightarrow> string option result" where
  "strrchr [] c = Inl BadAccess"
| "strrchr (x # str) c =
     (if x \<noteq> NUL then (if x = c then Inr (Some (x # str)) else strrchr str c)
      else if c = NUL then Inr (Some (x # str)) else Inr None)"

fun ascii_to_unicode :: "string \<Rightarrow> string \<Rightarrow> nat \<Rightarrow> string result" where
  "ascii_to_unicode dst src 0 = Inr dst"
| "ascii_to_unicode (d0 # d1 # dst) (c # src) (Suc n) =
     rbind (ascii_to_unicode dst src n) (\<lambda>dst'. Inr (c # NUL # dst'))"
| "ascii_to_unicode dst src (Suc n) = Inl BadAccess"

section \<open>Case folding\<close>

definition toupper :: "int \<Rightarrow> int" where
  "toupper c = (if c \<ge> 97 \<and> c \<le> 122 then c - (97 - 65) else c)"

definition tolower :: "int \<Rightarrow> int" where
  "tolower c = (if c \<ge> 65 \<and> c \<le> 90 then c + (97 - 65) else c)"

definition isalpha :: "char \<Rightarrow> bool" where
  "isalpha c \<longleftrightarrow> (schar c \<ge> 97 \<and> schar c \<le> 122) \<or> (schar c \<ge> 65 \<and> schar c \<le> 90)"

definition foldcase :: "char \<Rightarrow> int" where
  "foldcase ch = (if isalpha ch then tolower (schar ch) else schar ch)"

fun strcasecmp :: "string \<Rightarrow> string \<Rightarrow> int result" where
  "strcasecmp (a # s1) (b # s2) =
     (if foldcase a = foldcase b then (if a = NUL then Inr 0 else strcasecmp s1 s2)
      else Inr (if foldcase a < foldcase b then -1 else 1))"
| "strcasecmp s1 s2 = Inl BadAccess"

fun strncasecmp :: "string \<Rightarrow> string \<Rightarrow> nat \<Rightarrow> int result" where
  "strncasecmp s1 s2 0 = Inr 0"
| "strncasecmp (a # s1) (b # s2) (Suc n) =
     (if foldcase a \<noteq> foldcase b then Inr (foldcase a - foldcase b)
      else if a = NUL then Inr 0 else strncasecmp s1 s2 n)"
| "strncasecmp s1 s2 (Suc n) = Inl BadAccess"

section \<open>Parsing numbers\<close>

text \<open>The accumulator is an \<open>int\<close>; its bits are a word, so that the arithmetic wraps.\<close>

fun atoi_10_loop :: "string \<Rightarrow> u32 \<Rightarrow> u32 result" where
  "atoi_10_loop [] acc = Inl BadAccess"
| "atoi_10_loop (c # str) acc =
     (if c = NUL then Inr acc
      else atoi_10_loop str (acc * 10 + of_int (schar c - schar (CHR ''0''))))"

definition atoi_10 :: "string \<Rightarrow> int result" where
  "atoi_10 str =
     (case str of
        [] \<Rightarrow> Inl BadAccess
      | c # rest \<Rightarrow>
          if c = CHR ''-'' then rbind (atoi_10_loop rest 0) (\<lambda>acc. Inr (sint (acc * - 1)))
          else rbind (atoi_10_loop str 0) (\<lambda>acc. Inr (sint (acc * 1))))"

fun atoi_16_loop :: "string \<Rightarrow> u32 \<Rightarrow> u32 result" where
  "atoi_16_loop [] acc = Inl BadAccess"
| "atoi_16_loop (c # str) acc =
     (if c = NUL then Inr acc
      else if schar (CHR ''0'') \<le> schar c \<and> schar c \<le> schar (CHR ''9'')
      then atoi_16_loop str (acc * 16 + of_int (schar c - schar (CHR ''0'')))
      else if schar (CHR ''a'') \<le> schar c \<and> schar c \<le> schar (CHR ''f'')
      then atoi_16_loop str (acc * 16 + of_int (10 + (schar c - schar (CHR ''a''))))
      else Inl NotReached)"

definition atoi_16 :: "string \<Rightarrow> int result" where
  "atoi_16 str =
     (case str of
        [] \<Rightarrow> Inl BadAccess
      | c # rest \<Rightarrow>
          if c = CHR ''-'' then rbind (atoi_16_loop rest 0) (\<lambda>acc. Inr (sint (acc * - 1)))
          else rbind (atoi_16_loop str 0) (\<lambda>acc. Inr (sint (acc * 1))))"

definition df_atoi :: "string \<Rightarrow> nat \<Rightarrow> int result" where
  "df_atoi str b =
     (if b = 10 then atoi_10 str else if b = 16 then atoi_16 str else Inl NotReached)"

definition atoi :: "string \<Rightarrow> int result" where
  "atoi str = atoi_10 str"

section \<open>Facts\<close>

lemma schar_inj [simp]: "schar a = schar b \<longleftrightarrow> a = b"
proof
  assume "schar a = schar b"
  then have "(of_char a :: nat) = of_char b"
    using nat_of_char_less_256 [of a] nat_of_char_less_256 [of b]
    by (auto simp: schar_def Let_def split: if_splits simp del: nat_of_char_less_256)
  then show "a = b" by simp
qed simp

lemma char_of_byte_of_char [simp]: "char_of_byte (byte_of_char c) = c"
  by (simp add: char_of_byte_def byte_of_char_def unat_of_nat)

lemma byte_of_char_of_byte [simp]: "byte_of_char (char_of_byte b) = b"
  by (simp add: char_of_byte_def byte_of_char_def unat_of_nat unsigned_take_bit_eq
    take_bit_nat_eq_self word_unat_eq_iff)

lemma map_char_of_byte_of_char [simp]: "map (char_of_byte \<circ> byte_of_char) cs = cs"
  by (rule map_idI) simp

lemma strlen_NUL: "NUL \<notin> set s \<Longrightarrow> strlen (s @ NUL # r) = Inr (length s)"
  by (induction s) auto

lemma memset_eq: "memset p c n = (if n \<le> length p then Inr (replicate n c @ drop n p) else Inl BadAccess)"
  by (induction p c n rule: memset.induct) auto

lemma memcpy_eq:
  "memcpy pd ps n =
     (if n \<le> length pd \<and> n \<le> length ps then Inr (take n ps @ drop n pd) else Inl BadAccess)"
  by (induction pd ps n rule: memcpy.induct) auto

lemma memcmp_eq_0:
  "n \<le> length p1 \<Longrightarrow> n \<le> length p2 \<Longrightarrow>
   \<exists>r. memcmp p1 p2 n = Inr r \<and> (r = 0 \<longleftrightarrow> take n p1 = take n p2)"
  by (induction p1 p2 n rule: memcmp.induct) auto

lemma strncmp_loop_eq_0:
  assumes "NUL \<notin> set s" "NUL \<notin> set t" "i + m = size_sub n 1"
  shows "\<exists>r. strncmp_loop (s @ NUL # x) (t @ NUL # y) i n = Inr r
    \<and> (r = 0 \<longleftrightarrow> take (Suc m) s = take (Suc m) t)"
  using assms
proof (induction s arbitrary: t i m)
  case Nil
  then show ?case by (cases t) auto
next
  case (Cons a s)
  show ?case
  proof (cases t)
    case Nil
    with Cons.prems show ?thesis by auto
  next
    case (Cons b t')
    show ?thesis
    proof (cases "a = b \<and> i < size_sub n 1")
      case True
      then obtain m' where "m = Suc m'" using Cons.prems(3) by (cases m) auto
      with Cons.IH [of t' "Suc i" m'] Cons.prems Cons True show ?thesis by auto
    next
      case False
      show ?thesis
      proof (cases "a = b")
        case True
        with False Cons.prems(3) have "m = 0" by simp
        with True False Cons.prems Cons show ?thesis by auto
      next
        case False
        with Cons.prems Cons show ?thesis by auto
      qed
    qed
  qed
qed

lemma strncmp_eq_0:
  assumes "NUL \<notin> set s" "NUL \<notin> set t" "0 < n"
  shows "\<exists>r. strncmp (s @ NUL # x) (t @ NUL # y) n = Inr r \<and> (r = 0 \<longleftrightarrow> take n s = take n t)"
  using strncmp_loop_eq_0 [OF assms(1,2), of 0 "n - 1" n x y] assms(3)
  by (simp add: strncmp_def size_sub_def)

lemma length_ascii_to_unicode:
  "2 * n \<le> length dst \<Longrightarrow> n \<le> length src \<Longrightarrow>
   ascii_to_unicode dst src n = Inr (concat (map (\<lambda>c. [c, NUL]) (take n src)) @ drop (2 * n) dst)"
  by (induction dst src n rule: ascii_to_unicode.induct) auto

text \<open>
  For a positive bound, \<^verbatim>\<open>strncmp\<close> of two terminated strings reads nothing outside them
  and returns 0 exactly when the first \<open>n\<close> characters agree; this is the comparison
  \<^verbatim>\<open>startswith\<close>, \<^verbatim>\<open>remove_prefix\<close> and the file name tests rest on.
\<close>

theorem strncmp_compares_prefixes:
  assumes "NUL \<notin> set s" "NUL \<notin> set t" "0 < n"
  shows "\<exists>r. strncmp (s @ NUL # x) (t @ NUL # y) n = Inr r \<and> (r = 0 \<longleftrightarrow> take n s = take n t)"
  using strncmp_eq_0 [OF assms] .

theorem strncmp_compares_prefixes_witness:
  "\<exists>r. strncmp (''abc'' @ NUL # []) (''abd'' @ NUL # []) 2 = Inr r \<and> r = 0"
  using strncmp_compares_prefixes [of "''abc''" "''abd''" 2 "[]" "[]"] by simp

end
