(* ===== verification/Vectors.thy ===== *)
theory Vectors
  imports CStrings
begin

text \<open>
  The growable array of \<^verbatim>\<open>libc/types/vector.h\<close>. The buffer behind \<^verbatim>\<open>m_data\<close> is a list of
  cells, \<open>None\<close> where no element has been constructed, so that capacity, size and
  initialised elements are told apart as they are in the code. The elements a well-formed
  vector holds are \<open>vec_list\<close>, and each operation refines the list operation.
\<close>

section \<open>State and operations\<close>

record 'a vec =
  m_data :: "'a option list"
  m_capacity :: nat
  m_size :: nat

abbreviation DEFAULT_VECTOR_CAPACITY :: nat where "DEFAULT_VECTOR_CAPACITY \<equiv> 8"

definition vec_with_capacity :: "nat \<Rightarrow> 'a vec" where
  "vec_with_capacity c =
     (let c' = (if c = 0 then DEFAULT_VECTOR_CAPACITY else c)
      in \<lparr>m_data = replicate c' None, m_capacity = c', m_size = 0\<rparr>)"

definition vec_new :: "'a vec" where
  "vec_new = vec_with_capacity DEFAULT_VECTOR_CAPACITY"

text \<open>
  \<^verbatim>\<open>Vector(const T* data, size_t size)\<close> copies \<open>size\<close> bytes, not \<open>size\<close> elements: with
  elements of \<open>sz\<close> bytes only the first \<open>size div sz\<close> whole elements arrive.
\<close>

definition vec_of_data :: "nat \<Rightarrow> 'a list \<Rightarrow> nat \<Rightarrow> 'a vec result" where
  "vec_of_data sz data n =
     rbind (memcpy (replicate n None) (map Some data) (n div sz))
       (\<lambda>cells. Inr \<lparr>m_data = cells, m_capacity = n, m_size = n\<rparr>)"

definition vec_access :: "'a vec \<Rightarrow> nat \<Rightarrow> 'a result" where
  "vec_access v pos =
     rbind (assert_that (pos < m_size v)) (\<lambda>_.
       if pos < length (m_data v)
       then (case m_data v ! pos of Some x \<Rightarrow> Inr x | None \<Rightarrow> Inl BadAccess)
       else Inl BadAccess)"

text \<open>Assignment through the reference that \<^verbatim>\<open>at\<close> and \<^verbatim>\<open>operator[]\<close> return.\<close>

definition vec_assign_at :: "'a vec \<Rightarrow> nat \<Rightarrow> 'a \<Rightarrow> 'a vec result" where
  "vec_assign_at v pos x =
     rbind (assert_that (pos < m_size v)) (\<lambda>_.
       if pos < length (m_data v) then Inr (v\<lparr>m_data := (m_data v)[pos := Some x]\<rparr>)
       else Inl BadAccess)"

definition vec_empty :: "'a vec \<Rightarrow> bool" where
  "vec_empty v \<longleftrightarrow> m_size v = 0"

definition move_to_buffer :: "'a vec \<Rightarrow> 'a option list \<Rightarrow> 'a option list result" where
  "move_to_buffer v new_data = memcpy new_data (m_data v) (m_size v)"

definition ensure_capacity :: "'a vec \<Rightarrow> nat \<Rightarrow> bool \<Rightarrow> 'a vec result" where
  "ensure_capacity v cap check_capacity =
     (if cap \<le> m_capacity v then Inr v
      else rbind (if check_capacity then assert_that (m_capacity v * 2 \<ge> cap) else Inr ()) (\<lambda>_.
           rbind (move_to_buffer v (replicate (m_capacity v * 2) None)) (\<lambda>new_data.
             Inr (v\<lparr>m_data := new_data, m_capacity := m_capacity v * 2\<rparr>))))"

definition construct_at_end :: "'a vec \<Rightarrow> 'a \<Rightarrow> 'a vec result" where
  "construct_at_end v x =
     (if m_size v < length (m_data v)
      then Inr (v\<lparr>m_data := (m_data v)[m_size v := Some x], m_size := m_size v + 1\<rparr>)
      else Inl BadAccess)"

definition vec_append :: "'a vec \<Rightarrow> 'a \<Rightarrow> 'a vec result" where
  "vec_append v x =
     rbind (ensure_capacity v (m_size v + 1) True) (\<lambda>v'. construct_at_end v' x)"

fun construct_all :: "'a vec \<Rightarrow> 'a list \<Rightarrow> 'a vec result" where
  "construct_all v [] = Inr v"
| "construct_all v (x # xs) = rbind (construct_at_end v x) (\<lambda>v'. construct_all v' xs)"

definition vec_concat :: "'a vec \<Rightarrow> 'a list \<Rightarrow> nat \<Rightarrow> 'a vec result" where
  "vec_concat v data len =
     rbind (ensure_capacity v (m_size v + len) True) (\<lambda>v'.
       if len \<le> length data then construct_all v' (take len data) else Inl BadAccess)"

text \<open>Destroying the elements; a cell that holds none is no object to destroy.\<close>

definition vec_deallocate :: "'a vec \<Rightarrow> 'a vec" where
  "vec_deallocate v = \<lparr>m_data = [], m_capacity = 0, m_size = 0\<rparr>"

definition vec_initialize_from :: "'a vec \<Rightarrow> 'a vec result" where
  "vec_initialize_from other =
     rbind (memcpy (replicate (m_capacity other) None) (m_data other) (m_size other)) (\<lambda>cells.
       Inr \<lparr>m_data = cells, m_capacity = m_capacity other, m_size = m_size other\<rparr>)"

definition vec_clear :: "'a vec \<Rightarrow> 'a vec" where
  "vec_clear v = vec_with_capacity DEFAULT_VECTOR_CAPACITY"

fun append_each :: "('v \<Rightarrow> 'a \<Rightarrow> 'v result) \<Rightarrow> 'v \<Rightarrow> 'a result list \<Rightarrow> 'v result" where
  "append_each app v [] = Inr v"
| "append_each app v (rx # rxs) =
     rbind rx (\<lambda>x. rbind (app v x) (\<lambda>v'. append_each app v' rxs))"

definition vec_range :: "'a vec \<Rightarrow> nat \<Rightarrow> nat \<Rightarrow> 'a vec result" where
  "vec_range v start stop = append_each vec_append vec_new (map (vec_access v) [start..<stop])"

text \<open>
  \<^verbatim>\<open>m_data[m_size--].~T()\<close> destroys the cell at the old size, one past the last element.
\<close>

definition vec_pop :: "'a vec \<Rightarrow> 'a vec result" where
  "vec_pop v =
     rbind (assert_that (m_size v > 0)) (\<lambda>_.
       if m_size v < length (m_data v)
       then Inr (v\<lparr>m_data := (m_data v)[m_size v := None], m_size := m_size v - 1\<rparr>)
       else Inl BadAccess)"

definition vec_set_size :: "'a vec \<Rightarrow> nat \<Rightarrow> 'a vec" where
  "vec_set_size v n = v\<lparr>m_size := n\<rparr>"

text \<open>Reading the cells the raw pointer \<^verbatim>\<open>data()\<close> gives, as far as the size goes.\<close>

definition vec_list :: "'a vec \<Rightarrow> 'a list" where
  "vec_list v = map the (take (m_size v) (m_data v))"

definition vec_plus :: "'a vec \<Rightarrow> 'a vec \<Rightarrow> 'a vec result" where
  "vec_plus v other =
     rbind (vec_initialize_from v) (\<lambda>copy. vec_concat copy (vec_list other) (m_size other))"

section \<open>Well-formed vectors\<close>

definition vec_ok :: "'a vec \<Rightarrow> bool" where
  "vec_ok v \<longleftrightarrow> length (m_data v) = m_capacity v \<and> m_size v \<le> m_capacity v
     \<and> list_all (\<lambda>c. c \<noteq> None) (take (m_size v) (m_data v))"

text \<open>A vector that has a capacity can always take one more element.\<close>

definition vec_growable :: "'a vec \<Rightarrow> bool" where
  "vec_growable v \<longleftrightarrow> vec_ok v \<and> 0 < m_capacity v"

lemma vec_okD:
  assumes "vec_ok v"
  shows "length (m_data v) = m_capacity v" "m_size v \<le> m_capacity v"
    "length (vec_list v) = m_size v" "take (m_size v) (m_data v) = map Some (vec_list v)"
proof -
  show "length (m_data v) = m_capacity v" "m_size v \<le> m_capacity v"
    using assms by (simp_all add: vec_ok_def)
  then show "length (vec_list v) = m_size v" by (simp add: vec_list_def)
  have "map (Some \<circ> the) xs = xs" if "list_all (\<lambda>c. c \<noteq> None) xs" for xs :: "'a option list"
    using that by (induction xs) auto
  then show "take (m_size v) (m_data v) = map Some (vec_list v)"
    using assms by (simp add: vec_ok_def vec_list_def)
qed

lemma vec_okI:
  assumes "m_data v = map Some xs @ cells" "m_size v = length xs" "m_capacity v = length (m_data v)"
  shows "vec_ok v" "vec_list v = xs"
  using assms by (simp_all add: vec_ok_def vec_list_def list_all_iff)

lemma vec_data_split:
  assumes "vec_ok v"
  obtains cells where "m_data v = map Some (vec_list v) @ cells" "length cells = m_capacity v - m_size v"
  using vec_okD [OF assms]
  by (metis append_take_drop_id length_drop)

lemma vec_with_capacity_ok [simp]:
  "vec_growable (vec_with_capacity c)" "vec_list (vec_with_capacity c) = []"
  "m_capacity (vec_with_capacity c) = (if c = 0 then 8 else c)"
  "m_size (vec_with_capacity c) = 0"
  by (simp_all add: vec_growable_def vec_ok_def vec_list_def vec_with_capacity_def Let_def)

lemma vec_access_nth:
  assumes "vec_ok v"
  shows "vec_access v pos = (if pos < length (vec_list v) then Inr (vec_list v ! pos)
    else Inl AssertionFailed)"
proof -
  obtain cells where "m_data v = map Some (vec_list v) @ cells"
    using assms by (rule vec_data_split)
  then show ?thesis
    using vec_okD [OF assms] by (auto simp: vec_access_def nth_append)
qed

lemma ensure_capacity_ok:
  assumes ok: "vec_ok v"
  shows "ensure_capacity v cap True =
    (if cap \<le> m_capacity v \<or> cap \<le> 2 * m_capacity v
     then ensure_capacity v cap True else Inl AssertionFailed)"
    and "cap \<le> 2 * m_capacity v \<Longrightarrow>
      \<exists>v'. ensure_capacity v cap True = Inr v' \<and> vec_ok v' \<and> vec_list v' = vec_list v
        \<and> m_size v' = m_size v \<and> cap \<le> m_capacity v' \<and> m_capacity v \<le> m_capacity v'"
proof -
  show "ensure_capacity v cap True =
    (if cap \<le> m_capacity v \<or> cap \<le> 2 * m_capacity v
     then ensure_capacity v cap True else Inl AssertionFailed)"
    by (simp add: ensure_capacity_def)
next
  assume cap: "cap \<le> 2 * m_capacity v"
  note d = vec_okD [OF ok]
  show "\<exists>v'. ensure_capacity v cap True = Inr v' \<and> vec_ok v' \<and> vec_list v' = vec_list v
        \<and> m_size v' = m_size v \<and> cap \<le> m_capacity v' \<and> m_capacity v \<le> m_capacity v'"
  proof (cases "cap \<le> m_capacity v")
    case True
    then show ?thesis using ok by (auto simp: ensure_capacity_def)
  next
    case False
    let ?new = "map Some (vec_list v) @ replicate (m_capacity v * 2 - m_size v) None"
    let ?v = "v\<lparr>m_data := ?new, m_capacity := m_capacity v * 2\<rparr>"
    have "ensure_capacity v cap True = Inr ?v"
      using False cap d by (simp add: ensure_capacity_def move_to_buffer_def memcpy_eq)
    moreover have "vec_ok ?v" "vec_list ?v = vec_list v"
      using d by (auto intro: vec_okI)
    ultimately show ?thesis using cap by auto
  qed
qed

lemma construct_at_end_ok:
  assumes ok: "vec_ok v" and room: "m_size v < m_capacity v"
  shows "\<exists>v'. construct_at_end v x = Inr v' \<and> vec_ok v' \<and> vec_list v' = vec_list v @ [x]
    \<and> m_capacity v' = m_capacity v"
proof -
  obtain cells where cells: "m_data v = map Some (vec_list v) @ cells"
    "length cells = m_capacity v - m_size v" using ok by (rule vec_data_split)
  then obtain c cells' where cells': "cells = c # cells'" using room by (cases cells) auto
  let ?v = "v\<lparr>m_data := (m_data v)[m_size v := Some x], m_size := m_size v + 1\<rparr>"
  have d: "m_data ?v = map Some (vec_list v @ [x]) @ cells'"
    using cells cells' vec_okD [OF ok] by (simp add: list_update_append)
  have "vec_ok ?v" "vec_list ?v = vec_list v @ [x]"
    using vec_okI [OF d] vec_okD [OF ok] by auto
  then show ?thesis
    using room vec_okD [OF ok] by (auto simp: construct_at_end_def)
qed

lemma construct_all_ok:
  assumes "vec_ok v" "m_size v + length xs \<le> m_capacity v"
  shows "\<exists>v'. construct_all v xs = Inr v' \<and> vec_ok v' \<and> vec_list v' = vec_list v @ xs
    \<and> m_capacity v' = m_capacity v"
  using assms
proof (induction xs arbitrary: v)
  case (Cons x xs)
  then obtain v1 where v1: "construct_at_end v x = Inr v1" "vec_ok v1"
    "vec_list v1 = vec_list v @ [x]" "m_capacity v1 = m_capacity v"
    using construct_at_end_ok [of v x] by auto
  then have "m_size v1 = Suc (m_size v)"
    using vec_okD(3) [OF v1(2)] vec_okD(3) [OF Cons.prems(1)] by simp
  with Cons.IH [OF v1(2)] Cons.prems v1 show ?case by auto
qed auto

lemma vec_append_ok:
  assumes "vec_growable v"
  shows "\<exists>v'. vec_append v x = Inr v' \<and> vec_growable v' \<and> vec_list v' = vec_list v @ [x]"
proof -
  have ok: "vec_ok v" and pos: "0 < m_capacity v" using assms by (simp_all add: vec_growable_def)
  then have "m_size v + 1 \<le> 2 * m_capacity v" using vec_okD(2) [OF ok] by simp
  from ensure_capacity_ok(2) [OF ok this] obtain v1 where v1:
    "ensure_capacity v (m_size v + 1) True = Inr v1" "vec_ok v1" "vec_list v1 = vec_list v"
    "m_size v1 = m_size v" "m_size v + 1 \<le> m_capacity v1" "m_capacity v \<le> m_capacity v1" by auto
  then have "m_size v1 < m_capacity v1" by simp
  from construct_at_end_ok [OF v1(2) this, of x] v1 pos show ?thesis
    by (auto simp: vec_append_def vec_growable_def)
qed

text \<open>
  A bulk append succeeds exactly when the result fits twice the capacity: the growth step
  doubles once, and the assertion in \<^verbatim>\<open>ensure_capacity\<close> stops anything larger.
\<close>

lemma vec_concat_ok:
  assumes ok: "vec_ok v" and len: "len \<le> length data"
  shows "m_size v + len \<le> 2 * m_capacity v \<Longrightarrow>
      \<exists>v'. vec_concat v data len = Inr v' \<and> vec_ok v' \<and> vec_list v' = vec_list v @ take len data
        \<and> m_capacity v \<le> m_capacity v'"
    and "2 * m_capacity v < m_size v + len \<Longrightarrow> vec_concat v data len = Inl AssertionFailed"
proof -
  assume "m_size v + len \<le> 2 * m_capacity v"
  from ensure_capacity_ok(2) [OF ok this] obtain v1 where v1:
    "ensure_capacity v (m_size v + len) True = Inr v1" "vec_ok v1" "vec_list v1 = vec_list v"
    "m_size v1 = m_size v" "m_size v + len \<le> m_capacity v1" "m_capacity v \<le> m_capacity v1" by auto
  then have "m_size v1 + length (take len data) \<le> m_capacity v1" using len by simp
  from construct_all_ok [OF v1(2) this] v1 len
  show "\<exists>v'. vec_concat v data len = Inr v' \<and> vec_ok v' \<and> vec_list v' = vec_list v @ take len data
      \<and> m_capacity v \<le> m_capacity v'"
    by (auto simp: vec_concat_def)
next
  assume "2 * m_capacity v < m_size v + len"
  then show "vec_concat v data len = Inl AssertionFailed"
    by (simp add: vec_concat_def ensure_capacity_def)
qed

lemma vec_of_data_ok:
  assumes "n \<le> length data"
  shows "\<exists>v. vec_of_data 1 data n = Inr v \<and> vec_ok v \<and> vec_list v = take n data
    \<and> m_size v = n \<and> m_capacity v = n"
proof -
  let ?v = "\<lparr>m_data = take n (map Some data), m_capacity = n, m_size = n\<rparr>"
  have "vec_of_data 1 data n = Inr ?v" using assms by (simp add: vec_of_data_def memcpy_eq)
  moreover have "vec_ok ?v" "vec_list ?v = take n data"
    using assms by (auto intro!: vec_okI [where cells = "[]"] simp: take_map)
  ultimately show ?thesis by auto
qed

lemma vec_initialize_from_ok:
  assumes "vec_ok v"
  shows "\<exists>v'. vec_initialize_from v = Inr v' \<and> vec_ok v' \<and> vec_list v' = vec_list v
    \<and> m_capacity v' = m_capacity v \<and> m_size v' = m_size v"
proof -
  note d = vec_okD [OF assms]
  let ?v = "\<lparr>m_data = map Some (vec_list v) @ replicate (m_capacity v - m_size v) None,
    m_capacity = m_capacity v, m_size = m_size v\<rparr>"
  have "vec_initialize_from v = Inr ?v" using d by (simp add: vec_initialize_from_def memcpy_eq)
  moreover have "vec_ok ?v" "vec_list ?v = vec_list v"
    using d by (auto intro: vec_okI)
  ultimately show ?thesis by auto
qed

section \<open>The interface clients rely on\<close>

text \<open>
  What \<^verbatim>\<open>String\<close>, \<^verbatim>\<open>Path\<close> and the other users of a vector need of it: a state that keeps
  an invariant, an abstraction to the list of elements, and an append that never fails.
\<close>

locale growable_seq =
  fixes invar :: "'v \<Rightarrow> bool"
    and elems :: "'v \<Rightarrow> 'a list"
    and app :: "'v \<Rightarrow> 'a \<Rightarrow> 'v result"
  assumes app_law: "invar v \<Longrightarrow> \<exists>v'. app v x = Inr v' \<and> invar v' \<and> elems v' = elems v @ [x]"
begin

lemma append_each_Inr:
  assumes "invar v"
  shows "\<exists>v'. append_each app v (map Inr xs) = Inr v' \<and> invar v' \<and> elems v' = elems v @ xs"
  using assms
proof (induction xs arbitrary: v)
  case (Cons x xs)
  obtain v1 where "app v x = Inr v1" "invar v1" "elems v1 = elems v @ [x]"
    using app_law [OF Cons.prems] by blast
  with Cons.IH [of v1] show ?case by auto
qed auto

lemma append_each_fault:
  assumes "invar v"
  shows "append_each app v (map Inr xs @ Inl e # rxs) = Inl e"
  using assms
proof (induction xs arbitrary: v)
  case (Cons x xs)
  obtain v1 where "app v x = Inr v1" "invar v1"
    using app_law [OF Cons.prems] by blast
  with Cons.IH [of v1] show ?case by simp
qed simp

end

interpretation vec: growable_seq vec_growable vec_list vec_append
  by unfold_locales (rule vec_append_ok)

lemma vec_range_ok:
  assumes "vec_ok v" "stop \<le> length (vec_list v)"
  shows "\<exists>v'. vec_range v start stop = Inr v' \<and> vec_growable v'
    \<and> vec_list v' = take (stop - start) (drop start (vec_list v))"
proof -
  have "map (vec_access v) [start..<stop] = map Inr (map ((!) (vec_list v)) [start..<stop])"
    using assms by (simp add: vec_access_nth)
  moreover have "map ((!) (vec_list v)) [start..<stop] = take (stop - start) (drop start (vec_list v))"
    using assms(2) by (auto intro!: nth_equalityI)
  ultimately show ?thesis
    using vec.append_each_Inr [of vec_new] by (simp add: vec_range_def vec_new_def)
qed

section \<open>Bulk appends\<close>

text \<open>
  Appending a block of elements succeeds, and appends exactly these elements, exactly
  when the new size is at most twice the capacity; a larger block runs into the assertion in
  \<^verbatim>\<open>ensure_capacity\<close> instead of growing the buffer further.
\<close>

theorem vec_concat_doubles_once:
  assumes "vec_ok v" "len \<le> length data"
  shows "if m_size v + len \<le> 2 * m_capacity v
    then \<exists>v'. vec_concat v data len = Inr v' \<and> vec_ok v' \<and> vec_list v' = vec_list v @ take len data
      \<and> m_capacity v \<le> m_capacity v'
    else vec_concat v data len = Inl AssertionFailed"
  using vec_concat_ok [OF assms] by simp

theorem vec_concat_doubles_once_witness:
  "vec_concat (vec_new :: nat vec) (replicate 17 0) 17 = Inl AssertionFailed"
  using vec_concat_doubles_once [of "vec_new :: nat vec" 17 "replicate 17 0"]
    vec_with_capacity_ok(1) [of 8, where 'a = nat] by (simp add: vec_new_def vec_growable_def)

end
