(* ===== verification/Strings.thy ===== *)
theory Strings
  imports Vectors
begin

text \<open>
  The string class of \<^verbatim>\<open>libc/types/String.cpp\<close>: a NUL-terminated buffer with its length,
  on the vector model and the C string routines. \<open>str_ok\<close> is the class invariant and
  \<open>chars\<close> the text a string holds; every operation refines the operation on lists.
\<close>

section \<open>State and operations\<close>

record str =
  m_chars :: "string option"
  m_len :: nat

definition String_empty :: str where
  "String_empty = \<lparr>m_chars = Some [NUL], m_len = 0\<rparr>"

definition init_from :: "string \<Rightarrow> nat \<Rightarrow> str result" where
  "init_from cs n =
     rbind (memcpy (replicate (n + 1) NUL) cs n) (\<lambda>buf.
       Inr \<lparr>m_chars = Some (buf[n := NUL]), m_len = n\<rparr>)"

definition String_of_cstr :: "string \<Rightarrow> str result" where
  "String_of_cstr cs = rbind (strlen cs) (\<lambda>n. init_from cs n)"

definition String_of_char :: "char \<Rightarrow> str result" where
  "String_of_char c = init_from [c, NUL] 1"

definition c_str :: "str \<Rightarrow> string result" where
  "c_str s = (case m_chars s of None \<Rightarrow> Inl AssertionFailed | Some cs \<Rightarrow> Inr cs)"

text \<open>Reading \<^verbatim>\<open>m_chars\<close> directly: there is no assertion on the null pointer.\<close>

definition raw_chars :: "str \<Rightarrow> string result" where
  "raw_chars s = (case m_chars s of None \<Rightarrow> Inl BadAccess | Some cs \<Rightarrow> Inr cs)"

definition String_copy :: "str \<Rightarrow> str result" where
  "String_copy other = rbind (raw_chars other) (\<lambda>cs. init_from cs (m_len other))"

text \<open>The move constructor: the new string, and the emptied one.\<close>

definition String_move :: "str \<Rightarrow> str \<times> str" where
  "String_move other = (other, \<lparr>m_chars = None, m_len = 0\<rparr>)"

definition str_index :: "str \<Rightarrow> nat \<Rightarrow> char result" where
  "str_index s idx =
     rbind (assert_that (idx < m_len s)) (\<lambda>_.
     rbind (c_str s) (\<lambda>cs. if idx < length cs then Inr (cs ! idx) else Inl BadAccess))"

definition str_eq :: "str \<Rightarrow> str \<Rightarrow> bool result" where
  "str_eq s other =
     (if m_len s \<noteq> m_len other then Inr False
      else rbind (raw_chars s) (\<lambda>a. rbind (raw_chars other) (\<lambda>b.
           rbind (memcmp a b (m_len s)) (\<lambda>r. Inr (r = 0)))))"

definition str_neq :: "str \<Rightarrow> str \<Rightarrow> bool result" where
  "str_neq s other =
     (if m_len s \<noteq> m_len other then Inr True
      else rbind (raw_chars s) (\<lambda>a. rbind (raw_chars other) (\<lambda>b.
           rbind (memcmp a b (m_len s)) (\<lambda>r. Inr (r \<noteq> 0)))))"

definition startswith :: "str \<Rightarrow> str \<Rightarrow> bool result" where
  "startswith s other =
     (if m_len s < m_len other then Inr False
      else rbind (c_str s) (\<lambda>a. rbind (c_str other) (\<lambda>b.
           rbind (strncmp a b (m_len other)) (\<lambda>r. Inr (r = 0)))))"

definition substr :: "str \<Rightarrow> int \<Rightarrow> int \<Rightarrow> str result" where
  "substr s start stop =
     (let stop' = (if stop < 0 \<or> stop > int (m_len s) then int (m_len s) else stop)
      in rbind (assert_that (start \<ge> 0)) (\<lambda>_.
         rbind (assert_that (stop' > start)) (\<lambda>_.
         rbind (c_str s) (\<lambda>cs. init_from (drop (nat start) cs) (nat (stop' - start))))))"

function find_loop :: "string \<Rightarrow> string \<Rightarrow> nat \<Rightarrow> nat \<Rightarrow> nat \<Rightarrow> int result" where
  "find_loop cs pat pat_len n i =
     (if i < n then
        rbind (strncmp (drop i cs) pat pat_len) (\<lambda>r.
          if r = 0 then Inr (int i) else find_loop cs pat pat_len n (i + 1))
      else Inr (-1))"
  by pat_completeness auto
termination
  by (relation "measure (\<lambda>(cs, pat, pat_len, n, i). n - i)") auto

definition str_find :: "str \<Rightarrow> str \<Rightarrow> nat \<Rightarrow> int result" where
  "str_find s pattern start =
     rbind (c_str s) (\<lambda>cs. rbind (c_str pattern) (\<lambda>pat.
       find_loop cs pat (m_len pattern) (m_len s) start))"

declare find_loop.simps [simp del]

lemma find_loop_range:
  "find_loop cs pat pat_len n i = Inr r \<Longrightarrow> r = -1 \<or> int i \<le> r \<and> r < int n"
proof (induction cs pat pat_len n i rule: find_loop.induct)
  case (1 cs pat pat_len n i)
  from 1(2) show ?case
    by (subst (asm) find_loop.simps) (use 1(1) in \<open>fastforce split: if_splits\<close>)
qed

lemma str_find_range: "str_find s p i = Inr r \<Longrightarrow> r = -1 \<or> int i \<le> r \<and> r < int (m_len s)"
  by (auto simp: str_find_def dest: find_loop_range)

text \<open>The inner loop of \<^verbatim>\<open>split\<close>: the number of delimiters it steps over.\<close>

fun skip_delims :: "string \<Rightarrow> char \<Rightarrow> nat result" where
  "skip_delims [] delim = Inl BadAccess"
| "skip_delims (c # cs) delim =
     (if c = delim then rbind (skip_delims cs delim) (\<lambda>n. Inr (Suc n)) else Inr 0)"

function split_loop :: "str \<Rightarrow> char \<Rightarrow> str \<Rightarrow> nat \<Rightarrow> str vec \<Rightarrow> str vec result" where
  "split_loop s delim delim_str prev_idx ret =
     rbind (str_find s delim_str prev_idx) (\<lambda>idx.
       if idx = -1 then
         (if m_len s > prev_idx then rbind (substr s (int prev_idx) (-1)) (\<lambda>p. vec_append ret p)
          else Inr ret)
       else
         rbind (substr s (int prev_idx) idx) (\<lambda>p.
         rbind (vec_append ret p) (\<lambda>ret'.
         rbind (raw_chars s) (\<lambda>cs.
         rbind (skip_delims (drop (nat idx + 1) cs) delim) (\<lambda>n.
           split_loop s delim delim_str (nat idx + 1 + n) ret')))))"
  by pat_completeness auto
termination
  by (relation "measure (\<lambda>(s, delim, delim_str, prev_idx, ret). m_len s - prev_idx)")
    (auto dest!: str_find_range)

declare split_loop.simps [simp del]

definition split :: "str \<Rightarrow> char \<Rightarrow> nat \<Rightarrow> str vec result" where
  "split s delim capacity =
     (if delim = NUL then Inr (vec_with_capacity capacity)
      else rbind (String_of_char delim) (\<lambda>delim_str.
           split_loop s delim delim_str 0 (vec_with_capacity capacity)))"

text \<open>\<open>i\<close> counts down: the loop looks at position \<open>i - 1\<close>.\<close>

fun find_last_loop :: "string \<Rightarrow> char \<Rightarrow> nat \<Rightarrow> int result" where
  "find_last_loop cs c 0 = Inr (-1)"
| "find_last_loop cs c (Suc i) =
     (if i < length cs then (if cs ! i = c then Inr (int i) else find_last_loop cs c i)
      else Inl BadAccess)"

definition find_last_of :: "str \<Rightarrow> char \<Rightarrow> int result" where
  "find_last_of s c = rbind (raw_chars s) (\<lambda>cs. find_last_loop cs c (m_len s))"

definition str_plus :: "str \<Rightarrow> str \<Rightarrow> str result" where
  "str_plus s other =
     rbind (raw_chars s) (\<lambda>a.
     rbind (vec_concat (vec_with_capacity (m_len s + m_len other + 1)) a (m_len s)) (\<lambda>ret.
     rbind (raw_chars other) (\<lambda>b.
     rbind (vec_concat ret b (m_len other)) (\<lambda>ret'.
     rbind (assert_that (m_size ret' = m_len s + m_len other)) (\<lambda>_.
       init_from (vec_list ret') (m_size ret'))))))"

definition lower_char :: "char \<Rightarrow> char" where
  "lower_char c = (if schar c \<ge> 65 \<and> schar c \<le> 90 then char_of (of_char c + 32 :: nat) else c)"

definition str_lower :: "str \<Rightarrow> str result" where
  "str_lower s =
     rbind (raw_chars s) (\<lambda>cs.
     rbind (append_each vec_append (vec_with_capacity (m_len s))
       (map (\<lambda>i. if i < length cs then Inr (lower_char (cs ! i)) else Inl BadAccess) [0..<m_len s]))
       (\<lambda>ret. init_from (vec_list ret) (m_size ret)))"

section \<open>The class invariant\<close>

definition chars :: "str \<Rightarrow> string" where
  "chars s = (case m_chars s of None \<Rightarrow> [] | Some cs \<Rightarrow> take (m_len s) cs)"

definition str_ok :: "str \<Rightarrow> bool" where
  "str_ok s \<longleftrightarrow> m_chars s = Some (chars s @ [NUL]) \<and> m_len s = length (chars s)"

text \<open>The string that holds given characters.\<close>

definition mk_str :: "string \<Rightarrow> str" where
  "mk_str cs = \<lparr>m_chars = Some (cs @ [NUL]), m_len = length cs\<rparr>"

lemma mk_str_simps [simp]:
  "m_chars (mk_str cs) = Some (cs @ [NUL])" "m_len (mk_str cs) = length cs"
  "chars (mk_str cs) = cs" "str_ok (mk_str cs)"
  by (simp_all add: mk_str_def chars_def str_ok_def)

lemma str_ok_mk: "str_ok s \<longleftrightarrow> s = mk_str (chars s)"
proof
  assume "str_ok s"
  then show "s = mk_str (chars s)" by (cases s) (simp add: str_ok_def mk_str_def)
qed (metis mk_str_simps(4))

lemma mk_str_inj [simp]: "mk_str a = mk_str b \<longleftrightarrow> a = b"
  by (metis mk_str_simps(3))

lemma mk_str_chars [simp]: "str_ok s \<Longrightarrow> mk_str (chars s) = s"
  using str_ok_mk by simp

lemma String_empty_mk [simp]: "String_empty = mk_str []"
  by (simp add: String_empty_def mk_str_def)

lemma c_str_mk [simp]: "c_str (mk_str cs) = Inr (cs @ [NUL])" "raw_chars (mk_str cs) = Inr (cs @ [NUL])"
  by (simp_all add: c_str_def raw_chars_def)

lemma init_from_ok: "n \<le> length cs \<Longrightarrow> init_from cs n = Inr (mk_str (take n cs))"
  by (simp add: init_from_def memcpy_eq mk_str_def list_update_append replicate_append_same [symmetric]
    del: replicate_Suc) simp

lemma String_of_cstr_ok: "NUL \<notin> set s \<Longrightarrow> String_of_cstr (s @ NUL # r) = Inr (mk_str s)"
  by (simp add: String_of_cstr_def strlen_NUL init_from_ok)

lemma String_of_char_ok: "String_of_char c = Inr (mk_str [c])"
  by (simp add: String_of_char_def init_from_ok)

lemma String_copy_ok: "str_ok s \<Longrightarrow> String_copy s = Inr s"
  by (subst (asm) str_ok_mk, erule ssubst) (simp add: String_copy_def init_from_ok)

lemma str_eq_ok: "str_eq (mk_str a) (mk_str b) = Inr (a = b)"
  using memcmp_eq_0 [of "length a" "a @ [NUL]" "b @ [NUL]"] by (auto simp: str_eq_def)

lemma str_neq_ok: "str_neq (mk_str a) (mk_str b) = Inr (a \<noteq> b)"
  using memcmp_eq_0 [of "length a" "a @ [NUL]" "b @ [NUL]"] by (auto simp: str_neq_def)

lemma str_index_ok: "str_index (mk_str cs) i = (if i < length cs then Inr (cs ! i) else Inl AssertionFailed)"
  by (simp add: str_index_def nth_append)

lemma startswith_ok:
  assumes "NUL \<notin> set a" "NUL \<notin> set b" "b \<noteq> []"
  shows "startswith (mk_str a) (mk_str b) = Inr (take (length b) a = b)"
  using strncmp_eq_0 [OF assms(1,2), of "length b" "[]" "[]"] assms(3)
  by (auto simp: startswith_def)

lemma substr_ok:
  assumes "start < stop" "stop \<le> length cs"
  shows "substr (mk_str cs) (int start) (int stop) = Inr (mk_str (take (stop - start) (drop start cs)))"
proof -
  have "nat (int stop - int start) = stop - start" by simp
  then show ?thesis using assms by (simp add: substr_def init_from_ok)
qed

lemma substr_rest:
  "substr (mk_str cs) (int start) (-1) =
     (if start < length cs then Inr (mk_str (drop start cs)) else Inl AssertionFailed)"
proof -
  have "nat (int (length cs) - int start) = length cs - start" by simp
  then show ?thesis by (simp add: substr_def init_from_ok)
qed

lemma substr_bad: "0 \<le> stop \<Longrightarrow> stop \<le> start \<Longrightarrow> substr s start stop = Inl AssertionFailed"
  by (auto simp: substr_def Let_def)

lemma str_plus_ok: "str_plus (mk_str a) (mk_str b) = Inr (mk_str (a @ b))"
proof -
  let ?v0 = "vec_with_capacity (length a + length b + 1) :: char vec"
  have v0: "vec_ok ?v0" using vec_with_capacity_ok(1) vec_growable_def by blast
  obtain v1 where v1: "vec_concat ?v0 (a @ [NUL]) (length a) = Inr v1" "vec_ok v1" "vec_list v1 = a"
    "length a + length b + 1 \<le> m_capacity v1"
    using vec_concat_ok(1) [OF v0, of "length a" "a @ [NUL]"] by auto
  then have s1: "m_size v1 = length a" using vec_okD(3) by fastforce
  then obtain v2 where v2: "vec_concat v1 (b @ [NUL]) (length b) = Inr v2" "vec_ok v2"
    "vec_list v2 = a @ b"
    using vec_concat_ok(1) [OF v1(2), of "length b" "b @ [NUL]"] v1 by auto
  then have "m_size v2 = length a + length b" using vec_okD(3) [OF v2(2)] by simp
  then show ?thesis using v1(1) v2 by (simp add: str_plus_def init_from_ok)
qed

lemma str_lower_ok: "str_lower (mk_str cs) = Inr (mk_str (map lower_char cs))"
proof -
  have eq: "map (\<lambda>i. if i < Suc (length cs) then Inr (lower_char ((cs @ [NUL]) ! i))
      else Inl BadAccess) [0..<length cs] = map Inr (map lower_char cs)"
    by (rule nth_equalityI) (simp_all add: nth_append)
  obtain v where v: "append_each vec_append (vec_with_capacity (length cs))
      (map Inr (map lower_char cs)) = Inr v" "vec_growable v" "vec_list v = map lower_char cs"
    using vec.append_each_Inr [of "vec_with_capacity (length cs)" "map lower_char cs"] by auto
  then have "m_size v = length cs" using vec_okD(3) by (fastforce simp: vec_growable_def)
  then show ?thesis using v by (simp add: str_lower_def eq init_from_ok del: map_map)
qed

lemma find_last_loop_ok:
  "n \<le> length cs \<Longrightarrow> \<exists>r. find_last_loop cs c n = Inr r
     \<and> (r = -1 \<and> c \<notin> set (take n cs)
        \<or> (\<exists>i<n. r = int i \<and> cs ! i = c \<and> (\<forall>j. i < j \<and> j < n \<longrightarrow> cs ! j \<noteq> c)))"
proof (induction n)
  case (Suc n)
  then show ?case
    by (auto simp: take_Suc_conv_app_nth less_Suc_eq)
qed simp

section \<open>Searching and splitting\<close>

text \<open>The specification of a search: the first position from \<open>i\<close> on where the pattern occurs.\<close>

definition occurs_at :: "string \<Rightarrow> string \<Rightarrow> nat \<Rightarrow> bool" where
  "occurs_at pat cs i \<longleftrightarrow> i < length cs \<and> take (length pat) (drop i cs) = pat"

lemma find_loop_ok:
  assumes "NUL \<notin> set cs" "NUL \<notin> set pat" "pat \<noteq> []"
  shows "\<exists>r. find_loop (cs @ [NUL]) (pat @ [NUL]) (length pat) (length cs) i = Inr r
    \<and> (r = -1 \<and> (\<forall>j\<ge>i. \<not> occurs_at pat cs j)
       \<or> (\<exists>k\<ge>i. r = int k \<and> occurs_at pat cs k \<and> (\<forall>j. i \<le> j \<and> j < k \<longrightarrow> \<not> occurs_at pat cs j)))"
proof (induction "length cs - i" arbitrary: i)
  case 0
  then show ?case by (auto simp: find_loop.simps occurs_at_def)
next
  case (Suc n)
  then have i: "i < length cs" by simp
  have "NUL \<notin> set (drop i cs)" using assms(1) by (meson in_set_dropD)
  then obtain r where r: "strncmp (drop i cs @ [NUL]) (pat @ [NUL]) (length pat) = Inr r"
    "r = 0 \<longleftrightarrow> occurs_at pat cs i"
    using strncmp_eq_0 [of "drop i cs" pat "length pat" "[]" "[]"] assms i
    by (auto simp: occurs_at_def)
  note step = find_loop.simps [of "cs @ [NUL]" "pat @ [NUL]" "length pat" "length cs" i]
  have rest: "\<exists>r. find_loop (cs @ [NUL]) (pat @ [NUL]) (length pat) (length cs) (Suc i) = Inr r
    \<and> (r = -1 \<and> (\<forall>j\<ge>Suc i. \<not> occurs_at pat cs j)
       \<or> (\<exists>k\<ge>Suc i. r = int k \<and> occurs_at pat cs k
            \<and> (\<forall>j. Suc i \<le> j \<and> j < k \<longrightarrow> \<not> occurs_at pat cs j)))"
    using Suc by (intro Suc.hyps(1)) simp
  show ?case
  proof (cases "occurs_at pat cs i")
    case True
    then show ?thesis using i r by (subst step) auto
  next
    case False
    have ex: "(\<forall>j\<ge>i. \<not> occurs_at pat cs j) \<longleftrightarrow> (\<forall>j\<ge>Suc i. \<not> occurs_at pat cs j)"
      using False by (metis Suc_leI le_neq_implies_less Suc_leD)
    have all: "(\<forall>j. i \<le> j \<and> j < k \<longrightarrow> \<not> occurs_at pat cs j)"
      if "\<forall>j. Suc i \<le> j \<and> j < k \<longrightarrow> \<not> occurs_at pat cs j" for k
      using False that by (metis Suc_leI le_neq_implies_less)
    show ?thesis using rest False i r by (subst step) (fastforce simp: ex dest: all)
  qed
qed

lemma find_char_ok:
  assumes "d \<noteq> NUL"
  shows "find_loop (cs @ [NUL]) [d, NUL] 1 (length cs) i =
    Inr (if d \<in> set (drop i cs) then int (i + length (takeWhile (\<lambda>c. c \<noteq> d) (drop i cs))) else -1)"
proof (induction "length cs - i" arbitrary: i)
  case 0
  then show ?case by (simp add: find_loop.simps)
next
  case (Suc n)
  then have i: "i < length cs" by simp
  then have split: "drop i cs = cs ! i # drop (Suc i) cs" by (rule Cons_nth_drop_Suc [symmetric])
  have IH: "find_loop (cs @ [NUL]) [d, NUL] 1 (length cs) (Suc i) =
    Inr (if d \<in> set (drop (Suc i) cs)
      then int (Suc i + length (takeWhile (\<lambda>c. c \<noteq> d) (drop (Suc i) cs))) else -1)"
    using Suc by (intro Suc.hyps(1)) simp
  have "strncmp (drop i (cs @ [NUL])) [d, NUL] 1 = Inr (schar (cs ! i) - schar d)"
    using i by (simp add: strncmp_def size_sub_def split)
  then show ?case
    by (subst find_loop.simps) (use i IH split in \<open>auto simp: set_drop_subset\<close>)
qed

lemma skip_delims_ok:
  "d \<noteq> NUL \<Longrightarrow> skip_delims (xs @ [NUL]) d = Inr (length (takeWhile (\<lambda>c. c = d) xs))"
  by (induction xs) auto

text \<open>The specification of \<^verbatim>\<open>split\<close>: the maximal runs of characters other than the delimiter.\<close>

function tokens :: "char \<Rightarrow> string \<Rightarrow> string list" where
  "tokens d [] = []"
| "tokens d (c # cs) =
     (if c = d then tokens d cs
      else takeWhile (\<lambda>x. x \<noteq> d) (c # cs) # tokens d (dropWhile (\<lambda>x. x \<noteq> d) cs))"
  by pat_completeness auto
termination
  by (relation "measure (\<lambda>(d, cs). length cs)") (auto simp: le_imp_less_Suc length_dropWhile_le)

lemma tokens_skip: "tokens d (dropWhile (\<lambda>c. c = d) xs) = tokens d xs"
  by (induction xs) auto

lemma tokens_step:
  assumes "xs \<noteq> []" "hd xs \<noteq> d"
  shows "tokens d xs = takeWhile (\<lambda>x. x \<noteq> d) xs # tokens d (dropWhile (\<lambda>x. x \<noteq> d) xs)"
  using assms by (cases xs) auto

lemma tokens_last:
  assumes "xs \<noteq> []" "d \<notin> set xs"
  shows "tokens d xs = [xs]"
proof -
  have e: "dropWhile (\<lambda>x. x \<noteq> d) xs = []" "takeWhile (\<lambda>x. x \<noteq> d) xs = xs"
    using assms(2) by (auto simp: takeWhile_eq_all_conv)
  have "hd xs \<noteq> d" using assms by (metis hd_in_set)
  with assms show ?thesis by (simp add: tokens_step e del: dropWhile_eq_Nil_conv)
qed

lemma split_loop_ok:
  assumes "d \<noteq> NUL" "p \<le> length cs" "p < length cs \<Longrightarrow> cs ! p \<noteq> d" "vec_growable ret"
  shows "\<exists>v. split_loop (mk_str cs) d (mk_str [d]) p ret = Inr v \<and> vec_growable v
    \<and> vec_list v = vec_list ret @ map mk_str (tokens d (drop p cs))"
  using assms(2-)
proof (induction "length cs - p" arbitrary: p ret rule: less_induct)
  case less
  let ?rest = "drop p cs"
  note step = split_loop.simps [of "mk_str cs" d "mk_str [d]" p ret]
  have find: "str_find (mk_str cs) (mk_str [d]) p =
    Inr (if d \<in> set ?rest then int (p + length (takeWhile (\<lambda>c. c \<noteq> d) ?rest)) else -1)"
    using find_char_ok [OF assms(1), of cs p] by (simp add: str_find_def)
  show ?case
  proof (cases "d \<in> set ?rest")
    case False
    show ?thesis
    proof (cases "p < length cs")
      case True
      have "substr (mk_str cs) (int p) (-1) = Inr (mk_str ?rest)" using True by (simp add: substr_rest)
      then show ?thesis
        using vec_append_ok [OF less.prems(3), of "mk_str ?rest"] find False True
        by (subst step) (simp add: tokens_last)
    next
      case F: False
      then show ?thesis using find False less.prems by (subst step) simp
    qed
  next
    case True
    define k where "k = length (takeWhile (\<lambda>c. c \<noteq> d) ?rest)"
    have pl: "p < length cs" using True by (cases "p < length cs") auto
    then have hd: "?rest \<noteq> []" "hd ?rest \<noteq> d" using less.prems by (auto simp: hd_drop_conv_nth)
    have k: "0 < k" "k < length ?rest" "take k ?rest = takeWhile (\<lambda>c. c \<noteq> d) ?rest"
      "drop k ?rest = dropWhile (\<lambda>c. c \<noteq> d) ?rest"
    proof -
      show "0 < k" using hd by (cases ?rest) (auto simp: k_def)
      have "takeWhile (\<lambda>c. c \<noteq> d) ?rest \<noteq> ?rest" using True by (metis (full_types) set_takeWhileD)
      then show "k < length ?rest"
        unfolding k_def by (metis length_takeWhile_le nat_less_le takeWhile_eq_take take_all_iff)
      show "take k ?rest = takeWhile (\<lambda>c. c \<noteq> d) ?rest" "drop k ?rest = dropWhile (\<lambda>c. c \<noteq> d) ?rest"
        unfolding k_def by (simp_all add: takeWhile_eq_take [symmetric] dropWhile_eq_drop)
    qed
    have sub: "substr (mk_str cs) (int p) (int (p + k)) = Inr (mk_str (take k ?rest))"
      using substr_ok [of p "p + k" cs] k by simp
    obtain r1 where r1: "vec_append ret (mk_str (take k ?rest)) = Inr r1" "vec_growable r1"
      "vec_list r1 = vec_list ret @ [mk_str (take k ?rest)]"
      using vec_append_ok [OF less.prems(3)] by blast
    define xs where "xs = drop (Suc (p + k)) cs"
    define n where "n = length (takeWhile (\<lambda>c. c = d) xs)"
    have skip: "skip_delims (drop (Suc (p + k)) (cs @ [NUL])) d = Inr n"
      using skip_delims_ok [OF assms(1), of xs] k by (simp add: xs_def n_def)
    let ?q = "Suc (p + k) + n"
    have n: "n \<le> length xs" unfolding n_def by (rule length_takeWhile_le)
    then have q: "?q \<le> length cs" using k by (simp add: xs_def)
    have drop_q: "drop ?q cs = dropWhile (\<lambda>c. c = d) xs"
      unfolding n_def xs_def by (simp add: dropWhile_eq_drop add.commute)
    have q_hd: "cs ! ?q \<noteq> d" if "?q < length cs"
      using that hd_dropWhile [of "\<lambda>c. c = d" xs] drop_q
      by (metis (mono_tags, lifting) drop_eq_Nil2 hd_drop_conv_nth leD)
    have "drop k ?rest \<noteq> [] \<and> hd (drop k ?rest) = d"
      using k True hd_dropWhile [of "\<lambda>c. c \<noteq> d" ?rest] by auto
    then have "dropWhile (\<lambda>c. c \<noteq> d) ?rest = d # xs"
      using k(2,4) Cons_nth_drop_Suc [of "p + k" cs] by (simp add: xs_def add.commute) (metis list.sel(1))
    then have tok: "tokens d ?rest = take k ?rest # tokens d (drop ?q cs)"
      using tokens_step [OF hd] k(3) unfolding drop_q by (simp add: tokens_skip)
    have "split_loop (mk_str cs) d (mk_str [d]) p ret = split_loop (mk_str cs) d (mk_str [d]) ?q r1"
      using find True sub r1 skip by (subst step) (simp add: k_def nat_add_distrib)
    moreover have "length cs - ?q < length cs - p" using pl q by simp
    ultimately show ?thesis
      using less.hyps [of ?q r1] q q_hd r1 by (simp add: tok)
  qed
qed

section \<open>Properties\<close>

text \<open>
  \<^verbatim>\<open>String::find\<close> returns the first position at or after \<open>start\<close> where the pattern
  occurs, and -1 exactly when there is none, on strings without an embedded NUL.
\<close>

theorem find_first_occurrence:
  assumes "str_ok s" "str_ok pat" "NUL \<notin> set (chars s)" "NUL \<notin> set (chars pat)" "chars pat \<noteq> []"
  shows "\<exists>r. str_find s pat start = Inr r
    \<and> (r = -1 \<and> (\<forall>j\<ge>start. \<not> occurs_at (chars pat) (chars s) j)
       \<or> (\<exists>k\<ge>start. r = int k \<and> occurs_at (chars pat) (chars s) k
            \<and> (\<forall>j. start \<le> j \<and> j < k \<longrightarrow> \<not> occurs_at (chars pat) (chars s) j)))"
proof -
  obtain cs p where "s = mk_str cs" "pat = mk_str p" using assms(1,2) str_ok_mk by blast
  then show ?thesis using find_loop_ok [of cs p start] assms(3-5) by (simp add: str_find_def)
qed

theorem find_first_occurrence_witness:
  "\<exists>r. str_find (mk_str ''abcabc'') (mk_str ''bc'') 2 = Inr r
    \<and> (r = -1 \<and> (\<forall>j\<ge>2. \<not> occurs_at ''bc'' ''abcabc'' j)
       \<or> (\<exists>k\<ge>2. r = int k \<and> occurs_at ''bc'' ''abcabc'' k
            \<and> (\<forall>j. 2 \<le> j \<and> j < k \<longrightarrow> \<not> occurs_at ''bc'' ''abcabc'' j)))"
  using find_first_occurrence [of "mk_str ''abcabc''" "mk_str ''bc''" 2] by simp

text \<open>
  \<^verbatim>\<open>String::split\<close> always returns or panics, never reads past the buffer, and decides by
  the first character: on a string that starts with the delimiter the assertion of
  \<^verbatim>\<open>substr\<close> fails, on every other string the result is the list of maximal runs of
  characters other than the delimiter.
\<close>

theorem split_tokens:
  assumes "str_ok s" "d \<noteq> NUL"
  shows "if chars s \<noteq> [] \<and> hd (chars s) = d then split s d cap = Inl AssertionFailed
    else \<exists>v. split s d cap = Inr v \<and> vec_ok v \<and> list_all str_ok (vec_list v)
      \<and> map chars (vec_list v) = tokens d (chars s)"
proof -
  obtain cs where s: "s = mk_str cs" using assms(1) str_ok_mk by blast
  show ?thesis
  proof (cases "cs \<noteq> [] \<and> hd cs = d")
    case True
    then have "str_find s (mk_str [d]) 0 = Inr 0"
      using find_char_ok [OF assms(2), of cs 0] by (cases cs) (auto simp: s str_find_def)
    then show ?thesis
      using True assms by (simp add: s split_def String_of_char_ok split_loop.simps substr_bad)
  next
    case False
    then have "cs ! 0 \<noteq> d" if "0 < length cs" using that by (simp add: hd_conv_nth)
    with split_loop_ok [OF assms(2), of 0 cs "vec_with_capacity cap"]
    obtain v where "split_loop s d (mk_str [d]) 0 (vec_with_capacity cap) = Inr v" "vec_growable v"
      "vec_list v = map mk_str (tokens d cs)" by (auto simp: s)
    then have "split s d cap = Inr v \<and> vec_ok v \<and> list_all str_ok (vec_list v)
      \<and> map chars (vec_list v) = tokens d (chars s)"
      using assms(2) by (simp add: split_def String_of_char_ok vec_growable_def list_all_iff comp_def s)
    then show ?thesis using False s by auto
  qed
qed

theorem split_tokens_witness:
  "\<exists>v. split (mk_str ''a//b/'') CHR ''/'' 0 = Inr v \<and> vec_ok v \<and> list_all str_ok (vec_list v)
    \<and> map chars (vec_list v) = [''a'', ''b'']"
  using split_tokens [of "mk_str ''a//b/''" "CHR ''/''" 0] by simp

end
