(* ===== verification/Scheduling.thy ===== *)
theory Scheduling
  imports Strings
begin

text \<open>
  The scheduler: \<^verbatim>\<open>kernel/Scheduler.cpp\<close>, the blockers of \<^verbatim>\<open>kernel/TaskBlocker.cpp\<close>, the timer
  of \<^verbatim>\<open>kernel/drivers/PIT.cpp\<close> and \<^verbatim>\<open>kernel/sleep.cpp\<close>. A process is named by its pid; the
  two process lists are the abstract lists the linked-list theory gives them. The register
  switch of \<^verbatim>\<open>switch_to_task\<close> is the change of the current task. \<open>sched_ok\<close> says that every
  process is in one place and in the state that place stands for.
\<close>

section \<open>State\<close>

datatype TaskState = Running | Runnable | Blocked | Dead

datatype Reason = PendingMessage | FdReady

datatype blocker =
    SleepBlocker u32 u32
  | WaitBlocker bool
  | PendingMessageBlocker nat
  | PendingInputBlocker nat "nat list"
  | FileReadableBlocker nat

record message =
  msg_pid :: nat
  msg_data :: "u8 list"

text \<open>
  Files are named by numbers. \<open>p_ready\<close> is what a \<^verbatim>\<open>PendingInputBlocker\<close> stores through its two
  references, \<open>p_waiter\<close> the process whose \<^verbatim>\<open>WaitBlocker\<close> \<^verbatim>\<open>m_waiter\<close> points to.
\<close>

record proc =
  p_state :: TaskState
  p_blocker :: "blocker option"
  p_name :: string
  p_cwd :: str
  p_fds :: "nat option list"
  p_waiter :: "nat option"
  p_messages :: "message list"
  p_ready :: "nat \<times> Reason"
  p_next_shm :: u32

record sched =
  m_runanble_list :: "nat list"
  m_blocked_list :: "nat list"
  m_idle_process :: "nat option"
  m_current_process :: "nat option"
  m_tick_since_switch :: nat
  procs :: "nat \<rightharpoonup> proc"
  current_TCB :: "nat option"
  s_seconds_since_boot :: u32
  s_ticks_this_second :: u32
  interrupts :: bool
  can_read_file :: "nat \<Rightarrow> bool"

abbreviation TIME_SLICE_MS :: nat where "TIME_SLICE_MS \<equiv> 5"
abbreviation TICKS_PER_SECOND :: u32 where "TICKS_PER_SECOND \<equiv> 1000"

definition get_proc :: "sched \<Rightarrow> nat \<Rightarrow> proc result" where
  "get_proc s p = (case procs s p of None \<Rightarrow> Inl BadAccess | Some x \<Rightarrow> Inr x)"

definition upd_proc :: "nat \<Rightarrow> (proc \<Rightarrow> proc) \<Rightarrow> sched \<Rightarrow> sched" where
  "upd_proc p f s = s\<lparr>procs := (procs s)(p := map_option f (procs s p))\<rparr>"

definition push_back :: "nat list \<Rightarrow> nat \<Rightarrow> nat list result" where
  "push_back xs x = (if length xs > 10000 then Inl NotReached else Inr (xs @ [x]))"

section \<open>Finding processes, and blockers\<close>

definition get_process :: "sched \<Rightarrow> nat \<Rightarrow> nat option" where
  "get_process s pid =
     (case find (\<lambda>other. other = pid) (m_runanble_list s) of
        Some p \<Rightarrow> Some p
      | None \<Rightarrow> find (\<lambda>other. other = pid) (m_blocked_list s))"

definition name_is :: "sched \<Rightarrow> string \<Rightarrow> nat \<Rightarrow> bool" where
  "name_is s name p = (case procs s p of None \<Rightarrow> False | Some x \<Rightarrow> p_name x = name)"

definition get_process_by_name :: "sched \<Rightarrow> string \<Rightarrow> nat option" where
  "get_process_by_name s name =
     (case find (name_is s name) (m_runanble_list s) of
        Some p \<Rightarrow> Some p
      | None \<Rightarrow> find (name_is s name) (m_blocked_list s))"

definition has_pending_message :: "proc \<Rightarrow> bool" where
  "has_pending_message p \<longleftrightarrow> p_messages p \<noteq> []"

definition sleep_can_unblock :: "sched \<Rightarrow> u32 \<Rightarrow> u32 \<Rightarrow> bool result" where
  "sleep_can_unblock s until_sec leftover_ms =
     (let sec = s_seconds_since_boot s; ms = s_ticks_this_second s
      in if sec < until_sec then Inr False
         else rbind (assert_that (sec - until_sec \<le> 1)) (\<lambda>_.
              Inr (sec > until_sec \<or> ms \<ge> leftover_ms)))"

definition message_can_unblock :: "sched \<Rightarrow> nat \<Rightarrow> bool result" where
  "message_can_unblock s pid =
     (case get_process s pid of
        None \<Rightarrow> Inl AssertionFailed
      | Some p \<Rightarrow> rbind (get_proc s p) (\<lambda>x. Inr (has_pending_message x)))"

text \<open>The first file of the list that can be read, with its index from \<open>i\<close> on.\<close>

fun first_ready :: "(nat \<Rightarrow> bool) \<Rightarrow> nat \<Rightarrow> nat list \<Rightarrow> nat option" where
  "first_ready ready i [] = None"
| "first_ready ready i (f # fs) = (if ready f then Some i else first_ready ready (i + 1) fs)"

text \<open>Whether the task can go on, and what the blocker stores through its references.\<close>

fun can_unblock :: "sched \<Rightarrow> blocker \<Rightarrow> (bool \<times> (proc \<Rightarrow> proc)) result" where
  "can_unblock s (SleepBlocker until_sec leftover_ms) =
     rbind (sleep_can_unblock s until_sec leftover_ms) (\<lambda>b. Inr (b, id))"
| "can_unblock s (WaitBlocker waitee_finished) = Inr (waitee_finished, id)"
| "can_unblock s (PendingMessageBlocker pid) =
     rbind (message_can_unblock s pid) (\<lambda>b. Inr (b, id))"
| "can_unblock s (PendingInputBlocker pid files) =
     rbind (message_can_unblock s pid) (\<lambda>b.
       if b then Inr (True, p_ready_update (\<lambda>(i, r). (i, PendingMessage)))
       else case first_ready (can_read_file s) 0 files of
              Some i \<Rightarrow> Inr (True, p_ready_update (\<lambda>_. (i, FdReady)))
            | None \<Rightarrow> Inr (False, id))"
| "can_unblock s (FileReadableBlocker f) = Inr (can_read_file s f, id)"

section \<open>Scheduling\<close>

definition pick_next :: "sched \<Rightarrow> nat option result" where
  "pick_next s =
     (case m_runanble_list s of
        [] \<Rightarrow> Inr None
      | p # ps \<Rightarrow> rbind (get_proc s p) (\<lambda>x.
          rbind (assert_that (p_state x = Runnable)) (\<lambda>_. Inr (Some p))))"

definition switch_to_task :: "nat \<Rightarrow> sched \<Rightarrow> sched" where
  "switch_to_task p s = s\<lparr>current_TCB := Some p\<rparr>"

definition pick_next_and_switch :: "sched \<Rightarrow> sched result" where
  "pick_next_and_switch s =
     rbind (pick_next s) (\<lambda>chosen.
     rbind (case chosen of
              Some p \<Rightarrow> rbind (assert_that (p \<in> set (m_runanble_list s))) (\<lambda>_.
                Inr (Some p, s\<lparr>m_runanble_list := remove1 p (m_runanble_list s)\<rparr>))
            | None \<Rightarrow> Inr (m_idle_process s, s)) (\<lambda>(chosen', s1).
       case chosen' of
         None \<Rightarrow> Inl BadAccess
       | Some p \<Rightarrow>
           rbind (get_proc s1 p) (\<lambda>_.
             Inr (switch_to_task p
               ((upd_proc p (p_state_update (\<lambda>_. Running)) s1)
                  \<lparr>m_current_process := Some p, m_tick_since_switch := 0\<rparr>)))))"

text \<open>
  The loop of \<^verbatim>\<open>try_unblock_tasks\<close> reads \<^verbatim>\<open>process_node->next\<close> after the node was deleted. The
  deleted node still holds the link, unless the node that \<^verbatim>\<open>append\<close> allocates right after
  took its place: then the link is null and the loop ends. \<open>reused p\<close> says which of the two
  happens for the node of \<open>p\<close>.
\<close>

fun try_unblock_loop :: "(nat \<Rightarrow> bool) \<Rightarrow> nat list \<Rightarrow> sched \<Rightarrow> sched result" where
  "try_unblock_loop reused [] s = Inr s"
| "try_unblock_loop reused (p # ps) s =
     rbind (get_proc s p) (\<lambda>x.
     rbind (assert_that (p_state x = Blocked)) (\<lambda>_.
       case p_blocker x of
         None \<Rightarrow> Inl AssertionFailed
       | Some b \<Rightarrow>
           rbind (can_unblock s b) (\<lambda>(ok, out).
             if ok then
               let s1 = upd_proc p (p_blocker_update (\<lambda>_. None) \<circ> p_state_update (\<lambda>_. Runnable) \<circ> out) s;
                   s2 = s1\<lparr>m_blocked_list := remove1 p (m_blocked_list s1)\<rparr>
               in rbind (push_back (m_runanble_list s2) p) (\<lambda>rs.
                    let s3 = s2\<lparr>m_runanble_list := rs\<rparr>
                    in if reused p then Inr s3 else try_unblock_loop reused ps s3)
             else try_unblock_loop reused ps s)))"

definition try_unblock_tasks :: "(nat \<Rightarrow> bool) \<Rightarrow> sched \<Rightarrow> sched result" where
  "try_unblock_tasks reused s = try_unblock_loop reused (m_blocked_list s) s"

definition unblock_and_pick :: "(nat \<Rightarrow> bool) \<Rightarrow> sched \<Rightarrow> sched result" where
  "unblock_and_pick reused s = rbind (try_unblock_tasks reused s) pick_next_and_switch"

definition sched_tick :: "(nat \<Rightarrow> bool) \<Rightarrow> sched \<Rightarrow> sched result" where
  "sched_tick reused s0 =
     rbind (assert_that (\<not> interrupts s0)) (\<lambda>_.
     rbind (case m_current_process s0 of
              None \<Rightarrow> rbind (assert_that (m_idle_process s0 \<noteq> None)) (\<lambda>_.
                Inr (s0\<lparr>m_current_process := m_idle_process s0\<rparr>))
            | Some _ \<Rightarrow> Inr s0) (\<lambda>s.
     let c = the (m_current_process s)
     in rbind (get_proc s c) (\<lambda>x.
        if m_current_process s = m_idle_process s then
          unblock_and_pick reused
            ((upd_proc c (p_state_update (\<lambda>_. Runnable)) s)\<lparr>m_current_process := None\<rparr>)
        else if p_state x = Running then
          (if m_tick_since_switch s < TIME_SLICE_MS
           then Inr (s\<lparr>m_tick_since_switch := m_tick_since_switch s + 1\<rparr>)
           else rbind (assert_that (c \<notin> set (m_runanble_list s))) (\<lambda>_.
                rbind (push_back (m_runanble_list s) c) (\<lambda>rs.
                  unblock_and_pick reused
                    ((upd_proc c (p_state_update (\<lambda>_. Runnable)) s)
                       \<lparr>m_runanble_list := rs, m_current_process := None\<rparr>))))
        else unblock_and_pick reused s)))"

definition add_process :: "nat \<Rightarrow> proc \<Rightarrow> sched \<Rightarrow> sched result" where
  "add_process p x s =
     rbind (push_back (m_runanble_list s) p) (\<lambda>rs.
       Inr (s\<lparr>procs := (procs s)(p \<mapsto> x\<lparr>p_state := Runnable\<rparr>), m_runanble_list := rs\<rparr>))"

definition block_current :: "blocker \<Rightarrow> sched \<Rightarrow> sched result" where
  "block_current b s =
     (case m_current_process s of
        None \<Rightarrow> Inl BadAccess
      | Some c \<Rightarrow>
          rbind (get_proc s c) (\<lambda>_.
          rbind (push_back (m_blocked_list s) c) (\<lambda>bs.
            pick_next_and_switch
              ((upd_proc c (p_blocker_update (\<lambda>_. Some b) \<circ> p_state_update (\<lambda>_. Blocked)) s)
                 \<lparr>m_blocked_list := bs, interrupts := False\<rparr>))))"

text \<open>\<^verbatim>\<open>~Process\<close>: tell the waiter, then the process and its task are gone.\<close>

definition delete_process :: "nat \<Rightarrow> sched \<Rightarrow> sched result" where
  "delete_process p s =
     rbind (get_proc s p) (\<lambda>x.
     rbind (case p_waiter x of
              None \<Rightarrow> Inr s
            | Some w \<Rightarrow> rbind (get_proc s w) (\<lambda>y.
                case p_blocker y of
                  Some (WaitBlocker _) \<Rightarrow> Inr (upd_proc w (p_blocker_update (\<lambda>_. Some (WaitBlocker True))) s)
                | _ \<Rightarrow> Inl BadAccess)) (\<lambda>s1.
       Inr (s1\<lparr>procs := (procs s1)(p := None)\<rparr>)))"

definition terminate_current :: "sched \<Rightarrow> sched result" where
  "terminate_current s =
     (case m_current_process s of
        None \<Rightarrow> Inl BadAccess
      | Some c \<Rightarrow>
          rbind (assert_that (current_TCB s = Some c)) (\<lambda>_.
          rbind (delete_process c (s\<lparr>interrupts := False\<rparr>)) (\<lambda>s1.
            pick_next_and_switch (s1\<lparr>current_TCB := None, m_current_process := None\<rparr>))))"

definition set_waiter :: "nat \<Rightarrow> nat \<Rightarrow> sched \<Rightarrow> sched result" where
  "set_waiter p w s =
     rbind (get_proc s p) (\<lambda>x.
     rbind (assert_that (p_waiter x = None)) (\<lambda>_.
       Inr (upd_proc p (p_waiter_update (\<lambda>_. Some w)) s)))"

text \<open>\<open>Inl\<close> inside the result is the error code returned at once, \<open>Inr\<close> the state in which the
  caller sleeps until its \<^verbatim>\<open>WaitBlocker\<close> lets it return 0.\<close>

definition syscall_wait :: "nat \<Rightarrow> sched \<Rightarrow> (int + sched) result" where
  "syscall_wait pid s =
     (case get_process s pid of
        None \<Rightarrow> Inr (Inl (- 1))
      | Some waitee \<Rightarrow>
          (case m_current_process s of
             None \<Rightarrow> Inl BadAccess
           | Some c \<Rightarrow>
               rbind (set_waiter waitee c s) (\<lambda>s1.
               rbind (block_current (WaitBlocker False) s1) (\<lambda>s2. Inr (Inr s2)))))"

section \<open>Time\<close>

definition advance_clock :: "sched \<Rightarrow> sched" where
  "advance_clock s =
     (let t = s_ticks_this_second s + 1
      in if t \<ge> TICKS_PER_SECOND
         then s\<lparr>s_seconds_since_boot := s_seconds_since_boot s + 1, s_ticks_this_second := 0\<rparr>
         else s\<lparr>s_ticks_this_second := t\<rparr>)"

definition isr_timer_handler :: "(nat \<Rightarrow> bool) \<Rightarrow> sched \<Rightarrow> sched result" where
  "isr_timer_handler reused s = sched_tick reused (advance_clock s)"

definition sleep_ms :: "u32 \<Rightarrow> sched \<Rightarrow> sched result" where
  "sleep_ms ms s =
     (let sleep_until_sec = s_seconds_since_boot s + ms div 1000;
          leftover_ms = s_ticks_this_second s + ms mod 1000
      in if leftover_ms > 1000
         then block_current (SleepBlocker (sleep_until_sec + 1) (leftover_ms mod 1000)) s
         else block_current (SleepBlocker sleep_until_sec leftover_ms) s)"

definition time_since_boot_ms :: "sched \<Rightarrow> u32" where
  "time_since_boot_ms s = s_seconds_since_boot s * TICKS_PER_SECOND + s_ticks_this_second s"

section \<open>The invariant\<close>

definition st :: "sched \<Rightarrow> nat \<Rightarrow> TaskState option" where
  "st s p = map_option p_state (procs s p)"

definition blocker_of :: "sched \<Rightarrow> nat \<Rightarrow> blocker option" where
  "blocker_of s p = (case procs s p of None \<Rightarrow> None | Some x \<Rightarrow> p_blocker x)"

text \<open>A process waits for messages of its own.\<close>

fun blocker_ok :: "nat \<Rightarrow> blocker \<Rightarrow> bool" where
  "blocker_ok p (PendingMessageBlocker q) \<longleftrightarrow> q = p"
| "blocker_ok p (PendingInputBlocker q fs) \<longleftrightarrow> q = p"
| "blocker_ok p b \<longleftrightarrow> True"

definition places_ok :: "sched \<Rightarrow> bool" where
  "places_ok s \<longleftrightarrow> distinct (m_runanble_list s @ m_blocked_list s)
     \<and> list_all (\<lambda>p. st s p = Some Runnable) (m_runanble_list s)
     \<and> list_all (\<lambda>p. st s p = Some Blocked \<and> (\<exists>b. blocker_of s p = Some b \<and> blocker_ok p b))
         (m_blocked_list s)"

definition idle_ok :: "sched \<Rightarrow> bool" where
  "idle_ok s \<longleftrightarrow> (\<exists>i. m_idle_process s = Some i \<and> st s i \<noteq> None
     \<and> i \<notin> set (m_runanble_list s) \<and> i \<notin> set (m_blocked_list s))"

definition current_ok :: "sched \<Rightarrow> bool" where
  "current_ok s \<longleftrightarrow> (case m_current_process s of None \<Rightarrow> True
     | Some c \<Rightarrow> st s c = Some Running \<and> current_TCB s = Some c)"

text \<open>Every waiter is a process blocked on the one it waits for.\<close>

definition waiter_of :: "sched \<Rightarrow> nat \<Rightarrow> nat option" where
  "waiter_of s p = (case procs s p of None \<Rightarrow> None | Some x \<Rightarrow> p_waiter x)"

definition waiters_ok :: "sched \<Rightarrow> bool" where
  "waiters_ok s \<longleftrightarrow>
     (\<forall>q w. waiter_of s q = Some w \<longrightarrow>
        w \<in> set (m_blocked_list s) \<and> blocker_of s w = Some (WaitBlocker False)
        \<and> (\<forall>q'. waiter_of s q' = Some w \<longrightarrow> q' = q))"

definition base_ok :: "sched \<Rightarrow> bool" where
  "base_ok s \<longleftrightarrow> places_ok s \<and> idle_ok s \<and> waiters_ok s
     \<and> finite (dom (procs s)) \<and> card (dom (procs s)) \<le> 10000"

definition sched_ok :: "sched \<Rightarrow> bool" where
  "sched_ok s \<longleftrightarrow> base_ok s \<and> current_ok s \<and> m_tick_since_switch s \<le> TIME_SLICE_MS"

text \<open>No sleeper is more than a second late: the condition \<^verbatim>\<open>SleepBlocker::can_unblock\<close> asserts.\<close>

fun awake :: "sched \<Rightarrow> blocker \<Rightarrow> bool" where
  "awake s (SleepBlocker until_sec ms) \<longleftrightarrow>
     s_seconds_since_boot s < until_sec \<or> s_seconds_since_boot s - until_sec \<le> 1"
| "awake s b \<longleftrightarrow> True"

definition sleepers_ok :: "sched \<Rightarrow> bool" where
  "sleepers_ok s \<longleftrightarrow> (\<forall>p\<in>set (m_blocked_list s). \<forall>b. blocker_of s p = Some b \<longrightarrow> awake s b)"

section \<open>Facts about the state\<close>

lemma upd_proc_simps [simp]:
  "m_runanble_list (upd_proc p f s) = m_runanble_list s" "m_blocked_list (upd_proc p f s) = m_blocked_list s"
  "m_idle_process (upd_proc p f s) = m_idle_process s" "m_current_process (upd_proc p f s) = m_current_process s"
  "m_tick_since_switch (upd_proc p f s) = m_tick_since_switch s" "current_TCB (upd_proc p f s) = current_TCB s"
  "s_seconds_since_boot (upd_proc p f s) = s_seconds_since_boot s"
  "s_ticks_this_second (upd_proc p f s) = s_ticks_this_second s"
  "interrupts (upd_proc p f s) = interrupts s" "can_read_file (upd_proc p f s) = can_read_file s"
  "procs (upd_proc p f s) q = (if q = p then map_option f (procs s p) else procs s q)"
  "dom (procs (upd_proc p f s)) = dom (procs s)"
  by (auto simp: upd_proc_def dom_def)

lemma get_proc_Some: "procs s p = Some x \<Longrightarrow> get_proc s p = Inr x"
  by (simp add: get_proc_def)

lemma find_eq: "find (\<lambda>x. x = p) xs = (if p \<in> set xs then Some p else None)"
  by (induction xs) auto

lemma get_process_iff: "get_process s p = (if p \<in> set (m_runanble_list s @ m_blocked_list s) then Some p else None)"
  by (simp add: get_process_def find_eq)

lemma listed_dom:
  "base_ok s \<Longrightarrow> set (m_runanble_list s @ m_blocked_list s) \<subseteq> dom (procs s)"
  by (auto simp: base_ok_def places_ok_def list_all_iff st_def)

lemma listed_length:
  assumes "base_ok s"
  shows "length (m_runanble_list s) + length (m_blocked_list s) \<le> 10000"
proof -
  have "distinct (m_runanble_list s @ m_blocked_list s)" "finite (dom (procs s))"
    "card (dom (procs s)) \<le> 10000"
    using assms by (simp_all add: base_ok_def places_ok_def)
  then show ?thesis
    using distinct_card [of "m_runanble_list s @ m_blocked_list s"] card_mono [OF _ listed_dom [OF assms]]
    by simp
qed

lemma push_back_ok: "length xs \<le> 10000 \<Longrightarrow> push_back xs x = Inr (xs @ [x])"
  by (simp add: push_back_def)

lemma can_unblock_ok:
  assumes ok: "base_ok s" "p \<in> set (m_blocked_list s)" and b: "blocker_of s p = Some b" "blocker_ok p b"
    and aw: "awake s b"
  shows "\<exists>r out. can_unblock s b = Inr (r, out)
    \<and> (\<forall>x. p_waiter (out x) = p_waiter x)"
proof -
  have "get_process s p = Some p" using ok(2) by (simp add: get_process_iff)
  moreover obtain x where "procs s p = Some x" using b(1) by (auto simp: blocker_of_def split: option.splits)
  ultimately have msg: "message_can_unblock s p = Inr (has_pending_message x)"
    by (simp add: message_can_unblock_def get_proc_def)
  show ?thesis
  proof (cases b)
    case (SleepBlocker u m)
    then show ?thesis using aw by (auto simp: sleep_can_unblock_def Let_def)
  next
    case (PendingInputBlocker q fs)
    then show ?thesis
      using b(2) msg by (cases "first_ready (can_read_file s) 0 fs") auto
  qed (use b(2) msg in auto)
qed

section \<open>Picking a task\<close>

lemma pick_next_and_switch_ok:
  assumes ok: "base_ok s"
  shows "\<exists>s' c. pick_next_and_switch s = Inr s' \<and> sched_ok s'
    \<and> m_current_process s' = Some c
    \<and> (case m_runanble_list s of [] \<Rightarrow> m_idle_process s = Some c | p # _ \<Rightarrow> c = p)
    \<and> m_runanble_list s' = tl (m_runanble_list s) \<and> m_blocked_list s' = m_blocked_list s
    \<and> m_idle_process s' = m_idle_process s \<and> m_tick_since_switch s' = 0 \<and> interrupts s' = interrupts s
    \<and> dom (procs s') = dom (procs s)"
proof -
  obtain i where i: "m_idle_process s = Some i" "procs s i \<noteq> None" "i \<notin> set (m_runanble_list s)"
    "i \<notin> set (m_blocked_list s)" using ok by (auto simp: base_ok_def idle_ok_def st_def)
  define c where "c = (case m_runanble_list s of [] \<Rightarrow> i | p # _ \<Rightarrow> p)"
  define s' where "s' = switch_to_task c ((upd_proc c (p_state_update (\<lambda>_. Running))
    (s\<lparr>m_runanble_list := tl (m_runanble_list s)\<rparr>))\<lparr>m_current_process := Some c, m_tick_since_switch := 0\<rparr>)"
  have pl: "places_ok s" and wt: "waiters_ok s" using ok by (simp_all add: base_ok_def)
  obtain x where x: "procs s c = Some x"
    using i pl by (cases "m_runanble_list s") (auto simp: c_def places_ok_def st_def)
  have notb: "c \<notin> set (m_blocked_list s)" "c \<notin> set (tl (m_runanble_list s))"
    using i pl by (auto simp: c_def places_ok_def split: list.splits)
  have fields [simp]: "m_runanble_list s' = tl (m_runanble_list s)" "m_blocked_list s' = m_blocked_list s"
    "m_idle_process s' = m_idle_process s" "m_current_process s' = Some c" "m_tick_since_switch s' = 0"
    "interrupts s' = interrupts s" "current_TCB s' = Some c" "dom (procs s') = dom (procs s)"
    using x by (auto simp: s'_def switch_to_task_def upd_proc_def)
  have pr: "procs s' q = (if q = c then Some (x\<lparr>p_state := Running\<rparr>) else procs s q)" for q
    using x by (simp add: s'_def switch_to_task_def upd_proc_def)
  have run: "pick_next_and_switch s = Inr s'"
  proof (cases "m_runanble_list s")
    case Nil
    then have eq: "s\<lparr>m_runanble_list := []\<rparr> = s" by (cases s) simp
    from Nil show ?thesis
      using i x by (simp add: pick_next_and_switch_def pick_next_def s'_def c_def get_proc_def)
        (simp only: eq)
  next
    case (Cons p ps)
    then have "p_state x = Runnable" using pl x by (simp add: c_def places_ok_def st_def)
    then show ?thesis
      using Cons x by (simp add: pick_next_and_switch_def pick_next_def s'_def c_def get_proc_def)
  qed
  have tl_sub: "set (tl (m_runanble_list s)) \<subseteq> set (m_runanble_list s)"
    by (cases "m_runanble_list s") auto
  then have "places_ok s'"
    using pl notb by (auto simp: places_ok_def list_all_iff st_def blocker_of_def pr distinct_tl subset_iff)
  moreover have "idle_ok s'"
    using i x tl_sub by (auto simp: idle_ok_def st_def pr)
  moreover have "waiters_ok s'"
  proof -
    have "waiter_of s' q = waiter_of s q" "blocker_of s' q = blocker_of s q" for q
      by (simp_all add: waiter_of_def blocker_of_def pr x)
    then show ?thesis using wt by (simp add: waiters_ok_def)
  qed
  moreover have "current_ok s'" by (simp add: current_ok_def st_def pr)
  ultimately have "sched_ok s'" using ok by (simp add: sched_ok_def base_ok_def)
  then show ?thesis using run i(1) by (intro exI [of _ s'] exI [of _ c]) (auto simp: c_def split: list.splits)
qed

lemma pick_waiters: "pick_next_and_switch s = Inr s' \<Longrightarrow> waiter_of s' q = waiter_of s q"
  by (auto simp: pick_next_and_switch_def pick_next_def get_proc_def switch_to_task_def waiter_of_def
    upd_proc_def split: list.splits option.splits if_splits prod.splits)

section \<open>Unblocking\<close>

text \<open>What unblocking leaves alone.\<close>

definition same_frame :: "sched \<Rightarrow> sched \<Rightarrow> bool" where
  "same_frame s s' \<longleftrightarrow> m_idle_process s' = m_idle_process s \<and> m_current_process s' = m_current_process s
     \<and> m_tick_since_switch s' = m_tick_since_switch s \<and> current_TCB s' = current_TCB s
     \<and> s_seconds_since_boot s' = s_seconds_since_boot s \<and> s_ticks_this_second s' = s_ticks_this_second s
     \<and> interrupts s' = interrupts s \<and> can_read_file s' = can_read_file s
     \<and> dom (procs s') = dom (procs s)"

definition unblock :: "nat \<Rightarrow> (proc \<Rightarrow> proc) \<Rightarrow> sched \<Rightarrow> sched" where
  "unblock p out s =
     (upd_proc p (p_blocker_update (\<lambda>_. None) \<circ> p_state_update (\<lambda>_. Runnable) \<circ> out) s)
       \<lparr>m_blocked_list := remove1 p (m_blocked_list s), m_runanble_list := m_runanble_list s @ [p]\<rparr>"

lemma unblock_ok:
  assumes ok: "base_ok s" and p: "p \<in> set (m_blocked_list s)" "blocker_of s p \<noteq> Some (WaitBlocker False)"
    and out: "\<forall>x. p_waiter (out x) = p_waiter x"
  shows "base_ok (unblock p out s)" "same_frame s (unblock p out s)"
    "m_runanble_list (unblock p out s) = m_runanble_list s @ [p]"
    "set (m_blocked_list (unblock p out s)) = set (m_blocked_list s) - {p}"
    "q \<noteq> p \<Longrightarrow> procs (unblock p out s) q = procs s q"
proof -
  let ?s = "unblock p out s"
  have pl: "places_ok s" and wt: "waiters_ok s" and idl: "idle_ok s" using ok by (simp_all add: base_ok_def)
  have d: "distinct (m_runanble_list s @ m_blocked_list s)" using pl by (simp add: places_ok_def)
  obtain x where x: "procs s p = Some x" using listed_dom [OF ok] p(1) by auto
  have pr: "procs ?s q = (if q = p then Some ((out x)\<lparr>p_state := Runnable, p_blocker := None\<rparr>) else procs s q)"
    for q using x by (simp add: unblock_def upd_proc_def)
  have lists: "m_runanble_list ?s = m_runanble_list s @ [p]"
    "m_blocked_list ?s = remove1 p (m_blocked_list s)" "m_idle_process ?s = m_idle_process s"
    by (simp_all add: unblock_def)
  have dm: "dom (procs ?s) = dom (procs s)" using x by (auto simp: pr split: if_splits)
  have sets: "set (remove1 p (m_blocked_list s)) = set (m_blocked_list s) - {p}"
    using d by (simp add: set_remove1_eq)
  have "places_ok ?s"
    using pl p(1) d sets by (auto simp: places_ok_def list_all_iff lists st_def blocker_of_def pr)
  moreover have "idle_ok ?s"
    using idl p(1) sets by (auto simp: idle_ok_def lists st_def pr)
  moreover have "waiters_ok ?s"
  proof -
    have w: "waiter_of ?s q = waiter_of s q" for q using out x by (simp add: waiter_of_def pr)
    have b: "blocker_of ?s q = blocker_of s q" if "q \<noteq> p" for q using that by (simp add: blocker_of_def pr)
    show ?thesis
      unfolding waiters_ok_def w
    proof (intro allI impI)
      fix q v assume qv: "waiter_of s q = Some v"
      then have "v \<in> set (m_blocked_list s)" "blocker_of s v = Some (WaitBlocker False)"
        "\<forall>q'. waiter_of s q' = Some v \<longrightarrow> q' = q" using wt by (auto simp: waiters_ok_def)
      moreover from this have "v \<noteq> p" using p(2) by auto
      ultimately show "v \<in> set (m_blocked_list ?s) \<and> blocker_of ?s v = Some (WaitBlocker False)
        \<and> (\<forall>q'. waiter_of s q' = Some v \<longrightarrow> q' = q)" using sets by (simp add: lists b)
    qed
  qed
  ultimately show "base_ok ?s" using ok dm by (simp add: base_ok_def)
  show "same_frame s ?s" using dm by (simp add: same_frame_def) (simp add: unblock_def)
  show "m_runanble_list ?s = m_runanble_list s @ [p]" by (rule lists)
  show "set (m_blocked_list ?s) = set (m_blocked_list s) - {p}" using sets lists by simp
  show "procs ?s q = procs s q" if "q \<noteq> p" using that pr by simp
qed

lemma late_sleeper_fails: "\<not> awake s b \<Longrightarrow> can_unblock s b = Inl AssertionFailed"
  by (cases b) (auto simp: sleep_can_unblock_def Let_def)

lemma wait_can_unblock: "can_unblock s b = Inr (True, out) \<Longrightarrow> b \<noteq> WaitBlocker False"
  by auto

lemma unblock_sleepers:
  assumes "same_frame s s'" "set (m_blocked_list s') \<subseteq> set (m_blocked_list s) - {p}"
    "\<And>q. q \<noteq> p \<Longrightarrow> procs s' q = procs s q" "sleepers_ok s"
  shows "sleepers_ok s'"
proof -
  have "awake s' c = awake s c" for c using assms(1) by (cases c) (simp_all add: same_frame_def)
  moreover have "blocker_of s' q = blocker_of s q" if "q \<noteq> p" for q
    using assms(3) [OF that] by (simp add: blocker_of_def)
  ultimately show ?thesis
    using assms(2,4) unfolding sleepers_ok_def by (metis Diff_iff singletonI subsetD)
qed

text \<open>The unblocking loop returns, or meets a sleeper that is more than a second late.\<close>

lemma try_unblock_loop_ok:
  assumes "base_ok s" "set ps \<subseteq> set (m_blocked_list s)" "distinct ps"
  shows "(\<exists>s' us. try_unblock_loop reused ps s = Inr s' \<and> base_ok s' \<and> same_frame s s'
      \<and> m_runanble_list s' = m_runanble_list s @ us \<and> set us \<subseteq> set ps)
    \<or> (try_unblock_loop reused ps s = Inl AssertionFailed \<and> \<not> sleepers_ok s)"
  using assms
proof (induction ps arbitrary: s)
  case Nil
  then show ?case by (simp add: same_frame_def)
next
  case (Cons p ps)
  have p: "p \<in> set (m_blocked_list s)" using Cons.prems by simp
  then have "st s p = Some Blocked \<and> (\<exists>b. blocker_of s p = Some b \<and> blocker_ok p b)"
    using Cons.prems(1) by (simp add: base_ok_def places_ok_def list_all_iff)
  then obtain x b where x: "procs s p = Some x" "p_state x = Blocked" "p_blocker x = Some b" "blocker_ok p b"
    by (auto simp: st_def blocker_of_def)
  have b: "blocker_of s p = Some b" using x by (simp add: blocker_of_def)
  show ?case
  proof (cases "awake s b")
    case False
    then have "\<not> sleepers_ok s" using p b by (auto simp: sleepers_ok_def)
    moreover have "try_unblock_loop reused (p # ps) s = Inl AssertionFailed"
      using x late_sleeper_fails [OF False] by (simp add: get_proc_def)
    ultimately show ?thesis by blast
  next
    case True
    then obtain r out where r: "can_unblock s b = Inr (r, out)" "\<forall>x. p_waiter (out x) = p_waiter x"
      using can_unblock_ok [OF Cons.prems(1) p b x(4)] by blast
    show ?thesis
    proof (cases r)
      case False
      then have "try_unblock_loop reused (p # ps) s = try_unblock_loop reused ps s"
        using x r(1) by (simp add: get_proc_def)
      then show ?thesis using Cons.IH [OF Cons.prems(1)] Cons.prems(2,3) by fastforce
    next
      case True
      have "b \<noteq> WaitBlocker False" using wait_can_unblock [of s b out] r(1) True by simp
      then have bw: "blocker_of s p \<noteq> Some (WaitBlocker False)" using b by simp
      let ?s = "unblock p out s"
      note u = unblock_ok [OF Cons.prems(1) p bw r(2)]
      have len: "length (m_runanble_list s) \<le> 10000" using listed_length [OF Cons.prems(1)] by simp
      have step: "try_unblock_loop reused (p # ps) s
          = (if reused p then Inr ?s else try_unblock_loop reused ps ?s)"
        using x r(1) True len by (simp add: get_proc_def push_back_ok unblock_def Let_def)
      have sl: "sleepers_ok ?s" if "sleepers_ok s"
        using unblock_sleepers [OF u(2) _ u(5) that, of p] u(4) by simp
      have sub: "set ps \<subseteq> set (m_blocked_list ?s)" using Cons.prems(2,3) u(4) by auto
      have fr: "same_frame s s'" if "same_frame ?s s'" for s' using u(2) that by (simp add: same_frame_def)
      show ?thesis
        using step u(1-3) Cons.IH [OF u(1) sub] Cons.prems(3) sl fr by (cases "reused p") fastforce+
    qed
  qed
qed

lemma unblock_and_pick_ok:
  assumes "base_ok s"
  shows "(\<exists>s' us c. unblock_and_pick reused s = Inr s' \<and> sched_ok s' \<and> m_current_process s' = Some c
      \<and> (case m_runanble_list s @ us of [] \<Rightarrow> m_idle_process s = Some c | p # _ \<Rightarrow> c = p)
      \<and> m_runanble_list s' = tl (m_runanble_list s @ us) \<and> set us \<subseteq> set (m_blocked_list s)
      \<and> m_idle_process s' = m_idle_process s \<and> interrupts s' = interrupts s \<and> m_tick_since_switch s' = 0)
    \<or> (unblock_and_pick reused s = Inl AssertionFailed \<and> \<not> sleepers_ok s)"
proof (cases "\<exists>s1. try_unblock_tasks reused s = Inr s1")
  case False
  have d: "distinct (m_blocked_list s)" using assms(1) by (simp add: base_ok_def places_ok_def)
  then show ?thesis
    using False try_unblock_loop_ok [OF assms subset_refl d, of reused]
    by (auto simp: unblock_and_pick_def try_unblock_tasks_def)
next
  case True
  have d: "distinct (m_blocked_list s)" using assms(1) by (simp add: base_ok_def places_ok_def)
  obtain s1 us where s1: "try_unblock_tasks reused s = Inr s1" "base_ok s1" "same_frame s s1"
    "m_runanble_list s1 = m_runanble_list s @ us" "set us \<subseteq> set (m_blocked_list s)"
    using True try_unblock_loop_ok [OF assms subset_refl d, of reused]
    unfolding try_unblock_tasks_def by auto
  from pick_next_and_switch_ok [OF s1(2)] obtain s' c where s': "pick_next_and_switch s1 = Inr s'"
    "sched_ok s'" "m_current_process s' = Some c"
    "case m_runanble_list s1 of [] \<Rightarrow> m_idle_process s1 = Some c | p # _ \<Rightarrow> c = p"
    "m_runanble_list s' = tl (m_runanble_list s1)" "m_idle_process s' = m_idle_process s1"
    "interrupts s' = interrupts s1" "m_tick_since_switch s' = 0" by blast
  have "unblock_and_pick reused s = Inr s'" using s1(1) s'(1) by (simp add: unblock_and_pick_def)
  moreover have "m_idle_process s1 = m_idle_process s" "interrupts s1 = interrupts s"
    using s1(3) by (simp_all add: same_frame_def)
  ultimately show ?thesis
    using s' s1(4,5) by (intro disjI1 exI [of _ s'] exI [of _ us] exI [of _ c]) (auto split: list.splits)
qed

section \<open>The invariant under every operation\<close>

lemma base_ok_irrelevant [simp]:
  "base_ok (s\<lparr>m_current_process := c\<rparr>) = base_ok s" "base_ok (s\<lparr>m_tick_since_switch := t\<rparr>) = base_ok s"
  "base_ok (s\<lparr>current_TCB := c\<rparr>) = base_ok s" "base_ok (s\<lparr>interrupts := b\<rparr>) = base_ok s"
  "base_ok (s\<lparr>s_seconds_since_boot := x\<rparr>) = base_ok s" "base_ok (s\<lparr>s_ticks_this_second := x\<rparr>) = base_ok s"
  "base_ok (s\<lparr>can_read_file := r\<rparr>) = base_ok s"
  by (simp_all add: base_ok_def places_ok_def idle_ok_def waiters_ok_def st_def blocker_of_def waiter_of_def)

lemma sleepers_ok_irrelevant [simp]:
  "sleepers_ok (s\<lparr>m_current_process := c\<rparr>) = sleepers_ok s" "sleepers_ok (s\<lparr>m_runanble_list := rs\<rparr>) = sleepers_ok s"
proof -
  have "awake (s\<lparr>m_current_process := c\<rparr>) b = awake s b" "awake (s\<lparr>m_runanble_list := rs\<rparr>) b = awake s b" for b
    by (cases b; simp)+
  then show "sleepers_ok (s\<lparr>m_current_process := c\<rparr>) = sleepers_ok s"
    "sleepers_ok (s\<lparr>m_runanble_list := rs\<rparr>) = sleepers_ok s"
    by (simp_all add: sleepers_ok_def blocker_of_def)
qed

text \<open>The state of a process outside both lists does not matter to the lists.\<close>

lemma base_ok_upd_state:
  assumes "base_ok s" "c \<notin> set (m_runanble_list s)" "c \<notin> set (m_blocked_list s)"
  shows "base_ok (upd_proc c (p_state_update f) s)"
proof -
  let ?s = "upd_proc c (p_state_update f) s"
  have w: "waiter_of ?s q = waiter_of s q" and b: "blocker_of ?s q = blocker_of s q" for q
    by (simp_all add: waiter_of_def blocker_of_def split: option.splits)
  have r: "st ?s q = st s q" if "q \<in> set (m_runanble_list s) \<union> set (m_blocked_list s)" for q
    using that assms(2,3) by (auto simp: st_def)
  have n: "st ?s q = None \<longleftrightarrow> st s q = None" for q by (simp add: st_def)
  have "places_ok ?s" using assms(1) by (simp add: base_ok_def places_ok_def list_all_iff b r)
  moreover have "idle_ok ?s" using assms(1) by (simp add: base_ok_def idle_ok_def n)
  moreover have "waiters_ok ?s" using assms(1) by (simp add: base_ok_def waiters_ok_def w b)
  ultimately show ?thesis using assms(1) by (simp add: base_ok_def)
qed

lemma sleepers_ok_upd_state: "sleepers_ok (upd_proc c (p_state_update f) s) = sleepers_ok s"
proof -
  have "blocker_of (upd_proc c (p_state_update f) s) q = blocker_of s q" for q
    by (simp add: blocker_of_def split: option.splits)
  moreover have "awake (upd_proc c (p_state_update f) s) b = awake s b" for b by (cases b) simp_all
  ultimately show ?thesis by (simp add: sleepers_ok_def)
qed

lemma base_ok_make_runnable:
  assumes "base_ok s" "c \<notin> set (m_runanble_list s)" "c \<notin> set (m_blocked_list s)"
    "m_idle_process s \<noteq> Some c" "st s c = Some Runnable"
  shows "base_ok (s\<lparr>m_runanble_list := m_runanble_list s @ [c]\<rparr>)"
  using assms by (auto simp: base_ok_def places_ok_def idle_ok_def waiters_ok_def list_all_iff st_def
    blocker_of_def waiter_of_def)

lemma current_not_listed:
  assumes "sched_ok s" "m_current_process s = Some c"
  shows "c \<notin> set (m_runanble_list s)" "c \<notin> set (m_blocked_list s)" "\<exists>x. procs s c = Some x \<and> p_state x = Running"
    "current_TCB s = Some c"
proof -
  have "st s c = Some Running" "current_TCB s = Some c" using assms by (simp_all add: sched_ok_def current_ok_def)
  moreover have "places_ok s" using assms by (simp add: sched_ok_def base_ok_def)
  ultimately show "c \<notin> set (m_runanble_list s)" "c \<notin> set (m_blocked_list s)"
    "\<exists>x. procs s c = Some x \<and> p_state x = Running" "current_TCB s = Some c"
    by (auto simp: places_ok_def list_all_iff st_def)
qed

lemma tick_continue:
  assumes "sched_ok s" "\<not> interrupts s" "m_current_process s = Some c" "m_idle_process s \<noteq> Some c"
    "m_tick_since_switch s < TIME_SLICE_MS"
  shows "sched_tick reused s = Inr (s\<lparr>m_tick_since_switch := m_tick_since_switch s + 1\<rparr>)"
  using assms current_not_listed [OF assms(1,3)] by (auto simp: sched_tick_def get_proc_def)

text \<open>The state a preemption hands to the unblocking and the choice.\<close>

definition preempted :: "sched \<Rightarrow> sched" where
  "preempted s =
     (case m_current_process s of
        None \<Rightarrow> upd_proc (the (m_idle_process s)) (p_state_update (\<lambda>_. Runnable)) s
      | Some c \<Rightarrow>
          (let s1 = upd_proc c (p_state_update (\<lambda>_. Runnable)) s
           in if m_idle_process s = Some c then s1\<lparr>m_current_process := None\<rparr>
              else s1\<lparr>m_runanble_list := m_runanble_list s @ [c], m_current_process := None\<rparr>))"

lemma preempted_ok:
  assumes ok: "sched_ok s"
  shows "base_ok (preempted s)" "sleepers_ok (preempted s) = sleepers_ok s" "m_idle_process (preempted s) = m_idle_process s"
    "m_blocked_list (preempted s) = m_blocked_list s" "interrupts (preempted s) = interrupts s"
proof -
  have b: "base_ok s" using ok by (simp add: sched_ok_def)
  obtain i where i: "m_idle_process s = Some i" "i \<notin> set (m_runanble_list s)" "i \<notin> set (m_blocked_list s)"
    using b by (auto simp: base_ok_def idle_ok_def)
  show "m_idle_process (preempted s) = m_idle_process s"
    "m_blocked_list (preempted s) = m_blocked_list s" "interrupts (preempted s) = interrupts s"
    by (simp_all add: preempted_def Let_def split: option.splits)
  show "sleepers_ok (preempted s) = sleepers_ok s"
    by (simp add: preempted_def Let_def sleepers_ok_upd_state split: option.splits)
  show "base_ok (preempted s)"
  proof (cases "m_current_process s")
    case None
    then show ?thesis using base_ok_upd_state [OF b i(2,3)] i(1) by (simp add: preempted_def)
  next
    case (Some c)
    note c = current_not_listed [OF ok Some]
    let ?s1 = "upd_proc c (p_state_update (\<lambda>_. Runnable)) s"
    have s1: "base_ok ?s1" using base_ok_upd_state [OF b c(1,2)] by simp
    have "st ?s1 c = Some Runnable" using c(3) by (auto simp: st_def upd_proc_def)
    then show ?thesis
      using s1 base_ok_make_runnable [OF s1, of c] c Some by (auto simp: preempted_def Let_def)
  qed
qed

lemma tick_preempt:
  assumes "sched_ok s" "\<not> interrupts s"
    "\<And>c. m_current_process s = Some c \<Longrightarrow> m_idle_process s \<noteq> Some c \<Longrightarrow> \<not> m_tick_since_switch s < TIME_SLICE_MS"
  shows "sched_tick reused s = unblock_and_pick reused (preempted s)"
proof -
  have b: "base_ok s" using assms(1) by (simp add: sched_ok_def)
  then obtain i x where i: "m_idle_process s = Some i" "procs s i = Some x"
    by (auto simp: base_ok_def idle_ok_def st_def)
  show ?thesis
  proof (cases "m_current_process s")
    case None
    then have "(upd_proc i (p_state_update (\<lambda>_. Runnable)) (s\<lparr>m_current_process := Some i\<rparr>))
        \<lparr>m_current_process := None\<rparr> = upd_proc i (p_state_update (\<lambda>_. Runnable)) s"
      by (cases s) (simp add: upd_proc_def)
    then show ?thesis
      using None i assms(2) by (simp add: sched_tick_def get_proc_def preempted_def Let_def)
  next
    case (Some c)
    note c = current_not_listed [OF assms(1) Some]
    have len: "length (m_runanble_list s) \<le> 10000" using listed_length [OF b] by simp
    show ?thesis
    proof (cases "m_idle_process s = Some c")
      case True
      then show ?thesis
        using Some c i assms(2) by (auto simp: sched_tick_def get_proc_def preempted_def Let_def)
    next
      case False
      then show ?thesis
        using Some c i assms(2,3) len
        by (auto simp: sched_tick_def get_proc_def preempted_def Let_def push_back_ok)
    qed
  qed
qed

lemma sched_tick_ok:
  assumes "sched_ok s" "\<not> interrupts s"
  shows "(\<exists>s'. sched_tick reused s = Inr s' \<and> sched_ok s' \<and> \<not> interrupts s')
    \<or> (sched_tick reused s = Inl AssertionFailed \<and> \<not> sleepers_ok s)"
proof (cases "\<exists>c. m_current_process s = Some c \<and> m_idle_process s \<noteq> Some c \<and> m_tick_since_switch s < TIME_SLICE_MS")
  case True
  then have "sched_tick reused s = Inr (s\<lparr>m_tick_since_switch := m_tick_since_switch s + 1\<rparr>)"
    using tick_continue [OF assms(1,2)] by auto
  moreover have "sched_ok (s\<lparr>m_tick_since_switch := m_tick_since_switch s + 1\<rparr>)"
    using assms(1) True by (auto simp: sched_ok_def current_ok_def st_def split: option.splits)
  ultimately show ?thesis using assms(2) by simp
next
  case False
  then have "sched_tick reused s = unblock_and_pick reused (preempted s)"
    using tick_preempt [OF assms(1,2)] by blast
  then show ?thesis
    using unblock_and_pick_ok [OF preempted_ok(1) [OF assms(1)], of reused] preempted_ok [OF assms(1)] assms(2)
    by auto
qed

lemma base_ok_block:
  assumes ok: "base_ok s" and c: "c \<notin> set (m_runanble_list s)" "c \<notin> set (m_blocked_list s)"
    "procs s c = Some x" "m_idle_process s \<noteq> Some c" and b: "blocker_ok c b"
  shows "base_ok ((upd_proc c (p_blocker_update (\<lambda>_. Some b) \<circ> p_state_update (\<lambda>_. Blocked)) s)
    \<lparr>m_blocked_list := m_blocked_list s @ [c]\<rparr>)" (is "base_ok ?s")
proof -
  have pr: "procs ?s q = (if q = c then Some (x\<lparr>p_state := Blocked, p_blocker := Some b\<rparr>) else procs s q)" for q
    using c(3) by (simp add: upd_proc_def)
  have lists: "m_runanble_list ?s = m_runanble_list s" "m_blocked_list ?s = m_blocked_list s @ [c]"
    "m_idle_process ?s = m_idle_process s" by simp_all
  have r: "st ?s q = st s q" "blocker_of ?s q = blocker_of s q" if "q \<noteq> c" for q
    using that by (simp_all add: st_def blocker_of_def pr)
  have cc: "st ?s c = Some Blocked" "blocker_of ?s c = Some b"
    using c(3) by (simp_all add: st_def blocker_of_def upd_proc_def)
  have w: "waiter_of ?s q = waiter_of s q" for q using c(3) by (simp add: waiter_of_def pr)
  have "places_ok ?s"
  proof -
    have "list_all (\<lambda>p. st ?s p = Some Runnable) (m_runanble_list s)"
      using ok c(1) r(1) unfolding base_ok_def places_ok_def list_all_iff by metis
    moreover have "list_all (\<lambda>p. st ?s p = Some Blocked \<and> (\<exists>b. blocker_of ?s p = Some b \<and> blocker_ok p b))
        (m_blocked_list s)"
      using ok c(2) r unfolding base_ok_def places_ok_def list_all_iff by metis
    ultimately show ?thesis
      using ok c(1,2) cc b unfolding places_ok_def lists by (simp add: base_ok_def places_ok_def)
  qed
  moreover have "idle_ok ?s"
    using ok c(4) by (auto simp: base_ok_def idle_ok_def lists st_def pr)
  moreover have "waiters_ok ?s"
    using ok c(2) r(2) unfolding base_ok_def waiters_ok_def w lists by (metis Un_iff set_append)
  moreover have "dom (procs ?s) = dom (procs s)" by simp
  ultimately show ?thesis using ok unfolding base_ok_def by simp
qed

lemma block_current_ok:
  assumes ok: "sched_ok s" and c: "m_current_process s = Some c" "m_idle_process s \<noteq> Some c"
    and b: "blocker_ok c b"
  shows "\<exists>s'. block_current b s = Inr s' \<and> sched_ok s' \<and> m_blocked_list s' = m_blocked_list s @ [c]
    \<and> m_runanble_list s' = tl (m_runanble_list s) \<and> \<not> interrupts s'"
proof -
  note n = current_not_listed [OF ok c(1)]
  have bs: "base_ok s" using ok by (simp add: sched_ok_def)
  obtain x where x: "procs s c = Some x" using n(3) by blast
  have len: "length (m_blocked_list s) \<le> 10000" using listed_length [OF bs] by simp
  let ?s = "(upd_proc c (p_blocker_update (\<lambda>_. Some b) \<circ> p_state_update (\<lambda>_. Blocked)) s)
    \<lparr>m_blocked_list := m_blocked_list s @ [c], interrupts := False\<rparr>"
  have "base_ok ?s" using base_ok_block [OF bs n(1,2) x c(2) b] by simp
  from pick_next_and_switch_ok [OF this] show ?thesis
    using c(1) x len by (auto simp: block_current_def get_proc_def push_back_ok)
qed

lemma add_process_ok:
  assumes ok: "sched_ok s" and p: "procs s p = None" "p_waiter x = None" "card (dom (procs s)) < 10000"
  shows "\<exists>s'. add_process p x s = Inr s' \<and> sched_ok s' \<and> m_runanble_list s' = m_runanble_list s @ [p]"
proof -
  have bs: "base_ok s" using ok by (simp add: sched_ok_def)
  let ?s = "s\<lparr>procs := (procs s)(p \<mapsto> x\<lparr>p_state := Runnable\<rparr>), m_runanble_list := m_runanble_list s @ [p]\<rparr>"
  have run: "add_process p x s = Inr ?s"
    using listed_length [OF bs] by (simp add: add_process_def push_back_ok)
  have np: "p \<notin> set (m_runanble_list s)" "p \<notin> set (m_blocked_list s)"
    using listed_dom [OF bs] p(1) by auto
  have r: "st ?s q = st s q" "blocker_of ?s q = blocker_of s q" "waiter_of ?s q = waiter_of s q" if "q \<noteq> p" for q
    using that by (simp_all add: st_def blocker_of_def waiter_of_def)
  have w: "waiter_of ?s q = waiter_of s q" for q
    using r(3) p(1,2) by (cases "q = p") (simp_all add: waiter_of_def)
  have sp: "st ?s p = Some Runnable" by (simp add: st_def)
  have "places_ok ?s"
  proof -
    have "list_all (\<lambda>p. st ?s p = Some Runnable) (m_runanble_list s)"
      using bs np(1) r(1) unfolding base_ok_def places_ok_def list_all_iff by metis
    moreover have "list_all (\<lambda>p. st ?s p = Some Blocked \<and> (\<exists>b. blocker_of ?s p = Some b \<and> blocker_ok p b))
        (m_blocked_list s)"
      using bs np(2) r unfolding base_ok_def places_ok_def list_all_iff by metis
    ultimately show ?thesis using bs np sp unfolding places_ok_def by (simp add: base_ok_def places_ok_def)
  qed
  moreover have "idle_ok ?s"
  proof -
    obtain i where i: "m_idle_process s = Some i" "st s i \<noteq> None" "i \<notin> set (m_runanble_list s)"
      "i \<notin> set (m_blocked_list s)" using bs by (auto simp: base_ok_def idle_ok_def)
    then have "i \<noteq> p" using p(1) by (auto simp: st_def)
    then show ?thesis using i r(1) [of i] by (simp add: idle_ok_def)
  qed
  moreover have "waiters_ok ?s"
  proof -
    have "blocker_of ?s v = blocker_of s v" if "v \<in> set (m_blocked_list s)" for v
      using that np(2) r(2) by metis
    moreover have "m_blocked_list ?s = m_blocked_list s" by simp
    ultimately show ?thesis using bs unfolding base_ok_def waiters_ok_def w by metis
  qed
  moreover have "dom (procs ?s) = insert p (dom (procs s))" by auto
  ultimately have "base_ok ?s"
    using bs p(1,3) by (simp add: base_ok_def card_insert_if)
  moreover have "current_ok ?s"
    using ok p(1) by (auto simp: sched_ok_def current_ok_def st_def split: option.splits)
  ultimately show ?thesis using run ok by (simp add: sched_ok_def)
qed

lemma delete_process_ok:
  assumes ok: "base_ok s" and c: "c \<notin> set (m_runanble_list s)" "c \<notin> set (m_blocked_list s)"
    "procs s c = Some x" "m_idle_process s \<noteq> Some c"
  shows "\<exists>s'. delete_process c s = Inr s' \<and> base_ok s' \<and> m_runanble_list s' = m_runanble_list s
    \<and> m_blocked_list s' = m_blocked_list s \<and> m_idle_process s' = m_idle_process s
    \<and> m_tick_since_switch s' = m_tick_since_switch s \<and> interrupts s' = interrupts s \<and> procs s' c = None
    \<and> (\<forall>w. p_waiter x = Some w \<longrightarrow> blocker_of s' w = Some (WaitBlocker True))"
proof -
  have wt: "waiters_ok s" and pl: "places_ok s" and idl: "idle_ok s" using ok by (simp_all add: base_ok_def)
  define s1 where "s1 = (case p_waiter x of None \<Rightarrow> s
    | Some w \<Rightarrow> upd_proc w (p_blocker_update (\<lambda>_. Some (WaitBlocker True))) s)"
  let ?s = "s1\<lparr>procs := (procs s1)(c := None)\<rparr>"
  have cw: "waiter_of s c = p_waiter x" using c(3) by (simp add: waiter_of_def)
  have xw: "w \<in> set (m_blocked_list s)" "blocker_of s w = Some (WaitBlocker False)" "w \<noteq> c"
    "\<And>q. waiter_of s q = Some w \<Longrightarrow> q = c" if "p_waiter x = Some w" for w
    using wt that c(2) cw unfolding waiters_ok_def by metis+
  have run: "delete_process c s = Inr ?s"
  proof (cases "p_waiter x")
    case (Some w)
    then obtain y where "procs s w = Some y" "p_blocker y = Some (WaitBlocker False)"
      using xw(2) by (auto simp: blocker_of_def split: option.splits)
    then show ?thesis using Some c(3) by (simp add: delete_process_def get_proc_def s1_def)
  qed (simp add: delete_process_def get_proc_def s1_def c(3))
  have lists: "m_runanble_list ?s = m_runanble_list s" "m_blocked_list ?s = m_blocked_list s"
    "m_idle_process ?s = m_idle_process s" "m_tick_since_switch ?s = m_tick_since_switch s"
    "interrupts ?s = interrupts s" "dom (procs ?s) = dom (procs s) - {c}"
    by (simp_all add: s1_def split: option.splits)
  have stq: "st ?s q = st s q" if "q \<noteq> c" for q
    using that by (auto simp: st_def s1_def option.map_comp comp_def split: option.splits)
  have bq: "blocker_of ?s q = (if p_waiter x = Some q then Some (WaitBlocker True) else blocker_of s q)"
    if "q \<noteq> c" for q
    using that xw(2) [of q] by (auto simp: blocker_of_def s1_def split: option.splits)
  have wq: "waiter_of ?s q = (if q = c then None else waiter_of s q)" for q
    by (auto simp: waiter_of_def s1_def split: option.splits)
  have "places_ok ?s"
  proof -
    have "list_all (\<lambda>p. st ?s p = Some Runnable) (m_runanble_list s)"
      using pl c(1) stq unfolding places_ok_def list_all_iff by metis
    moreover have "list_all (\<lambda>p. st ?s p = Some Blocked \<and> (\<exists>b. blocker_of ?s p = Some b \<and> blocker_ok p b))
        (m_blocked_list s)"
      using pl c(2) stq bq unfolding places_ok_def list_all_iff by (metis blocker_ok.simps(4))
    ultimately show ?thesis using pl unfolding places_ok_def lists by simp
  qed
  moreover have "idle_ok ?s" using idl c(4) stq unfolding idle_ok_def lists by metis
  moreover have "waiters_ok ?s"
    unfolding waiters_ok_def wq lists
  proof (intro allI impI)
    fix q v assume "(if q = c then None else waiter_of s q) = Some v"
    then have q: "q \<noteq> c" "waiter_of s q = Some v" by (auto split: if_splits)
    have v: "v \<in> set (m_blocked_list s)" "blocker_of s v = Some (WaitBlocker False)"
      "\<forall>q'. waiter_of s q' = Some v \<longrightarrow> q' = q" using wt q(2) unfolding waiters_ok_def by blast+
    have "v \<noteq> c" using v(1) c(2) by blast
    moreover have "p_waiter x \<noteq> Some v" using xw(4) q by blast
    ultimately have "blocker_of ?s v = Some (WaitBlocker False)" using v(2) bq by simp
    then show "v \<in> set (m_blocked_list s) \<and> blocker_of ?s v = Some (WaitBlocker False)
        \<and> (\<forall>q'. (if q' = c then None else waiter_of s q') = Some v \<longrightarrow> q' = q)"
      using v by (metis option.distinct(1))
  qed
  moreover have "card (dom (procs s) - {c}) \<le> 10000"
    using ok card_Diff1_le [of "dom (procs s)" c] by (simp add: base_ok_def)
  ultimately have "base_ok ?s" using ok unfolding base_ok_def lists by simp
  then show ?thesis using run lists bq xw(3) by (intro exI [of _ ?s]) auto
qed

lemma terminate_current_ok:
  assumes ok: "sched_ok s" and c: "m_current_process s = Some c" "m_idle_process s \<noteq> Some c"
  shows "\<exists>s'. terminate_current s = Inr s' \<and> sched_ok s' \<and> m_blocked_list s' = m_blocked_list s
    \<and> m_runanble_list s' = tl (m_runanble_list s) \<and> procs s' c = None"
proof -
  note n = current_not_listed [OF ok c(1)]
  obtain x where x: "procs s c = Some x" using n(3) by blast
  have bs: "base_ok (s\<lparr>interrupts := False\<rparr>)" using ok by (simp add: sched_ok_def)
  obtain s1 where s1: "delete_process c (s\<lparr>interrupts := False\<rparr>) = Inr s1" "base_ok s1"
    "m_runanble_list s1 = m_runanble_list s" "m_blocked_list s1 = m_blocked_list s" "procs s1 c = None"
    using delete_process_ok [OF bs, of c x] n x c(2) by auto
  have "base_ok (s1\<lparr>current_TCB := None, m_current_process := None\<rparr>)" using s1(2) by simp
  from pick_next_and_switch_ok [OF this] obtain s' where s': "sched_ok s'"
    "pick_next_and_switch (s1\<lparr>current_TCB := None, m_current_process := None\<rparr>) = Inr s'"
    "m_runanble_list s' = tl (m_runanble_list s1)" "m_blocked_list s' = m_blocked_list s1"
    "dom (procs s') = dom (procs s1)" by auto
  moreover have "procs s' c = None" using s'(5) s1(5) by (metis domIff)
  ultimately show ?thesis using c(1) n(4) s1 by (simp add: terminate_current_def)
qed

text \<open>Waiting: the waiter is recorded and then blocked; the order does not matter.\<close>

lemma base_ok_set_waiter:
  assumes ok: "base_ok s" and w: "w \<in> set (m_blocked_list s)" "blocker_of s w = Some (WaitBlocker False)"
    "\<And>q. waiter_of s q \<noteq> Some w" and p: "procs s p = Some x"
  shows "base_ok (upd_proc p (p_waiter_update (\<lambda>_. Some w)) s)"
proof -
  let ?s = "upd_proc p (p_waiter_update (\<lambda>_. Some w)) s"
  have r: "st ?s q = st s q" "blocker_of ?s q = blocker_of s q" for q
    using p by (simp_all add: st_def blocker_of_def)
  have wq: "waiter_of ?s q = (if q = p then Some w else waiter_of s q)" for q
    using p by (simp add: waiter_of_def)
  have "places_ok ?s" "idle_ok ?s" using ok by (simp_all add: base_ok_def places_ok_def idle_ok_def r)
  moreover have "waiters_ok ?s"
    using ok w unfolding base_ok_def waiters_ok_def wq r upd_proc_simps by (metis option.inject)
  ultimately show ?thesis using ok by (simp add: base_ok_def)
qed

lemma upd_proc_commute:
  "p \<noteq> q \<Longrightarrow> upd_proc p f (upd_proc q g s) = upd_proc q g (upd_proc p f s)"
  by (simp add: upd_proc_def fun_upd_twist)

lemma syscall_wait_ok:
  assumes ok: "sched_ok s" and c: "m_current_process s = Some c" "m_idle_process s \<noteq> Some c"
    and pid: "pid \<in> set (m_runanble_list s @ m_blocked_list s)" "waiter_of s pid = None"
  shows "\<exists>s'. syscall_wait pid s = Inr (Inr s') \<and> sched_ok s' \<and> waiter_of s' pid = Some c
    \<and> c \<in> set (m_blocked_list s')"
proof -
  note n = current_not_listed [OF ok c(1)]
  have bs: "base_ok s" and wt: "waiters_ok s" using ok by (simp_all add: sched_ok_def base_ok_def)
  obtain x where x: "procs s c = Some x" using n(3) by blast
  obtain y where y: "procs s pid = Some y" "p_waiter y = None"
    using listed_dom [OF bs] pid by (fastforce simp: waiter_of_def)
  have ne: "pid \<noteq> c" using pid(1) n by auto
  define f :: "proc \<Rightarrow> proc" where "f = p_blocker_update (\<lambda>_. Some (WaitBlocker False)) \<circ> p_state_update (\<lambda>_. Blocked)"
  define s1 where "s1 = (upd_proc c f s)\<lparr>m_blocked_list := m_blocked_list s @ [c]\<rparr>"
  have s1: "base_ok s1" using base_ok_block [OF bs n(1,2) x c(2), of "WaitBlocker False"] by (simp add: s1_def f_def)
  define s2 where "s2 = (upd_proc pid (p_waiter_update (\<lambda>_. Some c)) s1)\<lparr>interrupts := False\<rparr>"
  have w1: "waiter_of s1 q = waiter_of s q" for q
    using x by (simp add: waiter_of_def s1_def upd_proc_def f_def)
  have "waiter_of s q \<noteq> Some c" for q using wt n(2) by (auto simp: waiters_ok_def)
  then have s2: "base_ok s2"
    using base_ok_set_waiter [OF s1, of c pid y] x y ne w1
    by (simp add: s2_def) (simp add: s1_def f_def blocker_of_def upd_proc_def)
  have eq: "s2 = (upd_proc c f (upd_proc pid (p_waiter_update (\<lambda>_. Some c)) s))
      \<lparr>m_blocked_list := m_blocked_list s @ [c], interrupts := False\<rparr>"
    using ne by (simp add: s2_def s1_def upd_proc_def fun_upd_twist)
  obtain s' where s': "pick_next_and_switch s2 = Inr s'" "sched_ok s'" "m_blocked_list s' = m_blocked_list s2"
    using pick_next_and_switch_ok [OF s2] by blast
  have "length (m_blocked_list s) \<le> 10000" using listed_length [OF bs] by simp
  then have run: "syscall_wait pid s = Inr (Inr s')"
    using pid(1) c(1) y x ne s'(1) unfolding eq
    by (simp add: syscall_wait_def get_process_iff set_waiter_def get_proc_def block_current_def
      push_back_ok f_def)
  have "waiter_of s2 pid = Some c" using y ne by (simp add: s2_def s1_def waiter_of_def upd_proc_def)
  then have "waiter_of s' pid = Some c" using pick_waiters [OF s'(1)] by simp
  moreover have "c \<in> set (m_blocked_list s')" using s'(3) by (simp add: s2_def s1_def)
  ultimately show ?thesis using run s'(2) by blast
qed

section \<open>Runs of the scheduler\<close>

text \<open>
  What happens to the scheduler from outside: timer interrupts, the current process (never
  the idle one) blocking, sleeping, waiting or ending, new processes, and changes of what
  files have to read or of the interrupt flag.
\<close>

inductive sched_step :: "sched \<Rightarrow> sched \<Rightarrow> bool" where
  step_timer: "\<not> interrupts s \<Longrightarrow> isr_timer_handler reused s = Inr s' \<Longrightarrow> sched_step s s'"
| step_block: "m_current_process s = Some c \<Longrightarrow> m_idle_process s \<noteq> Some c \<Longrightarrow> blocker_ok c b
    \<Longrightarrow> block_current b s = Inr s' \<Longrightarrow> sched_step s s'"
| step_sleep: "m_current_process s = Some c \<Longrightarrow> m_idle_process s \<noteq> Some c
    \<Longrightarrow> sleep_ms ms s = Inr s' \<Longrightarrow> sched_step s s'"
| step_wait: "m_current_process s = Some c \<Longrightarrow> m_idle_process s \<noteq> Some c
    \<Longrightarrow> syscall_wait pid s = Inr (Inr s') \<Longrightarrow> sched_step s s'"
| step_exit: "m_current_process s = Some c \<Longrightarrow> m_idle_process s \<noteq> Some c
    \<Longrightarrow> terminate_current s = Inr s' \<Longrightarrow> sched_step s s'"
| step_spawn: "procs s p = None \<Longrightarrow> p_waiter x = None \<Longrightarrow> card (dom (procs s)) < 10000
    \<Longrightarrow> add_process p x s = Inr s' \<Longrightarrow> sched_step s s'"
| step_world: "sched_step s (s\<lparr>can_read_file := r, interrupts := i\<rparr>)"

lemma advance_clock_simps [simp]:
  "sched_ok (advance_clock s) = sched_ok s" "interrupts (advance_clock s) = interrupts s"
  "m_runanble_list (advance_clock s) = m_runanble_list s" "m_current_process (advance_clock s) = m_current_process s"
  "m_idle_process (advance_clock s) = m_idle_process s" "m_tick_since_switch (advance_clock s) = m_tick_since_switch s"
  by (simp_all add: advance_clock_def Let_def sched_ok_def current_ok_def st_def split: option.splits)

lemma sleep_ms_blocks: "\<exists>u l. sleep_ms ms s = block_current (SleepBlocker u l) s"
  by (auto simp: sleep_ms_def Let_def)

lemma syscall_wait_needs:
  assumes "syscall_wait pid s = Inr (Inr s')" "m_current_process s = Some c"
  shows "pid \<in> set (m_runanble_list s @ m_blocked_list s)" "waiter_of s pid = None"
  using assms by (auto simp: syscall_wait_def get_process_iff set_waiter_def get_proc_def waiter_of_def
    split: option.splits if_splits)

lemma sched_step_ok:
  assumes "sched_step s s'" "sched_ok s"
  shows "sched_ok s'"
  using assms(1)
proof (cases rule: sched_step.cases)
  case (step_timer reused)
  then show ?thesis
    using sched_tick_ok [of "advance_clock s" reused] assms(2) by (auto simp: isr_timer_handler_def)
next
  case (step_block c b)
  then show ?thesis using block_current_ok [OF assms(2)] by fastforce
next
  case (step_sleep c ms)
  then show ?thesis
    using block_current_ok [OF assms(2), of c] sleep_ms_blocks [of ms s] blocker_ok.simps(3)
    by (metis sum.inject(2))
next
  case (step_wait c pid)
  then show ?thesis
    using syscall_wait_ok [OF assms(2) step_wait(1,2)] syscall_wait_needs [OF step_wait(3,1)] by fastforce
next
  case (step_exit c)
  then show ?thesis using terminate_current_ok [OF assms(2)] by fastforce
next
  case (step_spawn p x)
  then show ?thesis using add_process_ok [OF assms(2), of p x] by auto
next
  case (step_world r i)
  then show ?thesis using assms(2) by (auto simp: sched_ok_def current_ok_def st_def split: option.splits)
qed

subsection \<open>Bounded waiting\<close>

text \<open>Ticks left until the current process is preempted.\<close>

definition slice_left :: "sched \<Rightarrow> nat" where
  "slice_left s = (case m_current_process s of None \<Rightarrow> 0
     | Some c \<Rightarrow> if m_idle_process s = Some c then 0 else TIME_SLICE_MS - m_tick_since_switch s)"

lemma preempted_runnable: "\<exists>xs. m_runanble_list (preempted s) = m_runanble_list s @ xs"
  by (auto simp: preempted_def Let_def split: option.splits)

lemma tick_progress:
  assumes ok: "sched_ok s" "\<not> interrupts s" and k: "k < length (m_runanble_list s)" "m_runanble_list s ! k = p"
    and t: "sched_tick reused s = Inr s'"
  shows "sched_ok s' \<and> \<not> interrupts s' \<and> (m_current_process s' = Some p
    \<or> (\<exists>k'. k' < length (m_runanble_list s') \<and> m_runanble_list s' ! k' = p
         \<and> 6 * k' + slice_left s' < 6 * k + slice_left s))"
proof -
  have ok': "sched_ok s'" "\<not> interrupts s'" using sched_tick_ok [OF ok, of reused] t by auto
  show ?thesis
  proof (cases "\<exists>c. m_current_process s = Some c \<and> m_idle_process s \<noteq> Some c \<and> m_tick_since_switch s < TIME_SLICE_MS")
    case True
    then have "s' = s\<lparr>m_tick_since_switch := m_tick_since_switch s + 1\<rparr>"
      using tick_continue [OF ok] t by auto
    then show ?thesis using True ok' k by (intro conjI disjI2 exI [of _ k]) (auto simp: slice_left_def)
  next
    case False
    then have "sched_tick reused s = unblock_and_pick reused (preempted s)"
      using tick_preempt [OF ok] by blast
    then obtain us c where c: "m_current_process s' = Some c"
      "case m_runanble_list (preempted s) @ us of [] \<Rightarrow> m_idle_process (preempted s) = Some c | q # _ \<Rightarrow> c = q"
      "m_runanble_list s' = tl (m_runanble_list (preempted s) @ us)"
      using unblock_and_pick_ok [OF preempted_ok(1) [OF ok(1)], of reused] t by auto
    obtain xs where "m_runanble_list (preempted s) @ us = m_runanble_list s @ xs"
      using preempted_runnable [of s] by auto
    then have c': "m_runanble_list s' = tl (m_runanble_list s @ xs)" "c = (m_runanble_list s @ xs) ! 0"
      using c(2,3) k(1) by (auto split: list.splits)
    show ?thesis
    proof (cases k)
      case 0
      then show ?thesis using c(1) c'(2) k ok' by (simp add: nth_append)
    next
      case (Suc j)
      have "j < length (m_runanble_list s')" "m_runanble_list s' ! j = p"
        using Suc k c'(1) by (simp_all add: nth_tl nth_append)
      moreover have "slice_left s' \<le> 5" by (simp add: slice_left_def split: option.splits)
      ultimately show ?thesis using Suc ok' by (intro conjI disjI2 exI [of _ j]) auto
    qed
  qed
qed

fun run_ticks :: "(nat \<Rightarrow> bool) list \<Rightarrow> sched \<Rightarrow> sched result" where
  "run_ticks [] s = Inr s"
| "run_ticks (reused # rs) s = rbind (isr_timer_handler reused s) (run_ticks rs)"

lemma isr_progress:
  assumes "sched_ok s" "\<not> interrupts s" "k < length (m_runanble_list s)" "m_runanble_list s ! k = p"
    "isr_timer_handler reused s = Inr s'"
  shows "sched_ok s' \<and> \<not> interrupts s' \<and> (m_current_process s' = Some p
    \<or> (\<exists>k'. k' < length (m_runanble_list s') \<and> m_runanble_list s' ! k' = p
         \<and> 6 * k' + slice_left s' < 6 * k + slice_left s))"
proof -
  have "slice_left (advance_clock s) = slice_left s" by (simp add: slice_left_def split: option.splits)
  then show ?thesis
    using tick_progress [of "advance_clock s" k p reused s'] assms by (simp add: isr_timer_handler_def)
qed

lemma run_ticks_reaches:
  assumes "sched_ok s" "\<not> interrupts s" "k < length (m_runanble_list s)" "m_runanble_list s ! k = p"
    "6 * k + slice_left s < length rs" "run_ticks rs s = Inr s'"
  shows "\<exists>n s1. n \<le> length rs \<and> run_ticks (take n rs) s = Inr s1 \<and> m_current_process s1 = Some p"
  using assms
proof (induction rs arbitrary: s k)
  case (Cons r rs)
  then obtain s1 where s1: "isr_timer_handler r s = Inr s1" "run_ticks rs s1 = Inr s'" by auto
  from isr_progress [OF Cons.prems(1-4) s1(1)] consider "m_current_process s1 = Some p"
    | k' where "sched_ok s1" "\<not> interrupts s1" "k' < length (m_runanble_list s1)" "m_runanble_list s1 ! k' = p"
      "6 * k' + slice_left s1 < 6 * k + slice_left s" by blast
  then show ?case
  proof cases
    case 1
    then show ?thesis using s1(1) by (intro exI [of _ 1] exI [of _ s1]) simp
  next
    case 2
    have "6 * k' + slice_left s1 < length rs" using 2(5) Cons.prems(5) by simp
    from Cons.IH [OF 2(1-4) this s1(2)] obtain n s2 where "n \<le> length rs"
      "run_ticks (take n rs) s1 = Inr s2" "m_current_process s2 = Some p" by blast
    then show ?thesis using s1(1) by (intro exI [of _ "Suc n"] exI [of _ s2]) simp
  qed
qed simp

section \<open>Time\<close>

definition now_ms :: "sched \<Rightarrow> nat" where
  "now_ms s = unat (s_seconds_since_boot s) * 1000 + unat (s_ticks_this_second s)"

lemma sleep_wakes_exactly:
  assumes t: "unat (s_ticks_this_second s) < 1000"
    and room: "unat (s_seconds_since_boot s) + unat ms div 1000 + 1 < 2 ^ 32"
  shows "\<exists>u l. sleep_ms ms s = block_current (SleepBlocker u l) s
    \<and> (\<forall>s'. unat (s_ticks_this_second s') < 1000 \<longrightarrow> awake s' (SleepBlocker u l) \<longrightarrow>
         sleep_can_unblock s' u l = Inr (now_ms s + unat ms \<le> now_ms s'))"
proof -
  define sec where "sec = unat (s_seconds_since_boot s)"
  define q where "q = unat ms div 1000"
  define r where "r = unat ms mod 1000"
  have ms: "unat ms = q * 1000 + r" "r < 1000" by (simp_all add: q_def r_def)
  have left: "unat (s_ticks_this_second s + ms mod 1000) = unat (s_ticks_this_second s) + r"
    using t by (simp add: unat_word_ariths unat_mod r_def)
  have u0: "unat (s_seconds_since_boot s + ms div 1000) = sec + q"
    using room by (simp add: unat_word_ariths unat_div q_def sec_def)
  have u1: "unat (s_seconds_since_boot s + ms div 1000 + 1) = sec + q + 1"
    using room u0 by (simp add: unat_word_ariths q_def sec_def)
  let ?over = "unat (s_ticks_this_second s) + r > 1000"
  define u where "u = (if ?over then s_seconds_since_boot s + ms div 1000 + 1
    else s_seconds_since_boot s + ms div 1000)"
  define l where "l = (if ?over then (s_ticks_this_second s + ms mod 1000) mod 1000
    else s_ticks_this_second s + ms mod 1000)"
  have ul: "unat u * 1000 + unat l = now_ms s + unat ms" "unat l \<le> 1000"
  proof -
    have "unat ((s_ticks_this_second s + ms mod 1000) mod 1000)
        = (unat (s_ticks_this_second s) + r) mod 1000" by (simp add: unat_mod left)
    also have "\<dots> = unat (s_ticks_this_second s) + r - 1000" if ?over
      using that t ms(2) by (simp add: mod_if)
    finally have m: "unat l = unat (s_ticks_this_second s) + r - 1000" if ?over using that by (simp add: l_def)
    show "unat u * 1000 + unat l = now_ms s + unat ms"
    proof (cases ?over)
      case True
      then show ?thesis using m [OF True] u1 ms(1) by (simp add: u_def now_ms_def sec_def)
    next
      case False
      then show ?thesis using u0 left ms(1) by (simp add: u_def l_def now_ms_def sec_def)
    qed
    show "unat l \<le> 1000" using m left t ms(2) by (cases ?over) (simp_all add: l_def)
  qed
  have "sleep_ms ms s = block_current (SleepBlocker u l) s"
    using left by (simp add: sleep_ms_def Let_def u_def l_def word_less_nat_alt)
  moreover have "sleep_can_unblock s' u l = Inr (now_ms s + unat ms \<le> now_ms s')"
    if tk: "unat (s_ticks_this_second s') < 1000" and aw: "awake s' (SleepBlocker u l)" for s'
  proof (cases "s_seconds_since_boot s' < u")
    case True
    then have "unat (s_seconds_since_boot s') + 1 \<le> unat u" by (simp add: word_less_nat_alt)
    then have "now_ms s' < now_ms s + unat ms" using tk ul(1) by (simp add: now_ms_def)
    then show ?thesis using True by (simp add: sleep_can_unblock_def)
  next
    case False
    then have ge: "unat u \<le> unat (s_seconds_since_boot s')" by (simp add: word_less_nat_alt)
    have "(s_seconds_since_boot s' > u \<or> s_ticks_this_second s' \<ge> l) \<longleftrightarrow> now_ms s + unat ms \<le> now_ms s'"
      unfolding ul(1) [symmetric] now_ms_def [of s'] word_less_nat_alt word_le_nat_alt using ge ul(2) tk
      by (cases "unat u = unat (s_seconds_since_boot s')") auto
    then show ?thesis using False aw by (simp add: sleep_can_unblock_def Let_def)
  qed
  ultimately show ?thesis by blast
qed

lemma tick_none_blocked:
  assumes "sched_ok s" "\<not> interrupts s" "m_blocked_list s = []"
  shows "\<exists>s'. sched_tick reused s = Inr s' \<and> sched_ok s' \<and> \<not> interrupts s' \<and> m_blocked_list s' = []"
proof (cases "\<exists>c. m_current_process s = Some c \<and> m_idle_process s \<noteq> Some c \<and> m_tick_since_switch s < TIME_SLICE_MS")
  case True
  then have "sched_tick reused s = Inr (s\<lparr>m_tick_since_switch := m_tick_since_switch s + 1\<rparr>)"
    using tick_continue [OF assms(1,2)] by auto
  then show ?thesis using sched_tick_ok [OF assms(1,2), of reused] assms(3) by auto
next
  case False
  then have "sched_tick reused s = unblock_and_pick reused (preempted s)"
    using tick_preempt [OF assms(1,2)] by blast
  also have "\<dots> = pick_next_and_switch (preempted s)"
    using preempted_ok(4) [OF assms(1)] assms(3) by (simp add: unblock_and_pick_def try_unblock_tasks_def)
  finally show ?thesis
    using pick_next_and_switch_ok [OF preempted_ok(1) [OF assms(1)]] preempted_ok(4,5) [OF assms(1)] assms(2,3)
    by auto
qed

lemma run_ticks_none_blocked:
  assumes "sched_ok s" "\<not> interrupts s" "m_blocked_list s = []"
  shows "\<exists>s'. run_ticks rs s = Inr s'"
  using assms
proof (induction rs arbitrary: s)
  case (Cons r rs)
  have "m_blocked_list (advance_clock s) = []"
    using Cons.prems(3) by (simp add: advance_clock_def Let_def)
  then obtain s1 where "isr_timer_handler r s = Inr s1" "sched_ok s1" "\<not> interrupts s1" "m_blocked_list s1 = []"
    using tick_none_blocked [of "advance_clock s" r] Cons.prems(1,2) by (auto simp: isr_timer_handler_def)
  then show ?case using Cons.IH by simp
qed simp

section \<open>Properties\<close>

text \<open>A machine with an idle process 1, a process 2 that runs and a process 3 that waits its turn.\<close>

definition fresh_proc :: "TaskState \<Rightarrow> string \<Rightarrow> proc" where
  "fresh_proc s name = \<lparr>p_state = s, p_blocker = None, p_name = name, p_cwd = mk_str ''/'',
     p_fds = replicate 256 None, p_waiter = None, p_messages = [], p_ready = (0, PendingMessage),
     p_next_shm = 0\<rparr>"

definition small_machine :: sched where
  "small_machine =
     \<lparr>m_runanble_list = [3], m_blocked_list = [], m_idle_process = Some 1, m_current_process = Some 2,
      m_tick_since_switch = 5,
      procs = [1 \<mapsto> fresh_proc Runnable ''idle'', 2 \<mapsto> fresh_proc Running ''a'',
               3 \<mapsto> fresh_proc Runnable ''b''],
      current_TCB = Some 2, s_seconds_since_boot = 0, s_ticks_this_second = 7,
      interrupts = False, can_read_file = (\<lambda>_. False)\<rparr>"

lemma small_machine_ok: "sched_ok small_machine" "sleepers_ok small_machine"
proof -
  have "waiter_of small_machine q = None" for q
    by (simp add: waiter_of_def small_machine_def fresh_proc_def)
  then have "waiters_ok small_machine" by (simp add: waiters_ok_def)
  then show "sched_ok small_machine"
    by (simp add: sched_ok_def base_ok_def places_ok_def idle_ok_def current_ok_def)
      (simp add: small_machine_def st_def fresh_proc_def)
  show "sleepers_ok small_machine" by (simp add: sleepers_ok_def) (simp add: small_machine_def)
qed

text \<open>
  C2: in every state the scheduler reaches from a good one, by timer interrupts, blocking,
  sleeping, waiting, ending and starting processes in any order, each process is in at most
  one of the two lists and in the state that list stands for, the current process is
  running and in neither list, the idle process is never queued, every blocked process has
  a blocker, and a process that is waited for knows the one process blocked on it.
\<close>

theorem scheduler_invariant:
  assumes "sched_step\<^sup>*\<^sup>* s s'" "sched_ok s"
  shows "sched_ok s'"
  using assms by (induction rule: rtranclp_induct) (auto intro: sched_step_ok)

theorem scheduler_invariant_witness:
  "\<exists>s'. sched_step\<^sup>*\<^sup>* small_machine s' \<and> sched_ok s' \<and> m_current_process s' \<noteq> m_current_process small_machine"
proof -
  have cur: "m_current_process small_machine = Some 2" "m_idle_process small_machine \<noteq> Some 2"
    "m_runanble_list small_machine = [3]" by (simp_all add: small_machine_def)
  obtain s' where s': "terminate_current small_machine = Inr s'" "procs s' 2 = None"
    using terminate_current_ok [OF small_machine_ok(1) cur(1,2)] by blast
  then have step: "sched_step\<^sup>*\<^sup>* small_machine s'" using step_exit [OF cur(1,2)] by blast
  note ok = scheduler_invariant [OF step small_machine_ok(1)]
  then have "m_current_process s' \<noteq> Some 2" using s'(2) by (auto simp: sched_ok_def current_ok_def st_def)
  then show ?thesis using step ok cur by auto
qed

text \<open>
  C28: a timer interrupt in a good state always ends in a good state, or panics because some
  sleeper is more than a second late (the assertion of \<^verbatim>\<open>SleepBlocker::can_unblock\<close>); no
  other assertion, no bad pointer and no list limit is ever hit.
\<close>

theorem timer_interrupt_total:
  assumes "sched_ok s" "\<not> interrupts s"
  shows "(\<exists>s'. isr_timer_handler reused s = Inr s' \<and> sched_ok s' \<and> \<not> interrupts s')
    \<or> (isr_timer_handler reused s = Inl AssertionFailed \<and> \<not> sleepers_ok (advance_clock s))"
  using sched_tick_ok [of "advance_clock s" reused] assms by (simp add: isr_timer_handler_def)

theorem timer_interrupt_total_witness:
  "\<exists>s'. isr_timer_handler (\<lambda>_. False) small_machine = Inr s' \<and> sched_ok s' \<and> \<not> interrupts s'"
proof -
  have "sleepers_ok (advance_clock small_machine)" "\<not> interrupts small_machine"
    by (simp_all add: sleepers_ok_def advance_clock_def Let_def small_machine_def)
  then show ?thesis using timer_interrupt_total [OF small_machine_ok(1), of "\<lambda>_. False"] by blast
qed

text \<open>
  C3: no runnable process starves: a process at position \<open>k\<close> of the run queue is running
  after at most \<open>6 * (k + 1)\<close> timer interrupts, whatever other processes are unblocked
  meanwhile and however the freed list nodes are reused.
\<close>

theorem no_starvation:
  assumes "sched_ok s" "\<not> interrupts s" "k < length (m_runanble_list s)" "m_runanble_list s ! k = p"
    "6 * (k + 1) \<le> length rs" "run_ticks rs s = Inr s'"
  shows "\<exists>n s1. n \<le> length rs \<and> run_ticks (take n rs) s = Inr s1 \<and> m_current_process s1 = Some p"
proof -
  have "slice_left s \<le> 5" by (simp add: slice_left_def split: option.splits)
  then have "6 * k + slice_left s < length rs" using assms(5) by simp
  from run_ticks_reaches [OF assms(1-4) this assms(6)] show ?thesis .
qed

theorem no_starvation_witness:
  "\<exists>n s1. n \<le> 6 \<and> run_ticks (take n (replicate 6 (\<lambda>_. False))) small_machine = Inr s1
    \<and> m_current_process s1 = Some 3"
proof -
  have "m_blocked_list small_machine = []" "\<not> interrupts small_machine" by (simp_all add: small_machine_def)
  then obtain s' where "run_ticks (replicate 6 (\<lambda>_. False)) small_machine = Inr s'"
    using run_ticks_none_blocked [OF small_machine_ok(1)] by blast
  then show ?thesis
    using no_starvation [OF small_machine_ok(1), of 0 3 "replicate 6 (\<lambda>_. False)"]
    by (auto simp: small_machine_def)
qed

text \<open>
  C27: a process that sleeps for \<open>ms\<close> milliseconds is let go at the first look at its blocker
  at or after the moment \<open>ms\<close> milliseconds later, and never before it.
\<close>

theorem sleep_is_exact:
  assumes "unat (s_ticks_this_second s) < 1000"
    "unat (s_seconds_since_boot s) + unat ms div 1000 + 1 < 2 ^ 32"
  shows "\<exists>u l. sleep_ms ms s = block_current (SleepBlocker u l) s
    \<and> (\<forall>s'. unat (s_ticks_this_second s') < 1000 \<longrightarrow> awake s' (SleepBlocker u l) \<longrightarrow>
         sleep_can_unblock s' u l = Inr (now_ms s + unat ms \<le> now_ms s'))"
  using assms by (rule sleep_wakes_exactly)

theorem sleep_is_exact_witness:
  "\<exists>u l. sleep_ms 1500 small_machine = block_current (SleepBlocker u l) small_machine
    \<and> (\<forall>s'. unat (s_ticks_this_second s') < 1000 \<longrightarrow> awake s' (SleepBlocker u l) \<longrightarrow>
         sleep_can_unblock s' u l = Inr (1507 \<le> now_ms s'))"
proof -
  have "now_ms small_machine = 7" "unat (s_ticks_this_second small_machine) = 7"
    "unat (s_seconds_since_boot small_machine) = 0"
    by (simp_all add: now_ms_def small_machine_def)
  then show ?thesis using sleep_is_exact [of small_machine 1500] by simp
qed

end
