(* ===== verification/Paths.thy ===== *)
theory Paths
  imports Strings "HOL-Library.Sublist"
begin

text \<open>
  File paths (\<^verbatim>\<open>libc/FileSystem/path.cpp\<close>) and directory entries with their wire format
  (\<^verbatim>\<open>libc/FileSystem/DirectoryEntry.cpp\<close>). A path is the vector of its parts and a type;
  \<open>path_parts\<close> is the list of the parts' texts. Copying a string or a vector gives the same
  value (\<open>String_copy_ok\<close>, \<open>vec_initialize_from_ok\<close>), so parameters passed by copy are the
  values themselves.
\<close>

section \<open>Paths\<close>

datatype PathType = Absolute | Relative | Invalid

record path =
  m_parts :: "str vec"
  m_type :: PathType

definition Path_empty :: path where
  "Path_empty = \<lparr>m_parts = vec_new, m_type = Absolute\<rparr>"

definition num_parts :: "path \<Rightarrow> nat" where
  "num_parts p = m_size (m_parts p)"

definition get_part :: "path \<Rightarrow> nat \<Rightarrow> str result" where
  "get_part p idx = vec_access (m_parts p) idx"

function parts_loop :: "str \<Rightarrow> nat \<Rightarrow> str vec \<Rightarrow> str vec result" where
  "parts_loop path cur parts =
     (if cur < m_len path then
        rbind (substr path (int cur) (-1)) (\<lambda>sub.
        rbind (str_find sub (mk_str ''/'') 0) (\<lambda>next_sep.
          if next_sep = -1 then vec_append parts sub
          else rbind (substr path (int cur) (next_sep + int cur)) (\<lambda>part.
               rbind (vec_append parts part) (\<lambda>parts'.
                 parts_loop path (nat (next_sep + int cur) + 1) parts'))))
      else Inr parts)"
  by pat_completeness auto
termination
  by (relation "measure (\<lambda>(path, cur, parts). m_len path - cur)") (auto dest!: str_find_range)

declare parts_loop.simps [simp del]

definition parts_from_string :: "str \<Rightarrow> str vec result" where
  "parts_from_string path =
     (if m_len path = 0 then Inr vec_new
      else rbind (str_index path 0) (\<lambda>c.
           parts_loop path (if c = CHR ''/'' then 1 else 0) vec_new))"

definition type_from_string :: "str \<Rightarrow> PathType result" where
  "type_from_string path =
     (if m_len path = 0 then Inr Invalid
      else rbind (str_index path 0) (\<lambda>c. Inr (if c = CHR ''/'' then Absolute else Relative)))"

definition Path_of_string :: "str \<Rightarrow> path result" where
  "Path_of_string path =
     rbind (parts_from_string path) (\<lambda>parts.
     rbind (type_from_string path) (\<lambda>ty. Inr \<lparr>m_parts = parts, m_type = ty\<rparr>))"

text \<open>The comparison loop of \<^verbatim>\<open>remove_mount_prefix\<close> and \<^verbatim>\<open>is_prefix_of\<close>, over the indices.\<close>

fun parts_match :: "path \<Rightarrow> path \<Rightarrow> nat list \<Rightarrow> bool result" where
  "parts_match p q [] = Inr True"
| "parts_match p q (i # is) =
     rbind (get_part p i) (\<lambda>a. rbind (get_part q i) (\<lambda>b. rbind (str_neq a b) (\<lambda>ne.
       if ne then Inr False else parts_match p q is)))"

text \<open>\<open>None\<close> is the result \<^verbatim>\<open>false\<close>, in which \<^verbatim>\<open>res\<close> is left alone.\<close>

definition remove_mount_prefix :: "path \<Rightarrow> path \<Rightarrow> path option result" where
  "remove_mount_prefix p mount_point =
     (if num_parts p < num_parts mount_point then Inr None
      else rbind (parts_match p mount_point [0..<num_parts mount_point]) (\<lambda>same.
        if \<not> same then Inr None
        else rbind (append_each vec_append vec_new
                      (map (get_part p) [num_parts mount_point..<num_parts p])) (\<lambda>parts.
             Inr (Some \<lparr>m_parts = parts, m_type = Relative\<rparr>))))"

fun to_string_loop :: "path \<Rightarrow> nat list \<Rightarrow> str \<Rightarrow> str result" where
  "to_string_loop p [] res = Inr res"
| "to_string_loop p (i # is) res =
     rbind (get_part p i) (\<lambda>part_i.
     rbind (str_plus res part_i) (\<lambda>res1.
     rbind (if i \<noteq> num_parts p - 1 then str_plus res1 (mk_str ''/'') else Inr res1) (\<lambda>res2.
       to_string_loop p is res2)))"

definition Path_to_string :: "path \<Rightarrow> str result" where
  "Path_to_string p = to_string_loop p [0..<num_parts p] String_empty"

definition base_name :: "path \<Rightarrow> str result" where
  "base_name p =
     rbind (assert_that (num_parts p \<noteq> 0)) (\<lambda>_. vec_access (m_parts p) (m_size (m_parts p) - 1))"

definition dirname :: "path \<Rightarrow> path result" where
  "dirname p =
     (if num_parts p < 2 then Path_of_string (mk_str ''/'')
      else rbind (vec_range (m_parts p) 0 (m_size (m_parts p) - 1)) (\<lambda>parts.
           Inr \<lparr>m_parts = parts, m_type = m_type p\<rparr>))"

definition is_prefix_of :: "path \<Rightarrow> path \<Rightarrow> bool result" where
  "is_prefix_of p other =
     (if num_parts p > num_parts other then Inr False
      else parts_match p other [0..<num_parts p])"

definition is_parent_of :: "path \<Rightarrow> path \<Rightarrow> bool result" where
  "is_parent_of p other =
     rbind (is_prefix_of p other) (\<lambda>b. Inr (b \<and> num_parts p + 1 = num_parts other))"

definition add_part :: "path \<Rightarrow> str \<Rightarrow> path result" where
  "add_part p part = rbind (vec_append (m_parts p) part) (\<lambda>parts. Inr (p\<lparr>m_parts := parts\<rparr>))"

section \<open>Directory entries\<close>

abbreviation Type_File :: u8 where "Type_File \<equiv> 0"
abbreviation Type_Directory :: u8 where "Type_Directory \<equiv> 1"

record DirectoryEntry =
  de_path :: path
  de_type :: u8

text \<open>
  \<open>serialized_size\<close> is what \<^verbatim>\<open>serialize\<close> returns on a null pointer; \<open>serialize\<close> gives the
  size and the buffer after the writes.
\<close>

definition serialized_size :: "DirectoryEntry \<Rightarrow> nat result" where
  "serialized_size e = rbind (Path_to_string (de_path e)) (\<lambda>path_str. Inr (1 + 2 + m_len path_str))"

definition serialize :: "DirectoryEntry \<Rightarrow> u8 list \<Rightarrow> (nat \<times> u8 list) result" where
  "serialize e data =
     rbind (Path_to_string (de_path e)) (\<lambda>path_str.
     rbind (c_str path_str) (\<lambda>cs.
     rbind (memcpy data [de_type e] 1) (\<lambda>d1.
     rbind (memcpy (drop 1 d1) (le16 (word_of_nat (m_len path_str))) 2) (\<lambda>d2.
     rbind (memcpy (drop 2 d2) (map byte_of_char cs) (m_len path_str)) (\<lambda>d3.
       Inr (1 + 2 + m_len path_str, take 1 d1 @ take 2 d2 @ d3))))))"

text \<open>The entry, and the number of bytes it used.\<close>

fun deserialize :: "u8 list \<Rightarrow> (DirectoryEntry \<times> nat) result" where
  "deserialize (t # l0 # l1 # data) =
     rbind (init_from (map char_of_byte data) (unat (of_le16 l0 l1))) (\<lambda>path_str.
     rbind (Path_of_string path_str) (\<lambda>p.
       Inr (\<lparr>de_path = p, de_type = t\<rparr>, 1 + 2 + unat (of_le16 l0 l1))))"
| "deserialize data = Inl BadAccess"

section \<open>Well-formed paths\<close>

definition path_ok :: "path \<Rightarrow> bool" where
  "path_ok p \<longleftrightarrow> vec_growable (m_parts p) \<and> list_all str_ok (vec_list (m_parts p))"

definition path_parts :: "path \<Rightarrow> string list" where
  "path_parts p = map chars (vec_list (m_parts p))"

lemma path_okD:
  assumes "path_ok p"
  shows "num_parts p = length (path_parts p)" "vec_ok (m_parts p)"
    "vec_list (m_parts p) = map mk_str (path_parts p)"
  using assms vec_okD(3) [of "m_parts p"]
  by (auto simp: path_ok_def path_parts_def num_parts_def vec_growable_def list_all_iff map_idI)

lemma path_okI:
  assumes "vec_growable v" "vec_list v = map mk_str ps"
  shows "path_ok \<lparr>m_parts = v, m_type = t\<rparr>" "path_parts \<lparr>m_parts = v, m_type = t\<rparr> = ps"
  using assms by (simp_all add: path_ok_def path_parts_def list_all_iff comp_def)

lemma get_part_ok:
  assumes "path_ok p"
  shows "get_part p i = (if i < length (path_parts p) then Inr (mk_str (path_parts p ! i))
    else Inl AssertionFailed)"
  using path_okD [OF assms] by (simp add: get_part_def vec_access_nth)

lemma Path_empty_ok [simp]: "path_ok Path_empty" "path_parts Path_empty = []"
  by (simp_all add: Path_empty_def path_ok_def path_parts_def vec_new_def)

lemma parts_match_ok:
  assumes "path_ok p" "path_ok q" "set is \<subseteq> {0..<length (path_parts p)}"
    "set is \<subseteq> {0..<length (path_parts q)}"
  shows "parts_match p q is = Inr (\<forall>i\<in>set is. path_parts p ! i = path_parts q ! i)"
  using assms(3,4) by (induction "is") (auto simp: get_part_ok [OF assms(1)] get_part_ok [OF assms(2)] str_neq_ok)

lemma nth_eq_prefix:
  "length ps \<le> length qs \<Longrightarrow> (\<forall>i\<in>{0..<length ps}. ps ! i = qs ! i) \<longleftrightarrow> prefix ps qs"
  by (auto simp: prefix_def nth_append intro: exI [of _ "drop (length ps) qs"])
    (metis append_take_drop_id atLeast0LessThan lessThan_iff nth_take_lemma order_refl take_all)

lemma is_prefix_of_ok:
  assumes "path_ok p" "path_ok q"
  shows "is_prefix_of p q = Inr (prefix (path_parts p) (path_parts q))"
proof (cases "num_parts p > num_parts q")
  case True
  then show ?thesis
    using path_okD(1) [OF assms(1)] path_okD(1) [OF assms(2)] prefix_length_le
    by (fastforce simp: is_prefix_of_def)
next
  case False
  then show ?thesis
    using path_okD(1) [OF assms(1)] path_okD(1) [OF assms(2)] nth_eq_prefix [of "path_parts p" "path_parts q"]
    by (simp add: is_prefix_of_def parts_match_ok [OF assms])
qed

lemma remove_mount_prefix_ok:
  assumes "path_ok p" "path_ok mp"
  shows "if prefix (path_parts mp) (path_parts p)
    then \<exists>r. remove_mount_prefix p mp = Inr (Some r) \<and> path_ok r
      \<and> path_parts r = drop (length (path_parts mp)) (path_parts p) \<and> m_type r = Relative
    else remove_mount_prefix p mp = Inr None"
proof -
  let ?p = "path_parts p" and ?m = "path_parts mp"
  note n = path_okD(1) [OF assms(1)] path_okD(1) [OF assms(2)]
  show ?thesis
  proof (cases "length ?m \<le> length ?p")
    case False
    then show ?thesis using n by (auto simp: remove_mount_prefix_def dest: prefix_length_le)
  next
    case True
    have match: "parts_match p mp [0..<length ?m] = Inr (prefix ?m ?p)"
      using True by (subst nth_eq_prefix [OF True, symmetric]) (auto simp: parts_match_ok [OF assms])
    have "map (get_part p) [length ?m..<length ?p] = map Inr (map mk_str (drop (length ?m) ?p))"
      by (rule nth_equalityI) (simp_all add: get_part_ok [OF assms(1)])
    then obtain v where "append_each vec_append vec_new (map (get_part p) [length ?m..<length ?p]) = Inr v"
      "vec_growable v" "vec_list v = map mk_str (drop (length ?m) ?p)"
      using vec.append_each_Inr [of vec_new "map mk_str (drop (length ?m) ?p)"]
      by (auto simp: vec_new_def)
    then show ?thesis
      using True n match by (auto simp: remove_mount_prefix_def path_okI)
  qed
qed

section \<open>Printing and parsing\<close>

fun join :: "string list \<Rightarrow> string" where
  "join [] = []"
| "join [p] = p"
| "join (p # q # ps) = p @ CHR ''/'' # join (q # ps)"

text \<open>Parts that a path can print and parse back: not empty and without the separator.\<close>

definition part_ok :: "string \<Rightarrow> bool" where
  "part_ok cs \<longleftrightarrow> cs \<noteq> [] \<and> CHR ''/'' \<notin> set cs"

lemma to_string_loop_ok:
  assumes "path_ok p" "i \<le> length (path_parts p)"
  shows "to_string_loop p [i..<length (path_parts p)] (mk_str cs) =
    Inr (mk_str (cs @ join (drop i (path_parts p))))"
  using assms(2)
proof (induction "length (path_parts p) - i" arbitrary: i cs)
  case 0
  then show ?case by simp
next
  case (Suc n)
  then have i: "i < length (path_parts p)" by simp
  have IH: "to_string_loop p [Suc i..<length (path_parts p)] (mk_str cs') =
    Inr (mk_str (cs' @ join (drop (Suc i) (path_parts p))))" for cs'
    using Suc by (intro Suc.hyps(1)) auto
  have d: "drop i (path_parts p) = path_parts p ! i # drop (Suc i) (path_parts p)"
    using i by (rule Cons_nth_drop_Suc [symmetric])
  have last: "i = num_parts p - Suc 0 \<longleftrightarrow> drop (Suc i) (path_parts p) = []"
    using i path_okD(1) [OF assms(1)] by auto
  show ?case
    using i IH by (cases "drop (Suc i) (path_parts p)")
      (simp_all add: upt_conv_Cons get_part_ok [OF assms(1)] str_plus_ok d last del: drop_eq_Nil)
qed

lemma Path_to_string_ok: "path_ok p \<Longrightarrow> Path_to_string p = Inr (mk_str (join (path_parts p)))"
  using to_string_loop_ok [of p 0 "[]"] by (simp add: Path_to_string_def path_okD)

lemma parts_loop_ok:
  assumes "list_all part_ok ps" "drop cur cs = join ps" "cur \<le> length cs" "vec_growable v"
  shows "\<exists>v'. parts_loop (mk_str cs) cur v = Inr v' \<and> vec_growable v'
    \<and> vec_list v' = vec_list v @ map mk_str ps"
  using assms
proof (induction ps arbitrary: cur v rule: join.induct)
  case 1
  then show ?case by (simp add: parts_loop.simps)
next
  case (2 p)
  then have p: "p \<noteq> []" "CHR ''/'' \<notin> set p" "cur < length cs"
    by (auto simp: part_ok_def intro: ccontr)
  then have "substr (mk_str cs) (int cur) (-1) = Inr (mk_str p)" using 2 by (simp add: substr_rest)
  moreover have "str_find (mk_str p) (mk_str ''/'') 0 = Inr (-1)"
    using find_char_ok [of "CHR ''/''" p 0] p by (simp add: str_find_def)
  ultimately show ?case
    using vec_append_ok [OF 2(4), of "mk_str p"] p by (subst parts_loop.simps) simp
next
  case (3 p q ps)
  let ?rest = "join (q # ps)"
  have p: "p \<noteq> []" "CHR ''/'' \<notin> set p" "list_all part_ok (q # ps)"
    using 3(2) by (simp_all add: part_ok_def [of p])
  have d: "drop cur cs = p @ CHR ''/'' # ?rest" using 3(3) by simp
  have len: "length cs = cur + length p + Suc (length ?rest)"
    using arg_cong [OF d, of length] 3(4) by simp
  have sub: "substr (mk_str cs) (int cur) (-1) = Inr (mk_str (p @ CHR ''/'' # ?rest))"
    using d len by (simp add: substr_rest)
  have tw: "takeWhile (\<lambda>c. c \<noteq> CHR ''/'') (p @ CHR ''/'' # ?rest) = p"
    using p(2) by (subst takeWhile_append2) auto
  have find: "str_find (mk_str (p @ CHR ''/'' # ?rest)) (mk_str ''/'') 0 = Inr (int (length p))"
    using find_char_ok [of "CHR ''/''" "p @ CHR ''/'' # ?rest" 0] tw by (simp add: str_find_def)
  have part: "substr (mk_str cs) (int cur) (int (length p) + int cur) = Inr (mk_str p)"
    using substr_ok [of cur "length p + cur" cs] d len p(1) by simp
  obtain v1 where v1: "vec_append v (mk_str p) = Inr v1" "vec_growable v1"
    "vec_list v1 = vec_list v @ [mk_str p]" using vec_append_ok [OF 3(5)] by blast
  let ?next = "nat (int (length p) + int cur) + 1"
  have nx: "?next = cur + length p + 1" by simp
  have "drop ?next cs = ?rest"
    unfolding nx using arg_cong [OF d, of "drop (length p + 1)"] by (simp add: add.commute)
  from 3(1) [OF p(3) this _ v1(2)] len nx
  obtain v2 where "parts_loop (mk_str cs) ?next v1 = Inr v2" "vec_growable v2"
    "vec_list v2 = vec_list v1 @ map mk_str (q # ps)" by auto
  then show ?case
    using sub find part v1 len by (subst parts_loop.simps) simp
qed

lemma join_head:
  assumes "list_all part_ok ps" "ps \<noteq> []"
  shows "join ps \<noteq> []" "hd (join ps) \<noteq> CHR ''/''"
  using assms by (induction ps rule: join.induct) (auto simp: part_ok_def hd_append dest: hd_in_set)

lemma Path_of_string_join:
  assumes "list_all part_ok ps" "lead \<in> {[], ''/''}"
  shows "\<exists>p. Path_of_string (mk_str (lead @ join ps)) = Inr p \<and> path_ok p \<and> path_parts p = ps
    \<and> m_type p = (if lead = ''/'' then Absolute else if ps = [] then Invalid else Relative)"
proof -
  have loop: "\<exists>v. parts_loop (mk_str (lead @ join ps)) (length lead) vec_new = Inr v \<and> vec_growable v
    \<and> vec_list v = map mk_str ps"
    using parts_loop_ok [OF assms(1), of "length lead" "lead @ join ps" vec_new]
    by (simp add: vec_new_def)
  show ?thesis
  proof (cases "lead = ''/''")
    case True
    then show ?thesis
      using loop by (auto simp: Path_of_string_def parts_from_string_def type_from_string_def
        str_index_ok path_okI)
  next
    case False
    then have lead: "lead = []" using assms(2) by simp
    show ?thesis
    proof (cases "ps = []")
      case True
      then show ?thesis
        using lead by (simp add: Path_of_string_def parts_from_string_def type_from_string_def
          path_ok_def path_parts_def vec_new_def)
    next
      case False
      then have "join ps \<noteq> []" "join ps ! 0 \<noteq> CHR ''/''"
        using join_head [OF assms(1)] by (auto simp: hd_conv_nth)
      then show ?thesis
        using loop lead False by (auto simp: Path_of_string_def parts_from_string_def
          type_from_string_def str_index_ok path_okI)
    qed
  qed
qed

section \<open>Properties\<close>

text \<open>
  Printing a path and parsing the text gives the same parts back, with or without a
  leading separator, for every path whose parts are not empty and hold no separator.
\<close>

theorem path_string_roundtrip:
  assumes "path_ok p" "list_all part_ok (path_parts p)"
  shows "\<exists>s q. Path_to_string p = Inr s \<and> Path_of_string s = Inr q \<and> path_ok q
    \<and> path_parts q = path_parts p
    \<and> (\<exists>s' q'. str_plus (mk_str ''/'') s = Inr s' \<and> Path_of_string s' = Inr q'
         \<and> path_parts q' = path_parts p \<and> m_type q' = Absolute)"
  using Path_to_string_ok [OF assms(1)] Path_of_string_join [OF assms(2), of "[]"]
    Path_of_string_join [OF assms(2), of "''/''"]
  by (auto simp: str_plus_ok)

text \<open>The path \<^verbatim>\<open>/dev/pts\<close>, as the parser builds it.\<close>

definition dev_pts :: path where
  "dev_pts = \<lparr>m_parts = \<lparr>m_data = [Some (mk_str ''dev''), Some (mk_str ''pts'')],
     m_capacity = 2, m_size = 2\<rparr>, m_type = Absolute\<rparr>"

lemma dev_pts_ok: "path_ok dev_pts" "path_parts dev_pts = [''dev'', ''pts'']"
  by (simp_all add: dev_pts_def path_ok_def path_parts_def vec_growable_def vec_ok_def vec_list_def
    numeral_2_eq_2)

theorem path_string_roundtrip_witness:
  "\<exists>s q. Path_to_string dev_pts = Inr s \<and> Path_of_string s = Inr q \<and> path_ok q
    \<and> path_parts q = [''dev'', ''pts'']
    \<and> (\<exists>s' q'. str_plus (mk_str ''/'') s = Inr s' \<and> Path_of_string s' = Inr q'
         \<and> path_parts q' = [''dev'', ''pts''] \<and> m_type q' = Absolute)"
  using path_string_roundtrip [of dev_pts] by (simp add: dev_pts_ok part_ok_def)

text \<open>
  \<^verbatim>\<open>remove_mount_prefix\<close> succeeds exactly on the paths below the mount point, and then
  the mount point's parts followed by the remaining parts are the parts of the path; it and
  \<^verbatim>\<open>is_prefix_of\<close> agree.
\<close>

theorem mount_prefix_split:
  assumes "path_ok p" "path_ok mp"
  shows "is_prefix_of mp p = Inr (prefix (path_parts mp) (path_parts p))
    \<and> (if prefix (path_parts mp) (path_parts p)
       then \<exists>r. remove_mount_prefix p mp = Inr (Some r) \<and> path_ok r
         \<and> path_parts mp @ path_parts r = path_parts p \<and> m_type r = Relative
       else remove_mount_prefix p mp = Inr None)"
  using is_prefix_of_ok [OF assms(2,1)] remove_mount_prefix_ok [OF assms]
  by (auto simp: prefix_def)

theorem mount_prefix_split_witness:
  "is_prefix_of dev_pts dev_pts = Inr True
    \<and> (\<exists>r. remove_mount_prefix dev_pts dev_pts = Inr (Some r) \<and> path_ok r
        \<and> [''dev'', ''pts''] @ path_parts r = [''dev'', ''pts''] \<and> m_type r = Relative)"
  using mount_prefix_split [of dev_pts dev_pts] by (simp add: dev_pts_ok)

text \<open>
  A directory entry written by \<^verbatim>\<open>serialize\<close> is read back by \<^verbatim>\<open>deserialize\<close> with the same
  type, the same parts and the same size, whatever follows it in the buffer, when the path
  text fits the 16-bit length field; the bytes after it are untouched.
\<close>

theorem directory_entry_roundtrip:
  assumes "path_ok (de_path e)" "list_all part_ok (path_parts (de_path e))"
    "length (join (path_parts (de_path e))) < 65536"
    "3 + length (join (path_parts (de_path e))) \<le> length data"
  shows "\<exists>n data' e'. serialize e data = Inr (n, data') \<and> serialized_size e = Inr n
    \<and> length data' = length data \<and> drop n data' = drop n data
    \<and> deserialize data' = Inr (e', n) \<and> de_type e' = de_type e
    \<and> path_parts (de_path e') = path_parts (de_path e)"
proof -
  define cs where "cs = join (path_parts (de_path e))"
  obtain d0 d1 d2 rest where data: "data = d0 # d1 # d2 # rest" "length cs \<le> length rest"
    using assms(4) by (cases data; cases "tl data"; cases "tl (tl data)") (auto simp: cs_def)
  let ?l = "word_of_nat (length cs) :: u16"
  let ?data = "de_type e # ucast ?l # ucast (drop_bit 8 ?l) # map byte_of_char cs @ drop (length cs) rest"
  have l: "unat ?l = length cs" using assms(3) by (simp add: cs_def unat_of_nat)
  have to: "Path_to_string (de_path e) = Inr (mk_str cs)"
    using Path_to_string_ok [OF assms(1)] by (simp add: cs_def)
  have ser: "serialize e data = Inr (3 + length cs, ?data)"
    using data by (simp add: serialize_def to memcpy_eq le16_def numeral_2_eq_2 numeral_3_eq_3)
  obtain q where q: "Path_of_string (mk_str cs) = Inr q" "path_parts q = path_parts (de_path e)"
    using Path_of_string_join [OF assms(2), of "[]"] by (auto simp: cs_def)
  have "deserialize ?data = Inr (\<lparr>de_path = q, de_type = de_type e\<rparr>, 3 + length cs)"
    using q(1) by (simp add: l init_from_ok)
  then show ?thesis
    using ser q(2) data to by (auto simp: serialized_size_def numeral_3_eq_3)
qed

theorem directory_entry_roundtrip_witness:
  "\<exists>n data' e'. serialize \<lparr>de_path = dev_pts, de_type = Type_Directory\<rparr> (replicate 12 0) = Inr (n, data')
    \<and> serialized_size \<lparr>de_path = dev_pts, de_type = Type_Directory\<rparr> = Inr n
    \<and> length data' = 12 \<and> drop n data' = drop n (replicate 12 0)
    \<and> deserialize data' = Inr (e', n) \<and> de_type e' = Type_Directory
    \<and> path_parts (de_path e') = [''dev'', ''pts'']"
  using directory_entry_roundtrip [of "\<lparr>de_path = dev_pts, de_type = Type_Directory\<rparr>" "replicate 12 0"]
  by (simp add: dev_pts_ok part_ok_def)

end
