(* ===== verification/Printf.thy ===== *)
theory Printf
  imports CStrings
begin

text \<open>
  Formatted output: \<^verbatim>\<open>libc/printf.h\<close>, \<^verbatim>\<open>libc/stdio_shared.cpp\<close> and \<^verbatim>\<open>itoa\<close> of
  \<^verbatim>\<open>libc/stdlib.cpp\<close>. The calls of the output function are the list of the characters it is
  given. Integers are numbers below \<open>2 ^ 32\<close>; the arguments of a format are a list.
\<close>

section \<open>Numbers\<close>

definition digits_hex :: string where
  "digits_hex = ''0123456789abcdef''"

definition digits_dec :: string where
  "digits_dec = ''0123456789''"

text \<open>
  The first loop of \<^verbatim>\<open>print_int\<close>: the number of digits and the power of the base of the first
  one. The template is instantiated at the bases 10 and 16.
\<close>

function count_digits :: "nat \<Rightarrow> nat \<Rightarrow> nat \<Rightarrow> nat \<Rightarrow> nat \<times> nat" where
  "count_digits base temp n_digits pow =
     (if temp > 0 \<and> 2 \<le> base
      then count_digits base (temp div base) (n_digits + 1) (if pow = 0 then 1 else wrap32 (pow * base))
      else (n_digits, pow))"
  by pat_completeness auto
termination
  by (relation "measure (\<lambda>(base, temp, n_digits, pow). temp)") auto

declare count_digits.simps [simp del]

text \<open>\<open>k\<close> digits are left to print; the digit is an index of the table.\<close>

fun emit_digits :: "nat \<Rightarrow> string \<Rightarrow> nat \<Rightarrow> nat \<Rightarrow> nat \<Rightarrow> string result" where
  "emit_digits base digits 0 val pow = Inr []"
| "emit_digits base digits (Suc k) val pow =
     (if pow = 0 then Inl DivideError
      else let dig = (val div pow) mod 256
           in if dig < length digits
              then rbind (emit_digits base digits k (val mod pow) (pow div base))
                     (\<lambda>rest. Inr (digits ! dig # rest))
              else Inl BadAccess)"

text \<open>What is printed, and the returned count, which leaves the fill characters out.\<close>

definition print_int :: "nat \<Rightarrow> string \<Rightarrow> nat \<Rightarrow> int \<Rightarrow> char \<Rightarrow> bool \<Rightarrow> (string \<times> int) result" where
  "print_int base digits val min_chars fill_char is_signed =
     (if val = 0 then Inr (''0'', 1)
      else
        let sign_positive = (\<not> is_signed \<or> val < 2 ^ 31);
            val' = (if sign_positive then val else wrap32 (2 ^ 32 - val));
            (n_digits, pow) = count_digits base val' 0 0
        in rbind (emit_digits base digits n_digits val' pow) (\<lambda>ds.
             Inr ((if sign_positive then [] else ''-'')
                    @ replicate (nat (min_chars - int n_digits)) fill_char @ ds,
                  (if sign_positive then 0 else 1) + int n_digits)))"

definition print_int_dec :: "nat \<Rightarrow> int \<Rightarrow> char \<Rightarrow> (string \<times> int) result" where
  "print_int_dec val min_chars fill_char = print_int 10 digits_dec val min_chars fill_char True"

definition print_int_hex :: "nat \<Rightarrow> int \<Rightarrow> char \<Rightarrow> (string \<times> int) result" where
  "print_int_hex val min_chars fill_char = print_int 16 digits_hex val min_chars fill_char False"

fun print_string :: "string \<Rightarrow> (string \<times> int) result" where
  "print_string [] = Inl BadAccess"
| "print_string (c # str) =
     (if c = NUL then Inr ([], 0)
      else rbind (print_string str) (\<lambda>(out, ret). Inr (c # out, ret + 1)))"

section \<open>Formats\<close>

definition is_digit :: "char \<Rightarrow> bool" where
  "is_digit c \<longleftrightarrow> schar c \<ge> 48 \<and> schar c \<le> 57"

definition is_numeric_format_type_specifier :: "char \<Rightarrow> bool" where
  "is_numeric_format_type_specifier c \<longleftrightarrow> c = CHR ''d'' \<or> c = CHR ''x'' \<or> c = CHR ''i''"

definition char_at :: "string \<Rightarrow> nat \<Rightarrow> char result" where
  "char_at fmt i = (if i < length fmt then Inr (fmt ! i) else Inl BadAccess)"

fun back_to_percent :: "string \<Rightarrow> nat \<Rightarrow> nat result" where
  "back_to_percent fmt 0 = rbind (char_at fmt 0) (\<lambda>c. if c = CHR ''%'' then Inr 0 else Inl BadAccess)"
| "back_to_percent fmt (Suc i) =
     rbind (char_at fmt (Suc i)) (\<lambda>c. if c = CHR ''%'' then Inr (Suc i) else back_to_percent fmt i)"

text \<open>The digits of the fill number from a position on; \<open>None\<close> when there are more than the buffer takes.\<close>

fun fill_number :: "string \<Rightarrow> nat \<Rightarrow> string option result" where
  "fill_number [] i = Inl BadAccess"
| "fill_number (c # cs) i =
     (if is_digit c then
        (if i \<ge> 14 then Inr None
         else rbind (fill_number cs (i + 1)) (\<lambda>r. Inr (map_option (\<lambda>ds. c # ds) r)))
      else Inr (Some []))"

text \<open>The return code, \<^verbatim>\<open>min_chars\<close> and \<^verbatim>\<open>fill_char\<close>.\<close>

definition get_fill_data :: "string \<Rightarrow> nat \<Rightarrow> (int \<times> int \<times> char) result" where
  "get_fill_data fmt i =
     rbind (char_at fmt i) (\<lambda>c.
     rbind (assert_that (is_numeric_format_type_specifier c)) (\<lambda>_.
     rbind (back_to_percent fmt i) (\<lambda>p.
     rbind (char_at fmt (p + 1)) (\<lambda>f.
       if f \<noteq> CHR ''.'' \<and> \<not> is_digit f then Inr (0, 0, NUL)
       else
         let fill_char = (if f = CHR ''.'' \<or> f = CHR ''0'' then CHR ''0'' else CHR '' '');
             start = (if f = CHR ''.'' \<or> f = CHR ''0'' then p + 2 else p + 1)
         in rbind (fill_number (drop start fmt) 0) (\<lambda>r.
              case r of
                None \<Rightarrow> Inr (1, 0, fill_char)
              | Some ds \<Rightarrow> rbind (df_atoi (ds @ [NUL]) 10) (\<lambda>n. Inr (0, n, fill_char)))))))"

datatype arg = ArgInt nat | ArgStr string

fun int_arg :: "arg list \<Rightarrow> (nat \<times> arg list) result" where
  "int_arg (ArgInt n # args) = Inr (n, args)"
| "int_arg _ = Inl BadAccess"

fun str_arg :: "arg list \<Rightarrow> (string \<times> arg list) result" where
  "str_arg (ArgStr s # args) = Inr (s, args)"
| "str_arg _ = Inl BadAccess"

text \<open>Skipping the digits and dots of a conversion: how many there are.\<close>

fun skip_fill :: "string \<Rightarrow> nat" where
  "skip_fill [] = 0"
| "skip_fill (c # cs) = (if is_digit c \<or> c = CHR ''.'' then Suc (skip_fill cs) else 0)"

text \<open>One conversion at position \<open>i\<close>: what it prints, its count and the arguments left.\<close>

definition convert :: "string \<Rightarrow> nat \<Rightarrow> arg list \<Rightarrow> (string \<times> int \<times> arg list) result" where
  "convert fmt i args =
     rbind (char_at fmt i) (\<lambda>c.
       if c = CHR ''i'' \<or> c = CHR ''d'' then
         rbind (get_fill_data fmt i) (\<lambda>(rc, min_chars, fill_char).
         rbind (assert_that (rc = 0)) (\<lambda>_.
         rbind (int_arg args) (\<lambda>(n, args').
         rbind (print_int_dec n min_chars fill_char) (\<lambda>(out, r). Inr (out, r, args')))))
       else if c = CHR ''x'' then
         rbind (get_fill_data fmt i) (\<lambda>(rc, min_chars, fill_char).
         rbind (assert_that (rc = 0)) (\<lambda>_.
         rbind (int_arg args) (\<lambda>(n, args').
         rbind (print_int_hex n min_chars fill_char) (\<lambda>(out, r). Inr (out, r, args')))))
       else if c = CHR ''p'' then
         rbind (print_string (''0x'' @ [NUL])) (\<lambda>(out1, r1).
         rbind (int_arg args) (\<lambda>(n, args').
         rbind (print_int_hex n 0 NUL) (\<lambda>(out, r). Inr (out1 @ out, r1 + r, args'))))
       else if c = CHR ''s'' then
         rbind (str_arg args) (\<lambda>(s, args').
         rbind (print_string s) (\<lambda>(out, r). Inr (out, r, args')))
       else if c = CHR ''c'' then
         rbind (int_arg args) (\<lambda>(n, args'). Inr ([char_of n], 1, args'))
       else if c = CHR ''%'' then Inr (''%'', 1, args)
       else Inl AssertionFailed)"

function printf_loop :: "string \<Rightarrow> nat \<Rightarrow> arg list \<Rightarrow> (string \<times> int) result" where
  "printf_loop fmt i args =
     rbind (char_at fmt i) (\<lambda>c.
       if c = NUL then Inr ([], 0)
       else
         rbind (if c = CHR ''%'' then rbind (char_at fmt (i + 1)) (\<lambda>c'. Inr (c' \<noteq> NUL)) else Inr False) (\<lambda>conv.
           if conv then
             let j = i + 1 + skip_fill (drop (i + 1) fmt)
             in rbind (convert fmt j args) (\<lambda>(out, r, args').
                rbind (printf_loop fmt (j + 1) args') (\<lambda>(out', r'). Inr (out @ out', r + r')))
           else
             rbind (printf_loop fmt (i + 1) args) (\<lambda>(out', r'). Inr (c # out', r' + 1))))"
  by pat_completeness auto
termination
  by (relation "measure (\<lambda>(fmt, i, args). length fmt - i)") (auto simp: char_at_def split: if_splits)

declare printf_loop.simps [simp del]

definition printf_internal :: "string \<Rightarrow> arg list \<Rightarrow> (string \<times> int) result" where
  "printf_internal fmt args = printf_loop fmt 0 args"

section \<open>Writing into buffers\<close>

text \<open>\<open>buf\<close> is the memory \<open>out\<close> points to; the result is the return value and the memory.\<close>

definition itoa :: "nat \<Rightarrow> string \<Rightarrow> nat \<Rightarrow> (int \<times> string) result" where
  "itoa num buf out_len =
     rbind (printf_internal (''%d'' @ [NUL]) [ArgInt num]) (\<lambda>(out, rc).
       let written = take out_len out
       in rbind (memcpy buf written (length written)) (\<lambda>buf1.
            if length written \<ge> out_len then Inr (0, buf1)
            else if length written < length buf1
                 then Inr (rc, buf1[length written := NUL])
                 else Inl BadAccess))"

definition vsnprintf_impl :: "string \<Rightarrow> nat \<Rightarrow> string \<Rightarrow> arg list \<Rightarrow> (nat \<times> string) result" where
  "vsnprintf_impl buf n fmt args =
     rbind (printf_internal fmt args) (\<lambda>(out, rc).
       let written = take n out
       in rbind (memcpy buf written (length written)) (\<lambda>buf1.
            if length out < n then
              (if length out < length buf1 then Inr (length out, buf1[length out := NUL]) else Inl BadAccess)
            else if n > 0 then
              (if n - 1 < length buf1 then Inr (length out, buf1[n - 1 := NUL]) else Inl BadAccess)
            else Inr (length out, buf1)))"

section \<open>The digits printed\<close>

text \<open>The reference: the digits of a number, most significant first.\<close>

function digits_of :: "nat \<Rightarrow> nat \<Rightarrow> nat list" where
  "digits_of base n =
     (if n < base \<or> base < 2 then [n] else digits_of base (n div base) @ [n mod base])"
  by pat_completeness auto
termination
  by (relation "measure (\<lambda>(base, n). n)") (auto simp: not_less)

declare digits_of.simps [simp del]

lemma digits_of_bound: "2 \<le> base \<Longrightarrow> d \<in> set (digits_of base n) \<Longrightarrow> d < base"
proof (induction base n rule: digits_of.induct)
  case (1 base n)
  then show ?case by (subst (asm) digits_of.simps) (auto split: if_splits)
qed

lemma length_digits_of:
  "2 \<le> base \<Longrightarrow> 0 < n \<Longrightarrow> base ^ (length (digits_of base n) - 1) \<le> n \<and> n < base ^ length (digits_of base n)"
proof (induction base n rule: digits_of.induct)
  case (1 base n)
  show ?case
  proof (cases "n < base")
    case True
    then show ?thesis using "1.prems" by (simp add: digits_of.simps [of base n])
  next
    case False
    define m where "m = length (digits_of base (n div base))"
    have pos: "0 < n div base" using False "1.prems" by (simp add: div_greater_zero_iff)
    have IH: "base ^ (m - 1) \<le> n div base" "n div base < base ^ m"
      using "1.IH" False "1.prems" pos by (auto simp: m_def)
    have m: "0 < m" unfolding m_def by (subst digits_of.simps) simp
    have len: "length (digits_of base n) = Suc m"
      using False "1.prems" by (subst digits_of.simps) (simp add: m_def)
    have "base ^ m = base * base ^ (m - 1)" using m by (cases m) simp_all
    also have "\<dots> \<le> base * (n div base)" using IH(1) by simp
    also have "\<dots> \<le> n" by simp
    finally have "base ^ m \<le> n" .
    moreover have "n < base * base ^ m"
      using IH(2) "1.prems" by (simp add: div_less_iff_less_mult mult.commute)
    ultimately show ?thesis by (simp add: len)
  qed
qed

text \<open>Exactly \<open>k\<close> digits, with leading zeros; the printing loop produces them from the front.\<close>

fun padded :: "nat \<Rightarrow> nat \<Rightarrow> nat \<Rightarrow> nat list" where
  "padded base 0 n = []"
| "padded base (Suc k) n = padded base k (n div base) @ [n mod base]"

lemma div_mod_power: "0 < b \<Longrightarrow> n div b mod b ^ k = n mod b ^ Suc k div b" for b :: nat
  by (simp add: mod_mult2_eq)

lemma padded_front:
  assumes "0 < base"
  shows "padded base (Suc k) n = (n div base ^ k) mod base # padded base k (n mod base ^ k)"
proof (induction k arbitrary: n)
  case (Suc k)
  have "n mod base ^ Suc k mod base = n mod base" by (simp add: mod_mod_cancel)
  then show ?case
    using Suc [of "n div base"] div_mod_power [OF assms, of n k] by (simp add: div_mult2_eq)
qed simp

lemma digits_of_padded:
  assumes "2 \<le> base"
  shows "digits_of base n = padded base (length (digits_of base n)) n"
  using assms
proof (induction base n rule: digits_of.induct)
  case (1 base n)
  show ?case
  proof (cases "n < base")
    case True
    then show ?thesis by (simp add: digits_of.simps [of base n])
  next
    case False
    then have "digits_of base n = digits_of base (n div base) @ [n mod base]"
      using "1.prems" by (subst digits_of.simps) simp
    then show ?thesis using "1.IH" False "1.prems" by simp
  qed
qed

lemma emit_digits_padded:
  assumes b: "2 \<le> base" "base \<le> length digits" "base \<le> 256"
  shows "n < base ^ k \<Longrightarrow> emit_digits base digits k n (base ^ (k - 1)) = Inr (map ((!) digits) (padded base k n))"
proof (induction k arbitrary: n)
  case (Suc k)
  let ?d = "n div base ^ k"
  have d: "?d < base" using Suc.prems by (simp add: less_mult_imp_div_less)
  have "n mod base ^ k < base ^ k" using b(1) by simp
  from Suc.IH [OF this] have "emit_digits base digits k (n mod base ^ k) (base ^ k div base)
      = Inr (map ((!) digits) (padded base k (n mod base ^ k)))"
    using b(1) by (cases k) simp_all
  then show ?case
    using d b padded_front [of base k n] by (simp add: Let_def del: padded.simps)
qed simp

lemma count_digits_gen:
  assumes "2 \<le> base" "0 < n" "base ^ (c + length (digits_of base n) - 1) < 2 ^ 32" "0 < c"
  shows "count_digits base n c (base ^ (c - 1)) =
    (c + length (digits_of base n), base ^ (c + length (digits_of base n) - 1))"
  using assms
proof (induction base n arbitrary: c rule: digits_of.induct)
  case (1 base n)
  have pow: "wrap32 (base ^ (c - 1) * base) = base ^ c"
  proof -
    have "1 \<le> length (digits_of base n)" by (subst digits_of.simps) simp
    then have "base ^ c \<le> base ^ (c + length (digits_of base n) - 1)"
      using "1.prems" by (intro power_increasing) auto
    then have "base ^ c < 4294967296" using "1.prems"(3) by simp
    moreover have "base ^ (c - 1) * base = base ^ c" using "1.prems"(4) by (cases c) simp_all
    ultimately show ?thesis by simp
  qed
  have step: "count_digits base n c (base ^ (c - 1)) = count_digits base (n div base) (c + 1) (base ^ c)"
    using "1.prems" pow by (subst count_digits.simps) simp
  show ?case
  proof (cases "n < base")
    case True
    then show ?thesis using step by (simp add: digits_of.simps [of base n] count_digits.simps)
  next
    case False
    then have "digits_of base n = digits_of base (n div base) @ [n mod base]"
      using "1.prems" by (subst digits_of.simps) simp
    moreover have "0 < n div base" using False "1.prems" by (simp add: div_greater_zero_iff)
    ultimately show ?thesis
      using "1.IH" [of "c + 1"] False "1.prems" step by simp
  qed
qed

lemma count_digits_ok:
  assumes "2 \<le> base" "0 < n" "n < 2 ^ 32"
  shows "count_digits base n 0 0 = (length (digits_of base n), base ^ (length (digits_of base n) - 1))"
proof -
  define k where "k = length (digits_of base n)"
  have le: "base ^ (k - 1) \<le> n" using length_digits_of [OF assms(1,2)] by (simp add: k_def)
  have step: "count_digits base n 0 0 = count_digits base (n div base) 1 1"
    using assms by (subst count_digits.simps) simp
  show ?thesis
  proof (cases "n < base")
    case True
    then show ?thesis using step by (simp add: digits_of.simps [of base n] count_digits.simps)
  next
    case False
    then have d: "digits_of base n = digits_of base (n div base) @ [n mod base]"
      using assms by (subst digits_of.simps) simp
    have pos: "0 < n div base" using False assms by (simp add: div_greater_zero_iff)
    have "base ^ (1 + length (digits_of base (n div base)) - 1) < 2 ^ 32"
      using le d assms(3) by (simp add: k_def)
    from count_digits_gen [OF assms(1) pos this] step d show ?thesis by simp
  qed
qed

text \<open>What \<^verbatim>\<open>print_int\<close> prints for a number other than 0.\<close>

lemma print_int_ok:
  assumes b: "2 \<le> base" "base \<le> length digits" "base \<le> 256" and v: "0 < v" "v < 2 ^ 32"
  shows "print_int base digits v mn fill sg =
    (let neg = sg \<and> 2 ^ 31 \<le> v;
         a = (if neg then 2 ^ 32 - v else v);
         ds = map ((!) digits) (digits_of base a)
     in Inr ((if neg then ''-'' else []) @ replicate (nat (mn - int (length ds))) fill @ ds,
             (if neg then 1 else 0) + int (length ds)))"
proof -
  define neg where "neg \<longleftrightarrow> sg \<and> 2 ^ 31 \<le> v"
  define a where "a = (if neg then 2 ^ 32 - v else v)"
  have a: "0 < a" "a < 2 ^ 32" using v by (simp_all add: a_def)
  have "a < base ^ length (digits_of base a)" using length_digits_of [OF b(1) a(1)] by simp
  then have "emit_digits base digits (length (digits_of base a)) a (base ^ (length (digits_of base a) - 1))
      = Inr (map ((!) digits) (digits_of base a))"
    using emit_digits_padded [OF b] digits_of_padded [OF b(1), of a] by simp
  moreover have "(if \<not> sg \<or> v < 2 ^ 31 then v else wrap32 (2 ^ 32 - v)) = a"
    using v by (auto simp: a_def neg_def)
  ultimately show ?thesis
    using v count_digits_ok [OF b(1) a]
    by (auto simp: print_int_def Let_def neg_def [symmetric] a_def [symmetric] not_less not_le neg_def)
qed

section \<open>Printing and parsing back\<close>

definition digits_value :: "nat \<Rightarrow> nat list \<Rightarrow> nat \<Rightarrow> nat" where
  "digits_value base ds acc = foldl (\<lambda>a d. a * base + d) acc ds"

lemma digits_value_digits_of: "2 \<le> base \<Longrightarrow> digits_value base (digits_of base n) 0 = n"
proof (induction base n rule: digits_of.induct)
  case (1 base n)
  then show ?case by (subst digits_of.simps) (auto simp: digits_value_def)
qed

lemma schar_digit:
  assumes "d < 10"
  shows "schar (digits_dec ! d) = 48 + int d" "digits_dec ! d \<noteq> NUL" "digits_dec ! d \<noteq> CHR ''-''"
proof -
  have "d = 0 \<or> d = 1 \<or> d = 2 \<or> d = 3 \<or> d = 4 \<or> d = 5 \<or> d = 6 \<or> d = 7 \<or> d = 8 \<or> d = 9"
    using assms by presburger
  then show "schar (digits_dec ! d) = 48 + int d" "digits_dec ! d \<noteq> NUL" "digits_dec ! d \<noteq> CHR ''-''"
    by (elim disjE; simp add: digits_dec_def schar_def of_char_def)+
qed

lemma atoi_10_loop_digits:
  assumes "\<forall>d\<in>set ds. d < 10"
  shows "atoi_10_loop (map ((!) digits_dec) ds @ NUL # r) (of_nat acc) = Inr (of_nat (digits_value 10 ds acc))"
  using assms
proof (induction ds arbitrary: acc)
  case (Cons d ds)
  have "of_nat acc * 10 + of_int (schar (digits_dec ! d) - schar (CHR ''0'')) = (of_nat (acc * 10 + d) :: u32)"
    using schar_digit(1) [of d] Cons.prems by (simp add: schar_def of_char_def)
  then show ?case
    using Cons.IH [of "acc * 10 + d"] Cons.prems schar_digit(2) [of d]
    by (simp add: digits_value_def)
qed (simp add: digits_value_def)

lemma printf_d: "printf_internal (''%d'' @ [NUL]) [ArgInt n] = print_int_dec n 0 NUL"
proof -
  let ?f = "''%d'' @ [NUL]"
  have fill: "get_fill_data ?f 1 = Inr (0, 0, NUL)"
    by (simp add: get_fill_data_def char_at_def is_numeric_format_type_specifier_def is_digit_def
      schar_def of_char_def numeral_2_eq_2)
  have conv: "convert ?f 1 [ArgInt n] = rbind (print_int_dec n 0 NUL) (\<lambda>(out, r). Inr (out, r, []))"
    using fill by (simp add: convert_def char_at_def)
  have stop: "printf_loop ?f 2 args = Inr ([], 0)" for args
    by (subst printf_loop.simps) (simp add: char_at_def)
  have "skip_fill (''d'' @ [NUL]) = 0" by (simp add: is_digit_def schar_def of_char_def)
  then have "printf_internal ?f [ArgInt n] = rbind (convert ?f 1 [ArgInt n]) (\<lambda>(out, r, args').
      rbind (printf_loop ?f 2 args') (\<lambda>(out', r'). Inr (out @ out', r + r')))"
    unfolding printf_internal_def
    by (subst printf_loop.simps) (simp add: char_at_def numeral_2_eq_2)
  then show ?thesis using conv stop by (cases "print_int_dec n 0 NUL") auto
qed

lemma atoi_print_int_dec:
  fixes w :: u32
  shows "\<exists>out r. print_int_dec (unat w) 0 NUL = Inr (out, r) \<and> length out \<le> 11 \<and> r = int (length out)
    \<and> atoi_10 (out @ NUL # rest) = Inr (sint w)"
proof (cases "w = 0")
  case True
  then show ?thesis
    by (simp add: print_int_dec_def print_int_def atoi_10_def schar_def of_char_def)
next
  case False
  define v where "v = unat w"
  have v: "0 < v" "v < 2 ^ 32" using False by (simp_all add: v_def unat_gt_0)
  define neg where "neg \<longleftrightarrow> 2 ^ 31 \<le> v"
  define a where "a = (if neg then 2 ^ 32 - v else v)"
  define ds where "ds = digits_of 10 a"
  have a: "0 < a" "a \<le> 2 ^ 32 - 1" using v by (auto simp: a_def)
  have lt: "\<forall>d\<in>set ds. d < 10" using digits_of_bound [of 10] by (simp add: ds_def)
  have len: "length ds \<le> 10"
  proof (rule ccontr)
    assume "\<not> length ds \<le> 10"
    then have "(10::nat) ^ 10 \<le> 10 ^ (length ds - 1)" by (intro power_increasing) auto
    also have "\<dots> \<le> a" using length_digits_of [of 10 a] a by (simp add: ds_def)
    finally show False using a(2) by simp
  qed
  have ne: "ds \<noteq> []" unfolding ds_def by (subst digits_of.simps) simp
  let ?out = "(if neg then ''-'' else []) @ map ((!) digits_dec) ds"
  have pr: "print_int_dec v 0 NUL = Inr (?out, int (length ?out))"
    using print_int_ok [of 10 digits_dec v 0 NUL True] v
    by (simp add: print_int_dec_def digits_dec_def Let_def neg_def a_def ds_def)
  have loop: "atoi_10_loop (map ((!) digits_dec) ds @ NUL # rest) 0 = Inr (of_nat a)"
    using atoi_10_loop_digits [OF lt, of rest 0] by (simp add: ds_def digits_value_digits_of)
  have "atoi_10 (?out @ NUL # rest) = Inr (sint (of_nat a * (if neg then - 1 else 1) :: u32))"
  proof (cases neg)
    case True
    then show ?thesis using loop by (simp add: atoi_10_def)
  next
    case False
    obtain d ds' where d: "ds = d # ds'" using ne by (cases ds) auto
    then have "digits_dec ! d \<noteq> CHR ''-''" using schar_digit(3) lt by simp
    then show ?thesis using loop False d by (simp add: atoi_10_def)
  qed
  moreover have "of_nat a * (if neg then - 1 else 1) = w"
  proof -
    have "(word_of_nat (4294967296 - unat w) :: u32) = - w"
      by (subst of_nat_diff) (simp_all add: less_imp_le)
    then show ?thesis by (simp add: a_def v_def)
  qed
  ultimately show ?thesis using pr len by (auto simp: v_def)
qed

section \<open>Properties\<close>

text \<open>
  C38: \<^verbatim>\<open>itoa\<close> into a buffer of at least 12 characters followed by \<^verbatim>\<open>atoi\<close> gives back every
  32-bit integer, the most negative one included; \<^verbatim>\<open>itoa\<close> returns the length of the text
  and writes nothing behind the terminator.
\<close>

theorem itoa_atoi_roundtrip:
  fixes w :: u32
  assumes "12 \<le> out_len" "out_len \<le> length buf"
  shows "\<exists>n buf'. itoa (unat w) buf out_len = Inr (int n, buf') \<and> atoi buf' = Inr (sint w)
    \<and> n \<le> 11 \<and> length buf' = length buf \<and> drop (n + 1) buf' = drop (n + 1) buf"
proof -
  obtain out r where out: "print_int_dec (unat w) 0 NUL = Inr (out, r)" "length out \<le> 11" "r = int (length out)"
    "\<And>rest. atoi_10 (out @ NUL # rest) = Inr (sint w)"
    using atoi_print_int_dec [of w] by (metis Inr_inject prod.inject)
  let ?buf = "out @ NUL # drop (length out + 1) buf"
  have "itoa (unat w) buf out_len = Inr (int (length out), ?buf)"
    using out(1-3) assms printf_d [of "unat w"]
    by (simp add: itoa_def Let_def memcpy_eq list_update_append Cons_nth_drop_Suc [symmetric])
  then show ?thesis using out assms by (intro exI [of _ "length out"] exI [of _ ?buf]) (auto simp: atoi_def)
qed

theorem itoa_atoi_roundtrip_witness:
  "\<exists>n buf'. itoa (unat (- 42 :: u32)) (replicate 64 NUL) 64 = Inr (int n, buf') \<and> atoi buf' = Inr (- 42)
    \<and> n \<le> 11 \<and> length buf' = 64 \<and> drop (n + 1) buf' = drop (n + 1) (replicate 64 NUL)"
  using itoa_atoi_roundtrip [of 64 "replicate 64 NUL" "- 42"] by simp

text \<open>
  C39: \<^verbatim>\<open>snprintf\<close> never writes outside the first \<open>size\<close> characters of the buffer, terminates the
  text whenever \<open>size\<close> is not 0, cuts it to \<open>size - 1\<close> characters, and returns the length the
  whole text would have had.
\<close>

theorem snprintf_bounded:
  assumes "printf_internal fmt args = Inr (out, rc)" "n \<le> length buf"
  shows "\<exists>buf'. vsnprintf_impl buf n fmt args = Inr (length out, buf')
    \<and> length buf' = length buf \<and> drop n buf' = drop n buf
    \<and> (0 < n \<longrightarrow> take (min (n - 1) (length out) + 1) buf' = take (n - 1) out @ [NUL])"
proof (cases "length out < n")
  case True
  let ?buf = "out @ NUL # drop (length out + 1) buf"
  have "vsnprintf_impl buf n fmt args = Inr (length out, ?buf)"
    using True assms by (simp add: vsnprintf_impl_def Let_def memcpy_eq list_update_append
      Cons_nth_drop_Suc [symmetric])
  moreover have "drop n ?buf = drop n buf"
  proof -
    obtain k where "n = Suc (length out + k)" using less_imp_Suc_add [OF True] by blast
    then show ?thesis by (simp add: add.commute)
  qed
  moreover have "min (n - 1) (length out) = length out" "take (n - 1) out = out" using True by auto
  ultimately show ?thesis using True assms(2) by auto
next
  case False
  show ?thesis
  proof (cases n)
    case 0
    then show ?thesis using assms by (simp add: vsnprintf_impl_def Let_def)
  next
    case (Suc m)
    have split: "take n out = take m out @ [out ! m]"
      using False Suc by (simp add: take_Suc_conv_app_nth)
    let ?buf = "take m out @ NUL # drop n buf"
    have "vsnprintf_impl buf n fmt args = Inr (length out, ?buf)"
      using False Suc assms split
      by (simp add: vsnprintf_impl_def Let_def memcpy_eq list_update_append min_def)
    then show ?thesis using False Suc assms(2) by (auto simp: min_def)
  qed
qed

theorem snprintf_bounded_witness:
  "\<exists>buf'. vsnprintf_impl (replicate 3 CHR ''z'') 2 (''%%%%'' @ [NUL]) [] = Inr (2, buf')
    \<and> length buf' = 3 \<and> drop 2 buf' = ''z'' \<and> take 2 buf' = ''%'' @ [NUL]"
proof -
  have "printf_internal (''%%%%'' @ [NUL]) [] = Inr (''%%'', 2)"
    unfolding printf_internal_def
    by (simp add: printf_loop.simps [of _ 0] printf_loop.simps [of _ "Suc (Suc 0)"]
      printf_loop.simps [of _ "Suc (Suc (Suc (Suc 0)))"] char_at_def convert_def is_digit_def schar_def of_char_def)
  from snprintf_bounded [OF this, of 2 "replicate 3 CHR ''z''"] show ?thesis
    by (simp add: numeral_eq_Suc)
qed

end
