(* ===== verification/File_Systems.thy ===== *)
theory File_Systems
  imports Paths Printf
begin

text \<open>
  The virtual file system (\<^verbatim>\<open>kernel/FileSystem/VFS.cpp\<close>), the device file system
  (\<^verbatim>\<open>DevFS.cpp\<close>), the pseudo-terminals (\<^verbatim>\<open>PtsFS.cpp\<close>) and the pipes behind them
  (\<^verbatim>\<open>kernel/Pipe.cpp\<close>). A mounted file system is the table of its virtual functions, acting on
  a state \<open>'w\<close>; a \<^verbatim>\<open>File*\<close> is a number, with \<open>None\<close> for the null pointer.
\<close>

section \<open>The virtual file system\<close>

record 'w filesystem =
  mountpoint :: path
  fs_open :: "path \<Rightarrow> 'w \<Rightarrow> (nat option \<times> 'w) result"
  fs_list_directory :: "path \<Rightarrow> DirectoryEntry vec \<Rightarrow> 'w \<Rightarrow> (bool \<times> DirectoryEntry vec) result"
  fs_is_directory :: "path \<Rightarrow> 'w \<Rightarrow> bool result"
  fs_is_file :: "path \<Rightarrow> 'w \<Rightarrow> bool result"
  fs_create_entry :: "path \<Rightarrow> u8 \<Rightarrow> 'w \<Rightarrow> (bool \<times> 'w) result"

record 'w VFS =
  mounted_filesystems :: "'w filesystem list"

definition VFS_mount :: "'w VFS \<Rightarrow> 'w filesystem \<Rightarrow> 'w VFS" where
  "VFS_mount v fs = v\<lparr>mounted_filesystems := mounted_filesystems v @ [fs]\<rparr>"

fun get_fs_loop :: "path \<Rightarrow> 'w filesystem list \<Rightarrow> 'w filesystem option \<Rightarrow> nat \<Rightarrow> 'w filesystem option result" where
  "get_fs_loop p [] matching_fs longest_mount_point_size = Inr matching_fs"
| "get_fs_loop p (fs # fss) matching_fs longest_mount_point_size =
     rbind (is_prefix_of (mountpoint fs) p) (\<lambda>pre.
       if pre \<and> num_parts (mountpoint fs) \<ge> longest_mount_point_size
       then get_fs_loop p fss (Some fs) (num_parts (mountpoint fs))
       else get_fs_loop p fss matching_fs longest_mount_point_size)"

text \<open>The file system and the path inside it, or \<open>None\<close> when no mount point matches.\<close>

definition get_fs :: "'w VFS \<Rightarrow> path \<Rightarrow> ('w filesystem \<times> path) option result" where
  "get_fs v p =
     rbind (get_fs_loop p (mounted_filesystems v) None 0) (\<lambda>matching_fs.
       case matching_fs of
         None \<Rightarrow> Inr None
       | Some fs \<Rightarrow> rbind (remove_mount_prefix p (mountpoint fs)) (\<lambda>rc.
           case rc of None \<Rightarrow> Inl AssertionFailed | Some inside \<Rightarrow> Inr (Some (fs, inside))))"

definition VFS_open :: "'w VFS \<Rightarrow> path \<Rightarrow> 'w \<Rightarrow> (nat option \<times> 'w) result" where
  "VFS_open v p w =
     rbind (get_fs v p) (\<lambda>r. case r of None \<Rightarrow> Inr (None, w) | Some (fs, inside) \<Rightarrow> fs_open fs inside w)"

fun list_mounts :: "path \<Rightarrow> 'w filesystem list \<Rightarrow> DirectoryEntry vec \<Rightarrow> DirectoryEntry vec result" where
  "list_mounts p [] res = Inr res"
| "list_mounts p (fs # fss) res =
     rbind (is_parent_of p (mountpoint fs)) (\<lambda>parent.
       if parent
       then rbind (vec_append res \<lparr>de_path = mountpoint fs, de_type = Type_Directory\<rparr>) (list_mounts p fss)
       else list_mounts p fss res)"

definition VFS_list_directory :: "'w VFS \<Rightarrow> path \<Rightarrow> DirectoryEntry vec \<Rightarrow> 'w \<Rightarrow> (bool \<times> DirectoryEntry vec) result" where
  "VFS_list_directory v p res w =
     rbind (list_mounts p (mounted_filesystems v) res) (\<lambda>res1.
     rbind (get_fs v p) (\<lambda>r.
       case r of None \<Rightarrow> Inr (False, res1) | Some (fs, inside) \<Rightarrow> fs_list_directory fs inside res1 w))"

definition VFS_is_directory :: "'w VFS \<Rightarrow> path \<Rightarrow> 'w \<Rightarrow> bool result" where
  "VFS_is_directory v p w =
     (if num_parts p = 0 then Inr True
      else rbind (get_fs v p) (\<lambda>r.
        case r of None \<Rightarrow> Inr False | Some (fs, inside) \<Rightarrow> fs_is_directory fs inside w))"

definition VFS_is_file :: "'w VFS \<Rightarrow> path \<Rightarrow> 'w \<Rightarrow> bool result" where
  "VFS_is_file v p w =
     rbind (get_fs v p) (\<lambda>r.
       case r of None \<Rightarrow> Inr False | Some (fs, inside) \<Rightarrow> fs_is_file fs inside w)"

definition VFS_create_entry :: "'w VFS \<Rightarrow> path \<Rightarrow> u8 \<Rightarrow> 'w \<Rightarrow> (bool \<times> 'w) result" where
  "VFS_create_entry v p ty w =
     rbind (get_fs v p) (\<lambda>r.
       case r of None \<Rightarrow> Inr (False, w) | Some (fs, inside) \<Rightarrow> fs_create_entry fs inside ty w)"

section \<open>Devices\<close>

text \<open>The devices with their paths, in the order they were added.\<close>

record DevFS =
  devices :: "(path \<times> nat) list"

definition add_device :: "DevFS \<Rightarrow> path \<Rightarrow> nat \<Rightarrow> DevFS" where
  "add_device d p dev = d\<lparr>devices := devices d @ [(p, dev)]\<rparr>"

fun find_device :: "(path \<times> nat) list \<Rightarrow> str \<Rightarrow> nat option result" where
  "find_device [] path_str = Inr None"
| "find_device ((p, dev) # devs) path_str =
     rbind (Path_to_string p) (\<lambda>s.
     rbind (str_eq s path_str) (\<lambda>same. if same then Inr (Some dev) else find_device devs path_str))"

definition DevFS_open :: "DevFS \<Rightarrow> path \<Rightarrow> nat option result" where
  "DevFS_open d p =
     rbind (assert_that (num_parts p = 1)) (\<lambda>_.
     rbind (Path_to_string p) (\<lambda>path_str. find_device (devices d) path_str))"

fun list_devices :: "path \<Rightarrow> (path \<times> nat) list \<Rightarrow> DirectoryEntry vec \<Rightarrow> DirectoryEntry vec result" where
  "list_devices p [] res = Inr res"
| "list_devices p ((q, dev) # devs) res =
     rbind (if num_parts p = 0 then Inr True
            else rbind (Path_to_string p) (\<lambda>a. rbind (Path_to_string q) (\<lambda>b. str_eq a b))) (\<lambda>hit.
     if hit then rbind (vec_append res \<lparr>de_path = q, de_type = Type_File\<rparr>) (list_devices p devs)
     else list_devices p devs res)"

definition DevFS_list_directory :: "DevFS \<Rightarrow> path \<Rightarrow> DirectoryEntry vec \<Rightarrow> (bool \<times> DirectoryEntry vec) result" where
  "DevFS_list_directory d p res = rbind (list_devices p (devices d) res) (\<lambda>res'. Inr (True, res'))"

definition DevFS_is_directory :: "DevFS \<Rightarrow> path \<Rightarrow> bool result" where
  "DevFS_is_directory d p = Inr False"

definition DevFS_is_file :: "DevFS \<Rightarrow> path \<Rightarrow> bool result" where
  "DevFS_is_file d p = Inr False"

definition DevFS_create_entry :: "DevFS \<Rightarrow> path \<Rightarrow> u8 \<Rightarrow> bool result" where
  "DevFS_create_entry d p ty = Inl NotImplemented"

section \<open>Pipes\<close>

record Pipe =
  pipe_data :: "char vec"
  m_read_idx :: nat
  m_blocking :: bool

definition Pipe_new :: "bool \<Rightarrow> Pipe" where
  "Pipe_new blocking = \<lparr>pipe_data = vec_new, m_read_idx = 0, m_blocking = blocking\<rparr>"

definition Pipe_can_read :: "Pipe \<Rightarrow> bool" where
  "Pipe_can_read p \<longleftrightarrow> m_read_idx p < m_size (pipe_data p)"

text \<open>The part of \<^verbatim>\<open>read\<close> after the wait: the bytes stored in the caller's buffer, and the pipe.\<close>

definition Pipe_take :: "nat \<Rightarrow> Pipe \<Rightarrow> (string \<times> Pipe) result" where
  "Pipe_take count p =
     (let num_to_read = min count (size_sub (m_size (pipe_data p)) (m_read_idx p))
      in rbind (memcpy (replicate num_to_read None) (drop (m_read_idx p) (m_data (pipe_data p))) num_to_read)
           (\<lambda>buf. Inr (map the buf, p\<lparr>m_read_idx := m_read_idx p + num_to_read\<rparr>)))"

text \<open>\<open>None\<close>: the caller is blocked until the pipe can be read, and then goes on with \<open>Pipe_take\<close>.\<close>

definition Pipe_read :: "nat \<Rightarrow> Pipe \<Rightarrow> (string \<times> Pipe) option result" where
  "Pipe_read count p =
     (if m_blocking p \<and> \<not> Pipe_can_read p then Inr None
      else rbind (Pipe_take count p) (\<lambda>r. Inr (Some r)))"

definition Pipe_write :: "string \<Rightarrow> nat \<Rightarrow> Pipe \<Rightarrow> (nat \<times> Pipe) result" where
  "Pipe_write data count p =
     rbind (vec_concat (pipe_data p) data count) (\<lambda>d. Inr (count, p\<lparr>pipe_data := d\<rparr>))"

definition Pipe_ioctl :: "Pipe \<Rightarrow> int result" where
  "Pipe_ioctl p = Inl NotImplemented"

section \<open>Pseudo-terminals\<close>

abbreviation MAX_TERMINALS :: nat where "MAX_TERMINALS \<equiv> 16"

text \<open>\<open>m_terminals\<close> holds the addresses of the two pipes, \<open>pipes\<close> the pipes in memory.\<close>

record PtsFS =
  m_terminals :: "(nat \<times> nat) list"
  used_map :: "bool list"
  pipes :: "nat \<rightharpoonup> Pipe"

definition PtsFS_new :: PtsFS where
  "PtsFS_new = \<lparr>m_terminals = replicate MAX_TERMINALS (0, 0), used_map = replicate MAX_TERMINALS False,
     pipes = Map.empty\<rparr>"

definition PtsFS_open :: "PtsFS \<Rightarrow> path \<Rightarrow> nat option result" where
  "PtsFS_open f p =
     (if num_parts p \<noteq> 2 then Inr None
      else
        rbind (get_part p 0) (\<lambda>part0.
        rbind (c_str part0) (\<lambda>cs.
        rbind (df_atoi cs 10) (\<lambda>idx.
        rbind (get_part p 1) (\<lambda>ty.
          if 0 \<le> idx \<and> nat idx < length (used_map f) then
            (if \<not> used_map f ! nat idx then Inr None
             else
               rbind (str_eq ty (mk_str ''in'')) (\<lambda>is_in.
                 if is_in then Inr (Some (fst (m_terminals f ! nat idx)))
                 else rbind (str_eq ty (mk_str ''out'')) (\<lambda>is_out.
                        Inr (if is_out then Some (snd (m_terminals f ! nat idx)) else None))))
          else Inl BadAccess)))))"

definition PtsFS_list_directory :: "PtsFS \<Rightarrow> path \<Rightarrow> DirectoryEntry vec \<Rightarrow> (bool \<times> DirectoryEntry vec) result" where
  "PtsFS_list_directory f p res = Inr (False, res)"

definition PtsFS_is_directory :: "PtsFS \<Rightarrow> path \<Rightarrow> bool result" where
  "PtsFS_is_directory f p = Inr False"

definition PtsFS_is_file :: "PtsFS \<Rightarrow> path \<Rightarrow> bool result" where
  "PtsFS_is_file f p = Inr False"

definition PtsFS_create_entry :: "PtsFS \<Rightarrow> path \<Rightarrow> u8 \<Rightarrow> bool result" where
  "PtsFS_create_entry f p ty = Inl NotImplemented"

text \<open>
  \<^verbatim>\<open>create_new\<close>, from index \<open>idx\<close> on. \<open>a\<close> and \<open>b\<close> are the addresses the two \<^verbatim>\<open>new Pipe\<close> give;
  \<open>None\<close> is the result \<^verbatim>\<open>false\<close>.
\<close>

function create_new_loop :: "nat \<Rightarrow> nat \<Rightarrow> nat \<Rightarrow> PtsFS \<Rightarrow> (str \<times> PtsFS) option result" where
  "create_new_loop a b idx f =
     (if idx < MAX_TERMINALS then
        (if idx < length (used_map f) \<and> used_map f ! idx then create_new_loop a b (idx + 1) f
         else
           rbind (itoa idx (replicate 64 NUL) 64) (\<lambda>(rc, max_idx_string).
           rbind (String_of_cstr max_idx_string) (\<lambda>name.
           rbind (str_plus (mk_str ''/dev/pts/'') name) (\<lambda>base.
           rbind (rbind (str_plus base (mk_str ''in'')) Path_of_string) (\<lambda>path_in.
           rbind (rbind (str_plus base (mk_str ''out'')) Path_of_string) (\<lambda>path_out.
             Inr (Some (name,
               f\<lparr>m_terminals := (m_terminals f)[idx := (a, b)],
                 used_map := (used_map f)[idx := True],
                 pipes := (pipes f)(a \<mapsto> Pipe_new True, b \<mapsto> Pipe_new False)\<rparr>))))))))
      else Inr None)"
  by pat_completeness auto
termination
  by (relation "measure (\<lambda>(a, b, idx, f). MAX_TERMINALS - idx)") auto

declare create_new_loop.simps [simp del]

definition create_new :: "nat \<Rightarrow> nat \<Rightarrow> PtsFS \<Rightarrow> (str \<times> PtsFS) option result" where
  "create_new a b f = create_new_loop a b 0 f"

section \<open>Mount points\<close>

definition mounts_ok :: "'w VFS \<Rightarrow> bool" where
  "mounts_ok v \<longleftrightarrow> list_all (\<lambda>fs. path_ok (mountpoint fs)) (mounted_filesystems v)"

abbreviation mount_parts :: "'w filesystem \<Rightarrow> string list" where
  "mount_parts fs \<equiv> path_parts (mountpoint fs)"

lemma get_fs_loop_ok:
  assumes "path_ok p" "list_all (\<lambda>fs. path_ok (mountpoint fs)) fss"
    "case m of None \<Rightarrow> n = 0 | Some fs \<Rightarrow> prefix (mount_parts fs) (path_parts p) \<and> n = length (mount_parts fs)"
  shows "\<exists>r. get_fs_loop p fss m n = Inr r
    \<and> (case r of None \<Rightarrow> m = None \<and> (\<forall>fs\<in>set fss. \<not> prefix (mount_parts fs) (path_parts p))
       | Some fs \<Rightarrow> prefix (mount_parts fs) (path_parts p) \<and> n \<le> length (mount_parts fs)
           \<and> (\<forall>g\<in>set fss. prefix (mount_parts g) (path_parts p) \<longrightarrow> length (mount_parts g) \<le> length (mount_parts fs))
           \<and> (Some fs = m \<or> fs \<in> set fss))"
  using assms(2,3)
proof (induction fss arbitrary: m n)
  case Nil
  then show ?case by (cases m) auto
next
  case (Cons fs fss)
  have ok: "path_ok (mountpoint fs)" and oks: "list_all (\<lambda>fs. path_ok (mountpoint fs)) fss"
    using Cons.prems(1) by simp_all
  have pre: "is_prefix_of (mountpoint fs) p = Inr (prefix (mount_parts fs) (path_parts p))"
    using is_prefix_of_ok [OF ok assms(1)] .
  have num: "num_parts (mountpoint fs) = length (mount_parts fs)" using path_okD(1) [OF ok] .
  show ?case
  proof (cases "prefix (mount_parts fs) (path_parts p) \<and> n \<le> length (mount_parts fs)")
    case True
    then have step: "get_fs_loop p (fs # fss) m n = get_fs_loop p fss (Some fs) (length (mount_parts fs))"
      using pre num by simp
    from Cons.IH [OF oks, where m = "Some fs" and n = "length (mount_parts fs)"] True obtain r where
      "get_fs_loop p fss (Some fs) (length (mount_parts fs)) = Inr (Some r)"
      "prefix (mount_parts r) (path_parts p)" "length (mount_parts fs) \<le> length (mount_parts r)"
      "\<forall>g\<in>set fss. prefix (mount_parts g) (path_parts p) \<longrightarrow> length (mount_parts g) \<le> length (mount_parts r)"
      "r = fs \<or> r \<in> set fss" by (auto split: option.splits)
    then show ?thesis using step True by (intro exI [of _ "Some r"]) auto
  next
    case False
    then have step: "get_fs_loop p (fs # fss) m n = get_fs_loop p fss m n" using pre num by auto
    from Cons.IH [OF oks Cons.prems(2)] obtain r where r: "get_fs_loop p fss m n = Inr r"
      "case r of None \<Rightarrow> m = None \<and> (\<forall>fs\<in>set fss. \<not> prefix (mount_parts fs) (path_parts p))
       | Some fs \<Rightarrow> prefix (mount_parts fs) (path_parts p) \<and> n \<le> length (mount_parts fs)
           \<and> (\<forall>g\<in>set fss. prefix (mount_parts g) (path_parts p) \<longrightarrow> length (mount_parts g) \<le> length (mount_parts fs))
           \<and> (Some fs = m \<or> fs \<in> set fss)" by blast
    have "m = None \<Longrightarrow> \<not> prefix (mount_parts fs) (path_parts p)" using False Cons.prems(2) by auto
    then show ?thesis using r step False by (intro exI [of _ r]) (auto split: option.splits)
  qed
qed

section \<open>Pipes as byte streams\<close>

definition pipe_ok :: "Pipe \<Rightarrow> bool" where
  "pipe_ok p \<longleftrightarrow> vec_ok (pipe_data p) \<and> m_read_idx p \<le> m_size (pipe_data p)"

definition pending :: "Pipe \<Rightarrow> string" where
  "pending p = drop (m_read_idx p) (vec_list (pipe_data p))"

lemma Pipe_new_ok: "pipe_ok (Pipe_new b)" "pending (Pipe_new b) = []"
  using vec_with_capacity_ok(1) [of DEFAULT_VECTOR_CAPACITY, where 'a = char]
  by (simp_all add: pipe_ok_def pending_def Pipe_new_def vec_new_def vec_growable_def)

lemma can_read_pending: "pipe_ok p \<Longrightarrow> Pipe_can_read p \<longleftrightarrow> pending p \<noteq> []"
  using vec_okD(3) [of "pipe_data p"] by (auto simp: pipe_ok_def pending_def Pipe_can_read_def)

lemma Pipe_take_ok:
  assumes "pipe_ok p"
  shows "\<exists>p'. Pipe_take count p = Inr (take count (pending p), p') \<and> pipe_ok p'
    \<and> pending p' = drop count (pending p) \<and> pipe_data p' = pipe_data p"
proof -
  have ok: "vec_ok (pipe_data p)" "m_read_idx p \<le> m_size (pipe_data p)" using assms by (simp_all add: pipe_ok_def)
  note d = vec_okD [OF ok(1)]
  define n where "n = min count (m_size (pipe_data p) - m_read_idx p)"
  let ?p = "p\<lparr>m_read_idx := m_read_idx p + n\<rparr>"
  have len: "length (pending p) = m_size (pipe_data p) - m_read_idx p" using d(3) by (simp add: pending_def)
  have "take n (drop (m_read_idx p) (m_data (pipe_data p))) = map Some (take n (pending p))"
  proof -
    have "take n (drop (m_read_idx p) (m_data (pipe_data p)))
        = take n (drop (m_read_idx p) (take (m_size (pipe_data p)) (m_data (pipe_data p))))"
      by (simp add: n_def drop_take)
    then show ?thesis using d(4) by (simp add: pending_def drop_map take_map)
  qed
  then have "Pipe_take count p = Inr (take n (pending p), ?p)"
    using ok(2) d(1,2) by (simp add: Pipe_take_def Let_def memcpy_eq n_def)
  moreover have "take n (pending p) = take count (pending p)" using len by (simp add: n_def min_def)
  moreover have "pending ?p = drop count (pending p)"
    using len by (auto simp: pending_def n_def min_def add.commute)
  moreover have "pipe_ok ?p" using assms ok(2) by (simp add: pipe_ok_def n_def)
  ultimately show ?thesis by (intro exI [of _ ?p]) simp
qed

lemma Pipe_write_ok:
  assumes "pipe_ok p" "count \<le> length data"
  shows "if m_size (pipe_data p) + count \<le> 2 * m_capacity (pipe_data p)
    then \<exists>p'. Pipe_write data count p = Inr (count, p') \<and> pipe_ok p' \<and> pending p' = pending p @ take count data
    else Pipe_write data count p = Inl AssertionFailed"
proof -
  have ok: "vec_ok (pipe_data p)" using assms(1) by (simp add: pipe_ok_def)
  show ?thesis
  proof (cases "m_size (pipe_data p) + count \<le> 2 * m_capacity (pipe_data p)")
    case True
    from vec_concat_ok(1) [OF ok assms(2) True] obtain v where v: "vec_concat (pipe_data p) data count = Inr v"
      "vec_ok v" "vec_list v = vec_list (pipe_data p) @ take count data" by blast
    have "m_size v = m_size (pipe_data p) + count"
      using vec_okD(3) [OF v(2)] vec_okD(3) [OF ok] v(3) assms(2) by simp
    then show ?thesis
      using v True assms vec_okD(3) [OF ok] by (auto simp: Pipe_write_def pipe_ok_def pending_def)
  next
    case False
    then show ?thesis using vec_concat_ok(2) [OF ok assms(2)] by (simp add: Pipe_write_def)
  qed
qed

text \<open>A run of writes (\<open>Inl\<close>) and reads (\<open>Inr\<close>): the bytes written and the bytes read.\<close>

fun stream_run :: "('a list \<Rightarrow> 'p \<Rightarrow> 'p result) \<Rightarrow> (nat \<Rightarrow> 'p \<Rightarrow> ('a list \<times> 'p) result)
    \<Rightarrow> ('a list + nat) list \<Rightarrow> 'p \<Rightarrow> ('a list \<times> 'a list \<times> 'p) result" where
  "stream_run put get [] p = Inr ([], [], p)"
| "stream_run put get (Inl xs # ops) p = rbind (put xs p) (\<lambda>p'.
     rbind (stream_run put get ops p') (\<lambda>(w, r, q). Inr (xs @ w, r, q)))"
| "stream_run put get (Inr n # ops) p = rbind (get n p) (\<lambda>(xs, p').
     rbind (stream_run put get ops p') (\<lambda>(w, r, q). Inr (w, xs @ r, q)))"

text \<open>A pipe as its readers and writers see it: what is written comes out in order.\<close>

locale byte_stream =
  fixes invar :: "'p \<Rightarrow> bool"
    and queued :: "'p \<Rightarrow> 'a list"
    and put :: "'a list \<Rightarrow> 'p \<Rightarrow> 'p result"
    and get :: "nat \<Rightarrow> 'p \<Rightarrow> ('a list \<times> 'p) result"
  assumes put_law: "invar p \<Longrightarrow> put xs p = Inr p' \<Longrightarrow> invar p' \<and> queued p' = queued p @ xs"
    and get_law: "invar p \<Longrightarrow> \<exists>p'. get n p = Inr (take n (queued p), p') \<and> invar p'
      \<and> queued p' = drop n (queued p)"
begin

lemma run_in_order:
  "invar p \<Longrightarrow> stream_run put get ops p = Inr (w, r, q) \<Longrightarrow> queued p @ w = r @ queued q \<and> invar q"
proof (induction ops arbitrary: p w r)
  case (Cons op ops)
  show ?case
  proof (cases op)
    case (Inl xs)
    then obtain p' w' where p': "put xs p = Inr p'" "stream_run put get ops p' = Inr (w', r, q)" "w = xs @ w'"
      using Cons.prems(2) by auto
    with put_law [OF Cons.prems(1) p'(1)] Cons.IH [OF _ p'(2)] show ?thesis by simp
  next
    case (Inr n)
    obtain p' where p': "get n p = Inr (take n (queued p), p')" "invar p'" "queued p' = drop n (queued p)"
      using get_law [OF Cons.prems(1)] by blast
    then obtain r' where r': "stream_run put get ops p' = Inr (w, r', q)" "r = take n (queued p) @ r'"
      using Cons.prems(2) Inr by auto
    from Cons.IH [OF p'(2) r'(1)] have "drop n (queued p) @ w = r' @ queued q" "invar q" using p'(3) by auto
    then have "take n (queued p) @ (drop n (queued p) @ w) = take n (queued p) @ (r' @ queued q)" by simp
    then show ?thesis using \<open>invar q\<close> r'(2) by (simp flip: append_assoc)
  qed
qed auto

end

definition pipe_put :: "string \<Rightarrow> Pipe \<Rightarrow> Pipe result" where
  "pipe_put xs p = rbind (Pipe_write xs (length xs) p) (\<lambda>(n, p'). Inr p')"

interpretation pipe: byte_stream pipe_ok pending pipe_put Pipe_take
proof
  fix p :: Pipe and xs p'
  assume "pipe_ok p" "pipe_put xs p = Inr p'"
  then show "pipe_ok p' \<and> pending p' = pending p @ xs"
    using Pipe_write_ok [of p "length xs" xs] by (auto simp: pipe_put_def split: if_splits)
next
  fix p :: Pipe and n
  assume "pipe_ok p"
  then show "\<exists>p'. Pipe_take n p = Inr (take n (pending p), p') \<and> pipe_ok p' \<and> pending p' = drop n (pending p)"
    using Pipe_take_ok [of p n] by blast
qed

section \<open>Terminals\<close>

definition pts_ok :: "PtsFS \<Rightarrow> bool" where
  "pts_ok f \<longleftrightarrow> length (m_terminals f) = MAX_TERMINALS \<and> length (used_map f) = MAX_TERMINALS"

text \<open>The file name under which a terminal is opened.\<close>

lemma itoa_small:
  assumes "idx < MAX_TERMINALS"
  shows "\<exists>rc cs r. itoa idx (replicate 64 NUL) 64 = Inr (rc, cs @ NUL # r) \<and> NUL \<notin> set cs \<and> cs \<noteq> []
    \<and> CHR ''/'' \<notin> set cs \<and> df_atoi (cs @ [NUL]) 10 = Inr (int idx)"
proof -
  define w :: u32 where "w = of_nat idx"
  have w: "unat w = idx" "sint w = int idx"
    using assms by (simp_all add: w_def unat_of_nat signed_of_nat signed_take_bit_int_eq_self)
  obtain out r where out: "print_int_dec idx 0 NUL = Inr (out, r)" "length out \<le> 11"
    "atoi_10 (out @ NUL # []) = Inr (int idx)"
    using atoi_print_int_dec [of w "[]"] w by auto
  have dig: "out = (if idx = 0 then ''0'' else map ((!) digits_dec) (digits_of 10 idx))"
    using out(1) print_int_ok [of 10 digits_dec idx 0 NUL True] assms
    by (cases "idx = 0") (auto simp: print_int_dec_def print_int_def digits_dec_def Let_def)
  have "c \<in> set digits_dec" if "c \<in> set out" for c
  proof (cases "idx = 0")
    case True
    then show ?thesis using that dig by (simp add: digits_dec_def)
  next
    case False
    then have "c \<in> (!) digits_dec ` set (digits_of 10 idx)" using that dig by simp
    then obtain d where "d \<in> set (digits_of 10 idx)" "c = digits_dec ! d" by blast
    moreover from this have "d < length digits_dec"
      using digits_of_bound [of 10 d idx] by (simp add: digits_dec_def)
    ultimately show ?thesis by simp
  qed
  then have "NUL \<notin> set out" "CHR ''/'' \<notin> set out" by (auto simp: digits_dec_def)
  moreover have "out \<noteq> []" using dig digits_of.simps [of 10 idx] by auto
  moreover have "itoa idx (replicate 64 NUL) 64 = Inr (r, out @ NUL # replicate (63 - length out) NUL)"
  proof -
    have "replicate (64 - length out) NUL = NUL # replicate (63 - length out) NUL"
      using out(2) by (simp flip: replicate_Suc)
    then show ?thesis
      using out(1,2) printf_d [of idx] by (simp add: itoa_def Let_def memcpy_eq list_update_append)
  qed
  ultimately show ?thesis using out(3) by (auto simp: df_atoi_def)
qed

lemma pipe_path_ok:
  assumes "cs \<noteq> []" "CHR ''/'' \<notin> set cs" "CHR ''/'' \<notin> set suf"
  shows "\<exists>p. rbind (str_plus (mk_str (''/dev/pts/'' @ cs)) (mk_str suf)) Path_of_string = Inr p"
proof -
  have "list_all part_ok [''dev'', ''pts'', cs @ suf]" using assms by (simp add: part_ok_def)
  from Path_of_string_join [OF this, of "''/''"] show ?thesis by (auto simp: str_plus_ok)
qed

text \<open>A new terminal takes the first free index, from \<open>idx\<close> on.\<close>

lemma create_new_loop_ok:
  assumes "pts_ok f" "idx \<le> MAX_TERMINALS"
  shows "(create_new_loop a b idx f = Inr None \<and> (\<forall>i. idx \<le> i \<and> i < MAX_TERMINALS \<longrightarrow> used_map f ! i))
    \<or> (\<exists>i cs. idx \<le> i \<and> i < MAX_TERMINALS \<and> \<not> used_map f ! i \<and> df_atoi (cs @ [NUL]) 10 = Inr (int i)
         \<and> create_new_loop a b idx f = Inr (Some (mk_str cs,
             f\<lparr>m_terminals := (m_terminals f)[i := (a, b)], used_map := (used_map f)[i := True],
               pipes := (pipes f)(a \<mapsto> Pipe_new True, b \<mapsto> Pipe_new False)\<rparr>)))"
  using assms(2)
proof (induction "MAX_TERMINALS - idx" arbitrary: idx)
  case 0
  then show ?case by (subst create_new_loop.simps) auto
next
  case (Suc n)
  then have lt: "idx < MAX_TERMINALS" by simp
  have len: "length (used_map f) = MAX_TERMINALS" using assms(1) by (simp add: pts_ok_def)
  show ?case
  proof (cases "used_map f ! idx")
    case True
    then have step: "create_new_loop a b idx f = create_new_loop a b (idx + 1) f"
      using lt len by (subst create_new_loop.simps) simp
    have ext: "(\<forall>i. idx \<le> i \<and> i < MAX_TERMINALS \<longrightarrow> used_map f ! i)
        \<longleftrightarrow> (\<forall>i. idx + 1 \<le> i \<and> i < MAX_TERMINALS \<longrightarrow> used_map f ! i)"
    proof (intro iffI allI impI)
      fix i assume all: "\<forall>i. idx + 1 \<le> i \<and> i < MAX_TERMINALS \<longrightarrow> used_map f ! i"
        and i: "idx \<le> i \<and> i < MAX_TERMINALS"
      then show "used_map f ! i" using True by (cases "i = idx") auto
    qed auto
    have "n = MAX_TERMINALS - (idx + 1)" "idx + 1 \<le> MAX_TERMINALS" using Suc.hyps(2) lt by simp_all
    from Suc.hyps(1) [OF this] show ?thesis
      unfolding step ext by (blast intro: add_leD1)
  next
    case False
    obtain rc cs r where cs: "itoa idx (replicate 64 NUL) 64 = Inr (rc, cs @ NUL # r)" "NUL \<notin> set cs" "cs \<noteq> []"
      "CHR ''/'' \<notin> set cs" "df_atoi (cs @ [NUL]) 10 = Inr (int idx)" using itoa_small [OF lt] by blast
    obtain p1 where "rbind (str_plus (mk_str (''/dev/pts/'' @ cs)) (mk_str ''in'')) Path_of_string = Inr p1"
      using pipe_path_ok [OF cs(3,4), of "''in''"] by (force simp del: rbind_Inr_iff)
    moreover obtain p2 where "rbind (str_plus (mk_str (''/dev/pts/'' @ cs)) (mk_str ''out'')) Path_of_string = Inr p2"
      using pipe_path_ok [OF cs(3,4), of "''out''"] by (force simp del: rbind_Inr_iff)
    ultimately show ?thesis
      using cs lt len False
      by (intro disjI2 exI [of _ idx] exI [of _ cs], subst create_new_loop.simps)
        (simp add: String_of_cstr_ok str_plus_ok)
  qed
qed

lemma PtsFS_open_ok:
  assumes f: "pts_ok f" "i < MAX_TERMINALS" "used_map f ! i" and n: "df_atoi (cs @ [NUL]) 10 = Inr (int i)"
    and p: "path_ok p" "path_parts p = [cs, ty]"
  shows "PtsFS_open f p = Inr (if ty = ''in'' then Some (fst (m_terminals f ! i))
    else if ty = ''out'' then Some (snd (m_terminals f ! i)) else None)"
proof -
  have "num_parts p = 2" "get_part p 0 = Inr (mk_str cs)" "get_part p 1 = Inr (mk_str ty)"
    using path_okD(1) [OF p(1)] get_part_ok [OF p(1)] p(2) by simp_all
  then show ?thesis using f n by (simp add: PtsFS_open_def pts_ok_def str_eq_ok)
qed

section \<open>Properties\<close>

text \<open>
  C5: the virtual file system routes a path to a mounted file system whose mount point is the
  longest matching prefix, with the rest of the path: mount point and rest together are the
  path. It finds none exactly when no mount point is a prefix, and no assertion fails.
\<close>

theorem get_fs_longest_prefix:
  assumes "mounts_ok v" "path_ok p"
  shows "\<exists>r. get_fs v p = Inr r
    \<and> (case r of
         None \<Rightarrow> \<forall>fs\<in>set (mounted_filesystems v). \<not> prefix (mount_parts fs) (path_parts p)
       | Some (fs, inside) \<Rightarrow> fs \<in> set (mounted_filesystems v) \<and> path_ok inside
           \<and> mount_parts fs @ path_parts inside = path_parts p
           \<and> (\<forall>g\<in>set (mounted_filesystems v). prefix (mount_parts g) (path_parts p) \<longrightarrow>
                length (mount_parts g) \<le> length (mount_parts fs)))"
proof -
  have oks: "list_all (\<lambda>fs. path_ok (mountpoint fs)) (mounted_filesystems v)" using assms(1) by (simp add: mounts_ok_def)
  obtain r where r: "get_fs_loop p (mounted_filesystems v) None 0 = Inr r"
    "case r of None \<Rightarrow> \<forall>fs\<in>set (mounted_filesystems v). \<not> prefix (mount_parts fs) (path_parts p)
     | Some fs \<Rightarrow> prefix (mount_parts fs) (path_parts p) \<and> fs \<in> set (mounted_filesystems v)
         \<and> (\<forall>g\<in>set (mounted_filesystems v). prefix (mount_parts g) (path_parts p) \<longrightarrow>
              length (mount_parts g) \<le> length (mount_parts fs))"
    using get_fs_loop_ok [OF assms(2) oks, where m = None and n = 0] by (auto split: option.splits)
  show ?thesis
  proof (cases r)
    case None
    then show ?thesis using r by (simp add: get_fs_def)
  next
    case (Some fs)
    then have "path_ok (mountpoint fs)" "prefix (mount_parts fs) (path_parts p)"
      using r(2) oks by (auto simp: list_all_iff)
    from remove_mount_prefix_ok [OF assms(2) this(1)] this(2) obtain q where
      "remove_mount_prefix p (mountpoint fs) = Inr (Some q)" "path_ok q"
      "path_parts q = drop (length (mount_parts fs)) (path_parts p)" by auto
    moreover from this(3) \<open>prefix (mount_parts fs) (path_parts p)\<close>
    have "mount_parts fs @ path_parts q = path_parts p" by (auto simp: prefix_def)
    ultimately show ?thesis using r Some by (auto simp: get_fs_def)
  qed
qed

text \<open>A file system without files, to mount.\<close>

definition null_fs :: "path \<Rightarrow> unit filesystem" where
  "null_fs mp = \<lparr>mountpoint = mp, fs_open = (\<lambda>p w. Inr (None, w)),
     fs_list_directory = (\<lambda>p res w. Inr (False, res)), fs_is_directory = (\<lambda>p w. Inr False),
     fs_is_file = (\<lambda>p w. Inr False), fs_create_entry = (\<lambda>p ty w. Inl NotImplemented)\<rparr>"

theorem get_fs_longest_prefix_witness:
  "\<exists>fs inside. get_fs \<lparr>mounted_filesystems = [null_fs Path_empty, null_fs dev_pts]\<rparr> dev_pts
      = Inr (Some (fs, inside)) \<and> mount_parts fs = [''dev'', ''pts''] \<and> path_parts inside = []"
proof -
  let ?v = "\<lparr>mounted_filesystems = [null_fs Path_empty, null_fs dev_pts]\<rparr>"
  have "mounts_ok ?v" by (simp add: mounts_ok_def null_fs_def dev_pts_ok)
  from get_fs_longest_prefix [OF this dev_pts_ok(1)] show ?thesis
    by (auto simp: null_fs_def dev_pts_ok split: option.splits)
qed

text \<open>
  C31: a pipe delivers exactly the bytes written to it, once and in order: along every run of
  writes and reads, what was pending plus what was written is what was read plus what is
  still pending.
\<close>

theorem pipe_in_order:
  assumes "pipe_ok p" "stream_run pipe_put Pipe_take ops p = Inr (w, r, q)"
  shows "pending p @ w = r @ pending q \<and> pipe_ok q"
  using pipe.run_in_order [OF assms] .

theorem pipe_in_order_witness:
  "\<exists>q. stream_run pipe_put Pipe_take [Inl ''abc'', Inr 2] (Pipe_new False) = Inr (''abc'', ''ab'', q)
    \<and> pending (Pipe_new False) @ ''abc'' = ''ab'' @ pending q \<and> pipe_ok q"
proof -
  have cap: "m_capacity (pipe_data (Pipe_new False)) = 8" "m_size (pipe_data (Pipe_new False)) = 0"
    by (simp_all add: Pipe_new_def vec_new_def)
  obtain p1 where p1: "pipe_put ''abc'' (Pipe_new False) = Inr p1" "pipe_ok p1" "pending p1 = ''abc''"
    using Pipe_write_ok [OF Pipe_new_ok(1), of "length ''abc''" "''abc''" False] cap Pipe_new_ok(2) [of False]
    by (auto simp: pipe_put_def)
  then obtain p2 where "Pipe_take 2 p1 = Inr (''ab'', p2)" using Pipe_take_ok [OF p1(2), of 2] by auto
  then have "stream_run pipe_put Pipe_take [Inl ''abc'', Inr 2] (Pipe_new False) = Inr (''abc'', ''ab'', p2)"
    using p1(1) by simp
  with pipe_in_order [OF Pipe_new_ok(1) this] show ?thesis by blast
qed

text \<open>
  A new pseudo-terminal takes an index that was free, keeps every other terminal, and
  opening \<open><name>/in\<close> and \<open><name>/out\<close> finds its two pipes; when all sixteen are taken no
  terminal is created.
\<close>

theorem create_new_then_open:
  assumes "pts_ok f"
  shows "(create_new a b f = Inr None \<and> (\<forall>i<MAX_TERMINALS. used_map f ! i))
    \<or> (\<exists>i name f'. create_new a b f = Inr (Some (name, f')) \<and> str_ok name \<and> pts_ok f'
         \<and> i < MAX_TERMINALS \<and> \<not> used_map f ! i \<and> used_map f' = (used_map f)[i := True]
         \<and> m_terminals f' = (m_terminals f)[i := (a, b)]
         \<and> (\<forall>p ty. path_ok p \<and> path_parts p = [chars name, ty] \<longrightarrow>
              PtsFS_open f' p = Inr (if ty = ''in'' then Some a else if ty = ''out'' then Some b else None)))"
proof -
  from create_new_loop_ok [OF assms le0, of a b] show ?thesis
  proof (elim disjE exE conjE)
    fix i cs
    let ?f = "f\<lparr>m_terminals := (m_terminals f)[i := (a, b)], used_map := (used_map f)[i := True],
      pipes := (pipes f)(a \<mapsto> Pipe_new True, b \<mapsto> Pipe_new False)\<rparr>"
    assume i: "i < MAX_TERMINALS" "\<not> used_map f ! i" "df_atoi (cs @ [NUL]) 10 = Inr (int i)"
      "create_new_loop a b 0 f = Inr (Some (mk_str cs, ?f))"
    have ok: "pts_ok ?f" "used_map ?f ! i" using assms i(1) by (simp_all add: pts_ok_def)
    have "PtsFS_open ?f p = Inr (if ty = ''in'' then Some a else if ty = ''out'' then Some b else None)"
      if "path_ok p" "path_parts p = [chars (mk_str cs), ty]" for p ty
      using PtsFS_open_ok [OF ok(1) i(1) ok(2) i(3) that(1), of ty] that(2) assms i(1) by (simp add: pts_ok_def)
    then show ?thesis
      using i ok(1) by (intro disjI2 exI [of _ i] exI [of _ "mk_str cs"] exI [of _ ?f]) (simp add: create_new_def)
  qed (auto simp: create_new_def)
qed

theorem create_new_then_open_witness:
  "\<exists>i name f'. create_new 4096 8192 PtsFS_new = Inr (Some (name, f')) \<and> i < MAX_TERMINALS
    \<and> m_terminals f' = (replicate MAX_TERMINALS (0, 0))[i := (4096, 8192)]"
proof -
  have "pts_ok PtsFS_new" by (simp add: pts_ok_def PtsFS_new_def)
  moreover have "\<not> used_map PtsFS_new ! 0" by (simp add: PtsFS_new_def)
  ultimately show ?thesis
    using create_new_then_open [of PtsFS_new 4096 8192] by (auto simp: PtsFS_new_def dest: spec [of _ 0])
qed

end
