(* ===== verification/Linked_List.thy ===== *)
theory Linked_List
  imports Prelude
begin

text \<open>
  The doubly linked list of \<^verbatim>\<open>libc/types/list.h\<close>, on an explicit store of nodes so that the
  pointer updates of \<^verbatim>\<open>append\<close> and \<^verbatim>\<open>remove\<close> are the ones of the code. \<open>list_rep\<close> relates the
  store to the abstract list of values; every operation refines the operation on that list,
  leaves no node behind and keeps both link directions right. The null pointer is 0; the
  address \<^verbatim>\<open>new Node\<close> returns is an argument.
\<close>

section \<open>State and operations\<close>

record 'a node =
  val :: 'a
  next_node :: nat
  prev_node :: nat

record 'a lst =
  nodes :: "nat \<rightharpoonup> 'a node"
  m_head :: nat
  m_tail :: nat
  list_size :: nat

abbreviation MAX_REASONABLE_LIST_SIZE :: nat where "MAX_REASONABLE_LIST_SIZE \<equiv> 10000"

definition List_new :: "'a lst" where
  "List_new = \<lparr>nodes = Map.empty, m_head = 0, m_tail = 0, list_size = 0\<rparr>"

definition read_node :: "'a lst \<Rightarrow> nat \<Rightarrow> 'a node result" where
  "read_node l p = (case nodes l p of None \<Rightarrow> Inl BadAccess | Some n \<Rightarrow> Inr n)"

definition set_next :: "'a lst \<Rightarrow> nat \<Rightarrow> nat \<Rightarrow> 'a lst result" where
  "set_next l p q = rbind (read_node l p) (\<lambda>n. Inr (l\<lparr>nodes := (nodes l)(p \<mapsto> n\<lparr>next_node := q\<rparr>)\<rparr>))"

definition set_prev :: "'a lst \<Rightarrow> nat \<Rightarrow> nat \<Rightarrow> 'a lst result" where
  "set_prev l p q = rbind (read_node l p) (\<lambda>n. Inr (l\<lparr>nodes := (nodes l)(p \<mapsto> n\<lparr>prev_node := q\<rparr>)\<rparr>))"

text \<open>\<open>append_move\<close> is the overload taking \<^verbatim>\<open>T&&\<close>, which \<open>list_append\<close> calls after its check.\<close>

definition append_move :: "nat \<Rightarrow> 'a lst \<Rightarrow> 'a \<Rightarrow> 'a lst result" where
  "append_move a l t =
     (let l1 = l\<lparr>nodes := (nodes l)(a \<mapsto> \<lparr>val = t, next_node = 0, prev_node = 0\<rparr>),
                 list_size := wrap32 (list_size l + 1)\<rparr>
      in if m_tail l1 = 0 then Inr (l1\<lparr>m_head := a, m_tail := a\<rparr>)
         else rbind (set_next l1 (m_tail l1) a) (\<lambda>l2.
              rbind (set_prev l2 a (m_tail l2)) (\<lambda>l3.
                Inr (l3\<lparr>m_tail := a\<rparr>))))"

definition list_append :: "nat \<Rightarrow> 'a lst \<Rightarrow> 'a \<Rightarrow> 'a lst result" where
  "list_append a l t =
     (if list_size l > MAX_REASONABLE_LIST_SIZE then Inl NotReached else append_move a l t)"

partial_function (option) find_node :: "'a lst \<Rightarrow> ('a \<Rightarrow> bool) \<Rightarrow> nat \<Rightarrow> nat result option" where
  "find_node l match p =
     (if p = 0 then Some (Inr 0)
      else case nodes l p of
        None \<Rightarrow> Some (Inl BadAccess)
      | Some n \<Rightarrow> if match (val n) then Some (Inr p) else find_node l match (next_node n))"

definition list_find :: "'a lst \<Rightarrow> ('a \<Rightarrow> bool) \<Rightarrow> nat result" where
  "list_find l match = loop (find_node l match (m_head l))"

definition remove_itr :: "'a lst \<Rightarrow> nat \<Rightarrow> 'a lst result" where
  "remove_itr l t =
     rbind (read_node l t) (\<lambda>n0.
     rbind (if prev_node n0 \<noteq> 0 then set_next l (prev_node n0) (next_node n0) else Inr l) (\<lambda>l1.
     rbind (read_node l1 t) (\<lambda>n1.
     rbind (if next_node n1 \<noteq> 0 then set_prev l1 (next_node n1) (prev_node n1) else Inr l1) (\<lambda>l2.
     rbind (read_node l2 t) (\<lambda>n2.
     let l3 = (if t = m_head l2 then l2\<lparr>m_head := next_node n2\<rparr> else l2);
         l4 = (if t = m_tail l3 then l3\<lparr>m_tail := prev_node n2\<rparr> else l3)
     in Inr (l4\<lparr>nodes := (nodes l4)(t := None), list_size := size_sub (list_size l4) 1\<rparr>))))))"

definition list_remove :: "'a lst \<Rightarrow> 'a \<Rightarrow> (bool \<times> 'a lst) result" where
  "list_remove l t =
     rbind (list_find l (\<lambda>other. other = t)) (\<lambda>itr.
       if itr = 0 then Inr (False, l) else rbind (remove_itr l itr) (\<lambda>l'. Inr (True, l')))"

definition list_front :: "'a lst \<Rightarrow> 'a result" where
  "list_front l = rbind (read_node l (m_head l)) (\<lambda>n. Inr (val n))"

definition pop_front :: "'a lst \<Rightarrow> ('a \<times> 'a lst) result" where
  "pop_front l =
     rbind (assert_that (m_head l \<noteq> 0)) (\<lambda>_.
     rbind (list_front l) (\<lambda>cpy. rbind (remove_itr l (m_head l)) (\<lambda>l'. Inr (cpy, l'))))"

definition list_empty :: "'a lst \<Rightarrow> bool" where
  "list_empty l \<longleftrightarrow> list_size l = 0"

partial_function (option) destroy_nodes :: "'a lst \<Rightarrow> nat \<Rightarrow> 'a lst result option" where
  "destroy_nodes l cur =
     (if cur = 0 then Some (Inr l)
      else case nodes l cur of
        None \<Rightarrow> Some (Inl BadAccess)
      | Some n \<Rightarrow> destroy_nodes (l\<lparr>nodes := (nodes l)(cur := None)\<rparr>) (next_node n))"

definition list_destroy :: "'a lst \<Rightarrow> 'a lst result" where
  "list_destroy l =
     rbind (loop (destroy_nodes l (m_head l))) (\<lambda>l'.
       Inr (l'\<lparr>m_head := 0, m_tail := 0, list_size := 0\<rparr>))"

section \<open>Representation\<close>

text \<open>
  \<open>dlseg s pv p ns lt q\<close>: from \<open>p\<close> on lie the nodes \<open>ns\<close> (addresses with values), the first
  one's previous node is \<open>pv\<close>, the last one is \<open>lt\<close> and the node after it is \<open>q\<close>.
\<close>

fun dlseg :: "(nat \<rightharpoonup> 'a node) \<Rightarrow> nat \<Rightarrow> nat \<Rightarrow> (nat \<times> 'a) list \<Rightarrow> nat \<Rightarrow> nat \<Rightarrow> bool" where
  "dlseg s pv p [] lt q \<longleftrightarrow> p = q \<and> lt = pv"
| "dlseg s pv p ((a, v) # ns) lt q \<longleftrightarrow> p = a \<and> a \<noteq> 0
     \<and> (\<exists>n. s a = Some \<lparr>val = v, next_node = n, prev_node = pv\<rparr> \<and> dlseg s a n ns lt q)"

definition list_rep_nodes :: "'a lst \<Rightarrow> (nat \<times> 'a) list \<Rightarrow> bool" where
  "list_rep_nodes l ns \<longleftrightarrow> dlseg (nodes l) 0 (m_head l) ns (m_tail l) 0
     \<and> distinct (map fst ns) \<and> dom (nodes l) = set (map fst ns) \<and> list_size l = length ns"

definition list_rep :: "'a lst \<Rightarrow> 'a list \<Rightarrow> bool" where
  "list_rep l xs \<longleftrightarrow> (\<exists>ns. list_rep_nodes l ns \<and> xs = map snd ns)"

lemma dlseg_append:
  "dlseg s pv p (ns @ ms) lt q \<longleftrightarrow> (\<exists>m r. dlseg s pv p ns m r \<and> dlseg s m r ms lt q)"
  by (induction ns arbitrary: pv p) ((auto; blast)+)

lemma dlseg_cong:
  "(\<And>a. a \<in> fst ` set ns \<Longrightarrow> s' a = s a) \<Longrightarrow> dlseg s' pv p ns lt q = dlseg s pv p ns lt q"
  by (induction ns arbitrary: pv p) auto

lemma dlseg_last:
  "dlseg s pv p ns lt q \<Longrightarrow> ns \<noteq> [] \<Longrightarrow> lt = fst (last ns) \<and> lt \<noteq> 0"
  by (induction ns arbitrary: pv p) fastforce+

lemma dlseg_first: "dlseg s pv p ns lt q \<Longrightarrow> ns \<noteq> [] \<Longrightarrow> p = fst (hd ns) \<and> p \<noteq> 0"
  by (cases ns) auto

text \<open>Redirecting the last node's link, and the first node's back link.\<close>

lemma dlseg_set_next:
  assumes "dlseg s pv p (ns @ [(m, w)]) lt q" "distinct (map fst (ns @ [(m, w)]))"
  shows "\<exists>n. s m = Some n \<and> dlseg (s(m \<mapsto> n\<lparr>next_node := q'\<rparr>)) pv p (ns @ [(m, w)]) lt q'"
proof -
  obtain m' where "dlseg s pv p ns m' m" "s m = Some \<lparr>val = w, next_node = q, prev_node = m'\<rparr>"
    "m \<noteq> 0" "lt = m"
    using assms(1) by (auto simp: dlseg_append)
  moreover from this have "dlseg (s(m \<mapsto> \<lparr>val = w, next_node = q', prev_node = m'\<rparr>)) pv p ns m' m"
    using assms(2) by (subst dlseg_cong [of ns _ s]) force+
  ultimately show ?thesis by (auto simp: dlseg_append)
qed

lemma dlseg_set_prev:
  assumes "dlseg s pv p ((n, w) # ns) lt q" "distinct (map fst ((n, w) # ns))"
  shows "\<exists>x. s n = Some x \<and> dlseg (s(n \<mapsto> x\<lparr>prev_node := pv'\<rparr>)) pv' p ((n, w) # ns) lt q"
proof -
  obtain r where r: "s n = Some \<lparr>val = w, next_node = r, prev_node = pv\<rparr>" "p = n" "n \<noteq> 0"
    "dlseg s n r ns lt q" using assms(1) by auto
  moreover have "dlseg (s(n \<mapsto> \<lparr>val = w, next_node = r, prev_node = pv'\<rparr>)) n r ns lt q"
    using r(4) assms(2) by (subst dlseg_cong [of ns _ s]) force+
  ultimately show ?thesis by simp
qed

section \<open>Refinement\<close>

lemma List_new_rep: "list_rep_nodes List_new []"
  by (simp add: list_rep_nodes_def List_new_def)

lemma append_move_rep:
  assumes rep: "list_rep_nodes l ns" and a: "a \<noteq> 0" "nodes l a = None" and sz: "length ns < 2 ^ 32 - 1"
  shows "\<exists>l'. append_move a l t = Inr l' \<and> list_rep_nodes l' (ns @ [(a, t)])"
proof -
  have seg: "dlseg (nodes l) 0 (m_head l) ns (m_tail l) 0" and d: "distinct (map fst ns)"
    and dom: "dom (nodes l) = set (map fst ns)" and size: "list_size l = length ns"
    using rep by (simp_all add: list_rep_nodes_def)
  have na: "a \<notin> set (map fst ns)" using a(2) dom by (metis domIff)
  show ?thesis
  proof (cases ns rule: rev_cases)
    case Nil
    then show ?thesis using seg d dom size a by (auto simp: append_move_def Let_def list_rep_nodes_def)
  next
    case (snoc ms mw)
    obtain m w where mw: "mw = (m, w)" by fastforce
    have tl: "m_tail l = m" "m \<noteq> 0" using dlseg_last [OF seg] snoc mw by auto
    have ma: "m \<noteq> a" using na snoc mw by auto
    obtain x where x: "nodes l m = Some x"
      "dlseg ((nodes l)(m \<mapsto> x\<lparr>next_node := a\<rparr>)) 0 (m_head l) ns (m_tail l) a"
      using dlseg_set_next [of "nodes l" 0 "m_head l" ms m w "m_tail l" 0 a] seg d snoc mw by auto
    define s where "s = (nodes l)(a \<mapsto> \<lparr>val = t, next_node = 0, prev_node = m\<rparr>, m \<mapsto> x\<lparr>next_node := a\<rparr>)"
    let ?l = "l\<lparr>nodes := s, list_size := length ns + 1, m_tail := a\<rparr>"
    have "append_move a l t = Inr ?l"
      using tl ma x(1) size sz
      by (simp add: append_move_def Let_def set_next_def set_prev_def read_node_def s_def fun_upd_twist)
    moreover have "dlseg s 0 (m_head l) ns m a"
      using x(2) na ma by (subst dlseg_cong [of ns s "(nodes l)(m \<mapsto> x\<lparr>next_node := a\<rparr>)"])
        (auto simp: s_def tl)
    then have "dlseg s 0 (m_head l) (ns @ [(a, t)]) a 0"
      using a(1) ma by (auto simp: dlseg_append s_def)
    moreover have "dom s = set (map fst (ns @ [(a, t)]))" using dom snoc mw by (auto simp: s_def)
    ultimately show ?thesis using d na by (auto simp: list_rep_nodes_def)
  qed
qed

lemma find_node_rep:
  assumes "dlseg (nodes l) pv p ns lt 0"
  shows "find_node l f p = Some (Inr (case find (\<lambda>n. f (snd n)) ns of None \<Rightarrow> 0 | Some n \<Rightarrow> fst n))"
  using assms
proof (induction ns arbitrary: pv p)
  case Nil
  then show ?case by (simp add: find_node.simps)
next
  case (Cons n ns)
  then show ?case by (cases n) (auto simp: find_node.simps [of l f p])
qed

lemma destroy_nodes_rep:
  assumes "dlseg (nodes l) pv p ns lt 0" "distinct (map fst ns)"
  shows "\<exists>l'. destroy_nodes l p = Some (Inr l')
    \<and> (\<forall>x. nodes l' x = (if x \<in> set (map fst ns) then None else nodes l x))"
  using assms
proof (induction ns arbitrary: l pv p)
  case Nil
  then show ?case by (simp add: destroy_nodes.simps)
next
  case (Cons n ns)
  obtain a v where n: "n = (a, v)" by fastforce
  then obtain r where r: "p = a" "a \<noteq> 0" "nodes l a = Some \<lparr>val = v, next_node = r, prev_node = pv\<rparr>"
    "dlseg (nodes l) a r ns lt 0" using Cons.prems(1) by auto
  let ?l = "l\<lparr>nodes := (nodes l)(a := None)\<rparr>"
  have "dlseg (nodes ?l) a r ns lt 0"
    using r(4) Cons.prems(2) n by (subst dlseg_cong [of ns _ "nodes l"]) force+
  from Cons.IH [OF this] Cons.prems(2) obtain l' where l': "destroy_nodes ?l r = Some (Inr l')"
    "\<And>x. nodes l' x = (if x \<in> set (map fst ns) then None else nodes ?l x)" by fastforce
  have "destroy_nodes l p = Some (Inr l')"
    using r l'(1) by (subst destroy_nodes.simps) simp
  then show ?case using l'(2) n by auto
qed

text \<open>Unlinking a node: what the two pointer writes of \<^verbatim>\<open>remove\<close> do to the segments around it.\<close>

definition relink_next :: "(nat \<rightharpoonup> 'a node) \<Rightarrow> nat \<Rightarrow> nat \<Rightarrow> (nat \<rightharpoonup> 'a node)" where
  "relink_next s m n = (if m \<noteq> 0 then s(m \<mapsto> (the (s m))\<lparr>next_node := n\<rparr>) else s)"

definition relink_prev :: "(nat \<rightharpoonup> 'a node) \<Rightarrow> nat \<Rightarrow> nat \<Rightarrow> (nat \<rightharpoonup> 'a node)" where
  "relink_prev s n m = (if n \<noteq> 0 then s(n \<mapsto> (the (s n))\<lparr>prev_node := m\<rparr>) else s)"

lemma relink_next_seg:
  assumes seg: "dlseg s 0 p xs m t" and d: "distinct (map fst xs)"
  shows "dlseg (relink_next s m n) 0 (if xs = [] then n else p) xs m n"
    "m = 0 \<longleftrightarrow> xs = []" "m \<noteq> 0 \<Longrightarrow> m \<in> set (map fst xs) \<and> s m \<noteq> None"
    "x \<notin> set (map fst xs) \<Longrightarrow> relink_next s m n x = s x" "dom (relink_next s m n) = dom s"
proof -
  show xs0: "m = 0 \<longleftrightarrow> xs = []" using seg dlseg_last [OF seg] by (cases "xs = []") auto
  show m_in: "m \<in> set (map fst xs) \<and> s m \<noteq> None" if "m \<noteq> 0"
  proof -
    have ne: "xs \<noteq> []" using that xs0 by simp
    then have "xs = butlast xs @ [(m, snd (last xs))]" using dlseg_last [OF seg] by simp
    with seg have "dlseg s 0 p (butlast xs @ [(m, snd (last xs))]) m t" by simp
    then have "s m \<noteq> None" by (auto simp: dlseg_append)
    then show ?thesis using ne dlseg_last [OF seg] by simp
  qed
  show "dlseg (relink_next s m n) 0 (if xs = [] then n else p) xs m n"
  proof (cases xs rule: rev_cases)
    case Nil
    then show ?thesis using xs0 by simp
  next
    case (snoc ms mw)
    then have "mw = (m, snd mw)" using dlseg_last [OF seg] by (cases mw) simp
    then show ?thesis
      using dlseg_set_next [of s 0 p ms m "snd mw" m t n] seg d snoc xs0
      by (auto simp: relink_next_def)
  qed
  show "relink_next s m n x = s x" if "x \<notin> set (map fst xs)"
    using that m_in by (auto simp: relink_next_def)
  show "dom (relink_next s m n) = dom s" using m_in by (auto simp: relink_next_def)
qed

lemma relink_prev_seg:
  assumes seg: "dlseg s t n ys lt 0" and d: "distinct (map fst ys)"
  shows "dlseg (relink_prev s n m) m n ys (if ys = [] then m else lt) 0"
    "n = 0 \<longleftrightarrow> ys = []" "n \<noteq> 0 \<Longrightarrow> n \<in> set (map fst ys) \<and> s n \<noteq> None"
    "x \<notin> set (map fst ys) \<Longrightarrow> relink_prev s n m x = s x" "dom (relink_prev s n m) = dom s"
proof -
  show ys0: "n = 0 \<longleftrightarrow> ys = []" using seg dlseg_first [OF seg] by (cases "ys = []") auto
  show n_in: "n \<in> set (map fst ys) \<and> s n \<noteq> None" if "n \<noteq> 0"
    using that ys0 seg by (cases ys) auto
  show "dlseg (relink_prev s n m) m n ys (if ys = [] then m else lt) 0"
  proof (cases ys)
    case Nil
    then show ?thesis using ys0 by simp
  next
    case (Cons nw ns)
    then have "nw = (n, snd nw)" using dlseg_first [OF seg] by (cases nw) simp
    then show ?thesis
      using dlseg_set_prev [of s t n n "snd nw" ns lt 0 m] seg d Cons ys0
      by (auto simp: relink_prev_def)
  qed
  show "relink_prev s n m x = s x" if "x \<notin> set (map fst ys)"
    using that n_in by (auto simp: relink_prev_def)
  show "dom (relink_prev s n m) = dom s" using n_in by (auto simp: relink_prev_def)
qed

lemma remove_itr_rep:
  assumes rep: "list_rep_nodes l (xs @ (t, v) # ys)"
  shows "\<exists>l'. remove_itr l t = Inr l' \<and> list_rep_nodes l' (xs @ ys)"
proof -
  let ?s = "nodes l"
  have seg: "dlseg ?s 0 (m_head l) (xs @ (t, v) # ys) (m_tail l) 0"
    and d: "distinct (map fst (xs @ (t, v) # ys))"
    and dom: "dom ?s = set (map fst (xs @ (t, v) # ys))"
    and size: "list_size l = Suc (length (xs @ ys))"
    using rep by (simp_all add: list_rep_nodes_def)
  obtain m n where m: "dlseg ?s 0 (m_head l) xs m t" and t: "t \<noteq> 0"
    and tn: "?s t = Some \<lparr>val = v, next_node = n, prev_node = m\<rparr>"
    and n: "dlseg ?s t n ys (m_tail l) 0"
    using seg by (auto simp: dlseg_append)
  have dx: "distinct (map fst xs)" "distinct (map fst ys)" "t \<notin> set (map fst xs)" "t \<notin> set (map fst ys)"
    "set (map fst xs) \<inter> set (map fst ys) = {}" using d by auto
  define s1 where "s1 = relink_next ?s m n"
  note r1 = relink_next_seg(1) [OF m dx(1), of n, folded s1_def] relink_next_seg(2,3) [OF m dx(1)]
    relink_next_seg(4) [OF m dx(1), of _ n, folded s1_def] relink_next_seg(5) [OF m dx(1), of n, folded s1_def]
  have n1: "dlseg s1 t n ys (m_tail l) 0"
    using n r1(4) dx(5) by (subst dlseg_cong [of ys s1 ?s]) auto
  define s2 where "s2 = relink_prev s1 n m"
  note r2 = relink_prev_seg(1) [OF n1 dx(2), of m, folded s2_def] relink_prev_seg(2,3) [OF n1 dx(2)]
    relink_prev_seg(4) [OF n1 dx(2), of _ m, folded s2_def] relink_prev_seg(5) [OF n1 dx(2), of m, folded s2_def]
  have x2: "dlseg s2 0 (if xs = [] then n else m_head l) xs m n"
    using r1(1) r2(4) dx(5) by (subst dlseg_cong [of xs s2 s1]) auto
  have t2: "s1 t = ?s t" "s2 t = ?s t" using r1(4) r2(4) dx by auto
  let ?s' = "s2(t := None)"
  let ?l' = "l\<lparr>nodes := ?s', m_head := (if xs = [] then n else m_head l),
    m_tail := (if ys = [] then m else m_tail l), list_size := length (xs @ ys)\<rparr>"
  have hd: "t = m_head l \<longleftrightarrow> xs = []" using m dx(3) dlseg_first [OF m] by (cases xs) auto
  have tl: "t = m_tail l \<longleftrightarrow> ys = []"
  proof (cases "ys = []")
    case False
    then have "m_tail l \<in> set (map fst ys)" using dlseg_last [OF n] by simp
    then show ?thesis using False dx(4) by metis
  qed (use n in simp)
  have "remove_itr l t = Inr ?l'"
  proof -
    let ?n = "\<lparr>val = v, next_node = n, prev_node = m\<rparr>"
    have 1: "m \<noteq> 0 \<Longrightarrow> set_next l m n = Inr (l\<lparr>nodes := s1\<rparr>)" "m = 0 \<Longrightarrow> s1 = nodes l"
      using r1(3) by (auto simp: set_next_def read_node_def s1_def relink_next_def)
    have 2: "n \<noteq> 0 \<Longrightarrow> set_prev (l\<lparr>nodes := s1\<rparr>) n m = Inr (l\<lparr>nodes := s2\<rparr>)" "n = 0 \<Longrightarrow> s2 = s1"
      using r2(3) by (auto simp: set_prev_def read_node_def s2_def relink_prev_def)
    have reads: "read_node l t = Inr ?n" "read_node (l\<lparr>nodes := s1\<rparr>) t = Inr ?n"
      "read_node (l\<lparr>nodes := s2\<rparr>) t = Inr ?n"
      using tn t2 by (simp_all add: read_node_def)
    have "remove_itr l t =
      (let l2 = l\<lparr>nodes := s2\<rparr>;
           l3 = (if t = m_head l2 then l2\<lparr>m_head := n\<rparr> else l2);
           l4 = (if t = m_tail l3 then l3\<lparr>m_tail := m\<rparr> else l3)
       in Inr (l4\<lparr>nodes := (nodes l4)(t := None), list_size := size_sub (list_size l4) 1\<rparr>))"
      using 1 2 reads by (cases "m = 0"; cases "n = 0") (simp_all add: remove_itr_def Let_def del: rbind_Inr_iff)
    then show ?thesis using hd tl size by (auto simp: Let_def)
  qed
  moreover have "dlseg ?s' 0 (m_head ?l') (xs @ ys) (m_tail ?l') 0"
  proof -
    have "dlseg ?s' 0 (m_head ?l') xs m n" using x2 dx(3) by (subst dlseg_cong [of xs _ s2]) auto
    moreover have "dlseg ?s' m n ys (m_tail ?l') 0"
      using r2(1) dx(4) by (subst dlseg_cong [of ys _ s2]) auto
    ultimately show ?thesis unfolding dlseg_append by blast
  qed
  moreover have "dom ?s' = set (map fst (xs @ ys))" using r1(5) r2(5) dom dx by auto
  ultimately show ?thesis using d by (auto simp: list_rep_nodes_def)
qed

lemma find_split:
  "find P ns = Some n \<Longrightarrow> \<exists>xs ys. ns = xs @ n # ys \<and> (\<forall>x\<in>set xs. \<not> P x) \<and> P n"
proof (induction ns)
  case (Cons a ns)
  show ?case
  proof (cases "P a")
    case True
    then show ?thesis using Cons.prems by (intro exI [of _ "[]"] exI [of _ ns]) auto
  next
    case False
    then obtain xs ys where "ns = xs @ n # ys" "\<forall>x\<in>set xs. \<not> P x" "P n" using Cons by auto
    then show ?thesis using False by (intro exI [of _ "a # xs"] exI [of _ ys]) auto
  qed
qed simp

lemma list_find_rep:
  assumes "list_rep_nodes l ns"
  shows "list_find l f = Inr (case find (\<lambda>n. f (snd n)) ns of None \<Rightarrow> 0 | Some n \<Rightarrow> fst n)"
  using assms find_node_rep by (fastforce simp: list_find_def list_rep_nodes_def)

lemma rep_nonzero: "list_rep_nodes l ns \<Longrightarrow> n \<in> set ns \<Longrightarrow> fst n \<noteq> 0"
proof -
  assume "list_rep_nodes l ns" "n \<in> set ns"
  moreover from this obtain xs ys where "ns = xs @ n # ys" by (meson split_list)
  ultimately show ?thesis
    by (cases n) (auto simp: list_rep_nodes_def dlseg_append)
qed

lemma list_remove_rep:
  assumes rep: "list_rep l xs"
  shows "\<exists>l'. list_remove l t = Inr (t \<in> set xs, l') \<and> list_rep l' (remove1 t xs)"
proof -
  obtain ns where ns: "list_rep_nodes l ns" "xs = map snd ns" using rep by (auto simp: list_rep_def)
  note find = list_find_rep [OF ns(1), of "\<lambda>other. other = t"]
  show ?thesis
  proof (cases "find (\<lambda>n. snd n = t) ns")
    case None
    then have "t \<notin> set xs" using ns(2) by (auto simp: find_None_iff)
    then show ?thesis using find None rep by (simp add: list_remove_def remove1_idem)
  next
    case (Some n)
    then obtain as bs where n: "ns = as @ n # bs" "\<forall>x\<in>set as. snd x \<noteq> t" "snd n = t"
      using find_split [OF Some] by auto
    then obtain l' where "remove_itr l (fst n) = Inr l'" "list_rep_nodes l' (as @ bs)"
      using remove_itr_rep [of l as "fst n" "snd n" bs] ns(1) by auto
    moreover have "fst n \<noteq> 0" using rep_nonzero [OF ns(1)] n(1) by simp
    moreover have "remove1 t xs = map snd (as @ bs)"
      using n ns(2) by (simp add: remove1_append) (metis (mono_tags, lifting) image_iff list.set_map)
    moreover have "t \<in> set xs" using n ns(2) by force
    ultimately show ?thesis using find Some by (auto simp: list_remove_def list_rep_def)
  qed
qed

lemma list_append_rep:
  assumes rep: "list_rep l xs" and a: "a \<noteq> 0" "nodes l a = None"
  shows "if length xs \<le> MAX_REASONABLE_LIST_SIZE
    then \<exists>l'. list_append a l t = Inr l' \<and> list_rep l' (xs @ [t])
    else list_append a l t = Inl NotReached"
proof -
  obtain ns where ns: "list_rep_nodes l ns" "xs = map snd ns" using rep by (auto simp: list_rep_def)
  then have "list_size l = length xs" by (simp add: list_rep_nodes_def)
  then show ?thesis
    using append_move_rep [OF ns(1) a, of t] ns(2) by (fastforce simp: list_append_def list_rep_def)
qed

lemma pop_front_rep:
  assumes rep: "list_rep l xs"
  shows "case xs of [] \<Rightarrow> pop_front l = Inl AssertionFailed
    | x # xs' \<Rightarrow> \<exists>l'. pop_front l = Inr (x, l') \<and> list_rep l' xs'"
proof -
  obtain ns where ns: "list_rep_nodes l ns" "xs = map snd ns" using rep by (auto simp: list_rep_def)
  show ?thesis
  proof (cases ns)
    case Nil
    then show ?thesis using ns by (simp add: list_rep_nodes_def pop_front_def)
  next
    case (Cons n ms)
    obtain a v where n: "n = (a, v)" by fastforce
    have h: "m_head l = a" "a \<noteq> 0" "\<exists>nd. nodes l a = Some nd \<and> val nd = v"
      using ns(1) Cons n by (auto simp: list_rep_nodes_def)
    obtain l' where "remove_itr l a = Inr l'" "list_rep_nodes l' ms"
      using remove_itr_rep [of l "[]" a v ms] ns(1) Cons n by auto
    then show ?thesis
      using h Cons n ns(2) by (auto simp: pop_front_def list_front_def read_node_def list_rep_def)
  qed
qed

lemma list_destroy_rep:
  assumes "list_rep l xs"
  shows "\<exists>l'. list_destroy l = Inr l' \<and> nodes l' = Map.empty \<and> list_rep l' []"
proof -
  obtain ns where ns: "list_rep_nodes l ns" using assms by (auto simp: list_rep_def)
  then obtain l' where l': "destroy_nodes l (m_head l) = Some (Inr l')"
    "\<forall>x. nodes l' x = (if x \<in> set (map fst ns) then None else nodes l x)"
    using destroy_nodes_rep unfolding list_rep_nodes_def by metis
  moreover have "nodes l' = Map.empty"
    using l'(2) ns by (auto simp: list_rep_nodes_def fun_eq_iff domIff)
  ultimately show ?thesis
    by (auto simp: list_destroy_def list_rep_def list_rep_nodes_def)
qed

section \<open>The queue its clients use\<close>

text \<open>
  The scheduler and the network layer use the list as a queue: append at the back, take from
  the front, remove a given value. \<open>fresh\<close> says which addresses \<^verbatim>\<open>new\<close> may return.
\<close>

text \<open>Taking a number of elements out.\<close>

fun drain :: "('q \<Rightarrow> ('a \<times> 'q) result) \<Rightarrow> nat \<Rightarrow> 'q \<Rightarrow> 'a list result" where
  "drain deq 0 q = Inr []"
| "drain deq (Suc n) q = rbind (deq q) (\<lambda>(x, q'). rbind (drain deq n q') (\<lambda>xs. Inr (x # xs)))"

text \<open>Putting a sequence of values in, each with the address its node gets.\<close>

fun fill :: "(nat \<Rightarrow> 'q \<Rightarrow> 'a \<Rightarrow> 'q result) \<Rightarrow> (nat \<times> 'a) list \<Rightarrow> 'q \<Rightarrow> 'q result" where
  "fill enq [] q = Inr q"
| "fill enq ((a, x) # axs) q = rbind (enq a q x) (fill enq axs)"

locale fifo =
  fixes rep :: "'q \<Rightarrow> 'a list \<Rightarrow> bool"
    and fresh :: "'q \<Rightarrow> nat \<Rightarrow> bool"
    and enq :: "nat \<Rightarrow> 'q \<Rightarrow> 'a \<Rightarrow> 'q result"
    and deq :: "'q \<Rightarrow> ('a \<times> 'q) result"
  assumes enq_law: "rep q xs \<Longrightarrow> fresh q a \<Longrightarrow> length xs \<le> 10000 \<Longrightarrow>
      \<exists>q'. enq a q x = Inr q' \<and> rep q' (xs @ [x])"
    and deq_law: "rep q (x # xs) \<Longrightarrow> \<exists>q'. deq q = Inr (x, q') \<and> rep q' xs"
begin

text \<open>Taking everything out returns the values in the order they were put in.\<close>

lemma drain_order: "rep q xs \<Longrightarrow> drain deq (length xs) q = Inr xs"
proof (induction xs arbitrary: q)
  case (Cons x xs)
  then obtain q' where "deq q = Inr (x, q')" "rep q' xs" using deq_law by blast
  then show ?case using Cons.IH by simp
qed simp

lemma fill_order:
  assumes "\<And>q a. fresh q a" "rep q xs" "length xs + length axs \<le> 10000"
  shows "\<exists>q'. fill enq axs q = Inr q' \<and> rep q' (xs @ map snd axs)"
  using assms(2,3)
proof (induction axs arbitrary: q xs)
  case (Cons ax axs)
  obtain a x where ax: "ax = (a, x)" by (cases ax)
  obtain q1 where "enq a q x = Inr q1" "rep q1 (xs @ [x])"
    using enq_law [OF Cons.prems(1) assms(1)] Cons.prems(2) by force
  with Cons.IH [of q1 "xs @ [x]"] Cons.prems ax show ?case by auto
qed auto

lemma fill_drain:
  assumes "\<And>q a. fresh q a" "rep q []" "length axs \<le> 10000"
  shows "\<exists>q'. fill enq axs q = Inr q' \<and> drain deq (length axs) q' = Inr (map snd axs)"
proof -
  obtain q' where q': "fill enq axs q = Inr q'" "rep q' (map snd axs)"
    using fill_order [OF assms(1,2), of axs] assms(3) by auto
  then show ?thesis using drain_order [OF q'(2)] by simp
qed

end

locale fifo_queue = fifo +
  fixes del :: "'a \<Rightarrow> 'b \<Rightarrow> (bool \<times> 'a) result"
  assumes del_law: "rep q xs \<Longrightarrow> \<exists>q'. del q x = Inr (x \<in> set xs, q') \<and> rep q' (remove1 x xs)"
begin

lemma enq_del:
  assumes "rep q xs" "fresh q a" "length xs \<le> 10000" "x \<notin> set xs"
  shows "\<exists>q' q''. enq a q x = Inr q' \<and> del q' x = Inr (True, q'') \<and> rep q'' xs"
proof -
  obtain q' where "enq a q x = Inr q'" "rep q' (xs @ [x])" using enq_law assms by blast
  moreover from this obtain q'' where "del q' x = Inr (True, q'')" "rep q'' (remove1 x (xs @ [x]))"
    using del_law [of q' "xs @ [x]" x] by auto
  ultimately show ?thesis using assms(4) by (simp add: remove1_append)
qed

end

interpretation dll: fifo_queue list_rep "\<lambda>l a. a \<noteq> 0 \<and> nodes l a = None" list_append pop_front list_remove
proof
  fix q :: "'a lst" and xs a x
  assume "list_rep q xs" "a \<noteq> 0 \<and> nodes q a = None" "length xs \<le> 10000"
  then show "\<exists>q'. list_append a q x = Inr q' \<and> list_rep q' (xs @ [x])"
    using list_append_rep [of q xs a x] by simp
next
  fix q :: "'a lst" and x xs
  assume "list_rep q (x # xs)"
  then show "\<exists>q'. pop_front q = Inr (x, q') \<and> list_rep q' xs"
    using pop_front_rep [of q "x # xs"] by simp
qed (rule list_remove_rep)

section \<open>Properties\<close>

text \<open>
  C4: removing a value unlinks exactly its first occurrence: the remaining nodes form a
  well-linked list in both directions, the size is right, the node is freed, and the result
  says whether the value was there; on an empty list \<^verbatim>\<open>pop_front\<close> panics, otherwise it takes
  the first value, and taking all of them out gives the values in order.
\<close>

theorem list_remove_refines:
  assumes "list_rep l xs"
  shows "(\<exists>l'. list_remove l t = Inr (t \<in> set xs, l') \<and> list_rep l' (remove1 t xs))
    \<and> (case xs of [] \<Rightarrow> pop_front l = Inl AssertionFailed
        | x # xs' \<Rightarrow> \<exists>l'. pop_front l = Inr (x, l') \<and> list_rep l' xs')
    \<and> drain pop_front (length xs) l = Inr xs"
  using list_remove_rep [OF assms] pop_front_rep [OF assms] dll.drain_order [OF assms] by blast

text \<open>A list of two nodes.\<close>

definition two_nodes :: "char lst" where
  "two_nodes =
     \<lparr>nodes = [8 \<mapsto> \<lparr>val = CHR ''a'', next_node = 24, prev_node = 0\<rparr>,
               24 \<mapsto> \<lparr>val = CHR ''b'', next_node = 0, prev_node = 8\<rparr>],
      m_head = 8, m_tail = 24, list_size = 2\<rparr>"

lemma two_nodes_rep: "list_rep two_nodes ''ab''"
  unfolding list_rep_def
  by (intro exI [of _ "[(8, CHR ''a''), (24, CHR ''b'')]"])
    (auto simp: list_rep_nodes_def two_nodes_def)

theorem list_remove_refines_witness:
  "(\<exists>l'. list_remove two_nodes CHR ''a'' = Inr (True, l') \<and> list_rep l' ''b'')
    \<and> (\<exists>l'. pop_front two_nodes = Inr (CHR ''a'', l') \<and> list_rep l' ''b'')
    \<and> drain pop_front 2 two_nodes = Inr ''ab''"
  using list_remove_refines [OF two_nodes_rep, of "CHR ''a''"] by (simp add: numeral_2_eq_2)

text \<open>
  \<^verbatim>\<open>append\<close> puts the value at the end and keeps the list well linked, until the list has
  more than 10000 elements, where it panics; the destructor frees every node.
\<close>

theorem list_append_refines:
  assumes "list_rep l xs" "a \<noteq> 0" "nodes l a = None"
  shows "(if length xs \<le> MAX_REASONABLE_LIST_SIZE
      then \<exists>l'. list_append a l t = Inr l' \<and> list_rep l' (xs @ [t])
      else list_append a l t = Inl NotReached)
    \<and> (\<exists>l'. list_destroy l = Inr l' \<and> nodes l' = Map.empty \<and> list_rep l' [])"
  using list_append_rep [OF assms] list_destroy_rep [OF assms(1)] by blast

theorem list_append_refines_witness:
  "(\<exists>l'. list_append 40 two_nodes CHR ''c'' = Inr l' \<and> list_rep l' ''abc'')
    \<and> (\<exists>l'. list_destroy two_nodes = Inr l' \<and> nodes l' = Map.empty \<and> list_rep l' [])"
  using list_append_refines [OF two_nodes_rep, of 40 "CHR ''c''"] by (simp add: two_nodes_def)

end
