(* ===== verification/Processes.thy ===== *)
theory Processes
  imports Scheduling File_Systems Linked_List
begin

text \<open>
  The system calls of a process (\<^verbatim>\<open>kernel/process.cpp\<close>) and the registry of shared memory
  (\<^verbatim>\<open>kernel/MM/SharedMemoryManager.cpp\<close>). The virtual functions of \<^verbatim>\<open>File\<close>, \<^verbatim>\<open>Device\<close>,
  \<^verbatim>\<open>CharFile\<close> and \<^verbatim>\<open>Socket\<close> that a system call reaches through a descriptor are a table of
  functions on the state \<open>'w\<close> of the files. A system call that blocks is split where the
  process sleeps. A returned error is the number of \<^verbatim>\<open>kernel/errs.h\<close>.
\<close>

section \<open>Descriptors\<close>


abbreviation NUM_FILE_DESCRIPTORS :: nat where "NUM_FILE_DESCRIPTORS \<equiv> 256"

record 'w file_class =
  f_read :: "nat \<Rightarrow> nat \<Rightarrow> u8 list \<Rightarrow> 'w \<Rightarrow> (int \<times> u8 list \<times> 'w) result"
  f_write :: "nat \<Rightarrow> u8 list \<Rightarrow> nat \<Rightarrow> 'w \<Rightarrow> (int \<times> 'w) result"
  f_lseek :: "nat \<Rightarrow> int \<Rightarrow> int \<Rightarrow> 'w \<Rightarrow> (int \<times> 'w) result"
  f_ioctl :: "nat \<Rightarrow> u32 \<Rightarrow> nat \<Rightarrow> 'w \<Rightarrow> (int \<times> 'w) result"
  f_mmap :: "nat \<Rightarrow> nat \<Rightarrow> u32 \<Rightarrow> 'w \<Rightarrow> (int \<times> 'w) result"
  f_size :: "nat \<Rightarrow> 'w \<Rightarrow> int result"
  f_new_socket :: "'w \<Rightarrow> nat \<times> 'w"
  f_sendto :: "nat \<Rightarrow> u32 \<Rightarrow> u8 list \<Rightarrow> nat \<Rightarrow> 'w \<Rightarrow> (int \<times> 'w) result"
  f_recvfrom :: "nat \<Rightarrow> u8 list \<Rightarrow> nat \<Rightarrow> nat \<Rightarrow> 'w \<Rightarrow> (int \<times> u8 list \<times> u32 option \<times> 'w) result"
  f_delete :: "nat \<Rightarrow> 'w \<Rightarrow> 'w"

text \<open>\<^verbatim>\<open>Process::Process\<close>: the descriptors are the given ones, or none.\<close>

abbreviation SHARED_MEMORY_START :: u32 where "SHARED_MEMORY_START \<equiv> 0x40000000"
abbreviation SHARED_MEMORY_END :: u32 where "SHARED_MEMORY_END \<equiv> 0x50000000"

definition Process_new :: "string \<Rightarrow> str \<Rightarrow> nat option list option \<Rightarrow> proc result" where
  "Process_new name cwd descriptors =
     rbind (case descriptors of
              None \<Rightarrow> Inr (replicate NUM_FILE_DESCRIPTORS None)
            | Some ds \<Rightarrow> if NUM_FILE_DESCRIPTORS \<le> length ds then Inr (take NUM_FILE_DESCRIPTORS ds)
                        else Inl BadAccess) (\<lambda>fds.
       Inr \<lparr>p_state = Runnable, p_blocker = None, p_name = name, p_cwd = cwd, p_fds = fds, p_waiter = None,
            p_messages = [], p_ready = (0, PendingMessage), p_next_shm = SHARED_MEMORY_START\<rparr>)"

fun first_free :: "nat option list \<Rightarrow> nat option" where
  "first_free [] = None"
| "first_free (d # ds) = (if d = None then Some 0 else map_option Suc (first_free ds))"

definition allocate_fd :: "'w file_class \<Rightarrow> proc \<Rightarrow> nat \<Rightarrow> 'w \<Rightarrow> int \<times> proc \<times> 'w" where
  "allocate_fd fc x file w =
     (case first_free (take NUM_FILE_DESCRIPTORS (p_fds x)) of
        Some i \<Rightarrow> (int i, x\<lparr>p_fds := (p_fds x)[i := Some file]\<rparr>, w)
      | None \<Rightarrow> (- E_LIMIT, x, f_delete fc file w))"

text \<open>
  The descriptor of an unsigned number; \<open>None\<close> is \<open>nullptr\<close> or a number out of range.
\<close>

definition lookup_fd :: "proc \<Rightarrow> nat \<Rightarrow> nat option result" where
  "lookup_fd x fd =
     (if fd \<ge> NUM_FILE_DESCRIPTORS then Inr None
      else if fd < length (p_fds x) then Inr (p_fds x ! fd) else Inl BadAccess)"

text \<open>Where the number is an \<open>int\<close>, a negative one passes the test and indexes before the array.\<close>

definition lookup_fd_int :: "proc \<Rightarrow> int \<Rightarrow> nat option result" where
  "lookup_fd_int x fd =
     (if fd \<ge> int NUM_FILE_DESCRIPTORS then Inr None
      else if fd < 0 then Inl BadAccess
      else if nat fd < length (p_fds x) then Inr (p_fds x ! nat fd) else Inl BadAccess)"

definition syscall_ioctl :: "'w file_class \<Rightarrow> proc \<Rightarrow> nat \<Rightarrow> u32 \<Rightarrow> nat \<Rightarrow> 'w \<Rightarrow> (int \<times> 'w) result" where
  "syscall_ioctl fc x fd code data w =
     rbind (lookup_fd x fd) (\<lambda>f. case f of None \<Rightarrow> Inr (- E_NOTFOUND, w) | Some d \<Rightarrow> f_ioctl fc d code data w)"

definition syscall_file_size :: "'w file_class \<Rightarrow> proc \<Rightarrow> nat \<Rightarrow> 'w \<Rightarrow> int result" where
  "syscall_file_size fc x fd w =
     rbind (lookup_fd x fd) (\<lambda>f. case f of None \<Rightarrow> Inr (- E_NOTFOUND) | Some cf \<Rightarrow> f_size fc cf w)"

definition syscall_read :: "'w file_class \<Rightarrow> proc \<Rightarrow> nat \<Rightarrow> u8 list \<Rightarrow> nat \<Rightarrow> 'w \<Rightarrow> (int \<times> u8 list \<times> 'w) result" where
  "syscall_read fc x fd buff count w =
     rbind (lookup_fd x fd) (\<lambda>f.
       case f of None \<Rightarrow> Inr (- E_NOTFOUND, buff, w) | Some file \<Rightarrow> f_read fc file count buff w)"

definition syscall_write :: "'w file_class \<Rightarrow> proc \<Rightarrow> nat \<Rightarrow> u8 list \<Rightarrow> nat \<Rightarrow> 'w \<Rightarrow> (int \<times> 'w) result" where
  "syscall_write fc x fd buff count w =
     rbind (lookup_fd x fd) (\<lambda>f.
       case f of None \<Rightarrow> Inr (- E_NOTFOUND, w) | Some file \<Rightarrow> f_write fc file buff count w)"

definition syscall_lseek :: "'w file_class \<Rightarrow> proc \<Rightarrow> int \<Rightarrow> int \<Rightarrow> int \<Rightarrow> 'w \<Rightarrow> (int \<times> 'w) result" where
  "syscall_lseek fc x fd offset whence w =
     rbind (lookup_fd_int x fd) (\<lambda>f.
       case f of None \<Rightarrow> Inr (- E_NOTFOUND, w) | Some file \<Rightarrow> f_lseek fc file offset whence w)"

definition syscall_map_device :: "'w file_class \<Rightarrow> proc \<Rightarrow> int \<Rightarrow> nat \<Rightarrow> u32 \<Rightarrow> 'w \<Rightarrow> (int \<times> 'w) result" where
  "syscall_map_device fc x fd addr sz w =
     rbind (lookup_fd_int x fd) (\<lambda>f.
       case f of None \<Rightarrow> Inr (- E_NOTFOUND, w) | Some dev \<Rightarrow> f_mmap fc dev addr sz w)"

definition syscall_socket :: "'w file_class \<Rightarrow> proc \<Rightarrow> int \<Rightarrow> int \<Rightarrow> int \<Rightarrow> 'w \<Rightarrow> int \<times> proc \<times> 'w" where
  "syscall_socket fc x domain ty protocol w =
     (if domain \<noteq> 2 then (- E_NOT_SUPPORTED, x, w)
      else if ty \<noteq> 2 then (- E_NOT_SUPPORTED, x, w)
      else if protocol \<noteq> 1 then (- E_NOT_SUPPORTED, x, w)
      else let (socket, w1) = f_new_socket fc w in allocate_fd fc x socket w1)"

definition syscall_sendto :: "'w file_class \<Rightarrow> proc \<Rightarrow> int \<Rightarrow> u32 \<Rightarrow> u8 list \<Rightarrow> nat \<Rightarrow> 'w \<Rightarrow> (int \<times> 'w) result" where
  "syscall_sendto fc x sockfd addr buf len w =
     rbind (lookup_fd_int x sockfd) (\<lambda>f.
       case f of None \<Rightarrow> Inr (- E_NOTFOUND, w) | Some socket \<Rightarrow> f_sendto fc socket addr buf len w)"

definition syscall_recvfrom ::
  "'w file_class \<Rightarrow> proc \<Rightarrow> int \<Rightarrow> u8 list \<Rightarrow> nat \<Rightarrow> nat \<Rightarrow> 'w \<Rightarrow> (int \<times> u8 list \<times> u32 option \<times> 'w) result" where
  "syscall_recvfrom fc x sockfd buf len addrlen w =
     rbind (lookup_fd_int x sockfd) (\<lambda>f.
       case f of
         None \<Rightarrow> Inr (- E_NOTFOUND, buf, None, w)
       | Some socket \<Rightarrow> f_recvfrom fc socket buf len addrlen w)"

section \<open>Paths and directories\<close>

definition get_full_path :: "proc \<Rightarrow> str \<Rightarrow> str result" where
  "get_full_path x path =
     (let cwd = p_cwd x in
      rbind (str_eq path (mk_str ''.'')) (\<lambda>dot.
        if dot then String_copy cwd
        else
          rbind (str_eq path (mk_str ''..'')) (\<lambda>dotdot.
            if dotdot then
              rbind (find_last_of cwd (CHR ''/'')) (\<lambda>pos.
                if pos = 0 then String_of_char (CHR ''/'') else substr cwd 0 pos)
            else
              rbind (str_index path 0) (\<lambda>c.
                if c = CHR ''/'' then String_copy path
                else
                  rbind (str_index cwd (size_sub (m_len cwd) 1)) (\<lambda>l.
                    if l = CHR ''/'' then str_plus cwd path
                    else rbind (String_of_char (CHR ''/'')) (\<lambda>sep.
                         rbind (str_plus cwd sep) (\<lambda>a. str_plus a path)))))))"

definition syscall_open :: "'w VFS \<Rightarrow> 'w file_class \<Rightarrow> proc \<Rightarrow> str \<Rightarrow> 'w \<Rightarrow> (int \<times> proc \<times> 'w) result" where
  "syscall_open v fc x path w =
     rbind (get_full_path x path) (\<lambda>full.
     rbind (Path_of_string full) (\<lambda>p.
     rbind (VFS_open v p w) (\<lambda>(file, w1).
       case file of
         None \<Rightarrow> Inr (- E_NOTFOUND, x, w1)
       | Some f \<Rightarrow> Inr (allocate_fd fc x f w1))))"

fun required_size_of :: "DirectoryEntry list \<Rightarrow> nat result" where
  "required_size_of [] = Inr 0"
| "required_size_of (e # es) =
     rbind (serialized_size e) (\<lambda>n. rbind (required_size_of es) (\<lambda>m. Inr (n + m)))"

fun serialize_all :: "DirectoryEntry list \<Rightarrow> nat \<Rightarrow> u8 list \<Rightarrow> u8 list result" where
  "serialize_all [] offset dest = Inr dest"
| "serialize_all (e # es) offset dest =
     rbind (serialize e (drop offset dest)) (\<lambda>(n, tail).
       serialize_all es (offset + n) (take offset dest @ tail))"

text \<open>The result is the return value, the caller's buffer and its \<^verbatim>\<open>*size\<close>; \<open>None\<close> for a null buffer.\<close>

definition syscall_listdir ::
  "'w VFS \<Rightarrow> proc \<Rightarrow> str \<Rightarrow> u8 list option \<Rightarrow> nat option \<Rightarrow> 'w \<Rightarrow> (int \<times> u8 list option \<times> nat option) result" where
  "syscall_listdir v x path dest sz w =
     (case sz of
        None \<Rightarrow> Inr (E_INVALID, dest, sz)
      | Some avail \<Rightarrow>
          rbind (get_full_path x path) (\<lambda>full.
          rbind (Path_of_string full) (\<lambda>p.
          rbind (VFS_list_directory v p vec_new w) (\<lambda>(rc, entries).
            if \<not> rc then Inr (E_NOTFOUND, dest, sz)
            else
              rbind (required_size_of (vec_list entries)) (\<lambda>required_size.
                case dest of
                  None \<Rightarrow> Inr (E_TOO_SMALL, dest, Some required_size)
                | Some buf \<Rightarrow>
                    if avail < required_size then Inr (E_TOO_SMALL, dest, Some required_size)
                    else rbind (serialize_all (vec_list entries) 0 buf) (\<lambda>buf1. Inr (0, Some buf1, sz)))))))"

definition syscall_set_current_directory :: "'w VFS \<Rightarrow> proc \<Rightarrow> str \<Rightarrow> 'w \<Rightarrow> (int \<times> proc) result" where
  "syscall_set_current_directory v x path w =
     rbind (get_full_path x path) (\<lambda>full.
     rbind (Path_of_string full) (\<lambda>p.
     rbind (VFS_is_directory v p w) (\<lambda>isdir.
       if \<not> isdir then Inr (E_NOTFOUND, x)
       else
         rbind (find_last_of path (CHR ''/'')) (\<lambda>pos.
           if pos = int (m_len path) - 1 then Inr (E_INVALID, x)
           else rbind (get_full_path x path) (\<lambda>full'. Inr (0, x\<lparr>p_cwd := full'\<rparr>))))))"

text \<open>As many bytes are copied as the caller has room for, not as many as the name has.\<close>

definition syscall_get_current_directory :: "proc \<Rightarrow> string \<Rightarrow> nat \<Rightarrow> (int \<times> string \<times> nat) result" where
  "syscall_get_current_directory x buff count =
     (if count < m_len (p_cwd x) then Inr (E_TOO_SMALL, buff, m_len (p_cwd x))
      else rbind (c_str (p_cwd x)) (\<lambda>name.
           rbind (memcpy buff name count) (\<lambda>buff1. Inr (0, buff1, count))))"

definition syscall_creste_entry :: "'w VFS \<Rightarrow> proc \<Rightarrow> str \<Rightarrow> u8 \<Rightarrow> 'w \<Rightarrow> (int \<times> 'w) result" where
  "syscall_creste_entry v x path ty w =
     rbind (get_full_path x path) (\<lambda>full.
     rbind (Path_of_string full) (\<lambda>p.
     rbind (VFS_create_entry v p ty w) (\<lambda>(rc, w1).
       Inr (if rc then 0 else - E_INVALID, w1))))"

text \<open>\<open>a\<close> and \<open>b\<close> are the addresses of the two new pipes.\<close>

definition syscall_create_terminal :: "nat \<Rightarrow> nat \<Rightarrow> PtsFS \<Rightarrow> string \<Rightarrow> (int \<times> string \<times> PtsFS) result" where
  "syscall_create_terminal a b pts name_out =
     rbind (create_new a b pts) (\<lambda>r.
       case r of
         None \<Rightarrow> Inr (E_INVALID, name_out, pts)
       | Some (nm, pts1) \<Rightarrow>
           rbind (c_str nm) (\<lambda>cs.
           rbind (memcpy name_out cs (m_len nm)) (\<lambda>out1.
             if m_len nm < length out1 then Inr (E_OK, out1[m_len nm := NUL], pts1) else Inl BadAccess)))"

section \<open>Messages\<close>

definition put_message :: "proc \<Rightarrow> u8 list \<Rightarrow> nat \<Rightarrow> nat \<Rightarrow> proc result" where
  "put_message x msg sz pid =
     rbind (memcpy (replicate sz 0) msg sz) (\<lambda>copy.
       Inr (x\<lparr>p_messages := p_messages x @ [\<lparr>msg_pid = pid, msg_data = copy\<rparr>]\<rparr>))"

definition get_message :: "proc \<Rightarrow> (message \<times> proc) option" where
  "get_message x =
     (case p_messages x of [] \<Rightarrow> None | m # ms \<Rightarrow> Some (m, x\<lparr>p_messages := ms\<rparr>))"

text \<open>The return value, the caller's buffer and the sender.\<close>

definition consume_message :: "proc \<Rightarrow> u8 list \<Rightarrow> nat \<Rightarrow> ((nat \<times> u8 list \<times> nat) \<times> proc) result" where
  "consume_message x buf sz =
     (case get_message x of
        None \<Rightarrow> Inl AssertionFailed
      | Some (m, x1) \<Rightarrow>
          if sz \<noteq> length (msg_data m) then Inl NotReached
          else let size_to_copy = min sz (length (msg_data m))
               in rbind (memcpy buf (msg_data m) size_to_copy) (\<lambda>buf1.
                    Inr ((size_to_copy, buf1, msg_pid m), x1)))"

definition syscall_send_message :: "sched \<Rightarrow> nat \<Rightarrow> nat \<Rightarrow> u8 list \<Rightarrow> nat \<Rightarrow> (int \<times> sched) result" where
  "syscall_send_message s sender pid msg sz =
     (case get_process s pid of
        None \<Rightarrow> Inr (E_NOTFOUND, s)
      | Some r \<Rightarrow>
          rbind (get_proc s r) (\<lambda>x.
          rbind (put_message x msg sz sender) (\<lambda>x1.
            Inr (E_OK, s\<lparr>procs := (procs s)(r \<mapsto> x1)\<rparr>))))"

text \<open>
  The call returns at once when a message is there, and sleeps otherwise; \<open>resume_get_message\<close>
  is what runs after the scheduler has let the process go on.
\<close>

definition resume_get_message :: "sched \<Rightarrow> nat \<Rightarrow> u8 list \<Rightarrow> nat \<Rightarrow> ((nat \<times> u8 list \<times> nat) \<times> sched) result" where
  "resume_get_message s p buf sz =
     rbind (get_proc s p) (\<lambda>x.
     rbind (consume_message x buf sz) (\<lambda>(r, x1). Inr (r, s\<lparr>procs := (procs s)(p \<mapsto> x1)\<rparr>)))"

definition syscall_get_message ::
  "sched \<Rightarrow> nat \<Rightarrow> u8 list \<Rightarrow> nat \<Rightarrow> ((nat \<times> u8 list \<times> nat) option \<times> sched) result" where
  "syscall_get_message s p buf sz =
     rbind (get_proc s p) (\<lambda>x.
       if has_pending_message x
       then rbind (resume_get_message s p buf sz) (\<lambda>(r, s1). Inr (Some r, s1))
       else rbind (block_current (PendingMessageBlocker p) s) (\<lambda>s1. Inr (None, s1)))"

definition syscall_has_pending_message :: "proc \<Rightarrow> int" where
  "syscall_has_pending_message x = (if has_pending_message x then 1 else 0)"

definition syscall_get_pid_by_name :: "sched \<Rightarrow> string \<Rightarrow> int \<times> nat option" where
  "syscall_get_pid_by_name s name =
     (case get_process_by_name s name of None \<Rightarrow> (E_NOTFOUND, None) | Some p \<Rightarrow> (E_OK, Some p))"

fun pending_files :: "proc \<Rightarrow> nat list \<Rightarrow> (int + nat list) result" where
  "pending_files x [] = Inr (Inr [])"
| "pending_files x (fd # fds) =
     (if fd \<ge> NUM_FILE_DESCRIPTORS then Inr (Inl (- E_INVALID))
      else
        rbind (lookup_fd x fd) (\<lambda>f.
          case f of
            None \<Rightarrow> Inr (Inl (- E_NOTFOUND))
          | Some file \<Rightarrow> rbind (pending_files x fds) (\<lambda>r.
              Inr (case r of Inl e \<Rightarrow> Inl e | Inr fs \<Rightarrow> Inr (file # fs)))))"

definition syscall_block_until_pending :: "sched \<Rightarrow> nat \<Rightarrow> nat list \<Rightarrow> (int + sched) result" where
  "syscall_block_until_pending s p fds =
     rbind (get_proc s p) (\<lambda>x.
     rbind (pending_files x fds) (\<lambda>r.
       case r of
         Inl e \<Rightarrow> Inr (Inl e)
       | Inr files \<Rightarrow>
           rbind (block_current (PendingInputBlocker p files)
                    (s\<lparr>procs := (procs s)(p \<mapsto> x\<lparr>p_ready := (0, PendingMessage)\<rparr>)\<rparr>)) (\<lambda>s1.
             Inr (Inr s1))))"

text \<open>After the process has been let go on: the reason and the ready descriptor.\<close>

definition resume_block_until_pending :: "sched \<Rightarrow> nat \<Rightarrow> nat list \<Rightarrow> (int \<times> nat) result" where
  "resume_block_until_pending s p fds =
     rbind (get_proc s p) (\<lambda>x.
     rbind (assert_that (fst (p_ready x) < length fds)) (\<lambda>_.
       Inr (case snd (p_ready x) of PendingMessage \<Rightarrow> 0 | FdReady \<Rightarrow> 1, fds ! fst (p_ready x))))"

section \<open>The registry of shared memory\<close>

record shm_entry =
  shm_guid :: nat
  shm_pid :: nat
  shm_virt_addr :: u32
  shm_size :: u32

fun shm_get :: "shm_entry list \<Rightarrow> nat \<Rightarrow> shm_entry option" where
  "shm_get [] guid = None"
| "shm_get (e # es) guid = (if shm_guid e = guid then Some e else shm_get es guid)"

definition register_shm :: "shm_entry list \<Rightarrow> nat \<Rightarrow> nat \<Rightarrow> u32 \<Rightarrow> u32 \<Rightarrow> bool \<times> shm_entry list" where
  "register_shm es guid pid virt_addr sz =
     (if shm_get es guid \<noteq> None then (False, es)
      else (True, es @ [\<lparr>shm_guid = guid, shm_pid = pid, shm_virt_addr = virt_addr, shm_size = sz\<rparr>]))"

section \<open>Facts about descriptors\<close>

lemma first_free_Some:
  "first_free ds = Some i \<longleftrightarrow> i < length ds \<and> ds ! i = None \<and> (\<forall>j<i. ds ! j \<noteq> None)"
proof (induction ds arbitrary: i)
  case (Cons d ds)
  show ?case
  proof (cases i)
    case 0
    then show ?thesis by auto
  next
    case (Suc k)
    then show ?thesis using Cons.IH [of k] by (cases "d = None") (auto simp: less_Suc_eq_0_disj)
  qed
qed simp

lemma first_free_None: "first_free ds = None \<longleftrightarrow> None \<notin> set ds"
  by (induction ds) auto

section \<open>Facts about paths\<close>

lemma find_last_of_split:
  assumes "c \<notin> set b"
  shows "find_last_of (mk_str (a @ c # b)) c = Inr (int (length a))"
proof -
  let ?cs = "(a @ c # b) @ [NUL]" and ?n = "length (a @ c # b)"
  have at: "?cs ! length a = c" by (simp add: nth_append)
  have after: "?cs ! j \<noteq> c" if "length a < j" "j < ?n" for j
    using that assms by (auto simp: nth_append nth_Cons' in_set_conv_nth)
  obtain r where r: "find_last_loop ?cs c ?n = Inr r"
    and "r = -1 \<and> c \<notin> set (take ?n ?cs) \<or>
      (\<exists>i<?n. r = int i \<and> ?cs ! i = c \<and> (\<forall>j. i < j \<and> j < ?n \<longrightarrow> ?cs ! j \<noteq> c))"
    using find_last_loop_ok [of ?n ?cs c] by auto
  then obtain i where i: "i < ?n" "r = int i" "?cs ! i = c" "\<And>j. i < j \<and> j < ?n \<Longrightarrow> ?cs ! j \<noteq> c"
    by auto
  have "i = length a"
  proof (rule ccontr)
    assume "i \<noteq> length a"
    then have "i < length a \<or> length a < i" by linarith
    then show False
    proof
      assume "i < length a"
      then show False using i(4) [of "length a"] at by simp
    next
      assume "length a < i"
      then show False using after [OF _ i(1)] i(3) by simp
    qed
  qed
  then show ?thesis using r i(2) by (simp add: find_last_of_def)
qed

lemma join_append: "ps \<noteq> [] \<Longrightarrow> qs \<noteq> [] \<Longrightarrow> join (ps @ qs) = join ps @ CHR ''/'' # join qs"
proof (induction ps rule: join.induct)
  case (2 p)
  then show ?case by (cases qs) auto
qed auto

lemma join_last:
  assumes "list_all part_ok ps" "ps \<noteq> []"
  shows "last (join ps) \<noteq> CHR ''/''"
  using assms
proof (induction ps rule: join.induct)
  case (2 p)
  then show ?case by (auto simp: part_ok_def dest: last_in_set)
next
  case (3 p q ps)
  then have "join (q # ps) \<noteq> []" using join_head [of "q # ps"] by simp
  then show ?case using 3 by simp
qed simp

text \<open>The directory a process is in: the text of an absolute path.\<close>

definition cwd_is :: "proc \<Rightarrow> string list \<Rightarrow> bool" where
  "cwd_is x ps \<longleftrightarrow> list_all part_ok ps \<and> p_cwd x = mk_str (CHR ''/'' # join ps)"

lemma full_path_parent:
  assumes "cwd_is x ps" "ps \<noteq> []"
  shows "get_full_path x (mk_str ''..'') = Inr (mk_str (CHR ''/'' # join (butlast ps)))"
proof -
  obtain qs q where ps: "ps = qs @ [q]" using assms(2) by (cases ps rule: rev_cases) auto
  then have q: "CHR ''/'' \<notin> set q" using assms(1) by (simp add: cwd_is_def part_ok_def)
  have dots: "str_eq (mk_str ''..'') (mk_str ''.'') = Inr False" "str_eq (mk_str ''..'') (mk_str ''..'') = Inr True"
    by (simp_all add: str_eq_ok)
  show ?thesis
  proof (cases "qs = []")
    case True
    then have "find_last_of (p_cwd x) (CHR ''/'') = Inr 0"
      using find_last_of_split [OF q, of "[]"] assms(1) ps by (simp add: cwd_is_def)
    then show ?thesis
      using dots ps True by (simp add: get_full_path_def Let_def String_of_char_ok del: rbind_Inr_iff)
  next
    case False
    let ?a = "CHR ''/'' # join qs"
    have cwd: "p_cwd x = mk_str (?a @ CHR ''/'' # q)"
      using assms(1) ps False by (simp add: cwd_is_def join_append)
    then have "find_last_of (p_cwd x) (CHR ''/'') = Inr (int (length ?a))"
      using find_last_of_split [OF q, of ?a] by simp
    moreover have "substr (p_cwd x) 0 (int (length ?a)) = Inr (mk_str ?a)"
      using substr_ok [of 0 "length ?a" "?a @ CHR ''/'' # q"] cwd by simp
    ultimately show ?thesis
      using dots ps by (simp add: get_full_path_def Let_def del: rbind_Inr_iff)
  qed
qed

lemma full_path_relative:
  assumes "cwd_is x ps" "list_all part_ok rs" "rs \<noteq> []" "rs \<noteq> [''.'']" "rs \<noteq> [''..'']"
  shows "get_full_path x (mk_str (join rs)) = Inr (mk_str (CHR ''/'' # join (ps @ rs)))"
proof -
  have head: "join rs \<noteq> []" "join rs ! 0 \<noteq> CHR ''/''"
    using join_head [OF assms(2,3)] by (auto simp: hd_conv_nth)
  have nodot: "join rs \<noteq> ''.''" "join rs \<noteq> ''..''"
  proof -
    have "CHR ''/'' \<notin> set (join rs) \<Longrightarrow> rs = [join rs]"
      using assms(3) by (cases rs rule: join.cases) auto
    then show "join rs \<noteq> ''.''" "join rs \<noteq> ''..''" using assms(4,5) by auto
  qed
  have dots: "str_eq (mk_str (join rs)) (mk_str ''.'') = Inr False"
    "str_eq (mk_str (join rs)) (mk_str ''..'') = Inr False" "str_index (mk_str (join rs)) 0 = Inr (join rs ! 0)"
    using nodot head by (simp_all add: str_eq_ok str_index_ok)
  have cwd: "p_cwd x = mk_str (CHR ''/'' # join ps)" "list_all part_ok ps"
    using assms(1) by (simp_all add: cwd_is_def)
  have lst: "str_index (p_cwd x) (size_sub (m_len (p_cwd x)) 1) = Inr (last (CHR ''/'' # join ps))"
    using cwd(1) by (simp add: str_index_ok last_conv_nth)
  show ?thesis
  proof (cases "ps = []")
    case True
    then show ?thesis
      using dots head lst cwd by (simp add: get_full_path_def Let_def str_plus_ok del: rbind_Inr_iff)
  next
    case False
    then have "last (CHR ''/'' # join ps) \<noteq> CHR ''/''" using join_last [OF cwd(2)] join_head [OF cwd(2)] by simp
    then show ?thesis
      using dots head lst cwd False assms(3)
      by (simp add: get_full_path_def Let_def String_of_char_ok str_plus_ok join_append del: rbind_Inr_iff)
  qed
qed

lemma full_path_absolute: "get_full_path x (mk_str (CHR ''/'' # cs)) = Inr (mk_str (CHR ''/'' # cs))"
proof -
  have "str_eq (mk_str (CHR ''/'' # cs)) (mk_str ''.'') = Inr False"
    "str_eq (mk_str (CHR ''/'' # cs)) (mk_str ''..'') = Inr False"
    by (simp_all add: str_eq_ok)
  then show ?thesis
    by (simp add: get_full_path_def Let_def str_index_ok String_copy_ok del: rbind_Inr_iff)
qed

section \<open>Facts about messages\<close>

lemma put_message_ok:
  "put_message x msg sz pid = (if sz \<le> length msg
     then Inr (x\<lparr>p_messages := p_messages x @ [\<lparr>msg_pid = pid, msg_data = take sz msg\<rparr>]\<rparr>) else Inl BadAccess)"
  by (simp add: put_message_def memcpy_eq)

lemma consume_message_ok:
  assumes "p_messages x = m # ms" "length (msg_data m) \<le> length buf"
  shows "consume_message x buf (length (msg_data m)) =
    Inr ((length (msg_data m), blit 0 (msg_data m) buf, msg_pid m), x\<lparr>p_messages := ms\<rparr>)"
  using assms by (simp add: consume_message_def get_message_def memcpy_eq blit_def Let_def)

text \<open>Sending only touches the receiver's queue.\<close>

lemma send_message_ok:
  assumes "sched_ok s" "r \<in> set (m_runanble_list s @ m_blocked_list s)" "sz \<le> length msg"
  shows "\<exists>x. procs s r = Some x \<and> syscall_send_message s sender r msg sz =
    Inr (E_OK, s\<lparr>procs := (procs s)(r \<mapsto>
      x\<lparr>p_messages := p_messages x @ [\<lparr>msg_pid = sender, msg_data = take sz msg\<rparr>]\<rparr>)\<rparr>)"
proof -
  have "r \<in> dom (procs s)" using assms(1,2) listed_dom [of s] by (auto simp: sched_ok_def base_ok_def)
  then obtain x where "procs s r = Some x" by auto
  then show ?thesis
    using assms(2,3) by (simp add: syscall_send_message_def get_process_iff get_proc_Some put_message_ok)
qed

lemma sched_ok_messages:
  assumes "procs s r = Some x"
  shows "sched_ok (s\<lparr>procs := (procs s)(r \<mapsto> x\<lparr>p_messages := ms\<rparr>)\<rparr>) = sched_ok s"
proof -
  let ?s = "s\<lparr>procs := (procs s)(r \<mapsto> x\<lparr>p_messages := ms\<rparr>)\<rparr>"
  have "st ?s = st s" "blocker_of ?s = blocker_of s" "waiter_of ?s = waiter_of s" "dom (procs ?s) = dom (procs s)"
    using assms by (auto simp: fun_eq_iff st_def blocker_of_def waiter_of_def)
  then show ?thesis
    by (cases "m_current_process s")
      (simp_all add: sched_ok_def base_ok_def places_ok_def idle_ok_def current_ok_def waiters_ok_def)
qed

text \<open>The message queue of a process is a queue in the sense of \<open>fifo\<close>.\<close>

definition enq_message :: "nat \<Rightarrow> proc \<Rightarrow> message \<Rightarrow> proc result" where
  "enq_message a x m = put_message x (msg_data m) (length (msg_data m)) (msg_pid m)"

definition deq_message :: "proc \<Rightarrow> (message \<times> proc) result" where
  "deq_message x = (case get_message x of None \<Rightarrow> Inl AssertionFailed | Some r \<Rightarrow> Inr r)"

interpretation messages: fifo "\<lambda>x ms. p_messages x = ms" "\<lambda>x a. True" enq_message deq_message
  by unfold_locales (auto simp: enq_message_def deq_message_def get_message_def put_message_ok)

lemma shm_get_append:
  "shm_get (es @ [e]) g = (if shm_get es g \<noteq> None then shm_get es g else if shm_guid e = g then Some e else None)"
  by (induction es) auto

section \<open>Properties\<close>

text \<open>
  C30: opening a file that exists uses the lowest free descriptor, after which reading and
  writing through that descriptor reaches this file and every other descriptor is as before;
  when all 256 are taken the file is deleted again and the call returns an error.
\<close>

theorem open_uses_lowest_descriptor:
  assumes "length (p_fds x) = NUM_FILE_DESCRIPTORS" "get_full_path x path = Inr full"
    "Path_of_string full = Inr p" "VFS_open v p w = Inr (Some f, w1)"
  shows "if None \<in> set (p_fds x)
    then \<exists>fd < NUM_FILE_DESCRIPTORS. p_fds x ! fd = None \<and> (\<forall>i<fd. p_fds x ! i \<noteq> None)
      \<and> (\<exists>x'. syscall_open v fc x path w = Inr (int fd, x', w1)
          \<and> (\<forall>buf n w2. syscall_read fc x' fd buf n w2 = f_read fc f n buf w2)
          \<and> (\<forall>buf n w2. syscall_write fc x' fd buf n w2 = f_write fc f buf n w2)
          \<and> (\<forall>i. i \<noteq> fd \<longrightarrow> lookup_fd x' i = lookup_fd x i))
    else syscall_open v fc x path w = Inr (- E_LIMIT, x, f_delete fc f w1)"
proof (cases "first_free (p_fds x)")
  case None
  then have "None \<notin> set (p_fds x)" by (simp add: first_free_None)
  then show ?thesis
    using assms None by (simp add: syscall_open_def allocate_fd_def)
next
  case (Some fd)
  let ?x = "x\<lparr>p_fds := (p_fds x)[fd := Some f]\<rparr>"
  have fd: "fd < NUM_FILE_DESCRIPTORS" "p_fds x ! fd = None" "\<forall>i<fd. p_fds x ! i \<noteq> None"
    using Some assms(1) by (auto simp: first_free_Some)
  have "None \<in> set (p_fds x)" using fd(1,2) assms(1) nth_mem [of fd "p_fds x"] by simp
  moreover have "syscall_open v fc x path w = Inr (int fd, ?x, w1)"
    using assms Some by (simp add: syscall_open_def allocate_fd_def)
  moreover have "lookup_fd ?x fd = Inr (Some f)" using fd(1) assms(1) by (simp add: lookup_fd_def)
  moreover have "lookup_fd ?x i = lookup_fd x i" if "i \<noteq> fd" for i using that by (simp add: lookup_fd_def)
  ultimately show ?thesis
    using fd by (auto simp: syscall_read_def syscall_write_def intro!: exI [of _ fd])
qed

text \<open>A file system in which every name is the file 9, and files that hold nothing.\<close>

definition one_file_fs :: "unit filesystem" where
  "one_file_fs = (null_fs Path_empty)\<lparr>fs_open := \<lambda>p w. Inr (Some 9, w)\<rparr>"

definition null_files :: "unit file_class" where
  "null_files =
     \<lparr>f_read = \<lambda>f n buf w. Inr (0, buf, w), f_write = \<lambda>f buf n w. Inr (0, w), f_lseek = \<lambda>f off wh w. Inr (0, w),
      f_ioctl = \<lambda>f c d w. Inr (0, w), f_mmap = \<lambda>f a n w. Inr (8, w), f_size = \<lambda>f w. Inr 0,
      f_new_socket = \<lambda>w. (0, w), f_sendto = \<lambda>f a buf n w. Inr (0, w),
      f_recvfrom = \<lambda>f buf n l w. Inr (0, buf, None, w), f_delete = \<lambda>f w. w\<rparr>"

theorem open_uses_lowest_descriptor_witness:
  "\<exists>x'. syscall_open \<lparr>mounted_filesystems = [one_file_fs]\<rparr> null_files (fresh_proc Running ''sh'') (mk_str ''/a'') ()
      = Inr (0, x', ()) \<and> lookup_fd x' 1 = Inr None"
proof -
  let ?v = "\<lparr>mounted_filesystems = [one_file_fs]\<rparr>" and ?x = "fresh_proc Running ''sh''"
  have full: "get_full_path ?x (mk_str ''/a'') = Inr (mk_str ''/a'')" by (rule full_path_absolute)
  obtain p where p: "Path_of_string (mk_str ''/a'') = Inr p" "path_ok p"
    using Path_of_string_join [of "[''a'']" "''/''"] by (auto simp: part_ok_def)
  have "is_prefix_of Path_empty p = Inr True"
    by (simp add: is_prefix_of_def num_parts_def Path_empty_def vec_new_def)
  moreover obtain r where "remove_mount_prefix p Path_empty = Inr (Some r)"
    using remove_mount_prefix_ok [OF p(2) Path_empty_ok(1)] by auto
  ultimately have "VFS_open ?v p () = Inr (Some 9, ())"
    by (simp add: VFS_open_def get_fs_def one_file_fs_def null_fs_def)
  moreover have "length (p_fds ?x) = NUM_FILE_DESCRIPTORS" "\<And>i. i < 256 \<Longrightarrow> p_fds ?x ! i = None"
    by (simp_all add: fresh_proc_def)
  ultimately obtain fd x' where fd: "fd < 256" "\<forall>i<fd. p_fds ?x ! i \<noteq> None"
    "syscall_open ?v null_files ?x (mk_str ''/a'') () = Inr (int fd, x', ())"
    "\<forall>i. i \<noteq> fd \<longrightarrow> lookup_fd x' i = lookup_fd ?x i"
    using open_uses_lowest_descriptor [OF _ full p(1), of ?v "()" 9 "()" null_files]
    by (auto simp: fresh_proc_def)
  have "fd = 0" using fd(1,2) by (cases fd) (auto simp: fresh_proc_def)
  moreover have "lookup_fd ?x 1 = Inr None" by (simp add: lookup_fd_def fresh_proc_def)
  ultimately show ?thesis using fd(3,4) by auto
qed

text \<open>
  How names are resolved against the current directory. A relative name names the parts
  of the directory followed by its own, \<^verbatim>\<open>..\<close> the directory's parts without the last, and an
  absolute name its own parts; the result always parses to an absolute path.
\<close>

theorem names_resolve_against_directory:
  assumes "cwd_is x ps" "list_all part_ok rs" "rs \<noteq> []" "rs \<noteq> [''.'']" "rs \<noteq> [''..'']"
  shows "(\<exists>s p. get_full_path x (mk_str (join rs)) = Inr s \<and> Path_of_string s = Inr p
        \<and> path_parts p = ps @ rs \<and> m_type p = Absolute)
    \<and> (ps \<noteq> [] \<longrightarrow> (\<exists>s p. get_full_path x (mk_str ''..'') = Inr s \<and> Path_of_string s = Inr p
        \<and> path_parts p = butlast ps \<and> m_type p = Absolute))
    \<and> (\<exists>s p. get_full_path x (mk_str (CHR ''/'' # join rs)) = Inr s \<and> Path_of_string s = Inr p
        \<and> path_parts p = rs \<and> m_type p = Absolute)"
proof -
  have ps: "list_all part_ok ps" using assms(1) by (simp add: cwd_is_def)
  have parse: "\<exists>p. Path_of_string (mk_str (CHR ''/'' # join qs)) = Inr p \<and> path_parts p = qs \<and> m_type p = Absolute"
    if "list_all part_ok qs" for qs
    using Path_of_string_join [OF that, of "''/''"] by auto
  have "list_all part_ok (ps @ rs)" "list_all part_ok (butlast ps)"
    using ps assms(2) by (auto simp: list_all_iff dest: in_set_butlastD)
  then show ?thesis
    using parse [of "ps @ rs"] parse [of "butlast ps"] parse [OF assms(2)] full_path_relative [OF assms]
      full_path_parent [OF assms(1)] full_path_absolute [of x "join rs"] by auto
qed

theorem names_resolve_against_directory_witness:
  "\<exists>s p. get_full_path (fresh_proc Running ''sh'') (mk_str ''bin/ls'') = Inr s \<and> Path_of_string s = Inr p
    \<and> path_parts p = [''bin'', ''ls''] \<and> m_type p = Absolute"
  using names_resolve_against_directory [of "fresh_proc Running ''sh''" "[]" "[''bin'', ''ls'']"]
  by (simp add: cwd_is_def fresh_proc_def part_ok_def)

text \<open>A process that waits for a message it has is let go on when the scheduler looks at the blocked ones.\<close>

lemma try_unblock_loop_step:
  "try_unblock_loop reused (p # ps) s = Inr s' \<Longrightarrow> procs s p = Some y \<Longrightarrow> p_blocker y = Some b \<Longrightarrow> can_unblock s b = Inr (True, out)
    \<Longrightarrow> unblock p out s = s' \<and> reused p \<or> try_unblock_loop reused ps (unblock p out s) = Inr s'"
  by (auto simp: get_proc_def unblock_def push_back_def Let_def split: if_splits)

lemma try_unblock_loop_other:
  "try_unblock_loop reused ps s = Inr s' \<Longrightarrow> r \<notin> set ps
    \<Longrightarrow> procs s' r = procs s r \<and> set (m_runanble_list s) \<subseteq> set (m_runanble_list s')"
proof (induction ps arbitrary: s)
  case (Cons p ps)
  obtain x b ok out where x: "procs s p = Some x" "p_blocker x = Some b" "can_unblock s b = Inr (ok, out)"
    using Cons.prems(1) by (auto simp: get_proc_def split: option.splits)
  show ?case
  proof (cases ok)
    case True
    let ?s = "unblock p out s"
    have "?s = s' \<or> try_unblock_loop reused ps ?s = Inr s'"
      using try_unblock_loop_step [OF Cons.prems(1) x(1,2)] x(3) True by auto
    moreover have "procs ?s r = procs s r" "set (m_runanble_list s) \<subseteq> set (m_runanble_list ?s)"
      using Cons.prems(2) by (auto simp: unblock_def upd_proc_def)
    ultimately show ?thesis using Cons.IH [of ?s] Cons.prems(2) by auto
  qed (use Cons x in \<open>auto simp: get_proc_def\<close>)
qed simp

lemma try_unblock_loop_wakes:
  assumes "try_unblock_loop reused ps s = Inr s'" "r \<in> set ps" "distinct ps" "r \<in> set (m_blocked_list s)"
    "procs s r = Some x" "p_blocker x = Some (PendingMessageBlocker r)" "p_messages x \<noteq> []" "\<forall>q. q \<noteq> r \<longrightarrow> \<not> reused q"
  shows "r \<in> set (m_runanble_list s') \<and> (\<exists>y. procs s' r = Some y \<and> p_messages y = p_messages x)"
  using assms(1-5)
proof (induction ps arbitrary: s)
  case (Cons p ps)
  obtain y b ok out where y: "procs s p = Some y" "p_blocker y = Some b" "can_unblock s b = Inr (ok, out)"
    using Cons.prems(1) by (auto simp: get_proc_def split: option.splits)
  let ?s = "unblock p out s"
  have step: "?s = s' \<and> reused p \<or> try_unblock_loop reused ps ?s = Inr s'" if ok
    using try_unblock_loop_step [OF Cons.prems(1) y(1,2)] y(3) that by auto
  show ?case
  proof (cases "p = r")
    case True
    then have "b = PendingMessageBlocker r" using y Cons.prems(5) assms(6) by simp
    moreover have "get_process s r = Some r" using Cons.prems(4) by (simp add: get_process_iff)
    ultimately have ok: ok "out = id"
      using y(3) Cons.prems(5) assms(7)
      by (auto simp: message_can_unblock_def get_proc_def has_pending_message_def)
    have r: "r \<in> set (m_runanble_list ?s)" "\<exists>z. procs ?s r = Some z \<and> p_messages z = p_messages x"
      using True Cons.prems(5) ok(2) by (simp_all add: unblock_def upd_proc_def)
    then show ?thesis
      using step [OF ok(1)] try_unblock_loop_other [of reused ps ?s s' r] Cons.prems(3) True by auto
  next
    case False
    have rps: "r \<in> set ps" "distinct ps" using Cons.prems(2,3) False by auto
    show ?thesis
    proof (cases ok)
      case True
      then have "try_unblock_loop reused ps ?s = Inr s'" using step assms(8) False by auto
      moreover have "r \<in> set (m_blocked_list ?s)" "procs ?s r = Some x"
        using Cons.prems(4,5) False by (simp_all add: unblock_def upd_proc_def)
      ultimately show ?thesis using Cons.IH rps by blast
    next
      case False
      then have "try_unblock_loop reused ps s = Inr s'" using Cons.prems(1) y by (auto simp: get_proc_def)
      then show ?thesis using Cons.IH rps Cons.prems(4,5) by blast
    qed
  qed
qed simp

text \<open>
  C29: a message sent to a process that sleeps until it gets one is delivered. The scheduler's invariant is kept; when
  the scheduler next looks at the blocked processes, the process is put among the runnable ones (if the loop is not cut
  short before by a reused list node); and when it goes on having asked for exactly the number of bytes that was
  sent, it finds the sender's number and those bytes. Having asked for any other number it stops the kernel.
\<close>

theorem message_wakes_receiver:
  assumes "sched_ok s" "r \<in> set (m_blocked_list s)" "blocker_of s r = Some (PendingMessageBlocker r)"
    "procs s r = Some x" "p_messages x = []" "sz \<le> length msg" "sz \<le> length buf" "\<forall>q. q \<noteq> r \<longrightarrow> \<not> reused q"
  shows "\<exists>s1. syscall_send_message s sender r msg sz = Inr (E_OK, s1) \<and> sched_ok s1
    \<and> can_unblock s1 (PendingMessageBlocker r) = Inr (True, id)
    \<and> (\<forall>s2. try_unblock_tasks reused s1 = Inr s2 \<longrightarrow> r \<in> set (m_runanble_list s2)
        \<and> (\<exists>s3. resume_get_message s2 r buf sz = Inr ((sz, take sz msg @ drop sz buf, sender), s3))
        \<and> (\<forall>buf' sz'. sz' \<noteq> sz \<longrightarrow> resume_get_message s2 r buf' sz' = Inl NotReached))"
proof -
  let ?m = "\<lparr>msg_pid = sender, msg_data = take sz msg\<rparr>"
  let ?x = "x\<lparr>p_messages := p_messages x @ [?m]\<rparr>"
  let ?s = "s\<lparr>procs := (procs s)(r \<mapsto> ?x)\<rparr>"
  have listed: "r \<in> set (m_runanble_list s @ m_blocked_list s)" using assms(2) by simp
  have sent: "syscall_send_message s sender r msg sz = Inr (E_OK, ?s)"
    using send_message_ok [OF assms(1) listed assms(6)] assms(4) by auto
  have x: "get_proc ?s r = Inr ?x" by (simp add: get_proc_def)
  have can: "can_unblock ?s (PendingMessageBlocker r) = Inr (True, id)"
    using x listed by (simp add: message_can_unblock_def get_process_iff has_pending_message_def del: rbind_Inr_iff)
  have got: "resume_get_message s2 r b n = (if n = sz then rbind (memcpy b (take sz msg) sz) (\<lambda>b1.
      Inr ((sz, b1, sender), s2\<lparr>procs := (procs s2)(r \<mapsto> y\<lparr>p_messages := []\<rparr>)\<rparr>)) else Inl NotReached)"
    if "procs s2 r = Some y" "p_messages y = [?m]" for s2 y b n
    using that assms(6) by (cases "memcpy b (take sz msg) sz")
      (simp_all add: resume_get_message_def get_proc_def consume_message_def get_message_def Let_def)
  have woken: "r \<in> set (m_runanble_list s2) \<and> (\<exists>y. procs s2 r = Some y \<and> p_messages y = [?m])"
    if "try_unblock_tasks reused ?s = Inr s2" for s2
  proof -
    have "distinct (m_blocked_list s)" using assms(1) by (simp add: sched_ok_def base_ok_def places_ok_def)
    then show ?thesis
      using try_unblock_loop_wakes [of reused "m_blocked_list ?s" ?s s2 r ?x] that assms(2-5,8)
      by (simp add: try_unblock_tasks_def blocker_of_def)
  qed
  have "r \<in> set (m_runanble_list s2)
      \<and> (\<exists>s3. resume_get_message s2 r buf sz = Inr ((sz, take sz msg @ drop sz buf, sender), s3))
      \<and> (\<forall>buf' sz'. sz' \<noteq> sz \<longrightarrow> resume_get_message s2 r buf' sz' = Inl NotReached)"
    if "try_unblock_tasks reused ?s = Inr s2" for s2
    using woken [OF that] got [of s2] assms(6,7) by (auto simp: memcpy_eq)
  then show ?thesis using sent can sched_ok_messages [OF assms(4)] assms(1) by (intro exI [of _ ?s]) simp
qed

text \<open>A machine in which process 4 waits for a message.\<close>

definition waiting_machine :: sched where
  "waiting_machine =
     small_machine\<lparr>m_blocked_list := [4],
       procs := (procs small_machine)(4 \<mapsto>
         (fresh_proc Blocked ''gui'')\<lparr>p_blocker := Some (PendingMessageBlocker 4)\<rparr>)\<rparr>"

lemma waiting_machine_ok: "sched_ok waiting_machine"
proof -
  have "waiter_of waiting_machine q = None" for q
    by (simp add: waiter_of_def waiting_machine_def small_machine_def fresh_proc_def)
  then have "waiters_ok waiting_machine" by (simp add: waiters_ok_def)
  then show ?thesis
    by (simp add: sched_ok_def base_ok_def places_ok_def idle_ok_def current_ok_def)
      (simp add: waiting_machine_def small_machine_def st_def blocker_of_def fresh_proc_def)
qed

theorem message_wakes_receiver_witness:
  "\<exists>s1 s2 s3. syscall_send_message waiting_machine 2 4 [10, 20] 2 = Inr (E_OK, s1)
    \<and> try_unblock_tasks (\<lambda>_. False) s1 = Inr s2 \<and> 4 \<in> set (m_runanble_list s2)
    \<and> resume_get_message s2 4 [0, 0] 2 = Inr ((2, [10, 20], 2), s3)"
proof -
  obtain s1 where s1: "syscall_send_message waiting_machine 2 4 [10, 20] 2 = Inr (E_OK, s1)" "sched_ok s1"
    "\<And>s2. try_unblock_tasks (\<lambda>_. False) s1 = Inr s2 \<Longrightarrow> 4 \<in> set (m_runanble_list s2)
      \<and> (\<exists>s3. resume_get_message s2 4 [0, 0] 2 = Inr ((2, [10, 20], 2), s3))"
    using message_wakes_receiver [OF waiting_machine_ok, of 4 _ 2 "[10, 20]" "[0, 0]" "\<lambda>_. False" 2]
    by (auto simp: waiting_machine_def blocker_of_def fresh_proc_def)
  obtain y where y: "m_blocked_list s1 = [4]" "procs s1 4 = Some y" "p_state y = Blocked" "p_messages y \<noteq> []"
    "p_blocker y = Some (PendingMessageBlocker 4)" "m_runanble_list s1 = [3]"
    using s1(1) send_message_ok [OF waiting_machine_ok, of 4 2 "[10, 20]" 2]
    by (auto simp: waiting_machine_def small_machine_def fresh_proc_def)
  have "\<exists>s2. try_unblock_tasks (\<lambda>_. False) s1 = Inr s2"
    using y by (simp add: try_unblock_tasks_def get_proc_def message_can_unblock_def get_process_iff has_pending_message_def
        push_back_def Let_def)
  then show ?thesis using s1 by blast
qed

text \<open>
  Messages are received in the order they were sent: after any sequence of messages has
  been put into an empty queue, taking as many out gives the same messages in the same order,
  each with its sender.
\<close>

theorem messages_in_order:
  assumes "p_messages x = []" "length axs \<le> 10000"
  shows "\<exists>x'. fill enq_message axs x = Inr x' \<and> drain deq_message (length axs) x' = Inr (map snd axs)"
  by (rule messages.fill_drain) (simp_all add: assms)

theorem messages_in_order_witness:
  "\<exists>x'. fill enq_message [(0, \<lparr>msg_pid = 4, msg_data = [1, 2]\<rparr>), (0, \<lparr>msg_pid = 7, msg_data = []\<rparr>)]
      (fresh_proc Running ''gui'') = Inr x'
    \<and> drain deq_message 2 x' = Inr [\<lparr>msg_pid = 4, msg_data = [1, 2]\<rparr>, \<lparr>msg_pid = 7, msg_data = []\<rparr>]"
  using messages_in_order [of "fresh_proc Running ''gui''"
      "[(0, \<lparr>msg_pid = 4, msg_data = [1, 2]\<rparr>), (0, \<lparr>msg_pid = 7, msg_data = []\<rparr>)]"]
  by (simp add: fresh_proc_def numeral_2_eq_2)

text \<open>
  The registry of shared memory: a name that is free is registered and found again with
  the owner, address and size it was given, a name that is taken is refused, and no other name
  is affected.
\<close>

theorem shared_memory_registry:
  assumes "register_shm es guid pid addr sz = (ok, es')"
  shows "ok = (shm_get es guid = None)
    \<and> (if ok then shm_get es' guid = Some \<lparr>shm_guid = guid, shm_pid = pid, shm_virt_addr = addr, shm_size = sz\<rparr>
       else es' = es)
    \<and> (\<forall>g. g \<noteq> guid \<longrightarrow> shm_get es' g = shm_get es g)"
  using assms by (auto simp: register_shm_def shm_get_append split: if_splits)

theorem shared_memory_registry_witness:
  "shm_get (snd (register_shm [] 7 2 4096 8192)) 7
    = Some \<lparr>shm_guid = 7, shm_pid = 2, shm_virt_addr = 4096, shm_size = 8192\<rparr>"
  using shared_memory_registry [of "[]" 7 2 4096 8192 True "[\<lparr>shm_guid = 7, shm_pid = 2, shm_virt_addr = 4096, shm_size = 8192\<rparr>]"]
  by (simp add: register_shm_def)

end
