(* ===== verification/Bits_Math.thy ===== *)
theory Bits_Math
  imports Prelude "HOL-Library.Signed_Division"
begin

text \<open>
  The arithmetic helpers of the C library: the bit helpers of \<^verbatim>\<open>libc/bits.h\<close>, the unsigned
  helpers of \<^verbatim>\<open>libc/Math.cpp\<close> and the 64-bit division routines of \<^verbatim>\<open>libc/stdio.cpp\<close>.
\<close>

unbundle bit_operations_syntax

section \<open>Bits\<close>

definition set_bit_in :: "'a::len word \<Rightarrow> nat \<Rightarrow> bool \<Rightarrow> 'a word" where
  "set_bit_in num b val = (if val then num OR push_bit b 1 else num AND NOT (push_bit b 1))"

definition get_bit :: "'a::len word \<Rightarrow> nat \<Rightarrow> bool" where
  "get_bit num b \<longleftrightarrow> num AND push_bit b 1 \<noteq> 0"

function get_on_bit_idx_loop :: "nat \<Rightarrow> u32 \<Rightarrow> int" where
  "get_on_bit_idx_loop i num =
     (if i < 32 then
        (if num AND 1 \<noteq> 0 then int i else get_on_bit_idx_loop (Suc i) (drop_bit 1 num))
      else -1)"
  by pat_completeness auto
termination
  by (relation "measure (\<lambda>(i, num). 32 - i)") auto

definition get_on_bit_idx :: "u32 \<Rightarrow> int" where
  "get_on_bit_idx num = (if num = 0 then -1 else get_on_bit_idx_loop 0 num)"

function get_on_bit_idx_consecutive_loop :: "u32 \<Rightarrow> nat \<Rightarrow> u32 \<Rightarrow> int" where
  "get_on_bit_idx_consecutive_loop msk i num =
     (if i < 32 then
        (if num AND msk = msk then int i
         else get_on_bit_idx_consecutive_loop msk (Suc i) (drop_bit 1 num))
      else -1)"
  by pat_completeness auto
termination
  by (relation "measure (\<lambda>(msk, i, num). 32 - i)") auto

definition get_on_bit_idx_consecutive :: "u32 \<Rightarrow> u32 \<Rightarrow> int" where
  "get_on_bit_idx_consecutive num num_consecutive =
     (if num = 0 then -1
      else if 32 \<le> num_consecutive \<or> num_consecutive = 0 then -1
      else get_on_bit_idx_consecutive_loop
             (drop_bit (32 - unat num_consecutive) 0xFFFFFFFF) 0 num)"

definition LSB :: "u32 \<Rightarrow> u32" where
  "LSB x = x AND 0xFF"

definition MSB :: "u32 \<Rightarrow> u32" where
  "MSB x = drop_bit 8 x AND 0xFF"

definition to_flipped_endianness :: "u16 \<Rightarrow> u16" where
  "to_flipped_endianness value = push_bit 8 (value AND 0x00FF) OR drop_bit 8 value"

section \<open>Unsigned helpers\<close>

definition math_min :: "u32 \<Rightarrow> u32 \<Rightarrow> u32" where
  "math_min x y = (if x < y then x else y)"

definition div_ceil :: "u32 \<Rightarrow> u32 \<Rightarrow> u32 result" where
  "div_ceil e d =
     (if d = 0 then Inl DivideError
      else let leftover = e mod d; floor = e div d
           in Inr (if leftover = 0 then floor else floor + 1))"

definition round_up :: "u32 \<Rightarrow> u32 \<Rightarrow> u32 result" where
  "round_up val m =
     (if m = 0 then Inl DivideError
      else if val mod m = 0 then Inr val
      else Inr (val + (m - val mod m)))"

definition math_clamp :: "int \<Rightarrow> int \<Rightarrow> int \<Rightarrow> int" where
  "math_clamp val mn mx =
     (let val1 = (if val < mn then mn else val)
      in if val1 > mx then mx else val1)"

section \<open>64-bit division\<close>

text \<open>
  \<open>udiv_justify\<close> is the loop that shifts the denominator left until its top bit is set;
  it does not end on 0, which the routine tests first.
\<close>

partial_function (option) udiv_justify :: "u64 \<Rightarrow> u64 \<Rightarrow> (u64 \<times> u64) option" where
  "udiv_justify den qbit =
     (if 0 \<le> sint den then udiv_justify (push_bit 1 den) (push_bit 1 qbit)
      else Some (den, qbit))"

function udiv_loop :: "u64 \<Rightarrow> u64 \<Rightarrow> u64 \<Rightarrow> u64 \<Rightarrow> u64 \<times> u64" where
  "udiv_loop num den qbit quot =
     (if qbit = 0 then (quot, num)
      else if den \<le> num
           then udiv_loop (num - den) (drop_bit 1 den) (drop_bit 1 qbit) (quot + qbit)
           else udiv_loop num (drop_bit 1 den) (drop_bit 1 qbit) quot)"
  by pat_completeness auto
termination
proof (relation "measure (\<lambda>(num, den, qbit, quot). unat qbit)")
  fix num den qbit quot :: u64
  assume "qbit \<noteq> 0"
  then have "0 < unat qbit" by (simp add: unat_gt_0)
  then show "((num - den, drop_bit 1 den, drop_bit 1 qbit, quot + qbit), num, den, qbit, quot)
      \<in> measure (\<lambda>(num, den, qbit, quot). unat qbit)"
    and "((num, drop_bit 1 den, drop_bit 1 qbit, quot), num, den, qbit, quot)
      \<in> measure (\<lambda>(num, den, qbit, quot). unat qbit)"
    by (simp_all add: drop_bit_Suc unat_div)
qed simp

text \<open>The result pairs the quotient with what is stored through \<open>rem_p\<close>.\<close>

definition udivmoddi4 :: "u64 \<Rightarrow> u64 \<Rightarrow> (u64 \<times> u64) result" where
  "udivmoddi4 num den =
     (if den = 0 then Inl DivideError
      else case udiv_justify den 1 of
             None \<Rightarrow> Inl Diverges
           | Some (den', qbit) \<Rightarrow> Inr (udiv_loop num den' qbit 0))"

definition divdi3 :: "u64 \<Rightarrow> u64 \<Rightarrow> u64 result" where
  "divdi3 a b =
     (let s_a = signed_drop_bit 63 a;
          s_b = signed_drop_bit 63 b;
          a' = (a XOR s_a) - s_a;
          b' = (b XOR s_b) - s_b;
          s = s_a XOR s_b
      in rbind (udivmoddi4 a' b') (\<lambda>(q, r). Inr ((q XOR s) - s)))"

declare get_on_bit_idx_loop.simps [simp del]
  get_on_bit_idx_consecutive_loop.simps [simp del] udiv_loop.simps [simp del]

section \<open>Facts\<close>

lemma get_bit_iff [simp]: "get_bit w n \<longleftrightarrow> bit w n"
  unfolding get_bit_def by (simp add: bit_iff_and_push_bit_not_eq_0)

lemma bit_set_bit_in:
  "bit (set_bit_in w b v) n \<longleftrightarrow> (if n = b \<and> b < LENGTH('a) then v else bit w n)"
  for w :: "'a::len word"
  by (auto simp: set_bit_in_def bit_simps dest: bit_imp_le_length)

lemma and_1_neq_0_iff: "w AND 1 \<noteq> 0 \<longleftrightarrow> bit w 0" for w :: "'a::len word"
  by (simp add: and_one_eq bit_0 odd_iff_mod_2_eq_one)

text \<open>
  Both scanning loops shift the number right by one at each turn; started on the number
  shifted by \<open>i\<close> they return the first index from \<open>i\<close> on where the test holds.
\<close>

definition first_index_from :: "nat \<Rightarrow> (nat \<Rightarrow> bool) \<Rightarrow> int \<Rightarrow> bool" where
  "first_index_from i P r \<longleftrightarrow>
     (\<exists>k. i \<le> k \<and> k < 32 \<and> r = int k \<and> P k \<and> (\<forall>j. i \<le> j \<and> j < k \<longrightarrow> \<not> P j))
     \<or> (r = -1 \<and> (\<forall>k. i \<le> k \<and> k < 32 \<longrightarrow> \<not> P k))"

lemma first_index_from_stop: "32 \<le> i \<Longrightarrow> first_index_from i P (-1)"
  by (auto simp: first_index_from_def)

lemma first_index_from_hit: "i < 32 \<Longrightarrow> P i \<Longrightarrow> first_index_from i P (int i)"
  by (auto simp: first_index_from_def)

lemma first_index_from_skip:
  "\<not> P i \<Longrightarrow> first_index_from (Suc i) P r \<Longrightarrow> first_index_from i P r"
  unfolding first_index_from_def by (metis Suc_leD Suc_leI le_neq_implies_less)

lemma first_index_from_unique:
  "first_index_from i P r \<Longrightarrow> first_index_from i P r' \<Longrightarrow> r = r'"
  unfolding first_index_from_def by (metis linorder_neqE_nat)

lemma get_on_bit_idx_loop_first:
  "first_index_from i (bit num) (get_on_bit_idx_loop i (drop_bit i num))"
proof (induction "32 - i" arbitrary: i)
  case 0
  then show ?case by (simp add: get_on_bit_idx_loop.simps [of i] first_index_from_stop)
next
  case (Suc n)
  then have i: "i < 32" and IH: "first_index_from (Suc i) (bit num)
      (get_on_bit_idx_loop (Suc i) (drop_bit (Suc i) num))" by simp_all
  have "drop_bit i num AND 1 \<noteq> 0 \<longleftrightarrow> bit num i"
    by (subst and_1_neq_0_iff) (simp add: bit_drop_bit_eq)
  then show ?case
    using i IH by (cases "bit num i")
      (simp_all add: get_on_bit_idx_loop.simps [of i] first_index_from_hit first_index_from_skip)
qed

lemma and_low_ones_iff:
  "n \<le> 32 \<Longrightarrow> num AND drop_bit (32 - n) (0xFFFFFFFF :: u32) = drop_bit (32 - n) 0xFFFFFFFF \<longleftrightarrow>
     (\<forall>j<n. bit num j)" for num :: u32
proof -
  assume n: "n \<le> 32"
  have all_ones: "(0xFFFFFFFF :: u32) = - 1" by simp
  have "bit (drop_bit (32 - n) (0xFFFFFFFF :: u32)) j \<longleftrightarrow> j < n" for j
    unfolding all_ones using n by (auto simp: bit_simps)
  then show ?thesis
    using n by (auto simp: bit_eq_iff bit_and_iff) (meson less_le_trans)
qed

lemma get_on_bit_idx_consecutive_loop_first:
  assumes n: "n \<le> 32"
  shows "first_index_from i (\<lambda>k. \<forall>j<n. bit num (k + j))
    (get_on_bit_idx_consecutive_loop (drop_bit (32 - n) 0xFFFFFFFF) i (drop_bit i num))"
proof (induction "32 - i" arbitrary: i)
  case 0
  then show ?case by (simp add: get_on_bit_idx_consecutive_loop.simps [of _ i] first_index_from_stop)
next
  case (Suc m)
  let ?msk = "drop_bit (32 - n) (0xFFFFFFFF :: u32)"
  let ?P = "\<lambda>k. \<forall>j<n. bit num (k + j)"
  from Suc have i: "i < 32" and IH: "first_index_from (Suc i) ?P
      (get_on_bit_idx_consecutive_loop ?msk (Suc i) (drop_bit (Suc i) num))" by simp_all
  have "drop_bit i num AND ?msk = ?msk \<longleftrightarrow> ?P i"
    by (subst and_low_ones_iff [OF n]) (simp add: bit_drop_bit_eq)
  then show ?case
    using i IH first_index_from_hit [of i ?P] first_index_from_skip [of ?P i]
    by (cases "?P i")
      (simp_all add: get_on_bit_idx_consecutive_loop.simps [of _ i])
qed

lemma get_on_bit_idx_first: "first_index_from 0 (bit num) (get_on_bit_idx num)"
  using get_on_bit_idx_loop_first [of 0 num]
  by (auto simp: get_on_bit_idx_def first_index_from_def)

lemma get_on_bit_idx_hit:
  "get_on_bit_idx num = int k \<Longrightarrow> k < 32 \<and> bit num k"
  using get_on_bit_idx_first [of num] by (auto simp: first_index_from_def)

lemma get_on_bit_idx_nonneg: "0 \<le> get_on_bit_idx num \<longleftrightarrow> num \<noteq> 0"
proof -
  have "num \<noteq> 0 \<longleftrightarrow> (\<exists>k<32. bit num k)"
    by (auto simp: bit_eq_iff dest: bit_imp_le_length)
  then show ?thesis
    using get_on_bit_idx_first [of num] by (auto simp: first_index_from_def)
qed

lemma to_flipped_endianness_involution [simp]:
  "to_flipped_endianness (to_flipped_endianness w) = w"
  by (rule bit_word_eqI) (auto simp: to_flipped_endianness_def word_and_0xFF bit_simps)


section \<open>The division routine divides\<close>

lemma sint_nonneg_iff_u64: "0 \<le> sint w \<longleftrightarrow> unat w < 2 ^ 63" for w :: u64
proof -
  have "bit w 63 \<longleftrightarrow> sint w < 0"
    using bit_last_iff [of w] by simp
  moreover have "bit w 63 \<longleftrightarrow> 2 ^ 63 \<le> unat w"
  proof -
    have "unat w < 2 * 2 ^ 63" by simp
    then have "unat w div 2 ^ 63 < 2" by (rule less_mult_imp_div_less)
    moreover have "odd n \<longleftrightarrow> n \<noteq> 0" if "n < 2" for n :: nat using that by presburger
    ultimately have "odd (unat w div 2 ^ 63) \<longleftrightarrow> unat w div 2 ^ 63 \<noteq> 0" by blast
    also have "\<dots> \<longleftrightarrow> 2 ^ 63 \<le> unat w" by (simp add: div_eq_0_iff linorder_not_less)
    finally have "odd (unat w div 2 ^ 63) \<longleftrightarrow> 2 ^ 63 \<le> unat w" .
    moreover have "bit w 63 \<longleftrightarrow> bit (unat w) 63" by (simp add: bit_unsigned_iff)
    ultimately show ?thesis by (simp only: bit_iff_odd)
  qed
  ultimately show ?thesis by linarith
qed

lemma unat_push_bit_1_u64:
  "2 * unat w < 2 ^ 64 \<Longrightarrow> unat (push_bit 1 w) = 2 * unat w" for w :: u64
  by (simp add: push_bit_eq_mult unat_word_ariths mult.commute)

lemma unat_drop_bit_1_u64: "unat (drop_bit 1 w) = unat w div 2" for w :: u64
  by (simp add: drop_bit_eq_div unat_div)

lemma udiv_justify_returns:
  assumes "0 < d" "unat den = d * 2 ^ k" "unat qbit = 2 ^ k"
  shows "\<exists>den' qbit' j. udiv_justify den qbit = Some (den', qbit') \<and> unat den' = d * 2 ^ j
    \<and> unat qbit' = 2 ^ j \<and> 2 ^ 63 \<le> unat den'"
  using assms
proof (induction "2 ^ 64 - unat den" arbitrary: den qbit k rule: less_induct)
  case less
  show ?case
  proof (cases "0 \<le> sint den")
    case False
    with less.prems show ?thesis
      by (auto simp: udiv_justify.simps sint_nonneg_iff_u64 intro!: exI [of _ k])
  next
    case True
    then have lt: "unat den < 2 ^ 63" by (simp add: sint_nonneg_iff_u64)
    have "unat qbit \<le> unat den" using less.prems by simp
    with lt have ltq: "2 * unat qbit < 2 ^ 64" by simp
    have den: "unat (push_bit 1 den) = d * 2 ^ Suc k"
      using unat_push_bit_1_u64 [of den] lt less.prems by simp
    have qbit: "unat (push_bit 1 qbit) = 2 ^ Suc k"
      using unat_push_bit_1_u64 [OF ltq] less.prems(3) by simp
    have "2 ^ 64 - unat (push_bit 1 den) < 2 ^ 64 - unat den"
      using lt den less.prems by (intro diff_less_mono2) simp_all
    from less.hyps [OF this less.prems(1) den qbit] True show ?thesis
      by (simp add: udiv_justify.simps [of den qbit])
  qed
qed

lemma udiv_loop_correct:
  assumes "0 < d" "unat den = d * 2 ^ j" "unat qbit = 2 ^ j" "unat num < 2 * unat den"
    "unat quot + unat num div d < 2 ^ 64"
  shows "\<exists>q r. udiv_loop num den qbit quot = (q, r) \<and> unat q = unat quot + unat num div d
    \<and> unat r = unat num mod d"
  using assms
proof (induction j arbitrary: num den qbit quot)
  case 0
  then have "qbit = 1" by (simp add: word_unat_eq_iff)
  have step: "udiv_loop num den qbit quot =
     (if den \<le> num then (quot + qbit, num - den) else (quot, num))"
    using \<open>qbit = 1\<close> by (simp add: udiv_loop.simps)
  show ?case
  proof (cases "den \<le> num")
    case True
    then have "d \<le> unat num" and nd: "unat (num - den) = unat num - d"
      using 0 by (simp_all add: word_le_nat_alt unat_sub)
    then have "unat num div d = Suc ((unat num - d) div d)" and "unat num mod d = (unat num - d) mod d"
      and "unat num - d < d" using 0 by (auto simp: le_div_geq le_mod_geq)
    then show ?thesis
      using True step nd 0 \<open>qbit = 1\<close> by (simp add: unat_word_ariths)
  next
    case False
    then have "unat num < d" using 0 by (simp add: word_le_nat_alt)
    then show ?thesis using False step by simp
  qed
next
  case (Suc j)
  let ?den = "drop_bit 1 den" and ?qbit = "drop_bit 1 qbit"
  have den': "unat ?den = d * 2 ^ j" and qbit': "unat ?qbit = 2 ^ j" and "qbit \<noteq> 0"
    using Suc.prems unat_drop_bit_1_u64 [of den] unat_drop_bit_1_u64 [of qbit] by auto
  show ?case
  proof (cases "den \<le> num")
    case True
    let ?num = "num - den" and ?quot = "quot + qbit"
    have le: "unat den \<le> unat num" using True by (simp add: word_le_nat_alt)
    have n': "unat ?num = unat num - unat den" using True by (simp add: unat_sub)
    have num_eq: "unat num = unat ?num + d * 2 ^ Suc j" using le n' Suc.prems by simp
    have div: "unat num div d = 2 ^ Suc j + unat ?num div d"
      and md: "unat num mod d = unat ?num mod d"
      using Suc.prems(1) unfolding num_eq by simp_all
    have q': "unat ?quot = unat quot + 2 ^ Suc j"
      using Suc.prems div by (simp add: unat_word_ariths)
    have bound: "unat ?num < 2 * unat ?den"
      using n' le Suc.prems den' by simp
    have "unat ?quot + unat ?num div d < 2 ^ 64"
      using Suc.prems div q' by simp
    from Suc.IH [OF Suc.prems(1) den' qbit' bound this] True \<open>qbit \<noteq> 0\<close> q' div md
    show ?thesis by (auto simp: udiv_loop.simps [of num])
  next
    case False
    then have bound: "unat num < 2 * unat ?den"
      using Suc.prems den' by (simp add: word_le_nat_alt)
    from Suc.IH [OF Suc.prems(1) den' qbit' bound Suc.prems(5)] False \<open>qbit \<noteq> 0\<close>
    show ?thesis by (auto simp: udiv_loop.simps [of num])
  qed
qed

lemma udivmoddi4_correct:
  assumes "den \<noteq> 0"
  shows "udivmoddi4 num den = Inr (num div den, num mod den)"
proof -
  have pos: "0 < unat den" using assms by (simp add: unat_gt_0)
  obtain den' qbit j where j: "udiv_justify den 1 = Some (den', qbit)" "unat den' = unat den * 2 ^ j"
    "unat qbit = 2 ^ j" "2 ^ 63 \<le> unat den'"
    using udiv_justify_returns [OF pos, of den 0 1] by fastforce
  have "unat num < 2 * unat den'" using j(4) by (intro less_le_trans [OF unat_u64_less]) simp
  moreover have "unat (0 :: u64) + unat num div unat den < 2 ^ 64"
    using le_less_trans [OF div_le_dividend unat_u64_less [of num]] by simp
  ultimately obtain q r where "udiv_loop num den' qbit 0 = (q, r)"
    "unat q = unat num div unat den" "unat r = unat num mod unat den"
    using udiv_loop_correct [OF pos j(2,3), of num 0] by auto
  then show ?thesis
    using assms j(1) by (simp add: udivmoddi4_def unat_div unat_mod word_unat_eq_iff)
qed

text \<open>The sign masks make the absolute values, and put the sign back.\<close>

lemma signed_drop_bit_63: "signed_drop_bit 63 w = (if sint w < 0 then - 1 else 0)" for w :: u64
proof (rule bit_word_eqI)
  fix n :: nat
  assume "n < LENGTH(64)"
  then show "bit (signed_drop_bit 63 w) n = bit (if sint w < 0 then - 1 else 0 :: u64) n"
    using bit_last_iff [of w] by (cases "n = 0") (auto simp: bit_simps)
qed

lemma sign_mask_xor_sub: "(w XOR s) - s = (if s = 0 then w else - w)" if "s = 0 \<or> s = - 1" for w :: u64
  using that by (auto simp: not_eq_complement)


lemma sdiv_abs: "a sdiv b = sgn a * sgn b * (\<bar>a\<bar> div \<bar>b\<bar>)" for a b :: int
  by (simp add: signed_divide_int_def)

text \<open>Facts about \<open>divdi3\<close>: the negated word of a negative value is its absolute value.\<close>

lemma uint_abs_u64:
  "uint (if sint w < 0 then - w else w) = \<bar>sint w\<bar>" for w :: u64
proof -
  have bnd: "- (2 ^ 63) \<le> sint w" "sint w < 2 ^ 63"
    using sint_greater_eq [of w] sint_less [of w] by simp_all
  have "- w = word_of_int (- sint w)" and "w = word_of_int (sint w)" by simp_all
  then have "uint (- w) = (- sint w) mod 2 ^ 64" and "uint w = sint w mod 2 ^ 64"
    using uint_word_of_int [of "- sint w", where 'a = 64] uint_word_of_int [of "sint w", where 'a = 64]
    by simp_all
  then show ?thesis using bnd by (simp add: abs_if)
qed

lemma divdi3_correct:
  assumes "b \<noteq> 0"
  shows "divdi3 a b = Inr (word_of_int (sint a sdiv sint b))"
proof -
  let ?abs = "\<lambda>w :: u64. if sint w < 0 then - w else w"
  have nz: "?abs b \<noteq> 0" using assms by auto
  have q: "?abs a div ?abs b = word_of_int (\<bar>sint a\<bar> div \<bar>sint b\<bar>)"
    by (simp add: word_div_def uint_abs_u64)
  have "divdi3 a b = Inr (if (sint a < 0) = (sint b < 0) then ?abs a div ?abs b
      else - (?abs a div ?abs b))"
    using nz by (auto simp: divdi3_def Let_def signed_drop_bit_63 sign_mask_xor_sub udivmoddi4_correct)
  also have "\<dots> = Inr (word_of_int (sint a sdiv sint b))"
    unfolding q sdiv_abs by (auto simp: sgn_if)
  finally show ?thesis .
qed

section \<open>What the helpers promise\<close>

lemma get_on_bit_idx_consecutive_first:
  assumes "0 < n" "n < 32"
  shows "first_index_from 0 (\<lambda>k. \<forall>j<n. bit num (k + j)) (get_on_bit_idx_consecutive num (word_of_nat n))"
proof -
  have n: "unat (word_of_nat n :: u32) = n" using assms by (simp add: unat_of_nat)
  have small: "\<not> (32 :: u32) \<le> word_of_nat n" using assms n by (simp add: word_le_nat_alt)
  have pos: "(word_of_nat n :: u32) \<noteq> 0" using assms n by (metis less_irrefl unat_0)
  show ?thesis
  proof (cases "num = 0")
    case True
    then show ?thesis
      using assms by (auto simp: get_on_bit_idx_consecutive_def first_index_from_def)
  next
    case False
    then show ?thesis
      using get_on_bit_idx_consecutive_loop_first [of n 0 num] assms n small pos
      by (simp add: get_on_bit_idx_consecutive_def)
  qed
qed

text \<open>
  The two scans that the frame bitmap and the allocators rely on return the first index
  at which the word has a set bit, respectively a run of \<open>n\<close> set bits that fits the word,
  and -1 exactly when there is none.
\<close>

theorem bit_scans_find_first:
  assumes "0 < n" "n < 32"
  shows "first_index_from 0 (bit num) (get_on_bit_idx num)
    \<and> first_index_from 0 (\<lambda>k. \<forall>j<n. bit num (k + j)) (get_on_bit_idx_consecutive num (word_of_nat n))
    \<and> (get_on_bit_idx num = -1 \<longleftrightarrow> num = 0)"
  using get_on_bit_idx_first [of num] get_on_bit_idx_consecutive_first [OF assms, of num]
    get_on_bit_idx_nonneg [of num] by (auto simp: get_on_bit_idx_def)

theorem bit_scans_find_first_witness:
  "first_index_from 0 (\<lambda>k. \<forall>j<2. bit (13 :: u32) (k + j)) (get_on_bit_idx_consecutive 13 2)"
  using bit_scans_find_first [of 2 13] by simp

text \<open>
  C40: the 64-bit division routines return for every pair of operands: the unsigned one the
  quotient and the remainder, the signed one the quotient truncated towards zero as a 64-bit
  value, and both trap on a zero divisor.
\<close>

theorem division_routines_divide:
  assumes "b \<noteq> 0"
  shows "udivmoddi4 a b = Inr (a div b, a mod b)
    \<and> divdi3 a b = Inr (word_of_int (sint a sdiv sint b))
    \<and> udivmoddi4 a 0 = Inl DivideError \<and> divdi3 a 0 = Inl DivideError"
  using udivmoddi4_correct [OF assms] divdi3_correct [OF assms]
  by (simp add: udivmoddi4_def divdi3_def Let_def)

theorem division_routines_divide_witness:
  "udivmoddi4 17 5 = Inr (3, 2) \<and> divdi3 (- 17) 5 = Inr (- 3)"
  using division_routines_divide [of 5 17] division_routines_divide [of 5 "- 17"]
  by (simp add: signed_divide_int_def)

end
