(* ===== verification/Memory_Manager.thy ===== *)
theory Memory_Manager
  imports Bits_Math
begin

text \<open>
  The memory manager of \<^verbatim>\<open>kernel/MM\<close>: the bitmap of free physical frames, the two-level page
  tables of the processor and the operations that map, unmap and duplicate pages and clone
  page directories. Physical memory is a store of 32-bit words, by frame and by position in
  the frame; the code reaches page tables through virtual addresses, so every access goes
  through the translation \<open>xlate\<close> of the memory management unit, and a missing page is a
  \<open>BadAccess\<close>. The processor's cache of translations is not modelled, \<^verbatim>\<open>flush_tlb\<close> has no
  effect here; the kernel runs without the \<^verbatim>\<open>WP\<close> bit of \<^verbatim>\<open>CR0\<close>, so the kernel's writes do not
  check the write flag.
\<close>

section \<open>Frames and page table entries\<close>

abbreviation MB :: u32 where "MB \<equiv> 1024 * 1024"
abbreviation N_FRAME_BITMAP_ENTRIES :: nat where "N_FRAME_BITMAP_ENTRIES \<equiv> 32767"
abbreviation NUM_PAGE_DIRECTORY_ENTRIES :: nat where "NUM_PAGE_DIRECTORY_ENTRIES \<equiv> 1024"
abbreviation USERSPACE_START :: u32 where "USERSPACE_START \<equiv> 0x400000"
abbreviation KERNELSPACE_START :: u32 where "KERNELSPACE_START \<equiv> 0xC0000000"
abbreviation IDENTITY_MAP_END :: u32 where "IDENTITY_MAP_END \<equiv> 0x400000"
abbreviation PDE_MAP_SIZE :: u32 where "PDE_MAP_SIZE \<equiv> 0x400000"
abbreviation TEMPMAP_ADDR :: u32 where "TEMPMAP_ADDR \<equiv> 0x3FF000"
abbreviation BIG_BUFFER_START :: u32 where "BIG_BUFFER_START \<equiv> 0xCA000000"
abbreviation BIG_BUFFER_END :: u32 where "BIG_BUFFER_END \<equiv> 0xCFFFE000"
abbreviation PAGE_DIRECTORY_ALLOCATION_END :: u32 where "PAGE_DIRECTORY_ALLOCATION_END \<equiv> 0x3FF000"

definition is_frame_aligned :: "u32 \<Rightarrow> bool" where
  "is_frame_aligned a \<longleftrightarrow> a mod PAGE_SIZE = 0"

definition Frame :: "u32 \<Rightarrow> u32 result" where
  "Frame a = rbind (assert_that (is_frame_aligned a)) (\<lambda>_. Inr a)"

definition get_bitmap_entry :: "u32 \<Rightarrow> nat \<times> nat" where
  "get_bitmap_entry a = (unat (a div PAGE_SIZE) div 32, unat (a div PAGE_SIZE) mod 32)"

definition from_bitmap_entry :: "u32 \<Rightarrow> u32 \<Rightarrow> u32 result" where
  "from_bitmap_entry entry_idx entry_bit = Frame (entry_idx * 32 * PAGE_SIZE + entry_bit * PAGE_SIZE)"

definition te_flags :: "u32 \<Rightarrow> u16" where
  "te_flags e = ucast (e AND 0xFFF)"

definition te_addr :: "u32 \<Rightarrow> u32" where
  "te_addr e = e AND NOT 0xFFF"

definition te_set_addr :: "u32 \<Rightarrow> u32 \<Rightarrow> u32" where
  "te_set_addr a e = (e AND 0xFFF) OR a"

definition te_set_flags :: "u16 \<Rightarrow> u32 \<Rightarrow> u32" where
  "te_set_flags f e = (e AND NOT 0xFFF) OR ucast f"

definition is_present :: "u32 \<Rightarrow> bool" where
  "is_present e \<longleftrightarrow> te_flags e AND 1 \<noteq> 0"

definition is_writable :: "u32 \<Rightarrow> bool" where
  "is_writable e \<longleftrightarrow> te_flags e AND push_bit 1 1 \<noteq> 0"

definition is_user_allowed :: "u32 \<Rightarrow> bool" where
  "is_user_allowed e \<longleftrightarrow> te_flags e AND push_bit 2 1 \<noteq> 0"

definition te_set_present :: "bool \<Rightarrow> u32 \<Rightarrow> u32" where
  "te_set_present v e = te_set_flags (set_bit_in (te_flags e) 0 v) e"

definition te_set_writable :: "bool \<Rightarrow> u32 \<Rightarrow> u32" where
  "te_set_writable v e = te_set_flags (set_bit_in (te_flags e) 1 v) e"

definition te_set_user_allowed :: "bool \<Rightarrow> u32 \<Rightarrow> u32" where
  "te_set_user_allowed v e = te_set_flags (set_bit_in (te_flags e) 2 v) e"

definition PageDirectory_get_index :: "u32 \<Rightarrow> u32" where
  "PageDirectory_get_index a = drop_bit 22 a AND 0x3FF"

definition PageTable_get_index :: "u32 \<Rightarrow> u32" where
  "PageTable_get_index a = drop_bit 12 a AND 0x3FF"

definition address_in_user_space :: "u32 \<Rightarrow> bool" where
  "address_in_user_space a \<longleftrightarrow> a \<ge> USERSPACE_START \<and> a < KERNELSPACE_START"

definition address_in_kernel_space :: "u32 \<Rightarrow> bool" where
  "address_in_kernel_space a \<longleftrightarrow> a < USERSPACE_START \<or> a \<ge> KERNELSPACE_START"

section \<open>The machine and the manager's state\<close>

type_synonym page = "u32 \<Rightarrow> u32"

record mm =
  phys :: "u32 \<Rightarrow> page"
  cr3 :: u32
  m_frames_avail_bitmap :: "nat \<Rightarrow> u32"
  m_page_directory :: u32
  m_tempmap_used :: bool
  m_kernel_PDEs_locked :: bool
  next_page_directory_allocation :: u32

text \<open>The processor's translation of a virtual address: the frame and the word in it.\<close>

definition word_index :: "u32 \<Rightarrow> u32" where
  "word_index a = drop_bit 2 (a AND 0xFFF)"

definition xlate :: "mm \<Rightarrow> u32 \<Rightarrow> (u32 \<times> u32) result" where
  "xlate m a =
     (let pde = phys m (te_addr (cr3 m)) (PageDirectory_get_index a)
      in if \<not> is_present pde then Inl BadAccess
         else let pte = phys m (te_addr pde) (PageTable_get_index a)
              in if \<not> is_present pte then Inl BadAccess
                 else Inr (te_addr pte, word_index a))"

definition poke :: "u32 \<Rightarrow> u32 \<Rightarrow> u32 \<Rightarrow> mm \<Rightarrow> mm" where
  "poke f w v m = m\<lparr>phys := (phys m)(f := (phys m f)(w := v))\<rparr>"

definition vread :: "mm \<Rightarrow> u32 \<Rightarrow> u32 result" where
  "vread m a = rbind (xlate m a) (\<lambda>(f, w). Inr (phys m f w))"

definition vwrite :: "u32 \<Rightarrow> u32 \<Rightarrow> mm \<Rightarrow> mm result" where
  "vwrite a v m = rbind (xlate m a) (\<lambda>(f, w). Inr (poke f w v m))"

text \<open>
  A \<^verbatim>\<open>PDE\<close> or \<^verbatim>\<open>PTE\<close> is a reference to a word in memory, here its virtual address; every setter
  reads the word and writes it back.
\<close>

definition update_entry :: "u32 \<Rightarrow> (u32 \<Rightarrow> u32) \<Rightarrow> mm \<Rightarrow> mm result" where
  "update_entry a f m = rbind (vread m a) (\<lambda>e. vwrite a (f e) m)"

definition set_mapping :: "u32 \<Rightarrow> u32 \<Rightarrow> bool \<Rightarrow> bool \<Rightarrow> bool \<Rightarrow> mm \<Rightarrow> mm result" where
  "set_mapping ref a present writable user m =
     rbind (update_entry ref (te_set_addr a) m) (\<lambda>m1.
     rbind (update_entry ref (te_set_present present) m1) (\<lambda>m2.
     rbind (update_entry ref (te_set_writable writable) m2) (\<lambda>m3.
       update_entry ref (te_set_user_allowed user) m3)))"

text \<open>\<^verbatim>\<open>memset\<close> and \<^verbatim>\<open>memcpy\<close> of a whole page at a page-aligned virtual address.\<close>

definition write_page :: "u32 \<Rightarrow> page \<Rightarrow> mm \<Rightarrow> mm result" where
  "write_page a p m = rbind (xlate m a) (\<lambda>(f, _). Inr (m\<lparr>phys := (phys m)(f := p)\<rparr>))"

definition read_page :: "mm \<Rightarrow> u32 \<Rightarrow> page result" where
  "read_page m a = rbind (xlate m a) (\<lambda>(f, _). Inr (phys m f))"

definition get_pde :: "u32 \<Rightarrow> u32 \<Rightarrow> u32 result" where
  "get_pde dir a =
     rbind (assert_that (unat (PageDirectory_get_index a) < NUM_PAGE_DIRECTORY_ENTRIES)) (\<lambda>_.
       Inr (dir + 4 * PageDirectory_get_index a))"

definition get_pte :: "u32 \<Rightarrow> u32 \<Rightarrow> u32 result" where
  "get_pte tbl a =
     rbind (assert_that (unat (PageTable_get_index a) < 1024)) (\<lambda>_.
       Inr (tbl + 4 * PageTable_get_index a))"

section \<open>The bitmap of free frames\<close>

definition set_frame :: "mm \<Rightarrow> u32 \<Rightarrow> bool \<Rightarrow> mm result" where
  "set_frame m frame val =
     (let (i, b) = get_bitmap_entry frame
      in if i < N_FRAME_BITMAP_ENTRIES
         then Inr (m\<lparr>m_frames_avail_bitmap :=
                (m_frames_avail_bitmap m)(i := set_bit_in (m_frames_avail_bitmap m i) b val)\<rparr>)
         else Inl BadAccess)"

definition set_frame_used :: "mm \<Rightarrow> u32 \<Rightarrow> mm result" where
  "set_frame_used m frame = set_frame m frame False"

definition set_frame_available :: "mm \<Rightarrow> u32 \<Rightarrow> mm result" where
  "set_frame_available m a = rbind (Frame a) (\<lambda>frame. set_frame m frame True)"

definition is_frame_available :: "mm \<Rightarrow> u32 \<Rightarrow> bool result" where
  "is_frame_available m a =
     rbind (Frame a) (\<lambda>frame.
       let (i, b) = get_bitmap_entry frame
       in if i < N_FRAME_BITMAP_ENTRIES then Inr (get_bit (m_frames_avail_bitmap m i) b) else Inl BadAccess)"

text \<open>The first entry on which a search in the entry succeeds, and the bit found there.\<close>

function scan_bitmap :: "(u32 \<Rightarrow> int) \<Rightarrow> (nat \<Rightarrow> u32) \<Rightarrow> nat \<Rightarrow> (nat \<times> nat) option" where
  "scan_bitmap search bm i =
     (if i < N_FRAME_BITMAP_ENTRIES
      then if bm i = 0 then scan_bitmap search bm (Suc i)
           else if search (bm i) < 0 then scan_bitmap search bm (Suc i)
           else Some (i, nat (search (bm i)))
      else None)"
  by pat_completeness auto
termination by (relation "measure (\<lambda>(_, _, i). N_FRAME_BITMAP_ENTRIES - i)") auto

definition get_free_frame :: "mm \<Rightarrow> bool \<Rightarrow> (u32 option \<times> mm) result" where
  "get_free_frame m set_used =
     (case scan_bitmap get_on_bit_idx (m_frames_avail_bitmap m) 0 of
        None \<Rightarrow> Inr (None, m)
      | Some (i, b) \<Rightarrow>
          rbind (from_bitmap_entry (word_of_nat i) (word_of_nat b)) (\<lambda>frame.
            if set_used then rbind (set_frame_used m frame) (\<lambda>m'. Inr (Some frame, m'))
            else Inr (Some frame, m)))"

definition get_contigous_free_physical_frames :: "mm \<Rightarrow> u32 \<Rightarrow> (u32 option \<times> mm) result" where
  "get_contigous_free_physical_frames m num_pages =
     (case scan_bitmap (\<lambda>e. get_on_bit_idx_consecutive e num_pages) (m_frames_avail_bitmap m) 0 of
        None \<Rightarrow> Inr (None, m)
      | Some (i, b) \<Rightarrow>
          rbind (rfold (\<lambda>page_i m. rbind (from_bitmap_entry (word_of_nat i) (word_of_nat (b + page_i)))
                          (\<lambda>frame. set_frame_used m frame))
                   [0..<unat num_pages] m) (\<lambda>m'.
          rbind (from_bitmap_entry (word_of_nat i) (word_of_nat b)) (\<lambda>frame.
            Inr (Some frame, m'))))"

section \<open>Page tables\<close>

text \<open>
  \<^verbatim>\<open>ensure_pte\<close> and \<^verbatim>\<open>temp_map\<close> call each other; the inner call asks for no temporary mapping,
  so the recursion ends there. \<open>tmap\<close> is the call of \<^verbatim>\<open>temp_map\<close>.
\<close>

definition ensure_pte_with :: "(u32 \<Rightarrow> mm \<Rightarrow> (u32 \<times> mm) result) \<Rightarrow> mm \<Rightarrow> u32 \<Rightarrow> bool \<Rightarrow> bool \<Rightarrow> (u32 \<times> mm) result" where
  "ensure_pte_with tmap m a create_new_PageTable tempMap_pageTable =
     rbind (get_pde (m_page_directory m) a) (\<lambda>pde.
     rbind (vread m pde) (\<lambda>e0.
     rbind (if \<not> is_present e0 \<and> create_new_PageTable
            then rbind (assert_that (\<not> (address_in_kernel_space a \<and> a < BIG_BUFFER_START \<and> a > BIG_BUFFER_END
                                        \<and> m_kernel_PDEs_locked m))) (\<lambda>_.
                 rbind (get_free_frame m True) (\<lambda>(pt_frame, m1).
                   case pt_frame of
                     None \<Rightarrow> Inl AssertionFailed
                   | Some f \<Rightarrow> rbind (set_mapping pde f True True True m1) (\<lambda>m2. Inr (True, m2))))
            else Inr (False, m)) (\<lambda>(new_pagetable, m2).
     rbind (vread m2 pde) (\<lambda>e1.
     rbind (assert_that (is_present e1)) (\<lambda>_.
     rbind (if tempMap_pageTable then tmap (te_addr e1) m2 else Inr (te_addr e1, m2)) (\<lambda>(pt_addr, m3).
     rbind (if new_pagetable then write_page pt_addr (\<lambda>_. 0) m3 else Inr m3) (\<lambda>m4.
     rbind (get_pte pt_addr a) (\<lambda>pte. Inr (pte, m4)))))))))"

definition temp_map :: "u32 \<Rightarrow> mm \<Rightarrow> (u32 \<times> mm) result" where
  "temp_map a m =
     rbind (assert_that (\<not> m_tempmap_used m)) (\<lambda>_.
     rbind (ensure_pte_with (\<lambda>_ _. Inl Diverges) m TEMPMAP_ADDR False False) (\<lambda>(pte, m1).
     rbind (set_mapping pte a True True False m1) (\<lambda>m2.
       Inr (TEMPMAP_ADDR, m2\<lparr>m_tempmap_used := True\<rparr>))))"

definition ensure_pte :: "mm \<Rightarrow> u32 \<Rightarrow> bool \<Rightarrow> bool \<Rightarrow> (u32 \<times> mm) result" where
  "ensure_pte = ensure_pte_with temp_map"

definition un_temp_map :: "mm \<Rightarrow> mm result" where
  "un_temp_map m =
     rbind (ensure_pte m TEMPMAP_ADDR False False) (\<lambda>(pte, m1).
     rbind (set_mapping pte 0 False False False m1) (\<lambda>m2.
       Inr (m2\<lparr>m_tempmap_used := False\<rparr>)))"

definition get_physical_address :: "mm \<Rightarrow> u32 \<Rightarrow> (u32 \<times> mm) result" where
  "get_physical_address m a =
     rbind (get_pde (m_page_directory m) a) (\<lambda>pde.
     rbind (vread m pde) (\<lambda>e.
     rbind (assert_that (is_present e)) (\<lambda>_.
     rbind (temp_map (te_addr e) m) (\<lambda>(pt_addr, m1).
     rbind (get_pte pt_addr a) (\<lambda>pte.
     rbind (vread m1 pte) (\<lambda>x.
     rbind (un_temp_map m1) (\<lambda>m2. Inr (te_addr x, m2))))))))"

definition disable_page :: "mm \<Rightarrow> u32 \<Rightarrow> mm result" where
  "disable_page m frame =
     rbind (ensure_pte m frame True True) (\<lambda>(pte, m1).
     rbind (set_mapping pte frame False False False m1) un_temp_map)"

definition map_page :: "mm \<Rightarrow> u32 \<Rightarrow> u32 \<Rightarrow> bool \<Rightarrow> bool \<Rightarrow> (int \<times> mm) result" where
  "map_page m a phys_addr writable user_allowed =
     rbind (ensure_pte m a True True) (\<lambda>(pte, m1).
     rbind (vread m1 pte) (\<lambda>e.
       if is_present e then Inr (E_TAKEN, m1)
       else rbind (set_mapping pte phys_addr True writable user_allowed m1) (\<lambda>m2.
            rbind (un_temp_map m2) (\<lambda>m3. Inr (E_OK, m3)))))"

definition MM_allocate :: "mm \<Rightarrow> u32 \<Rightarrow> bool \<Rightarrow> bool \<Rightarrow> mm result" where
  "MM_allocate m a writable user_allowed =
     rbind (get_free_frame m True) (\<lambda>(pt_frame, m1).
       case pt_frame of
         None \<Rightarrow> Inl AssertionFailed
       | Some f \<Rightarrow> rbind (map_page m1 a f writable user_allowed) (\<lambda>(rc, m2).
           rbind (assert_that (rc = 0)) (\<lambda>_. Inr m2)))"

partial_function (option) allocate_range_loop :: "u32 \<Rightarrow> u32 \<Rightarrow> bool \<Rightarrow> bool \<Rightarrow> mm \<Rightarrow> mm result option" where
  "allocate_range_loop page stop writable user_allowed m =
     (if page < stop
      then case MM_allocate m page writable user_allowed of
             Inl e \<Rightarrow> Some (Inl e)
           | Inr m' \<Rightarrow> allocate_range_loop (page + PAGE_SIZE) stop writable user_allowed m'
      else Some (Inr m))"

definition allocate_range :: "mm \<Rightarrow> u32 \<Rightarrow> u32 \<Rightarrow> bool \<Rightarrow> bool \<Rightarrow> (int \<times> mm) result" where
  "allocate_range m a sz writable user_allowed =
     (if sz mod PAGE_SIZE \<noteq> 0 then Inr (E_INVALID_SIZE, m)
      else rbind (loop (allocate_range_loop a (a + sz) writable user_allowed m)) (\<lambda>m'. Inr (E_OK, m')))"

definition MM_map :: "mm \<Rightarrow> u32 \<Rightarrow> u32 \<Rightarrow> u32 \<Rightarrow> bool \<Rightarrow> bool \<Rightarrow> (int \<times> mm) result" where
  "MM_map m a phys_addr sz writable user_allowed =
     (if sz mod PAGE_SIZE \<noteq> 0 then Inr (E_INVALID_SIZE, m)
      else if a mod PAGE_SIZE \<noteq> 0 \<or> phys_addr mod PAGE_SIZE \<noteq> 0 then Inr (E_INVALID, m)
      else rbind (rfold (\<lambda>page_idx m.
                    rbind (map_page m (a + word_of_nat page_idx * PAGE_SIZE)
                             (phys_addr + word_of_nat page_idx * PAGE_SIZE) writable user_allowed) (\<lambda>(rc, m').
                    rbind (assert_that (rc = 0)) (\<lambda>_. Inr m')))
                  [0..<unat (sz div PAGE_SIZE)] m) (\<lambda>m'. Inr (E_OK, m')))"

definition deallocate :: "mm \<Rightarrow> u32 \<Rightarrow> bool \<Rightarrow> mm result" where
  "deallocate m a free_page =
     rbind (ensure_pte m a True True) (\<lambda>(pte, m1).
     rbind (vread m1 pte) (\<lambda>e.
     rbind (assert_that (is_present e)) (\<lambda>_.
     rbind (if free_page then set_frame_available m1 (te_addr e) else Inr m1) (\<lambda>m2.
     rbind (update_entry pte (\<lambda>_. 0) m2) un_temp_map))))"

section \<open>Copying frames and page directories\<close>

definition copy_from_physical_frame :: "mm \<Rightarrow> u32 \<Rightarrow> (page \<times> mm) result" where
  "copy_from_physical_frame m src =
     rbind (temp_map src m) (\<lambda>(src_vaddr, m1).
     rbind (read_page m1 src_vaddr) (\<lambda>p.
     rbind (un_temp_map m1) (\<lambda>m2. Inr (p, m2))))"

definition copy_to_physical_frame :: "mm \<Rightarrow> u32 \<Rightarrow> page \<Rightarrow> mm result" where
  "copy_to_physical_frame m dst p =
     rbind (temp_map dst m) (\<lambda>(dst_vaddr, m1).
     rbind (write_page dst_vaddr p m1) un_temp_map)"

definition memcpy_frames :: "mm \<Rightarrow> u32 \<Rightarrow> u32 \<Rightarrow> mm result" where
  "memcpy_frames m dst src =
     rbind (copy_from_physical_frame m src) (\<lambda>(temp_buff, m1). copy_to_physical_frame m1 dst temp_buff)"

text \<open>
  The two passes of \<^verbatim>\<open>clone_page_directory\<close>. \<open>news\<close> and \<open>dels\<close> are its two arrays, the numbers of
  new page tables and the entries to delete.
\<close>

definition clone_scan :: "page \<Rightarrow> bool \<Rightarrow> nat \<Rightarrow> mm \<times> page \<times> (u32 \<Rightarrow> bool) \<Rightarrow> (mm \<times> page \<times> (u32 \<Rightarrow> bool)) result" where
  "clone_scan PD_entries copy_user_pages pde_idx st =
     (let (m, news, dels) = st; i = word_of_nat pde_idx; pde = PD_entries i
      in if i \<le> IDENTITY_MAP_END div (4 * MB) then Inr st
         else if \<not> is_present pde then Inr st
         else if address_in_kernel_space (i * PDE_MAP_SIZE) then Inr (m, news(i := te_addr pde), dels)
         else if \<not> copy_user_pages then Inr (m, news, dels(i := True))
         else rbind (get_free_frame m True) (\<lambda>(f, m1).
                case f of
                  None \<Rightarrow> Inl AssertionFailed
                | Some new_PT \<Rightarrow> rbind (memcpy_frames m1 new_PT (te_addr pde)) (\<lambda>m2.
                    Inr (m2, news(i := new_PT), dels))))"

definition clone_update :: "u32 \<Rightarrow> page \<Rightarrow> (u32 \<Rightarrow> bool) \<Rightarrow> nat \<Rightarrow> mm \<Rightarrow> mm result" where
  "clone_update new_PD_vaddr news dels pde_idx m =
     (let i = word_of_nat pde_idx; new_pde = new_PD_vaddr + 4 * i
      in if dels i then update_entry new_pde (\<lambda>_. 0) m
         else if news i = 0 then Inr m
         else update_entry new_pde (te_set_addr (news i)) m)"

definition clone_page_directory :: "mm \<Rightarrow> bool \<Rightarrow> (u32 \<times> mm) result" where
  "clone_page_directory m copy_user_pages =
     (let new_PD = next_page_directory_allocation m;
          m0 = m\<lparr>next_page_directory_allocation := next_page_directory_allocation m + PAGE_SIZE\<rparr>
      in rbind (assert_that (next_page_directory_allocation m0 < PAGE_DIRECTORY_ALLOCATION_END)) (\<lambda>_.
         rbind (assert_that (is_frame_aligned new_PD)) (\<lambda>_.
         rbind (memcpy_frames m0 new_PD (m_page_directory m0)) (\<lambda>m1.
         rbind (copy_from_physical_frame m1 (m_page_directory m1)) (\<lambda>(PD_entries, m2).
         rbind (rfold (clone_scan PD_entries copy_user_pages) [0..<NUM_PAGE_DIRECTORY_ENTRIES]
                  (m2, (\<lambda>_. 0), (\<lambda>_. False))) (\<lambda>(m3, news, dels).
         rbind (temp_map new_PD m3) (\<lambda>(new_PD_vaddr, m4).
         rbind (rfold (clone_update new_PD_vaddr news dels) [0..<NUM_PAGE_DIRECTORY_ENTRIES] m4) (\<lambda>m5.
         rbind (un_temp_map m5) (\<lambda>m6. Inr (new_PD, m6))))))))))"

text \<open>The body of the loop of \<^verbatim>\<open>duplicate\<close>, and the loop.\<close>

definition duplicate_page :: "u32 \<Rightarrow> u32 \<Rightarrow> u32 \<Rightarrow> u32 \<Rightarrow> mm \<Rightarrow> mm result" where
  "duplicate_page other_pd virt_addr src dst m =
     rbind (get_pde other_pd virt_addr) (\<lambda>other_pde.
     rbind (vread m other_pde) (\<lambda>e.
     rbind (assert_that (is_present e)) (\<lambda>_.
     rbind (temp_map (te_addr e) m) (\<lambda>(temp_pt_addr, m1).
     rbind (get_pte temp_pt_addr virt_addr) (\<lambda>pte.
     rbind (vread m1 pte) (\<lambda>x.
     rbind (assert_that (is_present x)) (\<lambda>_.
     rbind (assert_that (is_user_allowed x)) (\<lambda>_.
     rbind (un_temp_map m1) (\<lambda>m2.
     rbind (map_page m2 (dst + (virt_addr - src)) (te_addr x) True True) (\<lambda>(rc, m3).
     rbind (assert_that (rc = 0)) (\<lambda>_. Inr m3)))))))))))"

partial_function (option) duplicate_loop :: "u32 \<Rightarrow> u32 \<Rightarrow> u32 \<Rightarrow> u32 \<Rightarrow> u32 \<Rightarrow> mm \<Rightarrow> mm result option" where
  "duplicate_loop other_pd virt_addr src stop dst m =
     (if virt_addr < stop
      then case duplicate_page other_pd virt_addr src dst m of
             Inl e \<Rightarrow> Some (Inl e)
           | Inr m' \<Rightarrow> duplicate_loop other_pd (virt_addr + PAGE_SIZE) src stop dst m'
      else Some (Inr m))"

definition duplicate :: "mm \<Rightarrow> u32 \<Rightarrow> u32 \<Rightarrow> u32 \<Rightarrow> u32 \<Rightarrow> (int \<times> mm) result" where
  "duplicate m other_cr3 src sz dst =
     (if src mod PAGE_SIZE \<noteq> 0 \<or> sz mod PAGE_SIZE \<noteq> 0 then Inr (E_INVALID, m)
      else rbind (assert_that (is_frame_aligned other_cr3)) (\<lambda>_.
           rbind (loop (duplicate_loop other_cr3 src src (src + sz) dst m)) (\<lambda>m'. Inr (E_OK, m'))))"

section \<open>Construction\<close>

definition lock_kernel_PDEs :: "mm \<Rightarrow> mm" where
  "lock_kernel_PDEs m = m\<lparr>m_kernel_PDEs_locked := True\<rparr>"

definition MM_the :: "mm \<Rightarrow> u32 \<Rightarrow> mm result" where
  "MM_the m cr =
     (let cr' = (if cr = 0 then cr3 m else cr)
      in rbind (assert_that (is_frame_aligned cr')) (\<lambda>_. Inr (m\<lparr>m_page_directory := cr'\<rparr>)))"

definition MemoryManager_new :: "mm \<Rightarrow> mm" where
  "MemoryManager_new m =
     m\<lparr>m_frames_avail_bitmap := (\<lambda>_. 0), m_page_directory := 0, m_tempmap_used := False,
       m_kernel_PDEs_locked := False\<rparr>"

record MultibootMemMapEntry =
  mm_base :: u64
  mm_len :: u64
  mm_type :: u32

partial_function (option) init_region :: "u32 \<Rightarrow> u32 \<Rightarrow> mm \<Rightarrow> mm result option" where
  "init_region frame_base last_frame m =
     (if frame_base \<le> last_frame
      then if frame_base < 5 * MB then init_region (frame_base + PAGE_SIZE) last_frame m
           else case rbind (set_frame_available m frame_base) (\<lambda>m1.
                     rbind (is_frame_available m1 frame_base) (\<lambda>av.
                     rbind (assert_that av) (\<lambda>_. Inr m1))) of
                  Inl e \<Rightarrow> Some (Inl e)
                | Inr m1 \<Rightarrow> init_region (frame_base + PAGE_SIZE) last_frame m1
      else Some (Inr m))"

definition init_entry :: "MultibootMemMapEntry \<Rightarrow> mm \<Rightarrow> mm result" where
  "init_entry e m =
     (if mm_type e \<noteq> 1 then Inr m
      else rbind (assert_that (drop_bit 32 (mm_base e) AND 0xFFFFFFFF = 0
                               \<and> drop_bit 32 (mm_len e) AND 0xFFFFFFFF = 0)) (\<lambda>_.
             let region_base = (ucast (mm_base e AND 0xFFFFFFFF) :: u32);
                 region_len = (ucast (mm_len e AND 0xFFFFFFFF) :: u32)
             in loop (init_region region_base (region_base + region_len - PAGE_SIZE) m)))"

definition MemoryManager_init :: "mm \<Rightarrow> MultibootMemMapEntry list \<Rightarrow> mm result" where
  "MemoryManager_init m mmap =
     rbind (assert_that (is_frame_aligned (cr3 m))) (\<lambda>_.
     rbind (rfold init_entry mmap (m\<lparr>m_page_directory := cr3 m\<rparr>)) (\<lambda>m1.
     rbind (Frame 0) (disable_page m1)))"

section \<open>Addresses and indices\<close>

lemma mask_0xFFF: "(0xFFF :: u32) = mask 12"
  by (simp add: mask_eq_exp_minus_1)

lemma mask_0x3FF: "(0x3FF :: u32) = mask 10"
  by (simp add: mask_eq_exp_minus_1)

lemma aligned_bit: "a AND 0xFFF = 0 \<longleftrightarrow> (\<forall>n<12. \<not> bit a n)" for a :: u32
proof
  assume a: "a AND 0xFFF = 0"
  have "bit (a AND 0xFFF) n \<longleftrightarrow> n < 12 \<and> bit a n" if "n < 32" for n
    unfolding mask_0xFFF using that by (auto simp: bit_simps)
  with a show "\<forall>n<12. \<not> bit a n" by auto
next
  assume "\<forall>n<12. \<not> bit a n"
  then show "a AND 0xFFF = 0" by (intro bit_word_eqI) (auto simp: mask_0xFFF bit_simps)
qed

lemma index_bit: "i AND 0x3FF = i \<longleftrightarrow> (\<forall>n\<ge>10. \<not> bit i n)" for i :: u32
proof
  assume a: "i AND 0x3FF = i"
  have "bit (i AND 0x3FF) n \<longleftrightarrow> n < 10 \<and> bit i n" for n
    unfolding mask_0x3FF by (auto simp: bit_simps dest: bit_imp_le_length)
  with a show "\<forall>n\<ge>10. \<not> bit i n" by (metis not_less)
next
  assume "\<forall>n\<ge>10. \<not> bit i n"
  then show "i AND 0x3FF = i"
    by (intro bit_word_eqI) (auto simp: mask_0x3FF bit_simps not_le [symmetric])
qed

lemma is_frame_aligned_iff: "is_frame_aligned a \<longleftrightarrow> a AND 0xFFF = 0"
  using take_bit_eq_mod [of 12 a] by (simp add: is_frame_aligned_def mask_0xFFF flip: take_bit_eq_mask)

lemma index_less: "i < 1024 \<longleftrightarrow> i AND 0x3FF = i" for i :: u32
proof -
  have "i AND 0x3FF = i \<longleftrightarrow> take_bit 10 i = i" by (simp add: mask_0x3FF take_bit_eq_mask)
  also have "\<dots> \<longleftrightarrow> i < 1024" 
    using take_bit_nat_eq_self_iff [of 10 "unat i"] unsigned_take_bit_eq [of 10 i, where ?'a = nat]
    by (auto simp: word_less_nat_alt) (metis word_unat_eq_iff)
  finally show ?thesis by simp
qed

lemma entry_ref_or:
  fixes d i :: u32
  assumes "d AND 0xFFF = 0" "i AND 0x3FF = i"
  shows "d + 4 * i = d OR push_bit 2 i"
proof -
  have "d AND push_bit 2 i = 0"
  proof (rule bit_word_eqI)
    fix n assume "n < LENGTH(32)"
    have "\<not> bit d n \<or> \<not> bit i (n - 2)"
      using assms unfolding aligned_bit index_bit by (cases "n < 12") auto
    then show "bit (d AND push_bit 2 i) n = bit (0 :: u32) n" by (auto simp: bit_simps)
  qed
  moreover have "4 * i = push_bit 2 i" by (simp add: push_bit_eq_mult)
  ultimately show ?thesis by (simp add: disjunctive_add_eq_or)
qed

lemma index_of_index [simp]:
  "PageDirectory_get_index a AND 0x3FF = PageDirectory_get_index a"
  "PageTable_get_index a AND 0x3FF = PageTable_get_index a"
  by (simp_all add: PageDirectory_get_index_def PageTable_get_index_def)

lemma index_less_1024 [simp]: "PageDirectory_get_index a < 1024" "PageTable_get_index a < 1024"
  by (simp_all add: index_less)

lemma bit_PageDirectory_get_index: "bit (PageDirectory_get_index a) n \<longleftrightarrow> n < 10 \<and> bit a (n + 22)"
  unfolding PageDirectory_get_index_def mask_0x3FF by (auto simp: bit_simps ac_simps)

lemma bit_PageTable_get_index: "bit (PageTable_get_index a) n \<longleftrightarrow> n < 10 \<and> bit a (n + 12)"
  unfolding PageTable_get_index_def mask_0x3FF by (auto simp: bit_simps ac_simps)

lemma entry_ref [simp]:
  fixes d i :: u32
  assumes "d AND 0xFFF = 0" "i AND 0x3FF = i"
  shows "PageDirectory_get_index (d + 4 * i) = PageDirectory_get_index d"
    "PageTable_get_index (d + 4 * i) = PageTable_get_index d"
    "word_index (d + 4 * i) = i"
proof -
  note or = entry_ref_or [OF assms]
  have hi: "\<not> bit i (n + 10)" for n using assms(2) unfolding index_bit by simp
  show "PageDirectory_get_index (d + 4 * i) = PageDirectory_get_index d"
    unfolding or using hi [of "n + 10" for n] by (intro bit_word_eqI) (auto simp: bit_PageDirectory_get_index bit_simps)
  show "PageTable_get_index (d + 4 * i) = PageTable_get_index d"
    unfolding or using hi by (intro bit_word_eqI) (auto simp: add.commute [of 10] bit_PageTable_get_index bit_simps)
  show "word_index (d + 4 * i) = i"
  proof (rule bit_word_eqI)
    fix n assume "n < LENGTH(32)"
    moreover have "bit i n \<Longrightarrow> n < 10" using assms(2) unfolding index_bit by (metis not_le)
    moreover have "n < 10 \<Longrightarrow> \<not> bit d (n + 2)" using assms(1) unfolding aligned_bit by simp
    ultimately show "bit (word_index (d + 4 * i)) n = bit i n"
      unfolding or mask_0xFFF word_index_def by (auto simp: bit_simps)
  qed
qed


section \<open>Entries\<close>

lemma bit_te_addr: "bit (te_addr e) n \<longleftrightarrow> 12 \<le> n \<and> bit e n"
  unfolding te_addr_def mask_0xFFF by (auto simp: bit_simps dest: bit_imp_le_length)

lemma te_addr_aligned [simp]: "te_addr e AND 0xFFF = 0"
  unfolding aligned_bit by (simp add: bit_te_addr)

lemma te_addr_id [simp]: "a AND 0xFFF = 0 \<Longrightarrow> te_addr a = a"
  unfolding aligned_bit by (intro bit_word_eqI) (auto simp: bit_te_addr not_le [symmetric])

lemma bit_te_flags: "bit (te_flags e) n \<longleftrightarrow> n < 12 \<and> bit e n"
  unfolding te_flags_def mask_0xFFF by (auto simp: bit_simps)

lemma and_exp_bit: "w AND push_bit n 1 \<noteq> 0 \<longleftrightarrow> bit w n" for w :: "'a::len word"
  by (simp add: bit_iff_and_push_bit_not_eq_0)

lemma flag_bits: "is_present e \<longleftrightarrow> bit e 0" "is_writable e \<longleftrightarrow> bit e 1" "is_user_allowed e \<longleftrightarrow> bit e 2"
  using and_exp_bit [of "te_flags e" 0] and_exp_bit [of "te_flags e" 1] and_exp_bit [of "te_flags e" 2]
  by (simp_all add: is_present_def is_writable_def is_user_allowed_def bit_te_flags)

lemma bit_te_set_flag:
  assumes "b < 12"
  shows "bit (te_set_flags (set_bit_in (te_flags e) b v) e) n \<longleftrightarrow> (if n = b then v else bit e n)"
  unfolding te_set_flags_def mask_0xFFF using assms
  by (auto simp: bit_simps bit_set_bit_in bit_te_flags dest: bit_imp_le_length)

lemma bit_te_set_addr: "bit (te_set_addr a e) n \<longleftrightarrow> n < 12 \<and> bit e n \<or> bit a n"
  unfolding te_set_addr_def mask_0xFFF by (auto simp: bit_simps)

definition mapping_entry :: "u32 \<Rightarrow> bool \<Rightarrow> bool \<Rightarrow> bool \<Rightarrow> u32 \<Rightarrow> u32" where
  "mapping_entry a p w u e =
     te_set_user_allowed u (te_set_writable w (te_set_present p (te_set_addr a e)))"

lemma bit_mapping_entry:
  assumes "a AND 0xFFF = 0"
  shows "bit (mapping_entry a p w u e) n \<longleftrightarrow>
    (if n = 0 then p else if n = 1 then w else if n = 2 then u else if n < 12 then bit e n else bit a n)"
  using assms unfolding aligned_bit
  by (auto simp: mapping_entry_def te_set_user_allowed_def te_set_writable_def te_set_present_def
      bit_te_set_flag bit_te_set_addr)

lemma mapping_entry_simps [simp]:
  assumes "a AND 0xFFF = 0"
  shows "is_present (mapping_entry a p w u e) = p" "is_writable (mapping_entry a p w u e) = w"
    "is_user_allowed (mapping_entry a p w u e) = u" "te_addr (mapping_entry a p w u e) = a"
proof -
  show "te_addr (mapping_entry a p w u e) = a"
    using assms unfolding aligned_bit
    by (intro bit_word_eqI) (auto simp: bit_te_addr bit_mapping_entry assms not_less)
qed (simp_all add: flag_bits bit_mapping_entry assms)

section \<open>Translation\<close>

lemma phys_poke: "phys (poke f w v m) g x = (if g = f \<and> x = w then v else phys m g x)"
  by (simp add: poke_def)

lemma poke_simps [simp]:
  "cr3 (poke f w v m) = cr3 m" "m_page_directory (poke f w v m) = m_page_directory m"
  "m_frames_avail_bitmap (poke f w v m) = m_frames_avail_bitmap m"
  "m_tempmap_used (poke f w v m) = m_tempmap_used m"
  "m_kernel_PDEs_locked (poke f w v m) = m_kernel_PDEs_locked m"
  "next_page_directory_allocation (poke f w v m) = next_page_directory_allocation m"
  by (simp_all add: poke_def)

lemma poke_twice [simp]: "poke f w v (poke f w v' m) = poke f w v m"
  by (simp add: poke_def)

lemma poke_commute: "(f, w) \<noteq> (g, x) \<Longrightarrow> poke f w v (poke g x y m) = poke g x y (poke f w v m)"
  by (auto simp: poke_def fun_upd_def fun_eq_iff intro!: mm.equality)

lemma xlate_cong:
  assumes "cr3 m' = cr3 m"
    "phys m' (te_addr (cr3 m)) (PageDirectory_get_index a) = phys m (te_addr (cr3 m)) (PageDirectory_get_index a)"
    "phys m' (te_addr (phys m (te_addr (cr3 m)) (PageDirectory_get_index a))) (PageTable_get_index a)
      = phys m (te_addr (phys m (te_addr (cr3 m)) (PageDirectory_get_index a))) (PageTable_get_index a)"
  shows "xlate m' a = xlate m a"
  using assms by (simp add: xlate_def Let_def)

text \<open>Setting an entry reached through a translation that the writes do not disturb.\<close>

lemma update_entry_at:
  assumes "xlate m ref = Inr (f, w)"
  shows "update_entry ref g m = Inr (poke f w (g (phys m f w)) m)"
  using assms by (simp add: update_entry_def vread_def vwrite_def)

lemma set_mapping_at:
  assumes "\<And>v. xlate (poke f w v m) ref = Inr (f, w)" "xlate m ref = Inr (f, w)"
  shows "set_mapping ref a p wr u m = Inr (poke f w (mapping_entry a p wr u (phys m f w)) m)"
  using assms
  by (simp add: set_mapping_def update_entry_at phys_poke mapping_entry_def del: rbind_Inr_iff)

text \<open>
  The first four megabytes are mapped to themselves by the page table \<open>idt\<close>, but for the
  first page and the page of the temporary mapping.
\<close>

definition low_frame :: "u32 \<Rightarrow> bool" where
  "low_frame d \<longleftrightarrow> d AND 0xFFF = 0 \<and> PAGE_SIZE \<le> d \<and> d < TEMPMAP_ADDR"

definition low_map :: "u32 \<Rightarrow> mm \<Rightarrow> bool" where
  "low_map idt m \<longleftrightarrow> low_frame (cr3 m) \<and> low_frame idt \<and> idt \<noteq> cr3 m \<and> m_page_directory m = cr3 m
     \<and> is_present (phys m (cr3 m) 0) \<and> te_addr (phys m (cr3 m) 0) = idt
     \<and> (\<forall>d. low_frame d \<longrightarrow> is_present (phys m idt (PageTable_get_index d))
              \<and> te_addr (phys m idt (PageTable_get_index d)) = d)"

lemma low_frame_aligned [simp]: "low_frame d \<Longrightarrow> d AND 0xFFF = 0"
  by (simp add: low_frame_def)

lemma low_index:
  assumes "d < 0x400000"
  shows "PageDirectory_get_index d = 0"
proof -
  have "unat d < 2 ^ 22" using assms by (simp add: word_less_nat_alt)
  then have "drop_bit 22 d = 0"
    by (simp add: drop_bit_eq_div word_unat_eq_iff unat_div)
  then show ?thesis by (simp add: PageDirectory_get_index_def)
qed

lemma xlate_low:
  assumes "low_map idt m" "low_frame d" "i AND 0x3FF = i"
  shows "xlate m (d + 4 * i) = Inr (d, i)"
proof -
  have "PageDirectory_get_index d = 0" using assms(2) by (intro low_index) (auto simp: low_frame_def word_less_nat_alt)
  then show ?thesis using assms by (simp add: xlate_def low_map_def)
qed


lemma unat_PageTable_get_index: "unat (PageTable_get_index a) = unat a div 4096 mod 1024"
proof -
  have "PageTable_get_index a = take_bit 10 (drop_bit 12 a)"
    unfolding PageTable_get_index_def mask_0x3FF by (simp add: take_bit_eq_mask)
  then show ?thesis by (simp add: unsigned_take_bit_eq unsigned_drop_bit_eq take_bit_eq_mod drop_bit_eq_div
        unat_div unat_mod)
qed

lemma low_frame_index:
  assumes "low_frame d"
  shows "PageTable_get_index d \<noteq> 0x3FF" "PageTable_get_index d \<noteq> 0"
proof -
  have "4096 \<le> unat d" "unat d < 0x3FF000"
    using assms by (auto simp: low_frame_def word_less_nat_alt word_le_nat_alt)
  then have "1 \<le> unat d div 4096" "unat d div 4096 < 1023"
    using div_le_mono [of 4096 "unat d" 4096] less_mult_imp_div_less [of "unat d" 1023 4096] by simp_all
  then have "unat d div 4096 mod 1024 \<noteq> 1023" "unat d div 4096 mod 1024 \<noteq> 0" by simp_all
  then show "PageTable_get_index d \<noteq> 0x3FF" "PageTable_get_index d \<noteq> 0"
    using unat_PageTable_get_index [of d] by auto
qed

lemma tempmap_index [simp]: "PageDirectory_get_index TEMPMAP_ADDR = 0" "PageTable_get_index TEMPMAP_ADDR = 0x3FF"
  by (simp_all add: PageDirectory_get_index_def PageTable_get_index_def)

lemma low_map_poke:
  assumes "low_map idt m" "\<not> (f = cr3 m \<and> w = 0)" "f = idt \<Longrightarrow> w = 0 \<or> w = 0x3FF"
  shows "low_map idt (poke f w v m)"
  using assms low_frame_index by (auto simp: low_map_def phys_poke)

lemma low_map_tempmap_used [simp]: "low_map idt (m\<lparr>m_tempmap_used := b\<rparr>) = low_map idt m"
  by (simp add: low_map_def)

lemma low_mapD:
  assumes "low_map idt m"
  shows "low_frame (cr3 m)" "low_frame idt" "idt \<noteq> cr3 m" "m_page_directory m = cr3 m"
    "is_present (phys m (cr3 m) 0)" "te_addr (phys m (cr3 m) 0) = idt"
  using assms by (auto simp: low_map_def)

lemma xlate_tempmap:
  assumes "low_map idt m" "is_present (phys m idt 0x3FF)" "te_addr (phys m idt 0x3FF) = a" "i AND 0x3FF = i"
  shows "xlate m (TEMPMAP_ADDR + 4 * i) = Inr (a, i)"
proof -
  have "(TEMPMAP_ADDR :: u32) AND 0xFFF = 0" by simp
  note r = entry_ref [OF this assms(4)]
  show ?thesis unfolding xlate_def r using low_mapD [OF assms(1)] assms(2,3) by (simp add: Let_def)
qed

section \<open>The temporary mapping\<close>

text \<open>The entry of the temporary mapping, reached through the identity mapping.\<close>

lemma ensure_tempmap:
  assumes "low_map idt m"
  shows "ensure_pte_with tm m TEMPMAP_ADDR False False = Inr (idt + 4092, m)"
proof -
  have "xlate m (cr3 m + 4 * 0) = Inr (cr3 m, 0)"
    using low_mapD [OF assms] by (intro xlate_low [OF assms]) auto
  then have v: "vread m (cr3 m) = Inr (phys m (cr3 m) 0)" by (simp add: vread_def)
  show ?thesis
    unfolding ensure_pte_with_def get_pde_def get_pte_def tempmap_index low_mapD(4) [OF assms]
    using low_mapD [OF assms] v by simp
qed

definition temp_mapped :: "u32 \<Rightarrow> u32 \<Rightarrow> mm \<Rightarrow> mm" where
  "temp_mapped idt a m =
     (poke idt 0x3FF (mapping_entry a True True False (phys m idt 0x3FF)) m)\<lparr>m_tempmap_used := True\<rparr>"

definition temp_unmapped :: "u32 \<Rightarrow> mm \<Rightarrow> mm" where
  "temp_unmapped idt m =
     (poke idt 0x3FF (mapping_entry 0 False False False (phys m idt 0x3FF)) m)\<lparr>m_tempmap_used := False\<rparr>"

lemma set_tempmap:
  assumes "low_map idt m"
  shows "set_mapping (idt + 4092) a p w u m
    = Inr (poke idt 0x3FF (mapping_entry a p w u (phys m idt 0x3FF)) m)"
proof (rule set_mapping_at)
  show "xlate m (idt + 4092) = Inr (idt, 0x3FF)"
    using low_mapD [OF assms] xlate_low [OF assms, where i = "0x3FF" and d = idt] by simp
  have lm: "low_map idt (poke idt 0x3FF v m)" for v using low_mapD [OF assms] by (intro low_map_poke [OF assms]) auto
  show "xlate (poke idt 0x3FF v m) (idt + 4092) = Inr (idt, 0x3FF)" for v
    using low_mapD [OF assms] xlate_low [OF lm [of v], where i = "0x3FF" and d = idt] by simp
qed

lemma temp_map_eq:
  assumes "low_map idt m" "\<not> m_tempmap_used m"
  shows "temp_map a m = Inr (TEMPMAP_ADDR, temp_mapped idt a m)"
  using assms by (simp add: temp_map_def ensure_tempmap set_tempmap temp_mapped_def)

lemma un_temp_map_eq:
  assumes "low_map idt m"
  shows "un_temp_map m = Inr (temp_unmapped idt m)"
  using assms by (simp add: un_temp_map_def ensure_pte_def ensure_tempmap set_tempmap temp_unmapped_def)

lemma low_map_temp:
  assumes "low_map idt m"
  shows "low_map idt (temp_mapped idt a m)" "low_map idt (temp_unmapped idt m)"
  using assms low_mapD [OF assms] unfolding temp_mapped_def temp_unmapped_def
  by (auto intro!: low_map_poke)

lemma xlate_temp_mapped:
  assumes "low_map idt m" "a AND 0xFFF = 0" "i AND 0x3FF = i"
  shows "xlate (temp_mapped idt a m) (TEMPMAP_ADDR + 4 * i) = Inr (a, i)"
  using assms by (intro xlate_tempmap [where idt = idt])
    (auto simp: low_map_temp, auto simp: temp_mapped_def phys_poke)


section \<open>Free frames\<close>

definition frame_free :: "mm \<Rightarrow> u32 \<Rightarrow> bool" where
  "frame_free m f \<longleftrightarrow> is_frame_aligned f \<and> fst (get_bitmap_entry f) < N_FRAME_BITMAP_ENTRIES
     \<and> bit (m_frames_avail_bitmap m (fst (get_bitmap_entry f))) (snd (get_bitmap_entry f))"

declare scan_bitmap.simps [simp del]

lemma scan_bitmap_Some:
  "scan_bitmap search bm i = Some (k, b) \<Longrightarrow>
    i \<le> k \<and> k < N_FRAME_BITMAP_ENTRIES \<and> bm k \<noteq> 0 \<and> search (bm k) = int b
    \<and> (\<forall>j. i \<le> j \<longrightarrow> j < k \<longrightarrow> bm j = 0 \<or> search (bm j) < 0)"
proof (induction search bm i rule: scan_bitmap.induct)
  case (1 search bm i)
  show ?case
    using 1 by (auto simp: scan_bitmap.simps [of _ _ i] Suc_le_eq split: if_splits) (metis le_neq_implies_less Suc_leI)+
qed

lemma scan_bitmap_None:
  "scan_bitmap search bm i = None \<Longrightarrow> i \<le> j \<Longrightarrow> j < N_FRAME_BITMAP_ENTRIES \<Longrightarrow> bm j = 0 \<or> search (bm j) < 0"
proof (induction search bm i rule: scan_bitmap.induct)
  case (1 search bm i)
  note step = scan_bitmap.simps [of search bm i]
  show ?case using 1 step by (cases "i = j") (auto split: if_splits)
qed

lemma from_bitmap_entry_nat:
  assumes "i < N_FRAME_BITMAP_ENTRIES" "b < 32"
  shows "\<exists>f. from_bitmap_entry (word_of_nat i) (word_of_nat b) = Inr f \<and> get_bitmap_entry f = (i, b)
    \<and> is_frame_aligned f \<and> unat f = (32 * i + b) * 4096"
proof -
  let ?f = "word_of_nat i * 32 * PAGE_SIZE + word_of_nat b * PAGE_SIZE :: u32"
  have "?f = word_of_nat ((32 * i + b) * 4096)" by (simp add: algebra_simps)
  moreover have "(32 * i + b) * 4096 < 2 ^ LENGTH(32)" using assms by simp
  ultimately have u: "unat ?f = (32 * i + b) * 4096" by (metis of_nat_id take_bit_nat_eq_self unsigned_of_nat)
  then have "is_frame_aligned ?f"
    by (simp add: is_frame_aligned_def word_unat_eq_iff unat_mod)
  moreover have "get_bitmap_entry ?f = (i, b)"
    using u assms by (simp add: get_bitmap_entry_def unat_div)
  ultimately show ?thesis using u by (simp add: from_bitmap_entry_def Frame_def)
qed

lemma get_bitmap_entry_inj:
  assumes "is_frame_aligned f" "is_frame_aligned g" "get_bitmap_entry f = get_bitmap_entry g"
  shows "f = g"
proof -
  have "unat f mod 4096 = 0" "unat g mod 4096 = 0"
    using assms(1,2) by (auto simp: is_frame_aligned_def word_unat_eq_iff unat_mod)
  moreover have "unat f div 4096 = unat g div 4096"
    using assms(3) by (auto simp: get_bitmap_entry_def unat_div) (metis div_mult_mod_eq)
  ultimately show ?thesis by (metis div_mult_mod_eq word_unat_eq_iff)
qed


lemma set_frame_eq:
  assumes "is_frame_aligned f" "fst (get_bitmap_entry f) < N_FRAME_BITMAP_ENTRIES"
  shows "\<exists>bm. (\<forall>m'. m_frames_avail_bitmap m' = m_frames_avail_bitmap m \<longrightarrow>
      set_frame m' f v = Inr (m'\<lparr>m_frames_avail_bitmap := bm\<rparr>))
    \<and> (\<forall>m'. m_frames_avail_bitmap m' = bm \<longrightarrow> (\<forall>g. frame_free m' g \<longleftrightarrow> (if g = f then v else frame_free m g)))"
proof -
  obtain i b where e: "get_bitmap_entry f = (i, b)" by (cases "get_bitmap_entry f")
  have b: "b < 32" using e by (auto simp: get_bitmap_entry_def)
  let ?bm = "(m_frames_avail_bitmap m)(i := set_bit_in (m_frames_avail_bitmap m i) b v)"
  have "set_frame m' f v = Inr (m'\<lparr>m_frames_avail_bitmap := ?bm\<rparr>)"
    if "m_frames_avail_bitmap m' = m_frames_avail_bitmap m" for m' using assms e that by (simp add: set_frame_def)
  moreover have "frame_free m' g \<longleftrightarrow> (if g = f then v else frame_free m g)"
    if m': "m_frames_avail_bitmap m' = ?bm" for m' g
  proof (cases "get_bitmap_entry g = (i, b) \<and> is_frame_aligned g")
    case True
    then show ?thesis using get_bitmap_entry_inj [of g f] assms e b m'
      by (auto simp: frame_free_def bit_set_bit_in)
  next
    case False
    then show ?thesis using assms e m' by (auto simp: frame_free_def bit_set_bit_in prod_eq_iff)
  qed
  ultimately show ?thesis by blast
qed

lemma get_free_frame_cases:
  obtains (none) "get_free_frame m True = Inr (None, m)" "\<And>f. \<not> frame_free m f"
  | (some) f bm where "get_free_frame m True = Inr (Some f, m\<lparr>m_frames_avail_bitmap := bm\<rparr>)"
      "frame_free m f" "\<And>g. frame_free m g \<Longrightarrow> f \<le> g"
      "\<And>m' g. m_frames_avail_bitmap m' = bm \<Longrightarrow> frame_free m' g \<longleftrightarrow> g \<noteq> f \<and> frame_free m g"
proof (cases "scan_bitmap get_on_bit_idx (m_frames_avail_bitmap m) 0")
  case None
  have "m_frames_avail_bitmap m j = 0" if "j < N_FRAME_BITMAP_ENTRIES" for j
    using scan_bitmap_None [OF None _ that] get_on_bit_idx_nonneg [of "m_frames_avail_bitmap m j"] by fastforce
  then show thesis
    using None by (intro none) (auto simp: get_free_frame_def frame_free_def)
next
  case (Some kb)
  obtain k b where kb: "kb = (k, b)" by (cases kb)
  note s = scan_bitmap_Some [OF Some [unfolded kb]]
  let ?e = "m_frames_avail_bitmap m k"
  have b: "b < 32" "bit ?e b" using get_on_bit_idx_hit [of ?e b] s by auto
  obtain f where f: "from_bitmap_entry (word_of_nat k) (word_of_nat b) = Inr f" "get_bitmap_entry f = (k, b)"
      "is_frame_aligned f" "unat f = (32 * k + b) * 4096"
    using from_bitmap_entry_nat [of k b] s b by auto
  have free: "frame_free m f" using s b f by (simp add: frame_free_def)
  have least: "f \<le> g" if g: "frame_free m g" for g
  proof -
    have "\<not> fst (get_bitmap_entry g) < k"
    proof
      assume "fst (get_bitmap_entry g) < k"
      then have "m_frames_avail_bitmap m (fst (get_bitmap_entry g)) = 0"
        using s get_on_bit_idx_nonneg [of "m_frames_avail_bitmap m (fst (get_bitmap_entry g))"] by fastforce
      then show False using g by (simp add: frame_free_def)
    qed
    moreover have "fst (get_bitmap_entry g) = k \<Longrightarrow> b \<le> snd (get_bitmap_entry g)"
      using g s get_on_bit_idx_first [of ?e] by (fastforce simp: frame_free_def first_index_from_def not_le [symmetric])
    ultimately have "32 * k + b \<le> 32 * (unat g div 4096 div 32) + unat g div 4096 mod 32"
      using b(1) by (cases "unat g div 4096 div 32 = k") (auto simp: get_bitmap_entry_def unat_div)
    then have "32 * k + b \<le> unat g div 4096" by (simp only: mult_div_mod_eq)
    then have "(32 * k + b) * 4096 \<le> unat g" using div_times_less_eq_dividend order_trans mult_le_mono1 by metis
    then show ?thesis using f(4) by (simp add: word_le_nat_alt)
  qed
  obtain bm where bm: "set_frame m f False = Inr (m\<lparr>m_frames_avail_bitmap := bm\<rparr>)"
      "\<forall>m'. m_frames_avail_bitmap m' = bm \<longrightarrow> (\<forall>g. frame_free m' g \<longleftrightarrow> (if g = f then False else frame_free m g))"
    using set_frame_eq [of f m False] free by (auto simp: frame_free_def)
  show thesis
    using Some kb f free least bm by (intro some [of f bm]) (auto simp: get_free_frame_def set_frame_used_def)
qed


section \<open>The address space of a directory\<close>

definition mapping :: "mm \<Rightarrow> u32 \<Rightarrow> u32 \<Rightarrow> (u32 \<times> bool \<times> bool) option" where
  "mapping m d a =
     (let pde = phys m d (PageDirectory_get_index a); pte = phys m (te_addr pde) (PageTable_get_index a)
      in if is_present pde \<and> is_present pte then Some (te_addr pte, is_writable pte, is_user_allowed pte) else None)"

definition own_index :: "u32 \<Rightarrow> bool" where
  "own_index i \<longleftrightarrow> i AND 0x3FF = i \<and> i \<noteq> 0 \<and> i \<noteq> 768"

text \<open>The page table of an entry of one of the directories.\<close>

definition is_table :: "u32 set \<Rightarrow> mm \<Rightarrow> u32 \<Rightarrow> u32 \<Rightarrow> bool" where
  "is_table ds m i t \<longleftrightarrow> own_index i \<and> (\<exists>d\<in>ds. is_present (phys m d i) \<and> te_addr (phys m d i) = t)"

definition mm_inv :: "u32 \<Rightarrow> u32 set \<Rightarrow> mm \<Rightarrow> bool" where
  "mm_inv idt ds m \<longleftrightarrow> low_map idt m \<and> \<not> m_tempmap_used m \<and> \<not> is_present (phys m idt 0x3FF)
     \<and> cr3 m \<in> ds \<and> (\<forall>d\<in>ds. low_frame d \<and> d \<noteq> idt)
     \<and> (\<forall>d\<in>ds. \<forall>i\<in>{0, 768}. is_present (phys m d i) \<longrightarrow> te_addr (phys m d i) = idt)
     \<and> (\<forall>f. frame_free m f \<longrightarrow> 0x500000 \<le> f)
     \<and> (\<forall>i t. is_table ds m i t \<longrightarrow> 0x500000 \<le> t \<and> \<not> frame_free m t)
     \<and> (\<forall>i j t. is_table ds m i t \<longrightarrow> is_table ds m j t \<longrightarrow> i = j)
     \<and> (\<forall>i t j. is_table ds m i t \<longrightarrow> j AND 0x3FF = j \<longrightarrow> is_present (phys m t j) \<longrightarrow>
          \<not> frame_free m (te_addr (phys m t j)) \<and> (\<forall>k. \<not> is_table ds m k (te_addr (phys m t j))))"

lemma mm_invD:
  assumes "mm_inv idt ds m"
  shows "low_map idt m" "\<not> m_tempmap_used m" "\<not> is_present (phys m idt 0x3FF)" "cr3 m \<in> ds"
    "\<And>d. d \<in> ds \<Longrightarrow> low_frame d" "\<And>d. d \<in> ds \<Longrightarrow> d \<noteq> idt"
    "\<And>d i. d \<in> ds \<Longrightarrow> i \<in> {0, 768} \<Longrightarrow> is_present (phys m d i) \<Longrightarrow> te_addr (phys m d i) = idt"
    "\<And>f. frame_free m f \<Longrightarrow> 0x500000 \<le> f"
    "\<And>i t. is_table ds m i t \<Longrightarrow> 0x500000 \<le> t" "\<And>i t. is_table ds m i t \<Longrightarrow> \<not> frame_free m t"
    "\<And>i j t. is_table ds m i t \<Longrightarrow> is_table ds m j t \<Longrightarrow> i = j"
    "\<And>i t j. is_table ds m i t \<Longrightarrow> j AND 0x3FF = j \<Longrightarrow> is_present (phys m t j) \<Longrightarrow>
       \<not> frame_free m (te_addr (phys m t j))"
    "\<And>i t j k. is_table ds m i t \<Longrightarrow> j AND 0x3FF = j \<Longrightarrow> is_present (phys m t j) \<Longrightarrow>
       \<not> is_table ds m k (te_addr (phys m t j))"
  using assms unfolding mm_inv_def by blast+

lemma mm_invI:
  assumes "low_map idt m" "\<not> m_tempmap_used m" "\<not> is_present (phys m idt 0x3FF)" "cr3 m \<in> ds"
    "\<And>d. d \<in> ds \<Longrightarrow> low_frame d" "\<And>d. d \<in> ds \<Longrightarrow> d \<noteq> idt"
    "\<And>d i. d \<in> ds \<Longrightarrow> i \<in> {0, 768} \<Longrightarrow> is_present (phys m d i) \<Longrightarrow> te_addr (phys m d i) = idt"
    "\<And>f. frame_free m f \<Longrightarrow> 0x500000 \<le> f"
    "\<And>i t. is_table ds m i t \<Longrightarrow> 0x500000 \<le> t" "\<And>i t. is_table ds m i t \<Longrightarrow> \<not> frame_free m t"
    "\<And>i j t. is_table ds m i t \<Longrightarrow> is_table ds m j t \<Longrightarrow> i = j"
    "\<And>i t j. is_table ds m i t \<Longrightarrow> j AND 0x3FF = j \<Longrightarrow> is_present (phys m t j) \<Longrightarrow>
       \<not> frame_free m (te_addr (phys m t j))"
    "\<And>i t j k. is_table ds m i t \<Longrightarrow> j AND 0x3FF = j \<Longrightarrow> is_present (phys m t j) \<Longrightarrow>
       \<not> is_table ds m k (te_addr (phys m t j))"
  shows "mm_inv idt ds m"
  unfolding mm_inv_def by (intro conjI allI ballI impI; (rule assms; assumption)?)

lemma low_not_high: "low_frame d \<Longrightarrow> 0x500000 \<le> f \<Longrightarrow> f \<noteq> d"
  by (auto simp: low_frame_def word_less_nat_alt word_le_nat_alt)

lemma frame_free_aligned: "frame_free m f \<Longrightarrow> f AND 0xFFF = 0"
  by (simp add: frame_free_def is_frame_aligned_iff)

text \<open>
  A change that leaves the directories alone: taking a frame, entering a page in a table,
  clearing the temporary mapping.
\<close>

lemma is_table_cong: "(\<And>d i. d \<in> ds \<Longrightarrow> phys m' d i = phys m d i) \<Longrightarrow> is_table ds m' = is_table ds m"
  by (simp add: is_table_def fun_eq_iff)

lemma mm_inv_change:
  assumes inv: "mm_inv idt ds m" and low: "low_map idt m'" and used: "\<not> m_tempmap_used m'"
    and temp: "\<not> is_present (phys m' idt 0x3FF)" and cr: "cr3 m' \<in> ds"
    and dirs: "\<And>d i. d \<in> ds \<Longrightarrow> phys m' d i = phys m d i"
    and free: "\<And>g. frame_free m' g \<Longrightarrow> frame_free m g"
    and pages: "\<And>i t j. is_table ds m i t \<Longrightarrow> j AND 0x3FF = j \<Longrightarrow> is_present (phys m' t j) \<Longrightarrow>
      phys m' t j = phys m t j
      \<or> \<not> frame_free m' (te_addr (phys m' t j)) \<and> (\<forall>k. \<not> is_table ds m k (te_addr (phys m' t j)))"
  shows "mm_inv idt ds m'"
proof -
  note D = mm_invD [OF inv]
  have tab: "is_table ds m' = is_table ds m" by (rule is_table_cong) (rule dirs)
  show ?thesis
  proof (rule mm_invI)
    show "te_addr (phys m' d i) = idt" if "d \<in> ds" "i \<in> {0, 768}" "is_present (phys m' d i)" for d i
      using D(7) [OF that(1,2)] that(3) unfolding dirs [OF that(1)] .
    show "0x500000 \<le> f" if "frame_free m' f" for f using D(8) [OF free [OF that]] .
    show "0x500000 \<le> t" if "is_table ds m' i t" for i t using D(9) that unfolding tab .
    show "\<not> frame_free m' t" if "is_table ds m' i t" for i t using D(10) [of i t] free [of t] that unfolding tab by blast
    show "i = j" if "is_table ds m' i t" "is_table ds m' j t" for i j t using D(11) that unfolding tab .
    fix i t j k
    assume "is_table ds m' i t" and j: "j AND 0x3FF = j" and p: "is_present (phys m' t j)"
    then have t: "is_table ds m i t" unfolding tab by simp
    show "\<not> frame_free m' (te_addr (phys m' t j))"
      using pages [OF t j p] D(12) [OF t j] free p by metis
    show "\<not> is_table ds m' k (te_addr (phys m' t j))"
      using pages [OF t j p] D(13) [OF t j] p unfolding tab by metis
  qed (use D low used temp cr in blast)+
qed

lemma mm_inv_take:
  assumes "mm_inv idt ds m" "\<And>g. frame_free (m\<lparr>m_frames_avail_bitmap := bm\<rparr>) g \<Longrightarrow> frame_free m g"
  shows "mm_inv idt ds (m\<lparr>m_frames_avail_bitmap := bm\<rparr>)"
  using mm_invD(1-4) [OF assms(1)] assms(2) by (intro mm_inv_change [OF assms(1)]) (auto simp: low_map_def)

lemma frame_free_poke [simp]: "frame_free (poke f w v m) g = frame_free m g"
  by (simp add: frame_free_def)

lemma frame_free_tempmap_used [simp]: "frame_free (m\<lparr>m_tempmap_used := b\<rparr>) g = frame_free m g"
  by (simp add: frame_free_def)

lemma table_neq:
  assumes "mm_inv idt ds m" "is_table ds m i t"
  shows "t \<noteq> idt" "\<And>d. d \<in> ds \<Longrightarrow> t \<noteq> d"
  using mm_invD(1,5) [OF assms(1)] mm_invD(9) [OF assms] low_not_high low_mapD(2) by metis+

lemma mm_inv_poke_table:
  assumes inv: "mm_inv idt ds m" and t: "is_table ds m i t"
    and v: "is_present v \<Longrightarrow> \<not> frame_free m (te_addr v) \<and> (\<forall>k. \<not> is_table ds m k (te_addr v))"
  shows "mm_inv idt ds (poke t j v m)"
proof (rule mm_inv_change [OF inv])
  note D = mm_invD [OF inv] and n = table_neq [OF inv t]
  show "low_map idt (poke t j v m)" using n D(4) by (intro low_map_poke D(1)) auto
  show "phys (poke t j v m) d k = phys m d k" if "d \<in> ds" for d k using n(2) [OF that] by (auto simp: phys_poke)
  show "\<not> is_present (phys (poke t j v m) idt 0x3FF)" using n D(3) by (auto simp: phys_poke)
  show "phys (poke t j v m) s k = phys m s k \<or> \<not> frame_free (poke t j v m) (te_addr (phys (poke t j v m) s k))
      \<and> (\<forall>l. \<not> is_table ds m l (te_addr (phys (poke t j v m) s k)))"
    if "is_present (phys (poke t j v m) s k)" for s k
    using that v by (auto simp: phys_poke split: if_splits)
qed (use mm_invD [OF inv] in simp_all)

lemma mm_inv_temp_unmapped:
  assumes inv: "mm_inv idt ds m"
  shows "mm_inv idt ds (temp_unmapped idt m)"
proof (rule mm_inv_change [OF inv])
  note D = mm_invD [OF inv]
  show "low_map idt (temp_unmapped idt m)" by (rule low_map_temp [OF D(1)])
  show "phys (temp_unmapped idt m) d k = phys m d k" if "d \<in> ds" for d k
    using D(6) [OF that] by (auto simp: temp_unmapped_def phys_poke)
  show "phys (temp_unmapped idt m) t k = phys m t k \<or> P" if "is_table ds m i t" for i t k P
    using table_neq(1) [OF inv that] by (auto simp: temp_unmapped_def phys_poke)
qed (use mm_invD(4) [OF inv] in \<open>simp_all add: temp_unmapped_def phys_poke\<close>)

lemma mapping_temp_unmapped:
  assumes "mm_inv idt ds m" "d \<in> ds"
  shows "mapping (temp_unmapped idt m) d a = mapping m d a"
proof -
  note D = mm_invD [OF assms(1)]
  show ?thesis using D(3) D(6) [OF assms(2)] by (auto simp: mapping_def temp_unmapped_def phys_poke Let_def)
qed


section \<open>Reaching the entry of an address\<close>

lemma vread_low:
  assumes "low_map idt m" "low_frame d" "i AND 0x3FF = i"
  shows "vread m (d + 4 * i) = Inr (phys m d i)"
  using xlate_low [OF assms] by (simp add: vread_def)

lemma index_bound [simp]: "unat (PageDirectory_get_index a) < 1024" "unat (PageTable_get_index a) < 1024"
  using index_less_1024 [of a] by (simp_all add: word_less_nat_alt)

lemma ensure_pte_present:
  assumes "low_map idt m" "\<not> m_tempmap_used m" "is_present (phys m (cr3 m) (PageDirectory_get_index a))"
  shows "ensure_pte m a c True = Inr (TEMPMAP_ADDR + 4 * PageTable_get_index a,
    temp_mapped idt (te_addr (phys m (cr3 m) (PageDirectory_get_index a))) m)"
  using vread_low [OF assms(1) low_mapD(1) [OF assms(1)], of "PageDirectory_get_index a"] low_mapD(4) [OF assms(1)]
    assms(3) temp_map_eq [OF assms(1,2)]
  by (simp add: ensure_pte_def ensure_pte_with_def get_pde_def get_pte_def)

definition with_table :: "u32 \<Rightarrow> u32 \<Rightarrow> u32 \<Rightarrow> mm \<Rightarrow> mm" where
  "with_table d i f m =
     (let m1 = poke d i (mapping_entry f True True True (phys m d i)) m in m1\<lparr>phys := (phys m1)(f := \<lambda>_. 0)\<rparr>)"

lemma phys_with_table:
  "phys (with_table d i f m) g w =
     (if g = f then 0 else if g = d \<and> w = i then mapping_entry f True True True (phys m d i) else phys m g w)"
  by (simp add: with_table_def phys_poke Let_def)

lemma with_table_simps [simp]:
  "cr3 (with_table d i f m) = cr3 m" "m_page_directory (with_table d i f m) = m_page_directory m"
  "m_frames_avail_bitmap (with_table d i f m) = m_frames_avail_bitmap m"
  "m_tempmap_used (with_table d i f m) = m_tempmap_used m"
  "m_kernel_PDEs_locked (with_table d i f m) = m_kernel_PDEs_locked m"
  "next_page_directory_allocation (with_table d i f m) = next_page_directory_allocation m"
  by (simp_all add: with_table_def Let_def)

lemma low_map_with_table:
  assumes "low_map idt m" "i \<noteq> 0" "0x500000 \<le> f"
  shows "low_map idt (with_table (cr3 m) i f m)"
  using assms low_not_high [OF _ assms(3)] by (auto simp: low_map_def phys_with_table)

lemma set_directory_entry:
  assumes "low_map idt m" "i AND 0x3FF = i" "i \<noteq> 0"
  shows "set_mapping (cr3 m + 4 * i) a p w u m = Inr (poke (cr3 m) i (mapping_entry a p w u (phys m (cr3 m) i)) m)"
proof (rule set_mapping_at)
  have "low_map idt (poke (cr3 m) i v m)" for v
    using assms low_mapD(3) [OF assms(1)] by (intro low_map_poke) auto
  then show "xlate (poke (cr3 m) i v m) (cr3 m + 4 * i) = Inr (cr3 m, i)" for v
    using low_mapD(1) [OF assms(1)] assms(2) by (intro xlate_low [where idt = idt]) auto
  show "xlate m (cr3 m + 4 * i) = Inr (cr3 m, i)"
    using assms low_mapD(1) [OF assms(1)] by (intro xlate_low [where idt = idt]) auto
qed

lemma zero_through_tempmap:
  assumes "low_map idt m" "f AND 0xFFF = 0" "f \<noteq> idt"
  shows "write_page TEMPMAP_ADDR (\<lambda>_. 0) (temp_mapped idt f m) = Inr (temp_mapped idt f (m\<lparr>phys := (phys m)(f := \<lambda>_. 0)\<rparr>))"
proof -
  have "xlate (temp_mapped idt f m) TEMPMAP_ADDR = Inr (f, 0)"
    using xlate_temp_mapped [OF assms(1,2), of 0] by simp
  moreover have "(temp_mapped idt f m)\<lparr>phys := (phys (temp_mapped idt f m))(f := \<lambda>_. 0)\<rparr>
      = temp_mapped idt f (m\<lparr>phys := (phys m)(f := \<lambda>_. 0)\<rparr>)"
    using assms(3) by (simp add: temp_mapped_def poke_def fun_upd_twist)
  ultimately show ?thesis by (simp add: write_page_def)
qed

lemma ensure_pte_new:
  assumes low: "low_map idt m" and used: "\<not> m_tempmap_used m"
    and absent: "\<not> is_present (phys m (cr3 m) (PageDirectory_get_index a))" and i: "PageDirectory_get_index a \<noteq> 0"
    and get: "get_free_frame m True = Inr (Some f, m\<lparr>m_frames_avail_bitmap := bm\<rparr>)"
    and f: "f AND 0xFFF = 0" "0x500000 \<le> f"
  shows "ensure_pte m a True True = Inr (TEMPMAP_ADDR + 4 * PageTable_get_index a,
    temp_mapped idt f (with_table (cr3 m) (PageDirectory_get_index a) f (m\<lparr>m_frames_avail_bitmap := bm\<rparr>)))"
proof -
  let ?i = "PageDirectory_get_index a" and ?m1 = "m\<lparr>m_frames_avail_bitmap := bm\<rparr>"
  let ?m2 = "poke (cr3 m) ?i (mapping_entry f True True True (phys m (cr3 m) ?i)) ?m1"
  have low1: "low_map idt ?m1" using low by (simp add: low_map_def)
  have set1: "set_mapping (cr3 m + 4 * ?i) f True True True ?m1 = Inr ?m2"
    using set_directory_entry [OF low1, of ?i] i by simp
  have low2: "low_map idt ?m2" using low_mapD(3) [OF low] i by (intro low_map_poke [OF low1]) auto
  have fi: "f \<noteq> idt" using low_not_high [OF low_mapD(2) [OF low] f(2)] .
  have rd: "vread m (cr3 m + 4 * ?i) = Inr (phys m (cr3 m) ?i)"
    using low_mapD(1) [OF low] by (intro vread_low [OF low]) auto
  have rd2: "vread ?m2 (cr3 m + 4 * ?i) = Inr (mapping_entry f True True True (phys m (cr3 m) ?i))"
    using vread_low [OF low2, of "cr3 m" ?i] low_mapD(1) [OF low] by (simp add: phys_poke)
  have tm: "temp_map f ?m2 = Inr (TEMPMAP_ADDR, temp_mapped idt f ?m2)"
    using used by (intro temp_map_eq [OF low2]) simp
  have z: "write_page TEMPMAP_ADDR (\<lambda>_. 0) (temp_mapped idt f ?m2) = Inr (temp_mapped idt f (with_table (cr3 m) ?i f ?m1))"
    using zero_through_tempmap [OF low2 f(1) fi] by (simp add: with_table_def Let_def)
  have locked: "\<not> (a < BIG_BUFFER_START \<and> a > BIG_BUFFER_END)" by (auto simp: word_less_nat_alt)
  show ?thesis
    using locked absent get set1 rd rd2 tm z f(1) low_mapD(4) [OF low]
    by (auto simp: ensure_pte_def ensure_pte_with_def get_pde_def get_pte_def simp del: rbind_Inr_iff)
qed


lemma frame_free_with_table [simp]: "frame_free (with_table d i f m) g = frame_free m g"
  by (simp add: frame_free_def)

text \<open>A frame that is neither free nor a table nor a page can become a page table.\<close>

definition unused_frame :: "u32 set \<Rightarrow> mm \<Rightarrow> u32 \<Rightarrow> bool" where
  "unused_frame ds m f \<longleftrightarrow> f AND 0xFFF = 0 \<and> 0x500000 \<le> f \<and> \<not> frame_free m f \<and> (\<forall>k. \<not> is_table ds m k f)
     \<and> (\<forall>k t j. is_table ds m k t \<longrightarrow> j AND 0x3FF = j \<longrightarrow> is_present (phys m t j) \<longrightarrow> te_addr (phys m t j) \<noteq> f)"

lemma not_present_0 [simp]: "\<not> is_present 0"
  by (simp add: flag_bits)

lemma is_table_with_table:
  assumes "mm_inv idt ds m" "unused_frame ds m f" "own_index i" "\<not> is_present (phys m (cr3 m) i)"
  shows "is_table ds (with_table (cr3 m) i f m) k t \<longleftrightarrow> is_table ds m k t \<or> k = i \<and> t = f"
proof -
  note D = mm_invD [OF assms(1)]
  have fa: "f AND 0xFFF = 0" and fd: "f \<noteq> d" if "d \<in> ds" for d
    using assms(2) low_not_high [OF D(5) [OF that]] by (auto simp: unused_frame_def)
  have ph: "phys (with_table (cr3 m) i f m) d w
      = (if d = cr3 m \<and> w = i then mapping_entry f True True True (phys m (cr3 m) i) else phys m d w)" if "d \<in> ds" for d w
    using fd [OF that] by (simp add: phys_with_table)
  show ?thesis
    using assms(3,4) D(4) fa [OF D(4)] by (auto simp: is_table_def ph split: if_splits) metis
qed

lemma mm_inv_with_table:
  assumes inv: "mm_inv idt ds m" and f: "unused_frame ds m f" and i: "own_index i"
    and absent: "\<not> is_present (phys m (cr3 m) i)"
  shows "mm_inv idt ds (with_table (cr3 m) i f m)"
proof -
  let ?m = "with_table (cr3 m) i f m"
  note D = mm_invD [OF inv]
  note tab = is_table_with_table [OF inv f i absent]
  have f': "0x500000 \<le> f" "\<not> frame_free m f" "\<not> is_table ds m k f" for k
    using f by (auto simp: unused_frame_def)
  have fm: "te_addr (phys m t j) \<noteq> f" if "is_table ds m k t" "j AND 0x3FF = j" "is_present (phys m t j)" for k t j
    using f that by (auto simp: unused_frame_def)
  have i': "i \<noteq> 0" "i \<noteq> 768" using i by (auto simp: own_index_def)
  have fi: "f \<noteq> idt" "\<And>d. d \<in> ds \<Longrightarrow> f \<noteq> d"
    using low_not_high [OF _ f'(1)] D(5) low_mapD(2) [OF D(1)] by blast+
  have ent: "is_table ds m k t \<and> phys ?m t j = phys m t j" if "is_table ds ?m k t" "is_present (phys ?m t j)" for k t j
    using that table_neq [OF inv, of k t] D(4) f'(3) by (auto simp: tab phys_with_table split: if_splits)
  show ?thesis
  proof (rule mm_invI)
    show "low_map idt ?m" using i' f' by (intro low_map_with_table D(1))
    show "\<not> is_present (phys ?m idt 0x3FF)" using D(3) fi(1) low_mapD(3) [OF D(1)] by (simp add: phys_with_table)
    show "te_addr (phys ?m d j) = idt" if "d \<in> ds" "j \<in> {0, 768}" "is_present (phys ?m d j)" for d j
      using that D(7) [OF that(1,2)] i' fi(2) by (auto simp: phys_with_table split: if_splits)
    show "0x500000 \<le> t" "\<not> frame_free ?m t" if "is_table ds ?m k t" for k t
      using that D(9,10) f' by (auto simp: tab)
    show "k = l" if "is_table ds ?m k t" "is_table ds ?m l t" for k l t
      using that D(11) f' by (auto simp: tab)
    fix k t j l
    assume "is_table ds ?m k t" and j: "j AND 0x3FF = j" and p: "is_present (phys ?m t j)"
    then have e: "is_table ds m k t" "phys ?m t j = phys m t j" using ent by blast+
    show "\<not> frame_free ?m (te_addr (phys ?m t j))" using D(12) [OF e(1) j] p e(2) by simp
    show "\<not> is_table ds ?m l (te_addr (phys ?m t j))"
      using D(13) [OF e(1) j] fm [OF e(1) j] p e(2) by (simp add: tab)
  qed (use D in simp_all)
qed

lemma mapping_with_table:
  assumes inv: "mm_inv idt ds m" and f: "unused_frame ds m f" and i: "own_index i"
    and absent: "\<not> is_present (phys m (cr3 m) i)" and d: "d \<in> ds"
  shows "mapping (with_table (cr3 m) i f m) d b = mapping m d b"
proof (cases "d = cr3 m \<and> PageDirectory_get_index b = i")
  case True
  have "f \<noteq> cr3 m" "f AND 0xFFF = 0" using f low_not_high [OF low_mapD(1) [OF mm_invD(1) [OF inv]]] by (auto simp: unused_frame_def)
  then show ?thesis using True absent by (simp add: mapping_def phys_with_table Let_def)
next
  case False
  note D = mm_invD [OF inv]
  have f': "f \<noteq> d'" if "d' \<in> ds \<or> d' = idt" for d'
    using that f low_not_high D(5) low_mapD(2) [OF D(1)] by (auto simp: unused_frame_def)
  let ?i = "PageDirectory_get_index b"
  have pde: "phys (with_table (cr3 m) i f m) d ?i = phys m d ?i" using False f' d by (auto simp: phys_with_table)
  have "te_addr (phys m d ?i) \<noteq> f \<and> te_addr (phys m d ?i) \<noteq> cr3 m" if p: "is_present (phys m d ?i)"
  proof (cases "own_index ?i")
    case True
    then have "is_table ds m ?i (te_addr (phys m d ?i))" using d p by (auto simp: is_table_def)
    then show ?thesis using table_neq(2) [OF inv _ D(4)] f by (auto simp: unused_frame_def)
  next
    case False
    then have "te_addr (phys m d ?i) = idt" using D(7) [OF d _ p] by (auto simp: own_index_def)
    then show ?thesis using f' [of idt] low_mapD(3) [OF D(1)] by simp
  qed
  then show ?thesis unfolding mapping_def pde by (auto simp: phys_with_table Let_def)
qed


lemma free_frame_taken:
  assumes inv: "mm_inv idt ds m" and f: "frame_free m f"
    and bm: "\<And>m' g. m_frames_avail_bitmap m' = bm \<Longrightarrow> frame_free m' g \<longleftrightarrow> g \<noteq> f \<and> frame_free m g"
  shows "mm_inv idt ds (m\<lparr>m_frames_avail_bitmap := bm\<rparr>)" "unused_frame ds (m\<lparr>m_frames_avail_bitmap := bm\<rparr>) f"
proof -
  let ?m = "m\<lparr>m_frames_avail_bitmap := bm\<rparr>"
  note D = mm_invD [OF inv]
  have fr: "frame_free ?m g \<longleftrightarrow> g \<noteq> f \<and> frame_free m g" for g by (rule bm) simp
  then show "mm_inv idt ds ?m" by (intro mm_inv_take [OF inv]) simp
  have "is_table ds ?m = is_table ds m" by (rule is_table_cong) simp
  moreover have "te_addr (phys m t j) \<noteq> f" if "is_table ds m k t" "j AND 0x3FF = j" "is_present (phys m t j)" for k t j
    using D(12) [OF that] f by auto
  ultimately show "unused_frame ds ?m f"
    using D(8) [OF f] D(10) [of _ f] f fr by (auto simp: unused_frame_def frame_free_aligned)
qed

text \<open>Directories other than the current one that use the same page table at an entry.\<close>

definition shares :: "mm \<Rightarrow> u32 \<Rightarrow> u32 \<Rightarrow> bool" where
  "shares m d i \<longleftrightarrow> is_present (phys m d i) \<and> is_present (phys m (cr3 m) i)
     \<and> te_addr (phys m d i) = te_addr (phys m (cr3 m) i)"

text \<open>
  \<^verbatim>\<open>ensure_pte\<close> on an address whose table exists or can be created: a state in which the table
  is there, the address spaces are what they were, and the table is mapped temporarily.
\<close>

lemma ensure_pte_reaches:
  assumes inv: "mm_inv idt ds m" and own: "own_index (PageDirectory_get_index a)"
    and room: "is_present (phys m (cr3 m) (PageDirectory_get_index a)) \<or> (\<exists>f. frame_free m f)"
  obtains m1 t where
    "ensure_pte m a True True = Inr (TEMPMAP_ADDR + 4 * PageTable_get_index a, temp_mapped idt t m1)"
    "t = te_addr (phys m1 (cr3 m1) (PageDirectory_get_index a))" "is_present (phys m1 (cr3 m1) (PageDirectory_get_index a))"
    "is_table ds m1 (PageDirectory_get_index a) t" "mm_inv idt ds m1" "cr3 m1 = cr3 m"
    "\<And>d b. d \<in> ds \<Longrightarrow> mapping m1 d b = mapping m d b" "\<And>g. frame_free m1 g \<longleftrightarrow> frame_free m g \<and> g \<noteq> t"
    "\<And>d. d \<in> ds \<Longrightarrow> d = cr3 m \<or> shares m d (PageDirectory_get_index a) \<longleftrightarrow>
       is_present (phys m1 d (PageDirectory_get_index a)) \<and> te_addr (phys m1 d (PageDirectory_get_index a)) = t"
    "\<And>k g. \<not> frame_free m g \<Longrightarrow> is_table ds m1 k g \<Longrightarrow> is_table ds m k g"
    "is_present (phys m (cr3 m) (PageDirectory_get_index a)) \<Longrightarrow> m1 = m"
proof (cases "is_present (phys m (cr3 m) (PageDirectory_get_index a))")
  case True
  note D = mm_invD [OF inv]
  have "is_table ds m (PageDirectory_get_index a) (te_addr (phys m (cr3 m) (PageDirectory_get_index a)))"
    using True own D(4) by (auto simp: is_table_def)
  then show thesis
    using ensure_pte_present [OF D(1,2) True, of True] True own D(4) D(10) inv
    by (intro that [of "te_addr (phys m (cr3 m) (PageDirectory_get_index a))" m]) (auto simp: is_table_def shares_def)
next
  case False
  note D = mm_invD [OF inv]
  let ?i = "PageDirectory_get_index a"
  have i: "?i \<noteq> 0" using own by (simp add: own_index_def)
  show thesis
  proof (cases m rule: get_free_frame_cases)
    case none
    then show thesis using room False by blast
  next
    case (some f bm)
    let ?m0 = "m\<lparr>m_frames_avail_bitmap := bm\<rparr>"
    note taken = free_frame_taken [OF inv some(2,4)]
    have absent: "\<not> is_present (phys ?m0 (cr3 ?m0) ?i)" using False by simp
    have f: "f AND 0xFFF = 0" "0x500000 \<le> f" using taken(2) by (auto simp: unused_frame_def)
    let ?m1 = "with_table (cr3 m) ?i f ?m0"
    have en: "ensure_pte m a True True = Inr (TEMPMAP_ADDR + 4 * PageTable_get_index a, temp_mapped idt f ?m1)"
      using ensure_pte_new [OF D(1,2) False i some(1) f] .
    have fd: "f \<noteq> d" if "d \<in> ds" for d using low_not_high [OF D(5) [OF that] f(2)] .
    have inv1: "mm_inv idt ds ?m1" using mm_inv_with_table [OF taken own absent] by simp
    have e: "phys ?m1 (cr3 m) ?i = mapping_entry f True True True (phys m (cr3 m) ?i)"
      using fd [OF D(4)] by (simp add: phys_with_table)
    have tab: "is_table ds ?m1 k t \<longleftrightarrow> is_table ds ?m0 k t \<or> k = ?i \<and> t = f" for k t
      using is_table_with_table [OF taken own absent] by simp
    have map1: "mapping ?m1 d b = mapping m d b" if "d \<in> ds" for d b
      using mapping_with_table [OF taken own absent that, of b] by (simp add: mapping_def)
    have keep: "is_table ds m k g" if "\<not> frame_free m g" "is_table ds ?m1 k g" for k g
      using that some(2) is_table_cong [of ds ?m0 m] by (auto simp: tab)
    have nf: "\<not> is_table ds m ?i f" using D(10) [of ?i f] some(2) by blast
    have other: "d = cr3 m \<or> shares m d ?i \<longleftrightarrow> is_present (phys ?m1 d ?i) \<and> te_addr (phys ?m1 d ?i) = f" if "d \<in> ds" for d
      using that fd nf own e f(1) False by (auto simp: phys_with_table shares_def is_table_def)
    have fr: "frame_free ?m1 g \<longleftrightarrow> frame_free m g \<and> g \<noteq> f" for g using some(4) [of ?m1 g] by auto
    show thesis
      using en e f(1) inv1 tab map1 fr other keep False by (intro that [of f ?m1]) auto
  qed
qed


section \<open>Writing an entry\<close>

lemma mapping_entry_twice:
  assumes "a AND 0xFFF = 0" "b AND 0xFFF = 0"
  shows "mapping_entry a p w u (mapping_entry b p' w' u' e) = mapping_entry a p w u e"
  using assms by (intro bit_word_eqI) (auto simp: bit_mapping_entry)

lemma temp_unmapped_temp_mapped:
  assumes "t \<noteq> idt" "b AND 0xFFF = 0"
  shows "temp_unmapped idt (poke t j v (temp_mapped idt b m)) = temp_unmapped idt (poke t j v m)"
proof -
  have "poke idt 0x3FF x (poke t j v (poke idt 0x3FF y m)) = poke idt 0x3FF x (poke t j v m)" for x y
    using poke_commute [of t j idt "0x3FF" v y m] assms(1) by simp
  then show ?thesis
    using assms by (simp add: temp_unmapped_def temp_mapped_def phys_poke mapping_entry_twice poke_def)
qed

lemma xlate_entry:
  assumes low: "low_map idt m" and t: "t \<noteq> idt" "t \<noteq> cr3 m" "t AND 0xFFF = 0" and j: "j AND 0x3FF = j"
  shows "xlate (poke t j v (temp_mapped idt t m)) (TEMPMAP_ADDR + 4 * j) = Inr (t, j)"
    "xlate (temp_mapped idt t m) (TEMPMAP_ADDR + 4 * j) = Inr (t, j)"
proof -
  have "low_map idt (poke t j v (temp_mapped idt t m))"
    using t by (intro low_map_poke low_map_temp low) (auto simp: temp_mapped_def)
  moreover have "phys (poke t j v (temp_mapped idt t m)) idt 0x3FF = mapping_entry t True True False (phys m idt 0x3FF)"
    using t by (auto simp: temp_mapped_def phys_poke)
  ultimately show "xlate (poke t j v (temp_mapped idt t m)) (TEMPMAP_ADDR + 4 * j) = Inr (t, j)"
    using t(3) j by (intro xlate_tempmap [where idt = idt]) auto
qed (rule xlate_temp_mapped [OF low t(3) j])

lemma entry_through_tempmap:
  assumes low: "low_map idt m" and t: "t \<noteq> idt" "t \<noteq> cr3 m" "t AND 0xFFF = 0" and j: "j AND 0x3FF = j"
  shows "vread (temp_mapped idt t m) (TEMPMAP_ADDR + 4 * j) = Inr (phys m t j)"
    "set_mapping (TEMPMAP_ADDR + 4 * j) a p w u (temp_mapped idt t m)
      = Inr (poke t j (mapping_entry a p w u (phys m t j)) (temp_mapped idt t m))"
    "update_entry (TEMPMAP_ADDR + 4 * j) g (temp_mapped idt t m) = Inr (poke t j (g (phys m t j)) (temp_mapped idt t m))"
    "un_temp_map (poke t j v (temp_mapped idt t m)) = Inr (temp_unmapped idt (poke t j v m))"
    "un_temp_map (temp_mapped idt t m) = Inr (temp_unmapped idt m)"
proof -
  note x = xlate_entry [OF assms]
  have ph: "phys (temp_mapped idt t m) t j = phys m t j" using t by (simp add: temp_mapped_def phys_poke)
  show "vread (temp_mapped idt t m) (TEMPMAP_ADDR + 4 * j) = Inr (phys m t j)" using x(2) ph by (simp add: vread_def)
  show "set_mapping (TEMPMAP_ADDR + 4 * j) a p w u (temp_mapped idt t m)
      = Inr (poke t j (mapping_entry a p w u (phys m t j)) (temp_mapped idt t m))"
    using set_mapping_at [OF x, of a p w u] ph by simp
  show "update_entry (TEMPMAP_ADDR + 4 * j) g (temp_mapped idt t m) = Inr (poke t j (g (phys m t j)) (temp_mapped idt t m))"
    using update_entry_at [OF x(2), of g] ph by simp
  have low1: "low_map idt (poke t j v (temp_mapped idt t m))" for v
    using t by (intro low_map_poke low_map_temp low) (auto simp: temp_mapped_def)
  show "un_temp_map (poke t j v (temp_mapped idt t m)) = Inr (temp_unmapped idt (poke t j v m))" for v
    using un_temp_map_eq [OF low1] temp_unmapped_temp_mapped [OF t(1,3)] by simp
  show "un_temp_map (temp_mapped idt t m) = Inr (temp_unmapped idt m)"
    using un_temp_map_eq [OF low_map_temp(1) [OF low]] temp_unmapped_temp_mapped [OF t(1,3), of 0 "phys m t 0" m] t
    by (simp add: temp_unmapped_def temp_mapped_def mapping_entry_twice phys_poke poke_def)
qed


lemma same_page_iff:
  "te_addr a = te_addr b \<longleftrightarrow>
    PageDirectory_get_index a = PageDirectory_get_index b \<and> PageTable_get_index a = PageTable_get_index b"
proof
  assume eq: "te_addr a = te_addr b"
  have h: "bit a n = bit b n" if "12 \<le> n" for n
    using arg_cong [OF eq, of "\<lambda>e. bit e n"] that by (simp add: bit_te_addr)
  show "PageDirectory_get_index a = PageDirectory_get_index b \<and> PageTable_get_index a = PageTable_get_index b"
    by (intro conjI bit_word_eqI) (simp_all add: bit_PageDirectory_get_index bit_PageTable_get_index h)
next
  assume eq: "PageDirectory_get_index a = PageDirectory_get_index b \<and> PageTable_get_index a = PageTable_get_index b"
  show "te_addr a = te_addr b"
  proof (rule bit_word_eqI)
    fix n assume n: "n < LENGTH(32)"
    show "bit (te_addr a) n = bit (te_addr b) n"
    proof (cases "n < 22")
      case True
      then show ?thesis using eq bit_PageTable_get_index [of a "n - 12"] bit_PageTable_get_index [of b "n - 12"]
        by (auto simp: bit_te_addr)
    next
      case False
      then show ?thesis using n eq bit_PageDirectory_get_index [of a "n - 22"] bit_PageDirectory_get_index [of b "n - 22"]
        by (auto simp: bit_te_addr)
    qed
  qed
qed

lemma index_of_table:
  assumes inv: "mm_inv idt ds m" and t: "is_table ds m i t" and d: "d \<in> ds" and k: "k AND 0x3FF = k"
    and p: "is_present (phys m d k)" "te_addr (phys m d k) = t"
  shows "k = i"
proof (cases "own_index k")
  case True
  then have "is_table ds m k t" using d p by (auto simp: is_table_def)
  then show ?thesis using mm_invD(11) [OF inv] t by blast
next
  case False
  then have "t = idt" using mm_invD(7) [OF inv d _ p(1)] k p(2) by (auto simp: own_index_def)
  then show ?thesis using table_neq(1) [OF inv t] by simp
qed

lemma mapping_poke_table:
  assumes inv: "mm_inv idt ds m" and t: "is_table ds m (PageDirectory_get_index a) t" and d: "d \<in> ds"
  shows "mapping (poke t (PageTable_get_index a) v m) d b =
    (if te_addr b = te_addr a \<and> is_present (phys m d (PageDirectory_get_index a))
        \<and> te_addr (phys m d (PageDirectory_get_index a)) = t
     then if is_present v then Some (te_addr v, is_writable v, is_user_allowed v) else None
     else mapping m d b)"
proof -
  have dir: "phys (poke t (PageTable_get_index a) v m) d k = phys m d k" for k
    using table_neq(2) [OF inv t d] by (auto simp: phys_poke)
  show ?thesis
  proof (cases "is_present (phys m d (PageDirectory_get_index b)) \<and> te_addr (phys m d (PageDirectory_get_index b)) = t")
    case True
    then have "PageDirectory_get_index b = PageDirectory_get_index a"
      using index_of_table [OF inv t d, of "PageDirectory_get_index b"] by simp
    moreover have "phys (poke t (PageTable_get_index a) v m) t x = (if x = PageTable_get_index a then v else phys m t x)" for x
      by (simp add: phys_poke)
    ultimately show ?thesis using True by (simp add: mapping_def dir same_page_iff [of b a] Let_def)
  next
    case False
    then have "mapping (poke t (PageTable_get_index a) v m) d b = mapping m d b"
      unfolding mapping_def Let_def dir by (auto simp: phys_poke)
    with False show ?thesis by (auto simp: same_page_iff [of b a])
  qed
qed

lemma map_page_maps:
  assumes inv: "mm_inv idt ds m" and own: "own_index (PageDirectory_get_index a)"
    and absent: "mapping m (cr3 m) a = None"
    and room: "is_present (phys m (cr3 m) (PageDirectory_get_index a)) \<or> (\<exists>f. frame_free m f)"
    and p: "p AND 0xFFF = 0" "\<not> frame_free m p" "\<And>k. \<not> is_table ds m k p"
  shows "\<exists>m'. map_page m a p w u = Inr (E_OK, m') \<and> mm_inv idt ds m' \<and> cr3 m' = cr3 m
    \<and> (\<forall>d\<in>ds. \<forall>b. mapping m' d b =
         (if te_addr b = te_addr a \<and> (d = cr3 m \<or> shares m d (PageDirectory_get_index a)) then Some (p, w, u)
          else mapping m d b))
    \<and> (\<forall>d\<in>ds. d = cr3 m \<or> shares m' d (PageDirectory_get_index a) \<longleftrightarrow>
         d = cr3 m \<or> shares m d (PageDirectory_get_index a))
    \<and> (\<exists>h. \<forall>g. frame_free m' g \<longleftrightarrow> frame_free m g \<and> g \<noteq> h)"
proof -
  let ?i = "PageDirectory_get_index a" and ?j = "PageTable_get_index a"
  obtain t m1 where en: "ensure_pte m a True True = Inr (TEMPMAP_ADDR + 4 * ?j, temp_mapped idt t m1)"
    and t: "t = te_addr (phys m1 (cr3 m1) ?i)" "is_present (phys m1 (cr3 m1) ?i)" "is_table ds m1 ?i t"
    and inv1: "mm_inv idt ds m1" "cr3 m1 = cr3 m"
    and map1: "\<And>d b. d \<in> ds \<Longrightarrow> mapping m1 d b = mapping m d b"
    and free1: "\<And>g. frame_free m1 g \<longleftrightarrow> frame_free m g \<and> g \<noteq> t"
    and sh: "\<And>d. d \<in> ds \<Longrightarrow> d = cr3 m \<or> shares m d ?i \<longleftrightarrow> is_present (phys m1 d ?i) \<and> te_addr (phys m1 d ?i) = t"
    and tab: "\<And>k g. \<not> frame_free m g \<Longrightarrow> is_table ds m1 k g \<Longrightarrow> is_table ds m k g"
    and same: "is_present (phys m (cr3 m) ?i) \<Longrightarrow> m1 = m"
    by (rule ensure_pte_reaches [OF inv own room]) (rule that)
  note D1 = mm_invD [OF inv1(1)]
  have tn: "t \<noteq> idt" "t \<noteq> cr3 m1" "t AND 0xFFF = 0" using table_neq [OF inv1(1) t(3)] D1(4) t(1) by auto
  note io = entry_through_tempmap [OF D1(1) tn, of ?j]
  have np: "\<not> is_present (phys m1 t ?j)"
    using map1 [OF D1(4), of a] absent t inv1(2) by (auto simp: mapping_def Let_def split: if_splits)
  let ?v = "mapping_entry p True w u (phys m1 t ?j)"
  let ?m2 = "poke t ?j ?v m1"
  have inv2: "mm_inv idt ds ?m2"
    using p tab free1 by (intro mm_inv_poke_table [OF inv1(1) t(3)]) auto
  have mp: "map_page m a p w u = Inr (E_OK, temp_unmapped idt ?m2)"
    using en io np by (simp add: map_page_def)
  have "mapping (temp_unmapped idt ?m2) d b =
      (if te_addr b = te_addr a \<and> (d = cr3 m \<or> shares m d ?i) then Some (p, w, u) else mapping m d b)" if "d \<in> ds" for d b
    using mapping_temp_unmapped [OF inv2 that] mapping_poke_table [OF inv1(1) t(3) that] sh [OF that] map1 [OF that] p(1)
    by simp
  moreover have "d = cr3 m \<or> shares (temp_unmapped idt ?m2) d ?i \<longleftrightarrow> d = cr3 m \<or> shares m d ?i" if "d \<in> ds" for d
  proof -
    have "phys (temp_unmapped idt ?m2) d' ?i = phys m1 d' ?i" if "d' \<in> ds" for d'
      using D1(6) [OF that] table_neq(2) [OF inv1(1) t(3) that] by (auto simp: temp_unmapped_def phys_poke)
    then have "shares (temp_unmapped idt ?m2) d ?i \<longleftrightarrow> is_present (phys m1 d ?i) \<and> te_addr (phys m1 d ?i) = t"
      using that D1(4) t(1,2) by (auto simp: shares_def temp_unmapped_def)
    then show ?thesis using sh [OF that] by blast
  qed
  ultimately show ?thesis
    using mp mm_inv_temp_unmapped [OF inv2] inv1(2) free1 by (intro exI [of _ "temp_unmapped idt ?m2"]) (auto simp: temp_unmapped_def)
qed


section \<open>Allocating and freeing pages\<close>

lemma MM_allocate_maps:
  assumes inv: "mm_inv idt ds m" and own: "own_index (PageDirectory_get_index a)"
    and absent: "mapping m (cr3 m) a = None"
    and f: "frame_free m f" "is_present (phys m (cr3 m) (PageDirectory_get_index a)) \<or> (\<exists>g. g \<noteq> f \<and> frame_free m g)"
  obtains m' p h where "MM_allocate m a w u = Inr m'" "frame_free m p" "\<And>g. frame_free m g \<Longrightarrow> p \<le> g"
    "mm_inv idt ds m'" "cr3 m' = cr3 m"
    "\<And>d b. d \<in> ds \<Longrightarrow> mapping m' d b =
       (if te_addr b = te_addr a \<and> (d = cr3 m \<or> shares m d (PageDirectory_get_index a)) then Some (p, w, u)
        else mapping m d b)"
    "\<And>d. d \<in> ds \<Longrightarrow> d = cr3 m \<or> shares m' d (PageDirectory_get_index a) \<longleftrightarrow>
       d = cr3 m \<or> shares m d (PageDirectory_get_index a)"
    "\<And>g. frame_free m' g \<longleftrightarrow> frame_free m g \<and> g \<noteq> p \<and> g \<noteq> h"
proof (cases m rule: get_free_frame_cases)
  case none
  then show thesis using f(1) by blast
next
  case (some p bm)
  let ?m = "m\<lparr>m_frames_avail_bitmap := bm\<rparr>"
  note taken = free_frame_taken [OF inv some(2,4)]
  have fr: "frame_free ?m g \<longleftrightarrow> g \<noteq> p \<and> frame_free m g" for g by (rule some(4)) simp
  have mp: "mapping ?m = mapping m" and sh: "shares ?m = shares m"
    by (simp_all add: mapping_def shares_def fun_eq_iff)
  have room: "is_present (phys ?m (cr3 ?m) (PageDirectory_get_index a)) \<or> (\<exists>f. frame_free ?m f)"
    using f fr some(2) by simp metis
  have absent': "mapping ?m (cr3 ?m) a = None" using absent mp by simp
  have p: "p AND 0xFFF = 0" "\<not> frame_free ?m p" "\<And>k. \<not> is_table ds ?m k p"
    using taken(2) by (auto simp: unused_frame_def)
  from map_page_maps [OF taken(1) own absent' room p, of w u, unfolded mp sh] obtain m' h where
    m': "map_page ?m a p w u = Inr (E_OK, m')" "mm_inv idt ds m'" "cr3 m' = cr3 m"
      "\<And>d b. d \<in> ds \<Longrightarrow> mapping m' d b =
         (if te_addr b = te_addr a \<and> (d = cr3 m \<or> shares m d (PageDirectory_get_index a)) then Some (p, w, u)
          else mapping m d b)"
      "\<And>d. d \<in> ds \<Longrightarrow> d = cr3 m \<or> shares m' d (PageDirectory_get_index a) \<longleftrightarrow>
         d = cr3 m \<or> shares m d (PageDirectory_get_index a)"
      "\<And>g. frame_free m' g \<longleftrightarrow> frame_free ?m g \<and> g \<noteq> h"
    by auto
  have "MM_allocate m a w u = Inr m'" using some(1) m'(1) by (simp add: MM_allocate_def)
  then show thesis using some(2,3) m' fr by (intro that [of m' p h]) auto
qed

text \<open>Every pair of indices belongs to an address.\<close>

lemma address_of_indices:
  assumes "k AND 0x3FF = k" "l AND 0x3FF = l"
  shows "\<exists>b. PageDirectory_get_index b = k \<and> PageTable_get_index b = l"
proof (intro exI conjI)
  let ?b = "push_bit 22 k OR push_bit 12 l"
  have kl: "bit k n \<Longrightarrow> n < 10" "bit l n \<Longrightarrow> n < 10" for n
    using assms unfolding index_bit by (metis not_le)+
  show "PageDirectory_get_index ?b = k"
    using kl(1) kl(2) [of "10 + _"] by (intro bit_word_eqI) (auto simp: bit_PageDirectory_get_index bit_simps)
  show "PageTable_get_index ?b = l"
    using kl(2) kl(2) [THEN less_trans, of _ 20] by (intro bit_word_eqI) (auto simp: bit_PageTable_get_index bit_simps)
qed

lemma mm_inv_release:
  assumes inv: "mm_inv idt ds m" and f: "0x500000 \<le> f" "\<And>k. \<not> is_table ds m k f"
    and unmapped: "\<And>k t j. is_table ds m k t \<Longrightarrow> j AND 0x3FF = j \<Longrightarrow> is_present (phys m t j) \<Longrightarrow> te_addr (phys m t j) \<noteq> f"
    and bm: "\<And>g. frame_free (m\<lparr>m_frames_avail_bitmap := bm\<rparr>) g \<longleftrightarrow> g = f \<or> frame_free m g"
  shows "mm_inv idt ds (m\<lparr>m_frames_avail_bitmap := bm\<rparr>)"
proof -
  let ?m = "m\<lparr>m_frames_avail_bitmap := bm\<rparr>"
  note D = mm_invD [OF inv]
  have tab: "is_table ds ?m = is_table ds m" by (rule is_table_cong) simp
  show ?thesis
  proof (rule mm_invI)
    show "low_map idt ?m" using D(1) by (simp add: low_map_def)
    show "te_addr (phys ?m d i) = idt" if "d \<in> ds" "i \<in> {0, 768}" "is_present (phys ?m d i)" for d i
      using D(7) [OF that(1,2)] that(3) by simp
    show "\<not> frame_free ?m (te_addr (phys ?m t j))"
      if "is_table ds ?m i t" "j AND 0x3FF = j" "is_present (phys ?m t j)" for i t j
      using that D(12) [of i t j] unmapped [of i t j] unfolding tab bm by simp
    show "\<not> is_table ds ?m k (te_addr (phys ?m t j))"
      if "is_table ds ?m i t" "j AND 0x3FF = j" "is_present (phys ?m t j)" for i t j k
      using that D(13) [of i t j] unfolding tab by simp
    show "\<not> frame_free ?m t" if "is_table ds ?m i t" for i t
      using D(10) [of i t] f(2) [of i] that unfolding tab bm by auto
    show "0x500000 \<le> g" if "frame_free ?m g" for g using that D(8) f(1) unfolding bm by auto
    show "i = j" if "is_table ds ?m i t" "is_table ds ?m j t" for i j t using D(11) that unfolding tab .
    show "0x500000 \<le> t" if "is_table ds ?m i t" for i t using D(9) that unfolding tab .
  qed (use D in simp_all)
qed


text \<open>An entry of a table is the mapping of an address.\<close>

lemma entry_of_frame:
  assumes "is_table ds m k s" "l AND 0x3FF = l" "is_present (phys m s l)" "te_addr (phys m s l) = f"
  obtains d b where "d \<in> ds" "mapping m d b = Some (f, is_writable (phys m s l), is_user_allowed (phys m s l))"
    "PageDirectory_get_index b = k" "PageTable_get_index b = l" "te_addr (phys m d k) = s"
proof -
  from assms(1) obtain d where d: "d \<in> ds" "is_present (phys m d k)" "te_addr (phys m d k) = s" "k AND 0x3FF = k"
    by (auto simp: is_table_def own_index_def)
  obtain b where b: "PageDirectory_get_index b = k" "PageTable_get_index b = l"
    using address_of_indices [OF d(4) assms(2)] by blast
  show thesis using b d assms(3,4) by (intro that [of d b]) (simp_all add: mapping_def Let_def)
qed

lemma deallocate_unmaps:
  assumes inv: "mm_inv idt ds m" and own: "own_index (PageDirectory_get_index a)"
    and f: "mapping m (cr3 m) a = Some (f, w, u)" "0x500000 \<le> f" "fst (get_bitmap_entry f) < N_FRAME_BITMAP_ENTRIES"
    and only: "\<And>d b x. d \<in> ds \<Longrightarrow> own_index (PageDirectory_get_index b) \<Longrightarrow> mapping m d b = Some (f, x) \<Longrightarrow>
      te_addr b = te_addr a \<and> (d = cr3 m \<or> shares m d (PageDirectory_get_index a))"
  obtains m' where "deallocate m a True = Inr m'" "mm_inv idt ds m'" "cr3 m' = cr3 m"
    "\<And>d b. d \<in> ds \<Longrightarrow> mapping m' d b =
       (if te_addr b = te_addr a \<and> (d = cr3 m \<or> shares m d (PageDirectory_get_index a)) then None else mapping m d b)"
    "\<And>g. frame_free m' g \<longleftrightarrow> g = f \<or> frame_free m g"
proof -
  let ?i = "PageDirectory_get_index a" and ?j = "PageTable_get_index a"
  note D = mm_invD [OF inv]
  define t where "t = te_addr (phys m (cr3 m) ?i)"
  have p: "is_present (phys m (cr3 m) ?i)" "is_present (phys m t ?j)" "te_addr (phys m t ?j) = f"
    using f(1) by (auto simp: mapping_def t_def Let_def split: if_splits)
  have t: "is_table ds m ?i t" using own D(4) p(1) by (auto simp: is_table_def t_def)
  have tn: "t \<noteq> idt" "t \<noteq> cr3 m" "t AND 0xFFF = 0" using table_neq [OF inv t] D(4) by (auto simp: t_def)
  have fa: "is_frame_aligned f" unfolding is_frame_aligned_iff using p(3) by auto
  obtain bm where bm: "\<And>m'. m_frames_avail_bitmap m' = m_frames_avail_bitmap m \<Longrightarrow>
      set_frame m' f True = Inr (m'\<lparr>m_frames_avail_bitmap := bm\<rparr>)"
    "\<And>m' g. m_frames_avail_bitmap m' = bm \<Longrightarrow> frame_free m' g \<longleftrightarrow> g = f \<or> frame_free m g"
    using set_frame_eq [OF fa f(3), of m True] by auto
  let ?mb = "m\<lparr>m_frames_avail_bitmap := bm\<rparr>"
  have lowb: "low_map idt ?mb" using D(1) by (simp add: low_map_def)
  have T: "(temp_mapped idt t m)\<lparr>m_frames_avail_bitmap := bm\<rparr> = temp_mapped idt t ?mb"
    by (simp add: temp_mapped_def poke_def)
  have sf: "set_frame_available (temp_mapped idt t m) f = Inr (temp_mapped idt t ?mb)"
    using bm(1) [of "temp_mapped idt t m"] fa T by (simp add: set_frame_available_def Frame_def temp_mapped_def)
  note io = entry_through_tempmap [OF D(1) tn, of ?j] and iob = entry_through_tempmap [OF lowb tn(1) _ tn(3), of ?j]
  have cr: "t \<noteq> cr3 ?mb" using tn(2) by simp
  have de: "deallocate m a True = Inr (temp_unmapped idt (poke t ?j 0 ?mb))"
    using ensure_pte_present [OF D(1,2) p(1), of True] io(1) p(2,3) sf iob(3) [OF cr, of "\<lambda>_. 0"] iob(4) [OF cr, of 0]
    by (simp add: deallocate_def t_def [symmetric])
  have inv1: "mm_inv idt ds (poke t ?j 0 m)" using mm_inv_poke_table [OF inv t, of 0] by simp
  have pk: "poke t ?j 0 ?mb = (poke t ?j 0 m)\<lparr>m_frames_avail_bitmap := bm\<rparr>" by (simp add: poke_def)
  have tab1: "is_table ds (poke t ?j 0 m) = is_table ds m"
    using table_neq(2) [OF inv t] by (intro is_table_cong) (auto simp: phys_poke)
  have un: "te_addr (phys (poke t ?j 0 m) s l) \<noteq> f"
    if "is_table ds m k s" "l AND 0x3FF = l" "is_present (phys (poke t ?j 0 m) s l)" for k s l
  proof
    note sl = that(1,2)
    assume "te_addr (phys (poke t ?j 0 m) s l) = f"
    with that(3) have s: "is_present (phys m s l)" "te_addr (phys m s l) = f" "\<not> (s = t \<and> l = ?j)"
      by (auto simp: phys_poke split: if_splits)
    obtain d b where d: "d \<in> ds" "mapping m d b = Some (f, is_writable (phys m s l), is_user_allowed (phys m s l))"
      and b: "PageDirectory_get_index b = k" "PageTable_get_index b = l" "te_addr (phys m d k) = s"
      by (rule entry_of_frame [OF sl s(1,2)])
    have "own_index k" using sl(1) by (simp add: is_table_def)
    then have "te_addr b = te_addr a" "d = cr3 m \<or> shares m d ?i" using only [OF d(1) _ d(2)] b by blast+
    then have "s = t \<and> l = ?j" using b by (auto simp: same_page_iff [of b a] shares_def t_def)
    then show False using s(3) by simp
  qed
  have inv2: "mm_inv idt ds (poke t ?j 0 ?mb)"
    unfolding pk using f(2) D(13) [OF t, of ?j] p un tab1 bm(2)
    by (intro mm_inv_release [OF inv1]) auto
  have sh: "d = cr3 m \<or> shares m d ?i \<longleftrightarrow> is_present (phys m d ?i) \<and> te_addr (phys m d ?i) = t" for d
    using p(1) by (auto simp: shares_def t_def)
  have mp: "mapping (poke t ?j 0 ?mb) = mapping (poke t ?j 0 m)" unfolding pk by (simp add: mapping_def fun_eq_iff)
  have "mapping (temp_unmapped idt (poke t ?j 0 ?mb)) d b =
      (if te_addr b = te_addr a \<and> (d = cr3 m \<or> shares m d ?i) then None else mapping m d b)" if "d \<in> ds" for d b
    using mapping_temp_unmapped [OF inv2 that, of b] mapping_poke_table [OF inv t that, of 0 b] sh [of d] mp by simp
  then show thesis
    using de mm_inv_temp_unmapped [OF inv2] bm(2) by (intro that [of "temp_unmapped idt (poke t ?j 0 ?mb)"])
      (auto simp: temp_unmapped_def)
qed

text \<open>None of this moves the place of the next page directory.\<close>

lemma vwrite_next: "vwrite a v m = Inr m' \<Longrightarrow> next_page_directory_allocation m' = next_page_directory_allocation m"
  by (auto simp: vwrite_def split: prod.splits)

lemma update_entry_next: "update_entry a g m = Inr m' \<Longrightarrow> next_page_directory_allocation m' = next_page_directory_allocation m"
  by (auto simp: update_entry_def dest: vwrite_next)

lemma set_mapping_next: "set_mapping r a p w u m = Inr m' \<Longrightarrow> next_page_directory_allocation m' = next_page_directory_allocation m"
  by (auto simp: set_mapping_def dest!: update_entry_next)

lemma set_frame_next: "set_frame m f v = Inr m' \<Longrightarrow> next_page_directory_allocation m' = next_page_directory_allocation m"
  by (auto simp: set_frame_def split: prod.splits if_splits)

lemma get_free_frame_next: "get_free_frame m b = Inr (f, m') \<Longrightarrow> next_page_directory_allocation m' = next_page_directory_allocation m"
  by (auto simp: get_free_frame_def set_frame_used_def dest: set_frame_next split: option.splits if_splits)

lemma write_page_next: "write_page a p m = Inr m' \<Longrightarrow> next_page_directory_allocation m' = next_page_directory_allocation m"
  by (auto simp: write_page_def split: prod.splits)

lemma ensure_pte_with_next:
  assumes "\<And>a m r m'. tm a m = Inr (r, m') \<Longrightarrow> next_page_directory_allocation m' = next_page_directory_allocation m"
  shows "ensure_pte_with tm m a c t = Inr (r, m') \<Longrightarrow> next_page_directory_allocation m' = next_page_directory_allocation m"
  by (auto simp: ensure_pte_with_def dest!: assms get_free_frame_next set_mapping_next write_page_next
      split: prod.splits option.splits if_splits)

lemma temp_map_next: "temp_map a m = Inr (r, m') \<Longrightarrow> next_page_directory_allocation m' = next_page_directory_allocation m"
  by (auto simp: temp_map_def dest!: set_mapping_next ensure_pte_with_next [rotated] split: prod.splits)

lemma un_temp_map_next: "un_temp_map m = Inr m' \<Longrightarrow> next_page_directory_allocation m' = next_page_directory_allocation m"
  by (auto simp: un_temp_map_def ensure_pte_def dest!: set_mapping_next ensure_pte_with_next [rotated] temp_map_next split: prod.splits)

lemma map_page_next: "map_page m a p w u = Inr (r, m') \<Longrightarrow> next_page_directory_allocation m' = next_page_directory_allocation m"
  by (auto simp: map_page_def ensure_pte_def dest!: un_temp_map_next set_mapping_next ensure_pte_with_next [rotated] temp_map_next
      split: prod.splits if_splits)

lemma MM_allocate_next: "MM_allocate m a w u = Inr m' \<Longrightarrow> next_page_directory_allocation m' = next_page_directory_allocation m"
  by (auto simp: MM_allocate_def dest!: map_page_next get_free_frame_next split: prod.splits option.splits)

section \<open>Address spaces as an interface\<close>

text \<open>
  What the clients of the memory manager rely on: allocating an unmapped page maps it to a
  frame that was free, maps nothing else, and uses up at most two frames (the page and a page
  table).
\<close>

locale page_space =
  fixes alloc :: "'s \<Rightarrow> 'p \<Rightarrow> 's result"
    and view :: "'s \<Rightarrow> 'p \<Rightarrow> 'v option"
    and entry :: "'f \<Rightarrow> 'v"
    and free_frames :: "'s \<Rightarrow> 'f set"
    and ok :: "'s \<Rightarrow> bool"
    and allowed :: "'p \<Rightarrow> bool"
  assumes alloc_fresh: "ok s \<Longrightarrow> allowed p \<Longrightarrow> view s p = None \<Longrightarrow> 2 \<le> card (free_frames s) \<Longrightarrow>
    \<exists>s' f. alloc s p = Inr s' \<and> ok s' \<and> f \<in> free_frames s \<and> f \<notin> free_frames s'
      \<and> free_frames s' \<subseteq> free_frames s \<and> card (free_frames s) \<le> card (free_frames s') + 2
      \<and> view s' = (view s)(p \<mapsto> entry f)"
begin

lemma alloc_all:
  assumes "ok s" "distinct ps" "\<forall>p\<in>set ps. allowed p \<and> view s p = None" "2 * length ps \<le> card (free_frames s)"
  shows "\<exists>s' fs. rfold (\<lambda>p s. alloc s p) ps s = Inr s' \<and> ok s' \<and> length fs = length ps \<and> distinct fs
    \<and> set fs \<subseteq> free_frames s - free_frames s' \<and> free_frames s' \<subseteq> free_frames s
    \<and> view s' = (view s)(ps [\<mapsto>] map entry fs)"
  using assms
proof (induction ps arbitrary: s)
  case Nil
  then show ?case by auto
next
  case (Cons p ps)
  obtain s1 f where s1: "alloc s p = Inr s1" "ok s1" "f \<in> free_frames s" "f \<notin> free_frames s1"
      "free_frames s1 \<subseteq> free_frames s" "card (free_frames s) \<le> card (free_frames s1) + 2"
      "view s1 = (view s)(p \<mapsto> entry f)"
    using alloc_fresh [of s p] Cons.prems by auto
  have "\<forall>q\<in>set ps. allowed q \<and> view s1 q = None" using Cons.prems(2,3) s1(7) by auto
  moreover have "distinct ps" "2 * length ps \<le> card (free_frames s1)" using Cons.prems s1(6) by auto
  ultimately obtain s' fs where s': "rfold (\<lambda>p s. alloc s p) ps s1 = Inr s'" "ok s'" "length fs = length ps" "distinct fs"
      "set fs \<subseteq> free_frames s1 - free_frames s'" "free_frames s' \<subseteq> free_frames s1"
      "view s' = (view s1)(ps [\<mapsto>] map entry fs)"
    using Cons.IH [OF s1(2)] by blast
  have "rfold (\<lambda>p s. alloc s p) (p # ps) s = Inr s'" using s1(1) s'(1) by simp
  moreover have "view s' = (view s)(p # ps [\<mapsto>] map entry (f # fs))" using s'(7) s1(7) by simp
  ultimately show ?case using s1 s' by (intro exI [of _ s'] exI [of _ "f # fs"]) auto
qed

end

definition page_view :: "u32 \<Rightarrow> mm \<Rightarrow> u32 \<Rightarrow> (u32 \<times> bool \<times> bool) option" where
  "page_view d m p = (if is_frame_aligned p then mapping m d p else None)"

lemma mapping_te_addr: "mapping m d (te_addr b) = mapping m d b"
proof -
  have "te_addr (te_addr b) = te_addr b" by simp
  then have "PageDirectory_get_index (te_addr b) = PageDirectory_get_index b"
    "PageTable_get_index (te_addr b) = PageTable_get_index b"
    unfolding same_page_iff by simp_all
  then show ?thesis by (simp add: mapping_def)
qed

interpretation mm_space: page_space "\<lambda>m p. MM_allocate m p w u" "page_view c" "\<lambda>f. (f, w, u)"
  "\<lambda>m. {f. frame_free m f}" "\<lambda>m. mm_inv idt ds m \<and> cr3 m = c"
  "\<lambda>p. is_frame_aligned p \<and> own_index (PageDirectory_get_index p)"
  for idt ds c w u
proof
  fix m p
  assume inv: "mm_inv idt ds m \<and> cr3 m = c" and p: "is_frame_aligned p \<and> own_index (PageDirectory_get_index p)"
    and none: "page_view c m p = None" and two: "2 \<le> card {f. frame_free m f}"
  have "\<exists>f g. f \<noteq> g \<and> frame_free m f \<and> frame_free m g"
    using two card_le_Suc0_iff_eq [of "{f. frame_free m f}"] by fastforce
  then obtain f where f: "frame_free m f" "\<exists>g. g \<noteq> f \<and> frame_free m g" by blast
  have absent: "mapping m (cr3 m) p = None" using inv p none by (simp add: page_view_def)
  obtain m' q h where m': "MM_allocate m p w u = Inr m'" "frame_free m q" "\<And>g. frame_free m g \<Longrightarrow> q \<le> g"
      "mm_inv idt ds m'" "cr3 m' = cr3 m"
    and mp: "\<And>d b. d \<in> ds \<Longrightarrow> mapping m' d b =
       (if te_addr b = te_addr p \<and> (d = cr3 m \<or> shares m d (PageDirectory_get_index p)) then Some (q, w, u)
        else mapping m d b)"
    and "\<And>d. d \<in> ds \<Longrightarrow> d = cr3 m \<or> shares m' d (PageDirectory_get_index p) \<longleftrightarrow>
       d = cr3 m \<or> shares m d (PageDirectory_get_index p)"
    and fr: "\<And>g. frame_free m' g \<longleftrightarrow> frame_free m g \<and> g \<noteq> q \<and> g \<noteq> h"
    by (rule MM_allocate_maps [OF conjunct1 [OF inv] conjunct2 [OF p] absent f(1) disjI2 [OF f(2)], of w u]) (rule that)
  have "{f. frame_free m f} \<subseteq> insert q (insert h {f. frame_free m' f})" using fr by auto
  then have "card {f. frame_free m f} \<le> card (insert q (insert h {f. frame_free m' f}))" by (rule card_mono [OF finite])
  also have "\<dots> \<le> card {f. frame_free m' f} + 2" by (simp add: card_insert_if)
  finally have "card {f. frame_free m f} \<le> card {f. frame_free m' f} + 2" .
  moreover have "page_view c m' = (page_view c m)(p \<mapsto> (q, w, u))"
    using mp mm_invD(4) inv p by (auto simp: page_view_def is_frame_aligned_iff fun_eq_iff)
  ultimately show "\<exists>m' f. MM_allocate m p w u = Inr m' \<and> (mm_inv idt ds m' \<and> cr3 m' = c)
      \<and> f \<in> {f. frame_free m f} \<and> f \<notin> {f. frame_free m' f} \<and> {f. frame_free m' f} \<subseteq> {f. frame_free m f}
      \<and> card {f. frame_free m f} \<le> card {f. frame_free m' f} + 2 \<and> page_view c m' = (page_view c m)(p \<mapsto> (f, w, u))"
    using m' fr inv by (intro exI [of _ m'] exI [of _ q]) auto
qed

end
