(* ===== verification/Address_Spaces.thy ===== *)
theory Address_Spaces
  imports Memory_Manager
begin

text \<open>
  The address spaces that the memory manager builds: start-up, single pages, ranges of pages,
  pages shared with another process, cloned page directories, and the clients of the manager:
  large buffers (\<^verbatim>\<open>kernel/BigBuffer.cpp\<close>) and the stacks of new tasks (\<^verbatim>\<open>kernel/task.cpp\<close>).
\<close>

section \<open>Start-up\<close>

lemma aligned_unat: "is_frame_aligned a \<longleftrightarrow> unat a mod 4096 = 0"
  by (simp add: is_frame_aligned_def word_unat_eq_iff unat_mod)

lemma unat_add_small: "unat a + n < 4294967296 \<Longrightarrow> unat (a + word_of_nat n) = unat a + n" for a :: u32
  by (simp add: unat_word_ariths unsigned_of_nat take_bit_eq_mod)

definition pages_from :: "u32 \<Rightarrow> nat \<Rightarrow> u32 list" where
  "pages_from a n = map (\<lambda>i. a + word_of_nat (i * 4096)) [0..<n]"

lemma pages_from_Suc: "pages_from a (Suc n) = a # pages_from (a + PAGE_SIZE) n"
proof -
  have "[0..<Suc n] = 0 # map Suc [0..<n]" by (simp add: upt_conv_Cons map_Suc_upt del: upt_Suc)
  then show ?thesis by (simp add: pages_from_def algebra_simps)
qed

lemma pages_from_bound:
  assumes "unat a + n * 4096 < 4294967296" "p \<in> set (pages_from a n)"
  shows "\<exists>i<n. p = a + word_of_nat (i * 4096) \<and> unat p = unat a + i * 4096"
proof -
  from assms(2) obtain i where i: "i < n" "p = a + word_of_nat (i * 4096)" by (auto simp: pages_from_def)
  then have "unat a + i * 4096 < 4294967296" using assms(1) by linarith
  then have "unat p = unat a + i * 4096" unfolding i(2) by (rule unat_add_small)
  then show ?thesis using i by blast
qed

lemma distinct_pages_from:
  assumes "unat a + n * 4096 < 4294967296"
  shows "distinct (pages_from a n)"
proof -
  have "unat (a + word_of_nat (i * 4096)) = unat a + i * 4096" if "i < n" for i
    using that assms by (intro unat_add_small) linarith
  then have "inj_on (\<lambda>i. a + word_of_nat (i * 4096)) {0..<n}"
    by (intro inj_onI) (metis add_left_cancel atLeastLessThan_iff mult_right_cancel zero_neq_numeral)
  then show ?thesis by (simp add: pages_from_def distinct_map del: of_nat_mult)
qed

lemma aligned_pages_from:
  assumes "unat a + n * 4096 < 4294967296" "is_frame_aligned a" "p \<in> set (pages_from a n)"
  shows "is_frame_aligned p"
  using pages_from_bound [OF assms(1,3)] assms(2) by (auto simp: aligned_unat)

text \<open>What the assembly of \<^verbatim>\<open>boot.S\<close> leaves: four megabytes mapped twice by one table.\<close>

definition boot_map :: "u32 \<Rightarrow> mm \<Rightarrow> bool" where
  "boot_map idt m \<longleftrightarrow> low_frame (cr3 m) \<and> low_frame idt \<and> idt \<noteq> cr3 m
     \<and> (\<forall>i. is_present (phys m (cr3 m) i) \<longleftrightarrow> i = 0 \<or> i = 768)
     \<and> te_addr (phys m (cr3 m) 0) = idt \<and> te_addr (phys m (cr3 m) 768) = idt
     \<and> (\<forall>d. is_frame_aligned d \<longrightarrow> d < 0x400000 \<longrightarrow>
          is_present (phys m idt (PageTable_get_index d)) \<and> te_addr (phys m idt (PageTable_get_index d)) = d)"

definition region_ok :: "MultibootMemMapEntry \<Rightarrow> bool" where
  "region_ok e \<longleftrightarrow> mm_type e \<noteq> 1
     \<or> unat (mm_base e) mod 4096 = 0 \<and> 4096 \<le> unat (mm_len e) \<and> unat (mm_base e) + unat (mm_len e) \<le> 0xFFFE0000"

definition region_frames :: "MultibootMemMapEntry \<Rightarrow> u32 set" where
  "region_frames e = {f. mm_type e = 1 \<and> is_frame_aligned f \<and> 0x500000 \<le> f
     \<and> unat (mm_base e) \<le> unat f \<and> unat f + 4096 \<le> unat (mm_base e) + unat (mm_len e)}"

lemma init_region_frees:
  assumes "is_frame_aligned b" "unat l < 0xFFFDF001" "unat b < 0xFFFE0001"
  shows "\<exists>bm. init_region b l m = Some (Inr (m\<lparr>m_frames_avail_bitmap := bm\<rparr>))
    \<and> (\<forall>m'. m_frames_avail_bitmap m' = bm \<longrightarrow>
         (\<forall>g. frame_free m' g \<longleftrightarrow> frame_free m g \<or> is_frame_aligned g \<and> b \<le> g \<and> g \<le> l \<and> 0x500000 \<le> g))"
  using assms
proof (induction "unat l + 4096 - unat b" arbitrary: b m rule: less_induct)
  case less
  show ?case
  proof (cases "b \<le> l")
    case False
    then show ?thesis
      by (intro exI [of _ "m_frames_avail_bitmap m"]) (auto simp: init_region.simps [of b] frame_free_def)
  next
    case True
    then have bl: "unat b \<le> unat l" by (simp add: word_le_nat_alt)
    have nb: "unat (b + PAGE_SIZE) = unat b + 4096" using unat_add_small [of b 4096] bl less.prems by simp
    have al: "is_frame_aligned (b + PAGE_SIZE)" using less.prems(1) nb by (simp add: aligned_unat)
    have dec: "unat l + 4096 - unat (b + PAGE_SIZE) < unat l + 4096 - unat b" using nb bl by simp
    note IH = less.hyps [OF dec al less.prems(2)]
    have up: "g = b \<or> b + PAGE_SIZE \<le> g" if "is_frame_aligned g" "b \<le> g" for g
    proof -
      have "unat b mod 4096 = 0" "unat g mod 4096 = 0" "unat b \<le> unat g"
        using that less.prems(1) by (auto simp: aligned_unat word_le_nat_alt)
      then have "unat g = unat b \<or> unat b + 4096 \<le> unat g"
        by (metis add_le_cancel_left le_neq_implies_less less_imp_le mod_eq_dvd_iff_nat dvd_imp_le zero_less_diff le_add_diff_inverse)
      then show ?thesis using nb by (auto simp: word_le_nat_alt word_unat_eq_iff)
    qed
    have down: "b \<le> b + PAGE_SIZE" using nb by (simp add: word_le_nat_alt)
    show ?thesis
    proof (cases "b < 5 * MB")
      case True
      have low: "b + PAGE_SIZE \<le> g" if "is_frame_aligned g" "b \<le> g" "0x500000 \<le> g" for g
        using up [OF that(1,2)] that(3) True by (auto simp: word_le_nat_alt word_less_nat_alt)
      show ?thesis
        using IH [of m] True \<open>b \<le> l\<close> nb bl less.prems down
        by (auto simp: init_region.simps [of b] intro: low order_trans)
    next
      case False
      have "unat b div 4096 div 32 < N_FRAME_BITMAP_ENTRIES"
        using bl less.prems(2) less_mult_imp_div_less [of "unat b" N_FRAME_BITMAP_ENTRIES 131072]
        by (simp add: div_mult2_eq [symmetric])
      then have idx: "fst (get_bitmap_entry b) < N_FRAME_BITMAP_ENTRIES" by (simp add: get_bitmap_entry_def unat_div)
      from set_frame_eq [OF less.prems(1) idx, of m True] obtain bm where
        bm: "set_frame m b True = Inr (m\<lparr>m_frames_avail_bitmap := bm\<rparr>)"
          "\<And>m' g. m_frames_avail_bitmap m' = bm \<Longrightarrow> frame_free m' g \<longleftrightarrow> g = b \<or> frame_free m g" by auto
      let ?m = "m\<lparr>m_frames_avail_bitmap := bm\<rparr>"
      have av: "is_frame_available ?m b = Inr True"
        using bm(2) [of ?m b] less.prems(1) idx
        by (auto simp: is_frame_available_def Frame_def frame_free_def get_bit_def bit_iff_and_push_bit_not_eq_0 split: prod.splits)
      have st: "init_region b l m = init_region (b + PAGE_SIZE) l ?m"
        using \<open>b \<le> l\<close> False bm(1) av less.prems(1)
        by (simp add: init_region.simps [of b] set_frame_available_def Frame_def)
      have "5 * MB \<le> b" using False by simp
      moreover obtain bma where "init_region (b + PAGE_SIZE) l ?m = Some (Inr (?m\<lparr>m_frames_avail_bitmap := bma\<rparr>))"
        "\<forall>m'. m_frames_avail_bitmap m' = bma \<longrightarrow> (\<forall>g. frame_free m' g \<longleftrightarrow> frame_free ?m g
            \<or> is_frame_aligned g \<and> b + PAGE_SIZE \<le> g \<and> g \<le> l \<and> 0x500000 \<le> g)"
        using IH [of ?m] nb bl less.prems by auto
      ultimately show ?thesis
        unfolding st using bm(2) [of ?m] down \<open>b \<le> l\<close> less.prems(1)
        by (intro exI [of _ bma]) (auto intro: order_trans dest: up)
    qed
  qed
qed

lemma init_entry_frees:
  assumes "region_ok e"
  shows "\<exists>bm. init_entry e m = Inr (m\<lparr>m_frames_avail_bitmap := bm\<rparr>)
    \<and> (\<forall>m'. m_frames_avail_bitmap m' = bm \<longrightarrow> (\<forall>g. frame_free m' g \<longleftrightarrow> frame_free m g \<or> g \<in> region_frames e))"
proof (cases "mm_type e = 1")
  case False
  then show ?thesis
    by (intro exI [of _ "m_frames_avail_bitmap m"]) (auto simp: init_entry_def region_frames_def frame_free_def)
next
  case True
  with assms have r: "unat (mm_base e) mod 4096 = 0" "4096 \<le> unat (mm_len e)"
      "unat (mm_base e) + unat (mm_len e) \<le> 0xFFFE0000" by (auto simp: region_ok_def)
  let ?b = "ucast (mm_base e AND 0xFFFFFFFF) :: u32" and ?n = "ucast (mm_len e AND 0xFFFFFFFF) :: u32"
  have small: "drop_bit 32 x AND 0xFFFFFFFF = 0 \<and> unat (ucast (x AND 0xFFFFFFFF) :: u32) = unat x"
    if "unat x < 4294967296" for x :: u64
  proof -
    have "(0xFFFFFFFF :: u64) = mask 32" by (simp add: mask_eq_exp_minus_1)
    then have "x AND 0xFFFFFFFF = take_bit 32 x" by (simp add: take_bit_eq_mask)
    moreover have "drop_bit 32 x = 0"
      using that by (simp add: word_unat_eq_iff unsigned_drop_bit_eq drop_bit_eq_div unat_div)
    ultimately show ?thesis
      using that by (simp add: unsigned_ucast_eq unsigned_take_bit_eq take_bit_nat_eq_self)
  qed
  have b: "unat ?b = unat (mm_base e)" and n: "unat ?n = unat (mm_len e)" using small r by auto
  have l: "unat (?b + ?n - PAGE_SIZE) = unat (mm_base e) + unat (mm_len e) - 4096"
  proof -
    have s: "unat (?b + ?n) = unat (mm_base e) + unat (mm_len e)"
      using b n r unat_add_lem [of ?b ?n] by simp
    then have "PAGE_SIZE \<le> ?b + ?n" using r by (simp add: word_le_nat_alt)
    then show ?thesis using s by (simp add: unat_sub)
  qed
  have "is_frame_aligned ?b" using r b by (simp add: aligned_unat)
  moreover have "unat (?b + ?n - PAGE_SIZE) < 0xFFFDF001" "unat ?b < 0xFFFE0001" using l b r by linarith+
  ultimately obtain bm where bm: "init_region ?b (?b + ?n - PAGE_SIZE) m = Some (Inr (m\<lparr>m_frames_avail_bitmap := bm\<rparr>))"
    "\<forall>m'. m_frames_avail_bitmap m' = bm \<longrightarrow> (\<forall>g. frame_free m' g \<longleftrightarrow> frame_free m g
        \<or> is_frame_aligned g \<and> ?b \<le> g \<and> g \<le> ?b + ?n - PAGE_SIZE \<and> 0x500000 \<le> g)"
    using init_region_frees [of ?b "?b + ?n - PAGE_SIZE" m] by blast
  have "init_entry e m = Inr (m\<lparr>m_frames_avail_bitmap := bm\<rparr>)"
    using True small [of "mm_base e"] small [of "mm_len e"] r bm(1) by (simp add: init_entry_def Let_def)
  moreover have "g \<in> region_frames e \<longleftrightarrow> is_frame_aligned g \<and> ?b \<le> g \<and> g \<le> ?b + ?n - PAGE_SIZE \<and> 0x500000 \<le> g" for g
    using True l b r by (auto simp: region_frames_def word_le_nat_alt [of _ g] word_le_nat_alt [of g])
  ultimately show ?thesis using bm(2) by auto
qed

lemma init_entries_free:
  "\<forall>e\<in>set mmap. region_ok e \<Longrightarrow>
   \<exists>bm. rfold init_entry mmap m = Inr (m\<lparr>m_frames_avail_bitmap := bm\<rparr>)
    \<and> (\<forall>m'. m_frames_avail_bitmap m' = bm \<longrightarrow>
         (\<forall>g. frame_free m' g \<longleftrightarrow> frame_free m g \<or> (\<exists>e\<in>set mmap. g \<in> region_frames e)))"
proof (induction mmap arbitrary: m)
  case Nil
  then show ?case by (intro exI [of _ "m_frames_avail_bitmap m"]) (auto simp: frame_free_def)
next
  case (Cons e mmap)
  obtain bm where bm: "init_entry e m = Inr (m\<lparr>m_frames_avail_bitmap := bm\<rparr>)"
    "\<forall>m'. m_frames_avail_bitmap m' = bm \<longrightarrow> (\<forall>g. frame_free m' g \<longleftrightarrow> frame_free m g \<or> g \<in> region_frames e)"
    using init_entry_frees [of e m] Cons.prems by auto
  let ?m = "m\<lparr>m_frames_avail_bitmap := bm\<rparr>"
  obtain bma where "rfold init_entry mmap ?m = Inr (?m\<lparr>m_frames_avail_bitmap := bma\<rparr>)"
    "\<forall>m'. m_frames_avail_bitmap m' = bma \<longrightarrow>
      (\<forall>g. frame_free m' g \<longleftrightarrow> frame_free ?m g \<or> (\<exists>e\<in>set mmap. g \<in> region_frames e))"
    using Cons.IH [of ?m] Cons.prems by auto
  then show ?case using bm by (intro exI [of _ bma]) auto
qed


lemma disable_first_page:
  assumes low: "low_map idt m" and used: "\<not> m_tempmap_used m"
  shows "\<exists>e. \<not> is_present e \<and> disable_page m 0 = Inr (temp_unmapped idt (poke idt 0 e (temp_mapped idt idt m)))"
proof -
  let ?T = "temp_mapped idt idt m" and ?e = "mapping_entry 0 False False False (phys (temp_mapped idt idt m) idt 0)"
  note D = low_mapD [OF low]
  have idx: "PageDirectory_get_index 0 = 0" "PageTable_get_index 0 = 0"
    by (simp_all add: PageDirectory_get_index_def PageTable_get_index_def)
  have en: "ensure_pte m 0 True True = Inr (TEMPMAP_ADDR, ?T)"
    using ensure_pte_present [OF low used, of 0 True] D idx by simp
  have lowp: "low_map idt (poke idt 0 v ?T)" for v
    using D by (intro low_map_poke low_map_temp low) (auto simp: temp_mapped_def)
  have x: "xlate (poke idt 0 v ?T) TEMPMAP_ADDR = Inr (idt, 0)" for v
    using xlate_tempmap [OF lowp [of v], of idt 0] D by (simp add: phys_poke temp_mapped_def)
  have "xlate ?T TEMPMAP_ADDR = Inr (idt, 0)" using xlate_temp_mapped [OF low, of idt 0] D by simp
  then have "set_mapping TEMPMAP_ADDR 0 False False False ?T = Inr (poke idt 0 ?e ?T)"
    using set_mapping_at [OF x, of 0 False False False] by simp
  then have "disable_page m 0 = Inr (temp_unmapped idt (poke idt 0 ?e ?T))"
    using en un_temp_map_eq [OF lowp] by (simp add: disable_page_def)
  then show ?thesis by (intro exI [of _ ?e]) simp
qed

lemma init_establishes:
  assumes boot: "boot_map idt m" and regions: "\<forall>e\<in>set mmap. region_ok e"
  shows "\<exists>m'. MemoryManager_init (MemoryManager_new m) mmap = Inr m' \<and> mm_inv idt {cr3 m} m'
    \<and> cr3 m' = cr3 m \<and> next_page_directory_allocation m' = next_page_directory_allocation m
    \<and> mapping m' (cr3 m) 0 = None \<and> (\<forall>b. own_index (PageDirectory_get_index b) \<longrightarrow> mapping m' (cr3 m) b = None)
    \<and> (\<forall>f. frame_free m' f \<longleftrightarrow> (\<exists>e\<in>set mmap. f \<in> region_frames e))"
proof -
  let ?m0 = "(MemoryManager_new m)\<lparr>m_page_directory := cr3 m\<rparr>"
  obtain bm where bm: "rfold init_entry mmap ?m0 = Inr (?m0\<lparr>m_frames_avail_bitmap := bm\<rparr>)"
    "\<And>m' g. m_frames_avail_bitmap m' = bm \<Longrightarrow>
      frame_free m' g \<longleftrightarrow> frame_free ?m0 g \<or> (\<exists>e\<in>set mmap. g \<in> region_frames e)"
    using init_entries_free [OF regions, of ?m0] by blast
  let ?m1 = "?m0\<lparr>m_frames_avail_bitmap := bm\<rparr>"
  have flds: "cr3 ?m1 = cr3 m" "phys ?m1 = phys m" "m_page_directory ?m1 = cr3 m" "\<not> m_tempmap_used ?m1"
    by (simp_all add: MemoryManager_new_def)
  have none: "\<not> frame_free ?m0 g" for g by (simp add: frame_free_def MemoryManager_new_def)
  have al: "is_frame_aligned d \<and> d < 0x400000" if "low_frame d" for d
    using that by (auto simp: low_frame_def is_frame_aligned_iff word_less_nat_alt)
  have low: "low_map idt ?m1" using boot al by (simp add: low_map_def boot_map_def MemoryManager_new_def)
  note D = low_mapD [OF low]
  obtain e where e: "\<not> is_present e" "disable_page ?m1 0 = Inr (temp_unmapped idt (poke idt 0 e (temp_mapped idt idt ?m1)))"
    using disable_first_page [OF low flds(4)] by blast
  let ?m2 = "temp_unmapped idt (poke idt 0 e (temp_mapped idt idt ?m1))"
  have low2: "low_map idt ?m2"
    using D by (intro low_map_temp low_map_poke low) (auto simp: temp_mapped_def)
  have ph: "phys ?m2 (cr3 m) i = phys m (cr3 m) i" for i
    using D flds by (simp add: temp_unmapped_def temp_mapped_def phys_poke)
  have pt: "\<not> is_present (phys ?m2 idt 0x3FF)" "\<not> is_present (phys ?m2 idt 0)"
    using e(1) by (simp_all add: temp_unmapped_def phys_poke)
  have fr: "frame_free ?m2 f \<longleftrightarrow> (\<exists>e\<in>set mmap. f \<in> region_frames e)" for f
    using bm(2) [of ?m2 f] none by (simp add: temp_unmapped_def temp_mapped_def)
  have notab: "\<not> is_table {cr3 m} ?m2 i t" for i t
    using boot by (auto simp: is_table_def own_index_def ph boot_map_def)
  have cr2: "cr3 ?m2 = cr3 m" using flds(1) by (simp add: temp_unmapped_def temp_mapped_def)
  have "mm_inv idt {cr3 m} ?m2"
  proof (rule mm_invI)
    show "0x500000 \<le> f" if "frame_free ?m2 f" for f using that fr by (auto simp: region_frames_def)
    show "te_addr (phys ?m2 d i) = idt" if "d \<in> {cr3 m}" "i \<in> {0, 768}" for d i
      using that boot ph by (auto simp: boot_map_def)
  qed (use low2 pt notab cr2 D flds in \<open>auto simp: temp_unmapped_def\<close>)
  moreover have "mapping ?m2 (cr3 m) 0 = None"
    using pt(2) ph boot low_index [of 0]
    by (simp add: mapping_def boot_map_def PageTable_get_index_def Let_def)
  moreover have "mapping ?m2 (cr3 m) b = None" if "own_index (PageDirectory_get_index b)" for b
    using that ph boot by (auto simp: mapping_def boot_map_def own_index_def Let_def)
  moreover have "next_page_directory_allocation ?m2 = next_page_directory_allocation m"
    by (simp add: temp_unmapped_def temp_mapped_def MemoryManager_new_def)
  moreover have "MemoryManager_init (MemoryManager_new m) mmap = Inr ?m2"
    using bm(1) e(2) boot
    by (simp add: MemoryManager_init_def Frame_def boot_map_def is_frame_aligned_iff MemoryManager_new_def)
  ultimately show ?thesis using fr cr2 by (intro exI [of _ ?m2]) simp
qed


lemma mapped_not_free:
  assumes inv: "mm_inv idt ds m" and d: "d \<in> ds" "own_index (PageDirectory_get_index b)" "mapping m d b = Some (f, x)"
  shows "\<not> frame_free m f"
proof -
  let ?t = "te_addr (phys m d (PageDirectory_get_index b))"
  have "is_table ds m (PageDirectory_get_index b) ?t" "is_present (phys m ?t (PageTable_get_index b))"
    "te_addr (phys m ?t (PageTable_get_index b)) = f"
    using d by (auto simp: mapping_def is_table_def Let_def split: if_splits)
  then show ?thesis using mm_invD(12) [OF inv, of "PageDirectory_get_index b" ?t "PageTable_get_index b"] by simp
qed

section \<open>Properties\<close>

definition boot_machine :: mm where
  "boot_machine =
     \<lparr>phys = (\<lambda>f. if f = 0x101000 then (\<lambda>i. if i = 0 \<or> i = 768 then 0x102003 else 0)
                 else if f = 0x102000 then (\<lambda>i. push_bit 12 i OR 3) else (\<lambda>_. 0)),
      cr3 = 0x101000, m_frames_avail_bitmap = (\<lambda>_. 0), m_page_directory = 0, m_tempmap_used = False,
      m_kernel_PDEs_locked = False, next_page_directory_allocation = 0x300000\<rparr>"

lemma boot_machine_map: "boot_map 0x102000 boot_machine"
proof -
  have e: "te_addr (push_bit 12 (PageTable_get_index d) OR 3) = d" if "is_frame_aligned d" "d < 0x400000" for d
  proof (rule bit_word_eqI)
    fix n assume n: "n < LENGTH(32)"
    have lo: "\<not> bit d n" if "n < 12" using that \<open>is_frame_aligned d\<close> unfolding is_frame_aligned_iff aligned_bit by blast
    have "bit (PageDirectory_get_index d) (n - 22) = bit (0 :: u32) (n - 22)" using low_index [OF that(2)] by simp
    then have hi: "\<not> bit d n" if "22 \<le> n" using that n by (simp add: bit_PageDirectory_get_index)
    have "(3 :: u32) = mask 2" by (simp add: mask_eq_exp_minus_1)
    then have "bit (3 :: u32) n \<Longrightarrow> n < 2" by (simp only: bit_mask_iff)
    then have "bit (te_addr (push_bit 12 (PageTable_get_index d) OR 3)) n \<longleftrightarrow> 12 \<le> n \<and> n < 22 \<and> bit d n"
      using n by (auto simp: bit_te_addr bit_PageTable_get_index bit_simps)
    then show "bit (te_addr (push_bit 12 (PageTable_get_index d) OR 3)) n = bit d n"
      using lo hi by (auto simp: not_le [symmetric])
  qed
  have p: "is_present (x OR 3)" for x by (simp add: flag_bits bit_simps)
  show ?thesis
    using e p by (simp add: boot_map_def boot_machine_def low_frame_def flag_bits te_addr_def)
qed

definition boot_memory :: "MultibootMemMapEntry list" where
  "boot_memory = [\<lparr>mm_base = 0, mm_len = 0x800000, mm_type = 1\<rparr>]"

text \<open>The concrete machine after start-up, for the examples below.\<close>

lemma boot_started:
  obtains m where "MemoryManager_init (MemoryManager_new boot_machine) boot_memory = Inr m"
    "mm_inv 0x102000 {0x101000} m" "cr3 m = 0x101000"
    "\<And>b. own_index (PageDirectory_get_index b) \<Longrightarrow> mapping m 0x101000 b = None"
    "frame_free m 0x500000" "frame_free m 0x501000" "20 \<le> card {f. frame_free m f}" "next_page_directory_allocation m = 0x300000"
proof -
  have "region_ok e" if "e \<in> set boot_memory" for e using that by (simp add: boot_memory_def region_ok_def)
  then obtain m where m: "MemoryManager_init (MemoryManager_new boot_machine) boot_memory = Inr m"
      "mm_inv 0x102000 {0x101000} m" "cr3 m = 0x101000"
      "\<forall>b. own_index (PageDirectory_get_index b) \<longrightarrow> mapping m 0x101000 b = None"
      "\<forall>f. frame_free m f \<longleftrightarrow> (\<exists>e\<in>set boot_memory. f \<in> region_frames e)"
      "next_page_directory_allocation m = 0x300000"
    using init_establishes [OF boot_machine_map, of boot_memory] by (auto simp: boot_machine_def)
  have free: "set (pages_from 0x500000 20) \<subseteq> {f. frame_free m f}"
  proof
    fix f assume f: "f \<in> set (pages_from 0x500000 20)"
    have "is_frame_aligned f" using aligned_pages_from [OF _ _ f] by (simp add: is_frame_aligned_def)
    moreover obtain i where "i < 20" "unat f = 0x500000 + i * 4096" using pages_from_bound [OF _ f] by auto
    ultimately show "f \<in> {f. frame_free m f}" using m(5) by (simp add: boot_memory_def region_frames_def word_le_nat_alt)
  qed
  have "card (set (pages_from 0x500000 20)) = 20"
    using distinct_card [OF distinct_pages_from [of "0x500000" 20]] by (simp add: pages_from_def)
  then have "20 \<le> card {f. frame_free m f}" using card_mono [OF finite free] by simp
  moreover have "frame_free m 0x500000" "frame_free m 0x501000"
    using m(5) by (simp_all add: boot_memory_def region_frames_def is_frame_aligned_def)
  ultimately show thesis using m by (intro that [of m]) auto
qed



text \<open>
  C6: allocating an unmapped page outside the identity mapping succeeds when two frames are
  free, keeps the invariant, and maps the page with the wanted permissions to a frame that was
  free and is not free any more. The page changes in the current address space and in those
  that share its page table; no other mapping of any address space changes.
\<close>

theorem allocate_maps_fresh_frame:
  assumes "mm_inv idt ds m" "own_index (PageDirectory_get_index a)" "mapping m (cr3 m) a = None"
    "frame_free m f" "frame_free m g" "f \<noteq> g"
  shows "\<exists>m' p. MM_allocate m a w u = Inr m' \<and> mm_inv idt ds m' \<and> frame_free m p \<and> \<not> frame_free m' p
    \<and> (\<forall>d\<in>ds. \<forall>b. mapping m' d b =
         (if te_addr b = te_addr a \<and> (d = cr3 m \<or> shares m d (PageDirectory_get_index a)) then Some (p, w, u)
          else mapping m d b))
    \<and> (\<forall>d\<in>ds. \<forall>b x. own_index (PageDirectory_get_index b) \<longrightarrow> mapping m d b \<noteq> Some (p, x))"
proof -
  have room: "is_present (phys m (cr3 m) (PageDirectory_get_index a)) \<or> (\<exists>g. g \<noteq> f \<and> frame_free m g)"
    using assms(5,6) by metis
  obtain m' p h where "MM_allocate m a w u = Inr m'" "frame_free m p" "\<And>g. frame_free m g \<Longrightarrow> p \<le> g"
    "mm_inv idt ds m'" "cr3 m' = cr3 m"
    and mp: "\<And>d b. d \<in> ds \<Longrightarrow> mapping m' d b =
       (if te_addr b = te_addr a \<and> (d = cr3 m \<or> shares m d (PageDirectory_get_index a)) then Some (p, w, u)
        else mapping m d b)"
    and "\<And>d. d \<in> ds \<Longrightarrow> d = cr3 m \<or> shares m' d (PageDirectory_get_index a) \<longleftrightarrow>
       d = cr3 m \<or> shares m d (PageDirectory_get_index a)"
    and fr: "\<And>g. frame_free m' g \<longleftrightarrow> frame_free m g \<and> g \<noteq> p \<and> g \<noteq> h"
    by (rule MM_allocate_maps [OF assms(1-4) room, of w u]) (rule that)
  then show ?thesis
    using mapped_not_free [OF assms(1)] by (intro exI [of _ m'] exI [of _ p] conjI) (simp_all add: mp fr, blast)
qed


lemma index_examples:
  "own_index (PageDirectory_get_index 0x40000000)" "own_index (PageDirectory_get_index 0x40001000)"
  "own_index (PageDirectory_get_index 0xCA000000)"
  by (simp_all add: own_index_def PageDirectory_get_index_def)

theorem allocate_maps_fresh_frame_witness:
  "\<exists>m m' p. MemoryManager_init (MemoryManager_new boot_machine) boot_memory = Inr m
    \<and> MM_allocate m 0x40000000 True True = Inr m' \<and> frame_free m p \<and> \<not> frame_free m' p
    \<and> mapping m' 0x101000 0x40000ABC = Some (p, True, True) \<and> mapping m' 0x101000 0x40001000 = None"
proof -
  obtain m where m: "MemoryManager_init (MemoryManager_new boot_machine) boot_memory = Inr m"
    "mm_inv 0x102000 {0x101000} m" "cr3 m = 0x101000"
    "\<And>b. own_index (PageDirectory_get_index b) \<Longrightarrow> mapping m 0x101000 b = None"
    "frame_free m 0x500000" "frame_free m 0x501000" "20 \<le> card {f. frame_free m f}" "next_page_directory_allocation m = 0x300000"
    by (rule boot_started) (rule that)
  have "te_addr 0x40000ABC = te_addr 0x40000000" "te_addr 0x40001000 \<noteq> te_addr 0x40000000"
    by (simp_all add: te_addr_def)
  then show ?thesis
    using allocate_maps_fresh_frame [OF m(2) index_examples(1) _ m(5,6), of True True] m(1,3) m(4) [OF index_examples(1)]
      m(4) [OF index_examples(2)] by auto
qed

text \<open>
  Freeing a page undoes its allocation. After the two calls every address space is what it
  was, and every frame is free that was free, but for the frame of a page table that the
  allocation had to create.
\<close>

theorem allocate_deallocate_roundtrip:
  assumes "mm_inv idt ds m" "own_index (PageDirectory_get_index a)" "mapping m (cr3 m) a = None"
    "frame_free m f" "frame_free m g" "f \<noteq> g"
  shows "\<exists>m1 m2 h. MM_allocate m a w u = Inr m1 \<and> deallocate m1 a True = Inr m2 \<and> mm_inv idt ds m2
    \<and> (\<forall>d\<in>ds. \<forall>b. mapping m2 d b = mapping m d b) \<and> (\<forall>g. frame_free m g \<longrightarrow> g \<noteq> h \<longrightarrow> frame_free m2 g)
    \<and> (\<forall>g. frame_free m2 g \<longrightarrow> frame_free m g)"
proof -
  let ?i = "PageDirectory_get_index a"
  have room: "is_present (phys m (cr3 m) ?i) \<or> (\<exists>g. g \<noteq> f \<and> frame_free m g)"
    using assms(5,6) by metis
  obtain m1 p h where m1: "MM_allocate m a w u = Inr m1" "frame_free m p" "\<And>g. frame_free m g \<Longrightarrow> p \<le> g"
    "mm_inv idt ds m1" "cr3 m1 = cr3 m"
    and mp: "\<And>d b. d \<in> ds \<Longrightarrow> mapping m1 d b =
       (if te_addr b = te_addr a \<and> (d = cr3 m \<or> shares m d ?i) then Some (p, w, u) else mapping m d b)"
    and sh: "\<And>d. d \<in> ds \<Longrightarrow> d = cr3 m \<or> shares m1 d ?i \<longleftrightarrow> d = cr3 m \<or> shares m d ?i"
    and fr: "\<And>g. frame_free m1 g \<longleftrightarrow> frame_free m g \<and> g \<noteq> p \<and> g \<noteq> h"
    by (rule MM_allocate_maps [OF assms(1-4) room, of w u]) (rule that)
  have cr: "cr3 m \<in> ds" by (rule mm_invD(4) [OF assms(1)])
  have mapped: "mapping m1 (cr3 m1) a = Some (p, w, u)" using mp [OF cr, of a] m1(5) by simp
  have p: "0x500000 \<le> p" "fst (get_bitmap_entry p) < N_FRAME_BITMAP_ENTRIES"
    using mm_invD(8) [OF assms(1) m1(2)] m1(2) by (auto simp: frame_free_def)
  have only: "te_addr b = te_addr a \<and> (d = cr3 m1 \<or> shares m1 d ?i)"
    if "d \<in> ds" "own_index (PageDirectory_get_index b)" "mapping m1 d b = Some (p, x)" for d b x
    using that mp [OF that(1), of b] sh [OF that(1)] m1(2,5) mapped_not_free [OF assms(1) that(1,2)]
    by (auto split: if_splits)
  obtain m2 where m2: "deallocate m1 a True = Inr m2" "mm_inv idt ds m2" "cr3 m2 = cr3 m1"
    and mp2: "\<And>d b. d \<in> ds \<Longrightarrow> mapping m2 d b =
       (if te_addr b = te_addr a \<and> (d = cr3 m1 \<or> shares m1 d ?i) then None else mapping m1 d b)"
    and fr2: "\<And>g. frame_free m2 g \<longleftrightarrow> g = p \<or> frame_free m1 g"
    by (rule deallocate_unmaps [OF m1(4) assms(2) mapped p only]) (assumption | rule that)+
  have none: "mapping m d b = None" if "d = cr3 m \<or> shares m d ?i" "te_addr b = te_addr a" for d b
    using that assms(3) by (auto simp: mapping_def shares_def same_page_iff [of b a] Let_def split: if_splits)
  have "mapping m2 d b = mapping m d b" if "d \<in> ds" for d b
    using mp2 [OF that] mp [OF that] sh [OF that] m1(5) none by auto
  then show ?thesis
    using m1(1,2) m2 fr fr2 by (intro exI [of _ m1] exI [of _ m2] exI [of _ h]) auto
qed

theorem allocate_deallocate_roundtrip_witness:
  "\<exists>m m1 m2. MemoryManager_init (MemoryManager_new boot_machine) boot_memory = Inr m
    \<and> MM_allocate m 0x40000000 True True = Inr m1 \<and> deallocate m1 0x40000000 True = Inr m2
    \<and> mapping m2 0x101000 0x40000000 = None"
proof -
  obtain m where m: "MemoryManager_init (MemoryManager_new boot_machine) boot_memory = Inr m"
    "mm_inv 0x102000 {0x101000} m" "cr3 m = 0x101000"
    "\<And>b. own_index (PageDirectory_get_index b) \<Longrightarrow> mapping m 0x101000 b = None"
    "frame_free m 0x500000" "frame_free m 0x501000" "20 \<le> card {f. frame_free m f}" "next_page_directory_allocation m = 0x300000"
    by (rule boot_started) (rule that)
  then show ?thesis
    using allocate_deallocate_roundtrip [OF m(2) index_examples(1) _ m(5,6), of True True] m(4) [OF index_examples(1)]
    by auto
qed

lemma allocate_range_loop_eq:
  "unat a + n * 4096 < 4294967296 \<Longrightarrow>
   allocate_range_loop a (a + word_of_nat (n * 4096)) w u m = Some (rfold (\<lambda>p m. MM_allocate m p w u) (pages_from a n) m)"
proof (induction n arbitrary: a m)
  case 0
  then show ?case by (simp add: allocate_range_loop.simps [of a] pages_from_def)
next
  case (Suc n)
  have lt: "a < a + word_of_nat (Suc n * 4096)"
    using unat_add_small [OF Suc.prems] by (simp add: word_less_nat_alt del: of_nat_mult of_nat_Suc)
  have nx: "unat (a + PAGE_SIZE) = unat a + 4096" using unat_add_small [of a 4096] Suc.prems by simp
  have st: "a + word_of_nat (Suc n * 4096) = (a + PAGE_SIZE) + word_of_nat (n * 4096)" by (simp add: algebra_simps)
  have "allocate_range_loop (a + PAGE_SIZE) (a + word_of_nat (Suc n * 4096)) w u m'
      = Some (rfold (\<lambda>p m. MM_allocate m p w u) (pages_from (a + PAGE_SIZE) n) m')" for m'
    unfolding st using Suc.prems nx by (intro Suc.IH) simp
  then show ?case using lt
    by (auto simp: allocate_range_loop.simps [of a] pages_from_Suc simp del: of_nat_mult of_nat_Suc split: sum.split)
qed

lemma map_upds_nth:
  "distinct xs \<Longrightarrow> length ys = length xs \<Longrightarrow> i < length xs \<Longrightarrow> (f(xs [\<mapsto>] ys)) (xs ! i) = Some (ys ! i)"
proof (induction xs arbitrary: ys i f)
  case (Cons x xs)
  then obtain y zs where "ys = y # zs" by (cases ys) auto
  with Cons show ?case by (cases i) (auto simp: map_upds_apply_nontin)
qed simp

text \<open>What the view of an address space says of the pages of a range and of the others.\<close>

lemma view_range:
  assumes "is_frame_aligned a" "unat a + n * 4096 < 4294967296"
    "page_view c m' = (page_view c m)(pages_from a n [\<mapsto>] map (\<lambda>f. (f, w, u)) fs)" "length fs = n"
  shows "\<forall>i<n. mapping m' c (a + word_of_nat (i * 4096)) = Some (fs ! i, w, u)"
    "\<forall>b. te_addr b \<notin> set (pages_from a n) \<longrightarrow> mapping m' c b = mapping m c b"
proof -
  let ?ps = "pages_from a n"
  have len: "length ?ps = n" by (simp add: pages_from_def)
  have "mapping m' c (a + word_of_nat (i * 4096)) = Some (fs ! i, w, u)" if "i < n" for i
  proof -
    have p: "?ps ! i = a + word_of_nat (i * 4096)" "?ps ! i \<in> set ?ps" using that len by (auto simp: pages_from_def)
    have "page_view c m' (?ps ! i) = Some (fs ! i, w, u)"
      unfolding assms(3) using map_upds_nth [OF distinct_pages_from [OF assms(2)], of "map (\<lambda>f. (f, w, u)) fs" i] assms(4) that len
      by simp
    then show ?thesis using aligned_pages_from [OF assms(2,1) p(2)] p(1) by (simp add: page_view_def)
  qed
  then show "\<forall>i<n. mapping m' c (a + word_of_nat (i * 4096)) = Some (fs ! i, w, u)" by blast
  have "mapping m' c b = mapping m c b" if "te_addr b \<notin> set ?ps" for b
    using fun_cong [OF assms(3), of "te_addr b"] that
    by (simp add: page_view_def is_frame_aligned_iff map_upds_apply_nontin mapping_te_addr)
  then show "\<forall>b. te_addr b \<notin> set ?ps \<longrightarrow> mapping m' c b = mapping m c b" by blast
qed

text \<open>
  A range of unmapped pages is allocated as a whole. When the range has no more than half
  as many pages as there are free frames, every page of it is mapped with the wanted
  permissions, to frames that were free and are different from one another, and nothing else
  in the address space changes; a size that is not a multiple of the page size is refused.
\<close>

theorem allocate_range_maps_all:
  assumes "mm_inv idt ds m" "is_frame_aligned a" "unat a + n * 4096 < 4294967296"
    "\<forall>p\<in>set (pages_from a n). own_index (PageDirectory_get_index p) \<and> mapping m (cr3 m) p = None"
    "2 * n \<le> card {f. frame_free m f}"
  shows "\<exists>m' fs. allocate_range m a (word_of_nat (n * 4096)) w u = Inr (E_OK, m') \<and> mm_inv idt ds m' \<and> cr3 m' = cr3 m
    \<and> length fs = n \<and> distinct fs \<and> (\<forall>f\<in>set fs. frame_free m f \<and> \<not> frame_free m' f)
    \<and> (\<forall>i<n. mapping m' (cr3 m) (a + word_of_nat (i * 4096)) = Some (fs ! i, w, u))
    \<and> (\<forall>b. te_addr b \<notin> set (pages_from a n) \<longrightarrow> mapping m' (cr3 m) b = mapping m (cr3 m) b)"
proof -
  let ?ps = "pages_from a n"
  have len: "length ?ps = n" by (simp add: pages_from_def)
  have al: "is_frame_aligned p" if "p \<in> set ?ps" for p using aligned_pages_from [OF assms(3,2) that] .
  have "\<exists>m' fs. rfold (\<lambda>p m. MM_allocate m p w u) ?ps m = Inr m' \<and> (mm_inv idt ds m' \<and> cr3 m' = cr3 m)
    \<and> length fs = length ?ps \<and> distinct fs \<and> set fs \<subseteq> {f. frame_free m f} - {f. frame_free m' f}
    \<and> {f. frame_free m' f} \<subseteq> {f. frame_free m f}
    \<and> page_view (cr3 m) m' = (page_view (cr3 m) m)(?ps [\<mapsto>] map (\<lambda>f. (f, w, u)) fs)"
    by (rule mm_space.alloc_all) (use assms al len distinct_pages_from [OF assms(3)] in \<open>auto simp: page_view_def\<close>)
  then obtain m' fs where r: "rfold (\<lambda>p m. MM_allocate m p w u) ?ps m = Inr m'" "mm_inv idt ds m'" "cr3 m' = cr3 m"
      "length fs = n" "distinct fs" "set fs \<subseteq> {f. frame_free m f} - {f. frame_free m' f}"
      "page_view (cr3 m) m' = (page_view (cr3 m) m)(?ps [\<mapsto>] map (\<lambda>f. (f, w, u)) fs)"
    using len by auto
  have "word_of_nat (n * 4096) mod PAGE_SIZE = (0 :: u32)"
    using assms(3) unat_add_small [of 0 "n * 4096"] by (simp add: word_unat_eq_iff unat_mod del: of_nat_mult)
  then have "allocate_range m a (word_of_nat (n * 4096)) w u = Inr (E_OK, m')"
    using allocate_range_loop_eq [OF assms(3), of w u m] r(1) by (simp add: allocate_range_def del: of_nat_mult)
  moreover note view_range [OF assms(2,3) r(7,4)]
  ultimately show ?thesis using r by (intro exI [of _ m'] exI [of _ fs]) auto
qed

section \<open>Pages of another process\<close>

lemma shares_temp_unmapped:
  assumes "mm_inv idt ds m" "d \<in> ds"
  shows "shares (temp_unmapped idt m) d i = shares m d i"
proof -
  have "phys (temp_unmapped idt m) d' i = phys m d' i" if "d' \<in> ds" for d'
    using mm_invD(6) [OF assms(1) that] by (simp add: temp_unmapped_def phys_poke)
  moreover have "cr3 (temp_unmapped idt m) = cr3 m" by (simp add: temp_unmapped_def)
  ultimately show ?thesis using assms(2) mm_invD(4) [OF assms(1)] by (simp add: shares_def)
qed

lemma duplicate_page_maps:
  assumes inv: "mm_inv idt ds m" and oc: "oc \<in> ds" and own: "own_index (PageDirectory_get_index s)"
    and src: "mapping m oc s = Some (f, w, True)"
    and dst: "own_index (PageDirectory_get_index (dst + (s - src)))" "mapping m (cr3 m) (dst + (s - src)) = None"
    and room: "frame_free m g"
  obtains m' h where "duplicate_page oc s src dst m = Inr m'" "mm_inv idt ds m'" "cr3 m' = cr3 m"
    "\<And>b. mapping m' (cr3 m) b = (if te_addr b = te_addr (dst + (s - src)) then Some (f, True, True) else mapping m (cr3 m) b)"
    "\<And>b x. mapping m oc b = Some x \<Longrightarrow> oc \<noteq> cr3 m \<Longrightarrow> mapping m' oc b = Some x"
    "\<And>g. frame_free m' g \<longleftrightarrow> frame_free m g \<and> g \<noteq> h"
proof -
  let ?i = "PageDirectory_get_index s" and ?j = "PageTable_get_index s" and ?d = "dst + (s - src)"
  let ?k = "PageDirectory_get_index ?d"
  note D = mm_invD [OF inv]
  define t where "t = te_addr (phys m oc ?i)"
  have p: "is_present (phys m oc ?i)" "is_present (phys m t ?j)" "te_addr (phys m t ?j) = f" "is_user_allowed (phys m t ?j)"
    using src by (auto simp: mapping_def t_def Let_def split: if_splits)
  have t: "is_table ds m ?i t" using own oc p(1) by (auto simp: is_table_def t_def)
  have tn: "t \<noteq> idt" "t \<noteq> cr3 m" "t AND 0xFFF = 0" using table_neq [OF inv t] D(4) by (auto simp: t_def)
  note io = entry_through_tempmap [OF D(1) tn, of ?j]
  let ?m2 = "temp_unmapped idt m"
  have inv2: "mm_inv idt ds ?m2" by (rule mm_inv_temp_unmapped [OF inv])
  have mp2: "mapping ?m2 d b = mapping m d b" if "d \<in> ds" for d b by (rule mapping_temp_unmapped [OF inv that])
  have cr2: "cr3 ?m2 = cr3 m" and fr2: "frame_free ?m2 = frame_free m" by (simp_all add: temp_unmapped_def fun_eq_iff)
  have tab2: "is_table ds ?m2 = is_table ds m"
    using D(6) by (intro is_table_cong) (simp add: temp_unmapped_def phys_poke)
  have fa: "f AND 0xFFF = 0" "\<not> frame_free ?m2 f" "\<And>k. \<not> is_table ds ?m2 k f"
    using p D(12) [OF t, of ?j] D(13) [OF t, of ?j] by (auto simp: tab2 fr2)
  have absent: "mapping ?m2 (cr3 ?m2) ?d = None" using dst(2) mp2 [OF D(4)] cr2 by simp
  have rm: "is_present (phys ?m2 (cr3 ?m2) ?k) \<or> (\<exists>f. frame_free ?m2 f)" using room fr2 by auto
  from map_page_maps [OF inv2 dst(1) absent rm fa, of True True] obtain m' h where
    m': "map_page ?m2 ?d f True True = Inr (E_OK, m')" "mm_inv idt ds m'" "cr3 m' = cr3 m"
      "\<And>d b. d \<in> ds \<Longrightarrow> mapping m' d b = (if te_addr b = te_addr ?d \<and> (d = cr3 m \<or> shares ?m2 d ?k)
          then Some (f, True, True) else mapping ?m2 d b)"
      "\<And>g. frame_free m' g \<longleftrightarrow> frame_free m g \<and> g \<noteq> h"
    unfolding cr2 fr2 by auto
  have "vread m (oc + 4 * ?i) = Inr (phys m oc ?i)" by (rule vread_low [OF D(1) D(5) [OF oc]]) simp
  then have "duplicate_page oc s src dst m = Inr m'"
    using temp_map_eq [OF D(1,2), of t] io p m'(1)
    by (simp add: duplicate_page_def get_pde_def get_pte_def t_def [symmetric])
  moreover have "mapping m' oc b = Some x" if "mapping m oc b = Some x" "oc \<noteq> cr3 m" for b x
  proof -
    have "\<not> (te_addr b = te_addr ?d \<and> shares ?m2 oc ?k)"
      using that(1) dst(2) unfolding shares_temp_unmapped [OF inv oc]
      by (auto simp: mapping_def shares_def same_page_iff [of b ?d] Let_def split: if_splits)
    then show ?thesis using m'(4) [OF oc, of b] that mp2 [OF oc] by auto
  qed
  ultimately show thesis using m' mp2 [OF D(4)] D(4) by (intro that [of m' h]) auto
qed

theorem allocate_range_maps_all_witness:
  "\<exists>m m' f g. MemoryManager_init (MemoryManager_new boot_machine) boot_memory = Inr m
    \<and> allocate_range m 0x40000000 0x2000 True True = Inr (E_OK, m') \<and> f \<noteq> g
    \<and> mapping m' 0x101000 0x40000000 = Some (f, True, True) \<and> mapping m' 0x101000 0x40001000 = Some (g, True, True)"
proof -
  obtain m where m: "MemoryManager_init (MemoryManager_new boot_machine) boot_memory = Inr m"
    "mm_inv 0x102000 {0x101000} m" "cr3 m = 0x101000"
    "\<And>b. own_index (PageDirectory_get_index b) \<Longrightarrow> mapping m 0x101000 b = None"
    "frame_free m 0x500000" "frame_free m 0x501000" "20 \<le> card {f. frame_free m f}" "next_page_directory_allocation m = 0x300000"
    by (rule boot_started) (rule that)
  have ps: "pages_from 0x40000000 2 = [0x40000000, 0x40001000]" by (simp add: pages_from_def upt_conv_Cons)
  have "\<forall>p\<in>set (pages_from 0x40000000 2). own_index (PageDirectory_get_index p) \<and> mapping m (cr3 m) p = None"
    using m(3,4) index_examples unfolding ps by simp
  from allocate_range_maps_all [OF m(2) _ _ this, of True True] m(7)
  obtain m' fs where r: "allocate_range m 0x40000000 0x2000 True True = Inr (E_OK, m')" "length fs = 2" "distinct fs"
      "\<forall>i<2. mapping m' (cr3 m) (0x40000000 + word_of_nat (i * 4096)) = Some (fs ! i, True, True)"
    by (auto simp: is_frame_aligned_def)
  have "fs ! 0 \<noteq> fs ! 1" using r(2,3) nth_eq_iff_index_eq [of fs 0 1] by simp
  then show ?thesis using m(1,3) r(1) spec [OF r(4), of 0] spec [OF r(4), of 1] by auto
qed

lemma pages_from_nth: "i < n \<Longrightarrow> a + word_of_nat (i * 4096) \<in> set (pages_from a n)"
  by (simp add: pages_from_def)

lemma page_shift: "a + PAGE_SIZE + word_of_nat (i * 4096) = a + word_of_nat (Suc i * 4096)" for a :: u32
  by (simp add: algebra_simps)

lemma card_lose_one:
  fixes P Q :: "u32 \<Rightarrow> bool"
  assumes "\<And>g. Q g \<longleftrightarrow> P g \<and> g \<noteq> h"
  shows "card {f. P f} \<le> Suc (card {f. Q f})"
proof -
  have "{f. P f} \<subseteq> insert h {f. Q f}" using assms by auto
  from card_mono [OF finite this] show ?thesis by (auto simp: card_insert_if split: if_splits)
qed

lemma duplicate_loop_maps:
  fixes fr :: "nat \<Rightarrow> u32"
  assumes "mm_inv idt ds m" "oc \<in> ds" "oc \<noteq> cr3 m" "is_frame_aligned (dst + (v - src))"
    "unat v + n * 4096 < 4294967296" "unat (dst + (v - src)) + n * 4096 < 4294967296"
    "\<forall>i<n. own_index (PageDirectory_get_index (v + word_of_nat (i * 4096)))
        \<and> (\<exists>w. mapping m oc (v + word_of_nat (i * 4096)) = Some (fr i, w, True))"
    "\<forall>p\<in>set (pages_from (dst + (v - src)) n). own_index (PageDirectory_get_index p) \<and> mapping m (cr3 m) p = None"
    "n \<le> card {f. frame_free m f}"
  shows "\<exists>m'. duplicate_loop oc v src (v + word_of_nat (n * 4096)) dst m = Some (Inr m') \<and> mm_inv idt ds m' \<and> cr3 m' = cr3 m
    \<and> (\<forall>i<n. mapping m' (cr3 m) (dst + (v - src) + word_of_nat (i * 4096)) = Some (fr i, True, True))
    \<and> (\<forall>b. te_addr b \<notin> set (pages_from (dst + (v - src)) n) \<longrightarrow> mapping m' (cr3 m) b = mapping m (cr3 m) b)"
  using assms
proof (induction n arbitrary: v m fr)
  case 0
  then show ?case by (simp add: duplicate_loop.simps [of oc v])
next
  case (Suc n)
  let ?D = "dst + (v - src)"
  have lt: "v < v + word_of_nat (Suc n * 4096)"
    using unat_add_small [OF Suc.prems(5)] by (simp add: word_less_nat_alt del: of_nat_mult of_nat_Suc)
  have D': "dst + (v + PAGE_SIZE - src) = ?D + PAGE_SIZE" by simp
  have un: "unat (v + PAGE_SIZE) = unat v + 4096" "unat (?D + PAGE_SIZE) = unat ?D + 4096"
    using unat_add_small [of v 4096] unat_add_small [of ?D 4096] Suc.prems(5,6) by simp_all
  obtain w where s0: "own_index (PageDirectory_get_index v)" "mapping m oc v = Some (fr 0, w, True)"
    using Suc.prems(7) by force
  have dD: "own_index (PageDirectory_get_index ?D)" "mapping m (cr3 m) ?D = None"
    using Suc.prems(8) by (simp_all add: pages_from_Suc)
  have "{f. frame_free m f} \<noteq> {}" using Suc.prems(9) by force
  then obtain g where g: "frame_free m g" by blast
  obtain m1 h where m1: "duplicate_page oc v src dst m = Inr m1" "mm_inv idt ds m1" "cr3 m1 = cr3 m"
    and mp: "\<And>b. mapping m1 (cr3 m) b = (if te_addr b = te_addr ?D then Some (fr 0, True, True) else mapping m (cr3 m) b)"
    and keep: "\<And>b x. mapping m oc b = Some x \<Longrightarrow> oc \<noteq> cr3 m \<Longrightarrow> mapping m1 oc b = Some x"
    and free1: "\<And>g. frame_free m1 g \<longleftrightarrow> frame_free m g \<and> g \<noteq> h"
    by (rule duplicate_page_maps [OF Suc.prems(1,2) s0 dD g]) (rule that)
  have al: "is_frame_aligned p" if "p \<in> set (pages_from ?D (Suc n))" for p
    using aligned_pages_from [OF Suc.prems(6,4) that] .
  have ne: "te_addr p \<noteq> te_addr ?D" if "p \<in> set (pages_from (?D + PAGE_SIZE) n)" for p
  proof -
    have "p \<in> set (pages_from ?D (Suc n))" using that by (simp add: pages_from_Suc)
    moreover have "p \<noteq> ?D" using that distinct_pages_from [OF Suc.prems(6)] by (auto simp: pages_from_Suc)
    ultimately show ?thesis using al [of p] Suc.prems(4) by (simp add: is_frame_aligned_iff)
  qed
  have "n \<le> card {f. frame_free m1 f}" using card_lose_one [OF free1] Suc.prems(9) by simp
  moreover have "\<forall>i<n. own_index (PageDirectory_get_index (v + PAGE_SIZE + word_of_nat (i * 4096)))
      \<and> (\<exists>w. mapping m1 oc (v + PAGE_SIZE + word_of_nat (i * 4096)) = Some (fr (Suc i), w, True))"
    unfolding page_shift using Suc.prems(3,7) keep by (metis Suc_mono)
  moreover have "\<forall>p\<in>set (pages_from (?D + PAGE_SIZE) n). own_index (PageDirectory_get_index p) \<and> mapping m1 (cr3 m) p = None"
    using Suc.prems(8) ne mp by (simp add: pages_from_Suc)
  moreover have "is_frame_aligned (?D + PAGE_SIZE)" using Suc.prems(4) un(2) by (simp add: aligned_unat)
  ultimately obtain m' where m': "duplicate_loop oc (v + PAGE_SIZE) src (v + PAGE_SIZE + word_of_nat (n * 4096)) dst m1 = Some (Inr m')"
      "mm_inv idt ds m'" "cr3 m' = cr3 m"
      "\<And>i. i < n \<Longrightarrow> mapping m' (cr3 m) (?D + PAGE_SIZE + word_of_nat (i * 4096)) = Some (fr (Suc i), True, True)"
      "\<And>b. te_addr b \<notin> set (pages_from (?D + PAGE_SIZE) n) \<Longrightarrow> mapping m' (cr3 m) b = mapping m1 (cr3 m) b"
    using Suc.IH [of m1 "v + PAGE_SIZE" "\<lambda>i. fr (Suc i)"] m1(2,3) Suc.prems(2,3,5,6) un unfolding D' by auto
  have "duplicate_loop oc v src (v + word_of_nat (Suc n * 4096)) dst m = Some (Inr m')"
    using lt m1(1) m'(1) unfolding page_shift by (simp add: duplicate_loop.simps [of oc v] del: of_nat_mult of_nat_Suc)
  moreover have "mapping m' (cr3 m) (?D + word_of_nat (i * 4096)) = Some (fr i, True, True)" if "i < Suc n" for i
  proof (cases i)
    case 0
    have "te_addr ?D \<notin> set (pages_from (?D + PAGE_SIZE) n)"
      using ne [of "te_addr ?D"] by auto
    then show ?thesis using m'(5) [of ?D] mp [of ?D] 0 by simp
  next
    case (Suc k)
    then show ?thesis using m'(4) [of k] that unfolding page_shift by simp
  qed
  moreover have "mapping m' (cr3 m) b = mapping m (cr3 m) b" if "te_addr b \<notin> set (pages_from ?D (Suc n))" for b
    using that m'(5) [of b] mp [of b] Suc.prems(4) by (simp add: pages_from_Suc is_frame_aligned_iff)
  ultimately show ?case using m'(2,3) by blast
qed


section \<open>Cloning a page directory\<close>

lemma copy_from_eq:
  assumes "low_map idt m" "\<not> m_tempmap_used m" "src AND 0xFFF = 0" "src \<noteq> idt"
  shows "copy_from_physical_frame m src = Inr (phys m src, temp_unmapped idt m)"
proof -
  have "xlate (temp_mapped idt src m) TEMPMAP_ADDR = Inr (src, 0)" using xlate_temp_mapped [OF assms(1,3), of 0] by simp
  moreover have "phys (temp_mapped idt src m) src = phys m src" using assms(4) by (simp add: temp_mapped_def phys_poke fun_eq_iff)
  moreover have "un_temp_map (temp_mapped idt src m) = Inr (temp_unmapped idt m)"
    using un_temp_map_eq [OF low_map_temp(1) [OF assms(1)], of src] assms(3)
    by (simp add: temp_unmapped_def temp_mapped_def mapping_entry_twice phys_poke poke_def)
  ultimately show ?thesis
    using temp_map_eq [OF assms(1,2)] by (simp add: copy_from_physical_frame_def read_page_def)
qed

definition set_page :: "u32 \<Rightarrow> page \<Rightarrow> mm \<Rightarrow> mm" where
  "set_page f p m = m\<lparr>phys := (phys m)(f := p)\<rparr>"

lemma phys_set_page [simp]: "phys (set_page f p m) g = (if g = f then p else phys m g)"
  by (simp add: set_page_def)

lemma set_page_simps [simp]:
  "cr3 (set_page f p m) = cr3 m" "m_page_directory (set_page f p m) = m_page_directory m"
  "m_tempmap_used (set_page f p m) = m_tempmap_used m" "frame_free (set_page f p m) = frame_free m"
  "next_page_directory_allocation (set_page f p m) = next_page_directory_allocation m"
  by (simp_all add: set_page_def frame_free_def fun_eq_iff)

lemma low_map_set_page: "low_map idt m \<Longrightarrow> f \<noteq> idt \<Longrightarrow> f \<noteq> cr3 m \<Longrightarrow> low_map idt (set_page f p m)"
  by (simp add: low_map_def)

lemma temp_mapped_set_page: "f \<noteq> idt \<Longrightarrow> set_page f p (temp_mapped idt a m) = temp_mapped idt a (set_page f p m)"
  by (simp add: set_page_def temp_mapped_def poke_def fun_upd_twist)

lemma temp_unmapped_temp_mapped0:
  "a AND 0xFFF = 0 \<Longrightarrow> temp_unmapped idt (temp_mapped idt a m) = temp_unmapped idt m"
  by (simp add: temp_unmapped_def temp_mapped_def mapping_entry_twice phys_poke poke_def)

lemma copy_to_eq:
  assumes "low_map idt m" "\<not> m_tempmap_used m" "dst AND 0xFFF = 0" "dst \<noteq> idt" "dst \<noteq> cr3 m"
  shows "copy_to_physical_frame m dst p = Inr (temp_unmapped idt (set_page dst p m))"
proof -
  have x: "xlate (temp_mapped idt dst m) TEMPMAP_ADDR = Inr (dst, 0)" using xlate_temp_mapped [OF assms(1,3), of 0] by simp
  have "write_page TEMPMAP_ADDR p (temp_mapped idt dst m) = Inr (temp_mapped idt dst (set_page dst p m))"
    using x temp_mapped_set_page [OF assms(4)] by (simp add: write_page_def set_page_def)
  moreover have "un_temp_map (temp_mapped idt dst (set_page dst p m)) = Inr (temp_unmapped idt (set_page dst p m))"
    using un_temp_map_eq [OF low_map_temp(1) [OF low_map_set_page [OF assms(1,4,5)]]] temp_unmapped_temp_mapped0 [OF assms(3)]
    by simp
  ultimately show ?thesis using temp_map_eq [OF assms(1,2)] by (simp add: copy_to_physical_frame_def)
qed

text \<open>The two passes, when the user pages are not copied.\<close>

definition kernel_entry :: "page \<Rightarrow> u32 \<Rightarrow> bool" where
  "kernel_entry E i \<longleftrightarrow> \<not> i \<le> 1 \<and> is_present (E i) \<and> address_in_kernel_space (i * PDE_MAP_SIZE)"

definition user_entry :: "page \<Rightarrow> u32 \<Rightarrow> bool" where
  "user_entry E i \<longleftrightarrow> \<not> i \<le> 1 \<and> is_present (E i) \<and> \<not> address_in_kernel_space (i * PDE_MAP_SIZE)"

lemma clone_scan_all:
  "rfold (clone_scan E False) xs (m, news, dels) =
     Inr (m, (\<lambda>i. if i \<in> word_of_nat ` set xs \<and> kernel_entry E i then te_addr (E i) else news i),
          (\<lambda>i. i \<in> word_of_nat ` set xs \<and> user_entry E i \<or> dels i))"
proof (induction xs arbitrary: news dels)
  case (Cons x xs)
  have step: "clone_scan E False x (m, news, dels) = Inr (m, (\<lambda>i. if i = word_of_nat x \<and> kernel_entry E i then te_addr (E i) else news i),
      (\<lambda>i. i = word_of_nat x \<and> user_entry E i \<or> dels i))"
    by (auto simp: clone_scan_def kernel_entry_def user_entry_def Let_def fun_eq_iff)
  show ?case unfolding rfold.simps step rbind_Inr Cons.IH by (auto simp: fun_eq_iff)
qed simp

lemma unat_small_index: "x < 1024 \<Longrightarrow> unat (word_of_nat x :: u32) = x"
  by (simp add: unsigned_of_nat take_bit_nat_eq_self)

lemma clone_update_all:
  assumes "low_map idt m" "d AND 0xFFF = 0" "d \<noteq> idt" "d \<noteq> cr3 m" "\<forall>x\<in>set xs. x < 1024" "distinct xs"
  shows "rfold (clone_update TEMPMAP_ADDR news dels) xs (temp_mapped idt d (set_page d E m)) =
     Inr (temp_mapped idt d (set_page d (\<lambda>i. if i \<in> word_of_nat ` set xs
       then if dels i then 0 else if news i = 0 then E i else te_set_addr (news i) (E i) else E i) m))"
  using assms(5,6)
proof (induction xs arbitrary: E)
  case Nil
  show ?case by simp
next
  case (Cons x xs)
  let ?i = "word_of_nat x :: u32" and ?T = "\<lambda>E. temp_mapped idt d (set_page d E m)"
  let ?v = "if dels ?i then 0 else if news ?i = 0 then E ?i else te_set_addr (news ?i) (E ?i)"
  have low: "low_map idt (set_page d E m)" by (rule low_map_set_page [OF assms(1,3,4)])
  have "?i AND 0x3FF = ?i" unfolding index_less [symmetric] using Cons.prems unat_small_index [of x] by (simp add: word_less_nat_alt)
  then have x: "xlate (?T E) (TEMPMAP_ADDR + 4 * ?i) = Inr (d, ?i)" by (rule xlate_temp_mapped [OF low assms(2)])
  have pk: "poke d ?i v (?T E) = ?T (E(?i := v))" for v
    using assms(3) by (simp add: set_page_def temp_mapped_def poke_def fun_upd_twist)
  have ph: "phys (?T E) d ?i = E ?i" using assms(3) by (simp add: temp_mapped_def phys_poke)
  have nochange: "?T (E(?i := E ?i)) = ?T E" by simp
  have step: "clone_update TEMPMAP_ADDR news dels x (?T E) = Inr (?T (E(?i := ?v)))"
    using update_entry_at [OF x, of "\<lambda>_. 0"] update_entry_at [OF x, of "te_set_addr (news ?i)"] pk ph
    by (simp add: clone_update_def Let_def)
  have new: "?i \<notin> word_of_nat ` set xs"
  proof
    assume "?i \<in> word_of_nat ` set xs"
    then obtain y where "y \<in> set xs" "(word_of_nat y :: u32) = ?i" by auto
    then have "y = x" using Cons.prems unat_small_index [of x] unat_small_index [of y] by auto
    then show False using Cons.prems(2) \<open>y \<in> set xs\<close> by simp
  qed
  have IH: "rfold (clone_update TEMPMAP_ADDR news dels) xs (?T (E(?i := ?v))) =
     Inr (?T (\<lambda>i. if i \<in> word_of_nat ` set xs then if dels i then 0 else if news i = 0 then (E(?i := ?v)) i
       else te_set_addr (news i) ((E(?i := ?v)) i) else (E(?i := ?v)) i))"
    using Cons.prems by (intro Cons.IH) auto
  have "(\<lambda>i. if i \<in> word_of_nat ` set xs then if dels i then 0 else if news i = 0 then (E(?i := ?v)) i
       else te_set_addr (news i) ((E(?i := ?v)) i) else (E(?i := ?v)) i) =
     (\<lambda>i. if i \<in> word_of_nat ` set (x # xs) then if dels i then 0 else if news i = 0 then E i
       else te_set_addr (news i) (E i) else E i)"
    using new by (auto simp: fun_eq_iff)
  then show ?case unfolding rfold.simps step rbind_Inr IH by simp
qed

lemma mm_inv_add_directory:
  assumes inv: "mm_inv idt ds m" and d: "low_frame d" "d \<noteq> idt" "d \<notin> ds"
    and pg: "\<And>i. i AND 0x3FF = i \<Longrightarrow> is_present (pg i) \<Longrightarrow> pg i = phys m (cr3 m) i"
  shows "mm_inv idt (insert d ds) (set_page d pg m)"
    "\<And>b c. c \<in> ds \<Longrightarrow> mapping (set_page d pg m) c b = mapping m c b"
    "\<And>b. mapping (set_page d pg m) d b = (if is_present (pg (PageDirectory_get_index b)) then mapping m (cr3 m) b else None)"
proof -
  note D = mm_invD [OF inv]
  let ?m = "set_page d pg m"
  have tab: "is_table (insert d ds) ?m i t \<longleftrightarrow> is_table ds m i t" for i t
    using D(4) d(3) pg [of i] by (auto simp: is_table_def own_index_def)
  have td: "t \<noteq> d" if "is_table ds m i t" for i t using low_not_high [OF d(1) D(9) [OF that]] .
  show "mm_inv idt (insert d ds) ?m"
  proof (rule mm_invI)
    show "low_map idt ?m" using d(2,3) D(4) by (intro low_map_set_page D(1)) auto
    show "te_addr (phys ?m c i) = idt" if "c \<in> insert d ds" "i \<in> {0, 768}" "is_present (phys ?m c i)" for c i
    proof (cases "c = d")
      case True
      then have "phys ?m c i = phys m (cr3 m) i" using that pg [of i] by auto
      then show ?thesis using D(7) [OF D(4) that(2)] that(3) by simp
    next
      case False
      then show ?thesis using D(7) [of c i] that by simp
    qed
    show "\<not> frame_free ?m (te_addr (phys ?m t j))"
      if "is_table (insert d ds) ?m i t" "j AND 0x3FF = j" "is_present (phys ?m t j)" for i t j
      using that D(12) [of i t j] td [of i t] unfolding tab by simp
    show "\<not> is_table (insert d ds) ?m k (te_addr (phys ?m t j))"
      if "is_table (insert d ds) ?m i t" "j AND 0x3FF = j" "is_present (phys ?m t j)" for i t j k
      using that D(13) [of i t j] td [of i t] unfolding tab by simp
    show "\<not> frame_free ?m t" if "is_table (insert d ds) ?m i t" for i t using that D(10) unfolding tab by simp
    show "i = j" if "is_table (insert d ds) ?m i t" "is_table (insert d ds) ?m j t" for i j t
      using D(11) that unfolding tab .
    show "0x500000 \<le> t" if "is_table (insert d ds) ?m i t" for i t using D(9) that unfolding tab .
    show "low_frame c" "c \<noteq> idt" if "c \<in> insert d ds" for c using that D(5,6) d by auto
  qed (use D d in auto)
  have tb: "te_addr (phys m c i) \<noteq> d" if "c \<in> ds" "is_present (phys m c i)" "i AND 0x3FF = i" for c i
  proof (cases "own_index i")
    case True
    then show ?thesis using that td [of i "te_addr (phys m c i)"] by (auto simp: is_table_def)
  next
    case False
    then show ?thesis using that D(7) [of c i] d(2) by (auto simp: own_index_def)
  qed
  show "mapping ?m c b = mapping m c b" if "c \<in> ds" for b c
    using that d(3) tb [of c "PageDirectory_get_index b"] by (auto simp: mapping_def Let_def)
  show "mapping ?m d b = (if is_present (pg (PageDirectory_get_index b)) then mapping m (cr3 m) b else None)" for b
    using pg [of "PageDirectory_get_index b"] tb [OF D(4), of "PageDirectory_get_index b"]
    by (auto simp: mapping_def Let_def)
qed


lemma mm_inv_subset:
  assumes "mm_inv idt ds m" "ds' \<subseteq> ds" "cr3 m \<in> ds'"
  shows "mm_inv idt ds' m"
proof -
  note D = mm_invD [OF assms(1)]
  have tab: "is_table ds m i t" if "is_table ds' m i t" for i t using that assms(2) by (auto simp: is_table_def)
  show ?thesis
  proof (rule mm_invI)
    show "\<not> frame_free m (te_addr (phys m t j))"
      if "is_table ds' m i t" "j AND 0x3FF = j" "is_present (phys m t j)" for i t j using D(12) [OF tab [OF that(1)] that(2,3)] .
    show "\<not> is_table ds' m k (te_addr (phys m t j))"
      if "is_table ds' m i t" "j AND 0x3FF = j" "is_present (phys m t j)" for i t j k
      using D(13) [OF tab [OF that(1)] that(2,3)] tab by blast
    show "i = j" if "is_table ds' m i t" "is_table ds' m j t" for i j t using D(11) tab that by blast
    show "\<not> frame_free m t" "0x500000 \<le> t" if "is_table ds' m i t" for i t using D(9,10) tab that by blast+
    show "te_addr (phys m d i) = idt" if "d \<in> ds'" "i \<in> {0, 768}" "is_present (phys m d i)" for d i
      using D(7) that assms(2) by blast
  qed (use D(1,2,3,5,6,8) assms(2,3) in auto)
qed

lemma mm_inv_next: "mm_inv idt ds m \<Longrightarrow> mm_inv idt ds (m\<lparr>next_page_directory_allocation := n\<rparr>)"
  by (rule mm_inv_change [of idt ds m]) (auto simp: mm_invD frame_free_def low_map_def dest: mm_invD(1))

lemma te_set_same_addr: "te_set_addr (te_addr e) e = e"
  by (intro bit_word_eqI) (auto simp: bit_te_set_addr bit_te_addr)

lemma unat_PageDirectory_get_index: "unat (PageDirectory_get_index a) = unat a div 4194304"
proof -
  have "PageDirectory_get_index a = take_bit 10 (drop_bit 22 a)"
    unfolding PageDirectory_get_index_def mask_0x3FF by (simp add: take_bit_eq_mask)
  then have "unat (PageDirectory_get_index a) = unat a div 4194304 mod 1024"
    by (simp add: unsigned_take_bit_eq unsigned_drop_bit_eq take_bit_eq_mod drop_bit_eq_div unat_div unat_mod)
  moreover have "unat a div 4194304 < 1024" using less_mult_imp_div_less [of "unat a" 1024 4194304] by simp
  ultimately show ?thesis by simp
qed

text \<open>The part of the address space that a clone leaves empty.\<close>

lemma user_entry_iff:
  "user_entry E (PageDirectory_get_index b) \<longleftrightarrow>
    is_present (E (PageDirectory_get_index b)) \<and> 0x800000 \<le> b \<and> b < 0xC0000000"
proof -
  let ?i = "PageDirectory_get_index b"
  have lt: "unat b div 4194304 < 1024" using less_mult_imp_div_less [of "unat b" 1024 4194304] by simp
  then have "unat (?i * PDE_MAP_SIZE) = unat b div 4194304 * 4194304"
    using unat_mult_lem [of ?i PDE_MAP_SIZE] by (simp add: unat_PageDirectory_get_index)
  moreover have "\<not> ?i \<le> 1 \<longleftrightarrow> 2 \<le> unat b div 4194304" by (auto simp: word_le_nat_alt unat_PageDirectory_get_index)
  moreover have "2 \<le> unat b div 4194304 \<longleftrightarrow> 0x800000 \<le> unat b" by auto
  moreover have "unat b div 4194304 * 4194304 < 0xC0000000 \<longleftrightarrow> unat b < 0xC0000000" by auto
  ultimately show ?thesis
    unfolding user_entry_def address_in_kernel_space_def
    by (auto simp: word_le_nat_alt [of _ b] word_less_nat_alt word_le_nat_alt)
qed


lemma clone_page_directory_eq:
  assumes inv: "mm_inv idt ds m" and new: "low_frame new" "new \<noteq> idt" "new \<noteq> cr3 m"
    and nx: "next_page_directory_allocation m = new" "new + PAGE_SIZE < PAGE_DIRECTORY_ALLOCATION_END"
  shows "clone_page_directory m False = Inr (new,
    set_page new (\<lambda>i. if i < 1024 \<and> user_entry (phys m (cr3 m)) i then 0 else phys m (cr3 m) i)
      (temp_unmapped idt (m\<lparr>next_page_directory_allocation := new + PAGE_SIZE\<rparr>)))"
proof -
  let ?E = "phys m (cr3 m)" and ?U = "temp_unmapped idt"
  let ?m0 = "m\<lparr>next_page_directory_allocation := new + PAGE_SIZE\<rparr>"
  note D = mm_invD [OF mm_inv_next [OF inv, of "new + PAGE_SIZE"]]
  have fl: "cr3 (?U x) = cr3 x" "\<not> m_tempmap_used (?U x)" "m_page_directory (?U x) = m_page_directory x" for x
    by (simp_all add: temp_unmapped_def)
  have pu: "phys (?U x) d = phys x d" if "d \<noteq> idt" for x d using that by (simp add: temp_unmapped_def phys_poke fun_eq_iff)
  have uu: "?U (?U x) = ?U x" for x
    by (simp add: temp_unmapped_def phys_poke mapping_entry_twice poke_def)
  have us: "?U (set_page new p x) = set_page new p (?U x)" for p x
    using new(2) by (simp add: temp_unmapped_def set_page_def poke_def fun_upd_twist)
  have ss: "set_page new p (set_page new q x) = set_page new p x" for p q x by (simp add: set_page_def)
  have cr: "cr3 m AND 0xFFF = 0" "cr3 m \<noteq> idt" using low_mapD [OF D(1)] by auto
  let ?m2 = "set_page new ?E (?U ?m0)"
  have low1: "low_map idt (?U ?m0)" by (rule low_map_temp(2) [OF D(1)])
  have low2: "low_map idt ?m2" using new low1 by (intro low_map_set_page) (auto simp: fl)
  have c1: "copy_from_physical_frame ?m0 (cr3 m) = Inr (?E, ?U ?m0)" using copy_from_eq [OF D(1,2) cr] by simp
  have c2: "copy_to_physical_frame (?U ?m0) new ?E = Inr ?m2"
    using copy_to_eq [OF low1 fl(2), of new ?E] new by (simp add: fl us uu)
  have c3: "copy_from_physical_frame ?m2 (cr3 m) = Inr (?E, ?m2)"
    using copy_from_eq [OF low2 _ cr] new pu cr by (simp add: fl us uu)
  have mp: "m_page_directory m = cr3 m" using low_mapD(4) [OF D(1)] by simp
  let ?news = "\<lambda>i. if i \<in> word_of_nat ` {0..<1024} \<and> kernel_entry ?E i then te_addr (?E i) else (0 :: u32)"
  let ?dels = "\<lambda>i. i \<in> word_of_nat ` {0..<1024} \<and> user_entry ?E i"
  let ?E' = "\<lambda>i. if i < 1024 \<and> user_entry ?E i then 0 else ?E i"
  have idx: "i \<in> word_of_nat ` {0..<1024} \<longleftrightarrow> i < 1024" for i :: u32
  proof
    show "i < 1024 \<Longrightarrow> i \<in> word_of_nat ` {0..<1024}"
      by (intro image_eqI [of _ _ "unat i"]) (simp_all add: word_less_nat_alt)
  qed (auto simp: word_less_nat_alt unat_small_index)
  have tm: "temp_map new ?m2 = Inr (TEMPMAP_ADDR, temp_mapped idt new (set_page new ?E (?U ?m0)))"
    using temp_map_eq [OF low2, of new] by (simp add: fl)
  have up: "rfold (clone_update TEMPMAP_ADDR ?news ?dels) [0..<1024] (temp_mapped idt new (set_page new ?E (?U ?m0)))
      = Inr (temp_mapped idt new (set_page new ?E' (?U ?m0)))"
  proof -
    have "(\<lambda>i. if i \<in> word_of_nat ` set [0..<1024] then if ?dels i then 0 else if ?news i = 0 then ?E i
        else te_set_addr (?news i) (?E i) else ?E i) = ?E'"
      by (simp add: fun_eq_iff idx te_set_same_addr)
    moreover have "new \<noteq> cr3 (?U ?m0)" "new AND 0xFFF = 0" using new by (simp_all add: fl)
    ultimately show ?thesis
      using clone_update_all [OF low1 _ new(2), of "[0..<1024]" ?news ?dels ?E] by simp
  qed
  have un: "un_temp_map (temp_mapped idt new (set_page new ?E' (?U ?m0))) = Inr (set_page new ?E' (?U ?m0))"
    using un_temp_map_eq [OF low_map_temp(1) [OF low_map_set_page [OF low1 new(2)]], of new ?E']
      temp_unmapped_temp_mapped0 [of new] new by (simp add: fl us uu)
  have al: "is_frame_aligned new" using new(1) by (simp add: is_frame_aligned_iff)
  have mc: "memcpy_frames ?m0 new (cr3 m) = Inr ?m2" using c1 c2 by (simp add: memcpy_frames_def)
  have p2: "m_page_directory ?m2 = cr3 m" using mp by (simp add: fl)
  have sc: "rfold (clone_scan ?E False) [0..<1024] (?m2, (\<lambda>_. 0), (\<lambda>_. False)) = Inr (?m2, ?news, ?dels)"
    by (simp add: clone_scan_all)
  show ?thesis
    unfolding clone_page_directory_def Let_def
    using nx al mc mp p2 c3 sc tm up un by simp
qed

lemma clone_result:
  assumes inv: "mm_inv idt ds m" and new: "low_frame new" "new \<noteq> idt" "new \<notin> ds"
    and nx: "next_page_directory_allocation m = new" "new + PAGE_SIZE < PAGE_DIRECTORY_ALLOCATION_END"
  shows "\<exists>m'. clone_page_directory m False = Inr (new, m') \<and> mm_inv idt (insert new ds) m'
    \<and> next_page_directory_allocation m' = new + PAGE_SIZE \<and> cr3 m' = cr3 m
    \<and> (\<forall>d\<in>ds. \<forall>b. mapping m' d b = mapping m d b)
    \<and> (\<forall>b. mapping m' new b = (if 0x800000 \<le> b \<and> b < 0xC0000000 then None else mapping m (cr3 m) b))
    \<and> (\<forall>f. frame_free m' f \<longleftrightarrow> frame_free m f) \<and> (\<forall>f. f \<noteq> idt \<longrightarrow> f \<noteq> new \<longrightarrow> phys m' f = phys m f)"
proof -
  let ?E = "phys m (cr3 m)" and ?m1 = "temp_unmapped idt (m\<lparr>next_page_directory_allocation := new + PAGE_SIZE\<rparr>)"
  let ?pg = "\<lambda>i. if i < 1024 \<and> user_entry ?E i then 0 else ?E i"
  have inv0: "mm_inv idt ds (m\<lparr>next_page_directory_allocation := new + PAGE_SIZE\<rparr>)" by (rule mm_inv_next [OF inv])
  have inv1: "mm_inv idt ds ?m1" by (rule mm_inv_temp_unmapped [OF inv0])
  have cr: "cr3 m \<in> ds" "cr3 m \<noteq> idt" "cr3 ?m1 = cr3 m"
    using mm_invD(4) [OF inv] mm_invD(6) [OF inv] by (auto simp: temp_unmapped_def)
  have ph: "phys ?m1 (cr3 m) = ?E" using cr(2) by (simp add: temp_unmapped_def phys_poke fun_eq_iff)
  have mp: "mapping ?m1 d b = mapping m d b" if "d \<in> ds" for d b
    using mapping_temp_unmapped [OF inv0 that] by (simp add: mapping_def)
  have pg: "?pg i = phys ?m1 (cr3 ?m1) i" if "is_present (?pg i)" for i
    using that unfolding cr(3) ph by (auto split: if_splits)
  note add = mm_inv_add_directory [OF inv1 new, of ?pg, OF pg]
  have nc: "new \<noteq> cr3 m" using new(3) cr(1) by auto
  have "mapping (set_page new ?pg ?m1) new b = (if 0x800000 \<le> b \<and> b < 0xC0000000 then None else mapping m (cr3 m) b)" for b
    using add(3) [of b] mp [OF cr(1), of b] user_entry_iff [of ?E b] cr(3)
    by (auto simp: mapping_def Let_def)
  moreover have "frame_free (set_page new ?pg ?m1) f \<longleftrightarrow> frame_free m f" for f
    by (simp add: temp_unmapped_def frame_free_def)
  moreover have "phys (set_page new ?pg ?m1) f = phys m f" if "f \<noteq> idt" "f \<noteq> new" for f
    using that by (simp add: temp_unmapped_def phys_poke fun_eq_iff)
  moreover have "next_page_directory_allocation (set_page new ?pg ?m1) = new + PAGE_SIZE" "cr3 (set_page new ?pg ?m1) = cr3 m"
    by (simp_all add: temp_unmapped_def)
  ultimately show ?thesis
    using clone_page_directory_eq [OF inv new(1,2) nc nx] add(1,2) mp
    by (intro exI [of _ "set_page new ?pg ?m1"] conjI) auto
qed

text \<open>
  C7: a cloned page directory shares everything below eight megabytes and from the kernel's base up, and nothing in
  between. The clone lives in the next reserved frame, sees every mapping of the current address space below eight
  megabytes, which takes in the program's pages from four megabytes on, and from the kernel's base up, and has no mapping in
  between; the other address spaces, the set of free frames and the invariant are kept, now for the clone as well.
\<close>

theorem clone_separates_user_space:
  assumes "mm_inv idt ds m" "low_frame new" "new \<noteq> idt" "new \<notin> ds" "next_page_directory_allocation m = new"
    "new + PAGE_SIZE < PAGE_DIRECTORY_ALLOCATION_END"
  shows "\<exists>m'. clone_page_directory m False = Inr (new, m') \<and> mm_inv idt (insert new ds) m'
    \<and> next_page_directory_allocation m' = new + PAGE_SIZE
    \<and> (\<forall>d\<in>ds. \<forall>b. mapping m' d b = mapping m d b)
    \<and> (\<forall>b. mapping m' new b = (if 0x800000 \<le> b \<and> b < 0xC0000000 then None else mapping m (cr3 m) b))
    \<and> (\<forall>f. frame_free m' f \<longleftrightarrow> frame_free m f)"
  using clone_result [OF assms] by blast

section \<open>Tasks\<close>

text \<open>The call \<^verbatim>\<open>MemoryManager::the().allocate\<close> that the rest of the kernel makes.\<close>

definition the_allocate :: "mm \<Rightarrow> u32 \<Rightarrow> bool \<Rightarrow> bool \<Rightarrow> mm result" where
  "the_allocate m a writable user_allowed = rbind (MM_the m 0) (\<lambda>m1. MM_allocate m1 a writable user_allowed)"

record ThreadControlBlock =
  tcb_id :: u32
  ESP :: u32
  ESP0 :: u32
  CR3 :: u32

record task_env =
  task_mm :: mm
  next_task_stack_virtual_addr :: u32
  current_thread_id :: u32

abbreviation NUM_PAGES_PER_STACK :: nat where "NUM_PAGES_PER_STACK \<equiv> 10"

definition stack_push :: "u32 \<Rightarrow> u32 \<times> mm \<Rightarrow> (u32 \<times> mm) result" where
  "stack_push val st = (case st of (esp, m) \<Rightarrow> rbind (vwrite (esp - 4) val m) (\<lambda>m'. Inr (esp - 4, m')))"

text \<open>\<open>terminate_current\<close> is the address of the scheduler's function to which a finished task returns.\<close>

definition create_kernel_task :: "u32 \<Rightarrow> u32 \<Rightarrow> task_env \<Rightarrow> (ThreadControlBlock \<times> task_env) result" where
  "create_kernel_task terminate_current func env =
     (let base = next_task_stack_virtual_addr env; tid = current_thread_id env + 1
      in rbind (rfold (\<lambda>i m. the_allocate m (base + word_of_nat (i * 4096)) True False)
                  [0..<NUM_PAGES_PER_STACK] (task_mm env)) (\<lambda>m1.
         let top = base + PAGE_SIZE * word_of_nat NUM_PAGES_PER_STACK; new_stack = top - 4; next_base = top + PAGE_SIZE
         in rbind (rfold stack_push [terminate_current, func, 0, 0, 0, 0] (new_stack, m1)) (\<lambda>(esp, m2).
            rbind (MM_the m2 0) (\<lambda>m3.
            rbind (clone_page_directory m3 False) (\<lambda>(dir, m4).
              Inr (\<lparr>tcb_id = tid, ESP = esp, ESP0 = esp, CR3 = dir\<rparr>,
                   \<lparr>task_mm = m4, next_task_stack_virtual_addr = next_base, current_thread_id = tid\<rparr>))))))"

lemma MM_the_same: "mm_inv idt ds m \<Longrightarrow> MM_the m 0 = Inr m"
  using mm_invD(1) [of idt ds m] low_mapD [of idt m]
  by (simp add: MM_the_def is_frame_aligned_iff)

interpretation client_space: page_space "\<lambda>m p. the_allocate m p w u" "page_view c" "\<lambda>f. (f, w, u)"
  "\<lambda>m. {f. frame_free m f}" "\<lambda>m. mm_inv idt ds m \<and> cr3 m = c"
  "\<lambda>p. is_frame_aligned p \<and> own_index (PageDirectory_get_index p)"
  for idt ds c w u
proof
  fix m p
  assume "mm_inv idt ds m \<and> cr3 m = c" "is_frame_aligned p \<and> own_index (PageDirectory_get_index p)"
    "page_view c m p = None" "2 \<le> card {f. frame_free m f}"
  from mm_space.alloc_fresh [OF this, of w u] this(1)
  show "\<exists>m' f. the_allocate m p w u = Inr m' \<and> (mm_inv idt ds m' \<and> cr3 m' = c)
      \<and> f \<in> {f. frame_free m f} \<and> f \<notin> {f. frame_free m' f} \<and> {f. frame_free m' f} \<subseteq> {f. frame_free m f}
      \<and> card {f. frame_free m f} \<le> card {f. frame_free m' f} + 2 \<and> page_view c m' = (page_view c m)(p \<mapsto> (f, w, u))"
    by (auto simp: the_allocate_def MM_the_same)
qed

lemma xlate_mapping:
  assumes "mapping m (cr3 m) a = Some (f, x)" "cr3 m AND 0xFFF = 0"
  shows "xlate m a = Inr (f, word_index a)"
  using assms by (auto simp: mapping_def xlate_def Let_def split: if_splits)

text \<open>Writing in a page that is no page table leaves every address space alone.\<close>

lemma mm_inv_poke_data:
  assumes inv: "mm_inv idt ds m" and f: "0x500000 \<le> f" "\<And>k. \<not> is_table ds m k f"
  shows "mm_inv idt ds (poke f w v m)" "\<And>d b. d \<in> ds \<Longrightarrow> mapping (poke f w v m) d b = mapping m d b"
proof -
  note D = mm_invD [OF inv]
  have fn: "f \<noteq> idt" "\<And>d. d \<in> ds \<Longrightarrow> f \<noteq> d" using low_not_high [OF _ f(1)] low_mapD(2) [OF D(1)] D(5) by blast+
  have ft: "f \<noteq> t" if "is_table ds m k t" for k t using f(2) that by blast
  show "mm_inv idt ds (poke f w v m)"
  proof (rule mm_inv_change [OF inv])
    show "low_map idt (poke f w v m)" using fn D(4) by (intro low_map_poke D(1)) auto
    show "phys (poke f w v m) t k = phys m t k \<or> P" if "is_table ds m i t" for i t k P
      using ft [OF that] by (auto simp: phys_poke)
    show "phys (poke f w v m) d k = phys m d k" if "d \<in> ds" for d k using fn(2) [OF that] by (auto simp: phys_poke)
  qed (use D(2-4) fn(1) in \<open>auto simp: phys_poke\<close>)
  show "mapping (poke f w v m) d b = mapping m d b" if d: "d \<in> ds" for d b
  proof -
    have "te_addr (phys m d (PageDirectory_get_index b)) \<noteq> f" if p: "is_present (phys m d (PageDirectory_get_index b))"
    proof (cases "own_index (PageDirectory_get_index b)")
      case True
      then show ?thesis using d p ft [of "PageDirectory_get_index b"] by (auto simp: is_table_def)
    next
      case False
      then show ?thesis using D(7) [OF d _ p] fn(1) by (auto simp: own_index_def)
    qed
    then show ?thesis using fn(2) [OF d] by (auto simp: mapping_def phys_poke Let_def)
  qed
qed

lemma stack_push_eq:
  assumes inv: "mm_inv idt ds m" and p: "p AND 0xFFF = 0" "mapping m (cr3 m) p = Some (f, x)" and i: "i AND 0x3FF = i"
  shows "stack_push v (p + 4 * (i + 1), m) = Inr (p + 4 * i, poke f i v m)"
proof -
  have sp: "te_addr (p + 4 * i) = te_addr p" unfolding same_page_iff using entry_ref [OF p(1) i] by simp
  then have "mapping m (cr3 m) (p + 4 * i) = Some (f, x)" using p(2) mapping_te_addr by metis
  then have "xlate m (p + 4 * i) = Inr (f, i)"
    using xlate_mapping [of m "p + 4 * i" f x] low_mapD(1) [OF mm_invD(1) [OF inv]] entry_ref(3) [OF p(1) i] by simp
  moreover have "p + 4 * (i + 1) - 4 = p + 4 * i" by (simp add: algebra_simps)
  ultimately show ?thesis by (simp add: stack_push_def vwrite_def)
qed


lemma stack_push_all:
  assumes "mm_inv idt ds m" "p AND 0xFFF = 0" "mapping m (cr3 m) p = Some (f, x)" "0x500000 \<le> f" "\<forall>k. \<not> is_table ds m k f"
    "k + length vs < 1024"
  shows "\<exists>m'. rfold stack_push vs (p + 4 * word_of_nat (k + length vs), m) = Inr (p + 4 * word_of_nat k, m')
    \<and> mm_inv idt ds m' \<and> (\<forall>d\<in>ds. \<forall>b. mapping m' d b = mapping m d b) \<and> cr3 m' = cr3 m
    \<and> next_page_directory_allocation m' = next_page_directory_allocation m \<and> frame_free m' = frame_free m
    \<and> (\<forall>j<length vs. phys m' f (word_of_nat (k + j)) = rev vs ! j)
    \<and> (\<forall>i. (\<forall>j<length vs. i \<noteq> word_of_nat (k + j)) \<longrightarrow> phys m' f i = phys m f i)"
  using assms
proof (induction vs arbitrary: m)
  case Nil
  then show ?case by auto
next
  case (Cons v vs)
  let ?i = "word_of_nat (k + length vs) :: u32" and ?m = "poke f (word_of_nat (k + length vs)) v m"
  have un: "unat ?i = k + length vs" using Cons.prems(6) by (intro unat_small_index) simp
  have i: "?i AND 0x3FF = ?i" unfolding index_less [symmetric] using un Cons.prems(6) by (simp add: word_less_nat_alt)
  have st: "stack_push v (p + 4 * word_of_nat (k + length (v # vs)), m) = Inr (p + 4 * ?i, ?m)"
    using stack_push_eq [OF Cons.prems(1-3) i, of v] by (simp add: algebra_simps)
  have nt: "\<not> is_table ds m l f" for l using Cons.prems(5) by simp
  note inv = mm_inv_poke_data(1) [OF Cons.prems(1,4) nt, of ?i v]
    and mp = mm_inv_poke_data(2) [OF Cons.prems(1,4) nt, of _ ?i v]
  have cr: "cr3 m \<in> ds" by (rule mm_invD(4) [OF Cons.prems(1)])
  have "f \<noteq> d" if "d \<in> ds" for d using low_not_high [OF mm_invD(5) [OF Cons.prems(1) that] Cons.prems(4)] .
  then have tab: "is_table ds ?m = is_table ds m" by (intro is_table_cong) (auto simp: phys_poke)
  obtain m' where m': "rfold stack_push vs (p + 4 * ?i, ?m) = Inr (p + 4 * word_of_nat k, m')" "mm_inv idt ds m'"
      "\<forall>d\<in>ds. \<forall>b. mapping m' d b = mapping m d b" "cr3 m' = cr3 m"
      "next_page_directory_allocation m' = next_page_directory_allocation m" "frame_free m' = frame_free m"
      "\<forall>j<length vs. phys m' f (word_of_nat (k + j)) = rev vs ! j"
      "\<forall>i. (\<forall>j<length vs. i \<noteq> word_of_nat (k + j)) \<longrightarrow> phys m' f i = phys ?m f i"
    using Cons.IH [of ?m] inv mp tab Cons.prems cr by (auto simp: fun_eq_iff)
  have ne: "?i \<noteq> word_of_nat (k + j)" if "j < length vs" for j
    using un unat_small_index [of "k + j"] that Cons.prems(6) by auto
  have "phys m' f (word_of_nat (k + j)) = rev (v # vs) ! j" if "j < length (v # vs)" for j
  proof (cases "j = length vs")
    case True
    then show ?thesis using m'(8) ne by (simp add: phys_poke nth_append)
  next
    case False
    then show ?thesis using m'(7) that by (simp add: nth_append)
  qed
  moreover have "phys m' f i = phys m f i" if "\<forall>j<length (v # vs). i \<noteq> word_of_nat (k + j)" for i
    using that m'(8) by (auto simp: phys_poke less_Suc_eq)
  ultimately show ?case using st m' by (intro exI [of _ m']) simp
qed

lemma the_allocate_next:
  "the_allocate m a w u = Inr m' \<Longrightarrow> next_page_directory_allocation m' = next_page_directory_allocation m"
  by (auto simp: the_allocate_def MM_the_def Let_def dest!: MM_allocate_next)

lemma mapped_not_table:
  assumes inv: "mm_inv idt ds m" and d: "d \<in> ds" "own_index (PageDirectory_get_index b)" "mapping m d b = Some (f, x)"
  shows "\<not> is_table ds m k f"
proof -
  let ?t = "te_addr (phys m d (PageDirectory_get_index b))"
  have "is_table ds m (PageDirectory_get_index b) ?t" "is_present (phys m ?t (PageTable_get_index b))"
    "te_addr (phys m ?t (PageTable_get_index b)) = f"
    using d by (auto simp: mapping_def is_table_def Let_def split: if_splits)
  then show ?thesis using mm_invD(13) [OF inv, of "PageDirectory_get_index b" ?t "PageTable_get_index b" k] by simp
qed

text \<open>Allocating the pages of a range one by one, the way the clients do.\<close>

lemma the_allocate_range:
  assumes "mm_inv idt ds m" "is_frame_aligned a" "unat a + n * 4096 < 4294967296"
    "\<forall>p\<in>set (pages_from a n). own_index (PageDirectory_get_index p) \<and> mapping m (cr3 m) p = None"
    "2 * n \<le> card {f. frame_free m f}"
  obtains m' fs where "rfold (\<lambda>i m. the_allocate m (a + word_of_nat (i * 4096)) w u) [0..<n] m = Inr m'"
    "mm_inv idt ds m'" "cr3 m' = cr3 m" "length fs = n" "distinct fs"
    "\<And>f. f \<in> set fs \<Longrightarrow> frame_free m f" "\<And>f. f \<in> set fs \<Longrightarrow> \<not> frame_free m' f"
    "\<And>i. i < n \<Longrightarrow> mapping m' (cr3 m) (a + word_of_nat (i * 4096)) = Some (fs ! i, w, u)"
    "\<And>b. te_addr b \<notin> set (pages_from a n) \<Longrightarrow> mapping m' (cr3 m) b = mapping m (cr3 m) b"
proof -
  let ?ps = "pages_from a n"
  have len: "length ?ps = n" by (simp add: pages_from_def)
  have "\<exists>m' fs. rfold (\<lambda>p m. the_allocate m p w u) ?ps m = Inr m' \<and> (mm_inv idt ds m' \<and> cr3 m' = cr3 m)
    \<and> length fs = length ?ps \<and> distinct fs \<and> set fs \<subseteq> {f. frame_free m f} - {f. frame_free m' f}
    \<and> {f. frame_free m' f} \<subseteq> {f. frame_free m f}
    \<and> page_view (cr3 m) m' = (page_view (cr3 m) m)(?ps [\<mapsto>] map (\<lambda>f. (f, w, u)) fs)"
    by (rule client_space.alloc_all)
      (use assms aligned_pages_from [OF assms(3,2)] len distinct_pages_from [OF assms(3)] in \<open>auto simp: page_view_def\<close>)
  then obtain m' fs where r: "rfold (\<lambda>p m. the_allocate m p w u) ?ps m = Inr m'" "mm_inv idt ds m'" "cr3 m' = cr3 m"
      "length fs = n" "distinct fs" "set fs \<subseteq> {f. frame_free m f} - {f. frame_free m' f}"
      "page_view (cr3 m) m' = (page_view (cr3 m) m)(?ps [\<mapsto>] map (\<lambda>f. (f, w, u)) fs)"
    using len by auto
  have "rfold (\<lambda>i m. the_allocate m (a + word_of_nat (i * 4096)) w u) [0..<n] m = Inr m'"
    using r(1) by (simp add: pages_from_def rfold_map)
  then show thesis
    using r view_range [OF assms(2,3) r(7,4)] by (intro that [of m' fs]) auto
qed

text \<open>
  A new kernel task gets a stack and an address space of its own. Ten pages of kernel
  memory are mapped to ten different frames that were free, the page above them is skipped,
  and a page directory is cloned after that, so that the new address space sees the stack; the
  six words on top of it are the registers that the switch pops, the task's function and the
  function that ends it, and the saved stack pointer points to them.
\<close>

theorem new_task_has_stack:
  assumes "mm_inv idt ds (task_mm env)" "is_frame_aligned base" "next_task_stack_virtual_addr env = base"
    "0xC0000000 \<le> base" "unat base + 10 * 4096 < 4294967296"
    "\<forall>p\<in>set (pages_from base 10). own_index (PageDirectory_get_index p) \<and> mapping (task_mm env) (cr3 (task_mm env)) p = None"
    "20 \<le> card {f. frame_free (task_mm env) f}"
    "low_frame new" "new \<noteq> idt" "new \<notin> ds" "next_page_directory_allocation (task_mm env) = new"
    "new + PAGE_SIZE < PAGE_DIRECTORY_ALLOCATION_END"
  shows "\<exists>tcb env' fs. create_kernel_task terminate_current func env = Inr (tcb, env')
    \<and> mm_inv idt (insert new ds) (task_mm env') \<and> CR3 tcb = new \<and> ESP tcb = base + 0x9FE4 \<and> ESP0 tcb = ESP tcb
    \<and> next_task_stack_virtual_addr env' = base + 11 * PAGE_SIZE
    \<and> length fs = 10 \<and> distinct fs \<and> (\<forall>f\<in>set fs. frame_free (task_mm env) f)
    \<and> (\<forall>i<10. mapping (task_mm env') new (base + word_of_nat (i * 4096)) = Some (fs ! i, True, False))
    \<and> map (\<lambda>j. phys (task_mm env') (fs ! 9) (word_of_nat (1017 + j))) [0..<6] = [0, 0, 0, 0, func, terminate_current]"
proof -
  let ?m = "task_mm env" and ?P = "base + 0x9000"
  obtain m1 fs where m1: "rfold (\<lambda>i m. the_allocate m (base + word_of_nat (i * 4096)) True False) [0..<10] ?m = Inr m1"
    "mm_inv idt ds m1" "cr3 m1 = cr3 ?m" and fs: "length fs = 10" "distinct fs"
    "\<And>f. f \<in> set fs \<Longrightarrow> frame_free ?m f" "\<And>f. f \<in> set fs \<Longrightarrow> \<not> frame_free m1 f"
    and mp: "\<And>i. i < 10 \<Longrightarrow> mapping m1 (cr3 ?m) (base + word_of_nat (i * 4096)) = Some (fs ! i, True, False)"
    and "\<And>b. te_addr b \<notin> set (pages_from base 10) \<Longrightarrow> mapping m1 (cr3 ?m) b = mapping ?m (cr3 ?m) b"
    by (rule the_allocate_range [OF assms(1,2,5,6), of True False]) (use assms(7) in simp, rule that)
  have pg: "base + word_of_nat (i * 4096) \<in> set (pages_from base 10)" if "i < 10" for i using that by (rule pages_from_nth)
  have P: "?P AND 0xFFF = 0" "own_index (PageDirectory_get_index ?P)" "mapping m1 (cr3 m1) ?P = Some (fs ! 9, True, False)"
    using aligned_pages_from [OF assms(5,2) pg [of 9]] assms(6) pg [of 9] mp [of 9] m1(3) by (auto simp: is_frame_aligned_iff)
  have f9: "0x500000 \<le> fs ! 9" "\<forall>k. \<not> is_table ds m1 k (fs ! 9)"
    using mm_invD(8) [OF assms(1) fs(3) [of "fs ! 9"]] fs(1) mapped_not_table [OF m1(2) mm_invD(4) [OF m1(2)] P(2,3)] by auto
  define vs where "vs = [terminate_current, func, 0, 0, 0, 0]"
  have vs: "length vs = 6" "rev vs = [0, 0, 0, 0, func, terminate_current]" by (simp_all add: vs_def)
  have ref: "?P + 4 * word_of_nat (1017 + 6) = base + 0x9FFC" "?P + 4 * word_of_nat 1017 = base + 0x9FE4" by simp_all
  obtain m2 where m2: "rfold stack_push vs (base + 0x9FFC, m1) = Inr (base + 0x9FE4, m2)"
      "mm_inv idt ds m2" "\<forall>d\<in>ds. \<forall>b. mapping m2 d b = mapping m1 d b" "cr3 m2 = cr3 m1"
      "next_page_directory_allocation m2 = next_page_directory_allocation m1"
      "\<forall>j<6. phys m2 (fs ! 9) (word_of_nat (1017 + j)) = [0, 0, 0, 0, func, terminate_current] ! j"
    using stack_push_all [OF m1(2) P(1,3) f9, of 1017 vs, unfolded vs ref] by auto
  have "next_page_directory_allocation m1 = new"
    using rfold_keeps [where h = next_page_directory_allocation, OF the_allocate_next m1(1)] assms(11) by simp
  then obtain m3 where m3: "clone_page_directory m2 False = Inr (new, m3)" "mm_inv idt (insert new ds) m3"
      "\<forall>b. mapping m3 new b = (if 0x800000 \<le> b \<and> b < 0xC0000000 then None else mapping m2 (cr3 m2) b)"
      "\<forall>f. f \<noteq> idt \<longrightarrow> f \<noteq> new \<longrightarrow> phys m3 f = phys m2 f"
    using clone_result [OF m2(2) assms(8-10)] m2(5) assms(12) by auto
  let ?tcb = "\<lparr>tcb_id = current_thread_id env + 1, ESP = base + 0x9FE4, ESP0 = base + 0x9FE4, CR3 = new\<rparr>"
  let ?env = "\<lparr>task_mm = m3, next_task_stack_virtual_addr = base + 11 * PAGE_SIZE, current_thread_id = current_thread_id env + 1\<rparr>"
  have cr: "create_kernel_task terminate_current func env = Inr (?tcb, ?env)"
    using m1(1) m2(1) m3(1) MM_the_same [OF m2(2)] assms(3)
    unfolding vs_def by (simp add: create_kernel_task_def Let_def algebra_simps del: of_nat_mult rfold.simps)
  have "mapping m3 new (base + word_of_nat (i * 4096)) = Some (fs ! i, True, False)" if "i < 10" for i
  proof -
    have "unat (base + word_of_nat (i * 4096)) = unat base + i * 4096" using that assms(5) by (intro unat_add_small) linarith
    then have "\<not> base + word_of_nat (i * 4096) < 0xC0000000"
      using assms(4) by (simp add: word_less_nat_alt word_le_nat_alt del: of_nat_mult)
    then show ?thesis using m3(3) m2(3,4) mp [OF that] m1(3) mm_invD(4) [OF assms(1)] by (simp del: of_nat_mult)
  qed
  moreover have "phys m3 (fs ! 9) = phys m2 (fs ! 9)"
    using m3(4) f9(1) low_not_high [OF assms(8)] low_not_high [OF low_mapD(2) [OF mm_invD(1) [OF assms(1)]]] by blast
  then have "map (\<lambda>j. phys m3 (fs ! 9) (word_of_nat (1017 + j))) [0..<6] = [0, 0, 0, 0, func, terminate_current]"
    using m2(6) by (intro nth_equalityI) (simp_all del: upt_Suc)
  ultimately show ?thesis
    using cr m3(2) fs by (intro exI [of _ ?tcb] exI [of _ ?env] exI [of _ fs] conjI)
      (simp_all del: upt_Suc of_nat_mult of_nat_add)
qed

theorem clone_separates_user_space_witness:
  "\<exists>m m1 m2 x. MemoryManager_init (MemoryManager_new boot_machine) boot_memory = Inr m
    \<and> MM_allocate m 0x40000000 True True = Inr m1 \<and> mapping m1 0x101000 0x40000000 = Some x
    \<and> clone_page_directory m1 False = Inr (0x300000, m2)
    \<and> mapping m2 0x101000 0x40000000 = Some x \<and> mapping m2 0x300000 0x40000000 = None"
proof -
  obtain m where m: "MemoryManager_init (MemoryManager_new boot_machine) boot_memory = Inr m"
    "mm_inv 0x102000 {0x101000} m" "cr3 m = 0x101000"
    "\<And>b. own_index (PageDirectory_get_index b) \<Longrightarrow> mapping m 0x101000 b = None"
    "frame_free m 0x500000" "frame_free m 0x501000" "20 \<le> card {f. frame_free m f}" "next_page_directory_allocation m = 0x300000"
    by (rule boot_started) (rule that)
  obtain m1 f where m1: "MM_allocate m 0x40000000 True True = Inr m1" "mm_inv 0x102000 {0x101000} m1" "cr3 m1 = 0x101000"
      "page_view 0x101000 m1 = (page_view 0x101000 m)(0x40000000 \<mapsto> (f, True, True))"
    using mm_space.alloc_fresh [of "0x102000" "{0x101000}" m "0x101000" "0x40000000" True True] m index_examples(1)
    by (auto simp: page_view_def is_frame_aligned_def)
  have v: "mapping m1 0x101000 0x40000000 = Some (f, True, True)"
    using fun_cong [OF m1(4), of "0x40000000"] by (simp add: page_view_def is_frame_aligned_def)
  have "next_page_directory_allocation m1 = 0x300000" using MM_allocate_next [OF m1(1)] m(8) by simp
  from clone_separates_user_space [OF m1(2) _ _ _ this] obtain m2 where
    "clone_page_directory m1 False = Inr (0x300000, m2)" "mapping m2 0x101000 0x40000000 = mapping m1 0x101000 0x40000000"
      "mapping m2 0x300000 0x40000000 = None"
    by (auto simp: low_frame_def)
  then show ?thesis using m(1) m1(1) v by auto
qed

theorem new_task_has_stack_witness:
  "\<exists>m tcb env' fs. MemoryManager_init (MemoryManager_new boot_machine) boot_memory = Inr m
    \<and> create_kernel_task 0xC0101000 0xC0102000
        \<lparr>task_mm = m, next_task_stack_virtual_addr = 0xD0000000, current_thread_id = 1\<rparr> = Inr (tcb, env')
    \<and> CR3 tcb = 0x300000 \<and> ESP tcb = 0xD0009FE4 \<and> length fs = 10
    \<and> mapping (task_mm env') 0x300000 0xD0009000 = Some (fs ! 9, True, False)
    \<and> phys (task_mm env') (fs ! 9) 1021 = 0xC0102000"
proof -
  obtain m where m: "MemoryManager_init (MemoryManager_new boot_machine) boot_memory = Inr m"
    "mm_inv 0x102000 {0x101000} m" "cr3 m = 0x101000"
    "\<And>b. own_index (PageDirectory_get_index b) \<Longrightarrow> mapping m 0x101000 b = None"
    "frame_free m 0x500000" "frame_free m 0x501000" "20 \<le> card {f. frame_free m f}" "next_page_directory_allocation m = 0x300000"
    by (rule boot_started) (rule that)
  let ?env = "\<lparr>task_mm = m, next_task_stack_virtual_addr = 0xD0000000, current_thread_id = 1\<rparr>"
  have "own_index (PageDirectory_get_index p)" if "p \<in> set (pages_from 0xD0000000 10)" for p
    using that by (auto simp: pages_from_def upt_conv_Cons own_index_def PageDirectory_get_index_def)
  then have un: "\<forall>p\<in>set (pages_from 0xD0000000 10). own_index (PageDirectory_get_index p)
      \<and> mapping (task_mm ?env) (cr3 (task_mm ?env)) p = None" using m(3,4) by simp
  obtain tcb env' fs where r: "create_kernel_task 0xC0101000 0xC0102000 ?env = Inr (tcb, env')"
      "CR3 tcb = 0x300000" "ESP tcb = 0xD0000000 + 0x9FE4" "length fs = 10"
      "\<forall>i<10. mapping (task_mm env') 0x300000 (0xD0000000 + word_of_nat (i * 4096)) = Some (fs ! i, True, False)"
      "map (\<lambda>j. phys (task_mm env') (fs ! 9) (word_of_nat (1017 + j))) [0..<6] = [0, 0, 0, 0, 0xC0102000, 0xC0101000]"
    using new_task_has_stack [of "0x102000" "{0x101000}" ?env "0xD0000000" "0x300000" "0xC0101000" "0xC0102000"] m un
    by (auto simp: low_frame_def is_frame_aligned_def)
  have "phys (task_mm env') (fs ! 9) (word_of_nat (1017 + 4)) = 0xC0102000"
    using arg_cong [OF r(6), of "\<lambda>xs. xs ! 4"] by (simp del: upt_Suc)
  then show ?thesis using m(1) r(1-4) spec [OF r(5), of 9] by (intro exI [of _ m] exI [of _ tcb] exI [of _ env'] exI [of _ fs]) simp
qed

section \<open>Sharing pages\<close>

lemma mm_inv_switch:
  assumes inv: "mm_inv idt ds m" and d: "d \<in> ds" "is_present (phys m d 0)"
  shows "mm_inv idt ds (m\<lparr>cr3 := d, m_page_directory := d\<rparr>)"
proof -
  note D = mm_invD [OF inv]
  have "te_addr (phys m d 0) = idt" using D(7) [OF d(1) _ d(2)] by simp
  then have "low_map idt (m\<lparr>cr3 := d, m_page_directory := d\<rparr>)"
    using D(1) D(5) [OF d(1)] D(6) [OF d(1)] d(2) by (auto simp: low_map_def)
  then show ?thesis using D(2,3) d(1) by (intro mm_inv_change [OF inv]) (auto simp: frame_free_def)
qed

lemma low_mapping:
  assumes "low_map idt m" "low_frame d"
  shows "\<exists>w u. mapping m (cr3 m) d = Some (d, w, u)"
proof -
  have "PageDirectory_get_index d = 0"
    using assms(2) by (intro low_index) (auto simp: low_frame_def word_less_nat_alt)
  then show ?thesis using assms by (auto simp: mapping_def low_map_def Let_def)
qed

text \<open>
  Sharing memory gives the same frames. When the pages of a range are mapped for user code
  in another address space and the target range is unmapped in the current one,
  \<^verbatim>\<open>duplicate\<close> maps every target page to the frame behind the corresponding page of the
  other space, writable and for user code, and changes nothing else in the current space.
\<close>

theorem duplicate_shares_frames:
  assumes "mm_inv idt ds m" "other \<in> ds" "other \<noteq> cr3 m" "is_frame_aligned src" "is_frame_aligned dst"
    "unat src + n * 4096 < 4294967296" "unat dst + n * 4096 < 4294967296"
    "\<forall>i<n. own_index (PageDirectory_get_index (src + word_of_nat (i * 4096)))
        \<and> (\<exists>w. mapping m other (src + word_of_nat (i * 4096)) = Some (fr i, w, True))"
    "\<forall>p\<in>set (pages_from dst n). own_index (PageDirectory_get_index p) \<and> mapping m (cr3 m) p = None"
    "n \<le> card {f. frame_free m f}"
  shows "\<exists>m'. duplicate m other src (word_of_nat (n * 4096)) dst = Inr (E_OK, m') \<and> mm_inv idt ds m'
    \<and> (\<forall>i<n. mapping m' (cr3 m) (dst + word_of_nat (i * 4096)) = Some (fr i, True, True))
    \<and> (\<forall>b. te_addr b \<notin> set (pages_from dst n) \<longrightarrow> mapping m' (cr3 m) b = mapping m (cr3 m) b)"
proof -
  obtain m' where m': "duplicate_loop other src src (src + word_of_nat (n * 4096)) dst m = Some (Inr m')" "mm_inv idt ds m'"
    "\<forall>i<n. mapping m' (cr3 m) (dst + word_of_nat (i * 4096)) = Some (fr i, True, True)"
    "\<forall>b. te_addr b \<notin> set (pages_from dst n) \<longrightarrow> mapping m' (cr3 m) b = mapping m (cr3 m) b"
    using duplicate_loop_maps [of idt ds m other dst src src n fr] assms by (auto simp del: of_nat_mult)
  have "unat (word_of_nat (n * 4096) :: u32) = n * 4096" using unat_add_small [of 0 "n * 4096"] assms(6) by simp
  then have "word_of_nat (n * 4096) mod PAGE_SIZE = (0 :: u32)" by (simp add: word_unat_eq_iff unat_mod del: of_nat_mult)
  moreover have "is_frame_aligned other" using mm_invD(5) [OF assms(1,2)] by (simp add: is_frame_aligned_iff)
  ultimately have "duplicate m other src (word_of_nat (n * 4096)) dst = Inr (E_OK, m')"
    using m'(1) assms(4) by (simp add: duplicate_def is_frame_aligned_def del: of_nat_mult)
  then show ?thesis using m' by blast
qed

theorem duplicate_shares_frames_witness:
  "\<exists>m m1 m2 m3 f. MemoryManager_init (MemoryManager_new boot_machine) boot_memory = Inr m
    \<and> MM_allocate m 0x40000000 True True = Inr m1 \<and> mapping m1 0x101000 0x40000000 = Some (f, True, True)
    \<and> clone_page_directory m1 False = Inr (0x300000, m2)
    \<and> duplicate (m2\<lparr>cr3 := 0x300000, m_page_directory := 0x300000\<rparr>) 0x101000 0x40000000 0x1000 0x40001000 = Inr (E_OK, m3)
    \<and> mapping m3 0x300000 0x40001000 = Some (f, True, True)"
proof -
  obtain m where m: "MemoryManager_init (MemoryManager_new boot_machine) boot_memory = Inr m"
    "mm_inv 0x102000 {0x101000} m" "cr3 m = 0x101000"
    "\<And>b. own_index (PageDirectory_get_index b) \<Longrightarrow> mapping m 0x101000 b = None"
    "frame_free m 0x500000" "frame_free m 0x501000" "20 \<le> card {f. frame_free m f}" "next_page_directory_allocation m = 0x300000"
    by (rule boot_started) (rule that)
  obtain m1 f where m1: "MM_allocate m 0x40000000 True True = Inr m1" "mm_inv 0x102000 {0x101000} m1" "cr3 m1 = 0x101000"
      "page_view 0x101000 m1 = (page_view 0x101000 m)(0x40000000 \<mapsto> (f, True, True))"
      "card {f. frame_free m f} \<le> card {f. frame_free m1 f} + 2"
    using mm_space.alloc_fresh [of "0x102000" "{0x101000}" m "0x101000" "0x40000000" True True] m index_examples(1)
    by (auto simp: page_view_def is_frame_aligned_def)
  have v: "mapping m1 0x101000 0x40000000 = Some (f, True, True)"
    using fun_cong [OF m1(4), of "0x40000000"] by (simp add: page_view_def is_frame_aligned_def)
  have "next_page_directory_allocation m1 = 0x300000" using MM_allocate_next [OF m1(1)] m(8) by simp
  from clone_result [OF m1(2) _ _ _ this] obtain m2 where
    m2: "clone_page_directory m1 False = Inr (0x300000, m2)" "mm_inv 0x102000 {0x300000, 0x101000} m2"
      "mapping m2 0x101000 0x40000000 = mapping m1 0x101000 0x40000000" "mapping m2 0x300000 0x40001000 = None"
      "mapping m2 0x300000 0x101000 = mapping m1 (cr3 m1) 0x101000" "frame_free m2 = frame_free m1"
    by (auto simp: low_frame_def fun_eq_iff)
  let ?m2 = "m2\<lparr>cr3 := 0x300000, m_page_directory := 0x300000\<rparr>"
  have "is_present (phys m2 0x300000 0)"
    using m2(5) low_mapping [OF mm_invD(1) [OF m1(2)], of "0x101000"]
    by (auto simp: low_frame_def mapping_def PageDirectory_get_index_def Let_def split: if_splits)
  then have inv: "mm_inv 0x102000 {0x300000, 0x101000} ?m2" by (intro mm_inv_switch [OF m2(2)]) simp_all
  have mp: "mapping ?m2 = mapping m2" "frame_free ?m2 = frame_free m2" by (simp_all add: mapping_def frame_free_def fun_eq_iff)
  have "0 < card {f. frame_free m1 f}" using m1(5) m(7) by linarith
  then have "\<exists>m3. duplicate ?m2 0x101000 0x40000000 (word_of_nat (1 * 4096)) 0x40001000 = Inr (E_OK, m3)
      \<and> mm_inv 0x102000 {0x300000, 0x101000} m3
      \<and> (\<forall>i<1. mapping m3 (cr3 ?m2) (0x40001000 + word_of_nat (i * 4096)) = Some (f, True, True))
      \<and> (\<forall>b. te_addr b \<notin> set (pages_from 0x40001000 1) \<longrightarrow> mapping m3 (cr3 ?m2) b = mapping ?m2 (cr3 ?m2) b)"
    using m2(3,4,6) v index_examples
    by (intro duplicate_shares_frames [OF inv]) (auto simp: mp is_frame_aligned_def pages_from_def)
  then show ?thesis using m(1) m1(1) v m2(1) by auto
qed

end
