(* ===== verification/Shared_Memory.thy ===== *)
theory Shared_Memory
  imports Processes Address_Spaces
begin

text \<open>
  Shared memory: \<^verbatim>\<open>Process::syscall_create_shared_memory\<close> and
  \<^verbatim>\<open>Process::syscall_open_shared_memory\<close> of \<^verbatim>\<open>kernel/process.cpp\<close>, where the processes, the
  registry of \<^verbatim>\<open>kernel/MM/SharedMemoryManager.cpp\<close> and the memory manager meet. \<open>task_of\<close> gives
  the control block of a process, whose \<open>CR3\<close> is its page directory; the directory in use when
  a system call runs is the one of the process that makes it.
\<close>

section \<open>The system calls\<close>

record shm_state =
  shm_sched :: sched
  shm_entries :: "shm_entry list"
  shm_mm :: mm

text \<open>The return value and what is stored through \<^verbatim>\<open>addr\<close>.\<close>

definition syscall_create_shared_memory ::
  "nat \<Rightarrow> nat \<Rightarrow> u32 \<Rightarrow> shm_state \<Rightarrow> ((int \<times> u32 option) \<times> shm_state) result" where
  "syscall_create_shared_memory p guid sz sm =
     rbind (get_proc (shm_sched sm) p) (\<lambda>x.
       if sz mod PAGE_SIZE \<noteq> 0 \<or> p_next_shm x + sz \<ge> SHARED_MEMORY_END then Inr ((E_INVALID_SIZE, None), sm)
       else
         rbind (MM_the (shm_mm sm) 0) (\<lambda>m.
         rbind (allocate_range m (p_next_shm x) sz True True) (\<lambda>(rc, m1).
           if rc \<noteq> 0 then Inr ((rc, None), sm\<lparr>shm_mm := m1\<rparr>)
           else case register_shm (shm_entries sm) guid p (p_next_shm x) sz of
             (False, es) \<Rightarrow> Inr ((E_TAKEN, None), sm\<lparr>shm_mm := m1\<rparr>)
           | (True, es) \<Rightarrow>
               Inr ((E_OK, Some (p_next_shm x)),
                    sm\<lparr>shm_mm := m1, shm_entries := es,
                       shm_sched := upd_proc p (p_next_shm_update (\<lambda>a. a + sz)) (shm_sched sm)\<rparr>))))"


section \<open>Creating\<close>

text \<open>A page that is mapped cannot be allocated again.\<close>

lemma MM_allocate_mapped:
  assumes inv: "mm_inv idt ds m" and own: "own_index (PageDirectory_get_index a)" and mp: "mapping m (cr3 m) a = Some x"
  shows "MM_allocate m a w u = Inl AssertionFailed"
proof (cases m rule: get_free_frame_cases)
  case none
  then show ?thesis by (simp add: MM_allocate_def)
next
  case (some p bm)
  let ?m = "m\<lparr>m_frames_avail_bitmap := bm\<rparr>" and ?i = "PageDirectory_get_index a"
  note taken = free_frame_taken [OF inv some(2,4)]
  note D = mm_invD [OF taken(1)]
  let ?t = "te_addr (phys m (cr3 m) ?i)"
  have pr: "is_present (phys ?m (cr3 ?m) ?i)" and page: "is_present (phys m ?t (PageTable_get_index a))"
    using mp by (auto simp: mapping_def Let_def split: if_splits)
  have tab: "is_table ds ?m ?i ?t" using pr own D(4) by (auto simp: is_table_def)
  have tn: "?t \<noteq> idt" "?t \<noteq> cr3 ?m" "?t AND 0xFFF = 0" using table_neq [OF taken(1) tab] D(4) by auto
  note io = entry_through_tempmap [OF D(1) tn, of "PageTable_get_index a"]
  have "ensure_pte ?m a True True = Inr (TEMPMAP_ADDR + 4 * PageTable_get_index a, temp_mapped idt ?t ?m)"
    using ensure_pte_present [OF D(1,2) pr, of True] by simp
  then show ?thesis using some(1) io page by (simp add: MM_allocate_def map_page_def)
qed

text \<open>The addresses of shared memory have page tables of their own.\<close>

lemma shm_index:
  assumes "SHARED_MEMORY_START \<le> a" "a < SHARED_MEMORY_END"
  shows "own_index (PageDirectory_get_index a)"
proof -
  have i: "unat (PageDirectory_get_index a) = unat a div 4194304" by (rule unat_PageDirectory_get_index)
  have "256 \<le> unat a div 4194304" "unat a div 4194304 < 320"
    using assms by (simp_all add: word_less_nat_alt word_le_nat_alt less_mult_imp_div_less div_le_mono
        less_eq_div_iff_mult_less_eq)
  then have "unat (PageDirectory_get_index a) \<noteq> 0" "unat (PageDirectory_get_index a) \<noteq> 768"
    unfolding i by simp_all
  then have "PageDirectory_get_index a \<noteq> 0" "PageDirectory_get_index a \<noteq> 768" by auto
  then show ?thesis by (simp add: own_index_def)
qed

definition shm_range :: "u32 \<Rightarrow> nat \<Rightarrow> bool" where
  "shm_range a n \<longleftrightarrow> is_frame_aligned a \<and> SHARED_MEMORY_START \<le> a \<and> unat a + n * 4096 < 0x50000000"

lemma shm_range_pages:
  assumes "shm_range a n" "p \<in> set (pages_from a n)"
  shows "own_index (PageDirectory_get_index p)"
proof -
  obtain i where i: "i < n" "p = a + word_of_nat (i * 4096)" using assms(2) by (auto simp: pages_from_def)
  then have "unat p = unat a + i * 4096"
    using assms(1) unat_add_small [of a "i * 4096"] by (simp add: shm_range_def del: of_nat_mult)
  then show ?thesis
    using assms(1) i(1) by (intro shm_index) (auto simp: shm_range_def word_le_nat_alt word_less_nat_alt)
qed

lemma shm_size:
  assumes "shm_range a n"
  shows "unat a + n * 4096 < 4294967296" "word_of_nat (n * 4096) mod PAGE_SIZE = (0 :: u32)"
    "a + word_of_nat (n * 4096) < SHARED_MEMORY_END" "a + word_of_nat (n * 4096) = a + word_of_nat n * 4096"
proof -
  show b: "unat a + n * 4096 < 4294967296" using assms by (simp add: shm_range_def)
  have "unat (word_of_nat (n * 4096) :: u32) = n * 4096" using unat_add_small [of 0 "n * 4096"] b by simp
  then show "word_of_nat (n * 4096) mod PAGE_SIZE = (0 :: u32)" by (simp add: word_unat_eq_iff unat_mod del: of_nat_mult)
  show "a + word_of_nat (n * 4096) < SHARED_MEMORY_END"
    using assms unat_add_small [OF b] by (simp add: shm_range_def word_less_nat_alt del: of_nat_mult)
  show "a + word_of_nat (n * 4096) = a + word_of_nat n * 4096" by simp
qed

text \<open>What a call that is not refused for the size does.\<close>

lemma create_pages:
  assumes inv: "mm_inv idt ds m" and rng: "shm_range a n"
    and un: "\<forall>q\<in>set (pages_from a n). mapping m (cr3 m) q = None" and fr: "2 * n \<le> card {f. frame_free m f}"
  obtains m' fs where "allocate_range m a (word_of_nat (n * 4096)) True True = Inr (E_OK, m')" "mm_inv idt ds m'"
    "cr3 m' = cr3 m" "length fs = n" "distinct fs" "\<forall>f\<in>set fs. frame_free m f"
    "\<forall>i<n. mapping m' (cr3 m) (a + word_of_nat (i * 4096)) = Some (fs ! i, True, True)"
  using allocate_range_maps_all [OF inv _ shm_size(1) [OF rng] _ fr, of True True] rng un shm_range_pages [OF rng]
  by (auto simp: shm_range_def)

definition may_create :: "u32 \<Rightarrow> u32 set \<Rightarrow> nat \<Rightarrow> nat \<Rightarrow> shm_state \<Rightarrow> bool" where
  "may_create idt ds p n sm \<longleftrightarrow> mm_inv idt ds (shm_mm sm) \<and> 2 * n \<le> card {f. frame_free (shm_mm sm) f}
     \<and> (\<exists>x. procs (shm_sched sm) p = Some x \<and> shm_range (p_next_shm x) n
          \<and> (\<forall>q\<in>set (pages_from (p_next_shm x) n). mapping (shm_mm sm) (cr3 (shm_mm sm)) q = None))"

lemma create_shared_memory_ok:
  assumes "may_create idt ds p n sm"
  obtains x m' fs where "procs (shm_sched sm) p = Some x" "shm_range (p_next_shm x) n" "mm_inv idt ds m'" "cr3 m' = cr3 (shm_mm sm)"
    "syscall_create_shared_memory p guid (word_of_nat (n * 4096)) sm =
       (if shm_get (shm_entries sm) guid = None
        then Inr ((E_OK, Some (p_next_shm x)),
          sm\<lparr>shm_mm := m',
             shm_entries := shm_entries sm @ [\<lparr>shm_guid = guid, shm_pid = p, shm_virt_addr = p_next_shm x,
                                               shm_size = word_of_nat (n * 4096)\<rparr>],
             shm_sched := upd_proc p (p_next_shm_update (\<lambda>a. a + word_of_nat (n * 4096))) (shm_sched sm)\<rparr>)
        else Inr ((E_TAKEN, None), sm\<lparr>shm_mm := m'\<rparr>))"
    "length fs = n" "distinct fs" "\<forall>f\<in>set fs. frame_free (shm_mm sm) f"
    "\<forall>i<n. mapping m' (cr3 (shm_mm sm)) (p_next_shm x + word_of_nat (i * 4096)) = Some (fs ! i, True, True)"
proof -
  obtain x where x: "procs (shm_sched sm) p = Some x" "shm_range (p_next_shm x) n"
    "\<forall>q\<in>set (pages_from (p_next_shm x) n). mapping (shm_mm sm) (cr3 (shm_mm sm)) q = None"
    and inv: "mm_inv idt ds (shm_mm sm)" and fr: "2 * n \<le> card {f. frame_free (shm_mm sm) f}"
    using assms by (auto simp: may_create_def)
  obtain m' fs where m': "allocate_range (shm_mm sm) (p_next_shm x) (word_of_nat (n * 4096)) True True = Inr (E_OK, m')"
    "mm_inv idt ds m'" "cr3 m' = cr3 (shm_mm sm)" "length fs = n" "distinct fs" "\<forall>f\<in>set fs. frame_free (shm_mm sm) f"
    "\<forall>i<n. mapping m' (cr3 (shm_mm sm)) (p_next_shm x + word_of_nat (i * 4096)) = Some (fs ! i, True, True)"
    by (rule create_pages [OF inv x(2,3) fr]) (rule that)
  then show thesis
    using x shm_size(2,3) [OF x(2)] MM_the_same [OF inv]
    by (intro that [of x m' fs])
      (auto simp: syscall_create_shared_memory_def get_proc_def register_shm_def linorder_not_le simp del: of_nat_mult)
qed

section \<open>Properties\<close>


text \<open>
  A creator whose name is taken cannot create shared memory any more. The refused call
  leaves the pages it has mapped and does not move the next address, so the next call of that
  process maps the same addresses again, and the assertion of the allocation stops the kernel.
\<close>

theorem taken_name_stops_creator:
  assumes "may_create idt ds p n sm" "shm_get (shm_entries sm) guid \<noteq> None" "0 < n"
    "syscall_create_shared_memory p guid (word_of_nat (n * 4096)) sm = Inr ((rc, a), sm1)"
    "procs (shm_sched sm) p = Some x" "shm_range (p_next_shm x) k" "0 < k"
  shows "rc = E_TAKEN \<and> a = None
    \<and> syscall_create_shared_memory p guid' (word_of_nat (k * 4096)) sm1 = Inl AssertionFailed"
proof -
  obtain x' m' fs where x: "procs (shm_sched sm) p = Some x'" "shm_range (p_next_shm x') n" "mm_inv idt ds m'" "cr3 m' = cr3 (shm_mm sm)"
    and cr: "syscall_create_shared_memory p guid (word_of_nat (n * 4096)) sm =
       (if shm_get (shm_entries sm) guid = None
        then Inr ((E_OK, Some (p_next_shm x')),
          sm\<lparr>shm_mm := m',
             shm_entries := shm_entries sm @ [\<lparr>shm_guid = guid, shm_pid = p, shm_virt_addr = p_next_shm x',
                                               shm_size = word_of_nat (n * 4096)\<rparr>],
             shm_sched := upd_proc p (p_next_shm_update (\<lambda>a. a + word_of_nat (n * 4096))) (shm_sched sm)\<rparr>)
        else Inr ((E_TAKEN, None), sm\<lparr>shm_mm := m'\<rparr>))"
    and fs: "length fs = n" "distinct fs" "\<forall>f\<in>set fs. frame_free (shm_mm sm) f"
    and mp: "\<forall>i<n. mapping m' (cr3 (shm_mm sm)) (p_next_shm x' + word_of_nat (i * 4096)) = Some (fs ! i, True, True)"
    by (rule create_shared_memory_ok [OF assms(1)]) (rule that)
  have sm1: "rc = E_TAKEN" "a = None" "sm1 = sm\<lparr>shm_mm := m'\<rparr>" using cr assms(2,4) by auto
  have "mapping m' (cr3 m') (p_next_shm x) = Some (fs ! 0, True, True)"
    using mp assms(3,5) x by auto
  moreover have "own_index (PageDirectory_get_index (p_next_shm x))"
    using shm_range_pages [OF assms(6)] pages_from_nth [OF assms(7), of "p_next_shm x"] by simp
  ultimately have "MM_allocate m' (p_next_shm x) True True = Inl AssertionFailed"
    by (intro MM_allocate_mapped [OF x(3)])
  then have "rfold (\<lambda>p m. MM_allocate m p True True) (pages_from (p_next_shm x) k) m' = Inl AssertionFailed"
    using assms(7) by (cases k) (simp_all add: pages_from_Suc)
  then have "allocate_range m' (p_next_shm x) (word_of_nat (k * 4096)) True True = Inl AssertionFailed"
    using shm_size(2) [OF assms(6)]
    by (simp add: allocate_range_def allocate_range_loop_eq [OF shm_size(1) [OF assms(6)]] del: of_nat_mult)
  then show ?thesis
    using sm1 assms(5) shm_size(2,3) [OF assms(6)] MM_the_same [OF x(3)]
    by (auto simp: syscall_create_shared_memory_def get_proc_def linorder_not_le simp del: of_nat_mult)
qed


text \<open>Process 2 creates, process 3 opens.\<close>

definition sharing_machine :: sched where
  "sharing_machine = small_machine\<lparr>m_runanble_list := [2],
     procs := [2 \<mapsto> (fresh_proc Runnable ''gui'')\<lparr>p_next_shm := 0x40000000\<rparr>,
               3 \<mapsto> (fresh_proc Running ''app'')\<lparr>p_next_shm := 0x40000000\<rparr>]\<rparr>"

lemma sharing_range: "shm_range 0x40000000 1" "pages_from 0x40000000 1 = [0x40000000]"
  by (simp_all add: shm_range_def is_frame_aligned_def pages_from_def)

lemma sharing_may_create:
  assumes "mm_inv 0x102000 {0x101000} m" "cr3 m = 0x101000"
    "\<And>b. own_index (PageDirectory_get_index b) \<Longrightarrow> mapping m 0x101000 b = None" "20 \<le> card {f. frame_free m f}"
  shows "may_create 0x102000 {0x101000} 2 1 \<lparr>shm_sched = sharing_machine, shm_entries = es, shm_mm = m\<rparr>"
  using assms sharing_range shm_range_pages [OF sharing_range(1)] by (auto simp: may_create_def sharing_machine_def)

theorem taken_name_stops_creator_witness:
  "\<exists>m sm1. MemoryManager_init (MemoryManager_new boot_machine) boot_memory = Inr m
    \<and> syscall_create_shared_memory 2 7 0x1000 \<lparr>shm_sched = sharing_machine,
         shm_entries = [\<lparr>shm_guid = 7, shm_pid = 3, shm_virt_addr = 0x40000000, shm_size = 0x1000\<rparr>], shm_mm = m\<rparr> = Inr ((E_TAKEN, None), sm1)
    \<and> syscall_create_shared_memory 2 8 0x1000 sm1 = Inl AssertionFailed"
proof -
  obtain m where m: "MemoryManager_init (MemoryManager_new boot_machine) boot_memory = Inr m"
    "mm_inv 0x102000 {0x101000} m" "cr3 m = 0x101000"
    "\<And>b. own_index (PageDirectory_get_index b) \<Longrightarrow> mapping m 0x101000 b = None"
    "frame_free m 0x500000" "frame_free m 0x501000" "20 \<le> card {f. frame_free m f}" "next_page_directory_allocation m = 0x300000"
    by (rule boot_started) (rule that)
  let ?sm = "\<lparr>shm_sched = sharing_machine,
      shm_entries = [\<lparr>shm_guid = 7, shm_pid = 3, shm_virt_addr = 0x40000000, shm_size = 0x1000\<rparr>], shm_mm = m\<rparr>"
  note may = sharing_may_create [OF m(2,3,4,7), of "[\<lparr>shm_guid = 7, shm_pid = 3, shm_virt_addr = 0x40000000, shm_size = 0x1000\<rparr>]"]
  obtain m' where cr: "syscall_create_shared_memory 2 7 (word_of_nat (1 * 4096)) ?sm = Inr ((E_TAKEN, None), ?sm\<lparr>shm_mm := m'\<rparr>)"
    using create_shared_memory_ok [OF may, where guid = 7] by (auto simp del: of_nat_mult)
  have "syscall_create_shared_memory 2 8 (word_of_nat (1 * 4096)) (?sm\<lparr>shm_mm := m'\<rparr>) = Inl AssertionFailed"
    using taken_name_stops_creator [OF may _ _ cr, of "(fresh_proc Runnable ''gui'')\<lparr>p_next_shm := 0x40000000\<rparr>" 1 8] sharing_range(1)
    by (simp add: sharing_machine_def)
  then show ?thesis using m(1) cr by auto
qed


end
