(* ===== verification/Network_Types.thy ===== *)
theory Network_Types
  imports Strings Printf Bits_Math
begin

unbundle bit_operations_syntax

text \<open>
  The addresses of \<^verbatim>\<open>libc/NetworkTypes.h\<close> and \<^verbatim>\<open>libc/NetworkTypes.cpp\<close> with their conversions
  to and from text and numbers, and the internet checksum of \<^verbatim>\<open>kernel/Network/Checksum.h\<close>.
\<close>

section \<open>Addresses\<close>

record IPV4 =
  ip_data :: "u8 list"

record MAC =
  mac_data :: "u8 list"

abbreviation IPV4_SIZE :: nat where "IPV4_SIZE \<equiv> 4"
abbreviation MAC_SIZE :: nat where "MAC_SIZE \<equiv> 6"

definition ip_ok :: "IPV4 \<Rightarrow> bool" where
  "ip_ok ip \<longleftrightarrow> length (ip_data ip) = IPV4_SIZE"

definition mac_ok :: "MAC \<Rightarrow> bool" where
  "mac_ok m \<longleftrightarrow> length (mac_data m) = MAC_SIZE"

definition IPV4_from_u32 :: "u32 \<Rightarrow> IPV4" where
  "IPV4_from_u32 ipv4 =
     \<lparr>ip_data = [ucast (drop_bit 24 ipv4), ucast (drop_bit 16 ipv4 AND 0xFF),
                 ucast (drop_bit 8 ipv4 AND 0xFF), ucast (ipv4 AND 0xFF)]\<rparr>"

definition IPV4_to_u32 :: "IPV4 \<Rightarrow> u32" where
  "IPV4_to_u32 ip =
     push_bit 24 (ucast (ip_data ip ! 0)) OR push_bit 16 (ucast (ip_data ip ! 1))
     OR push_bit 8 (ucast (ip_data ip ! 2)) OR ucast (ip_data ip ! 3)"

definition IPV4_to_string :: "IPV4 \<Rightarrow> str result" where
  "IPV4_to_string ip =
     rbind (vsnprintf_impl (replicate 20 NUL) 20 (''%d.%d.%d.%d'' @ [NUL])
              (map (\<lambda>b. ArgInt (unat b)) (ip_data ip))) (\<lambda>(_, buff).
     rbind (strlen buff) (\<lambda>n. init_from buff n))"

text \<open>
  The printed length of every octet moves \<open>current_length\<close>; the buffer from there on is what
  \<^verbatim>\<open>snprintf\<close> is given.
\<close>

fun MAC_to_string_loop :: "u8 list \<Rightarrow> string \<Rightarrow> nat \<Rightarrow> string result" where
  "MAC_to_string_loop [] buff current_length = Inr buff"
| "MAC_to_string_loop (b # bs) buff current_length =
     rbind (vsnprintf_impl (drop current_length buff) (size_sub 20 current_length) (''%x'' @ [NUL])
              [ArgInt (unat b)]) (\<lambda>(n, tail).
       let buff1 = take current_length buff @ tail;
           len1 = current_length + n
       in if bs \<noteq> [] then
            (if len1 < length buff1 then MAC_to_string_loop bs (buff1[len1 := CHR '':'']) (len1 + 1)
             else Inl BadAccess)
          else MAC_to_string_loop bs buff1 len1)"

definition MAC_to_string :: "MAC \<Rightarrow> str result" where
  "MAC_to_string m =
     rbind (MAC_to_string_loop (mac_data m) (replicate 20 NUL) 0) (\<lambda>buff.
     rbind (strlen buff) (\<lambda>n. init_from buff n))"

function from_string_loop :: "str \<Rightarrow> nat \<Rightarrow> nat \<Rightarrow> char vec \<Rightarrow> IPV4 \<Rightarrow> (bool \<times> IPV4) result" where
  "from_string_loop s char_index number_index cur out =
     (if char_index < m_len s \<and> number_index < 4 then
        rbind (str_index s char_index) (\<lambda>c.
        rbind (if c \<noteq> CHR ''.'' then vec_append cur c else Inr cur) (\<lambda>cur1.
          if c = CHR ''.'' \<or> char_index = size_sub (m_len s) 1 then
            (if vec_empty cur1 then Inr (False, out)
             else
               rbind (vec_append cur1 NUL) (\<lambda>cur2.
               rbind (atoi (vec_list cur2)) (\<lambda>octet.
                 if octet < 0 \<or> octet > 255 then Inr (False, out)
                 else from_string_loop s (Suc char_index) (Suc number_index) (vec_clear cur2)
                        (out\<lparr>ip_data := (ip_data out)[number_index := word_of_int octet]\<rparr>))))
          else from_string_loop s (Suc char_index) number_index cur1 out))
      else Inr (char_index = m_len s \<and> number_index = 4, out))"
  by pat_completeness auto
termination
  by (relation "measure (\<lambda>(s, char_index, number_index, cur, out). m_len s - char_index)") auto

declare from_string_loop.simps [simp del]

definition IPV4_from_string :: "str \<Rightarrow> IPV4 \<Rightarrow> (bool \<times> IPV4) result" where
  "IPV4_from_string s out = from_string_loop s 0 0 vec_new out"

section \<open>The internet checksum\<close>

text \<open>
  The words are read in the byte order of the machine; the last byte of an odd length is
  shifted to the upper half.
\<close>

fun checksum_loop :: "u8 list \<Rightarrow> u32 \<Rightarrow> u32" where
  "checksum_loop [] s = s"
| "checksum_loop [b] s =
     (let s1 = s + ucast (push_bit 8 (ucast b) :: u16) in if s1 > 0xFFFF then s1 - 0xFFFF else s1)"
| "checksum_loop (b0 # b1 # bs) s =
     (let s1 = s + ucast (of_le16 b0 b1)
      in checksum_loop bs (if s1 > 0xFFFF then s1 - 0xFFFF else s1))"

definition internet_checksum :: "u8 list \<Rightarrow> nat \<Rightarrow> u16 result" where
  "internet_checksum data n =
     (if n \<le> length data then Inr (NOT (ucast (checksum_loop (take n data) 0))) else Inl BadAccess)"

section \<open>Facts\<close>

lemma IPV4_u32_roundtrip: "IPV4_to_u32 (IPV4_from_u32 w) = w"
proof (rule bit_word_eqI)
  fix n :: nat
  assume "n < LENGTH(32)"
  moreover have "n < 8 \<or> 8 \<le> n \<and> n < 16 \<or> 16 \<le> n \<and> n < 24 \<or> 24 \<le> n" by linarith
  ultimately show "bit (IPV4_to_u32 (IPV4_from_u32 w)) n = bit w n"
    by (auto simp: IPV4_to_u32_def IPV4_from_u32_def word_and_0xFF bit_simps)
qed

lemma IPV4_u32_roundtrip2: "ip_ok ip \<Longrightarrow> IPV4_from_u32 (IPV4_to_u32 ip) = ip"
proof -
  assume "ip_ok ip"
  then obtain a b c d where ip: "ip_data ip = [a, b, c, d]"
    by (auto simp: ip_ok_def length_Suc_conv numeral_eq_Suc)
  let ?w = "push_bit 24 (ucast a) OR push_bit 16 (ucast b) OR push_bit 8 (ucast c) OR (ucast d :: u32)"
  have "ucast (drop_bit 24 ?w) = a" "ucast (drop_bit 16 ?w AND 0xFF) = b"
    "ucast (drop_bit 8 ?w AND 0xFF) = c" "ucast (?w AND 0xFF) = d"
    by (rule bit_word_eqI, auto simp: word_and_0xFF bit_simps dest: bit_imp_le_length)+
  then show ?thesis using ip by (cases ip) (simp add: IPV4_from_u32_def IPV4_to_u32_def)
qed

section \<open>Addresses as text\<close>

lemma print_octet:
  fixes b :: u8
  shows "\<exists>out. print_int_dec (unat b) 0 NUL = Inr (out, int (length out)) \<and> out \<noteq> [] \<and> length out \<le> 3
    \<and> set out \<subseteq> set digits_dec \<and> (\<forall>rest. atoi (out @ NUL # rest) = Inr (int (unat b)))"
proof -
  let ?w = "ucast b :: u32"
  have w: "unat ?w = unat b" by (simp add: unat_ucast_up)
  have s: "sint ?w = int (unat b)"
    using less_trans [OF unsigned_less [of b, where 'a = int], of "2 ^ 31"]
    by (simp add: signed_ucast_eq signed_take_bit_int_eq_self order_trans [of _ 0])
  obtain out r where out: "print_int_dec (unat b) 0 NUL = Inr (out, r)" "r = int (length out)"
    "\<And>rest. atoi_10 (out @ NUL # rest) = Inr (int (unat b))"
    using atoi_print_int_dec [of ?w] unfolding w s by (metis Inr_inject prod.inject)
  have "out \<noteq> [] \<and> length out \<le> 3 \<and> set out \<subseteq> set digits_dec"
  proof (cases "unat b = 0")
    case True
    then show ?thesis using out(1) by (auto simp: print_int_dec_def print_int_def digits_dec_def)
  next
    case False
    let ?ds = "digits_of 10 (unat b)"
    have small: "unat b < 2147483648" using less_trans [OF unat_u8_less [of b]] by simp
    then have "out = map ((!) digits_dec) ?ds"
      using out(1) False print_int_ok [of 10 digits_dec "unat b" 0 NUL True]
      by (simp add: print_int_dec_def Let_def digits_dec_def not_le)
    moreover have "\<forall>d\<in>set ?ds. d < 10" using digits_of_bound [of 10] by simp
    moreover have "length ?ds \<le> 3"
    proof (rule ccontr)
      assume "\<not> length ?ds \<le> 3"
      then have "(10::nat) ^ 3 \<le> 10 ^ (length ?ds - 1)" by (intro power_increasing) auto
      also have "\<dots> \<le> unat b" using length_digits_of [of 10 "unat b"] False by simp
      finally show False using unat_u8_less [of b] by simp
    qed
    moreover have "?ds \<noteq> []" by (subst digits_of.simps) simp
    moreover have "length digits_dec = 10" by (simp add: digits_dec_def)
    ultimately show ?thesis by (auto intro!: nth_mem)
  qed
  then show ?thesis using out by (auto simp: atoi_def)
qed

text \<open>A plain conversion and an ordinary character of a format.\<close>

lemma printf_loop_d:
  assumes "i + 2 < length fmt" "fmt ! i = CHR ''%''" "fmt ! (i + 1) = CHR ''d''"
  shows "printf_loop fmt i (ArgInt n # args) = rbind (print_int_dec n 0 NUL) (\<lambda>(out, r).
    rbind (printf_loop fmt (i + 2) args) (\<lambda>(out', r'). Inr (out @ out', r + r')))"
proof -
  have "back_to_percent fmt i = Inr i" using assms by (cases i) (auto simp: char_at_def)
  moreover have "\<not> is_digit CHR ''d''" by (simp add: is_digit_def schar_def of_char_def)
  ultimately have fill: "get_fill_data fmt (i + 1) = Inr (0, 0, NUL)"
    using assms by (simp add: get_fill_data_def char_at_def is_numeric_format_type_specifier_def
      del: rbind_Inr_iff)
  have "convert fmt (i + 1) (ArgInt n # args) = rbind (print_int_dec n 0 NUL) (\<lambda>(out, r). Inr (out, r, args))"
    using fill assms by (simp add: convert_def char_at_def)
  moreover have "skip_fill (drop (i + 1) fmt) = 0"
    using assms by (simp add: Cons_nth_drop_Suc [symmetric] is_digit_def schar_def of_char_def)
  ultimately show ?thesis
    using assms by (subst printf_loop.simps)
      (cases "print_int_dec n 0 NUL"; auto simp: char_at_def simp del: rbind_Inr_iff)
qed

lemma printf_loop_char:
  assumes "i < length fmt" "fmt ! i = c" "c \<noteq> NUL" "c \<noteq> CHR ''%''"
  shows "printf_loop fmt i args = rbind (printf_loop fmt (i + 1) args) (\<lambda>(out', r'). Inr (c # out', r' + 1))"
  using assms by (subst printf_loop.simps) (simp add: char_at_def)

lemma printf_dotted:
  assumes "print_int_dec a 0 NUL = Inr (o0, r0)" "print_int_dec b 0 NUL = Inr (o1, r1)"
    "print_int_dec c 0 NUL = Inr (o2, r2)" "print_int_dec d 0 NUL = Inr (o3, r3)"
  shows "\<exists>r. printf_internal (''%d.%d.%d.%d'' @ [NUL]) [ArgInt a, ArgInt b, ArgInt c, ArgInt d]
    = Inr (o0 @ ''.'' @ o1 @ ''.'' @ o2 @ ''.'' @ o3, r)"
proof -
  let ?f = "''%d.%d.%d.%d'' @ [NUL]"
  let ?P = "\<lambda>i args out. \<exists>r. printf_loop ?f i args = Inr (out, r)"
  have d: "?P i (ArgInt n # args) (out @ out')"
    if "?P (i + 2) args out'" "print_int_dec n 0 NUL = Inr (out, r)"
      "i + 2 < length ?f" "?f ! i = CHR ''%''" "?f ! (i + 1) = CHR ''d''" for i n args out out' r
    using that printf_loop_d [of i ?f n args] by auto
  have dot: "?P i args (CHR ''.'' # out)"
    if "?P (i + 1) args out" "i < length ?f" "?f ! i = CHR ''.''" for i args out
    using that printf_loop_char [of i ?f "CHR ''.''" args] by auto
  have "?P 11 [] []"
    by (subst printf_loop.simps) (simp add: char_at_def)
  then have "?P 9 [ArgInt d] o3" using d [of 9 "[]" "[]" d o3] assms(4) by simp
  then have "?P 8 [ArgInt d] (''.'' @ o3)" using dot [of 8] by simp
  then have "?P 6 [ArgInt c, ArgInt d] (o2 @ ''.'' @ o3)" using d [of 6 _ _ c o2] assms(3) by simp
  then have "?P 5 [ArgInt c, ArgInt d] (''.'' @ o2 @ ''.'' @ o3)" using dot [of 5] by simp
  then have "?P 3 [ArgInt b, ArgInt c, ArgInt d] (o1 @ ''.'' @ o2 @ ''.'' @ o3)"
    using d [of 3 _ _ b o1] assms(2) by simp
  then have "?P 2 [ArgInt b, ArgInt c, ArgInt d] (''.'' @ o1 @ ''.'' @ o2 @ ''.'' @ o3)"
    using dot [of 2] by simp
  then show ?thesis
    using d [of 0 _ _ a o0] assms(1) by (simp add: printf_internal_def numeral_2_eq_2)
qed

text \<open>
  Reading one octet: \<open>acc\<close> has been collected, \<open>todo\<close> is left of it, and it ends at a dot or
  at the end of the text.
\<close>

lemma uint_u8_le: "uint w \<le> 255" for w :: u8
  using unsigned_less [of w, where 'a = int] by simp

lemma from_string_octet:
  assumes "CHR ''.'' \<notin> set todo" "vec_growable cur" "vec_list cur = acc"
    "cs = pre @ acc @ todo @ CHR ''.'' # post" "acc @ todo \<noteq> []" "ni < 4"
    "atoi ((acc @ todo) @ [NUL]) = Inr (int (unat octet))"
  shows "from_string_loop (mk_str cs) (length (pre @ acc)) ni cur out =
    from_string_loop (mk_str cs) (Suc (length (pre @ acc @ todo))) (Suc ni) vec_new
      (out\<lparr>ip_data := (ip_data out)[ni := (octet :: u8)]\<rparr>)"
  using assms
proof (induction todo arbitrary: acc cur)
  case Nil
  obtain cur' where cur': "vec_append cur NUL = Inr cur'" "vec_growable cur'" "vec_list cur' = acc @ [NUL]"
    using vec_append_ok [OF Nil.prems(2)] Nil.prems(3) by blast
  have "m_size cur = length acc"
    using vec_okD(3) [of cur] Nil.prems(2,3) by (simp add: vec_growable_def)
  then have ne: "\<not> vec_empty cur" using Nil.prems(5) by (simp add: vec_empty_def)
  have c: "str_index (mk_str cs) (length (pre @ acc)) = Inr CHR ''.''"
    using Nil.prems(4) by (simp add: str_index_ok nth_append)
  have "length (pre @ acc) < length cs" using Nil.prems(4) by simp
  then show ?case
    using c ne cur' Nil.prems(6,7) uint_u8_le [of octet]
    by (subst from_string_loop.simps) (simp add: vec_clear_def vec_new_def Let_def)
next
  case (Cons x todo)
  obtain cur' where cur': "vec_append cur x = Inr cur'" "vec_growable cur'" "vec_list cur' = acc @ [x]"
    using vec_append_ok [OF Cons.prems(2)] Cons.prems(3) by blast
  have c: "str_index (mk_str cs) (length (pre @ acc)) = Inr x"
    using Cons.prems(4) by (simp add: str_index_ok nth_append)
  have "length (pre @ acc) < length cs" "length (pre @ acc) \<noteq> size_sub (length cs) 1"
    using Cons.prems(4) by simp_all
  then have "from_string_loop (mk_str cs) (length (pre @ acc)) ni cur out =
      from_string_loop (mk_str cs) (Suc (length (pre @ acc))) ni cur' out"
    using c cur' Cons.prems(1,6) by (subst from_string_loop.simps) auto
  then show ?case
    using Cons.IH [OF _ cur'(2,3)] Cons.prems by simp
qed

lemma from_string_last:
  assumes "CHR ''.'' \<notin> set todo" "todo \<noteq> []" "vec_growable cur" "vec_list cur = acc"
    "cs = pre @ acc @ todo" "ni < 4" "atoi ((acc @ todo) @ [NUL]) = Inr (int (unat octet))"
  shows "from_string_loop (mk_str cs) (length (pre @ acc)) ni cur out =
    Inr (Suc ni = 4, out\<lparr>ip_data := (ip_data out)[ni := (octet :: u8)]\<rparr>)"
  using assms
proof (induction todo arbitrary: acc cur)
  case (Cons x todo)
  obtain cur' where cur': "vec_append cur x = Inr cur'" "vec_growable cur'" "vec_list cur' = acc @ [x]"
    using vec_append_ok [OF Cons.prems(3)] Cons.prems(4) by blast
  have c: "str_index (mk_str cs) (length (pre @ acc)) = Inr x"
    using Cons.prems(5) by (simp add: str_index_ok nth_append)
  have lt: "length (pre @ acc) < length cs" using Cons.prems(5) by simp
  show ?case
  proof (cases todo)
    case Nil
    then have last: "length (pre @ acc) = size_sub (length cs) 1" "length cs = Suc (length (pre @ acc))"
      using Cons.prems(5) by simp_all
    obtain cur'' where cur'': "vec_append cur' NUL = Inr cur''" "vec_list cur'' = (acc @ [x]) @ [NUL]"
      using vec_append_ok [OF cur'(2)] cur'(3) by metis
    have "m_size cur' = length (acc @ [x])"
      using vec_okD(3) [of cur'] cur'(2,3) by (simp add: vec_growable_def)
    then have ne: "\<not> vec_empty cur'" by (simp add: vec_empty_def)
    have stop: "from_string_loop (mk_str cs) (length cs) (Suc ni) v o' = Inr (Suc ni = 4, o')" for v o'
      by (subst from_string_loop.simps) simp
    show ?thesis
      using c lt last ne cur' cur'' stop Cons.prems(1,6,7) Nil uint_u8_le [of octet]
      by (subst from_string_loop.simps) simp
  next
    case (Cons y ys)
    then have "length (pre @ acc) \<noteq> size_sub (length cs) 1" using Cons.prems(5) by simp
    then have "from_string_loop (mk_str cs) (length (pre @ acc)) ni cur out =
        from_string_loop (mk_str cs) (Suc (length (pre @ acc))) ni cur' out"
      using c lt cur' Cons.prems(1,6) by (subst from_string_loop.simps) auto
    then show ?thesis
      using Cons.IH [OF _ _ cur'(2,3)] Cons.prems Cons by simp
  qed
qed simp

lemma snprintf_to_str:
  assumes "printf_internal fmt args = Inr (t, r)" "NUL \<notin> set t" "length t < n"
  shows "rbind (vsnprintf_impl (replicate n NUL) n fmt args) (\<lambda>(_, buff).
    rbind (strlen buff) (\<lambda>k. init_from buff k)) = Inr (mk_str t)"
proof -
  let ?buf = "t @ NUL # replicate (n - Suc (length t)) NUL"
  have "replicate (n - length t) NUL = NUL # replicate (n - Suc (length t)) NUL"
    using assms(3) by (metis Suc_diff_Suc replicate_Suc)
  then have "vsnprintf_impl (replicate n NUL) n fmt args = Inr (length t, ?buf)"
    using assms by (simp add: vsnprintf_impl_def Let_def memcpy_eq list_update_append)
  then show ?thesis
    using strlen_NUL [OF assms(2)] init_from_ok [of "length t" ?buf] by simp
qed

lemma IPV4_to_string_ok:
  assumes "ip_data ip = [a, b, c, d]"
  shows "\<exists>oa ob oc od. IPV4_to_string ip = Inr (mk_str (oa @ ''.'' @ ob @ ''.'' @ oc @ ''.'' @ od))
    \<and> (\<forall>(w, out) \<in> {(a, oa), (b, ob), (c, oc), (d, od)}. out \<noteq> [] \<and> CHR ''.'' \<notin> set out
         \<and> atoi (out @ [NUL]) = Inr (int (unat w)))"
proof -
  have oct: "\<exists>out. print_int_dec (unat w) 0 NUL = Inr (out, int (length out)) \<and> out \<noteq> [] \<and> length out \<le> 3
      \<and> CHR ''.'' \<notin> set out \<and> NUL \<notin> set out \<and> atoi (out @ [NUL]) = Inr (int (unat w))" for w :: u8
  proof -
    obtain out where out: "print_int_dec (unat w) 0 NUL = Inr (out, int (length out))" "out \<noteq> []"
      "length out \<le> 3" "set out \<subseteq> set digits_dec" "\<And>rest. atoi (out @ NUL # rest) = Inr (int (unat w))"
      using print_octet [of w] by blast
    have "CHR ''.'' \<notin> set digits_dec" "NUL \<notin> set digits_dec" by (simp_all add: digits_dec_def)
    then show ?thesis using out by blast
  qed
  obtain oa ob oc od where o: "print_int_dec (unat a) 0 NUL = Inr (oa, int (length oa))"
    "print_int_dec (unat b) 0 NUL = Inr (ob, int (length ob))"
    "print_int_dec (unat c) 0 NUL = Inr (oc, int (length oc))"
    "print_int_dec (unat d) 0 NUL = Inr (od, int (length od))"
    and len: "length oa \<le> 3" "length ob \<le> 3" "length oc \<le> 3" "length od \<le> 3"
    and nul: "NUL \<notin> set oa" "NUL \<notin> set ob" "NUL \<notin> set oc" "NUL \<notin> set od"
    and good: "\<forall>(w, out) \<in> {(a, oa), (b, ob), (c, oc), (d, od)}. out \<noteq> [] \<and> CHR ''.'' \<notin> set out
         \<and> atoi (out @ [NUL]) = Inr (int (unat w))"
    using oct [of a] oct [of b] oct [of c] oct [of d] by auto
  let ?t = "oa @ ''.'' @ ob @ ''.'' @ oc @ ''.'' @ od"
  obtain r where r: "printf_internal (''%d.%d.%d.%d'' @ [NUL])
      [ArgInt (unat a), ArgInt (unat b), ArgInt (unat c), ArgInt (unat d)] = Inr (?t, r)"
    using printf_dotted [OF o] by blast
  have "NUL \<notin> set ?t" "length ?t < 20" using len nul by auto
  then have "IPV4_to_string ip = Inr (mk_str ?t)"
    using snprintf_to_str [OF r] assms by (simp add: IPV4_to_string_def del: rbind_Inr_iff)
  then show ?thesis using good by blast
qed

lemma IPV4_text_roundtrip:
  assumes "ip_ok ip" "ip_ok out"
  shows "\<exists>s. IPV4_to_string ip = Inr s \<and> str_ok s \<and> IPV4_from_string s out = Inr (True, ip)"
proof -
  obtain a b c d where ip: "ip_data ip = [a, b, c, d]"
    using assms(1) by (auto simp: ip_ok_def length_Suc_conv numeral_eq_Suc)
  obtain w x y z where out: "ip_data out = [w, x, y, z]"
    using assms(2) by (auto simp: ip_ok_def length_Suc_conv numeral_eq_Suc)
  obtain oa ob oc od where s: "IPV4_to_string ip = Inr (mk_str (oa @ ''.'' @ ob @ ''.'' @ oc @ ''.'' @ od))"
    and good: "\<forall>(w, out) \<in> {(a, oa), (b, ob), (c, oc), (d, od)}. out \<noteq> [] \<and> CHR ''.'' \<notin> set out
         \<and> atoi (out @ [NUL]) = Inr (int (unat w))"
    using IPV4_to_string_ok [OF ip] by blast
  let ?cs = "oa @ ''.'' @ ob @ ''.'' @ oc @ ''.'' @ od"
  have new: "vec_growable vec_new" "vec_list vec_new = ([] :: string)" by (simp_all add: vec_new_def)
  let ?p1 = "oa @ ''.''" and ?p2 = "oa @ ''.'' @ ob @ ''.''" and ?p3 = "oa @ ''.'' @ ob @ ''.'' @ oc @ ''.''"
  let ?L = "from_string_loop (mk_str ?cs)"
  note step = from_string_octet [OF _ new, where cs = ?cs]
  have "?L 0 0 vec_new out = ?L (length ?p1) 1 vec_new (out\<lparr>ip_data := [a, x, y, z]\<rparr>)"
    using step [of oa "[]" _ 0 a out] good out by simp
  also have "\<dots> = ?L (length ?p2) 2 vec_new (out\<lparr>ip_data := [a, b, y, z]\<rparr>)"
    using step [of ob ?p1 _ 1 b "out\<lparr>ip_data := [a, x, y, z]\<rparr>"] good by (simp add: numeral_2_eq_2)
  also have "\<dots> = ?L (length ?p3) 3 vec_new (out\<lparr>ip_data := [a, b, c, z]\<rparr>)"
    using step [of oc ?p2 _ 2 c "out\<lparr>ip_data := [a, b, y, z]\<rparr>"] good
    by (simp add: numeral_2_eq_2 numeral_3_eq_3)
  also have "\<dots> = Inr (True, out\<lparr>ip_data := [a, b, c, d]\<rparr>)"
  proof -
    have "CHR ''.'' \<notin> set od" "od \<noteq> []" "atoi (([] @ od) @ [NUL]) = Inr (int (unat d))"
      using good by auto
    from from_string_last [OF this(1,2) new _ _ this(3), where pre = ?p3 and ni = 3
        and out = "out\<lparr>ip_data := [a, b, c, z]\<rparr>"]
    show ?thesis by (simp add: numeral_3_eq_3)
  qed
  also have "out\<lparr>ip_data := [a, b, c, d]\<rparr> = ip" using ip by (cases ip; cases out) simp
  finally have "IPV4_from_string (mk_str ?cs) out = Inr (True, ip)" by (simp add: IPV4_from_string_def)
  then show ?thesis using s mk_str_simps by blast
qed

section \<open>The checksum verifies\<close>

text \<open>The 16-bit words the loop adds, as numbers.\<close>

fun words16 :: "u8 list \<Rightarrow> nat list" where
  "words16 [] = []"
| "words16 [b] = [256 * unat b]"
| "words16 (b0 # b1 # bs) = unat (of_le16 b0 b1) # words16 bs"

text \<open>The sum in ones' complement: 0 only for a sum of zeros.\<close>

definition ones_sum :: "nat \<Rightarrow> nat" where
  "ones_sum n = (if n = 0 then 0 else (n - 1) mod 65535 + 1)"

lemma ones_sum_le: "ones_sum n \<le> 65535"
proof -
  have "(n - 1) mod 65535 < 65535" by (rule mod_less_divisor) simp
  then have "(n - 1) mod 65535 + 1 \<le> 65535" by linarith
  then show ?thesis by (simp only: ones_sum_def split: if_split) simp
qed

lemma ones_sum_add:
  assumes "w \<le> 65535"
  shows "(if ones_sum n + w > 65535 then ones_sum n + w - 65535 else ones_sum n + w) = ones_sum (n + w)"
proof (cases "n = 0")
  case True
  then show ?thesis using assms by (simp add: ones_sum_def)
next
  case False
  then obtain m where m: "n = Suc m" by (cases n) auto
  define q where "q = m mod 65535"
  have "(m + w) mod 65535 = (q + w) mod 65535" by (simp add: q_def mod_add_left_eq)
  moreover have "q < 65535" by (simp add: q_def)
  moreover have "(q + w) mod 65535 = (if q + w < 65535 then q + w else q + w - 65535)" if "q < 65535" "w \<le> 65535"
    using that by (auto simp: mod_if [of "q + w"] )
  ultimately show ?thesis using assms by (auto simp: ones_sum_def m q_def [symmetric])
qed

lemma ones_sum_complement: "ones_sum (n + (65535 - ones_sum n)) = 65535"
proof (cases "n = 0")
  case True
  then show ?thesis by (simp add: ones_sum_def)
next
  case False
  then obtain m where m: "n = Suc m" by (cases n) auto
  define k r where "k = m div 65535" and "r = m mod 65535"
  have "m = 65535 * k + r" unfolding k_def r_def by (rule mult_div_mod_eq [symmetric])
  moreover have "r < 65535" unfolding r_def by (rule mod_less_divisor) simp
  moreover have "ones_sum n = r + 1" by (simp add: ones_sum_def m r_def)
  ultimately have "n + (65535 - ones_sum n) - 1 = 65535 * k + 65534" using m by linarith
  then have "(n + (65535 - ones_sum n) - 1) mod 65535 = 65534" by simp
  then show ?thesis using False by (simp add: ones_sum_def)
qed

lemma checksum_step:
  fixes s :: u32
  assumes "unat s = ones_sum n" "unat w = v" "v \<le> 65535"
  shows "unat (if s + w > 0xFFFF then s + w - 0xFFFF else s + w) = ones_sum (n + v)"
proof -
  have "unat (s + w) = ones_sum n + v"
    using assms ones_sum_le [of n] by (simp add: unat_word_ariths)
  then show ?thesis
    using ones_sum_add [OF assms(3), of n] by (auto simp: word_less_nat_alt unat_sub word_le_nat_alt)
qed

lemma unat_push_byte: "unat (ucast (push_bit 8 (ucast b) :: u16) :: u32) = 256 * unat b" for b :: u8
proof -
  have "256 * unat b < 65536" by simp
  then show ?thesis
    by (simp add: unat_ucast_up push_bit_eq_mult unat_word_ariths mult.commute)
qed

lemma checksum_loop_sum:
  "unat s = ones_sum n \<Longrightarrow> unat (checksum_loop bs s) = ones_sum (n + sum_list (words16 bs))"
proof (induction bs s arbitrary: n rule: checksum_loop.induct)
  case (2 b s)
  have "256 * unat b \<le> 65535" using unat_u8_less [of b] by linarith
  from checksum_step [OF 2 unat_push_byte this] show ?case by (simp add: Let_def)
next
  case (3 b0 b1 bs s)
  let ?w = "ucast (of_le16 b0 b1) :: u32"
  have w: "unat ?w = unat (of_le16 b0 b1)" "unat (of_le16 b0 b1) \<le> 65535"
    using Suc_leI [OF unat_u16_less [of "of_le16 b0 b1"]] by (simp_all add: unat_ucast_up)
  from 3(1) [OF refl checksum_step [OF 3(2) w]] show ?case by (simp add: Let_def add.assoc)
qed simp

lemma words16_append: "even (length xs) \<Longrightarrow> words16 (xs @ ys) = words16 xs @ words16 ys"
  by (induction xs rule: words16.induct) auto

lemma sum_words16_field:
  assumes "even off" "off + 2 \<le> length pkt" "chunk off 2 pkt = [0, 0]"
  shows "sum_list (words16 (blit off (le16 c) pkt)) = sum_list (words16 pkt) + unat c"
proof -
  have "pkt = take off pkt @ chunk off 2 pkt @ drop (off + 2) pkt"
    using append_take_drop_id [of 2 "drop off pkt"] by (simp add: chunk_def add.commute)
  then have "sum_list (words16 pkt) = sum_list (words16 (take off pkt @ [0, 0] @ drop (off + 2) pkt))"
    using assms(3) by simp
  also have "\<dots> = sum_list (words16 (take off pkt)) + sum_list (words16 (drop (off + 2) pkt))"
    using assms by (subst words16_append) (simp_all add: of_le16_def)
  finally show ?thesis
    using assms by (simp add: blit_def words16_append) (simp add: le16_def)
qed

lemma internet_checksum_value:
  "\<exists>c. internet_checksum pkt (length pkt) = Inr c \<and> unat c = 65535 - ones_sum (sum_list (words16 pkt))"
proof -
  let ?s = "checksum_loop pkt 0" and ?v = "ones_sum (sum_list (words16 pkt))"
  have s: "unat ?s = ?v" using checksum_loop_sum [of 0 0 pkt] by (simp add: ones_sum_def)
  have "?v < 65536" using ones_sum_le [of "sum_list (words16 pkt)"] by simp
  then have "unat (ucast ?s :: u16) = ?v"
    using s by (simp add: unsigned_ucast_eq take_bit_nat_eq_self)
  moreover have "unat (NOT w) = 65535 - unat w" for w :: u16
  proof -
    have "NOT w = - 1 - w" by (simp add: not_eq_complement)
    moreover have "unat (- 1 :: u16) = 65535" by (simp add: unsigned_minus_1_eq_mask mask_eq_exp_minus_1)
    ultimately show ?thesis using unat_sub [of w "- 1"] by simp
  qed
  ultimately show ?thesis by (simp add: internet_checksum_def)
qed

section \<open>Properties\<close>

text \<open>
  An address printed as dotted decimal parses back to the same address, whatever was in
  the structure that is filled, and neither direction runs out of its buffer.
\<close>

theorem ipv4_text_roundtrip:
  assumes "ip_ok ip" "ip_ok out"
  shows "\<exists>s. IPV4_to_string ip = Inr s \<and> str_ok s \<and> IPV4_from_string s out = Inr (True, ip)"
  by (rule IPV4_text_roundtrip [OF assms])

theorem ipv4_text_roundtrip_witness:
  "\<exists>s. IPV4_to_string \<lparr>ip_data = [192, 168, 2, 20]\<rparr> = Inr s
    \<and> IPV4_from_string s \<lparr>ip_data = [0, 0, 0, 0]\<rparr> = Inr (True, \<lparr>ip_data = [192, 168, 2, 20]\<rparr>)"
  using ipv4_text_roundtrip [of "\<lparr>ip_data = [192, 168, 2, 20]\<rparr>" "\<lparr>ip_data = [0, 0, 0, 0]\<rparr>"]
  by (auto simp: ip_ok_def)

text \<open>
  The conversions between an address and the number in a socket address are inverse to
  each other.
\<close>

theorem ipv4_u32_inverse:
  assumes "ip_ok ip"
  shows "IPV4_from_u32 (IPV4_to_u32 ip) = ip \<and> IPV4_to_u32 (IPV4_from_u32 w) = w"
  using IPV4_u32_roundtrip IPV4_u32_roundtrip2 [OF assms] by blast

theorem ipv4_u32_inverse_witness:
  "IPV4_from_u32 (IPV4_to_u32 \<lparr>ip_data = [192, 168, 2, 1]\<rparr>) = \<lparr>ip_data = [192, 168, 2, 1]\<rparr>"
  using ipv4_u32_inverse [of "\<lparr>ip_data = [192, 168, 2, 1]\<rparr>" 0] by (simp add: ip_ok_def)

text \<open>
  C37: storing the checksum of a packet, computed with its checksum field zero, into that
  field makes the checksum over the whole packet 0, which is the test a receiver makes; this
  holds for packets of even and of odd length.
\<close>

theorem checksum_verifies:
  assumes "even off" "off + 2 \<le> length pkt" "chunk off 2 pkt = [0, 0]"
  shows "\<exists>c. internet_checksum pkt (length pkt) = Inr c
    \<and> internet_checksum (blit off (le16 c) pkt) (length pkt) = Inr 0"
proof -
  obtain c where c: "internet_checksum pkt (length pkt) = Inr c"
    "unat c = 65535 - ones_sum (sum_list (words16 pkt))" using internet_checksum_value by blast
  let ?pkt = "blit off (le16 c) pkt"
  have "ones_sum (sum_list (words16 ?pkt)) = 65535"
    unfolding sum_words16_field [OF assms] c(2) by (rule ones_sum_complement)
  then show ?thesis
    using internet_checksum_value [of ?pkt] c(1) assms(2) by (auto simp: unat_eq_0)
qed

theorem checksum_verifies_witness:
  "\<exists>c. internet_checksum [8, 0, 0, 0, 1, 2, 3] 7 = Inr c
    \<and> internet_checksum (blit 2 (le16 c) [8, 0, 0, 0, 1, 2, 3]) 7 = Inr 0"
  using checksum_verifies [of 2 "[8, 0, 0, 0, 1, 2, 3]"] by (simp add: chunk_def numeral_eq_Suc)

end
