(* ===== verification/Network.thy ===== *)
theory Network
  imports Network_Types
begin

unbundle bit_operations_syntax

text \<open>
  The network stack of \<^verbatim>\<open>kernel/Network\<close> with the transmit and receive rings of
  \<^verbatim>\<open>kernel/drivers/RTL8139NetworkCard.cpp\<close>: Ethernet frames, ARP, IPv4, ICMP and the ICMP
  sockets. A packet is the list of its bytes; the packed headers are records with their layout
  in memory. The card's status registers are not modelled: a frame handed to the card is on
  the wire when \<^verbatim>\<open>transmit\<close> returns.
\<close>

section \<open>State\<close>

record arp_blocker =
  m_target :: IPV4
  m_timeout_timestamp :: u32
  m_answer :: MAC
  m_has_answer :: bool

record icmp_socket =
  m_pending_packets :: "(u8 list \<times> IPV4) list"
  m_destination :: IPV4
  m_id :: u8

record card =
  m_mac :: MAC
  m_recv_buffer :: "u8 list"
  m_recv_buffer_offset :: u16
  m_send_buffers :: "u8 list list"
  m_current_transmit_index :: nat
  wire :: "u8 list list"

record net =
  nic :: card
  m_our_mac :: MAC
  m_our_ip :: IPV4
  m_gateway_ip :: IPV4
  m_rx_queue :: "u8 list list"
  arp_cache :: "(IPV4 \<times> MAC) list"
  m_arp_blockers :: "arp_blocker list"
  ipv4_id :: u16
  m_sockets :: "nat list"
  socket_at :: "nat \<rightharpoonup> icmp_socket"
  clock_ms :: u32

abbreviation NUM_SEND_BUFFERS :: nat where "NUM_SEND_BUFFERS \<equiv> 4"

definition BROADCAST_MAC :: MAC where
  "BROADCAST_MAC = \<lparr>mac_data = replicate 6 0xFF\<rparr>"

definition NetworkManager_new :: "card \<Rightarrow> MAC \<Rightarrow> net" where
  "NetworkManager_new c our_mac =
     \<lparr>nic = c, m_our_mac = our_mac, m_our_ip = \<lparr>ip_data = [192, 168, 2, 20]\<rparr>,
      m_gateway_ip = \<lparr>ip_data = [192, 168, 2, 1]\<rparr>, m_rx_queue = [], arp_cache = [],
      m_arp_blockers = [], ipv4_id = 0, m_sockets = [], socket_at = Map.empty, clock_ms = 0\<rparr>"

section \<open>The card\<close>

definition RTL8139_transmit :: "card \<Rightarrow> u8 list \<Rightarrow> nat \<Rightarrow> card result" where
  "RTL8139_transmit c data n =
     rbind (assert_that (m_current_transmit_index c < NUM_SEND_BUFFERS)) (\<lambda>_.
       if m_current_transmit_index c < length (m_send_buffers c) then
         rbind (memcpy (m_send_buffers c ! m_current_transmit_index c) data n) (\<lambda>buffer.
           Inr (c\<lparr>m_send_buffers := (m_send_buffers c)[m_current_transmit_index c := buffer],
                  wire := wire c @ [take n buffer],
                  m_current_transmit_index := (m_current_transmit_index c + 1) mod NUM_SEND_BUFFERS\<rparr>))
       else Inl BadAccess)"

definition NetworkManager_on_packet_received :: "net \<Rightarrow> u8 list \<Rightarrow> nat \<Rightarrow> net result" where
  "NetworkManager_on_packet_received n packet sz =
     rbind (vec_of_data 1 packet sz) (\<lambda>v. Inr (n\<lparr>m_rx_queue := m_rx_queue n @ [vec_list v]\<rparr>))"

definition read_u16 :: "u8 list \<Rightarrow> nat \<Rightarrow> u16 result" where
  "read_u16 mem off =
     (if off + 1 < length mem then Inr (of_le16 (mem ! off) (mem ! (off + 1))) else Inl BadAccess)"

text \<open>
  The length counts the four bytes of the frame's checksum; the offset of the next packet is
  aligned to 4 and wraps at 8 K. The arithmetic on it is in \<open>int\<close>.
\<close>

definition next_recv_offset :: "u16 \<Rightarrow> u16 \<Rightarrow> u16" where
  "next_recv_offset off len = word_of_nat ((((unat off + unat len + 4 + 3) div 4) * 4) mod 8192)"

definition recv_packet :: "net \<Rightarrow> net result" where
  "recv_packet n =
     (let c = nic n; off = unat (m_recv_buffer_offset c)
      in rbind (read_u16 (m_recv_buffer c) off) (\<lambda>status.
         rbind (read_u16 (m_recv_buffer c) (off + 2)) (\<lambda>len.
           if status AND 1 = 0 then Inr n
           else
             rbind (NetworkManager_on_packet_received n (drop (off + 4) (m_recv_buffer c)) (unat (len - 4))) (\<lambda>n1.
               Inr (n1\<lparr>nic := c\<lparr>m_recv_buffer_offset := next_recv_offset (m_recv_buffer_offset c) len\<rparr>\<rparr>)))))"

section \<open>Ethernet\<close>

abbreviation ETHERTYPE_ARP :: u16 where "ETHERTYPE_ARP \<equiv> 0x0806"
abbreviation ETHERTYPE_IPV4 :: u16 where "ETHERTYPE_IPV4 \<equiv> 0x0800"

record EthernetHeader =
  destination :: MAC
  source :: MAC
  ethertype :: u16

definition Ethernet_flip :: "EthernetHeader \<Rightarrow> EthernetHeader" where
  "Ethernet_flip h = h\<lparr>ethertype := to_flipped_endianness (ethertype h)\<rparr>"

definition EthernetHeader_bytes :: "EthernetHeader \<Rightarrow> u8 list" where
  "EthernetHeader_bytes h = mac_data (destination h) @ mac_data (source h) @ le16 (ethertype h)"

definition EthernetHeader_at :: "u8 list \<Rightarrow> EthernetHeader result" where
  "EthernetHeader_at mem =
     (if 14 \<le> length mem then
        Inr \<lparr>destination = \<lparr>mac_data = chunk 0 6 mem\<rparr>, source = \<lparr>mac_data = chunk 6 6 mem\<rparr>,
             ethertype = of_le16 (mem ! 12) (mem ! 13)\<rparr>
      else Inl BadAccess)"

definition Ethernet_build :: "MAC \<Rightarrow> MAC \<Rightarrow> u16 \<Rightarrow> u8 list \<Rightarrow> nat \<Rightarrow> u8 vec result" where
  "Ethernet_build dst src et payload payload_size =
     (let header = Ethernet_flip \<lparr>destination = dst, source = src, ethertype = et\<rparr>;
          frame_size = (if 14 + payload_size < 64 then 64 else 14 + payload_size);
          padding = (if 14 + payload_size < 64 then 64 - (14 + payload_size) else 0);
          data = vec_set_size (vec_with_capacity frame_size) frame_size
      in rbind (memcpy (m_data data) (map Some (EthernetHeader_bytes header)) 14) (\<lambda>d1.
         rbind (memcpy (drop 14 d1) (map Some payload) payload_size) (\<lambda>d2.
         rbind (memset (drop payload_size d2) (Some 0) padding) (\<lambda>d3.
           Inr (data\<lparr>m_data := take 14 d1 @ take payload_size d2 @ d3\<rparr>)))))"

definition Ethernet_send :: "net \<Rightarrow> MAC \<Rightarrow> MAC \<Rightarrow> u16 \<Rightarrow> u8 list \<Rightarrow> nat \<Rightarrow> net result" where
  "Ethernet_send n dst src et payload payload_size =
     rbind (Ethernet_build dst src et payload payload_size) (\<lambda>ether.
     rbind (RTL8139_transmit (nic n) (vec_list ether) (m_size ether)) (\<lambda>c. Inr (n\<lparr>nic := c\<rparr>)))"

section \<open>ARP\<close>

record ArpMessage =
  hardware_type :: u16
  protocol_type :: u16
  hardware_size :: u8
  protocol_size :: u8
  opcode :: u16
  sender_mac :: MAC
  sender_ip_address :: IPV4
  target_mac :: MAC
  target_ip_address :: IPV4

abbreviation ARP_Request :: u16 where "ARP_Request \<equiv> 1"
abbreviation ARP_Response :: u16 where "ARP_Response \<equiv> 2"

definition ArpMessage_flip :: "ArpMessage \<Rightarrow> ArpMessage" where
  "ArpMessage_flip m =
     m\<lparr>hardware_type := to_flipped_endianness (hardware_type m),
       protocol_type := to_flipped_endianness (protocol_type m),
       opcode := to_flipped_endianness (opcode m)\<rparr>"

definition ArpMessage_bytes :: "ArpMessage \<Rightarrow> u8 list" where
  "ArpMessage_bytes m =
     le16 (hardware_type m) @ le16 (protocol_type m) @ [hardware_size m, protocol_size m]
     @ le16 (opcode m) @ mac_data (sender_mac m) @ ip_data (sender_ip_address m)
     @ mac_data (target_mac m) @ ip_data (target_ip_address m)"

definition ArpMessage_at :: "u8 list \<Rightarrow> ArpMessage result" where
  "ArpMessage_at mem =
     (if 28 \<le> length mem then
        Inr \<lparr>hardware_type = of_le16 (mem ! 0) (mem ! 1), protocol_type = of_le16 (mem ! 2) (mem ! 3),
             hardware_size = mem ! 4, protocol_size = mem ! 5, opcode = of_le16 (mem ! 6) (mem ! 7),
             sender_mac = \<lparr>mac_data = chunk 8 6 mem\<rparr>, sender_ip_address = \<lparr>ip_data = chunk 14 4 mem\<rparr>,
             target_mac = \<lparr>mac_data = chunk 18 6 mem\<rparr>, target_ip_address = \<lparr>ip_data = chunk 24 4 mem\<rparr>\<rparr>
      else Inl BadAccess)"

definition PendingRequestBlocker_new :: "u32 \<Rightarrow> IPV4 \<Rightarrow> u32 \<Rightarrow> arp_blocker" where
  "PendingRequestBlocker_new now target timeout_ms =
     \<lparr>m_target = target, m_timeout_timestamp = now + timeout_ms,
      m_answer = \<lparr>mac_data = replicate 6 0\<rparr>, m_has_answer = False\<rparr>"

definition PendingRequestBlocker_can_unblock :: "u32 \<Rightarrow> arp_blocker \<Rightarrow> bool" where
  "PendingRequestBlocker_can_unblock now b \<longleftrightarrow> m_has_answer b \<or> now > m_timeout_timestamp b"

text \<open>
  The thread that sends a request is blocked until its blocker lets it go on; \<open>others\<close> stands
  for what the other threads do to the state meanwhile.
\<close>

definition send_arp_request :: "(net \<Rightarrow> net result) \<Rightarrow> net \<Rightarrow> IPV4 \<Rightarrow> IPV4 \<Rightarrow> (MAC option \<times> net) result" where
  "send_arp_request others n target_ip sender_ip =
     (let arp_data = ArpMessage_flip
            \<lparr>hardware_type = 1, protocol_type = 0x0800, hardware_size = 6, protocol_size = 4,
             opcode = ARP_Request, sender_mac = m_mac (nic n), sender_ip_address = sender_ip,
             target_mac = BROADCAST_MAC, target_ip_address = target_ip\<rparr>;
          idx = length (m_arp_blockers n);
          n1 = n\<lparr>m_arp_blockers := m_arp_blockers n @ [PendingRequestBlocker_new (clock_ms n) target_ip 5000]\<rparr>
      in rbind (Ethernet_send n1 (target_mac arp_data) (sender_mac arp_data) ETHERTYPE_ARP
                 (ArpMessage_bytes arp_data) 28) (\<lambda>n2.
         rbind (others n2) (\<lambda>n3.
           if idx < length (m_arp_blockers n3) then
             let b = m_arp_blockers n3 ! idx
             in Inr (if m_has_answer b then Some (m_answer b) else None, n3)
           else Inl BadAccess)))"

definition send_arp_response :: "net \<Rightarrow> MAC \<Rightarrow> IPV4 \<Rightarrow> net result" where
  "send_arp_response n t_mac t_ip =
     (let arp_data = ArpMessage_flip
            \<lparr>hardware_type = 1, protocol_type = 0x0800, hardware_size = 6, protocol_size = 4,
             opcode = ARP_Response, sender_mac = m_mac (nic n), sender_ip_address = m_our_ip n,
             target_mac = t_mac, target_ip_address = t_ip\<rparr>
      in Ethernet_send n (target_mac arp_data) (sender_mac arp_data) ETHERTYPE_ARP
           (ArpMessage_bytes arp_data) 28)"

definition set_answer :: "ArpMessage \<Rightarrow> arp_blocker \<Rightarrow> arp_blocker" where
  "set_answer m b =
     (if m_target b = sender_ip_address m then b\<lparr>m_answer := sender_mac m, m_has_answer := True\<rparr> else b)"

definition on_arp_message_received :: "net \<Rightarrow> u8 list \<Rightarrow> nat \<Rightarrow> net result" where
  "on_arp_message_received n msg sz =
     (if sz < 28 then Inr n
      else
        rbind (ArpMessage_at msg) (\<lambda>raw.
          let m = ArpMessage_flip raw
          in rbind (if opcode m = ARP_Request \<and> target_ip_address m = m_our_ip n
                    then send_arp_response n (sender_mac m) (m_gateway_ip n) else Inr n) (\<lambda>n1.
               if opcode m \<noteq> ARP_Response then Inr n1
               else Inr (n1\<lparr>m_arp_blockers := map (set_answer m) (m_arp_blockers n1)\<rparr>))))"

fun find_cached :: "(IPV4 \<times> MAC) list \<Rightarrow> IPV4 \<Rightarrow> MAC option" where
  "find_cached [] ip = None"
| "find_cached ((i, m) # es) ip = (if i = ip then Some m else find_cached es ip)"

definition resolve_arp :: "(net \<Rightarrow> net result) \<Rightarrow> net \<Rightarrow> IPV4 \<Rightarrow> (MAC option \<times> net) result" where
  "resolve_arp others n ip =
     (case find_cached (arp_cache n) ip of
        Some m \<Rightarrow> Inr (Some m, n)
      | None \<Rightarrow>
          rbind (send_arp_request others n ip (m_our_ip n)) (\<lambda>(r, n1).
            case r of
              None \<Rightarrow> Inr (None, n1)
            | Some m \<Rightarrow> Inr (Some m, n1\<lparr>arp_cache := arp_cache n1 @ [(ip, m)]\<rparr>)))"

section \<open>ICMP\<close>

record IcmpEchoHeader =
  icmp_type :: u8
  icmp_code :: u8
  icmp_checksum :: u16
  icmp_identifier :: u16
  icmp_sequence_number :: u16

abbreviation ICMP_Request :: u8 where "ICMP_Request \<equiv> 8"
abbreviation ICMP_Reply :: u8 where "ICMP_Reply \<equiv> 0"

definition IcmpEchoHeader_flip :: "IcmpEchoHeader \<Rightarrow> IcmpEchoHeader" where
  "IcmpEchoHeader_flip h =
     h\<lparr>icmp_identifier := to_flipped_endianness (icmp_identifier h),
       icmp_sequence_number := to_flipped_endianness (icmp_sequence_number h)\<rparr>"

definition IcmpEchoHeader_bytes :: "IcmpEchoHeader \<Rightarrow> u8 list" where
  "IcmpEchoHeader_bytes h =
     [icmp_type h, icmp_code h] @ le16 (icmp_checksum h) @ le16 (icmp_identifier h) @ le16 (icmp_sequence_number h)"

definition IcmpEchoHeader_at :: "u8 list \<Rightarrow> IcmpEchoHeader result" where
  "IcmpEchoHeader_at mem =
     (if 8 \<le> length mem then
        Inr \<lparr>icmp_type = mem ! 0, icmp_code = mem ! 1, icmp_checksum = of_le16 (mem ! 2) (mem ! 3),
             icmp_identifier = of_le16 (mem ! 4) (mem ! 5), icmp_sequence_number = of_le16 (mem ! 6) (mem ! 7)\<rparr>
      else Inl BadAccess)"

text \<open>Flipping the header of a packet where it lies.\<close>

definition flip_in_place :: "u8 list \<Rightarrow> u8 list result" where
  "flip_in_place packet =
     rbind (IcmpEchoHeader_at packet) (\<lambda>h.
       Inr (blit 0 (IcmpEchoHeader_bytes (IcmpEchoHeader_flip h)) packet))"

section \<open>IPv4\<close>

record IpV4Header =
  header_length_in_words :: u8
  ip_version :: u8
  dscp_ecn :: u8
  total_length :: u16
  ip_id :: u16
  flags_and_fragment_offset :: u16
  ttl :: u8
  protocol :: u8
  header_checksum :: u16
  source_address :: IPV4
  destination_address :: IPV4

abbreviation PROTOCOL_ICMP :: u8 where "PROTOCOL_ICMP \<equiv> 1"

definition IpV4Header_flip :: "IpV4Header \<Rightarrow> IpV4Header" where
  "IpV4Header_flip h =
     h\<lparr>total_length := to_flipped_endianness (total_length h),
       flags_and_fragment_offset := to_flipped_endianness (flags_and_fragment_offset h),
       ip_id := to_flipped_endianness (ip_id h)\<rparr>"

definition IpV4Header_bytes :: "IpV4Header \<Rightarrow> u8 list" where
  "IpV4Header_bytes h =
     [header_length_in_words h OR push_bit 4 (ip_version h), dscp_ecn h]
     @ le16 (total_length h) @ le16 (ip_id h) @ le16 (flags_and_fragment_offset h)
     @ [ttl h, protocol h] @ le16 (header_checksum h)
     @ ip_data (source_address h) @ ip_data (destination_address h)"

definition IpV4Header_at :: "u8 list \<Rightarrow> IpV4Header result" where
  "IpV4Header_at mem =
     (if 20 \<le> length mem then
        Inr \<lparr>header_length_in_words = mem ! 0 AND 0x0F, ip_version = drop_bit 4 (mem ! 0), dscp_ecn = mem ! 1,
             total_length = of_le16 (mem ! 2) (mem ! 3), ip_id = of_le16 (mem ! 4) (mem ! 5),
             flags_and_fragment_offset = of_le16 (mem ! 6) (mem ! 7), ttl = mem ! 8, protocol = mem ! 9,
             header_checksum = of_le16 (mem ! 10) (mem ! 11),
             source_address = \<lparr>ip_data = chunk 12 4 mem\<rparr>, destination_address = \<lparr>ip_data = chunk 16 4 mem\<rparr>\<rparr>
      else Inl BadAccess)"

text \<open>The packet \<^verbatim>\<open>IpV4::send\<close> builds: header, payload, and the checksum of the header in its field.\<close>

definition IpV4_packet :: "net \<Rightarrow> IPV4 \<Rightarrow> u8 \<Rightarrow> u8 list \<Rightarrow> nat \<Rightarrow> u8 list result" where
  "IpV4_packet n dst proto payload payload_size =
     (let header = IpV4Header_flip
            \<lparr>header_length_in_words = 5, ip_version = 4, dscp_ecn = 0,
             total_length = word_of_nat (20 + payload_size), ip_id = ipv4_id n,
             flags_and_fragment_offset = push_bit 13 2, ttl = 64, protocol = proto, header_checksum = 0,
             source_address = m_our_ip n, destination_address = dst\<rparr>
      in rbind (memcpy (replicate payload_size 0) payload payload_size) (\<lambda>body.
           let packet = IpV4Header_bytes header @ body
           in rbind (internet_checksum packet 20) (\<lambda>c. Inr (blit 10 (le16 c) packet))))"

definition IpV4_send :: "(net \<Rightarrow> net result) \<Rightarrow> net \<Rightarrow> IPV4 \<Rightarrow> u8 \<Rightarrow> u8 list \<Rightarrow> nat \<Rightarrow> net result" where
  "IpV4_send others n dst proto payload payload_size =
     rbind (IpV4_packet n dst proto payload payload_size) (\<lambda>packet.
     rbind (resolve_arp others (n\<lparr>ipv4_id := ipv4_id n + 1\<rparr>) (m_gateway_ip n)) (\<lambda>(r, n1).
       case r of
         None \<Rightarrow> Inr n1
       | Some t_mac \<Rightarrow> Ethernet_send n1 t_mac (m_our_mac n1) ETHERTYPE_IPV4 packet (length packet)))"

section \<open>Sending and receiving ICMP\<close>

definition send_ping :: "(net \<Rightarrow> net result) \<Rightarrow> net \<Rightarrow> IPV4 \<Rightarrow> u16 \<Rightarrow> u16 \<Rightarrow> net result" where
  "send_ping others n dst ident seq =
     (let header = IcmpEchoHeader_flip
            \<lparr>icmp_type = ICMP_Request, icmp_code = 0, icmp_checksum = 0, icmp_identifier = ident, icmp_sequence_number = seq\<rparr>;
          icmp_data = IcmpEchoHeader_bytes header @ replicate 32 65
      in rbind (internet_checksum icmp_data 40) (\<lambda>c.
           IpV4_send others n dst PROTOCOL_ICMP (blit 2 (le16 c) icmp_data) 40))"

text \<open>The checksum field keeps what the sender put there while the checksum is computed.\<close>

definition fix_checksum_and_send :: "(net \<Rightarrow> net result) \<Rightarrow> net \<Rightarrow> IPV4 \<Rightarrow> u8 list \<Rightarrow> nat \<Rightarrow> net result" where
  "fix_checksum_and_send others n dst buffer sz =
     rbind (vec_of_data 1 buffer sz) (\<lambda>copy.
     rbind (flip_in_place (vec_list copy)) (\<lambda>packet.
     rbind (internet_checksum packet sz) (\<lambda>c.
       IpV4_send others n dst PROTOCOL_ICMP (blit 2 (le16 c) packet) sz)))"

definition is_packet_relevant :: "icmp_socket \<Rightarrow> u8 list \<Rightarrow> nat \<Rightarrow> IPV4 \<Rightarrow> bool result" where
  "is_packet_relevant s packet sz src =
     (if src \<noteq> m_destination s then Inr False
      else if sz < 8 then Inr False
      else rbind (IcmpEchoHeader_at packet) (\<lambda>h.
             Inr (icmp_type h = ICMP_Reply \<and> icmp_identifier h = ucast (m_id s))))"

definition on_received :: "icmp_socket \<Rightarrow> u8 list \<times> IPV4 \<Rightarrow> icmp_socket" where
  "on_received s p = s\<lparr>m_pending_packets := m_pending_packets s @ [p]\<rparr>"

definition get_socket :: "net \<Rightarrow> nat \<Rightarrow> icmp_socket result" where
  "get_socket n i = (case socket_at n i of None \<Rightarrow> Inl BadAccess | Some s \<Rightarrow> Inr s)"

fun deliver :: "net \<Rightarrow> nat list \<Rightarrow> u8 list \<Rightarrow> nat \<Rightarrow> IPV4 \<Rightarrow> net result" where
  "deliver n [] packet sz src = Inr n"
| "deliver n (i # is) packet sz src =
     rbind (get_socket n i) (\<lambda>s.
     rbind (is_packet_relevant s packet sz src) (\<lambda>relevant.
     rbind (if relevant
            then rbind (vec_of_data 1 packet sz) (\<lambda>v.
                   Inr (n\<lparr>socket_at := (socket_at n)(i \<mapsto> on_received s (vec_list v, src))\<rparr>))
            else Inr n) (\<lambda>n1. deliver n1 is packet sz src)))"

definition Icmp_on_packet_received :: "net \<Rightarrow> u8 list \<Rightarrow> nat \<Rightarrow> IPV4 \<Rightarrow> net result" where
  "Icmp_on_packet_received n packet sz src =
     (if sz < 8 then Inr n
      else rbind (flip_in_place packet) (\<lambda>packet1. deliver n (m_sockets n) packet1 sz src))"

definition register_socket :: "net \<Rightarrow> nat \<Rightarrow> net" where
  "register_socket n i = n\<lparr>m_sockets := m_sockets n @ [i]\<rparr>"

definition unregister_socket :: "net \<Rightarrow> nat \<Rightarrow> net" where
  "unregister_socket n i = n\<lparr>m_sockets := remove1 i (m_sockets n)\<rparr>"

definition IcmpSocket_new :: "net \<Rightarrow> nat \<Rightarrow> net" where
  "IcmpSocket_new n i =
     register_socket (n\<lparr>socket_at := (socket_at n)(i \<mapsto>
        \<lparr>m_pending_packets = [], m_destination = \<lparr>ip_data = [0, 0, 0, 0]\<rparr>, m_id = 0\<rparr>)\<rparr>) i"

definition IcmpSocket_delete :: "net \<Rightarrow> nat \<Rightarrow> net" where
  "IcmpSocket_delete n i = (unregister_socket n i)\<lparr>socket_at := (socket_at n)(i := None)\<rparr>"

definition IcmpSocket_sendto :: "(net \<Rightarrow> net result) \<Rightarrow> net \<Rightarrow> nat \<Rightarrow> u32 \<Rightarrow> u8 list \<Rightarrow> nat \<Rightarrow> (int \<times> net) result" where
  "IcmpSocket_sendto others n i s_addr buf len =
     (let dst = IPV4_from_u32 s_addr
      in rbind (get_socket n i) (\<lambda>s.
         rbind (if 8 \<le> len
                then rbind (IcmpEchoHeader_at buf) (\<lambda>h.
                       Inr (if icmp_type h = ICMP_Request then ucast (icmp_identifier h) else m_id s))
                else Inr (m_id s)) (\<lambda>ident.
         rbind (fix_checksum_and_send others
                  (n\<lparr>socket_at := (socket_at n)(i \<mapsto> s\<lparr>m_destination := dst, m_id := ident\<rparr>)\<rparr>) dst buf len) (\<lambda>n1.
           Inr (int len, n1)))))"

text \<open>
  Waiting for a packet: \<open>others\<close> is what runs until the scheduler lets the thread go on. The
  blocker reports a timeout when the clock has passed its deadline by then.
\<close>

partial_function (option) recv_wait :: "(net \<Rightarrow> net result) \<Rightarrow> net \<Rightarrow> nat \<Rightarrow> (bool \<times> net) result option" where
  "recv_wait others n i =
     (case get_socket n i of
        Inl e \<Rightarrow> Some (Inl e)
      | Inr s \<Rightarrow>
          if m_pending_packets s \<noteq> [] then Some (Inr (True, n))
          else (case others n of
                  Inl e \<Rightarrow> Some (Inl e)
                | Inr n1 \<Rightarrow> if clock_ms n1 > clock_ms n + 3000 then Some (Inr (False, n1))
                            else recv_wait others n1 i))"

abbreviation NET_E_TOO_BIG :: int where "NET_E_TOO_BIG \<equiv> 3"
abbreviation NET_E_TIMED_OUT :: int where "NET_E_TIMED_OUT \<equiv> 9"

text \<open>The result: the return value, the caller's buffer, and the source address when it is set.\<close>

definition recv_front :: "net \<Rightarrow> nat \<Rightarrow> u8 list \<Rightarrow> nat \<Rightarrow> nat \<Rightarrow> (int \<times> u8 list \<times> u32 option \<times> net) result" where
  "recv_front n i buf len addrlen =
     rbind (get_socket n i) (\<lambda>s.
       case m_pending_packets s of
         [] \<Rightarrow> Inl AssertionFailed
       | (packet, src) # rest \<Rightarrow>
           if len < length packet \<or> addrlen < 12 then Inr (- NET_E_TOO_BIG, buf, None, n)
           else rbind (memcpy buf packet (length packet)) (\<lambda>buf1.
                  Inr (int (length packet), buf1, Some (IPV4_to_u32 src),
                       n\<lparr>socket_at := (socket_at n)(i \<mapsto> s\<lparr>m_pending_packets := rest\<rparr>)\<rparr>)))"

definition IcmpSocket_recvfrom ::
  "(net \<Rightarrow> net result) \<Rightarrow> net \<Rightarrow> nat \<Rightarrow> u8 list \<Rightarrow> nat \<Rightarrow> nat \<Rightarrow> (int \<times> u8 list \<times> u32 option \<times> net) result" where
  "IcmpSocket_recvfrom others n i buf len addrlen =
     rbind (loop (recv_wait others n i)) (\<lambda>(ready, n1).
       if \<not> ready then Inr (- NET_E_TIMED_OUT, buf, None, n1)
       else recv_front n1 i buf len addrlen)"

section \<open>Receiving frames\<close>

definition IpV4_on_packet_received :: "net \<Rightarrow> u8 list \<Rightarrow> nat \<Rightarrow> net result" where
  "IpV4_on_packet_received n packet sz =
     rbind (IpV4Header_at packet) (\<lambda>raw.
       let header = IpV4Header_flip raw
       in if destination_address header \<noteq> m_our_ip n then Inr n
          else
            let header_size = unat (header_length_in_words header) * 4
            in if protocol header = PROTOCOL_ICMP
               then Icmp_on_packet_received n (drop header_size packet) (size_sub sz header_size)
                      (source_address header)
               else Inr n)"

definition handle_packet :: "net \<Rightarrow> u8 list \<Rightarrow> nat \<Rightarrow> net result" where
  "handle_packet n packet sz =
     (if sz < 14 then Inr n
      else
        rbind (EthernetHeader_at packet) (\<lambda>raw.
          let header = Ethernet_flip raw
          in if destination header \<noteq> m_our_mac n \<and> destination header \<noteq> BROADCAST_MAC then Inr n
             else if ethertype header = ETHERTYPE_ARP
             then on_arp_message_received n (drop 14 packet) (sz - 14)
             else if ethertype header = ETHERTYPE_IPV4
             then IpV4_on_packet_received n (drop 14 packet) (sz - 14)
             else Inr n))"

definition PendingRx_can_unblock :: "net \<Rightarrow> bool" where
  "PendingRx_can_unblock n \<longleftrightarrow> m_rx_queue n \<noteq> []"

text \<open>One turn of the receiving thread, after it has been let go on.\<close>

definition handle_received_packet :: "net \<Rightarrow> net result" where
  "handle_received_packet n =
     (case m_rx_queue n of
        [] \<Rightarrow> Inl AssertionFailed
      | packet # rest \<Rightarrow> handle_packet (n\<lparr>m_rx_queue := rest\<rparr>) packet (length packet))"

section \<open>Well-formed states\<close>

definition card_ok :: "card \<Rightarrow> bool" where
  "card_ok c \<longleftrightarrow> mac_ok (m_mac c) \<and> length (m_send_buffers c) = NUM_SEND_BUFFERS
     \<and> (\<forall>b \<in> set (m_send_buffers c). length b = PAGE_SIZE_nat)
     \<and> m_current_transmit_index c < NUM_SEND_BUFFERS
     \<and> length (m_recv_buffer c) = 3 * PAGE_SIZE_nat
     \<and> unat (m_recv_buffer_offset c) < 8192 \<and> 4 dvd unat (m_recv_buffer_offset c)"

definition net_ok :: "net \<Rightarrow> bool" where
  "net_ok n \<longleftrightarrow> card_ok (nic n) \<and> m_our_mac n = m_mac (nic n) \<and> ip_ok (m_our_ip n) \<and> ip_ok (m_gateway_ip n)
     \<and> distinct (m_sockets n) \<and> (\<forall>i \<in> set (m_sockets n). socket_at n i \<noteq> None)"

text \<open>The frame a payload travels in.\<close>

definition eth_frame :: "MAC \<Rightarrow> MAC \<Rightarrow> u16 \<Rightarrow> u8 list \<Rightarrow> u8 list" where
  "eth_frame dst src et payload =
     mac_data dst @ mac_data src @ le16 (to_flipped_endianness et) @ payload @ replicate (50 - length payload) 0"

lemma mac_list:
  assumes "mac_ok m"
  obtains a b c d e f where "m = \<lparr>mac_data = [a, b, c, d, e, f]\<rparr>"
proof -
  have "length (mac_data m) = Suc (Suc (Suc (Suc (Suc (Suc 0)))))" using assms by (simp add: mac_ok_def)
  then show thesis by (cases m) (auto simp: length_Suc_conv intro: that)
qed

lemma ip_list:
  assumes "ip_ok ip"
  obtains a b c d where "ip = \<lparr>ip_data = [a, b, c, d]\<rparr>"
proof -
  have "length (ip_data ip) = Suc (Suc (Suc (Suc 0)))" using assms by (simp add: ip_ok_def)
  then show thesis by (cases ip) (auto simp: length_Suc_conv intro: that)
qed

lemma broadcast_ok [simp]: "mac_ok BROADCAST_MAC"
  by (simp add: BROADCAST_MAC_def mac_ok_def)

lemma length_eth_frame [simp]:
  "mac_ok dst \<Longrightarrow> mac_ok src \<Longrightarrow> length (eth_frame dst src et p) = max 64 (14 + length p)"
  by (simp add: eth_frame_def mac_ok_def)

lemma Ethernet_build_ok:
  assumes "mac_ok dst" "mac_ok src"
  shows "\<exists>v. Ethernet_build dst src et p (length p) = Inr v \<and> vec_list v = eth_frame dst src et p
    \<and> m_size v = length (eth_frame dst src et p)"
proof -
  let ?h = "EthernetHeader_bytes (Ethernet_flip \<lparr>destination = dst, source = src, ethertype = et\<rparr>)"
  let ?n = "max 64 (14 + length p)" and ?pad = "50 - length p"
  have h: "length ?h = 14" and frame: "eth_frame dst src et p = ?h @ p @ replicate ?pad 0"
    using assms by (simp_all add: EthernetHeader_bytes_def Ethernet_flip_def mac_ok_def eth_frame_def)
  define data :: "u8 vec" where "data = vec_set_size (vec_with_capacity ?n) ?n"
  have cells: "m_data data = replicate ?n None" "m_size data = ?n"
    by (simp_all add: data_def vec_set_size_def vec_with_capacity_def Let_def)
  have n: "(if 14 + length p < 64 then 64 else 14 + length p) = ?n"
    "(if 14 + length p < 64 then 64 - (14 + length p) else 0) = ?pad" by auto
  let ?v = "data\<lparr>m_data := map Some (?h @ p @ replicate ?pad 0)\<rparr>"
  have "Ethernet_build dst src et p (length p) = Inr ?v"
    unfolding Ethernet_build_def n Let_def data_def [symmetric]
    using h by (simp add: memcpy_eq memset_eq cells) (auto simp: max_def)
  moreover have "vec_list ?v = eth_frame dst src et p"
    unfolding vec_list_def frame using h by (simp add: cells)
  ultimately show ?thesis using assms cells by auto
qed

lemma RTL8139_transmit_ok:
  assumes "card_ok c" "k \<le> length data" "k \<le> PAGE_SIZE_nat"
  shows "\<exists>bufs i. RTL8139_transmit c data k =
      Inr (c\<lparr>m_send_buffers := bufs, wire := wire c @ [take k data], m_current_transmit_index := i\<rparr>)
    \<and> card_ok (c\<lparr>m_send_buffers := bufs, wire := wire c @ [take k data], m_current_transmit_index := i\<rparr>)"
proof -
  let ?i = "m_current_transmit_index c"
  let ?buf = "take k data @ drop k (m_send_buffers c ! ?i)"
  have i: "?i < length (m_send_buffers c)" and len: "length (m_send_buffers c ! ?i) = PAGE_SIZE_nat"
    using assms(1) by (auto simp: card_ok_def)
  have "RTL8139_transmit c data k = Inr (c\<lparr>m_send_buffers := (m_send_buffers c)[?i := ?buf],
      wire := wire c @ [take k data], m_current_transmit_index := (?i + 1) mod NUM_SEND_BUFFERS\<rparr>)"
    using assms i len by (simp add: RTL8139_transmit_def card_ok_def memcpy_eq)
  moreover have "card_ok (c\<lparr>m_send_buffers := (m_send_buffers c)[?i := ?buf],
      wire := wire c @ [take k data], m_current_transmit_index := (?i + 1) mod NUM_SEND_BUFFERS\<rparr>)"
    using assms i len by (auto simp: card_ok_def dest!: set_update_subset_insert [THEN subsetD])
  ultimately show ?thesis by blast
qed

text \<open>A card after it has sent one frame: only its transmit ring and the wire have changed.\<close>

definition sent :: "card \<Rightarrow> u8 list \<Rightarrow> card \<Rightarrow> bool" where
  "sent c f c' \<longleftrightarrow> card_ok c' \<and> wire c' = wire c @ [f] \<and> m_mac c' = m_mac c
     \<and> m_recv_buffer c' = m_recv_buffer c \<and> m_recv_buffer_offset c' = m_recv_buffer_offset c"

lemma Ethernet_send_ok:
  assumes "card_ok (nic n)" "mac_ok dst" "mac_ok src" "length p \<le> 4082"
  shows "\<exists>c. Ethernet_send n dst src et p (length p) = Inr (n\<lparr>nic := c\<rparr>) \<and> sent (nic n) (eth_frame dst src et p) c"
proof -
  obtain v where v: "Ethernet_build dst src et p (length p) = Inr v" "vec_list v = eth_frame dst src et p"
    "m_size v = length (eth_frame dst src et p)" using Ethernet_build_ok [OF assms(2,3)] by blast
  have "length (eth_frame dst src et p) \<le> PAGE_SIZE_nat" using assms by simp
  from RTL8139_transmit_ok [OF assms(1) order_refl this] v show ?thesis
    by (auto simp: Ethernet_send_def sent_def simp del: length_eth_frame)
qed

section \<open>Headers survive the wire\<close>

lemma of_le16_le16_Suc [simp]:
  "of_le16 (ucast w) (ucast (drop_bit (Suc (Suc (Suc (Suc (Suc (Suc (Suc (Suc 0)))))))) w)) = w"
  using of_le16_le16 [of w] by (simp add: numeral_eq_Suc del: of_le16_le16)

lemma eth_header_at:
  assumes "mac_ok dst" "mac_ok src"
  shows "EthernetHeader_at (eth_frame dst src et p) =
    Inr (Ethernet_flip \<lparr>destination = dst, source = src, ethertype = et\<rparr>)"
  using assms by (elim mac_list)
    (simp add: EthernetHeader_at_def eth_frame_def le16_def Ethernet_flip_def chunk_def numeral_eq_Suc)

lemma drop_eth_frame:
  "mac_ok dst \<Longrightarrow> mac_ok src \<Longrightarrow> drop 14 (eth_frame dst src et p) = p @ replicate (50 - length p) 0"
  by (simp add: eth_frame_def mac_ok_def)

lemma handle_frame:
  assumes "mac_ok dst" "mac_ok src"
  shows "handle_packet n (eth_frame dst src et p) (length (eth_frame dst src et p)) =
    (let body = p @ replicate (50 - length p) 0
     in if dst \<noteq> m_our_mac n \<and> dst \<noteq> BROADCAST_MAC then Inr n
        else if et = ETHERTYPE_ARP then on_arp_message_received n body (length body)
        else if et = ETHERTYPE_IPV4 then IpV4_on_packet_received n body (length body)
        else Inr n)"
proof -
  have len: "length (eth_frame dst src et p) = 14 + length (p @ replicate (50 - length p) 0)"
    using assms by simp
  show ?thesis
    unfolding handle_packet_def len eth_header_at [OF assms] drop_eth_frame [OF assms]
    by (simp add: Ethernet_flip_def Let_def)
qed

definition arp_ok :: "ArpMessage \<Rightarrow> bool" where
  "arp_ok m \<longleftrightarrow> mac_ok (sender_mac m) \<and> ip_ok (sender_ip_address m) \<and> mac_ok (target_mac m)
     \<and> ip_ok (target_ip_address m)"

lemma length_arp_bytes: "arp_ok m \<Longrightarrow> length (ArpMessage_bytes m) = 28"
  by (simp add: ArpMessage_bytes_def arp_ok_def mac_ok_def ip_ok_def)

lemma arp_message_at: "arp_ok m \<Longrightarrow> ArpMessage_at (ArpMessage_bytes m @ rest) = Inr m"
  unfolding arp_ok_def
  by (elim conjE mac_list ip_list, cases m)
    (simp add: ArpMessage_at_def ArpMessage_bytes_def le16_def chunk_def numeral_eq_Suc)

lemma arp_flip [simp]: "ArpMessage_flip (ArpMessage_flip m) = m" "arp_ok (ArpMessage_flip m) = arp_ok m"
  by (simp_all add: ArpMessage_flip_def arp_ok_def)

lemma arp_flip_sel [simp]:
  "opcode (ArpMessage_flip m) = to_flipped_endianness (opcode m)"
  "sender_mac (ArpMessage_flip m) = sender_mac m" "target_mac (ArpMessage_flip m) = target_mac m"
  "sender_ip_address (ArpMessage_flip m) = sender_ip_address m"
  "target_ip_address (ArpMessage_flip m) = target_ip_address m"
  by (simp_all add: ArpMessage_flip_def)

text \<open>What the receiver of a frame that carries an ARP message does with it.\<close>

lemma handle_arp_frame:
  assumes "mac_ok dst" "mac_ok src" "arp_ok m" "dst = m_our_mac n \<or> dst = BROADCAST_MAC"
  shows "handle_packet n (eth_frame dst src ETHERTYPE_ARP (ArpMessage_bytes (ArpMessage_flip m)))
      (length (eth_frame dst src ETHERTYPE_ARP (ArpMessage_bytes (ArpMessage_flip m)))) =
    rbind (if opcode m = ARP_Request \<and> target_ip_address m = m_our_ip n
           then send_arp_response n (sender_mac m) (m_gateway_ip n) else Inr n) (\<lambda>n1.
      if opcode m \<noteq> ARP_Response then Inr n1
      else Inr (n1\<lparr>m_arp_blockers := map (set_answer m) (m_arp_blockers n1)\<rparr>))"
proof -
  have ok: "arp_ok (ArpMessage_flip m)" using assms(3) by simp
  show ?thesis
    unfolding handle_frame [OF assms(1,2)] Let_def on_arp_message_received_def arp_message_at [OF ok]
    using assms(4) length_arp_bytes [OF ok] by auto
qed

lemma send_arp_response_ok:
  assumes "net_ok n" "mac_ok m" "ip_ok ip"
  shows "\<exists>c. send_arp_response n m ip = Inr (n\<lparr>nic := c\<rparr>) \<and> sent (nic n)
    (eth_frame m (m_mac (nic n)) ETHERTYPE_ARP (ArpMessage_bytes (ArpMessage_flip
       \<lparr>hardware_type = 1, protocol_type = 0x0800, hardware_size = 6, protocol_size = 4,
        opcode = ARP_Response, sender_mac = m_mac (nic n), sender_ip_address = m_our_ip n,
        target_mac = m, target_ip_address = ip\<rparr>))) c"
proof -
  let ?m = "ArpMessage_flip \<lparr>hardware_type = 1, protocol_type = 0x0800, hardware_size = 6, protocol_size = 4,
        opcode = ARP_Response, sender_mac = m_mac (nic n), sender_ip_address = m_our_ip n,
        target_mac = m, target_ip_address = ip\<rparr>"
  have "arp_ok ?m" using assms by (simp add: arp_ok_def net_ok_def card_ok_def)
  note len = length_arp_bytes [OF this]
  have "card_ok (nic n)" "mac_ok (m_mac (nic n))" using assms(1) by (simp_all add: net_ok_def card_ok_def)
  from Ethernet_send_ok [OF this(1) assms(2) this(2), of "ArpMessage_bytes ?m" ETHERTYPE_ARP] len show ?thesis
    by (simp add: send_arp_response_def Let_def)
qed

lemma sent_net_ok: "net_ok n \<Longrightarrow> sent (nic n) f c \<Longrightarrow> net_ok (n\<lparr>nic := c\<rparr>)"
  by (simp add: net_ok_def sent_def)

section \<open>Resolving an address\<close>

text \<open>
  One exchange on the wire: host \<open>b\<close> handles the last frame \<open>a\<close> has sent, then \<open>a\<close> handles
  the last frame \<open>b\<close> has sent.
\<close>

definition exchange :: "net \<Rightarrow> net \<Rightarrow> net result" where
  "exchange b a =
     (let f = last (wire (nic a))
      in rbind (handle_packet b f (length f)) (\<lambda>b1.
           let g = last (wire (nic b1)) in handle_packet a g (length g)))"

lemma send_arp_request_ok:
  assumes a: "net_ok a" and b: "net_ok b" and target: "m_our_ip b = ip"
  shows "\<exists>a'. send_arp_request (exchange b) a ip (m_our_ip a) = Inr (Some (m_our_mac b), a') \<and> net_ok a'
    \<and> arp_cache a' = arp_cache a"
proof -
  define req where "req = \<lparr>hardware_type = 1, protocol_type = 0x0800, hardware_size = 6, protocol_size = 4,
      opcode = ARP_Request, sender_mac = m_mac (nic a), sender_ip_address = m_our_ip a,
      target_mac = BROADCAST_MAC, target_ip_address = ip\<rparr>"
  define res where "res = \<lparr>hardware_type = 1, protocol_type = 0x0800, hardware_size = 6, protocol_size = 4,
      opcode = ARP_Response, sender_mac = m_mac (nic b), sender_ip_address = m_our_ip b,
      target_mac = m_mac (nic a), target_ip_address = m_gateway_ip b\<rparr>"
  let ?new = "PendingRequestBlocker_new (clock_ms a) ip 5000"
  let ?a1 = "a\<lparr>m_arp_blockers := m_arp_blockers a @ [?new]\<rparr>"
  have macs: "mac_ok (m_mac (nic a))" "mac_ok (m_mac (nic b))"
    using a b by (simp_all add: net_ok_def card_ok_def)
  have oks: "arp_ok req" "arp_ok res"
    using a b target macs by (simp_all add: req_def res_def arp_ok_def net_ok_def)
  let ?f = "eth_frame BROADCAST_MAC (m_mac (nic a)) ETHERTYPE_ARP (ArpMessage_bytes (ArpMessage_flip req))"
  let ?g = "eth_frame (m_mac (nic a)) (m_mac (nic b)) ETHERTYPE_ARP (ArpMessage_bytes (ArpMessage_flip res))"
  have len: "length (ArpMessage_bytes (ArpMessage_flip req)) = 28" using length_arp_bytes oks(1) by simp
  obtain c where c: "Ethernet_send ?a1 BROADCAST_MAC (m_mac (nic a)) ETHERTYPE_ARP
      (ArpMessage_bytes (ArpMessage_flip req)) 28 = Inr (?a1\<lparr>nic := c\<rparr>)" "sent (nic a) ?f c"
    using Ethernet_send_ok [of ?a1 BROADCAST_MAC "m_mac (nic a)" "ArpMessage_bytes (ArpMessage_flip req)"
      ETHERTYPE_ARP] a macs len by (auto simp: net_ok_def)
  obtain d where d: "send_arp_response b (m_mac (nic a)) (m_gateway_ip b) = Inr (b\<lparr>nic := d\<rparr>)"
    "sent (nic b) ?g d"
    using send_arp_response_ok [OF b macs(1)] b unfolding res_def net_ok_def by blast
  let ?a2 = "?a1\<lparr>nic := c\<rparr>"
  let ?a3 = "?a2\<lparr>m_arp_blockers := map (set_answer res) (m_arp_blockers ?a2)\<rparr>"
  have wires: "last (wire c) = ?f" "last (wire d) = ?g" using c(2) d(2) by (simp_all add: sent_def)
  have "handle_packet b ?f (length ?f) = Inr (b\<lparr>nic := d\<rparr>)"
    using handle_arp_frame [OF broadcast_ok macs(1) oks(1), of b] d(1) target by (simp add: req_def)
  moreover have "handle_packet ?a2 ?g (length ?g) = Inr ?a3"
    using handle_arp_frame [OF macs oks(2), of ?a2] a by (simp add: res_def net_ok_def)
  ultimately have ex: "exchange b ?a2 = Inr ?a3"
    using wires by (simp add: exchange_def Let_def)
  have sel: "target_mac req = BROADCAST_MAC" "sender_mac req = m_mac (nic a)" by (simp_all add: req_def)
  have "m_arp_blockers ?a3 ! length (m_arp_blockers a) = ?new\<lparr>m_answer := m_our_mac b, m_has_answer := True\<rparr>"
    using b target by (simp add: nth_append set_answer_def PendingRequestBlocker_new_def res_def net_ok_def)
  moreover have "length (m_arp_blockers a) < length (m_arp_blockers ?a3)" by simp
  ultimately have "send_arp_request (exchange b) a ip (m_our_ip a) = Inr (Some (m_our_mac b), ?a3)"
    unfolding send_arp_request_def req_def [symmetric] Let_def arp_flip_sel sel c(1) rbind_Inr ex by simp
  moreover have "net_ok ?a3" using sent_net_ok [OF a c(2)] by (simp add: net_ok_def)
  ultimately show ?thesis by auto
qed

lemma find_cached_append:
  "find_cached es ip = None \<Longrightarrow> find_cached (es @ [(ip, m)]) ip = Some m"
  by (induction es ip rule: find_cached.induct) auto

section \<open>Handling any frame\<close>

text \<open>What becomes of a socket that a packet is offered to.\<close>

definition delivered :: "u8 list \<Rightarrow> nat \<Rightarrow> IPV4 \<Rightarrow> icmp_socket \<Rightarrow> icmp_socket" where
  "delivered packet sz src s =
     (if src = m_destination s \<and> packet ! 0 = ICMP_Reply \<and> of_le16 (packet ! 4) (packet ! 5) = ucast (m_id s)
      then s\<lparr>m_pending_packets := m_pending_packets s @ [(take sz packet, src)]\<rparr> else s)"

lemma deliver_ok:
  assumes "set is \<subseteq> {i. socket_at n i \<noteq> None}" "distinct is" "8 \<le> sz" "sz \<le> length packet"
  shows "\<exists>f. deliver n is packet sz src = Inr (n\<lparr>socket_at := f\<rparr>)
    \<and> (\<forall>i. f i = (if i \<in> set is then map_option (delivered packet sz src) (socket_at n i) else socket_at n i))"
  using assms
proof (induction "is" arbitrary: n)
  case Nil
  then show ?case by (intro exI [of _ "socket_at n"]) simp
next
  case (Cons i "is")
  obtain s where s: "socket_at n i = Some s" using Cons.prems(1) by auto
  obtain v where v: "vec_of_data 1 packet sz = Inr v" "vec_list v = take sz packet"
    using vec_of_data_ok [OF Cons.prems(4)] by blast
  define n1 where "n1 = n\<lparr>socket_at := (socket_at n)(i \<mapsto> delivered packet sz src s)\<rparr>"
  have same: "n\<lparr>socket_at := (socket_at n)(i \<mapsto> s)\<rparr> = n" using s by (simp add: fun_upd_idem)
  have step: "deliver n (i # is) packet sz src = deliver n1 is packet sz src"
    using s v Cons.prems(3,4) same
    by (auto simp: get_socket_def n1_def on_received_def delivered_def is_packet_relevant_def IcmpEchoHeader_at_def)
  have "set is \<subseteq> {i. socket_at n1 i \<noteq> None}" "distinct is" using Cons.prems by (auto simp: n1_def)
  from Cons.IH [OF this Cons.prems(3,4)] obtain f where f: "deliver n1 is packet sz src = Inr (n1\<lparr>socket_at := f\<rparr>)"
    "\<And>j. f j = (if j \<in> set is then map_option (delivered packet sz src) (socket_at n1 j) else socket_at n1 j)"
    by blast
  have "n1\<lparr>socket_at := f\<rparr> = n\<lparr>socket_at := f\<rparr>" by (simp add: n1_def)
  moreover have "f j = (if j \<in> set (i # is) then map_option (delivered packet sz src) (socket_at n j)
      else socket_at n j)" for j
    using f(2) [of j] Cons.prems(2) s by (cases "j = i") (simp_all add: n1_def)
  ultimately show ?case using step f(1) by metis
qed

lemma le16_flipped: "le16 (to_flipped_endianness (of_le16 a b)) = [b, a]"
proof -
  have "ucast (to_flipped_endianness (of_le16 a b)) = b" "ucast (drop_bit 8 (to_flipped_endianness (of_le16 a b))) = a"
    by (rule bit_word_eqI, auto simp: to_flipped_endianness_def of_le16_def word_and_0xFF bit_simps
        dest: bit_imp_le_length)+
  then show ?thesis by (simp add: le16_def)
qed

lemma list_8:
  assumes "8 \<le> length xs"
  obtains a b c d e f g h rest where "xs = a # b # c # d # e # f # g # h # rest"
proof -
  have "\<exists>a b c d e f g h rest. xs = a # b # c # d # e # f # g # h # rest"
    using assms by (auto simp: numeral_eq_Suc Suc_le_length_iff)
  then show thesis using that by blast
qed

text \<open>The two 16-bit fields that the receiver puts into its own byte order.\<close>

definition host_order :: "u8 list \<Rightarrow> u8 list" where
  "host_order packet = take 4 packet @ [packet ! 5, packet ! 4, packet ! 7, packet ! 6] @ drop 8 packet"

lemma flip_in_place_ok:
  assumes "8 \<le> length packet"
  shows "flip_in_place packet = Inr (host_order packet)"
proof -
  obtain a b c d e f g h rest where p: "packet = a # b # c # d # e # f # g # h # rest"
    using list_8 [OF assms] .
  have "le16 (of_le16 c d) = [c, d]"
    by (simp add: le16_def of_le16_def, intro conjI; rule bit_word_eqI;
        auto simp: bit_simps dest: bit_imp_le_length)
  then show ?thesis
    by (simp add: p flip_in_place_def IcmpEchoHeader_at_def IcmpEchoHeader_bytes_def IcmpEchoHeader_flip_def
        le16_flipped blit_def host_order_def numeral_eq_Suc)
qed

lemma length_host_order [simp]: "8 \<le> length packet \<Longrightarrow> length (host_order packet) = length packet"
  by (simp add: host_order_def)

lemma Icmp_on_packet_received_ok:
  assumes "net_ok n" "8 \<le> sz" "sz \<le> length packet"
  shows "\<exists>f. Icmp_on_packet_received n packet sz src = Inr (n\<lparr>socket_at := f\<rparr>)
    \<and> (\<forall>i. f i = (if i \<in> set (m_sockets n)
          then map_option (delivered (host_order packet) sz src) (socket_at n i) else socket_at n i))"
proof -
  have "8 \<le> length packet" using assms(2,3) by linarith
  then show ?thesis
    using deliver_ok [of "m_sockets n" n sz "host_order packet" src] assms
    by (simp add: Icmp_on_packet_received_def flip_in_place_ok net_ok_def subset_iff)
qed

lemma Icmp_on_packet_received_net_ok:
  assumes "net_ok n" "sz \<le> length packet"
  shows "\<exists>n'. Icmp_on_packet_received n packet sz src = Inr n' \<and> net_ok n'"
proof (cases "sz < 8")
  case True
  then show ?thesis using assms by (simp add: Icmp_on_packet_received_def)
next
  case False
  then show ?thesis
    using Icmp_on_packet_received_ok [OF assms(1) _ assms(2), of src] assms(1) by (auto simp: net_ok_def)
qed

lemma IpV4_on_packet_received_ok:
  assumes "net_ok n" "20 \<le> length packet" "unat (packet ! 0 AND 0x0F) * 4 \<le> length packet"
  shows "\<exists>n'. IpV4_on_packet_received n packet (length packet) = Inr n' \<and> net_ok n'"
proof -
  let ?hs = "unat (packet ! 0 AND 0x0F) * 4"
  have "size_sub (length packet) ?hs \<le> length (drop ?hs packet)" using assms(3) by simp
  then show ?thesis
    using assms(1,2) Icmp_on_packet_received_net_ok [OF assms(1)]
    by (simp add: IpV4_on_packet_received_def IpV4Header_at_def IpV4Header_flip_def Let_def)
qed

lemma on_arp_message_received_ok:
  assumes "net_ok n"
  shows "\<exists>n'. on_arp_message_received n msg (length msg) = Inr n' \<and> net_ok n'"
proof (cases "length msg < 28")
  case True
  then show ?thesis using assms by (simp add: on_arp_message_received_def)
next
  case False
  then obtain raw where raw: "ArpMessage_at msg = Inr raw" "mac_ok (sender_mac raw)"
    by (simp add: ArpMessage_at_def mac_ok_def)
  obtain c f where c: "send_arp_response n (sender_mac raw) (m_gateway_ip n) = Inr (n\<lparr>nic := c\<rparr>)" "sent (nic n) f c"
    using send_arp_response_ok [OF assms raw(2), of "m_gateway_ip n"] assms by (auto simp: net_ok_def)
  have "net_ok (n\<lparr>nic := c\<rparr>)" using sent_net_ok [OF assms c(2)] .
  moreover have "net_ok (m\<lparr>m_arp_blockers := bs\<rparr>) = net_ok m" for m bs by (simp add: net_ok_def)
  ultimately show ?thesis
    using False raw(1) c(1) assms by (simp add: on_arp_message_received_def Let_def)
qed

section \<open>Sending packets\<close>

lemma length_ip_header: "ip_ok (source_address h) \<Longrightarrow> ip_ok (destination_address h) \<Longrightarrow>
    length (IpV4Header_bytes h) = 20"
  by (simp add: IpV4Header_bytes_def ip_ok_def)

lemma IpV4_packet_ok:
  assumes "ip_ok (m_our_ip n)" "ip_ok dst"
  shows "\<exists>c. let h = IpV4Header_flip
            \<lparr>header_length_in_words = 5, ip_version = 4, dscp_ecn = 0,
             total_length = word_of_nat (20 + length payload), ip_id = ipv4_id n,
             flags_and_fragment_offset = push_bit 13 2, ttl = 64, protocol = proto, header_checksum = 0,
             source_address = m_our_ip n, destination_address = dst\<rparr>
     in internet_checksum (IpV4Header_bytes h) 20 = Inr c
        \<and> IpV4_packet n dst proto payload (length payload) = Inr (IpV4Header_bytes (h\<lparr>header_checksum := c\<rparr>) @ payload)"
proof -
  define h where "h = IpV4Header_flip
            \<lparr>header_length_in_words = 5, ip_version = 4, dscp_ecn = 0,
             total_length = word_of_nat (20 + length payload), ip_id = ipv4_id n,
             flags_and_fragment_offset = push_bit 13 2, ttl = 64, protocol = proto, header_checksum = 0,
             source_address = m_our_ip n, destination_address = dst\<rparr>"
  have sel: "source_address h = m_our_ip n" "destination_address h = dst"
    by (simp_all add: h_def IpV4Header_flip_def)
  then have len: "length (IpV4Header_bytes h) = 20" using assms by (simp add: length_ip_header)
  obtain c where c: "internet_checksum (IpV4Header_bytes h) 20 = Inr c"
    using internet_checksum_value [of "IpV4Header_bytes h"] len by auto
  have "internet_checksum (IpV4Header_bytes h @ payload) 20 = Inr c"
    using c len by (simp add: internet_checksum_def)
  moreover have "blit 10 (le16 c) (IpV4Header_bytes h @ payload) = IpV4Header_bytes (h\<lparr>header_checksum := c\<rparr>) @ payload"
    using sel assms by (simp add: blit_def IpV4Header_bytes_def ip_ok_def le16_def numeral_eq_Suc)
  ultimately have "IpV4_packet n dst proto payload (length payload) =
      Inr (IpV4Header_bytes (h\<lparr>header_checksum := c\<rparr>) @ payload)"
    unfolding IpV4_packet_def h_def [symmetric] Let_def by (simp add: memcpy_eq del: rbind_Inr_iff)
  then show ?thesis using c unfolding Let_def h_def [symmetric] by blast
qed

lemma ip_header_at:
  assumes "ip_ok (source_address h)" "ip_ok (destination_address h)"
    "header_length_in_words h = 5" "ip_version h = 4"
  shows "IpV4Header_at (IpV4Header_bytes h @ rest) = Inr h"
  using assms by (elim ip_list, cases h)
    (simp add: IpV4Header_at_def IpV4Header_bytes_def le16_def chunk_def)

lemma ip_header_checksum:
  assumes "ip_ok (source_address h)" "ip_ok (destination_address h)" "header_checksum h = 0"
    "internet_checksum (IpV4Header_bytes h) 20 = Inr c"
  shows "internet_checksum (IpV4Header_bytes (h\<lparr>header_checksum := c\<rparr>)) 20 = Inr 0"
proof -
  let ?b = "IpV4Header_bytes h"
  have len: "length ?b = 20" using assms length_ip_header by blast
  have zero: "chunk 10 2 ?b = [0, 0]"
    using assms(3) by (simp add: chunk_def IpV4Header_bytes_def le16_def numeral_eq_Suc)
  have new: "blit 10 (le16 c) ?b = IpV4Header_bytes (h\<lparr>header_checksum := c\<rparr>)"
    using assms(1,2) by (simp add: blit_def IpV4Header_bytes_def ip_ok_def le16_def numeral_eq_Suc)
  have "unat c = 65535 - ones_sum (sum_list (words16 ?b))"
    using internet_checksum_value [of ?b] assms(4) len by auto
  then have "ones_sum (sum_list (words16 (blit 10 (le16 c) ?b))) = 65535"
    using sum_words16_field [of 10 ?b c] zero len ones_sum_complement by simp
  then show ?thesis
    using internet_checksum_value [of "blit 10 (le16 c) ?b"] len unfolding new
    by (auto simp: unat_eq_0 length_ip_header assms(1,2))
qed

section \<open>The receive ring\<close>

lemma next_recv_offset_ok:
  "unat (next_recv_offset off len) < 8192 \<and> 4 dvd unat (next_recv_offset off len)"
proof -
  let ?x = "((unat off + unat len + 4 + 3) div 4) * 4"
  have lt: "?x mod 8192 < 8192" by (rule mod_less_divisor) simp
  then have "unat (next_recv_offset off len) = ?x mod 8192"
    unfolding next_recv_offset_def by (subst unat_of_nat) (simp add: less_trans [OF lt])
  moreover have "4 dvd ?x mod 8192" by (rule dvd_mod) simp_all
  ultimately show ?thesis using lt by simp
qed

lemma recv_packet_ok:
  fixes n :: net
  defines "c \<equiv> nic n"
  defines "off \<equiv> unat (m_recv_buffer_offset c)"
  defines "len \<equiv> of_le16 (m_recv_buffer c ! (off + 2)) (m_recv_buffer c ! (off + 3))"
  assumes ok: "net_ok n" and status: "m_recv_buffer c ! off AND 1 = 1"
    and len: "4 \<le> len" "off + unat len \<le> 3 * PAGE_SIZE_nat"
  shows "\<exists>n'. recv_packet n = Inr n' \<and> net_ok n'
    \<and> m_rx_queue n' = m_rx_queue n @ [chunk (off + 4) (unat len - 4) (m_recv_buffer c)]
    \<and> unat (m_recv_buffer_offset (nic n')) = ((off + unat len + 7) div 4 * 4) mod 8192"
proof -
  have buf: "length (m_recv_buffer c) = 3 * PAGE_SIZE_nat" "off < 8192"
    using ok by (simp_all add: net_ok_def card_ok_def c_def off_def)
  have bit: "of_le16 (m_recv_buffer c ! off) (m_recv_buffer c ! (off + 1)) AND 1 \<noteq> 0"
    using arg_cong [OF status, where f = "\<lambda>w. bit w 0"]
    by (subst and_1_neq_0_iff) (simp add: of_le16_def bit_simps)
  have sub: "unat (len - 4) = unat len - 4" using len(1) by (simp add: unat_sub)
  have le: "unat (len - 4) \<le> length (drop (off + 4) (m_recv_buffer c))"
    unfolding length_drop buf(1) sub using len(2) by linarith
  obtain v where v: "vec_of_data 1 (drop (off + 4) (m_recv_buffer c)) (unat (len - 4)) = Inr v"
    "vec_list v = chunk (off + 4) (unat len - 4) (m_recv_buffer c)"
    using vec_of_data_ok [OF le] by (auto simp: sub chunk_def)
  let ?n = "n\<lparr>m_rx_queue := m_rx_queue n @ [vec_list v],
      nic := c\<lparr>m_recv_buffer_offset := next_recv_offset (m_recv_buffer_offset c) len\<rparr>\<rparr>"
  have "read_u16 (m_recv_buffer c) off = Inr (of_le16 (m_recv_buffer c ! off) (m_recv_buffer c ! (off + 1)))"
    "read_u16 (m_recv_buffer c) (off + 2) = Inr len"
    using buf by (simp_all add: read_u16_def len_def numeral_3_eq_3)
  then have "recv_packet n = Inr ?n"
    unfolding recv_packet_def c_def [symmetric] off_def [symmetric] Let_def
    using bit v(1) by (simp add: NetworkManager_on_packet_received_def c_def del: rbind_Inr_iff)
  moreover have "net_ok ?n"
    using ok next_recv_offset_ok by (simp add: net_ok_def card_ok_def c_def)
  moreover have "unat (next_recv_offset (m_recv_buffer_offset c) len) = ((off + unat len + 7) div 4 * 4) mod 8192"
  proof -
    have "((off + unat len + 7) div 4 * 4) mod 8192 < 8192" by (rule mod_less_divisor) simp
    then show ?thesis
      unfolding next_recv_offset_def off_def [symmetric]
      by (subst unat_of_nat) (simp add: add.assoc)
  qed
  ultimately show ?thesis using v(2) by auto
qed

section \<open>Properties\<close>

text \<open>A machine as it starts, for the examples.\<close>

definition sample_net :: "u8 list \<Rightarrow> u8 list \<Rightarrow> net" where
  "sample_net mac ip =
     (NetworkManager_new
        \<lparr>m_mac = \<lparr>mac_data = mac\<rparr>, m_recv_buffer = replicate 12288 5, m_recv_buffer_offset = 0,
         m_send_buffers = replicate 4 (replicate 4096 0), m_current_transmit_index = 0, wire = []\<rparr>
        \<lparr>mac_data = mac\<rparr>)\<lparr>m_our_ip := \<lparr>ip_data = ip\<rparr>\<rparr>"

lemma sample_net_ok: "length mac = 6 \<Longrightarrow> length ip = 4 \<Longrightarrow> net_ok (sample_net mac ip)"
  by (simp add: sample_net_def NetworkManager_new_def net_ok_def card_ok_def mac_ok_def ip_ok_def)

text \<open>
  C24: address resolution between two machines. When \<open>a\<close> does not know the address, its
  broadcast request is answered by the machine \<open>b\<close> that owns it, \<open>a\<close> accepts the answer, the
  call returns the hardware address of \<open>b\<close> and the next lookup finds it in the cache.
\<close>

theorem arp_resolution:
  assumes "net_ok a" "net_ok b" "m_our_ip b = ip" "find_cached (arp_cache a) ip = None"
  shows "\<exists>a'. resolve_arp (exchange b) a ip = Inr (Some (m_our_mac b), a') \<and> net_ok a'
    \<and> (\<forall>others. resolve_arp others a' ip = Inr (Some (m_our_mac b), a'))"
proof -
  obtain a1 where a1: "send_arp_request (exchange b) a ip (m_our_ip a) = Inr (Some (m_our_mac b), a1)"
    "net_ok a1" "arp_cache a1 = arp_cache a" using send_arp_request_ok [OF assms(1-3)] by blast
  let ?a = "a1\<lparr>arp_cache := arp_cache a1 @ [(ip, m_our_mac b)]\<rparr>"
  have "resolve_arp (exchange b) a ip = Inr (Some (m_our_mac b), ?a)"
    using a1(1) assms(4) by (simp add: resolve_arp_def)
  moreover have "net_ok ?a" using a1(2) by (simp add: net_ok_def)
  moreover have "resolve_arp others ?a ip = Inr (Some (m_our_mac b), ?a)" for others
    using assms(4) a1(3) by (simp add: resolve_arp_def find_cached_append)
  ultimately show ?thesis by blast
qed

theorem arp_resolution_witness:
  "\<exists>a'. resolve_arp (exchange (sample_net [1, 2, 3, 4, 5, 6] [10, 0, 0, 1]))
      (sample_net [6, 5, 4, 3, 2, 1] [10, 0, 0, 2]) \<lparr>ip_data = [10, 0, 0, 1]\<rparr>
    = Inr (Some \<lparr>mac_data = [1, 2, 3, 4, 5, 6]\<rparr>, a')"
  using arp_resolution [OF sample_net_ok sample_net_ok, of "[6, 5, 4, 3, 2, 1]" "[10, 0, 0, 2]"
      "[1, 2, 3, 4, 5, 6]" "[10, 0, 0, 1]" "\<lparr>ip_data = [10, 0, 0, 1]\<rparr>"]
  by (auto simp: sample_net_def NetworkManager_new_def)

text \<open>
  C26: handling a received frame never faults and keeps the state well formed, for every frame
  that is not an IPv4 packet and for every IPv4 packet whose header is complete: the code
  checks the length of Ethernet, ARP and ICMP headers but not that of the IPv4 header.
\<close>

theorem handle_packet_safe:
  assumes "net_ok n"
    and "\<lbrakk>14 \<le> length f; chunk 12 2 f = [0x08, 0x00]\<rbrakk>
      \<Longrightarrow> 34 \<le> length f \<and> 14 + unat (f ! 14 AND 0x0F) * 4 \<le> length f"
  shows "\<exists>n'. handle_packet n f (length f) = Inr n' \<and> net_ok n'"
proof (cases "length f < 14")
  case True
  then show ?thesis using assms by (simp add: handle_packet_def)
next
  case False
  define et where "et = to_flipped_endianness (of_le16 (f ! 12) (f ! 13))"
  have body: "length (drop 14 f) = length f - 14" by simp
  have ip: "\<exists>n'. IpV4_on_packet_received n (drop 14 f) (length f - 14) = Inr n' \<and> net_ok n'"
    if "et = ETHERTYPE_IPV4"
  proof -
    have "le16 et = [f ! 13, f ! 12]" unfolding et_def by (rule le16_flipped)
    then have "f ! 12 = 0x08" "f ! 13 = 0x00" using that by (simp_all add: le16_def)
    moreover have "chunk 12 2 f = [f ! 12, f ! 13]"
      using False by (simp add: chunk_def Cons_nth_drop_Suc [symmetric] numeral_2_eq_2)
    ultimately have "20 \<le> length (drop 14 f)" "unat (drop 14 f ! 0 AND 0x0F) * 4 \<le> length (drop 14 f)"
      using assms(2) False by auto
    from IpV4_on_packet_received_ok [OF assms(1) this] show ?thesis by simp
  qed
  show ?thesis
    using False ip on_arp_message_received_ok [OF assms(1), of "drop 14 f"] assms(1)
    by (auto simp: handle_packet_def EthernetHeader_at_def Ethernet_flip_def Let_def et_def)
qed

theorem handle_packet_safe_witness:
  "\<exists>n'. handle_packet (sample_net [1, 2, 3, 4, 5, 6] [10, 0, 0, 1]) [1, 2, 3] 3 = Inr n'"
  using handle_packet_safe [OF sample_net_ok, of "[1, 2, 3, 4, 5, 6]" "[10, 0, 0, 1]" "[1, 2, 3]"]
  by (auto simp: numeral_eq_Suc)

text \<open>
  C25: the packet that \<^verbatim>\<open>IpV4::send\<close> builds, and hands to the Ethernet layer once the gateway's address is
  known, is valid: its header checksum verifies, and a machine whose address is the destination takes it and gives
  ICMP the payload with the sender's address. The receiver does not look at the total length of the header: when
  something trails the packet in the frame, ICMP gets it behind the payload and with the longer length. Any
  other machine drops the packet.
\<close>

theorem ipv4_packet_valid:
  assumes "net_ok a" "ip_ok dst"
  shows "\<exists>p. IpV4_packet a dst PROTOCOL_ICMP payload (length payload) = Inr p
    \<and> length p = 20 + length payload \<and> internet_checksum p 20 = Inr 0
    \<and> (\<forall>others. IpV4_send others a dst PROTOCOL_ICMP payload (length payload) =
         rbind (resolve_arp others (a\<lparr>ipv4_id := ipv4_id a + 1\<rparr>) (m_gateway_ip a)) (\<lambda>(r, a1).
           case r of None \<Rightarrow> Inr a1
                   | Some mac \<Rightarrow> Ethernet_send a1 mac (m_our_mac a1) ETHERTYPE_IPV4 p (length p)))
    \<and> (\<forall>b trailer. IpV4_on_packet_received b (p @ trailer) (length (p @ trailer)) =
         (if m_our_ip b = dst
          then Icmp_on_packet_received b (payload @ trailer) (length (payload @ trailer)) (m_our_ip a)
          else Inr b))"
proof -
  have ips: "ip_ok (m_our_ip a)" using assms(1) by (simp add: net_ok_def)
  define h where "h = IpV4Header_flip
            \<lparr>header_length_in_words = 5, ip_version = 4, dscp_ecn = 0,
             total_length = word_of_nat (20 + length payload), ip_id = ipv4_id a,
             flags_and_fragment_offset = push_bit 13 2, ttl = 64, protocol = PROTOCOL_ICMP, header_checksum = 0,
             source_address = m_our_ip a, destination_address = dst\<rparr>"
  obtain c where c: "internet_checksum (IpV4Header_bytes h) 20 = Inr c"
    "IpV4_packet a dst PROTOCOL_ICMP payload (length payload) = Inr (IpV4Header_bytes (h\<lparr>header_checksum := c\<rparr>) @ payload)"
    using IpV4_packet_ok [OF ips assms(2), of payload PROTOCOL_ICMP] unfolding Let_def h_def by blast
  have sel: "source_address h = m_our_ip a" "destination_address h = dst" "header_checksum h = 0"
    "header_length_in_words h = 5" "ip_version h = 4" "protocol h = PROTOCOL_ICMP"
    by (simp_all add: h_def IpV4Header_flip_def)
  let ?h = "h\<lparr>header_checksum := c\<rparr>"
  let ?p = "IpV4Header_bytes ?h @ payload"
  have len: "length (IpV4Header_bytes ?h) = 20" using ips assms(2) sel by (simp add: length_ip_header)
  have "internet_checksum (IpV4Header_bytes ?h) 20 = Inr 0"
    using ip_header_checksum [of h c] ips assms(2) sel c(1) by simp
  then have sum: "internet_checksum ?p 20 = Inr 0" using len by (simp add: internet_checksum_def)
  have at: "IpV4Header_at (IpV4Header_bytes ?h @ r) = Inr ?h" for r
    using ip_header_at [of ?h] ips assms(2) sel by simp
  have "IpV4_on_packet_received b (?p @ trailer) (length (?p @ trailer)) =
      (if m_our_ip b = dst
       then Icmp_on_packet_received b (payload @ trailer) (length (payload @ trailer)) (m_our_ip a)
       else Inr b)" for b trailer
    using at [of "payload @ trailer"] len sel
    by (auto simp: IpV4_on_packet_received_def IpV4Header_flip_def Let_def simp del: rbind_Inr_iff)
  moreover have "length ?p = 20 + length payload" using len by simp
  moreover have "IpV4_send others a dst PROTOCOL_ICMP payload (length payload) =
      rbind (resolve_arp others (a\<lparr>ipv4_id := ipv4_id a + 1\<rparr>) (m_gateway_ip a)) (\<lambda>(r, a1).
        case r of None \<Rightarrow> Inr a1
                | Some mac \<Rightarrow> Ethernet_send a1 mac (m_our_mac a1) ETHERTYPE_IPV4 ?p (length ?p))" for others
    unfolding IpV4_send_def c(2) by (simp del: rbind_Inr_iff)
  ultimately show ?thesis using c(2) sum by blast
qed

theorem ipv4_packet_valid_witness:
  "\<exists>p. IpV4_packet (sample_net [1, 2, 3, 4, 5, 6] [10, 0, 0, 1]) \<lparr>ip_data = [10, 0, 0, 2]\<rparr> 1 [7, 8, 9] 3 = Inr p
    \<and> length p = 23 \<and> internet_checksum p 20 = Inr 0"
  using ipv4_packet_valid [OF sample_net_ok, of "[1, 2, 3, 4, 5, 6]" "[10, 0, 0, 1]" "\<lparr>ip_data = [10, 0, 0, 2]\<rparr>" "[7, 8, 9]"]
  by (auto simp: ip_ok_def numeral_3_eq_3)

text \<open>
  An ICMP message is queued at exactly the registered sockets that talk to its sender and
  whose identifier it carries, at the end of their queues, and nothing else changes.
\<close>

theorem icmp_delivery:
  assumes "net_ok n" "8 \<le> sz" "sz \<le> length packet"
  shows "\<exists>f. Icmp_on_packet_received n packet sz src = Inr (n\<lparr>socket_at := f\<rparr>)
    \<and> (\<forall>i. f i = (if i \<in> set (m_sockets n)
          then map_option (delivered (host_order packet) sz src) (socket_at n i) else socket_at n i))"
  by (rule Icmp_on_packet_received_ok [OF assms])

theorem icmp_delivery_witness:
  "\<exists>f. Icmp_on_packet_received (sample_net [1, 2, 3, 4, 5, 6] [10, 0, 0, 1]) (replicate 8 0) 8 \<lparr>ip_data = [10, 0, 0, 2]\<rparr>
    = Inr ((sample_net [1, 2, 3, 4, 5, 6] [10, 0, 0, 1])\<lparr>socket_at := f\<rparr>)"
  using icmp_delivery [OF sample_net_ok, of "[1, 2, 3, 4, 5, 6]" "[10, 0, 0, 1]" 8 "replicate 8 0"]
  by auto

text \<open>
  The receive ring of the card. A packet the card has stored at the current offset is
  queued with exactly its bytes, and the offset moves to the next packet, aligned to four
  bytes and below 8 K, so the invariant of the ring is kept.
\<close>

theorem receive_ring_advances:
  assumes "net_ok n" "off = unat (m_recv_buffer_offset (nic n))" "buf = m_recv_buffer (nic n)"
    "len = of_le16 (buf ! (off + 2)) (buf ! (off + 3))" "buf ! off AND 1 = 1"
    "4 \<le> len" "off + unat len \<le> 3 * PAGE_SIZE_nat"
  shows "\<exists>n'. recv_packet n = Inr n' \<and> net_ok n'
    \<and> m_rx_queue n' = m_rx_queue n @ [chunk (off + 4) (unat len - 4) buf]
    \<and> unat (m_recv_buffer_offset (nic n')) = ((off + unat len + 7) div 4 * 4) mod 8192"
  using recv_packet_ok [of n] assms by simp

theorem receive_ring_advances_witness:
  "\<exists>n'. recv_packet (sample_net [1, 2, 3, 4, 5, 6] [10, 0, 0, 1]) = Inr n'
    \<and> m_rx_queue n' = [replicate 1281 5]"
proof -
  have "of_le16 5 5 = 1285" by (simp add: of_le16_def push_bit_eq_mult)
  then show ?thesis
    using receive_ring_advances [OF sample_net_ok refl refl refl, of "[1, 2, 3, 4, 5, 6]" "[10, 0, 0, 1]"]
    by (auto simp: sample_net_def NetworkManager_new_def chunk_def min_def)
qed

end
