(* ===== verification/Heap_Allocator.thy ===== *)
theory Heap_Allocator
  imports Prelude "HOL-Library.Multiset"
begin

text \<open>
  The free-list allocator of \<^verbatim>\<open>libc/HeapAllocator.cpp\<close>, which the kernel heap
  (\<^verbatim>\<open>kernel/kmalloc.cpp\<close>) and the user heap (\<^verbatim>\<open>libc/malloc.cpp\<close>) instantiate. Memory is the
  store of the block headers in it; the virtual \<^verbatim>\<open>allocate_page\<close> is a parameter that acts on
  an environment. The invariant is an exact tiling: the headers and the regions of the free
  and of the used blocks cover every byte of the heap once.
\<close>

section \<open>State\<close>

definition MAGIC_FREE :: u32 where "MAGIC_FREE = 0xc001beef"
definition MAGIC_USED :: u32 where "MAGIC_USED = 0xdeadbeef"

lemma magic_neq [simp]: "MAGIC_FREE \<noteq> MAGIC_USED" "MAGIC_USED \<noteq> MAGIC_FREE"
  by (simp_all add: MAGIC_FREE_def MAGIC_USED_def)

record MemBlock =
  magic :: u32
  nxt :: nat
  addr :: nat
  bsize :: nat

text \<open>\<open>MEMBLOCK\<close> is \<^verbatim>\<open>sizeof(MemBlock)\<close>; the null pointer is 0.\<close>

abbreviation MEMBLOCK :: nat where "MEMBLOCK \<equiv> 16"

type_synonym block_store = "nat \<rightharpoonup> MemBlock"

record 'e heap =
  mem :: block_store
  m_first_free :: nat
  m_current_heap_end :: nat
  m_heap_start :: nat
  env :: 'e

text \<open>
  Writing a header makes every header it overlaps unreadable.
\<close>

definition write_header :: "block_store \<Rightarrow> nat \<Rightarrow> MemBlock \<Rightarrow> block_store" where
  "write_header m a b = (\<lambda>x. if x = a then Some b
     else if x < a + MEMBLOCK \<and> a < x + MEMBLOCK then None else m x)"

definition read_header :: "block_store \<Rightarrow> nat \<Rightarrow> MemBlock result" where
  "read_header m a = (case m a of None \<Rightarrow> Inl BadAccess | Some b \<Rightarrow> Inr b)"

section \<open>Operations\<close>

definition MemBlock_initialize :: "block_store \<Rightarrow> nat \<Rightarrow> nat \<Rightarrow> nat \<Rightarrow> nat \<Rightarrow> block_store" where
  "MemBlock_initialize m struct_addr next_block a n =
     write_header m struct_addr \<lparr>magic = MAGIC_FREE, nxt = next_block, addr = a, bsize = n\<rparr>"

definition is_magic_free :: "MemBlock \<Rightarrow> bool" where
  "is_magic_free b \<longleftrightarrow> magic b = MAGIC_FREE"

definition is_magic_used :: "MemBlock \<Rightarrow> bool" where
  "is_magic_used b \<longleftrightarrow> magic b = MAGIC_USED"

definition HeapAllocator_new :: "nat \<Rightarrow> nat \<Rightarrow> 'e \<Rightarrow> 'e heap" where
  "HeapAllocator_new a n e =
     \<lparr>mem = MemBlock_initialize Map.empty a 0 (wrap32 (a + MEMBLOCK)) (size_sub n MEMBLOCK),
      m_first_free = a, m_current_heap_end = wrap32 (a + n), m_heap_start = a, env = e\<rparr>"

partial_function (option) find_adjacent :: "block_store \<Rightarrow> MemBlock \<Rightarrow> nat \<Rightarrow> nat result option" where
  "find_adjacent m block cur =
     (if cur = 0 then Some (Inr 0)
      else case m cur of
        None \<Rightarrow> Some (Inl BadAccess)
      | Some c \<Rightarrow>
          if wrap32 (addr block + bsize block) = addr c then Some (Inr cur)
          else find_adjacent m block (nxt c))"

definition add_mem_block :: "'e heap \<Rightarrow> nat \<Rightarrow> 'e heap result" where
  "add_mem_block h block =
     rbind (read_header (mem h) block) (\<lambda>b.
     rbind (assert_that (is_magic_free b)) (\<lambda>_.
     rbind (loop (find_adjacent (mem h) b (m_first_free h))) (\<lambda>cur.
       if cur \<noteq> 0 then
         rbind (read_header (mem h) cur) (\<lambda>c.
           Inr (h\<lparr>mem := (mem h)(cur \<mapsto> c\<lparr>bsize := wrap32 (bsize c + bsize b + MEMBLOCK),
                                        addr := size_sub (addr b) MEMBLOCK\<rparr>)\<rparr>))
       else
         Inr (h\<lparr>mem := (mem h)(block \<mapsto> b\<lparr>nxt := m_first_free h\<rparr>), m_first_free := block\<rparr>))))"

fun allocate_pages :: "(nat \<Rightarrow> 'e \<Rightarrow> 'e result) \<Rightarrow> nat \<Rightarrow> nat list \<Rightarrow> 'e \<Rightarrow> 'e result" where
  "allocate_pages allocate_page heap_end [] e = Inr e"
| "allocate_pages allocate_page heap_end (i # is) e =
     rbind (allocate_page (wrap32 (heap_end + i * PAGE_SIZE_nat)) e)
       (\<lambda>e'. allocate_pages allocate_page heap_end is e')"

definition exapnd_heap :: "(nat \<Rightarrow> 'e \<Rightarrow> 'e result) \<Rightarrow> 'e heap \<Rightarrow> nat \<Rightarrow> 'e heap result" where
  "exapnd_heap allocate_page h num_pages =
     rbind (allocate_pages allocate_page (m_current_heap_end h) [0..<num_pages] (env h)) (\<lambda>e.
     let new_block = m_current_heap_end h;
         m = MemBlock_initialize (mem h) new_block 0 (wrap32 (new_block + MEMBLOCK))
               (size_sub (wrap32 (num_pages * PAGE_SIZE_nat)) MEMBLOCK)
     in add_mem_block
          (h\<lparr>mem := m, m_current_heap_end := wrap32 (new_block + num_pages * PAGE_SIZE_nat), env := e\<rparr>)
          new_block)"

partial_function (option) find_block :: "block_store \<Rightarrow> nat \<Rightarrow> nat \<Rightarrow> nat result option" where
  "find_block m n current =
     (if current = 0 then Some (Inr 0)
      else case m current of
        None \<Rightarrow> Some (Inl BadAccess)
      | Some c \<Rightarrow>
          if bsize c > wrap32 (n + MEMBLOCK) then Some (Inr current) else find_block m n (nxt c))"

text \<open>The part of \<^verbatim>\<open>allocate\<close> after the label's loop: carve the block out of \<open>current\<close>.\<close>

definition carve :: "'e heap \<Rightarrow> nat \<Rightarrow> nat \<Rightarrow> (nat \<times> 'e heap) result" where
  "carve h n current =
     rbind (read_header (mem h) current) (\<lambda>c.
     let new_block = addr c;
         m1 = MemBlock_initialize (mem h) new_block 0 (wrap32 (addr c + MEMBLOCK)) n
     in rbind (read_header m1 new_block) (\<lambda>b.
        let m2 = m1(new_block \<mapsto> b\<lparr>magic := MAGIC_USED\<rparr>)
        in rbind (read_header m2 current) (\<lambda>c'.
           let m3 = m2(current \<mapsto> c'\<lparr>addr := wrap32 (addr c' + MEMBLOCK + n),
                                       bsize := size_sub (bsize c') (MEMBLOCK + n)\<rparr>)
           in rbind (read_header m3 new_block) (\<lambda>b'. Inr (addr b', h\<lparr>mem := m3\<rparr>)))))"

definition allocate :: "(nat \<Rightarrow> 'e \<Rightarrow> 'e result) \<Rightarrow> 'e heap \<Rightarrow> nat \<Rightarrow> (nat \<times> 'e heap) result" where
  "allocate allocate_page h n =
     rbind (assert_that (n < 10000 * PAGE_SIZE_nat)) (\<lambda>_.
     rbind (loop (find_block (mem h) n (m_first_free h))) (\<lambda>current.
       if current \<noteq> 0 then carve h n current
       else rbind (exapnd_heap allocate_page h (n div PAGE_SIZE_nat + 1)) (\<lambda>h'.
            rbind (loop (find_block (mem h') n (m_first_free h'))) (\<lambda>current'.
              if current' \<noteq> 0 then carve h' n current' else Inl AssertionFailed))))"

partial_function (option) free_space_loop ::
  "block_store \<Rightarrow> nat \<Rightarrow> nat \<Rightarrow> nat \<Rightarrow> (nat \<times> nat) result option" where
  "free_space_loop m cur free_bytes num_blocks =
     (if cur = 0 then Some (Inr (free_bytes, num_blocks))
      else case m cur of
        None \<Rightarrow> Some (Inl BadAccess)
      | Some c \<Rightarrow> free_space_loop m (nxt c) (wrap32 (free_bytes + bsize c)) (wrap32 (num_blocks + 1)))"

definition current_free_space :: "'e heap \<Rightarrow> (nat \<times> nat) result" where
  "current_free_space h = loop (free_space_loop (mem h) (m_first_free h) 0 0)"

definition heap_free :: "'e heap \<Rightarrow> nat \<Rightarrow> 'e heap result" where
  "heap_free h a =
     (let block = size_sub a MEMBLOCK
      in rbind (read_header (mem h) block) (\<lambda>b.
         rbind (assert_that (is_magic_used b)) (\<lambda>_.
           add_mem_block (h\<lparr>mem := (mem h)(block \<mapsto> b\<lparr>magic := MAGIC_FREE\<rparr>)\<rparr>) block)))"

definition size_of_block :: "'e heap \<Rightarrow> nat \<Rightarrow> nat result" where
  "size_of_block h a =
     rbind (read_header (mem h) (size_sub a MEMBLOCK)) (\<lambda>b.
       Inr (if is_magic_used b then bsize b else 0))"

text \<open>Free bytes, free blocks, pages.\<close>

definition heap_statistics :: "'e heap \<Rightarrow> (nat \<times> nat \<times> nat) result" where
  "heap_statistics h =
     rbind (current_free_space h) (\<lambda>(free_space, num_blocks).
       Inr (free_space, num_blocks,
            size_sub (m_current_heap_end h) (m_heap_start h) div PAGE_SIZE_nat))"

section \<open>The invariant\<close>

text \<open>The free list as the list of its header addresses.\<close>

fun flist :: "block_store \<Rightarrow> nat \<Rightarrow> nat list \<Rightarrow> bool" where
  "flist m p [] \<longleftrightarrow> p = 0"
| "flist m p (a # as) \<longleftrightarrow> p = a \<and> a \<noteq> 0
     \<and> (case m a of None \<Rightarrow> False | Some b \<Rightarrow> magic b = MAGIC_FREE \<and> flist m (nxt b) as)"

definition region :: "block_store \<Rightarrow> nat \<Rightarrow> nat list" where
  "region m a = (case m a of None \<Rightarrow> [] | Some b \<Rightarrow> [addr b..<addr b + bsize b])"

definition block_bytes :: "block_store \<Rightarrow> nat \<Rightarrow> nat list" where
  "block_bytes m a = [a..<a + MEMBLOCK] @ region m a"

definition used_ok :: "block_store \<Rightarrow> nat \<Rightarrow> bool" where
  "used_ok m u \<longleftrightarrow>
     (case m u of None \<Rightarrow> False | Some b \<Rightarrow> magic b = MAGIC_USED \<and> addr b = u + MEMBLOCK)"

definition free_bound :: "block_store \<Rightarrow> nat \<Rightarrow> nat \<Rightarrow> bool" where
  "free_bound m e a \<longleftrightarrow> (case m a of None \<Rightarrow> False | Some b \<Rightarrow> addr b + bsize b \<le> e)"

definition tiled :: "block_store \<Rightarrow> nat list \<Rightarrow> nat \<Rightarrow> nat \<Rightarrow> bool" where
  "tiled m xs s e \<longleftrightarrow> mset (concat (map (block_bytes m) xs)) = mset [s..<e]"

definition heap_inv :: "'e heap \<Rightarrow> nat list \<Rightarrow> nat list \<Rightarrow> bool" where
  "heap_inv h fs us \<longleftrightarrow>
     flist (mem h) (m_first_free h) fs
     \<and> list_all (used_ok (mem h)) us
     \<and> list_all (free_bound (mem h) (m_current_heap_end h)) fs
     \<and> tiled (mem h) (fs @ us) (m_heap_start h) (m_current_heap_end h)
     \<and> 0 < m_heap_start h \<and> m_heap_start h \<le> m_current_heap_end h \<and> m_current_heap_end h < 2 ^ 32"

lemma used_ok_cong: "m' x = m x \<Longrightarrow> used_ok m' x = used_ok m x"
  by (simp add: used_ok_def)

lemma free_bound_cong: "m' x = m x \<Longrightarrow> free_bound m' e x = free_bound m e x"
  by (simp add: free_bound_def)

lemma mset_blocks: "mset (concat (map f xs)) = (\<Sum>x\<in>#mset xs. mset (f x))"
  by (induction xs) auto

lemma tiled_perm: "mset xs = mset ys \<Longrightarrow> tiled m xs s e = tiled m ys s e"
  by (simp add: tiled_def mset_blocks)

lemma block_bytes_cong:
  "(\<And>x. x \<in> set xs \<Longrightarrow> m' x = m x) \<Longrightarrow> map (block_bytes m') xs = map (block_bytes m) xs"
  by (simp add: block_bytes_def region_def)

lemma tiled_cong: "(\<And>x. x \<in> set xs \<Longrightarrow> m' x = m x) \<Longrightarrow> tiled m' xs s e = tiled m xs s e"
  by (simp add: tiled_def block_bytes_def region_def cong: map_cong)

text \<open>Every byte once: different blocks share no byte, and every block lies in the heap.\<close>

lemma tiled_disjoint:
  assumes "tiled m (xs @ a # ys) s e"
  shows "a \<notin> set xs" "a \<notin> set ys" "set [a..<a + MEMBLOCK] \<inter> set (region m a) = {}"
    "b \<in> set xs \<union> set ys \<Longrightarrow> set (block_bytes m a) \<inter> set (block_bytes m b) = {}"
    "set (block_bytes m a) \<subseteq> {s..<e}"
proof -
  let ?f = "block_bytes m"
  have d: "distinct (concat (map ?f (xs @ a # ys)))"
    and st: "set (concat (map ?f (xs @ a # ys))) = {s..<e}"
    using assms unfolding tiled_def
    by (metis distinct_upt mset_eq_imp_distinct_iff, metis mset_eq_setD set_upt)
  have a: "a \<in> set (?f a)" by (simp add: block_bytes_def)
  show "set [a..<a + MEMBLOCK] \<inter> set (region m a) = {}"
    using d by (auto simp: block_bytes_def)
  show "set (?f a) \<subseteq> {s..<e}" using st by auto
  show dis: "set (?f a) \<inter> set (?f b) = {}" if "b \<in> set xs \<union> set ys"
    using d that by auto
  show "a \<notin> set xs" "a \<notin> set ys" using a d by auto
qed

lemma tiled_in_heap:
  assumes "tiled m xs s e" "a \<in> set xs" "m a = Some b"
  shows "s \<le> a" "a + MEMBLOCK \<le> e" "0 < bsize b \<Longrightarrow> s \<le> addr b \<and> addr b + bsize b \<le> e"
proof -
  obtain ys zs where xs: "xs = ys @ a # zs" using split_list [OF assms(2)] by blast
  have sub: "set (block_bytes m a) \<subseteq> {s..<e}" using tiled_disjoint(5) assms(1) unfolding xs by blast
  have "a \<in> set (block_bytes m a)" "a + 15 \<in> set (block_bytes m a)" by (simp_all add: block_bytes_def)
  then have "a \<in> {s..<e}" "a + 15 \<in> {s..<e}" using sub by blast+
  then show "s \<le> a" "a + MEMBLOCK \<le> e" by auto
  assume "0 < bsize b"
  then have "addr b \<in> set (block_bytes m a)" "addr b + bsize b - 1 \<in> set (block_bytes m a)"
    using assms(3) by (auto simp: block_bytes_def region_def)
  then have "addr b \<in> {s..<e}" "addr b + bsize b - 1 \<in> {s..<e}" using sub by blast+
  then show "s \<le> addr b \<and> addr b + bsize b \<le> e" by auto
qed

lemma flist_cong:
  "(\<And>x. x \<in> set fs \<Longrightarrow> map_option (\<lambda>b. (magic b, nxt b)) (m' x) = map_option (\<lambda>b. (magic b, nxt b)) (m x))
   \<Longrightarrow> flist m' p fs = flist m p fs"
proof (induction fs arbitrary: p)
  case (Cons a as)
  then have "map_option (\<lambda>b. (magic b, nxt b)) (m' a) = map_option (\<lambda>b. (magic b, nxt b)) (m a)"
    and IH: "\<And>p. flist m' p as = flist m p as" by simp_all
  then show ?case by (cases "m a"; cases "m' a") (simp_all add: IH)
qed simp

lemma flist_mem:
  "flist m p fs \<Longrightarrow> a \<in> set fs \<Longrightarrow> a \<noteq> 0 \<and> (\<exists>b. m a = Some b \<and> magic b = MAGIC_FREE)"
  by (induction fs arbitrary: p) (auto split: option.splits)

text \<open>Both searches run down the free list and end.\<close>

definition fits :: "block_store \<Rightarrow> nat \<Rightarrow> nat \<Rightarrow> bool" where
  "fits m n a \<longleftrightarrow> (case m a of None \<Rightarrow> False | Some c \<Rightarrow> n + MEMBLOCK < bsize c)"

definition adjacent :: "block_store \<Rightarrow> MemBlock \<Rightarrow> nat \<Rightarrow> bool" where
  "adjacent m b a \<longleftrightarrow> (case m a of None \<Rightarrow> False | Some c \<Rightarrow> addr b + bsize b = addr c)"

lemma find_block_ok:
  assumes "flist m p fs" "n + MEMBLOCK < 2 ^ 32"
  shows "\<exists>a. find_block m n p = Some (Inr a)
    \<and> (if \<exists>x\<in>set fs. fits m n x then a \<in> set fs \<and> fits m n a else a = 0)"
  using assms
proof (induction fs arbitrary: p)
  case Nil
  then show ?case by (simp add: find_block.simps)
next
  case (Cons x xs)
  then obtain c where c: "p = x" "x \<noteq> 0" "m x = Some c" "flist m (nxt c) xs"
    by (auto split: option.splits)
  then have "fits m n x \<longleftrightarrow> n + MEMBLOCK < bsize c" by (simp add: fits_def)
  with Cons.IH [OF c(4)] Cons.prems(2) c show ?case
    by (subst find_block.simps) (cases "fits m n x", auto split: if_splits)
qed

lemma find_adjacent_ok:
  assumes "flist m p fs" "addr b + bsize b < 2 ^ 32"
  shows "\<exists>a. find_adjacent m b p = Some (Inr a)
    \<and> (if \<exists>x\<in>set fs. adjacent m b x then a \<in> set fs \<and> adjacent m b a else a = 0)"
  using assms
proof (induction fs arbitrary: p)
  case Nil
  then show ?case by (simp add: find_adjacent.simps)
next
  case (Cons x xs)
  then obtain c where c: "p = x" "x \<noteq> 0" "m x = Some c" "flist m (nxt c) xs"
    by (auto split: option.splits)
  then have "adjacent m b x \<longleftrightarrow> addr b + bsize b = addr c" by (simp add: adjacent_def)
  with Cons.IH [OF c(4)] Cons.prems(2) c show ?case
    by (subst find_adjacent.simps) (cases "adjacent m b x", auto split: if_splits)
qed

section \<open>Carving a block\<close>

lemma upt_split3:
  "a \<le> s \<Longrightarrow> [r..<r + s] = [r..<r + a] @ [r + a..<r + s]" for r :: nat
  by (metis le_add1 upt_add_eq_append add_le_cancel_left le_iff_add)

lemma carve_ok:
  assumes inv: "heap_inv h fs us" and a: "a \<in> set fs" "fits (mem h) n a"
  shows "\<exists>h' p. carve h n a = Inr (p, h') \<and> MEMBLOCK \<le> p \<and> heap_inv h' fs ((p - MEMBLOCK) # us)
    \<and> mem h' (p - MEMBLOCK) = Some \<lparr>magic = MAGIC_USED, nxt = 0, addr = p, bsize = n\<rparr>
    \<and> (\<forall>u\<in>set us. mem h' u = mem h u) \<and> m_heap_start h' = m_heap_start h
    \<and> m_current_heap_end h' = m_current_heap_end h \<and> env h' = env h"
proof -
  let ?m = "mem h" and ?e = "m_current_heap_end h"
  have fl: "flist ?m (m_first_free h) fs" and tl: "tiled ?m (fs @ us) (m_heap_start h) ?e"
    and us: "list_all (used_ok ?m) us" and fb: "list_all (free_bound ?m ?e) fs"
    and e: "?e < 2 ^ 32" "0 < m_heap_start h" "m_heap_start h \<le> ?e"
    using inv by (simp_all add: heap_inv_def)
  obtain c where c: "?m a = Some c" "n + MEMBLOCK < bsize c" "magic c = MAGIC_FREE"
    using flist_mem [OF fl a(1)] a(2) by (auto simp: fits_def)
  obtain f1 f2 where fs: "fs = f1 @ a # f2" using split_list [OF a(1)] by blast
  have tl': "tiled ?m (f1 @ a # (f2 @ us)) (m_heap_start h) ?e" using tl fs by simp
  define r where "r = addr c"
  have r: "r + bsize c \<le> ?e" "m_heap_start h \<le> r"
    using tiled_in_heap(3) [OF tl _ c(1)] a(1) c(2) by (auto simp: r_def)
  have reg: "region ?m a = [r..<r + bsize c]" using c(1) by (simp add: region_def r_def)
  have sep: "\<not> (x < r + MEMBLOCK \<and> r < x + MEMBLOCK)" if "x \<in> set (fs @ us)" for x
  proof -
    have "set [x..<x + MEMBLOCK] \<inter> set (region ?m a) = {}"
    proof (cases "x = a")
      case True
      then show ?thesis using tiled_disjoint(3) [OF tl'] by simp
    next
      case False
      then have "x \<in> set f1 \<union> set (f2 @ us)" using that fs by auto
      from tiled_disjoint(4) [OF tl' this] show ?thesis by (auto simp: block_bytes_def)
    qed
    then have "max x r \<notin> set [x..<x + MEMBLOCK] \<or> max x r \<notin> set (region ?m a)" by blast
    then show ?thesis using c(2) by (auto simp: reg max_def split: if_splits)
  qed
  have ra: "r \<notin> set (fs @ us)" "r \<noteq> a" using sep [of r] sep [of a] a(1) by auto
  define nb where "nb = \<lparr>magic = MAGIC_USED, nxt = 0, addr = r + MEMBLOCK, bsize = n\<rparr>"
  define c3 where "c3 = c\<lparr>addr := r + MEMBLOCK + n, bsize := bsize c - (MEMBLOCK + n)\<rparr>"
  define m3 where "m3 = (write_header ?m r (nb\<lparr>magic := MAGIC_FREE\<rparr>))(r \<mapsto> nb, a \<mapsto> c3)"
  have m3: "m3 r = Some nb" "m3 a = Some c3" "\<And>x. x \<in> set (fs @ us) \<Longrightarrow> x \<noteq> a \<Longrightarrow> m3 x = ?m x"
    using ra sep by (auto simp: m3_def write_header_def)
  have w: "wrap32 (addr c + MEMBLOCK) = addr c + MEMBLOCK"
    "wrap32 (addr c + MEMBLOCK + n) = addr c + MEMBLOCK + n"
    using c(2) r e by (simp_all add: r_def)
  have car: "carve h n a = Inr (r + MEMBLOCK, h\<lparr>mem := m3\<rparr>)"
    using c ra r e sep [of a] a(1)
    by (auto simp: carve_def read_header_def Let_def MemBlock_initialize_def write_header_def
      m3_def nb_def c3_def r_def w cong: if_cong)
  have "tiled m3 (fs @ r # us) (m_heap_start h) ?e"
  proof -
    have nota: "a \<notin> set f1" "a \<notin> set f2" "a \<notin> set us" using tiled_disjoint(1,2) [OF tl'] by auto
    have same: "map (block_bytes m3) xs = map (block_bytes ?m) xs"
      if "set xs \<subseteq> set (fs @ us)" "a \<notin> set xs" for xs
      using that by (intro block_bytes_cong m3(3)) auto
    have eqs: "map (block_bytes m3) f1 = map (block_bytes ?m) f1"
      "map (block_bytes m3) f2 = map (block_bytes ?m) f2"
      "map (block_bytes m3) us = map (block_bytes ?m) us"
      by (rule same; use nota fs in force)+
    have "mset [r..<r + bsize c] = mset [r..<r + MEMBLOCK] + mset [r + MEMBLOCK..<r + MEMBLOCK + n]
        + mset [r + MEMBLOCK + n..<r + bsize c]"
      using c(2) upt_split3 [of MEMBLOCK "bsize c" r] upt_split3 [of n "bsize c - MEMBLOCK" "r + MEMBLOCK"]
      by (simp del: upt_Suc)
    moreover have "block_bytes ?m a = [a..<a + MEMBLOCK] @ [r..<r + bsize c]"
      "block_bytes m3 a = [a..<a + MEMBLOCK] @ [r + MEMBLOCK + n..<r + bsize c]"
      "block_bytes m3 r = [r..<r + MEMBLOCK] @ [r + MEMBLOCK..<r + MEMBLOCK + n]"
      using c(2) by (simp_all add: block_bytes_def reg, simp_all add: region_def m3 nb_def c3_def)
    ultimately show ?thesis
      using tl unfolding tiled_def by (simp add: fs eqs ac_simps del: upt_Suc)
  qed
  moreover have "flist m3 (m_first_free h) fs"
  proof -
    have "map_option (\<lambda>b. (magic b, nxt b)) (m3 x) = map_option (\<lambda>b. (magic b, nxt b)) (?m x)"
      if "x \<in> set fs" for x
      using that m3 by (cases "x = a") (auto simp: c c3_def)
    from flist_cong [of fs m3 ?m, OF this] fl show ?thesis by simp
  qed
  moreover have usm: "\<forall>u\<in>set us. m3 u = ?m u" using m3(3) tiled_disjoint(2) [OF tl'] by auto
  moreover have "list_all (used_ok m3) (r # us)"
    using us usm m3(1) used_ok_cong [of m3 _ ?m] by (simp add: list_all_iff used_ok_def [of _ r] nb_def)
  moreover have "free_bound m3 ?e x" if "x \<in> set fs" for x
    using fb m3 r free_bound_cong [of m3 x ?m] that c(2)
    by (cases "x = a") (auto simp: list_all_iff free_bound_def c3_def)
  then have "list_all (free_bound m3 ?e) fs" by (simp add: list_all_iff)
  ultimately have "heap_inv (h\<lparr>mem := m3\<rparr>) fs (r # us)"
    using e by (simp add: heap_inv_def)
  then show ?thesis using car m3(1) usm by (auto simp: nb_def)
qed

section \<open>Returning a block\<close>

lemma add_mem_block_ok:
  assumes fl: "flist (mem h) (m_first_free h) fs" and us: "list_all (used_ok (mem h)) us"
    and fb: "list_all (free_bound (mem h) (m_current_heap_end h)) fs"
    and tl: "tiled (mem h) (fs @ u # us) (m_heap_start h) (m_current_heap_end h)"
    and e: "0 < m_heap_start h" "m_current_heap_end h < 2 ^ 32" "m_heap_start h \<le> m_current_heap_end h"
    and b: "mem h u = Some b" "magic b = MAGIC_FREE" "addr b = u + MEMBLOCK"
  shows "\<exists>h' fs' b'. add_mem_block h u = Inr h' \<and> heap_inv h' fs' us
    \<and> (\<forall>x\<in>set us. mem h' x = mem h x) \<and> mem h' u = Some b' \<and> magic b' = MAGIC_FREE
    \<and> env h' = env h \<and> m_heap_start h' = m_heap_start h \<and> m_current_heap_end h' = m_current_heap_end h
    \<and> ((\<forall>x\<in>set fs. \<not> adjacent (mem h) b x) \<longrightarrow>
         fs' = u # fs \<and> bsize b' = bsize b \<and> (\<forall>x\<in>set fs. mem h' x = mem h x))"
proof -
  let ?m = "mem h" and ?e = "m_current_heap_end h"
  have u: "u + MEMBLOCK + bsize b \<le> ?e" "m_heap_start h \<le> u"
    using tiled_in_heap [OF tl _ b(1)] b(3) by (cases "bsize b = 0"; auto)+
  have nu: "u \<notin> set fs" "u \<notin> set us" using tiled_disjoint(1,2) [OF tl] by auto
  obtain a where a: "find_adjacent ?m b (m_first_free h) = Some (Inr a)"
    "if \<exists>x\<in>set fs. adjacent ?m b x then a \<in> set fs \<and> adjacent ?m b a else a = 0"
    using find_adjacent_ok [OF fl, of b] u b(3) e by auto
  have rd: "read_header ?m u = Inr b" "is_magic_free b"
    using b by (simp_all add: read_header_def is_magic_free_def)
  show ?thesis
  proof (cases "\<exists>x\<in>set fs. adjacent ?m b x")
    case False
    then have "a = 0" using a(2) by simp
    define b' where "b' = b\<lparr>nxt := m_first_free h\<rparr>"
    let ?h = "h\<lparr>mem := ?m(u \<mapsto> b'), m_first_free := u\<rparr>"
    have "add_mem_block h u = Inr ?h"
      using rd a(1) \<open>a = 0\<close> by (simp add: add_mem_block_def b'_def)
    moreover have "heap_inv ?h (u # fs) us"
    proof -
      have "flist (?m(u \<mapsto> b')) (m_first_free h) fs"
        using fl nu by (subst flist_cong [of fs _ ?m]) auto
      moreover have "tiled (?m(u \<mapsto> b')) ((u # fs) @ us) (m_heap_start h) ?e"
      proof -
        have "tiled ?m ((u # fs) @ us) (m_heap_start h) ?e"
          using tl by (subst tiled_perm [of _ "fs @ u # us"]) auto
        moreover have "block_bytes (?m(u \<mapsto> b')) = block_bytes ?m"
          using b(1) by (auto simp: block_bytes_def region_def b'_def)
        ultimately show ?thesis by (simp add: tiled_def)
      qed
      moreover have "list_all (used_ok (?m(u \<mapsto> b'))) us" "list_all (free_bound (?m(u \<mapsto> b')) ?e) fs"
        using us fb nu by (auto simp: list_all_iff used_ok_def free_bound_def)
      ultimately show ?thesis
        using u e b by (simp add: heap_inv_def b'_def free_bound_def)
    qed
    ultimately show ?thesis
      using nu False b by (intro exI [of _ ?h] exI [of _ "u # fs"] exI [of _ b']) (auto simp: b'_def)
  next
    case True
    then have afs: "a \<in> set fs" "adjacent ?m b a" using a(2) by auto
    obtain c where c: "?m a = Some c" "addr c = u + MEMBLOCK + bsize b" "a \<noteq> 0" "magic c = MAGIC_FREE"
      using afs flist_mem [OF fl afs(1)] b(3) by (auto simp: adjacent_def)
    have cb: "addr c + bsize c \<le> ?e" using fb afs(1) c by (auto simp: list_all_iff free_bound_def)
    define c' where "c' = c\<lparr>bsize := bsize c + bsize b + MEMBLOCK, addr := u\<rparr>"
    let ?h = "h\<lparr>mem := ?m(a \<mapsto> c')\<rparr>"
    have add: "add_mem_block h u = Inr ?h"
      using rd a(1) c cb e b(3) by (simp add: add_mem_block_def read_header_def c'_def)
    obtain f1 f2 where fs: "fs = f1 @ a # f2" using split_list [OF afs(1)] by blast
    have na: "a \<notin> set f1" "a \<notin> set f2" "a \<notin> set us" "a \<noteq> u"
      using tiled_disjoint(1,2) [of ?m f1 a "f2 @ u # us"] tl fs by auto
    have eqs: "map (block_bytes (?m(a \<mapsto> c'))) f1 = map (block_bytes ?m) f1"
      "map (block_bytes (?m(a \<mapsto> c'))) f2 = map (block_bytes ?m) f2"
      "map (block_bytes (?m(a \<mapsto> c'))) us = map (block_bytes ?m) us"
      by (rule block_bytes_cong; use na in force)+
    have "mset [u..<u + (bsize c + bsize b + MEMBLOCK)] = mset [u..<u + MEMBLOCK]
        + mset [u + MEMBLOCK..<u + MEMBLOCK + bsize b]
        + mset [u + MEMBLOCK + bsize b..<u + MEMBLOCK + bsize b + bsize c]"
      using upt_split3 [of MEMBLOCK "bsize c + bsize b + MEMBLOCK" u]
        upt_split3 [of "bsize b" "bsize b + bsize c" "u + MEMBLOCK"]
      by (simp add: ac_simps del: upt_Suc)
    moreover have "block_bytes ?m a = [a..<a + MEMBLOCK]
        @ [u + MEMBLOCK + bsize b..<u + MEMBLOCK + bsize b + bsize c]"
      "block_bytes (?m(a \<mapsto> c')) a = [a..<a + MEMBLOCK] @ [u..<u + (bsize c + bsize b + MEMBLOCK)]"
      "block_bytes ?m u = [u..<u + MEMBLOCK] @ [u + MEMBLOCK..<u + MEMBLOCK + bsize b]"
      by (simp_all add: block_bytes_def region_def b c c'_def)
    ultimately have tl': "tiled (?m(a \<mapsto> c')) (fs @ us) (m_heap_start h) ?e"
      using tl unfolding tiled_def by (simp add: fs eqs ac_simps del: upt_Suc)
    have "flist (?m(a \<mapsto> c')) (m_first_free h) fs"
      using fl c by (subst flist_cong [of fs _ ?m]) (auto simp: c'_def)
    moreover have "list_all (used_ok (?m(a \<mapsto> c'))) us" "list_all (free_bound (?m(a \<mapsto> c')) ?e) fs"
      using us fb na c cb by (auto simp: list_all_iff used_ok_def free_bound_def c'_def)
    ultimately have "heap_inv ?h fs us" using tl' e by (simp add: heap_inv_def)
    then show ?thesis
      using add na True b by (intro exI [of _ ?h] exI [of _ fs] exI [of _ b]) auto
  qed
qed

lemma heap_free_ok:
  assumes inv: "heap_inv h fs us" and u: "u \<in> set us"
  shows "\<exists>h' fs' b'. heap_free h (u + MEMBLOCK) = Inr h' \<and> heap_inv h' fs' (remove1 u us)
    \<and> (\<forall>x\<in>set (remove1 u us). mem h' x = mem h x) \<and> mem h' u = Some b' \<and> magic b' = MAGIC_FREE
    \<and> env h' = env h \<and> m_heap_start h' = m_heap_start h \<and> m_current_heap_end h' = m_current_heap_end h"
proof -
  let ?m = "mem h"
  obtain b where b: "?m u = Some b" "magic b = MAGIC_USED" "addr b = u + MEMBLOCK"
    using inv u by (auto simp: heap_inv_def list_all_iff used_ok_def split: option.splits)
  define b1 where "b1 = b\<lparr>magic := MAGIC_FREE\<rparr>"
  let ?h1 = "h\<lparr>mem := ?m(u \<mapsto> b1)\<rparr>"
  have tl: "tiled ?m (fs @ u # remove1 u us) (m_heap_start h) (m_current_heap_end h)"
    using inv u by (subst tiled_perm [of _ "fs @ us"]) (auto simp: heap_inv_def)
  have nu: "u \<notin> set fs" "u \<notin> set (remove1 u us)" using tiled_disjoint(1,2) [OF tl] by auto
  have bytes: "block_bytes (?m(u \<mapsto> b1)) = block_bytes ?m"
    using b(1) by (auto simp: block_bytes_def region_def b1_def)
  have "flist (mem ?h1) (m_first_free ?h1) fs"
    using inv nu by (subst flist_cong [of fs _ ?m]) (auto simp: heap_inv_def)
  moreover have "list_all (used_ok (mem ?h1)) (remove1 u us)"
    "list_all (free_bound (mem ?h1) (m_current_heap_end ?h1)) fs"
    using inv nu by (auto simp: list_all_iff used_ok_def free_bound_def heap_inv_def dest: notin_set_remove1)
  moreover have "tiled (mem ?h1) (fs @ u # remove1 u us) (m_heap_start ?h1) (m_current_heap_end ?h1)"
    using tl by (simp add: tiled_def bytes)
  moreover have "0 < m_heap_start ?h1" "m_current_heap_end ?h1 < 2 ^ 32"
    "m_heap_start ?h1 \<le> m_current_heap_end ?h1" "mem ?h1 u = Some b1"
    "magic b1 = MAGIC_FREE" "addr b1 = u + MEMBLOCK"
    using inv b by (simp_all add: heap_inv_def b1_def)
  ultimately obtain h' fs' b' where "add_mem_block ?h1 u = Inr h'" "heap_inv h' fs' (remove1 u us)"
    "\<forall>x\<in>set (remove1 u us). mem h' x = mem ?h1 x" "mem h' u = Some b'" "magic b' = MAGIC_FREE"
    "env h' = env h" "m_heap_start h' = m_heap_start h" "m_current_heap_end h' = m_current_heap_end h"
    using add_mem_block_ok [of ?h1 fs "remove1 u us" u b1] by auto
  then show ?thesis
    using b nu by (intro exI [of _ h'] exI [of _ fs'] exI [of _ b'])
      (auto simp: heap_free_def read_header_def is_magic_used_def b1_def)
qed

section \<open>Expansion and allocation\<close>

lemma exapnd_heap_ok:
  assumes inv: "heap_inv h fs us" and n: "0 < n" "m_current_heap_end h + n * PAGE_SIZE_nat < 2 ^ 32"
    and pages: "allocate_pages allocate_page (m_current_heap_end h) [0..<n] (env h) = Inr e'"
  shows "\<exists>h' b. exapnd_heap allocate_page h n = Inr h' \<and> heap_inv h' (m_current_heap_end h # fs) us
    \<and> mem h' (m_current_heap_end h) = Some b \<and> bsize b = n * PAGE_SIZE_nat - MEMBLOCK
    \<and> (\<forall>x\<in>set (fs @ us). mem h' x = mem h x) \<and> env h' = e' \<and> m_heap_start h' = m_heap_start h
    \<and> m_current_heap_end h' = m_current_heap_end h + n * PAGE_SIZE_nat"
proof -
  let ?m = "mem h" and ?u = "m_current_heap_end h" and ?e = "m_current_heap_end h + n * PAGE_SIZE_nat"
  define b where "b = \<lparr>magic = MAGIC_FREE, nxt = 0, addr = ?u + MEMBLOCK,
    bsize = n * PAGE_SIZE_nat - MEMBLOCK\<rparr>"
  define m1 where "m1 = write_header ?m ?u b"
  let ?h1 = "h\<lparr>mem := m1, m_current_heap_end := ?e, env := e'\<rparr>"
  have tl: "tiled ?m (fs @ us) (m_heap_start h) ?u" using inv by (simp add: heap_inv_def)
  have live: "x + MEMBLOCK \<le> ?u" if "x \<in> set (fs @ us)" for x
  proof -
    have "\<exists>c. ?m x = Some c"
      using inv that flist_mem [of ?m "m_first_free h" fs x]
      by (auto simp: heap_inv_def list_all_iff used_ok_def split: option.splits)
    then show ?thesis using tiled_in_heap(2) [OF tl that] by auto
  qed
  have m1: "m1 ?u = Some b" "\<And>x. x \<in> set (fs @ us) \<Longrightarrow> m1 x = ?m x"
    using live by (fastforce simp: m1_def write_header_def)+
  have size: "n * PAGE_SIZE_nat \<ge> PAGE_SIZE_nat" using n(1) by simp
  have ex: "exapnd_heap allocate_page h n = add_mem_block ?h1 ?u"
    using n pages size by (simp add: exapnd_heap_def MemBlock_initialize_def m1_def b_def Let_def)
  have st: "m_heap_start h \<le> ?u" using inv by (simp add: heap_inv_def)
  have "tiled m1 (fs @ ?u # us) (m_heap_start h) ?e"
  proof -
    have "block_bytes m1 ?u = [?u..<?u + MEMBLOCK] @ [?u + MEMBLOCK..<?e]"
      using m1(1) size by (simp add: block_bytes_def region_def b_def)
    moreover have "mset [m_heap_start h..<?e]
        = mset [m_heap_start h..<?u] + mset [?u..<?u + MEMBLOCK] + mset [?u + MEMBLOCK..<?e]"
      using st size upt_split3 [of MEMBLOCK "n * PAGE_SIZE_nat" ?u]
        upt_split3 [of "?u - m_heap_start h" "?e - m_heap_start h" "m_heap_start h"]
      by (simp del: upt_Suc)
    moreover have eqs: "map (block_bytes m1) fs = map (block_bytes ?m) fs"
      "map (block_bytes m1) us = map (block_bytes ?m) us"
      by (rule block_bytes_cong; use m1(2) in force)+
    ultimately show ?thesis using tl unfolding tiled_def
      by (simp add: eqs ac_simps del: upt_Suc map_eq_conv)
  qed
  moreover have "flist m1 (m_first_free h) fs"
    using inv m1(2) by (subst flist_cong [of fs _ ?m]) (auto simp: heap_inv_def)
  moreover have "list_all (used_ok m1) us" "list_all (free_bound m1 ?e) fs"
    using inv m1(2) by (auto simp: heap_inv_def list_all_iff used_ok_def free_bound_def split: option.splits)
  moreover have "\<not> adjacent m1 b x" if "x \<in> set fs" for x
    using inv that m1(2) [of x] size n(1)
    by (auto simp: heap_inv_def list_all_iff free_bound_def adjacent_def b_def split: option.splits)
  ultimately show ?thesis
    using add_mem_block_ok [of ?h1 fs us ?u b] m1 n inv unfolding ex
    by (auto simp: heap_inv_def [of h] b_def)
qed

text \<open>
  The result of an allocation: a block of the size asked for joins the used blocks, and the
  blocks in use before keep their headers.
\<close>

definition allocated :: "'e heap \<Rightarrow> nat \<Rightarrow> nat list \<Rightarrow> nat \<Rightarrow> 'e heap \<Rightarrow> bool" where
  "allocated h n us p h' \<longleftrightarrow>
     MEMBLOCK \<le> p
     \<and> mem h' (p - MEMBLOCK) = Some \<lparr>magic = MAGIC_USED, nxt = 0, addr = p, bsize = n\<rparr>
     \<and> (\<forall>u\<in>set us. mem h' u = mem h u) \<and> m_heap_start h' = m_heap_start h"

lemma allocate_fits:
  assumes inv: "heap_inv h fs us" and n: "n < 10000 * PAGE_SIZE_nat"
    and "\<exists>x\<in>set fs. fits (mem h) n x"
  shows "\<exists>p h'. allocate allocate_page h n = Inr (p, h') \<and> heap_inv h' fs ((p - MEMBLOCK) # us)
    \<and> allocated h n us p h'"
proof -
  have fl: "flist (mem h) (m_first_free h) fs" using inv by (simp add: heap_inv_def)
  then obtain a where a: "find_block (mem h) n (m_first_free h) = Some (Inr a)" "a \<in> set fs"
    "fits (mem h) n a" using find_block_ok [OF fl, of n] n assms(3) by auto
  obtain p h' where "carve h n a = Inr (p, h')" "heap_inv h' fs ((p - MEMBLOCK) # us)"
    "allocated h n us p h'"
    using carve_ok [OF inv a(2,3)] unfolding allocated_def by blast
  then show ?thesis using flist_mem [OF fl a(2)] a n by (auto simp: allocate_def)
qed

lemma allocate_expands:
  assumes inv: "heap_inv h fs us" and n: "n < 10000 * PAGE_SIZE_nat"
    and none: "\<forall>x\<in>set fs. \<not> fits (mem h) n x"
    and room: "m_current_heap_end h + (n div PAGE_SIZE_nat + 1) * PAGE_SIZE_nat < 2 ^ 32"
    and pages: "allocate_pages allocate_page (m_current_heap_end h) [0..<n div PAGE_SIZE_nat + 1] (env h) = Inr e'"
  shows "if n mod PAGE_SIZE_nat + 2 * MEMBLOCK < PAGE_SIZE_nat
    then \<exists>p h'. allocate allocate_page h n = Inr (p, h')
      \<and> heap_inv h' (m_current_heap_end h # fs) ((p - MEMBLOCK) # us)
      \<and> allocated h n us p h'
    else allocate allocate_page h n = Inl AssertionFailed"
proof -
  let ?k = "n div PAGE_SIZE_nat + 1" and ?u = "m_current_heap_end h"
  have fl: "flist (mem h) (m_first_free h) fs" using inv by (simp add: heap_inv_def)
  have n16: "n + MEMBLOCK < 2 ^ 32" using n by simp
  have miss: "find_block (mem h) n (m_first_free h) = Some (Inr 0)"
    using find_block_ok [OF fl n16] none by auto
  obtain h' b where h': "exapnd_heap allocate_page h ?k = Inr h'" "heap_inv h' (?u # fs) us"
    "mem h' ?u = Some b" "bsize b = ?k * PAGE_SIZE_nat - MEMBLOCK"
    "\<forall>x\<in>set (fs @ us). mem h' x = mem h x" "m_heap_start h' = m_heap_start h"
    using exapnd_heap_ok [OF inv _ room pages] by auto
  have fl': "flist (mem h') (m_first_free h') (?u # fs)" using h'(2) by (simp add: heap_inv_def)
  define q where "q = n div PAGE_SIZE_nat"
  define r where "r = n mod PAGE_SIZE_nat"
  have "n = q * PAGE_SIZE_nat + r" by (simp add: q_def r_def)
  then have "fits (mem h') n ?u \<longleftrightarrow> n mod PAGE_SIZE_nat + 2 * MEMBLOCK < PAGE_SIZE_nat"
    using h'(3,4) unfolding q_def [symmetric] r_def [symmetric] by (simp add: fits_def)
  moreover have "fits (mem h') n x = fits (mem h) n x" if "x \<in> set fs" for x
    using h'(5) that by (simp add: fits_def)
  ultimately have some: "(\<exists>x\<in>set (?u # fs). fits (mem h') n x)
      \<longleftrightarrow> n mod PAGE_SIZE_nat + 2 * MEMBLOCK < PAGE_SIZE_nat" using none by auto
  show ?thesis
  proof (cases "n mod PAGE_SIZE_nat + 2 * MEMBLOCK < PAGE_SIZE_nat")
    case True
    then obtain a where a: "find_block (mem h') n (m_first_free h') = Some (Inr a)"
      "a \<in> set (?u # fs)" "fits (mem h') n a"
      using find_block_ok [OF fl' n16] some by (metis (full_types))
    from flist_mem [OF fl' a(2)] have eq: "allocate allocate_page h n = carve h' n a"
      using n miss h'(1) a(1) by (simp add: allocate_def)
    obtain p h2 where "carve h' n a = Inr (p, h2)" "heap_inv h2 (?u # fs) ((p - MEMBLOCK) # us)"
      "allocated h n us p h2"
      using carve_ok [OF h'(2) a(2,3)] h'(5,6) unfolding allocated_def
      by auto
    then show ?thesis using True eq by auto
  next
    case False
    then have "find_block (mem h') n (m_first_free h') = Some (Inr 0)"
      using find_block_ok [OF fl' n16] some by auto
    then show ?thesis using False n miss h'(1) by (simp add: allocate_def)
  qed
qed

lemma HeapAllocator_new_ok:
  assumes "0 < a" "MEMBLOCK \<le> n" "a + n < 2 ^ 32"
  shows "heap_inv (HeapAllocator_new a n e) [a] []"
proof -
  have "[a..<a + MEMBLOCK] @ [a + MEMBLOCK..<a + n] = [a..<a + n]"
    using upt_split3 [OF assms(2), of a] by simp
  then show ?thesis
    using assms by (simp add: heap_inv_def HeapAllocator_new_def MemBlock_initialize_def tiled_def
      write_header_def free_bound_def block_bytes_def region_def del: upt_Suc mset_append)
qed

lemma heap_inv_perm: "heap_inv h fs us \<Longrightarrow> mset us = mset us' \<Longrightarrow> heap_inv h fs us'"
  using mset_eq_setD [of us us'] tiled_perm [of "fs @ us" "fs @ us'"]
  by (auto simp: heap_inv_def list_all_iff)

section \<open>The allocator interface\<close>

text \<open>
  A run of a client: any sequence of allocations and of releases of live pointers. The
  guard of an allocation is a condition on the allocator's state.
\<close>

inductive heap_trace ::
  "('h \<Rightarrow> nat \<Rightarrow> (nat \<times> 'h) result) \<Rightarrow> ('h \<Rightarrow> nat \<Rightarrow> 'h result) \<Rightarrow> ('h \<Rightarrow> nat \<Rightarrow> bool)
    \<Rightarrow> 'h \<Rightarrow> nat list \<Rightarrow> 'h \<Rightarrow> nat list \<Rightarrow> bool"
  for alloc release room h0 ps0 where
  trace_start: "heap_trace alloc release room h0 ps0 h0 ps0"
| trace_alloc: "heap_trace alloc release room h0 ps0 h ps \<Longrightarrow> room h n \<Longrightarrow> alloc h n = Inr (p, h')
    \<Longrightarrow> heap_trace alloc release room h0 ps0 h' (p # ps)"
| trace_release: "heap_trace alloc release room h0 ps0 h (ps @ p # qs) \<Longrightarrow> release h p = Inr h'
    \<Longrightarrow> heap_trace alloc release room h0 ps0 h' (ps @ qs)"

locale block_allocator =
  fixes alloc :: "'h \<Rightarrow> nat \<Rightarrow> (nat \<times> 'h) result"
    and release :: "'h \<Rightarrow> nat \<Rightarrow> 'h result"
    and room :: "'h \<Rightarrow> nat \<Rightarrow> bool"
    and invar :: "'h \<Rightarrow> nat list \<Rightarrow> bool"
    and extent :: "'h \<Rightarrow> nat \<Rightarrow> nat set"
  assumes alloc_law: "invar h ps \<Longrightarrow> room h n \<Longrightarrow> alloc h n = Inr (p, h') \<Longrightarrow>
      invar h' (p # ps) \<and> {p..<p + n} \<subseteq> extent h' p \<and> (\<forall>q\<in>set ps. extent h' q = extent h q)"
    and release_law: "invar h (ps @ p # qs) \<Longrightarrow>
      \<exists>h'. release h p = Inr h' \<and> invar h' (ps @ qs) \<and> (\<forall>q\<in>set (ps @ qs). extent h' q = extent h q)"
    and disjoint_law: "invar h (ps @ p # qs) \<Longrightarrow> q \<in> set (ps @ qs) \<Longrightarrow>
      p \<noteq> q \<and> extent h p \<inter> extent h q = {}"
begin

lemma trace_invar:
  assumes "heap_trace alloc release room h0 ps0 h ps" "invar h0 ps0"
  shows "invar h ps"
  using assms
proof (induction rule: heap_trace.induct)
  case (trace_alloc h ps n p h')
  then show ?case using alloc_law by blast
next
  case (trace_release h ps p qs h')
  then show ?case using release_law [of h ps p qs] by auto
qed

lemma live_disjoint:
  assumes "invar h ps"
  shows "distinct ps \<and> (\<forall>p\<in>set ps. \<forall>q\<in>set ps. p \<noteq> q \<longrightarrow> extent h p \<inter> extent h q = {})"
proof (intro conjI ballI impI)
  have "distinct (take k ps)" for k
  proof (induction k)
    case (Suc k)
    show ?case
    proof (cases "k < length ps")
      case True
      then have "ps = take k ps @ ps ! k # drop (Suc k) ps" by (simp add: id_take_nth_drop)
      then have "ps ! k \<notin> set (take k ps)"
        using disjoint_law [of h "take k ps" "ps ! k" "drop (Suc k) ps" "ps ! k"] assms by force
      then show ?thesis using Suc True by (simp add: take_Suc_conv_app_nth)
    qed (use Suc in simp)
  qed simp
  from this [of "length ps"] show "distinct ps" by simp
next
  fix p q assume "p \<in> set ps" "q \<in> set ps" "p \<noteq> q"
  moreover from \<open>p \<in> set ps\<close> obtain xs ys where "ps = xs @ p # ys" by (auto dest: split_list)
  ultimately have "ps = xs @ p # ys" "q \<in> set (xs @ ys)" by auto
  then show "extent h p \<inter> extent h q = {}" using disjoint_law assms by blast
qed

lemma live_releasable:
  assumes "invar h ps" "p \<in> set ps"
  shows "\<exists>h'. release h p = Inr h'"
  using assms release_law by (metis split_list)

end

text \<open>The room an allocation may need: the heap must stay below the top of the address space.\<close>

definition heap_room :: "'e heap \<Rightarrow> nat \<Rightarrow> bool" where
  "heap_room h n \<longleftrightarrow> m_current_heap_end h + (n div PAGE_SIZE_nat + 1) * PAGE_SIZE_nat < 2 ^ 32"

definition heap_live :: "'e heap \<Rightarrow> nat list \<Rightarrow> bool" where
  "heap_live h ps \<longleftrightarrow> (\<exists>fs us. heap_inv h fs us \<and> ps = map (\<lambda>u. u + MEMBLOCK) us)"

definition heap_extent :: "'e heap \<Rightarrow> nat \<Rightarrow> nat set" where
  "heap_extent h p = set (block_bytes (mem h) (p - MEMBLOCK))"

lemma allocate_live:
  assumes inv: "heap_inv h fs us" and room: "heap_room h n"
    and al: "allocate allocate_page h n = Inr (p, h')"
  shows "\<exists>fs'. heap_inv h' fs' ((p - MEMBLOCK) # us) \<and> allocated h n us p h'"
proof -
  have n: "n < 10000 * PAGE_SIZE_nat" using al by (auto simp: allocate_def)
  show ?thesis
  proof (cases "\<exists>x\<in>set fs. fits (mem h) n x")
    case True
    then show ?thesis using allocate_fits [OF inv n True, of allocate_page] al by auto
  next
    case False
    have fl: "flist (mem h) (m_first_free h) fs" using inv by (simp add: heap_inv_def)
    have miss: "find_block (mem h) n (m_first_free h) = Some (Inr 0)"
      using find_block_ok [OF fl, of n] False n by auto
    obtain e' where "allocate_pages allocate_page (m_current_heap_end h)
        [0..<n div PAGE_SIZE_nat + 1] (env h) = Inr e'"
      using al n miss by (auto simp: allocate_def exapnd_heap_def simp del: upt_Suc)
    from allocate_expands [OF inv n _ _ this] False room al show ?thesis
      by (auto simp: heap_room_def split: if_splits)
  qed
qed

lemma heap_extent_cong: "mem h' (p - MEMBLOCK) = mem h (p - MEMBLOCK) \<Longrightarrow> heap_extent h' p = heap_extent h p"
  by (simp add: heap_extent_def block_bytes_def region_def)

interpretation heap: block_allocator "allocate allocate_page" heap_free heap_room heap_live heap_extent
proof
  fix h :: "'a heap" and ps n p h'
  assume "heap_live h ps" "heap_room h n" "allocate allocate_page h n = Inr (p, h')"
  moreover from this obtain fs us where us: "heap_inv h fs us" "ps = map (\<lambda>u. u + MEMBLOCK) us"
    by (auto simp: heap_live_def)
  ultimately obtain fs' where h': "heap_inv h' fs' ((p - MEMBLOCK) # us)" "allocated h n us p h'"
    using allocate_live by blast
  then have "heap_live h' (p # ps)"
    unfolding heap_live_def us(2)
    by (intro exI [of _ fs'] exI [of _ "(p - MEMBLOCK) # us"]) (simp add: allocated_def)
  moreover have "{p..<p + n} \<subseteq> heap_extent h' p"
    using h'(2) by (auto simp: heap_extent_def block_bytes_def region_def allocated_def)
  moreover have "\<forall>q\<in>set ps. heap_extent h' q = heap_extent h q"
    using h'(2) us(2) by (auto simp: allocated_def intro!: heap_extent_cong)
  ultimately show "heap_live h' (p # ps) \<and> {p..<p + n} \<subseteq> heap_extent h' p
    \<and> (\<forall>q\<in>set ps. heap_extent h' q = heap_extent h q)" by blast
next
  fix h :: "'a heap" and ps p qs
  assume "heap_live h (ps @ p # qs)"
  then obtain fs us where us: "heap_inv h fs us" "map (\<lambda>u. u + MEMBLOCK) us = ps @ p # qs"
    unfolding heap_live_def by metis
  then obtain us1 u us2 where u: "us = us1 @ u # us2" "ps = map (\<lambda>u. u + MEMBLOCK) us1"
    "p = u + MEMBLOCK" "qs = map (\<lambda>u. u + MEMBLOCK) us2"
    by (auto simp: map_eq_append_conv map_eq_Cons_conv)
  obtain h' fs' where h': "heap_free h p = Inr h'" "heap_inv h' fs' (remove1 u us)"
    "\<forall>x\<in>set (remove1 u us). mem h' x = mem h x"
    using heap_free_ok [OF us(1), of u] u by auto
  have perm: "mset (remove1 u us) = mset (us1 @ us2)" unfolding u(1) by simp
  then have sets: "set (remove1 u us) = set (us1 @ us2)" by (rule mset_eq_setD)
  have "heap_live h' (ps @ qs)"
    unfolding heap_live_def u(2,4) using heap_inv_perm [OF h'(2) perm]
    by (intro exI [of _ fs'] exI [of _ "us1 @ us2"]) simp
  moreover have "\<forall>q\<in>set (ps @ qs). heap_extent h' q = heap_extent h q"
    using h'(3) sets u(2,4) by (auto intro!: heap_extent_cong)
  ultimately show "\<exists>h'. heap_free h p = Inr h' \<and> heap_live h' (ps @ qs)
    \<and> (\<forall>q\<in>set (ps @ qs). heap_extent h' q = heap_extent h q)" using h'(1) by blast
next
  fix h :: "'a heap" and ps p qs q
  assume "heap_live h (ps @ p # qs)" and q: "q \<in> set (ps @ qs)"
  then obtain fs us where us: "heap_inv h fs us" "map (\<lambda>u. u + MEMBLOCK) us = ps @ p # qs"
    unfolding heap_live_def by metis
  then obtain us1 u us2 where u: "us = us1 @ u # us2" "ps = map (\<lambda>u. u + MEMBLOCK) us1"
    "p = u + MEMBLOCK" "qs = map (\<lambda>u. u + MEMBLOCK) us2"
    by (auto simp: map_eq_append_conv map_eq_Cons_conv)
  have tl: "tiled (mem h) ((fs @ us1) @ u # us2) (m_heap_start h) (m_current_heap_end h)"
    using us(1) u(1) by (simp add: heap_inv_def)
  obtain w where "q = w + MEMBLOCK" "w \<in> set us1 \<union> set us2" using q u by auto
  then show "p \<noteq> q \<and> heap_extent h p \<inter> heap_extent h q = {}"
    using tiled_disjoint(1,2) [OF tl] tiled_disjoint(4) [OF tl, of w] u(3)
    by (auto simp: heap_extent_def)
qed

section \<open>Properties\<close>

text \<open>
  C1: along every run of allocations and frees from a fresh heap, whatever the page
  allocator does and as long as no allocation can take the heap past four gigabytes, the live blocks (header and payload) are pairwise disjoint and inside the
  heap, each payload is as long as the block's recorded size, and every live pointer can be
  freed without a panic.
\<close>

theorem heap_trace_safe:
  assumes "0 < a" "MEMBLOCK \<le> n" "a + n < 2 ^ 32"
    and "heap_trace (allocate allocate_page) heap_free heap_room (HeapAllocator_new a n e) [] h ps"
  shows "distinct ps
    \<and> (\<forall>p\<in>set ps. \<forall>q\<in>set ps. p \<noteq> q \<longrightarrow> heap_extent h p \<inter> heap_extent h q = {})
    \<and> (\<forall>p\<in>set ps. heap_extent h p \<subseteq> {m_heap_start h..<m_current_heap_end h}
         \<and> (\<exists>s. size_of_block h p = Inr s \<and> heap_extent h p = {p - MEMBLOCK..<p + s})
         \<and> (\<exists>h'. heap_free h p = Inr h'))"
proof -
  have "heap_live (HeapAllocator_new a n e) []"
    using HeapAllocator_new_ok [OF assms(1-3), of e] by (auto simp: heap_live_def)
  with assms(4) have live: "heap_live h ps" by (rule heap.trace_invar)
  then obtain fs us where us: "heap_inv h fs us" "ps = map (\<lambda>u. u + MEMBLOCK) us"
    by (auto simp: heap_live_def)
  have "heap_extent h p \<subseteq> {m_heap_start h..<m_current_heap_end h}
      \<and> (\<exists>s. size_of_block h p = Inr s \<and> heap_extent h p = {p - MEMBLOCK..<p + s})"
    if p: "p \<in> set ps" for p
  proof -
    obtain u where u: "u \<in> set us" "p = u + MEMBLOCK" using p us(2) by auto
    then obtain b where b: "mem h u = Some b" "magic b = MAGIC_USED" "addr b = u + MEMBLOCK"
      using us(1) by (auto simp: heap_inv_def list_all_iff used_ok_def split: option.splits)
    obtain us1 us2 where "us = us1 @ u # us2" using split_list [OF u(1)] by blast
    then have "tiled (mem h) ((fs @ us1) @ u # us2) (m_heap_start h) (m_current_heap_end h)"
      using us(1) by (simp add: heap_inv_def)
    from tiled_disjoint(5) [OF this] show ?thesis
      using u b by (auto simp: heap_extent_def size_of_block_def read_header_def is_magic_used_def
        block_bytes_def region_def)
  qed
  then show ?thesis
    using heap.live_disjoint [OF live] heap.live_releasable [OF live] by blast
qed

lemma page_heap_inv: "heap_inv (HeapAllocator_new 4096 4096 ()) [4096] []"
  by (rule HeapAllocator_new_ok) simp_all

lemma page_heap_allocate:
  "\<exists>p h. allocate (\<lambda>_ e. Inr e) (HeapAllocator_new 4096 4096 ()) 100 = Inr (p, h)
    \<and> heap_inv h [4096] [p - MEMBLOCK]"
proof -
  have "\<exists>x\<in>set [4096]. fits (mem (HeapAllocator_new 4096 4096 ())) 100 x"
    by (simp add: fits_def HeapAllocator_new_def MemBlock_initialize_def write_header_def)
  from allocate_fits [OF page_heap_inv _ this, of "\<lambda>_ e. Inr e"] show ?thesis by force
qed

lemma trace_one_block:
  "\<exists>h p. heap_trace (allocate (\<lambda>_ e. Inr e)) heap_free heap_room (HeapAllocator_new 4096 4096 ()) [] h [p]"
proof -
  have "heap_room (HeapAllocator_new 4096 4096 ()) 100"
    by (simp add: heap_room_def HeapAllocator_new_def)
  then show ?thesis using page_heap_allocate trace_alloc [OF trace_start] by metis
qed

theorem heap_trace_safe_witness:
  "\<exists>h p. heap_trace (allocate (\<lambda>_ e. Inr e)) heap_free heap_room (HeapAllocator_new 4096 4096 ()) [] h [p]
    \<and> heap_extent h p \<subseteq> {m_heap_start h..<m_current_heap_end h}
    \<and> (\<exists>s. size_of_block h p = Inr s \<and> heap_extent h p = {p - MEMBLOCK..<p + s})"
proof -
  obtain h p where "heap_trace (allocate (\<lambda>_ e. Inr e)) heap_free heap_room
      (HeapAllocator_new 4096 4096 ()) [] h [p]" using trace_one_block by blast
  with heap_trace_safe [OF _ _ _ this] show ?thesis by auto
qed

text \<open>
  An allocation that finds no free block expands the heap by \<open>size / PAGE_SIZE + 1\<close>
  pages and then serves the request exactly when the last page has room for the size and two
  headers; otherwise the assertion after the retry fails. The heap invariant holds
  afterwards and the other used blocks are untouched.
\<close>

theorem allocate_after_expansion:
  assumes "heap_inv h fs us" "n < 10000 * PAGE_SIZE_nat" "\<forall>x\<in>set fs. \<not> fits (mem h) n x"
    "heap_room h n"
    "allocate_pages allocate_page (m_current_heap_end h) [0..<n div PAGE_SIZE_nat + 1] (env h) = Inr e'"
  shows "if n mod PAGE_SIZE_nat + 2 * MEMBLOCK < PAGE_SIZE_nat
    then \<exists>p h'. allocate allocate_page h n = Inr (p, h')
      \<and> heap_inv h' (m_current_heap_end h # fs) ((p - MEMBLOCK) # us) \<and> allocated h n us p h'
    else allocate allocate_page h n = Inl AssertionFailed"
  using assms allocate_expands [of h fs us n allocate_page e'] by (simp add: heap_room_def)

theorem allocate_after_expansion_witness:
  "allocate (\<lambda>_ e. Inr e) (HeapAllocator_new 4096 4096 ()) 4070 = Inl AssertionFailed"
  using allocate_after_expansion [OF page_heap_inv, of 4070 "\<lambda>_ e. Inr e" "()"]
  by (simp add: fits_def HeapAllocator_new_def MemBlock_initialize_def write_header_def heap_room_def)

text \<open>
  Freeing a used block returns it, keeps the heap invariant with the block gone from the
  used ones and every other used block unchanged, and freeing the same pointer again is
  caught by the magic number.
\<close>

theorem free_returns_and_detects_double_free:
  assumes "heap_inv h fs us" "u \<in> set us"
  shows "\<exists>h' fs'. heap_free h (u + MEMBLOCK) = Inr h' \<and> heap_inv h' fs' (remove1 u us)
    \<and> (\<forall>x\<in>set (remove1 u us). mem h' x = mem h x)
    \<and> heap_free h' (u + MEMBLOCK) = Inl AssertionFailed"
proof -
  obtain h' fs' b' where "heap_free h (u + MEMBLOCK) = Inr h'" "heap_inv h' fs' (remove1 u us)"
    "\<forall>x\<in>set (remove1 u us). mem h' x = mem h x" "mem h' u = Some b'" "magic b' = MAGIC_FREE"
    using heap_free_ok [OF assms] by blast
  moreover from this have "heap_free h' (u + MEMBLOCK) = Inl AssertionFailed"
    by (simp add: heap_free_def read_header_def is_magic_used_def)
  ultimately show ?thesis by blast
qed

theorem free_returns_and_detects_double_free_witness:
  "\<exists>p h h' fs'. allocate (\<lambda>_ e. Inr e) (HeapAllocator_new 4096 4096 ()) 100 = Inr (p, h)
    \<and> heap_free h (p - MEMBLOCK + MEMBLOCK) = Inr h' \<and> heap_inv h' fs' []
    \<and> heap_free h' (p - MEMBLOCK + MEMBLOCK) = Inl AssertionFailed"
proof -
  obtain p h where ph: "allocate (\<lambda>_ e. Inr e) (HeapAllocator_new 4096 4096 ()) 100 = Inr (p, h)"
    "heap_inv h [4096] [p - MEMBLOCK]" using page_heap_allocate by blast
  with free_returns_and_detects_double_free [OF ph(2), of "p - MEMBLOCK"] show ?thesis by auto
qed

end
