(* ===== verification/ATA_Disk.thy ===== *)
theory ATA_Disk
  imports Bits_Math
begin

text \<open>
  The disk driver of \<^verbatim>\<open>kernel/drivers/ATADisk.cpp\<close>. The drive itself is hardware: a number of
  sectors of 256 words of 16 bits, which it hands over or takes through the data port one word
  at a time. It follows the ATA command set: the sector count 0 in its register means 256, it
  raises the data request once for each sector asked for, and a sector it does not have ends
  the command with the error bit set. Sectors it has taken may stay in its write cache until it is flushed.
\<close>

section \<open>The drive\<close>

record drive =
  capacity :: nat
  sector_words :: "nat \<Rightarrow> nat \<Rightarrow> u16"
  write_cache :: "nat list"

text \<open>
  Reading gives the last words written to a sector, whether they are on the medium or still in the drive's
  write cache; \<open>write_cache\<close> has the sectors that a loss of power would undo.
\<close>

text \<open>What the driver has put in the address and count registers.\<close>

record io_target =
  reg_lba :: u32
  reg_count :: u8

abbreviation SECTOR_SIZE_WORDS :: nat where "SECTOR_SIZE_WORDS \<equiv> 256"
abbreviation MAX_SECTOR :: u32 where "MAX_SECTOR \<equiv> 200000"

definition sectors_requested :: "io_target \<Rightarrow> nat" where
  "sectors_requested t = (if reg_count t = 0 then 256 else unat (reg_count t))"

section \<open>The driver\<close>

definition sanity_sector_idx :: "u32 \<Rightarrow> u32 \<Rightarrow> unit result" where
  "sanity_sector_idx start count = assert_that (start + count < MAX_SECTOR)"

definition select_io_target :: "u32 \<Rightarrow> u16 \<Rightarrow> io_target result" where
  "select_io_target start_sector num_sectors =
     rbind (assert_that (num_sectors > 0)) (\<lambda>_.
       Inr \<lparr>reg_lba = of_le32 (ucast start_sector) (ucast (drop_bit 8 start_sector))
                        (ucast (drop_bit 16 start_sector)) (ucast (drop_bit 24 start_sector AND 0x0F)),
            reg_count = (if num_sectors = 256 then 0 else ucast (LSB (ucast num_sectors)))\<rparr>)"

text \<open>
  Waiting for the \<open>i\<close>-th sector of a command: without a further data request the second loop
  of \<^verbatim>\<open>poll\<close> does not end, and the error bit fails the assertion.
\<close>

definition poll :: "drive \<Rightarrow> io_target \<Rightarrow> nat \<Rightarrow> unit result" where
  "poll d t i =
     (if sectors_requested t \<le> i then Inl Diverges
      else assert_that (unat (reg_lba t) + i < capacity d))"

text \<open>A write of \<open>bs\<close> at offset \<open>off\<close> of the buffer behind a pointer.\<close>

definition put_bytes :: "nat \<Rightarrow> 'a list \<Rightarrow> 'a list \<Rightarrow> 'a list result" where
  "put_bytes off bs buff =
     (if off + length bs \<le> length buff then Inr (blit off bs buff) else Inl BadAccess)"

definition get_bytes :: "nat \<Rightarrow> nat \<Rightarrow> 'a list \<Rightarrow> 'a list result" where
  "get_bytes off n buff = (if off + n \<le> length buff then Inr (chunk off n buff) else Inl BadAccess)"

definition bytes_of_word :: "u16 \<Rightarrow> u8 list" where
  "bytes_of_word val = [ucast (LSB (ucast val)), ucast (MSB (ucast val))]"

definition sector_bytes :: "drive \<Rightarrow> nat \<Rightarrow> u8 list" where
  "sector_bytes d s = concat (map (\<lambda>i. bytes_of_word (sector_words d s i)) [0..<SECTOR_SIZE_WORDS])"

text \<open>The pointer \<^verbatim>\<open>buff\<close> is a buffer and an offset in it.\<close>

definition read_sectors :: "drive \<Rightarrow> u32 \<Rightarrow> u16 \<Rightarrow> u8 list \<Rightarrow> nat \<Rightarrow> u8 list result" where
  "read_sectors d start_sector num_sectors buff off =
     rbind (sanity_sector_idx start_sector (ucast num_sectors)) (\<lambda>_.
     rbind (select_io_target start_sector num_sectors) (\<lambda>t.
       rfold (\<lambda>sector_i buff.
           rbind (poll d t sector_i) (\<lambda>_.
             put_bytes (off + sector_i * SECTOR_SIZE_BYTES)
               (sector_bytes d (unat (reg_lba t) + sector_i)) buff))
         [0..<unat num_sectors] buff))"

definition put_sector :: "drive \<Rightarrow> nat \<Rightarrow> u8 list \<Rightarrow> drive" where
  "put_sector d s bs =
     d\<lparr>sector_words := (sector_words d)(s := (\<lambda>i. if i < SECTOR_SIZE_WORDS
         then ucast (bs ! (2 * i)) OR push_bit 8 (ucast (bs ! (2 * i + 1)))
         else sector_words d s i)), write_cache := write_cache d @ [s]\<rparr>"

text \<open>
  \<^verbatim>\<open>COMMAND_CACHE_FLUSH\<close>, which the driver writes to the command register after each sector, without looking at the
  status. The standard leaves open what a drive does with a command in the middle of a transfer; it is assumed that it
  ignores the command and goes on with the transfer, as the emulator does that the system runs on. After the last sector the
  command moves the cache to the medium.
\<close>

definition cache_flush :: "io_target \<Rightarrow> nat \<Rightarrow> drive \<Rightarrow> drive" where
  "cache_flush t sector_i d = (if Suc sector_i < sectors_requested t then d else d\<lparr>write_cache := []\<rparr>)"

definition write_sectors :: "drive \<Rightarrow> u32 \<Rightarrow> u16 \<Rightarrow> u8 list \<Rightarrow> nat \<Rightarrow> drive result" where
  "write_sectors d start_sector num_sectors buff off =
     rbind (sanity_sector_idx start_sector (ucast num_sectors)) (\<lambda>_.
     rbind (select_io_target start_sector num_sectors) (\<lambda>t.
       rfold (\<lambda>sector_i d.
           rbind (poll d t sector_i) (\<lambda>_.
           rbind (get_bytes (off + sector_i * SECTOR_SIZE_BYTES) SECTOR_SIZE_BYTES buff) (\<lambda>bs.
             Inr (cache_flush t sector_i (put_sector d (unat (reg_lba t) + sector_i) bs)))))
         [0..<unat num_sectors] d))"

text \<open>The test that \<^verbatim>\<open>initialize\<close> runs on sector 2.\<close>

definition ATADisk_initialize :: "drive \<Rightarrow> drive result" where
  "ATADisk_initialize d =
     rbind (read_sectors d 2 1 (replicate SECTOR_SIZE_BYTES 0) 0) (\<lambda>buff.
     let orig_value = buff ! 5 in
     rbind (write_sectors d 2 1 (buff[5 := 1]) 0) (\<lambda>d1.
     rbind (read_sectors d1 2 1 (replicate SECTOR_SIZE_BYTES 0) 0) (\<lambda>buff2.
     rbind (assert_that (buff2 ! 5 = 1)) (\<lambda>_.
     rbind (write_sectors d1 2 1 (buff2[5 := orig_value]) 0) (\<lambda>d2.
     rbind (read_sectors d2 2 1 (buff2[5 := 0]) 0) (\<lambda>buff3.
     rbind (assert_that (buff3 ! 5 = orig_value)) (\<lambda>_. Inr d2)))))))"

section \<open>Sectors as bytes\<close>

lemma bytes_of_word_eq: "bytes_of_word w = le16 w"
proof -
  have "ucast (LSB (ucast w)) = (ucast w :: u8)"
    by (rule bit_word_eqI) (simp add: LSB_def word_and_0xFF bit_simps)
  moreover have "ucast (MSB (ucast w)) = (ucast (drop_bit 8 w) :: u8)"
    by (rule bit_word_eqI) (auto simp: MSB_def word_and_0xFF bit_simps)
  ultimately show ?thesis by (simp add: bytes_of_word_def le16_def)
qed

lemma length_concat_pairs: "length (concat (map (\<lambda>i. le16 (f i)) [0..<n])) = 2 * n"
  by (induction n) simp_all

lemma length_sector_bytes [simp]: "length (sector_bytes d s) = 512"
  by (simp add: sector_bytes_def bytes_of_word_eq length_concat_pairs del: upt_rec_numeral)

lemma le16_of_bytes: "le16 (ucast a OR push_bit 8 (ucast b)) = [a, b]"
proof -
  have "ucast (ucast a OR push_bit 8 (ucast b) :: u16) = a"
    by (rule bit_word_eqI) (auto simp: bit_simps)
  moreover have "ucast (drop_bit 8 (ucast a OR push_bit 8 (ucast b) :: u16)) = b"
    by (rule bit_word_eqI) (auto simp: bit_simps dest: bit_imp_le_length)
  ultimately show ?thesis by (simp add: le16_def)
qed

lemma concat_pairs:
  "2 * n \<le> length bs \<Longrightarrow> concat (map (\<lambda>i. [bs ! (2 * i), bs ! (2 * i + 1)]) [0..<n]) = take (2 * n) bs"
  by (induction n) (simp_all add: take_Suc_conv_app_nth)

lemma sector_bytes_put [simp]:
  assumes "length bs = 512"
  shows "sector_bytes (put_sector d s bs) t = (if t = s then bs else sector_bytes d t)"
proof (cases "t = s")
  case True
  have "sector_bytes (put_sector d s bs) s
      = concat (map (\<lambda>i. [bs ! (2 * i), bs ! (2 * i + 1)]) [0..<256])"
    unfolding sector_bytes_def bytes_of_word_eq
    by (rule arg_cong [where f = concat], rule map_cong) (simp_all add: put_sector_def le16_of_bytes)
  also have "\<dots> = bs" using concat_pairs [of 256 bs] assms by (simp del: upt_rec_numeral)
  finally show ?thesis using True by simp
qed (simp add: sector_bytes_def put_sector_def)

lemma capacity_put [simp]: "capacity (put_sector d s bs) = capacity d"
  by (simp add: put_sector_def)

lemma cache_flush_simps [simp]: "sector_bytes (cache_flush t i d) = sector_bytes d" "capacity (cache_flush t i d) = capacity d"
  by (simp_all add: cache_flush_def sector_bytes_def fun_eq_iff)

lemma put_bytes_ok [simp]: "off + length bs \<le> length buff \<Longrightarrow> put_bytes off bs buff = Inr (blit off bs buff)"
  by (simp add: put_bytes_def)

lemma get_bytes_ok [simp]: "off + n \<le> length buff \<Longrightarrow> get_bytes off n buff = Inr (chunk off n buff)"
  by (simp add: get_bytes_def)

section \<open>Transfers\<close>

text \<open>A transfer the driver accepts and the drive can serve.\<close>

definition sectors_ok :: "drive \<Rightarrow> u32 \<Rightarrow> u16 \<Rightarrow> bool" where
  "sectors_ok d s n \<longleftrightarrow> 0 < n \<and> n \<le> 256 \<and> unat s + unat n < 200000 \<and> unat s + unat n \<le> capacity d"

lemma select_ok:
  assumes "sectors_ok d s n"
  obtains t where "sanity_sector_idx s (ucast n) = Inr ()" "select_io_target s n = Inr t"
    "unat (reg_lba t) = unat s" "sectors_requested t = unat n"
proof -
  have un: "unat (ucast n :: u32) = unat n" by (simp add: unat_ucast_up)
  have n: "0 < unat n" "unat n \<le> 256" using assms by (simp_all add: sectors_ok_def word_less_nat_alt word_le_nat_alt)
  have s: "unat s < 200000" using assms by (simp add: sectors_ok_def)
  have "unat (s + ucast n) < 200000"
    using assms un unat_add_lem [of s "ucast n"] by (simp add: sectors_ok_def)
  then have sane: "sanity_sector_idx s (ucast n) = Inr ()"
    by (simp add: sanity_sector_idx_def word_less_nat_alt)
  have hi: "drop_bit 24 s = 0" 
    using s by (simp add: word_unat_eq_iff drop_bit_eq_div unat_div)
  have lba: "of_le32 (ucast s) (ucast (drop_bit 8 s)) (ucast (drop_bit 16 s)) (ucast (drop_bit 24 s AND 0x0F)) = s"
    using of_le32_le32 [of s] hi by simp
  have cnt: "(if (if n = 256 then 0 else ucast (LSB (ucast n))) = (0 :: u8) then 256
      else unat (if n = 256 then 0 else ucast (LSB (ucast n)) :: u8)) = unat n"
  proof (cases "n = 256")
    case False
    then have lt: "unat n < 256" using n(2) by (simp add: word_unat_eq_iff le_neq_implies_less)
    have "unat (ucast (LSB (ucast n)) :: u8) = unat n"
      using lt by (simp add: LSB_def word_and_0xFF unsigned_ucast_eq unsigned_take_bit_eq take_bit_nat_eq_self)
    then show ?thesis using False n(1) by auto
  qed simp
  show ?thesis
  proof
    show "sanity_sector_idx s (ucast n) = Inr ()" by (fact sane)
    show "select_io_target s n = Inr \<lparr>reg_lba = s, reg_count = (if n = 256 then 0 else ucast (LSB (ucast n)))\<rparr>"
      using assms lba by (simp add: select_io_target_def sectors_ok_def)
  qed (use cnt in \<open>auto simp: sectors_requested_def split: if_splits\<close>)
qed

text \<open>The bytes of a run of sectors.\<close>

definition sectors_bytes :: "drive \<Rightarrow> nat \<Rightarrow> nat \<Rightarrow> u8 list" where
  "sectors_bytes d s n = concat (map (sector_bytes d) [s..<s + n])"

lemma length_sectors_bytes [simp]: "length (sectors_bytes d s n) = n * 512"
  by (induction n) (simp_all add: sectors_bytes_def)

lemma sectors_bytes_Suc: "sectors_bytes d s (Suc n) = sectors_bytes d s n @ sector_bytes d (s + n)"
  by (simp add: sectors_bytes_def)

lemma sectors_bytes_0 [simp]: "sectors_bytes d s 0 = []"
  by (simp add: sectors_bytes_def)

lemma sectors_bytes_cong:
  "(\<And>t. s \<le> t \<Longrightarrow> t < s + n \<Longrightarrow> sector_bytes d' t = sector_bytes d t) \<Longrightarrow>
   sectors_bytes d' s n = sectors_bytes d s n"
  unfolding sectors_bytes_def by (rule arg_cong [where f = concat], rule map_cong) auto

lemma blit_append:
  "off + length a + length b \<le> length buff \<Longrightarrow>
   blit (off + length a) b (blit off a buff) = blit off (a @ b) buff"
  by (simp add: blit_def ac_simps)

lemma blit_Nil [simp]: "blit off [] buff = buff"
  by (simp add: blit_def)

lemma read_sectors_ok:
  assumes "sectors_ok d s n" "off + unat n * 512 \<le> length buff"
  shows "read_sectors d s n buff off = Inr (blit off (sectors_bytes d (unat s) (unat n)) buff)"
proof -
  obtain t where t: "sanity_sector_idx s (ucast n) = Inr ()" "select_io_target s n = Inr t"
    "unat (reg_lba t) = unat s" "sectors_requested t = unat n"
    using select_ok [OF assms(1)] .
  have step: "rfold (\<lambda>i buff. rbind (poll d t i) (\<lambda>_.
      put_bytes (off + i * 512) (sector_bytes d (unat s + i)) buff)) [0..<m] buff
    = Inr (blit off (sectors_bytes d (unat s) m) buff)" if "m \<le> unat n" for m
    using that
  proof (induction m)
    case (Suc m)
    have "poll d t m = Inr ()" using Suc.prems t assms(1) by (simp add: poll_def sectors_ok_def)
    then show ?case using Suc assms(2)
        blit_append [of off "sectors_bytes d (unat s) m" "sector_bytes d (unat s + m)" buff]
      by (simp add: rfold_append sectors_bytes_Suc)
  qed simp
  show ?thesis using t step [OF order_refl] by (simp add: read_sectors_def)
qed

lemma write_sectors_ok:
  assumes "sectors_ok d s n" "off + unat n * 512 \<le> length buff"
  obtains d' where "write_sectors d s n buff off = Inr d'" "capacity d' = capacity d"
    "\<And>u. sector_bytes d' u = (if unat s \<le> u \<and> u < unat s + unat n
       then chunk (off + (u - unat s) * 512) 512 buff else sector_bytes d u)"
proof -
  obtain t where t: "sanity_sector_idx s (ucast n) = Inr ()" "select_io_target s n = Inr t"
    "unat (reg_lba t) = unat s" "sectors_requested t = unat n"
    using select_ok [OF assms(1)] .
  have step: "\<exists>d'. rfold (\<lambda>i d. rbind (poll d t i) (\<lambda>_. rbind (get_bytes (off + i * 512) 512 buff) (\<lambda>bs.
      Inr (cache_flush t i (put_sector d (unat s + i) bs))))) [0..<m] d = Inr d' \<and> capacity d' = capacity d
    \<and> (\<forall>u. sector_bytes d' u = (if unat s \<le> u \<and> u < unat s + m
       then chunk (off + (u - unat s) * 512) 512 buff else sector_bytes d u))" if "m \<le> unat n" for m
    using that
  proof (induction m)
    case (Suc m)
    then obtain d' where d': "rfold (\<lambda>i d. rbind (poll d t i) (\<lambda>_. rbind (get_bytes (off + i * 512) 512 buff) (\<lambda>bs.
      Inr (cache_flush t i (put_sector d (unat s + i) bs))))) [0..<m] d = Inr d'" "capacity d' = capacity d"
      "\<And>u. sector_bytes d' u = (if unat s \<le> u \<and> u < unat s + m
       then chunk (off + (u - unat s) * 512) 512 buff else sector_bytes d u)" by auto
    have "poll d' t m = Inr ()" using Suc.prems t assms(1) d'(2) by (simp add: poll_def sectors_ok_def)
    then show ?case using Suc.prems assms(2) d' by (auto simp: rfold_append)
  qed auto
  show ?thesis using t step [OF order_refl] that by (auto simp: write_sectors_def)
qed

text \<open>After a write nothing is left in the drive's cache.\<close>

lemma write_sectors_flushed:
  assumes "sectors_ok d s n" "write_sectors d s n buff off = Inr d'"
  shows "write_cache d' = []"
proof -
  obtain t where t: "sanity_sector_idx s (ucast n) = Inr ()" "select_io_target s n = Inr t"
    "unat (reg_lba t) = unat s" "sectors_requested t = unat n"
    using select_ok [OF assms(1)] .
  have "unat n \<noteq> 0" using assms(1) by (auto simp: sectors_ok_def word_less_nat_alt)
  then obtain k where k: "unat n = Suc k" using not0_implies_Suc by blast
  then show ?thesis
    using assms(2) t unfolding write_sectors_def k
    by (auto simp: rfold_append cache_flush_def)
qed

lemma rfold_cong:
  "(\<And>x s. x \<in> set xs \<Longrightarrow> f x s = g x s) \<Longrightarrow> rfold f xs s = rfold g xs s"
  by (induction xs arbitrary: s) (auto intro!: rbind_cong)

text \<open>Only the bytes of the sectors count, not what the buffer holds behind them.\<close>

lemma write_sectors_take:
  assumes "off + unat n * 512 \<le> m" "m \<le> length buff"
  shows "write_sectors d s n (take m buff) off = write_sectors d s n buff off"
proof -
  have "get_bytes (off + i * 512) 512 (take m buff) = get_bytes (off + i * 512) 512 buff" if "i < unat n" for i
  proof -
    have "off + i * 512 + 512 \<le> m" using assms(1) that by linarith
    then show ?thesis using assms(2) by (simp add: get_bytes_def chunk_def drop_take min_def)
  qed
  then show ?thesis by (auto simp: write_sectors_def intro!: rbind_cong rfold_cong)
qed

text \<open>What a write leaves in its sectors is read back, and no other sector changes.\<close>

lemma write_read_sectors:
  assumes "sectors_ok d s n" "off + unat n * 512 \<le> length buff" "write_sectors d s n buff off = Inr d'"
  shows "sectors_bytes d' (unat s) (unat n) = chunk off (unat n * 512) buff"
proof -
  obtain d'' where d'': "write_sectors d s n buff off = Inr d''"
    "\<And>u. sector_bytes d'' u = (if unat s \<le> u \<and> u < unat s + unat n
       then chunk (off + (u - unat s) * 512) 512 buff else sector_bytes d u)"
    using write_sectors_ok [OF assms(1,2)] by metis
  have "sectors_bytes d'' (unat s) m = chunk off (m * 512) buff" if "m \<le> unat n" for m
    using that
  proof (induction m)
    case (Suc m)
    then show ?case using d''(2) [of "unat s + m"] assms(2)
      using take_add [of "m * 512" 512 "drop off buff"]
      by (simp add: sectors_bytes_Suc chunk_def) (simp add: ac_simps)
  qed (simp add: chunk_def)
  then show ?thesis using assms(3) d''(1) by simp
qed

text \<open>
  The self test of the disk driver passes on every drive with more than two sectors, and
  leaves all sectors as they were.
\<close>

theorem disk_self_test:
  assumes "2 < capacity d"
  shows "\<exists>d'. ATADisk_initialize d = Inr d' \<and> capacity d' = capacity d
    \<and> (\<forall>s. sector_bytes d' s = sector_bytes d s)"
proof -
  have ok: "sectors_ok e 2 1" if "capacity e = capacity d" for e
    using assms that by (simp add: sectors_ok_def)
  define b where "b = sector_bytes d 2"
  have rd: "read_sectors e 2 1 buff 0 = Inr (sector_bytes e 2)"
    if "capacity e = capacity d" "length buff = 512" for e buff
    using read_sectors_ok [OF ok [OF that(1)], of 0 buff] that(2)
    by (simp add: sectors_bytes_def blit_def upt_rec)
  have wr: "\<exists>e'. write_sectors e 2 1 buff 0 = Inr e' \<and> capacity e' = capacity d
      \<and> (\<forall>u. sector_bytes e' u = (if u = 2 then buff else sector_bytes e u))"
    if "capacity e = capacity d" "length buff = 512" for e buff
  proof -
    note ok_e = ok [OF that(1)] and len = that(2)
    obtain e' where e': "write_sectors e 2 1 buff 0 = Inr e'" "capacity e' = capacity e"
      "\<And>u. sector_bytes e' u = (if unat (2 :: u32) \<le> u \<and> u < unat (2 :: u32) + unat (1 :: u16)
         then chunk (0 + (u - unat (2 :: u32)) * 512) 512 buff else sector_bytes e u)"
      by (rule write_sectors_ok [where d = e and s = 2 and n = 1 and off = 0 and buff = buff])
        (use ok_e len in simp_all)
    then show ?thesis using that by (auto simp: chunk_def)
  qed
  obtain d1 where d1: "write_sectors d 2 1 (b[5 := 1]) 0 = Inr d1" "capacity d1 = capacity d"
    "\<And>u. sector_bytes d1 u = (if u = 2 then b[5 := 1] else sector_bytes d u)"
    using wr [of d "b[5 := 1]"] by (auto simp: b_def)
  obtain d2 where d2: "write_sectors d1 2 1 (b[5 := 1, 5 := b ! 5]) 0 = Inr d2" "capacity d2 = capacity d"
    "\<And>u. sector_bytes d2 u = (if u = 2 then b else sector_bytes d1 u)"
    using wr [of d1 "b[5 := 1, 5 := b ! 5]"] d1(2) by (auto simp: b_def)
  have "ATADisk_initialize d = Inr d2"
    using rd [of d] rd [of d1] rd [of d2] d1 d2
    by (simp add: ATADisk_initialize_def b_def del: rbind_Inr_iff)
  moreover have "sector_bytes d2 s = sector_bytes d s" for s
    using d1(3) d2(3) by (simp add: b_def)
  ultimately show ?thesis using d2(2) by blast
qed

theorem disk_self_test_witness:
  "\<exists>d'. ATADisk_initialize \<lparr>capacity = 4, sector_words = \<lambda>s i. word_of_nat (s + i), write_cache = []\<rparr> = Inr d'
    \<and> capacity d' = 4"
  using disk_self_test [of "\<lparr>capacity = 4, sector_words = \<lambda>s i. word_of_nat (s + i), write_cache = []\<rparr>"] by auto

end
