(* ===== verification/Fat32_Table.thy ===== *)
theory Fat32_Table
  imports ATA_Disk
begin

text \<open>
  The lower half of \<^verbatim>\<open>kernel/FileSystem/Fat32FS.cpp\<close>: the geometry that the boot sector gives,
  the file allocation table and the clusters behind it. A file or directory is a chain of
  clusters; the entry of a cluster in the table is the next cluster of the chain, and a value
  from \<open>FAT_ENTRY_EOF\<close> on ends it. The predicate \<open>fat_chain\<close> is the specification of a chain,
  and the loops that follow one are proved to end on every chain and to return its clusters in
  order.
\<close>

section \<open>State and operations\<close>

record Fat32FS =
  FAT_sector :: u32
  FAT_size_in_sectors :: u32
  data_start_sector :: u32
  sectors_per_cluster :: u32
  bytes_per_sector :: u32
  root_cluster :: u32

abbreviation FAT_ENTRY_EOF :: u32 where "FAT_ENTRY_EOF \<equiv> 0xFFFFFF8"

text \<open>
  The fields of the packed structures \<^verbatim>\<open>FatBootSector\<close> and \<^verbatim>\<open>Fat32Extension\<close> that the code
  reads; the extension starts at offset 36.
\<close>

record FatBootSector =
  bs_bytes_per_sector :: u16
  bs_sectors_per_cluster :: u8
  bs_reserved_sector_count :: u16
  bs_table_count :: u8

record Fat32Extension =
  ext_table_size_32 :: u32
  ext_root_cluster :: u32

definition u16_at :: "u8 list \<Rightarrow> nat \<Rightarrow> u16" where
  "u16_at bs i = of_le16 (bs ! i) (bs ! (i + 1))"

definition u32_at :: "u8 list \<Rightarrow> nat \<Rightarrow> u32" where
  "u32_at bs i = of_le32 (bs ! i) (bs ! (i + 1)) (bs ! (i + 2)) (bs ! (i + 3))"

definition boot_sector_of :: "u8 list \<Rightarrow> FatBootSector" where
  "boot_sector_of bs =
     \<lparr>bs_bytes_per_sector = u16_at bs 11, bs_sectors_per_cluster = bs ! 13,
      bs_reserved_sector_count = u16_at bs 14, bs_table_count = bs ! 16\<rparr>"

definition extension_of :: "u8 list \<Rightarrow> Fat32Extension" where
  "extension_of bs = \<lparr>ext_table_size_32 = u32_at bs 36, ext_root_cluster = u32_at bs 44\<rparr>"

definition Fat32FS_new :: "FatBootSector \<Rightarrow> Fat32Extension \<Rightarrow> Fat32FS result" where
  "Fat32FS_new boot_sector extension =
     rbind (assert_that (bs_table_count boot_sector = 2)) (\<lambda>_.
     rbind (assert_that (bs_bytes_per_sector boot_sector = 512)) (\<lambda>_.
     rbind (assert_that (ext_root_cluster extension = 2)) (\<lambda>_.
     let fat = ucast (bs_reserved_sector_count boot_sector); fat_size = ext_table_size_32 extension in
       Inr \<lparr>FAT_sector = fat,
            FAT_size_in_sectors = fat_size,
            data_start_sector = fat + fat_size * 2,
            sectors_per_cluster = ucast (bs_sectors_per_cluster boot_sector),
            bytes_per_sector = ucast (bs_bytes_per_sector boot_sector),
            root_cluster = ext_root_cluster extension\<rparr>)))"

text \<open>\<open>s_the\<close> is \<open>None\<close> until the file system is initialized.\<close>

definition Fat32FS_initialize :: "Fat32FS option \<Rightarrow> drive \<Rightarrow> Fat32FS result" where
  "Fat32FS_initialize s_the d =
     rbind (assert_that (s_the = None)) (\<lambda>_.
     rbind (read_sectors d 0 1 (replicate SECTOR_SIZE_BYTES 0) 0) (\<lambda>buff.
       Fat32FS_new (boot_sector_of buff) (extension_of buff)))"

definition cluster_to_sector :: "Fat32FS \<Rightarrow> u32 \<Rightarrow> u32" where
  "cluster_to_sector fs cluster = data_start_sector fs + (cluster - 2) * sectors_per_cluster fs"

definition cluster_size :: "Fat32FS \<Rightarrow> u32" where
  "cluster_size fs = 512 * sectors_per_cluster fs"

definition entry_in_fat :: "Fat32FS \<Rightarrow> drive \<Rightarrow> u32 \<Rightarrow> u32 result" where
  "entry_in_fat fs d cluster =
     (if bytes_per_sector fs div 4 = 0 then Inl DivideError
      else let sector_idx = cluster div (bytes_per_sector fs div 4) in
      rbind (assert_that (sector_idx < FAT_size_in_sectors fs)) (\<lambda>_.
      rbind (read_sectors d (FAT_sector fs + sector_idx) 1 (replicate SECTOR_SIZE_BYTES 0) 0) (\<lambda>buff.
      let i = 4 * unat (cluster mod (bytes_per_sector fs div 4)) in
        if i + 4 \<le> length buff then Inr (u32_at buff i) else Inl BadAccess)))"

definition read_cluster :: "Fat32FS \<Rightarrow> drive \<Rightarrow> u32 \<Rightarrow> u8 list \<Rightarrow> nat \<Rightarrow> u8 list result" where
  "read_cluster fs d cluster buff off =
     read_sectors d (cluster_to_sector fs cluster) (ucast (sectors_per_cluster fs)) buff off"

definition write_cluster :: "Fat32FS \<Rightarrow> drive \<Rightarrow> u32 \<Rightarrow> u8 list \<Rightarrow> drive result" where
  "write_cluster fs d cluster buff =
     write_sectors d (cluster_to_sector fs cluster) (ucast (sectors_per_cluster fs)) buff 0"

text \<open>
  Reading a chain into the buffer behind \<open>data\<close>. The offset \<^verbatim>\<open>cluster_size * cluster_i\<close> is a
  number here: a buffer is shorter than \<open>2 ^ 32\<close>, so it is left before the product wraps.
\<close>

partial_function (option) read_whole_loop ::
    "Fat32FS \<Rightarrow> drive \<Rightarrow> u32 \<Rightarrow> nat \<Rightarrow> u8 list \<Rightarrow> u8 list result option" where
  "read_whole_loop fs d current_cluster cluster_i data =
     (case read_cluster fs d current_cluster data (unat (cluster_size fs) * cluster_i) of
        Inl e \<Rightarrow> Some (Inl e)
      | Inr data' \<Rightarrow>
          (case entry_in_fat fs d current_cluster of
             Inl e \<Rightarrow> Some (Inl e)
           | Inr next_cluster \<Rightarrow>
               if next_cluster \<ge> FAT_ENTRY_EOF then Some (Inr data')
               else read_whole_loop fs d (next_cluster AND 0x0fffffff) (Suc cluster_i) data'))"

definition read_whole_entry :: "Fat32FS \<Rightarrow> drive \<Rightarrow> u32 \<Rightarrow> u8 list \<Rightarrow> u8 list result" where
  "read_whole_entry fs d start_cluster data = loop (read_whole_loop fs d start_cluster 0 data)"

partial_function (option) num_clusters_loop ::
    "Fat32FS \<Rightarrow> drive \<Rightarrow> u32 \<Rightarrow> nat \<Rightarrow> nat result option" where
  "num_clusters_loop fs d current_cluster num_clusters =
     (case entry_in_fat fs d current_cluster of
        Inl e \<Rightarrow> Some (Inl e)
      | Inr next_cluster \<Rightarrow>
          if next_cluster \<ge> FAT_ENTRY_EOF then Some (Inr num_clusters)
          else num_clusters_loop fs d (next_cluster AND 0x0fffffff) (Suc num_clusters))"

definition num_clusters_in_entry :: "Fat32FS \<Rightarrow> drive \<Rightarrow> u32 \<Rightarrow> nat result" where
  "num_clusters_in_entry fs d start_cluster = loop (num_clusters_loop fs d start_cluster 1)"

text \<open>
  The buffers the file system works in come from \<^verbatim>\<open>BigBuffer::allocate\<close>: whole pages, with what
  was in them before. \<open>bb_room n\<close> says whether the pool has \<open>n\<close> pages in a row; without them
  the pointer is null and the \<^verbatim>\<open>->\<close> that follows every allocation fails its assertion.
\<close>

record buffer_pool =
  bb_room :: "nat \<Rightarrow> bool"
  bb_ram :: "nat \<Rightarrow> u8"

record BigBuffer =
  bb_data :: "u8 list"
  bb_size :: nat

definition pages_for :: "nat \<Rightarrow> nat" where
  "pages_for n = (n + (PAGE_SIZE_nat - 1)) div PAGE_SIZE_nat"

definition new_buffer :: "buffer_pool \<Rightarrow> nat \<Rightarrow> BigBuffer result" where
  "new_buffer pool n =
     rbind (assert_that (n > 0)) (\<lambda>_.
     rbind (assert_that (bb_room pool (pages_for n))) (\<lambda>_.
       Inr \<lparr>bb_data = map (bb_ram pool) [0..<PAGE_SIZE_nat * pages_for n], bb_size = n\<rparr>))"

definition read_whole_buffer :: "Fat32FS \<Rightarrow> buffer_pool \<Rightarrow> drive \<Rightarrow> u32 \<Rightarrow> BigBuffer result" where
  "read_whole_buffer fs pool d start_cluster =
     rbind (num_clusters_in_entry fs d start_cluster) (\<lambda>num_clusters.
     rbind (new_buffer pool (wrap32 (num_clusters * unat (cluster_size fs)))) (\<lambda>buff.
     rbind (read_whole_entry fs d start_cluster (bb_data buff)) (\<lambda>data.
       Inr (buff\<lparr>bb_data := data\<rparr>))))"

text \<open>The first position from \<open>j\<close> on whose entry is zero.\<close>

fun free_entry_from :: "u8 list \<Rightarrow> nat list \<Rightarrow> nat option" where
  "free_entry_from buff [] = None"
| "free_entry_from buff (j # js) =
     (if u32_at buff (4 * j) = 0 then Some j else free_entry_from buff js)"

abbreviation entries_per_fat_sector :: nat where "entries_per_fat_sector \<equiv> 128"

fun find_free_loop :: "Fat32FS \<Rightarrow> drive \<Rightarrow> nat list \<Rightarrow> u32 result" where
  "find_free_loop fs d [] = Inl NotReached"
| "find_free_loop fs d (i # is) =
     rbind (read_sectors d (FAT_sector fs + word_of_nat i) 1 (replicate SECTOR_SIZE_BYTES 0) 0) (\<lambda>buff.
       case free_entry_from buff [0..<entries_per_fat_sector] of
         Some j \<Rightarrow> Inr (word_of_nat (i * entries_per_fat_sector + j))
       | None \<Rightarrow> find_free_loop fs d is)"

definition find_free_cluster :: "Fat32FS \<Rightarrow> drive \<Rightarrow> u32 result" where
  "find_free_cluster fs d = find_free_loop fs d [0..<unat (FAT_size_in_sectors fs)]"

definition update_FAT :: "Fat32FS \<Rightarrow> drive \<Rightarrow> u32 \<Rightarrow> u32 \<Rightarrow> drive result" where
  "update_FAT fs d cluster_idx val =
     (let fat_sector_i = cluster_idx div 128; entry_index_in_sector = unat (cluster_idx mod 128) in
      rbind (read_sectors d (FAT_sector fs + fat_sector_i) 1 (replicate SECTOR_SIZE_BYTES 0) 0) (\<lambda>buff.
      rbind (put_bytes (4 * entry_index_in_sector) (le32 val) buff) (\<lambda>buff'.
        write_sectors d (FAT_sector fs + fat_sector_i) 1 buff' 0)))"

section \<open>Geometry\<close>

text \<open>
  A file system whose table and whose clusters lie on the drive, the clusters behind the two
  copies of the table.
\<close>

definition fat_ok :: "Fat32FS \<Rightarrow> drive \<Rightarrow> bool" where
  "fat_ok fs d \<longleftrightarrow> bytes_per_sector fs = 512
     \<and> 0 < sectors_per_cluster fs \<and> sectors_per_cluster fs < 256
     \<and> unat (data_start_sector fs) = unat (FAT_sector fs) + 2 * unat (FAT_size_in_sectors fs)
     \<and> unat (FAT_sector fs) + unat (FAT_size_in_sectors fs) < 200000
     \<and> unat (FAT_sector fs) + unat (FAT_size_in_sectors fs) \<le> capacity d"

abbreviation spc :: "Fat32FS \<Rightarrow> nat" where
  "spc fs \<equiv> unat (sectors_per_cluster fs)"

definition first_sector :: "Fat32FS \<Rightarrow> u32 \<Rightarrow> nat" where
  "first_sector fs c = unat (data_start_sector fs) + (unat c - 2) * spc fs"

definition in_fat :: "Fat32FS \<Rightarrow> u32 \<Rightarrow> bool" where
  "in_fat fs c \<longleftrightarrow> unat c < 128 * unat (FAT_size_in_sectors fs)"

definition cluster_ok :: "Fat32FS \<Rightarrow> drive \<Rightarrow> u32 \<Rightarrow> bool" where
  "cluster_ok fs d c \<longleftrightarrow> 2 \<le> unat c \<and> in_fat fs c
     \<and> first_sector fs c + spc fs < 200000 \<and> first_sector fs c + spc fs \<le> capacity d"

definition cluster_bytes :: "Fat32FS \<Rightarrow> drive \<Rightarrow> u32 \<Rightarrow> u8 list" where
  "cluster_bytes fs d c = sectors_bytes d (first_sector fs c) (spc fs)"

definition fat_entry :: "Fat32FS \<Rightarrow> drive \<Rightarrow> u32 \<Rightarrow> u32" where
  "fat_entry fs d c =
     u32_at (sector_bytes d (unat (FAT_sector fs) + unat c div 128)) (4 * (unat c mod 128))"

lemma fat_okD:
  assumes "fat_ok fs d"
  shows "bytes_per_sector fs = 512" "0 < spc fs" "spc fs < 256"
    "unat (data_start_sector fs) = unat (FAT_sector fs) + 2 * unat (FAT_size_in_sectors fs)"
    "unat (FAT_sector fs) + unat (FAT_size_in_sectors fs) < 200000"
    "unat (FAT_sector fs) + unat (FAT_size_in_sectors fs) \<le> capacity d"
  using assms by (simp_all add: fat_ok_def word_less_nat_alt unat_gt_0)

lemma unat_cluster_size: "fat_ok fs d \<Longrightarrow> unat (cluster_size fs) = 512 * spc fs"
  using fat_okD(3) [of fs d] unat_mult_lem [of "512 :: u32" "sectors_per_cluster fs"]
  by (simp add: cluster_size_def)

lemma unat_ucast_spc: "fat_ok fs d \<Longrightarrow> unat (ucast (sectors_per_cluster fs) :: u16) = spc fs"
  using fat_okD(3) [of fs d] by (simp add: unsigned_ucast_eq take_bit_nat_eq_self)

lemma length_cluster_bytes [simp]: "fat_ok fs d \<Longrightarrow> length (cluster_bytes fs d' c) = unat (cluster_size fs)"
  by (simp add: cluster_bytes_def unat_cluster_size)

lemma cluster_to_sector_eq:
  assumes "fat_ok fs d" "cluster_ok fs d c"
  shows "unat (cluster_to_sector fs c) = first_sector fs c"
proof -
  have c2: "unat (c - 2) = unat c - 2"
    using assms(2) by (simp add: cluster_ok_def unat_sub word_le_nat_alt)
  have "first_sector fs c < 200000" using assms(2) by (simp add: cluster_ok_def)
  then have b: "unat (data_start_sector fs) + unat (c - 2) * spc fs < 2 ^ 32"
    by (simp add: first_sector_def c2)
  then have "unat ((c - 2) * sectors_per_cluster fs) = unat (c - 2) * spc fs"
    using unat_mult_lem [of "c - 2" "sectors_per_cluster fs"] by simp
  then show ?thesis using b unat_add_lem [of "data_start_sector fs" "(c - 2) * sectors_per_cluster fs"]
    by (simp add: cluster_to_sector_def first_sector_def c2)
qed

lemma cluster_sectors_ok:
  assumes "fat_ok fs d" "cluster_ok fs d c"
  shows "sectors_ok d (cluster_to_sector fs c) (ucast (sectors_per_cluster fs))"
  using assms fat_okD(2,3) [OF assms(1)]
  by (simp add: sectors_ok_def cluster_to_sector_eq unat_ucast_spc cluster_ok_def word_less_nat_alt word_le_nat_alt)

lemma fat_sector_eq:
  assumes "fat_ok fs d" "in_fat fs c"
  shows "unat (FAT_sector fs + c div 128) = unat (FAT_sector fs) + unat c div 128"
    "sectors_ok d (FAT_sector fs + c div 128) 1"
proof -
  have "unat c div 128 < unat (FAT_size_in_sectors fs)"
    using assms(2) by (simp add: in_fat_def less_mult_imp_div_less mult.commute)
  moreover have "unat (c div 128) = unat c div 128" by (simp add: unat_div)
  ultimately show eq: "unat (FAT_sector fs + c div 128) = unat (FAT_sector fs) + unat c div 128"
    using fat_okD(5) [OF assms(1)] unat_add_lem [of "FAT_sector fs" "c div 128"] by simp
  show "sectors_ok d (FAT_sector fs + c div 128) 1"
    using fat_okD(5,6) [OF assms(1)] \<open>unat c div 128 < _\<close> eq by (simp add: sectors_ok_def)
qed

lemma read_one_sector:
  "sectors_ok d s 1 \<Longrightarrow> length buff = 512 \<Longrightarrow> read_sectors d s 1 buff 0 = Inr (sector_bytes d (unat s))"
  using read_sectors_ok [of d s 1 0 buff] by (simp add: sectors_bytes_def blit_def upt_rec)

lemma entry_in_fat_ok:
  assumes "fat_ok fs d" "in_fat fs c"
  shows "entry_in_fat fs d c = Inr (fat_entry fs d c)"
proof -
  have four: "(512 :: u32) div 4 = 128" by (simp add: word_unat_eq_iff unat_div)
  have "c div 128 < FAT_size_in_sectors fs"
    using assms(2) by (simp add: in_fat_def word_less_nat_alt unat_div less_mult_imp_div_less mult.commute)
  moreover have "unat (c mod 128) = unat c mod 128" by (simp add: unat_mod)
  moreover have "4 * (unat c mod 128) + 4 \<le> 512" using mod_less_divisor [of 128 "unat c"] by linarith
  ultimately show ?thesis
    using fat_sector_eq [OF assms] fat_okD(1) [OF assms(1)] read_one_sector
    by (simp add: entry_in_fat_def four fat_entry_def)
qed

lemma entry_in_fat_Inr:
  assumes "fat_ok fs d" "entry_in_fat fs d c = Inr v"
  shows "in_fat fs c" "v = fat_entry fs d c"
proof -
  have four: "(512 :: u32) div 4 = 128" by (simp add: word_unat_eq_iff unat_div)
  have "c div 128 < FAT_size_in_sectors fs"
    using assms fat_okD(1) [OF assms(1)] by (auto simp: entry_in_fat_def four Let_def split: if_splits)
  then show "in_fat fs c"
    by (simp add: in_fat_def word_less_nat_alt unat_div div_less_iff_less_mult mult.commute)
  then show "v = fat_entry fs d c" using entry_in_fat_ok assms by simp
qed

lemma read_cluster_ok:
  assumes "fat_ok fs d" "cluster_ok fs d c" "off + unat (cluster_size fs) \<le> length buff"
  shows "read_cluster fs d c buff off = Inr (blit off (cluster_bytes fs d c) buff)"
  using read_sectors_ok [OF cluster_sectors_ok [OF assms(1,2)], of off buff] assms
  by (simp add: read_cluster_def unat_ucast_spc cluster_to_sector_eq cluster_bytes_def
      unat_cluster_size mult.commute)

section \<open>Chains\<close>

fun fat_chain :: "Fat32FS \<Rightarrow> drive \<Rightarrow> u32 list \<Rightarrow> bool" where
  "fat_chain fs d [] \<longleftrightarrow> False"
| "fat_chain fs d [c] \<longleftrightarrow> in_fat fs c \<and> FAT_ENTRY_EOF \<le> fat_entry fs d c"
| "fat_chain fs d (c # c' # cs) \<longleftrightarrow> in_fat fs c \<and> fat_entry fs d c < FAT_ENTRY_EOF
     \<and> fat_entry fs d c AND 0x0fffffff = c' \<and> fat_chain fs d (c' # cs)"

lemma fat_chain_suffix: "fat_chain fs d (cs @ c # ds) \<Longrightarrow> fat_chain fs d (c # ds)"
proof (induction cs)
  case (Cons a cs)
  then show ?case by (cases cs) auto
qed simp

lemma fat_chain_unique: "fat_chain fs d (c # cs) \<Longrightarrow> fat_chain fs d (c # ds) \<Longrightarrow> cs = ds"
proof (induction cs arbitrary: c ds)
  case Nil
  then show ?case by (cases ds) auto
next
  case (Cons a cs)
  then show ?case by (cases ds) auto
qed

text \<open>A chain that ends visits no cluster twice.\<close>

lemma fat_chain_distinct: "fat_chain fs d cs \<Longrightarrow> distinct cs"
proof (induction cs)
  case (Cons c cs)
  have "c \<notin> set cs"
  proof
    assume "c \<in> set cs"
    then obtain as bs where "cs = as @ c # bs" by (meson split_list)
    then have "fat_chain fs d (c # bs)" using fat_chain_suffix [of fs d "c # as"] Cons.prems by simp
    then show False using fat_chain_unique [OF Cons.prems, of bs] \<open>cs = as @ c # bs\<close>
      by (metis length_append length_Cons not_add_less2 less_Suc_eq add_Suc_right)
  qed
  moreover have "distinct cs" using Cons by (cases cs) auto
  ultimately show ?case by simp
qed simp

lemma fat_chain_in_fat: "fat_chain fs d cs \<Longrightarrow> c \<in> set cs \<Longrightarrow> in_fat fs c"
  by (induction fs d cs rule: fat_chain.induct) auto

lemma fat_chain_cong:
  "fat_chain fs d cs \<Longrightarrow> (\<And>c. c \<in> set cs \<Longrightarrow> fat_entry fs d' c = fat_entry fs d c) \<Longrightarrow> fat_chain fs d' cs"
  by (induction fs d cs rule: fat_chain.induct) auto

lemma num_clusters_loop_chain:
  assumes "fat_ok fs d"
  shows "fat_chain fs d (c # cs) \<Longrightarrow> num_clusters_loop fs d c n = Some (Inr (n + length cs))"
proof (induction cs arbitrary: c n)
  case Nil
  then show ?case
    by (subst num_clusters_loop.simps) (simp add: entry_in_fat_ok [OF assms])
next
  case (Cons a cs)
  then show ?case
    by (subst num_clusters_loop.simps) (auto simp: entry_in_fat_ok [OF assms] not_le)
qed

lemma num_clusters_loop_Some:
  "num_clusters_loop fs d c n = Some y \<Longrightarrow> fat_ok fs d \<Longrightarrow> y = Inr m \<Longrightarrow>
    \<exists>cs. fat_chain fs d (c # cs) \<and> m = n + length cs"
proof (induction arbitrary: m rule: num_clusters_loop.raw_induct [rotated, consumes 1, case_names 1])
  case (1 num_clusters_loop fs d c n y)
  obtain v where v: "entry_in_fat fs d c = Inr v" using 1(2-4) by (auto split: sum.splits)
  note e = entry_in_fat_Inr [OF 1(3) v]
  show ?case
  proof (cases "v \<ge> FAT_ENTRY_EOF")
    case True
    then have "fat_chain fs d [c] \<and> m = n + length ([] :: u32 list)" using 1(2,4) v e by simp
    then show ?thesis by blast
  next
    case False
    then have "num_clusters_loop fs d (v AND 0x0fffffff) (Suc n) = Some y" using 1(2) v by simp
    from 1(1) [OF this 1(3,4)] obtain cs where "fat_chain fs d ((v AND 0x0fffffff) # cs)"
      "m = Suc n + length cs" by blast
    then have "fat_chain fs d (c # (v AND 0x0fffffff) # cs) \<and> m = n + length ((v AND 0x0fffffff) # cs)"
      using e False by simp
    then show ?thesis by blast
  qed
qed

text \<open>Counting the clusters ends with a number exactly when the entries form a chain.\<close>

lemma num_clusters_iff:
  "fat_ok fs d \<Longrightarrow> num_clusters_in_entry fs d c = Inr n \<longleftrightarrow> (\<exists>cs. fat_chain fs d (c # cs) \<and> n = length (c # cs))"
  using num_clusters_loop_Some [of fs d c 1 "Inr n" n] num_clusters_loop_chain [of fs d c _ 1]
  by (fastforce simp: num_clusters_in_entry_def loop_def split: option.splits)

lemma num_clusters_ok:
  "fat_ok fs d \<Longrightarrow> fat_chain fs d (c # cs) \<Longrightarrow> num_clusters_in_entry fs d c = Inr (length (c # cs))"
  by (simp add: num_clusters_in_entry_def num_clusters_loop_chain)

abbreviation chain_bytes :: "Fat32FS \<Rightarrow> drive \<Rightarrow> u32 list \<Rightarrow> u8 list" where
  "chain_bytes fs d cs \<equiv> concat (map (cluster_bytes fs d) cs)"

lemma length_chain_bytes: "fat_ok fs d \<Longrightarrow> length (chain_bytes fs d' cs) = unat (cluster_size fs) * length cs"
  by (induction cs) simp_all

lemma read_whole_loop_chain:
  assumes "fat_ok fs d"
  shows "fat_chain fs d (c # cs) \<Longrightarrow> list_all (cluster_ok fs d) (c # cs) \<Longrightarrow>
    unat (cluster_size fs) * (i + length (c # cs)) \<le> length data \<Longrightarrow>
    read_whole_loop fs d c i data
      = Some (Inr (blit (unat (cluster_size fs) * i) (chain_bytes fs d (c # cs)) data))"
proof (induction cs arbitrary: c i data)
  case Nil
  then show ?case
    by (subst read_whole_loop.simps) (simp add: entry_in_fat_ok [OF assms] read_cluster_ok [OF assms] algebra_simps)
next
  case (Cons a cs)
  let ?z = "unat (cluster_size fs)"
  have rc: "read_cluster fs d c data (?z * i) = Inr (blit (?z * i) (cluster_bytes fs d c) data)"
    using Cons.prems by (simp add: read_cluster_ok [OF assms] algebra_simps)
  have "?z * (Suc i + length (a # cs)) \<le> length (blit (?z * i) (cluster_bytes fs d c) data)"
    using Cons.prems(3) assms by (simp add: algebra_simps)
  from Cons.IH [OF _ _ this] have ih: "read_whole_loop fs d a (Suc i) (blit (?z * i) (cluster_bytes fs d c) data)
      = Some (Inr (blit (?z * Suc i) (chain_bytes fs d (a # cs)) (blit (?z * i) (cluster_bytes fs d c) data)))"
    using Cons.prems(1,2) by simp
  have "blit (?z * Suc i) (chain_bytes fs d (a # cs)) (blit (?z * i) (cluster_bytes fs d c) data)
      = blit (?z * i) (chain_bytes fs d (c # a # cs)) data"
    using blit_append [of "?z * i" "cluster_bytes fs d c" "chain_bytes fs d (a # cs)" data] Cons.prems(3)
      length_chain_bytes [OF assms, of d "a # cs"] assms
    by (simp add: algebra_simps)
  then show ?case using Cons.prems(1) ih rc
    by (subst read_whole_loop.simps) (auto simp: entry_in_fat_ok [OF assms] not_le)
qed

lemma read_whole_entry_ok:
  assumes "fat_ok fs d" "fat_chain fs d (c # cs)" "list_all (cluster_ok fs d) (c # cs)"
    "unat (cluster_size fs) * length (c # cs) \<le> length data"
  shows "read_whole_entry fs d c data = Inr (blit 0 (chain_bytes fs d (c # cs)) data)"
  using read_whole_loop_chain [OF assms(1-3), of 0 data] assms(4) by (simp add: read_whole_entry_def)

section \<open>Stores of blocks\<close>

text \<open>
  What the layers above rely on when they write: a write to a valid block succeeds, changes
  this block only and leaves the same blocks valid. The table's entries and the clusters are
  two such stores on the same drive; \<open>volume\<close> adds that neither write disturbs the other.
\<close>

locale block_store =
  fixes valid :: "'d \<Rightarrow> 'i \<Rightarrow> bool"
    and rd :: "'d \<Rightarrow> 'i \<Rightarrow> 'b"
    and wr :: "'d \<Rightarrow> 'i \<Rightarrow> 'b \<Rightarrow> 'd result"
    and good :: "'b \<Rightarrow> bool"
  assumes wr_total: "valid d i \<Longrightarrow> good b \<Longrightarrow> \<exists>d'. wr d i b = Inr d'"
    and wr_valid: "valid d i \<Longrightarrow> good b \<Longrightarrow> wr d i b = Inr d' \<Longrightarrow> valid d' j = valid d j"
    and rd_wr: "valid d i \<Longrightarrow> good b \<Longrightarrow> wr d i b = Inr d' \<Longrightarrow> valid d j \<Longrightarrow>
      rd d' j = (if j = i then b else rd d j)"
begin

lemma wr_wr:
  assumes "valid d i" "valid d j" "good a" "good b"
  shows "\<exists>d'. rbind (wr d i a) (\<lambda>d. wr d j b) = Inr d' \<and> (\<forall>k. valid d' k = valid d k)
    \<and> (\<forall>k. valid d k \<longrightarrow> rd d' k = (if k = j then b else if k = i then a else rd d k))"
proof -
  obtain d1 where d1: "wr d i a = Inr d1" using wr_total [OF assms(1,3)] by blast
  have v: "valid d1 k = valid d k" for k using wr_valid [OF assms(1,3) d1] .
  obtain d2 where d2: "wr d1 j b = Inr d2" using wr_total [of d1 j b] v assms(2,4) by blast
  have "valid d2 k = valid d k" for k using wr_valid [OF _ assms(4) d2] v assms(2) by simp
  moreover have "rd d2 k = (if k = j then b else if k = i then a else rd d k)" if "valid d k" for k
    using rd_wr [OF _ assms(4) d2, of k] rd_wr [OF assms(1,3) d1, of k] v assms(2) that by simp
  ultimately show ?thesis using d1 d2 by simp
qed

end

locale volume =
  clusters: block_store cvalid content write_content whole +
  table: block_store tvalid entry write_entry "\<lambda>_. True"
  for cvalid :: "'d \<Rightarrow> 'i \<Rightarrow> bool" and content :: "'d \<Rightarrow> 'i \<Rightarrow> 'b" and write_content and whole
    and tvalid :: "'d \<Rightarrow> 'i \<Rightarrow> bool" and entry :: "'d \<Rightarrow> 'i \<Rightarrow> 'e" and write_entry +
  assumes content_keeps_table: "cvalid d i \<Longrightarrow> whole b \<Longrightarrow> write_content d i b = Inr d' \<Longrightarrow>
      tvalid d' j = tvalid d j \<and> (tvalid d j \<longrightarrow> entry d' j = entry d j)"
    and table_keeps_content: "tvalid d i \<Longrightarrow> write_entry d i v = Inr d' \<Longrightarrow>
      cvalid d' j = cvalid d j \<and> (cvalid d j \<longrightarrow> content d' j = content d j)"
begin

text \<open>
  Entering a new cluster: the block that refers to it is written, then its table entry, then
  its content. Nothing else changes.
\<close>

lemma enter_block:
  assumes "cvalid d i" "whole a" "tvalid d c" "cvalid d c" "whole b"
  shows "\<exists>d'. rbind (write_content d i a) (\<lambda>d. rbind (write_entry d c v) (\<lambda>d. write_content d c b)) = Inr d'
    \<and> (\<forall>j. cvalid d' j = cvalid d j) \<and> (\<forall>j. tvalid d' j = tvalid d j)
    \<and> (\<forall>j. cvalid d j \<longrightarrow> content d' j = (if j = c then b else if j = i then a else content d j))
    \<and> (\<forall>j. tvalid d j \<longrightarrow> entry d' j = (if j = c then v else entry d j))"
proof -
  obtain d1 where d1: "write_content d i a = Inr d1" using clusters.wr_total [OF assms(1,2)] by blast
  have c1: "cvalid d1 j = cvalid d j" for j using clusters.wr_valid [OF assms(1,2) d1] .
  have t1: "tvalid d1 j = tvalid d j" "tvalid d j \<Longrightarrow> entry d1 j = entry d j" for j
    using content_keeps_table [OF assms(1,2) d1] by auto
  obtain d2 where d2: "write_entry d1 c v = Inr d2" using table.wr_total [of d1 c v] t1 assms(3) by blast
  have tv: "tvalid d1 c" using t1 assms(3) by simp
  have c2: "cvalid d2 j = cvalid d j" "cvalid d j \<Longrightarrow> content d2 j = content d1 j" for j
    using table_keeps_content [OF tv d2] c1 by auto
  have t2: "tvalid d2 j = tvalid d j" for j using table.wr_valid [OF tv _ d2] t1 by simp
  have cv: "cvalid d2 c" using c2 assms(4) by simp
  obtain d3 where d3: "write_content d2 c b = Inr d3" using clusters.wr_total [OF cv assms(5)] by blast
  have "cvalid d3 j = cvalid d j" for j using clusters.wr_valid [OF cv assms(5) d3] c2 by simp
  moreover have "tvalid d3 j = tvalid d j" for j using content_keeps_table [OF cv assms(5) d3] t2 by simp
  moreover have "content d3 j = (if j = c then b else if j = i then a else content d j)" if "cvalid d j" for j
    using clusters.rd_wr [OF cv assms(5) d3, of j] clusters.rd_wr [OF assms(1,2) d1, of j] c2 that by simp
  moreover have "entry d3 j = (if j = c then v else entry d j)" if "tvalid d j" for j
    using content_keeps_table [OF cv assms(5) d3, of j] table.rd_wr [OF tv _ d2, of j] t1 t2 that by simp
  ultimately show ?thesis using d1 d2 d3 by simp
qed

end

section \<open>The drive as a volume\<close>

lemma fat_ok_capacity: "capacity d' = capacity d \<Longrightarrow> fat_ok fs d' = fat_ok fs d"
  by (simp add: fat_ok_def)

lemma cluster_ok_capacity: "capacity d' = capacity d \<Longrightarrow> cluster_ok fs d' c = cluster_ok fs d c"
  by (simp add: cluster_ok_def)

text \<open>Clusters do not overlap, and lie behind the table.\<close>

lemma cluster_sectors_disjoint:
  assumes "cluster_ok fs d c" "cluster_ok fs d c'" "c \<noteq> c'"
    "first_sector fs c \<le> s" "s < first_sector fs c + spc fs"
  shows "\<not> (first_sector fs c' \<le> s \<and> s < first_sector fs c' + spc fs)"
proof -
  have ne: "unat c \<noteq> unat c'" "2 \<le> unat c" "2 \<le> unat c'"
    using assms(1-3) by (auto simp: cluster_ok_def word_unat_eq_iff)
  have sep: "first_sector fs a + spc fs \<le> first_sector fs b" if "unat a < unat b" "2 \<le> unat a" for a b
  proof -
    have "Suc (unat a - 2) * spc fs \<le> (unat b - 2) * spc fs" by (rule mult_le_mono1) (use that in simp)
    then show ?thesis by (simp add: first_sector_def)
  qed
  then show ?thesis using assms(4,5) sep [of c c'] sep [of c' c] ne by linarith
qed

lemma fat_before_clusters:
  assumes "fat_ok fs d" "in_fat fs c"
  shows "unat (FAT_sector fs) + unat c div 128 < first_sector fs c'"
proof -
  have "unat c div 128 < unat (FAT_size_in_sectors fs)"
    using assms(2) by (simp add: in_fat_def less_mult_imp_div_less mult.commute)
  then show ?thesis using fat_okD(4) [OF assms(1)] by (simp add: first_sector_def)
qed

lemma write_cluster_ok:
  assumes "fat_ok fs d" "cluster_ok fs d c" "unat (cluster_size fs) \<le> length b"
  obtains d' where "write_cluster fs d c b = Inr d'" "capacity d' = capacity d"
    "\<And>c'. cluster_ok fs d c' \<Longrightarrow> cluster_bytes fs d' c'
       = (if c' = c then take (unat (cluster_size fs)) b else cluster_bytes fs d c')"
    "\<And>c'. in_fat fs c' \<Longrightarrow> fat_entry fs d' c' = fat_entry fs d c'"
proof -
  note so = cluster_sectors_ok [OF assms(1,2)]
  have fs: "unat (cluster_to_sector fs c) = first_sector fs c"
    "unat (ucast (sectors_per_cluster fs) :: u16) = spc fs"
    using assms cluster_to_sector_eq unat_ucast_spc by auto
  have len: "0 + unat (ucast (sectors_per_cluster fs) :: u16) * 512 \<le> length b"
    using assms fs by (simp add: unat_cluster_size mult.commute)
  obtain d' where d': "write_cluster fs d c b = Inr d'" "capacity d' = capacity d"
    "\<And>u. sector_bytes d' u = (if first_sector fs c \<le> u \<and> u < first_sector fs c + spc fs
       then chunk ((u - first_sector fs c) * 512) 512 b else sector_bytes d u)"
    using write_sectors_ok [OF so len] unfolding fs write_cluster_def by (metis add_0)
  show thesis
  proof
    fix c' assume c': "cluster_ok fs d c'"
    show "cluster_bytes fs d' c' = (if c' = c then take (unat (cluster_size fs)) b else cluster_bytes fs d c')"
    proof (cases "c' = c")
      case True
      have "write_sectors d (cluster_to_sector fs c) (ucast (sectors_per_cluster fs)) b 0 = Inr d'"
        using d'(1) by (simp add: write_cluster_def)
      from write_read_sectors [OF so len this] True show ?thesis
        using assms(1) by (simp add: fs cluster_bytes_def unat_cluster_size chunk_def mult.commute)
    next
      case False
      then have "cluster_bytes fs d' c' = cluster_bytes fs d c'"
        unfolding cluster_bytes_def using cluster_sectors_disjoint [OF c' assms(2)]
        by (intro sectors_bytes_cong) (metis d'(3))
      then show ?thesis using False by simp
    qed
  next
    fix c' assume "in_fat fs c'"
    then show "fat_entry fs d' c' = fat_entry fs d c'"
      using fat_before_clusters [OF assms(1), of c' c] d'(3) by (simp add: fat_entry_def)
  qed (use d' in auto)
qed

lemma u32_at_eq: "i + 4 \<le> length bs \<Longrightarrow> chunk i 4 bs = le32 v \<Longrightarrow> u32_at bs i = v"
proof -
  assume a: "i + 4 \<le> length bs" "chunk i 4 bs = le32 v"
  have "bs ! (i + k) = le32 v ! k" if "k < 4" for k
    using a that by (metis chunk_def add_leD1 nth_drop nth_take)
  from this [of 0] this [of 1] this [of 2] this [of 3] show ?thesis
    by (simp add: u32_at_def le32_def)
qed

lemma u32_at_cong: "i + 4 \<le> length bs \<Longrightarrow> chunk i 4 as = chunk i 4 bs \<Longrightarrow> length as = length bs \<Longrightarrow>
  u32_at as i = u32_at bs i"
proof -
  assume a: "i + 4 \<le> length bs" "chunk i 4 as = chunk i 4 bs" "length as = length bs"
  have "as ! (i + k) = bs ! (i + k)" if "k < 4" for k
    using a that by (metis chunk_def add_leD1 nth_drop nth_take)
  from this [of 0] this [of 1] this [of 2] this [of 3] show ?thesis by (simp add: u32_at_def)
qed

lemma update_FAT_ok:
  assumes "fat_ok fs d" "in_fat fs c"
  obtains d' where "update_FAT fs d c v = Inr d'" "capacity d' = capacity d"
    "\<And>c'. in_fat fs c' \<Longrightarrow> fat_entry fs d' c' = (if c' = c then v else fat_entry fs d c')"
    "\<And>c'. cluster_bytes fs d' c' = cluster_bytes fs d c'"
proof -
  let ?s = "unat (FAT_sector fs) + unat c div 128" and ?i = "4 * (unat c mod 128)"
  note sec = fat_sector_eq [OF assms]
  have m: "unat (c mod 128) = unat c mod 128" by (simp add: unat_mod)
  have i: "?i + 4 \<le> 512" using mod_less_divisor [of 128 "unat c"] by linarith
  define b where "b = blit ?i (le32 v) (sector_bytes d ?s)"
  have len: "length b = 512" using i by (simp add: b_def)
  obtain d' where w: "write_sectors d (FAT_sector fs + c div 128) 1 b 0 = Inr d'" "capacity d' = capacity d"
    and sb: "\<And>u. sector_bytes d' u = (if u = ?s then b else sector_bytes d u)"
  proof (rule write_sectors_ok [OF sec(2), of 0 b])
    fix d'
    assume h: "write_sectors d (FAT_sector fs + c div 128) 1 b 0 = Inr d'" "capacity d' = capacity d"
      "\<And>u. sector_bytes d' u = (if unat (FAT_sector fs + c div 128) \<le> u
          \<and> u < unat (FAT_sector fs + c div 128) + unat (1 :: u16)
        then chunk (0 + (u - unat (FAT_sector fs + c div 128)) * 512) 512 b else sector_bytes d u)"
    have "sector_bytes d' u = (if u = ?s then b else sector_bytes d u)" for u
      using h(3) [of u] len sec(1) by (auto simp: chunk_def)
    with h(1,2) show thesis using that by blast
  qed (use len in simp)
  show thesis
  proof
    show "update_FAT fs d c v = Inr d'"
      using w(1) i read_one_sector [OF sec(2)] sec(1) by (simp add: update_FAT_def m b_def Let_def)
    fix c'
    show "cluster_bytes fs d' c' = cluster_bytes fs d c'"
      unfolding cluster_bytes_def using fat_before_clusters [OF assms, of c']
      by (intro sectors_bytes_cong) (auto simp: sb)
    assume "in_fat fs c'"
    let ?j = "4 * (unat c' mod 128)"
    have j: "?j + 4 \<le> 512" using mod_less_divisor [of 128 "unat c'"] by linarith
    show "fat_entry fs d' c' = (if c' = c then v else fat_entry fs d c')"
    proof (cases "unat c' div 128 = unat c div 128")
      case False
      then show ?thesis by (auto simp: fat_entry_def sb)
    next
      case True
      show ?thesis
      proof (cases "c' = c")
        case True
        then show ?thesis using i len u32_at_eq [of ?i b v] by (simp add: fat_entry_def sb b_def)
      next
        case False
        then have "unat c' mod 128 \<noteq> unat c mod 128"
          using True by (metis div_mult_mod_eq word_unat_eq_iff)
        then have "?j + 4 \<le> ?i \<or> ?i + 4 \<le> ?j" by linarith
        then have "chunk ?j 4 b = chunk ?j 4 (sector_bytes d ?s)"
          using i chunk_blit_before [of ?i "le32 v" "sector_bytes d ?s" ?j 4]
            chunk_blit_after [of ?i "le32 v" "sector_bytes d ?s" ?j 4] by (auto simp: b_def)
        then show ?thesis using False True j len
          by (simp add: fat_entry_def sb u32_at_cong [of ?j "sector_bytes d ?s" b])
      qed
    qed
  qed (fact w(2))
qed

interpretation fat: volume
  "\<lambda>d c. fat_ok fs d \<and> cluster_ok fs d c" "cluster_bytes fs" "write_cluster fs"
  "\<lambda>b. length b = unat (cluster_size fs)"
  "\<lambda>d c. fat_ok fs d \<and> in_fat fs c" "fat_entry fs" "update_FAT fs"
  for fs
proof unfold_locales
  fix d i and b :: "u8 list"
  assume a: "fat_ok fs d \<and> cluster_ok fs d i" and b: "length b = unat (cluster_size fs)"
  obtain e where e: "write_cluster fs d i b = Inr e" "capacity e = capacity d"
    "\<And>c'. cluster_ok fs d c' \<Longrightarrow> cluster_bytes fs e c'
       = (if c' = i then take (unat (cluster_size fs)) b else cluster_bytes fs d c')"
    "\<And>c'. in_fat fs c' \<Longrightarrow> fat_entry fs e c' = fat_entry fs d c'"
    using write_cluster_ok [of fs d i b] a b by auto
  show "\<exists>d'. write_cluster fs d i b = Inr d'" using e(1) by blast
  fix d' j
  assume "write_cluster fs d i b = Inr d'"
  then have "d' = e" using e(1) by simp
  then show "(fat_ok fs d' \<and> cluster_ok fs d' j) = (fat_ok fs d \<and> cluster_ok fs d j)"
    and "fat_ok fs d \<and> cluster_ok fs d j \<Longrightarrow>
      cluster_bytes fs d' j = (if j = i then b else cluster_bytes fs d j)"
    and "(fat_ok fs d' \<and> in_fat fs j) = (fat_ok fs d \<and> in_fat fs j)
      \<and> (fat_ok fs d \<and> in_fat fs j \<longrightarrow> fat_entry fs d' j = fat_entry fs d j)"
    using e b by (simp_all add: fat_ok_capacity [OF e(2)] cluster_ok_capacity [OF e(2)])
next
  fix d i v
  assume a: "fat_ok fs d \<and> in_fat fs i"
  obtain e where e: "update_FAT fs d i v = Inr e" "capacity e = capacity d"
    "\<And>c'. in_fat fs c' \<Longrightarrow> fat_entry fs e c' = (if c' = i then v else fat_entry fs d c')"
    "\<And>c'. cluster_bytes fs e c' = cluster_bytes fs d c'"
    using update_FAT_ok [of fs d i v] a by auto
  show "\<exists>d'. update_FAT fs d i v = Inr d'" using e(1) by blast
  fix d' j
  assume "update_FAT fs d i v = Inr d'"
  then have "d' = e" using e(1) by simp
  then show "(fat_ok fs d' \<and> in_fat fs j) = (fat_ok fs d \<and> in_fat fs j)"
    and "fat_ok fs d \<and> in_fat fs j \<Longrightarrow> fat_entry fs d' j = (if j = i then v else fat_entry fs d j)"
    and "(fat_ok fs d' \<and> cluster_ok fs d' j) = (fat_ok fs d \<and> cluster_ok fs d j)
      \<and> (fat_ok fs d \<and> cluster_ok fs d j \<longrightarrow> cluster_bytes fs d' j = cluster_bytes fs d j)"
    using e by (simp_all add: fat_ok_capacity [OF e(2)] cluster_ok_capacity [OF e(2)])
qed

section \<open>Free clusters\<close>

lemma free_entry_from_eq: "free_entry_from buff js = find (\<lambda>j. u32_at buff (4 * j) = 0) js"
  by (induction js) auto

lemma find_map_eq: "find P (map f xs) = map_option f (find (\<lambda>x. P (f x)) xs)"
  by (induction xs) auto

lemma find_append_eq: "find P (xs @ ys) = (case find P xs of None \<Rightarrow> find P ys | Some x \<Rightarrow> Some x)"
  by (induction xs) auto

lemma fat_entry_split:
  "j < 128 \<Longrightarrow> i * 128 + j < 2 ^ 32 \<Longrightarrow>
   fat_entry fs d (word_of_nat (i * 128 + j)) = u32_at (sector_bytes d (unat (FAT_sector fs) + i)) (4 * j)"
  by (simp add: fat_entry_def unsigned_of_nat take_bit_nat_eq_self del: of_nat_add of_nat_mult)

abbreviation is_free :: "Fat32FS \<Rightarrow> drive \<Rightarrow> nat \<Rightarrow> bool" where
  "is_free fs d n \<equiv> fat_entry fs d (word_of_nat n) = 0"

lemma find_free_loop_eq:
  assumes "fat_ok fs d"
  shows "k \<le> unat (FAT_size_in_sectors fs) \<Longrightarrow>
    find_free_loop fs d [k..<unat (FAT_size_in_sectors fs)]
      = (case find (is_free fs d) [k * 128..<unat (FAT_size_in_sectors fs) * 128] of
           Some n \<Rightarrow> Inr (word_of_nat n) | None \<Rightarrow> Inl NotReached)"
proof (induction rule: inc_induct)
  case (step k)
  let ?N = "unat (FAT_size_in_sectors fs)"
  have kl: "unat (FAT_sector fs) + k + 1 < 200000" "unat (FAT_sector fs) + k < capacity d" "k < 200000"
    using step(2) fat_okD(5,6) [OF assms] by auto
  have s: "unat (FAT_sector fs + word_of_nat k) = unat (FAT_sector fs) + k"
    using kl unat_add_lem [of "FAT_sector fs" "word_of_nat k"]
    by (simp add: unsigned_of_nat take_bit_nat_eq_self)
  have so: "sectors_ok d (FAT_sector fs + word_of_nat k) 1" using kl s by (simp add: sectors_ok_def)
  let ?b = "sector_bytes d (unat (FAT_sector fs) + k)"
  have spl: "[k * 128..<?N * 128] = map (\<lambda>j. k * 128 + j) [0..<128] @ [Suc k * 128..<?N * 128]"
  proof -
    have "[k * 128..<?N * 128] = [k * 128..<Suc k * 128] @ [Suc k * 128..<?N * 128]"
      using step(2) upt_add_eq_append [of "k * 128" "Suc k * 128" "?N * 128 - Suc k * 128"]
      by (simp del: mult_Suc add: mult_le_mono1)
    moreover have "[k * 128..<Suc k * 128] = map (\<lambda>j. k * 128 + j) [0..<128]"
      using map_add_upt [of "k * 128" 128] by (simp add: add.commute del: upt_rec_numeral)
    ultimately show ?thesis by simp
  qed
  have "find (\<lambda>j. u32_at ?b (4 * j) = 0) [0..<128] = find (\<lambda>j. is_free fs d (k * 128 + j)) [0..<128]"
    by (rule find_cong) (use kl in \<open>simp_all add: fat_entry_split del: upt_rec_numeral of_nat_add of_nat_mult\<close>)
  moreover have "find (is_free fs d) (map (\<lambda>j. k * 128 + j) [0..<128])
      = map_option (\<lambda>j. k * 128 + j) (find (\<lambda>j. is_free fs d (k * 128 + j)) [0..<128])"
    by (simp add: find_map_eq del: upt_rec_numeral of_nat_add of_nat_mult)
  ultimately show ?case
    using step so s read_one_sector [OF so]
    by (simp add: upt_conv_Cons [OF step(2)] free_entry_from_eq spl find_append_eq del: upt_rec_numeral upt_Suc of_nat_add of_nat_mult split: option.splits)
qed simp

lemma find_free_cluster_eq:
  assumes "fat_ok fs d"
  shows "find_free_cluster fs d =
    (if \<exists>n < unat (FAT_size_in_sectors fs) * 128. is_free fs d n
     then Inr (word_of_nat (LEAST n. is_free fs d n)) else Inl NotReached)"
proof -
  let ?M = "unat (FAT_size_in_sectors fs) * 128"
  have eq: "find_free_cluster fs d = (case find (is_free fs d) [0..<?M] of
      Some n \<Rightarrow> Inr (word_of_nat n) | None \<Rightarrow> Inl NotReached)"
    using find_free_loop_eq [OF assms, of 0] by (simp add: find_free_cluster_def)
  show ?thesis
  proof (cases "find (is_free fs d) [0..<?M]")
    case None
    then have "\<not> (\<exists>n < ?M. is_free fs d n)" by (auto simp: find_None_iff)
    then show ?thesis using eq None by simp
  next
    case (Some n)
    then have n: "n < ?M" "is_free fs d n" "\<forall>m<n. \<not> is_free fs d m"
      by (auto simp: find_Some_iff)
    have "(LEAST n. is_free fs d n) = n"
      by (rule Least_equality) (use n not_le in blast)+
    moreover have "\<exists>n < ?M. is_free fs d n" using n by blast
    ultimately show ?thesis using eq Some by simp
  qed
qed

text \<open>
  The search for a free cluster returns the lowest cluster number whose entry in the
  allocation table is zero, and fails with the code's assertion exactly when the table has no
  such entry.
\<close>

theorem find_free_cluster_least:
  assumes "fat_ok fs d"
  shows "find_free_cluster fs d =
    (if \<exists>n < unat (FAT_size_in_sectors fs) * 128. is_free fs d n
     then Inr (word_of_nat (LEAST n. is_free fs d n)) else Inl NotReached)"
  using find_free_cluster_eq [OF assms] .

section \<open>Reading a whole chain\<close>

text \<open>Distinct clusters fit below the driver's limit, so the size of a chain does not wrap.\<close>

lemma chain_size_le:
  assumes "fat_ok fs d" "distinct cs" "list_all (cluster_ok fs d) cs"
  shows "length cs * unat (cluster_size fs) \<le> 512 * 200000"
proof -
  let ?f = "\<lambda>c :: u32. unat c - 2"
  have pos: "0 < spc fs" using fat_okD(2) [OF assms(1)] .
  have "?f c < 200000 div spc fs" if "c \<in> set cs" for c
  proof -
    have "(?f c + 1) * spc fs \<le> 200000"
      using assms(3) that by (auto simp: list_all_iff cluster_ok_def first_sector_def)
    then have "?f c + 1 \<le> 200000 div spc fs" using pos by (simp add: less_eq_div_iff_mult_less_eq)
    then show ?thesis by simp
  qed
  then have "?f ` set cs \<subseteq> {..<200000 div spc fs}" by auto
  moreover have "inj_on ?f (set cs)"
  proof (rule inj_onI)
    fix a b assume ab: "a \<in> set cs" "b \<in> set cs" "?f a = ?f b"
    then have "2 \<le> unat a" "2 \<le> unat b" using assms(3) by (auto simp: list_all_iff cluster_ok_def)
    then show "a = b" using ab(3) by (simp add: word_unat_eq_iff)
  qed
  ultimately have "card (set cs) \<le> 200000 div spc fs"
    using card_inj_on_le [of ?f "set cs" "{..<200000 div spc fs}"] by simp
  then have "length cs * spc fs \<le> 200000 div spc fs * spc fs"
    using distinct_card [OF assms(2)] by (simp only: mult_le_mono1)
  also have "\<dots> \<le> 200000" by simp
  finally show ?thesis by (simp add: unat_cluster_size [OF assms(1)] algebra_simps)
qed

lemma chain_size_bound:
  "fat_ok fs d \<Longrightarrow> distinct cs \<Longrightarrow> list_all (cluster_ok fs d) cs \<Longrightarrow> length cs * unat (cluster_size fs) < 2 ^ 32"
  using chain_size_le [of fs d cs] by simp

lemma pages_for_le: "n \<le> 4096 * pages_for n"
  by (simp add: pages_for_def)

lemma new_buffer_ok:
  "0 < n \<Longrightarrow> bb_room pool (pages_for n) \<Longrightarrow> \<exists>b. new_buffer pool n = Inr b \<and> bb_size b = n
     \<and> length (bb_data b) = 4096 * pages_for n"
  by (simp add: new_buffer_def)

lemma new_buffer_Inr:
  "new_buffer pool n = Inr b \<Longrightarrow> 0 < n \<and> bb_size b = n \<and> n \<le> length (bb_data b)"
  using pages_for_le [of n] by (auto simp: new_buffer_def)

lemma read_whole_buffer_ok:
  assumes "fat_ok fs d" "fat_chain fs d (c # cs)" "list_all (cluster_ok fs d) (c # cs)"
    "bb_room pool (pages_for (length (c # cs) * unat (cluster_size fs)))"
  shows "\<exists>b. read_whole_buffer fs pool d c = Inr b \<and> bb_size b = length (c # cs) * unat (cluster_size fs)
    \<and> take (bb_size b) (bb_data b) = chain_bytes fs d (c # cs)"
proof -
  let ?n = "length (c # cs) * unat (cluster_size fs)"
  have z: "0 < unat (cluster_size fs)" using fat_okD(2) [OF assms(1)] unat_cluster_size [OF assms(1)] by simp
  have w: "wrap32 ?n = ?n"
    using chain_size_bound [OF assms(1) fat_chain_distinct [OF assms(2)] assms(3)] by (intro wrap32_id) simp
  have n0: "0 < ?n" using z by simp
  obtain b where b: "new_buffer pool ?n = Inr b" "bb_size b = ?n" "length (bb_data b) = 4096 * pages_for ?n"
    using new_buffer_ok [OF n0 assms(4)] by blast
  have len: "unat (cluster_size fs) * length (c # cs) \<le> length (bb_data b)"
    using pages_for_le [of ?n] b(3) by (simp add: mult.commute del: mult_Suc mult_Suc_right)
  let ?b = "b\<lparr>bb_data := blit 0 (chain_bytes fs d (c # cs)) (bb_data b)\<rparr>"
  have "read_whole_buffer fs pool d c = Inr ?b"
    using b(1) w read_whole_entry_ok [OF assms(1-3) len] num_clusters_ok [OF assms(1,2)]
    by (simp add: read_whole_buffer_def del: mult_Suc mult_Suc_right)
  moreover have "take ?n (bb_data ?b) = chain_bytes fs d (c # cs)"
    using length_chain_bytes [OF assms(1), of d "c # cs"] by (simp add: blit_def mult.commute del: concat.simps list.map)
  moreover have "bb_size ?b = ?n" using b(2) by simp
  ultimately show ?thesis by metis
qed

text \<open>
  C34: Counting the clusters of an entry ends with a number exactly when the allocation table
  links its first cluster to an end mark, that is when the entry is a chain; on a cyclic table
  no number results. On a chain whose clusters lie on the drive, and for which there is a buffer, the whole
  entry is read: the buffer holds the contents of the clusters, in the order of the chain.
\<close>

theorem chain_is_read_in_order:
  assumes "fat_ok fs d"
  shows "((\<exists>n. num_clusters_in_entry fs d c = Inr n) \<longleftrightarrow> (\<exists>cs. fat_chain fs d (c # cs)))
    \<and> (\<forall>cs pool. fat_chain fs d (c # cs) \<longrightarrow> list_all (cluster_ok fs d) (c # cs) \<longrightarrow>
        bb_room pool (pages_for (length (c # cs) * unat (cluster_size fs))) \<longrightarrow>
        num_clusters_in_entry fs d c = Inr (length (c # cs)) \<and>
        (\<exists>b. read_whole_buffer fs pool d c = Inr b \<and> bb_size b = length (c # cs) * unat (cluster_size fs)
           \<and> take (bb_size b) (bb_data b) = chain_bytes fs d (c # cs)))"
  using num_clusters_iff [OF assms] num_clusters_ok [OF assms] read_whole_buffer_ok [OF assms] by blast

section \<open>A small volume\<close>

text \<open>
  A drive of ten sectors: the table in sector 1, its copy in sector 2, clusters of one sector
  from sector 3 on; cluster 2 is followed by cluster 4, which ends the chain.
\<close>

definition small_fs :: Fat32FS where
  "small_fs = \<lparr>FAT_sector = 1, FAT_size_in_sectors = 1, data_start_sector = 3,
     sectors_per_cluster = 1, bytes_per_sector = 512, root_cluster = 2\<rparr>"

definition small_table :: "nat \<Rightarrow> u16" where
  "small_table i = (if i = 4 then 4 else if i = 8 then 0xFFF8 else if i = 9 then 0x0FFF
     else if i < 4 then 0xFFFF else 0)"

definition small_drive :: drive where
  "small_drive = \<lparr>capacity = 10,
     sector_words = (\<lambda>s i. if s = 1 then small_table i else word_of_nat s), write_cache = []\<rparr>"

lemma nth_le16: "le16 w ! 0 = ucast w" "le16 w ! Suc 0 = ucast (drop_bit 8 w)"
  by (simp_all add: le16_def)

lemma nth_pairs: "i < n \<Longrightarrow> concat (map (\<lambda>i. le16 (f i)) [0..<n]) ! (2 * i) = ucast (f i)
    \<and> concat (map (\<lambda>i. le16 (f i)) [0..<n]) ! (2 * i + 1) = ucast (drop_bit 8 (f i))"
proof (induction n)
  case (Suc n)
  then show ?case
    by (cases "i = n") (auto simp: nth_append length_concat_pairs nth_le16)
qed simp

lemma of_le32_words:
  "of_le32 (ucast a) (ucast (drop_bit 8 a)) (ucast b) (ucast (drop_bit 8 b)) = ucast a OR push_bit 16 (ucast b)"
  for a b :: u16
proof (rule bit_word_eqI)
  fix n :: nat
  assume n: "n < LENGTH(32)"
  have hi: "\<not> bit a m" if "16 \<le> m" for m using bit_imp_le_length [of a m] that by auto
  consider "n < 8" | "8 \<le> n" "n < 16" | "16 \<le> n" "n < 24" | "24 \<le> n" by linarith
  then show "bit (of_le32 (ucast a) (ucast (drop_bit 8 a)) (ucast b) (ucast (drop_bit 8 b))) n
      = bit (ucast a OR push_bit 16 (ucast b) :: u32) n"
  proof cases
    case 2
    then show ?thesis using n by (auto simp: of_le32_def bit_simps)
  next
    case 3
    then show ?thesis using n hi by (auto simp: of_le32_def bit_simps)
  next
    case 4
    then have "n - 16 = 8 + (n - 24)" by simp
    moreover have "n - 16 < 32" "n - 24 < 32" "n - 24 < 8" using 4 n by auto
    ultimately show ?thesis using 4 n hi by (auto simp: of_le32_def bit_simps)
  qed (use n in \<open>simp add: of_le32_def bit_simps\<close>)
qed

lemma u32_at_sector:
  "k < 128 \<Longrightarrow> u32_at (sector_bytes d s) (4 * k)
     = ucast (sector_words d s (2 * k)) OR push_bit 16 (ucast (sector_words d s (2 * k + 1)))"
proof -
  assume k: "k < 128"
  let ?a = "sector_words d s (2 * k)" and ?b = "sector_words d s (2 * k + 1)"
  have "u32_at (sector_bytes d s) (4 * k)
      = of_le32 (ucast ?a) (ucast (drop_bit 8 ?a)) (ucast ?b) (ucast (drop_bit 8 ?b))"
    using nth_pairs [of "2 * k" 256 "sector_words d s"] nth_pairs [of "2 * k + 1" 256 "sector_words d s"] k
    by (simp add: u32_at_def sector_bytes_def bytes_of_word_eq algebra_simps numeral_3_eq_3 del: upt_rec_numeral)
  also have "\<dots> = ucast ?a OR push_bit 16 (ucast ?b)"
    by (rule of_le32_words)
  finally show ?thesis .
qed

lemma small_entry:
  "unat c < 128 \<Longrightarrow> fat_entry small_fs small_drive c
     = ucast (small_table (2 * unat c)) OR push_bit 16 (ucast (small_table (2 * unat c + 1)))"
  by (simp add: fat_entry_def u32_at_sector small_fs_def small_drive_def)

lemma small_ok:
  "fat_ok small_fs small_drive" "cluster_ok small_fs small_drive c \<longleftrightarrow> 2 \<le> unat c \<and> unat c \<le> 8"
  "unat (cluster_size small_fs) = 512"
  by (auto simp: fat_ok_def cluster_ok_def in_fat_def first_sector_def small_fs_def small_drive_def
      cluster_size_def)

lemma small_chain: "fat_chain small_fs small_drive [2, 4]"
  by (simp add: small_entry small_table_def in_fat_def) (simp add: small_fs_def)

theorem chain_is_read_in_order_witness:
  "num_clusters_in_entry small_fs small_drive 2 = Inr 2 \<and>
   (\<exists>b. read_whole_buffer small_fs \<lparr>bb_room = \<lambda>_. True, bb_ram = \<lambda>_. 0\<rparr> small_drive 2 = Inr b
      \<and> bb_size b = 1024 \<and> take 1024 (bb_data b) = sector_bytes small_drive 3 @ sector_bytes small_drive 5)"
proof -
  have "cluster_bytes small_fs small_drive 2 = sector_bytes small_drive 3"
    "cluster_bytes small_fs small_drive 4 = sector_bytes small_drive 5"
    by (simp_all add: cluster_bytes_def first_sector_def small_fs_def sectors_bytes_def upt_rec)
  then show ?thesis
    using conjunct2 [OF chain_is_read_in_order [OF small_ok(1), of 2], rule_format, OF small_chain,
        of "\<lparr>bb_room = \<lambda>_. True, bb_ram = \<lambda>_. 0\<rparr>"]
    by (auto simp: small_ok)
qed

theorem find_free_cluster_least_witness: "find_free_cluster small_fs small_drive = Inr 3"
proof -
  have e: "is_free small_fs small_drive n \<longleftrightarrow> small_table (2 * n) = 0 \<and> small_table (2 * n + 1) = 0" if "n < 128" for n
    using that by (simp add: small_entry unsigned_of_nat take_bit_nat_eq_self or_eq_0_iff push_bit_eq_0_iff)
      (simp add: small_table_def)
  have "is_free small_fs small_drive 3" using e [of 3] by (simp add: small_table_def)
  moreover have "\<not> is_free small_fs small_drive n" if "n < 3" for n
    using e [of n] that by (auto simp: small_table_def less_Suc_eq numeral_3_eq_3)
  ultimately have "(LEAST n. is_free small_fs small_drive n) = 3"
    by (intro Least_equality) (auto simp: not_le intro: leI)
  moreover have "\<exists>n < unat (FAT_size_in_sectors small_fs) * 128. is_free small_fs small_drive n"
    using \<open>is_free small_fs small_drive 3\<close> by (intro exI [of _ 3]) (simp add: small_fs_def)
  ultimately show ?thesis using find_free_cluster_least [OF small_ok(1)] by simp
qed

end
