(* ===== verification/Fat32_Directory.thy ===== *)
theory Fat32_Directory
  imports Fat32_Table Paths
begin

text \<open>
  The upper half of \<^verbatim>\<open>kernel/FileSystem/Fat32FS.cpp\<close>: directory entries with short and long
  names, the search for a path, creation of entries and writing of files. A directory is the
  content of a chain of clusters, an array of 32-byte slots. A slot is the packed structure
  \<^verbatim>\<open>FatRawDirectoryEntry\<close>, or, where its attributes say so, a \<^verbatim>\<open>FatLongDirectoryEntry\<close> with 13
  characters of the name of the entry behind it.
\<close>

section \<open>Directory entries\<close>

record FatRawDirectoryEntry =
  re_name :: "u8 list"
  re_attr :: u8
  NTRes :: u8
  CreateTimeTenth :: u8
  CreateTime :: u16
  CreateDate :: u16
  LastAccessDate :: u16
  ClusterIdxHigh :: u16
  WriteTime :: u16
  WriteDate :: u16
  ClusterIdxLow :: u16
  FileSize :: u32

record FatLongDirectoryEntry =
  le_ord :: u8
  le_name1 :: "u8 list"
  le_attrs :: u8
  le_type :: u8
  le_chksum :: u8
  le_name2 :: "u8 list"
  le_unused :: u16
  le_name3 :: "u8 list"

record FatDirectoryEntry =
  fde_name :: str
  fde_type :: u8
  fde_size :: nat
  fde_cluster_idx :: u32

abbreviation ENTRY_SIZE :: nat where "ENTRY_SIZE \<equiv> 32"
abbreviation ATTR_LONG_NAME :: u8 where "ATTR_LONG_NAME \<equiv> 0x0F"
abbreviation ATTR_DIRECTORY :: u8 where "ATTR_DIRECTORY \<equiv> 0x10"
abbreviation LAST_LONG_ENTRY :: u8 where "LAST_LONG_ENTRY \<equiv> 0x40"
abbreviation NAME_LEN_IN_ENTRY :: nat where "NAME_LEN_IN_ENTRY \<equiv> 13"

text \<open>The layout of the two structures in memory.\<close>

definition raw_of_bytes :: "u8 list \<Rightarrow> FatRawDirectoryEntry" where
  "raw_of_bytes b =
     \<lparr>re_name = chunk 0 11 b, re_attr = b ! 11, NTRes = b ! 12, CreateTimeTenth = b ! 13,
      CreateTime = u16_at b 14, CreateDate = u16_at b 16, LastAccessDate = u16_at b 18,
      ClusterIdxHigh = u16_at b 20, WriteTime = u16_at b 22, WriteDate = u16_at b 24,
      ClusterIdxLow = u16_at b 26, FileSize = u32_at b 28\<rparr>"

definition bytes_of_raw :: "FatRawDirectoryEntry \<Rightarrow> u8 list" where
  "bytes_of_raw e =
     re_name e @ [re_attr e, NTRes e, CreateTimeTenth e] @ le16 (CreateTime e) @ le16 (CreateDate e)
     @ le16 (LastAccessDate e) @ le16 (ClusterIdxHigh e) @ le16 (WriteTime e) @ le16 (WriteDate e)
     @ le16 (ClusterIdxLow e) @ le32 (FileSize e)"

definition long_of_bytes :: "u8 list \<Rightarrow> FatLongDirectoryEntry" where
  "long_of_bytes b =
     \<lparr>le_ord = b ! 0, le_name1 = chunk 1 10 b, le_attrs = b ! 11, le_type = b ! 12, le_chksum = b ! 13,
      le_name2 = chunk 14 12 b, le_unused = u16_at b 26, le_name3 = chunk 28 4 b\<rparr>"

definition bytes_of_long :: "FatLongDirectoryEntry \<Rightarrow> u8 list" where
  "bytes_of_long e =
     [le_ord e] @ le_name1 e @ [le_attrs e, le_type e, le_chksum e] @ le_name2 e @ le16 (le_unused e)
     @ le_name3 e"

definition name_lower :: "FatRawDirectoryEntry \<Rightarrow> str result" where
  "name_lower e =
     rbind (init_from (map char_of_byte (re_name e)) 11) (\<lambda>name_str.
     rbind (str_find name_str (mk_str '' '') 0) (\<lambda>space_idx.
     rbind (substr name_str 0 (if space_idx = -1 then 8 else space_idx)) (\<lambda>basename.
     rbind (substr name_str 8 (-1)) (\<lambda>extension.
     rbind (str_index extension 0) (\<lambda>c.
     rbind (if c \<noteq> CHR '' ''
            then rbind (str_plus basename (mk_str ''.'')) (\<lambda>r. str_plus r extension)
            else Inr basename) (\<lambda>res.
       str_lower res))))))"

definition raw_cluster_idx :: "FatRawDirectoryEntry \<Rightarrow> u32" where
  "raw_cluster_idx e = push_bit 16 (ucast (ClusterIdxHigh e)) OR (ucast (ClusterIdxLow e) AND 0xffff)"

definition is_long_name :: "FatRawDirectoryEntry \<Rightarrow> bool" where
  "is_long_name e \<longleftrightarrow> re_attr e = ATTR_LONG_NAME"

definition raw_is_directory :: "FatRawDirectoryEntry \<Rightarrow> bool" where
  "raw_is_directory e \<longleftrightarrow> re_attr e = ATTR_DIRECTORY"

definition is_fake_direcotry :: "FatRawDirectoryEntry \<Rightarrow> bool result" where
  "is_fake_direcotry e =
     rbind (name_lower e) (\<lambda>n. rbind (str_eq n (mk_str ''.'')) (\<lambda>dot.
       if dot then Inr True
       else rbind (name_lower e) (\<lambda>n. str_eq n (mk_str ''..''))))"

definition get_dir_entry_type :: "FatRawDirectoryEntry \<Rightarrow> u8" where
  "get_dir_entry_type e = (if raw_is_directory e then Type_Directory else Type_File)"

text \<open>The lambda \<^verbatim>\<open>unicode_to_ascii\<close> of \<^verbatim>\<open>get_name\<close>, over the pairs of bytes.\<close>

fun unicode_to_ascii :: "u8 list \<Rightarrow> char vec \<Rightarrow> char vec result" where
  "unicode_to_ascii [] cs = Inr cs"
| "unicode_to_ascii [a] cs = Inl AssertionFailed"
| "unicode_to_ascii (a # b # arr) cs =
     (if a = 0xff \<and> b = 0xff then unicode_to_ascii arr cs
      else rbind (assert_that (\<not> get_bit a 7)) (\<lambda>_.
           rbind (assert_that (b = 0)) (\<lambda>_.
           rbind (vec_append cs (char_of_byte a)) (unicode_to_ascii arr))))"

definition get_name :: "FatLongDirectoryEntry \<Rightarrow> str result" where
  "get_name e =
     rbind (unicode_to_ascii (le_name1 e) vec_new) (\<lambda>c1.
     rbind (unicode_to_ascii (le_name2 e) vec_new) (\<lambda>c2.
     rbind (vec_plus c1 c2) (\<lambda>c12.
     rbind (unicode_to_ascii (le_name3 e) vec_new) (\<lambda>c3.
     rbind (vec_plus c12 c3) (\<lambda>cs.
     rbind (vec_append cs NUL) (\<lambda>cs'.
       String_of_cstr (vec_list cs')))))))"

definition is_last_long :: "FatLongDirectoryEntry \<Rightarrow> bool" where
  "is_last_long e \<longleftrightarrow> le_ord e AND LAST_LONG_ENTRY \<noteq> 0"

text \<open>The slot \<open>i\<close> of the array behind the pointer \<^verbatim>\<open>buff\<close>.\<close>

definition slot :: "u8 list \<Rightarrow> nat \<Rightarrow> u8 list" where
  "slot buff i = chunk (ENTRY_SIZE * i) ENTRY_SIZE buff"

text \<open>
  The loop of \<^verbatim>\<open>create_entry_from\<close> runs backwards: with the argument \<open>Suc i\<close> it looks at the slot
  \<open>i\<close>, and at \<open>0\<close> the pointer is before the buffer.
\<close>

fun long_name_loop :: "u8 list \<Rightarrow> FatRawDirectoryEntry \<Rightarrow> nat \<Rightarrow> str \<Rightarrow> str result" where
  "long_name_loop buff raw_entry 0 name = Inl AssertionFailed"
| "long_name_loop buff raw_entry (Suc i) name =
     (let current = long_of_bytes (slot buff i) in
      if le_attrs current \<noteq> ATTR_LONG_NAME then name_lower raw_entry
      else rbind (get_name current) (\<lambda>part.
           rbind (str_plus name part) (\<lambda>name'.
             if is_last_long current then Inr name' else long_name_loop buff raw_entry i name')))"

definition create_entry_from :: "u8 list \<Rightarrow> nat \<Rightarrow> FatDirectoryEntry result" where
  "create_entry_from buff i =
     (let raw_entry = raw_of_bytes (slot buff i) in
      rbind (long_name_loop buff raw_entry i String_empty) (\<lambda>name.
        Inr \<lparr>fde_name = name, fde_type = get_dir_entry_type raw_entry,
             fde_size = unat (FileSize raw_entry), fde_cluster_idx = raw_cluster_idx raw_entry\<rparr>))"

section \<open>Reading directories\<close>

text \<open>The loop of \<^verbatim>\<open>read_directory\<close> on the \<open>sz\<close> bytes of \<open>data\<close>, at slot \<open>i\<close>.\<close>

function read_directory_loop ::
    "u8 list \<Rightarrow> nat \<Rightarrow> nat \<Rightarrow> FatDirectoryEntry vec \<Rightarrow> FatDirectoryEntry vec result" where
  "read_directory_loop data sz i entries =
     (if ENTRY_SIZE * i \<ge> sz then Inl NotReached
      else let current = raw_of_bytes (slot data i) in
        if re_name current ! 0 = 0 then Inr entries
        else if is_long_name current then read_directory_loop data sz (Suc i) entries
        else rbind (is_fake_direcotry current) (\<lambda>fake.
          if fake then read_directory_loop data sz (Suc i) entries
          else if re_name current ! 0 = 0xE5 then read_directory_loop data sz (Suc i) entries
          else rbind (create_entry_from data i) (\<lambda>entry.
               rbind (vec_append entries entry) (read_directory_loop data sz (Suc i)))))"
  by pat_completeness auto
termination
  by (relation "measure (\<lambda>(data, sz, i, entries). sz - ENTRY_SIZE * i)") auto

declare read_directory_loop.simps [simp del]

definition read_directory :: "Fat32FS \<Rightarrow> buffer_pool \<Rightarrow> drive \<Rightarrow> u32 \<Rightarrow> FatDirectoryEntry vec result" where
  "read_directory fs pool d cluster =
     rbind (read_whole_buffer fs pool d cluster) (\<lambda>data.
       read_directory_loop (bb_data data) (bb_size data) 0 vec_new)"

text \<open>The inner loop of \<^verbatim>\<open>find\<close>: the first entry with the name, which ends it in every branch.\<close>

fun first_named :: "str \<Rightarrow> FatDirectoryEntry list \<Rightarrow> FatDirectoryEntry option result" where
  "first_named part [] = Inr None"
| "first_named part (entry # entries) =
     rbind (str_eq (fde_name entry) part) (\<lambda>same.
       if same then Inr (Some entry) else first_named part entries)"

fun fat_find_loop :: "Fat32FS \<Rightarrow> buffer_pool \<Rightarrow> drive \<Rightarrow> path \<Rightarrow> u8 \<Rightarrow> nat list \<Rightarrow> u32
    \<Rightarrow> FatDirectoryEntry option result" where
  "fat_find_loop fs pool d path target_type [] dir_cluster = Inr None"
| "fat_find_loop fs pool d path target_type (i # is) dir_cluster =
     rbind (read_directory fs pool d dir_cluster) (\<lambda>entries.
     rbind (get_part path i) (\<lambda>part.
     rbind (first_named part (vec_list entries)) (\<lambda>found.
       case found of
         None \<Rightarrow> Inr None
       | Some entry \<Rightarrow>
           if fde_type entry = Type_Directory then
             (if target_type = Type_File \<and> i = num_parts path - 1 then Inr None
              else if target_type = Type_Directory \<and> i = num_parts path - 1 then Inr (Some entry)
              else fat_find_loop fs pool d path target_type is (fde_cluster_idx entry))
           else if target_type = Type_Directory then Inr None
           else if target_type = Type_File \<and> i \<noteq> num_parts path - 1 then Inr None
           else Inr (Some entry))))"

definition fat_find :: "Fat32FS \<Rightarrow> buffer_pool \<Rightarrow> drive \<Rightarrow> path \<Rightarrow> u8 \<Rightarrow> FatDirectoryEntry option result" where
  "fat_find fs pool d path target_type =
     (if num_parts path = 0
      then Inr (Some \<lparr>fde_name = mk_str ''/'', fde_type = Type_Directory, fde_size = 0,
                      fde_cluster_idx = root_cluster fs\<rparr>)
      else fat_find_loop fs pool d path target_type [0..<num_parts path] (root_cluster fs))"

definition find_file :: "Fat32FS \<Rightarrow> buffer_pool \<Rightarrow> drive \<Rightarrow> path \<Rightarrow> FatDirectoryEntry option result" where
  "find_file fs pool d path = fat_find fs pool d path Type_File"

definition find_directory :: "Fat32FS \<Rightarrow> buffer_pool \<Rightarrow> drive \<Rightarrow> path \<Rightarrow> FatDirectoryEntry option result" where
  "find_directory fs pool d path = fat_find fs pool d path Type_Directory"

text \<open>\<^verbatim>\<open>read_file\<close> with a path: \<open>None\<close> is the result false; otherwise the size and the buffer.\<close>

definition fat_read_file :: "Fat32FS \<Rightarrow> buffer_pool \<Rightarrow> drive \<Rightarrow> path \<Rightarrow> u8 list \<Rightarrow> (nat \<times> u8 list) option result" where
  "fat_read_file fs pool d path data =
     rbind (find_file fs pool d path) (\<lambda>found.
       case found of
         None \<Rightarrow> Inr None
       | Some res \<Rightarrow> rbind (read_whole_entry fs d (fde_cluster_idx res) data) (\<lambda>data'.
                       Inr (Some (fde_size res, data'))))"

definition fat_list_directory :: "Fat32FS \<Rightarrow> buffer_pool \<Rightarrow> drive \<Rightarrow> path \<Rightarrow> DirectoryEntry vec
    \<Rightarrow> (bool \<times> DirectoryEntry vec) result" where
  "fat_list_directory fs pool d path res =
     rbind (if num_parts path = 0 then Inr (Some (root_cluster fs))
            else rbind (find_directory fs pool d path) (\<lambda>found. Inr (map_option fde_cluster_idx found))) (\<lambda>cluster.
       case cluster of
         None \<Rightarrow> Inr (False, res)
       | Some c \<Rightarrow>
           rbind (read_directory fs pool d c) (\<lambda>dir_entries.
           rbind (rfold (\<lambda>e res. rbind (Path_of_string (fde_name e)) (\<lambda>p.
                     vec_append res \<lparr>de_path = p, de_type = fde_type e\<rparr>)) (vec_list dir_entries) res) (\<lambda>res'.
             Inr (True, res'))))"

definition fat_is_directory :: "Fat32FS \<Rightarrow> buffer_pool \<Rightarrow> drive \<Rightarrow> path \<Rightarrow> bool result" where
  "fat_is_directory fs pool d path =
     (if num_parts path = 0 then Inr True
      else rbind (find_directory fs pool d path) (\<lambda>found. Inr (found \<noteq> None)))"

definition fat_is_file :: "Fat32FS \<Rightarrow> buffer_pool \<Rightarrow> drive \<Rightarrow> path \<Rightarrow> bool result" where
  "fat_is_file fs pool d path = rbind (find_file fs pool d path) (\<lambda>found. Inr (found \<noteq> None))"

section \<open>Changing directories\<close>

text \<open>The inner loop of \<^verbatim>\<open>find_in_diretory\<close>: the offset of the first slot the lambda accepts.\<close>

fun find_slot :: "(FatRawDirectoryEntry \<Rightarrow> bool) \<Rightarrow> u8 list \<Rightarrow> nat list \<Rightarrow> nat option" where
  "find_slot p buff [] = None"
| "find_slot p buff (i # is) =
     (if p (raw_of_bytes (slot buff i)) then Some (ENTRY_SIZE * i) else find_slot p buff is)"

partial_function (option) find_in_diretory_loop ::
    "Fat32FS \<Rightarrow> buffer_pool \<Rightarrow> drive \<Rightarrow> (FatRawDirectoryEntry \<Rightarrow> bool) \<Rightarrow> u32
      \<Rightarrow> (u32 \<times> nat) option result option" where
  "find_in_diretory_loop fs pool d p current_cluster =
     (case rbind (new_buffer pool (unat (cluster_size fs))) (\<lambda>buff.
             read_cluster fs d current_cluster (bb_data buff) 0) of
        Inl e \<Rightarrow> Some (Inl e)
      | Inr data \<Rightarrow>
          (case find_slot p data [0..<unat (cluster_size fs) div ENTRY_SIZE] of
             Some off \<Rightarrow> Some (Inr (Some (current_cluster, off)))
           | None \<Rightarrow>
               (case entry_in_fat fs d current_cluster of
                  Inl e \<Rightarrow> Some (Inl e)
                | Inr next_cluster \<Rightarrow>
                    if next_cluster \<ge> FAT_ENTRY_EOF then Some (Inr None)
                    else find_in_diretory_loop fs pool d p (next_cluster AND 0x0fffffff))))"

definition find_in_diretory :: "Fat32FS \<Rightarrow> buffer_pool \<Rightarrow> drive \<Rightarrow> (FatRawDirectoryEntry \<Rightarrow> bool) \<Rightarrow> u32
    \<Rightarrow> (u32 \<times> nat) option result" where
  "find_in_diretory fs pool d p dir_cluster = loop (find_in_diretory_loop fs pool d p dir_cluster)"

definition update_file_size :: "Fat32FS \<Rightarrow> buffer_pool \<Rightarrow> drive \<Rightarrow> u32 \<Rightarrow> FatDirectoryEntry \<Rightarrow> nat
    \<Rightarrow> (bool \<times> drive) result" where
  "update_file_size fs pool d dir_cluster file sz =
     rbind (find_in_diretory fs pool d (\<lambda>entry. fde_cluster_idx file = raw_cluster_idx entry) dir_cluster) (\<lambda>res.
       case res of
         None \<Rightarrow> Inr (False, d)
       | Some (match_cluster, offset_in_cluster) \<Rightarrow>
           rbind (new_buffer pool (unat (cluster_size fs))) (\<lambda>cluster_data.
           rbind (read_cluster fs d match_cluster (bb_data cluster_data) 0) (\<lambda>data.
           rbind (assert_that (raw_cluster_idx (raw_of_bytes (chunk offset_in_cluster ENTRY_SIZE data))
                                 = fde_cluster_idx file)) (\<lambda>_.
           rbind (put_bytes (offset_in_cluster + 28) (le32 (word_of_nat sz)) data) (\<lambda>data'.
           rbind (write_cluster fs d match_cluster data') (\<lambda>d'.
             Inr (True, d')))))))"

text \<open>The loop of \<^verbatim>\<open>write_to_existing_file\<close>, over the indices of the clusters to write.\<close>

fun write_clusters_loop :: "Fat32FS \<Rightarrow> u8 list \<Rightarrow> nat list \<Rightarrow> u32 \<Rightarrow> drive \<Rightarrow> drive result" where
  "write_clusters_loop fs data [] current_cluster d = Inr d"
| "write_clusters_loop fs data (cluster_i # is) current_cluster d =
     (if current_cluster \<ge> FAT_ENTRY_EOF then Inl NotImplemented
      else let start_sector = cluster_to_sector fs current_cluster;
               data_offset = cluster_i * unat (sectors_per_cluster fs) * SECTOR_SIZE_BYTES;
               num_sectors_to_write = math_min (sectors_per_cluster fs)
                 (word_of_nat (size_sub (length data) data_offset div SECTOR_SIZE_BYTES)) in
      rbind (write_sectors d start_sector (ucast num_sectors_to_write) data data_offset) (\<lambda>d'.
      rbind (entry_in_fat fs d' current_cluster) (\<lambda>next_cluster.
        write_clusters_loop fs data is (next_cluster AND 0x0fffffff) d')))"

definition write_to_existing_file :: "Fat32FS \<Rightarrow> buffer_pool \<Rightarrow> drive \<Rightarrow> FatDirectoryEntry \<Rightarrow> u8 list \<Rightarrow> u32
    \<Rightarrow> (int \<times> drive) result" where
  "write_to_existing_file fs pool d entry data parent_dir_cluster =
     (if length data mod SECTOR_SIZE_BYTES \<noteq> 0 then Inr (E_INVALID_SIZE, d)
      else rbind (div_ceil (word_of_nat (length data)) (sectors_per_cluster fs * 512)) (\<lambda>num_clusters.
           rbind (write_clusters_loop fs data [0..<unat num_clusters] (fde_cluster_idx entry) d) (\<lambda>d1.
           rbind (update_file_size fs pool d1 parent_dir_cluster entry (length data)) (\<lambda>(rc, d2).
           rbind (assert_that rc) (\<lambda>_. Inr (0, d2))))))"

text \<open>The cluster of the directory that holds the last part of a path.\<close>

definition parent_dir_cluster :: "Fat32FS \<Rightarrow> buffer_pool \<Rightarrow> drive \<Rightarrow> path \<Rightarrow> u32 result" where
  "parent_dir_cluster fs pool d path =
     (if num_parts path \<noteq> 1
      then rbind (dirname path) (\<lambda>dir.
           rbind (find_directory fs pool d dir) (\<lambda>found.
             case found of None \<Rightarrow> Inl AssertionFailed | Some parent_dir \<Rightarrow> Inr (fde_cluster_idx parent_dir)))
      else Inr (root_cluster fs))"

definition fat_write_file :: "Fat32FS \<Rightarrow> buffer_pool \<Rightarrow> drive \<Rightarrow> path \<Rightarrow> u8 list \<Rightarrow> (int \<times> drive) result" where
  "fat_write_file fs pool d path data =
     rbind (find_file fs pool d path) (\<lambda>found.
       case found of
         None \<Rightarrow> Inl NotImplemented
       | Some res \<Rightarrow> rbind (parent_dir_cluster fs pool d path) (\<lambda>parent.
                       write_to_existing_file fs pool d res data parent))"

text \<open>The long entry number \<open>i\<close> of the \<open>n\<close> that hold the name.\<close>

definition long_entry_for :: "str \<Rightarrow> nat \<Rightarrow> nat \<Rightarrow> FatLongDirectoryEntry result" where
  "long_entry_for basename n i =
     rbind (substr basename (int (i * NAME_LEN_IN_ENTRY)) (int ((i + 1) * NAME_LEN_IN_ENTRY))) (\<lambda>part_str.
     rbind (c_str part_str) (\<lambda>cs.
     rbind (vec_of_data 1 cs (m_len part_str)) (\<lambda>part0.
     rbind (rfold (\<lambda>_ v. vec_append v NUL) [m_len part_str..<NAME_LEN_IN_ENTRY] part0) (\<lambda>part.
     rbind (assert_that (m_size part = NAME_LEN_IN_ENTRY)) (\<lambda>_.
     rbind (ascii_to_unicode (replicate 10 NUL) (vec_list part) 5) (\<lambda>name1.
     rbind (ascii_to_unicode (replicate 12 NUL) (drop 5 (vec_list part)) 6) (\<lambda>name2.
     rbind (ascii_to_unicode (replicate 4 NUL) (drop 11 (vec_list part)) 2) (\<lambda>name3.
       Inr \<lparr>le_ord = (if i = n - 1 then word_of_nat (n - i) OR LAST_LONG_ENTRY else word_of_nat (n - i)),
            le_name1 = map byte_of_char name1, le_attrs = ATTR_LONG_NAME, le_type = 0, le_chksum = 0,
            le_name2 = map byte_of_char name2, le_unused = 0, le_name3 = map byte_of_char name3\<rparr>))))))))"

text \<open>
  The short entry. The name is copied with up to 13 characters into a field of 11: the two
  bytes behind it are \<^verbatim>\<open>attr\<close> and \<^verbatim>\<open>NTRes\<close>, which are assigned afterwards.
\<close>

definition raw_entry_for :: "str \<Rightarrow> u8 \<Rightarrow> u32 \<Rightarrow> FatRawDirectoryEntry result" where
  "raw_entry_for basename ty first_cluster_of_file =
     rbind (c_str basename) (\<lambda>cs.
     rbind (memcpy (replicate 13 NUL) cs (min (m_len basename) NAME_LEN_IN_ENTRY)) (\<lambda>name.
       Inr \<lparr>re_name = map byte_of_char (take 11 name),
            re_attr = (if ty = Type_File then 0 else ATTR_DIRECTORY),
            NTRes = 0, CreateTimeTenth = 0, CreateTime = 0, CreateDate = 0, LastAccessDate = 0,
            ClusterIdxHigh = ucast (drop_bit 16 first_cluster_of_file AND 0xffff),
            WriteTime = 0, WriteDate = 0,
            ClusterIdxLow = ucast (first_cluster_of_file AND 0xffff),
            FileSize = 0\<rparr>))"

definition put_long_entries :: "str \<Rightarrow> nat \<Rightarrow> nat \<Rightarrow> u8 list \<Rightarrow> u8 list result" where
  "put_long_entries basename n offset_in_cluster buff =
     rfold (\<lambda>i buff. rbind (long_entry_for basename n i) (\<lambda>e.
         put_bytes (offset_in_cluster + (n - 1 - i) * ENTRY_SIZE) (bytes_of_long e) buff))
       [0..<n] buff"

definition fat_create_entry :: "Fat32FS \<Rightarrow> buffer_pool \<Rightarrow> drive \<Rightarrow> path \<Rightarrow> u8 \<Rightarrow> (bool \<times> drive) result" where
  "fat_create_entry fs pool d path ty =
     rbind (dirname path) (\<lambda>dir.
     rbind (find_directory fs pool d dir) (\<lambda>found.
       case found of
         None \<Rightarrow> Inr (False, d)
       | Some res \<Rightarrow>
           rbind (find_in_diretory fs pool d (\<lambda>entry. re_name entry ! 0 = 0) (fde_cluster_idx res)) (\<lambda>free.
           case free of
             None \<Rightarrow> Inl AssertionFailed
           | Some (cluster_with_free_space, offset_in_cluster) \<Rightarrow>
               rbind (find_free_cluster fs d) (\<lambda>first_cluster_of_file.
               rbind (assert_that (first_cluster_of_file \<noteq> 0)) (\<lambda>_.
               rbind (base_name path) (\<lambda>basename.
               rbind (div_ceil (word_of_nat (m_len basename)) 13) (\<lambda>num_long.
               let num_long_entries = unat num_long;
                   num_entries_left_in_cluster = (unat (cluster_size fs) - offset_in_cluster) div 4 in
               if num_long_entries + 1 > num_entries_left_in_cluster then Inl NotImplemented
               else
                 rbind (new_buffer pool (unat (cluster_size fs))) (\<lambda>buff.
                 rbind (read_cluster fs d cluster_with_free_space (bb_data buff) 0) (\<lambda>data.
                 rbind (put_long_entries basename num_long_entries offset_in_cluster data) (\<lambda>data1.
                 rbind (raw_entry_for basename ty first_cluster_of_file) (\<lambda>raw_entry.
                 rbind (put_bytes (offset_in_cluster + num_long_entries * ENTRY_SIZE)
                          (bytes_of_raw raw_entry) data1) (\<lambda>data2.
                 rbind (write_cluster fs d cluster_with_free_space data2) (\<lambda>d1.
                 rbind (update_FAT fs d1 first_cluster_of_file FAT_ENTRY_EOF) (\<lambda>d2.
                 rbind (new_buffer pool (unat (cluster_size fs))) (\<lambda>zero_buff.
                 rbind (memset (bb_data zero_buff) 0 (bb_size zero_buff)) (\<lambda>zeroes.
                 rbind (write_cluster fs d2 first_cluster_of_file zeroes) (\<lambda>d3.
                   Inr (True, d3))))))))))))))))))"

section \<open>Long names\<close>

definition ascii :: "string \<Rightarrow> bool" where
  "ascii cs \<longleftrightarrow> (\<forall>c \<in> set cs. of_char c < (128 :: nat))"

lemma ascii_simps [simp]: "ascii []" "ascii (c # cs) \<longleftrightarrow> of_char c < (128 :: nat) \<and> ascii cs"
  "ascii (a @ b) \<longleftrightarrow> ascii a \<and> ascii b"
  by (auto simp: ascii_def)

lemma ascii_sublists: "ascii cs \<Longrightarrow> ascii (take n cs)" "ascii cs \<Longrightarrow> ascii (drop n cs)"
  by (auto simp: ascii_def dest: in_set_takeD in_set_dropD)

lemma ascii_byte: "of_char c < (128 :: nat) \<Longrightarrow> \<not> get_bit (byte_of_char c) 7 \<and> byte_of_char c \<noteq> 0xff"
proof -
  assume c: "of_char c < (128 :: nat)"
  have u: "unat (byte_of_char c) = of_char c"
    by (simp add: byte_of_char_def unsigned_of_nat take_bit_nat_eq_self)
  have "\<not> bit (byte_of_char c) 7"
  proof -
    have "bit (unat (byte_of_char c)) 7 = bit (byte_of_char c) 7" by (simp add: bit_unsigned_iff)
    moreover have "\<not> bit (of_char c :: nat) 7" using c by (simp add: bit_iff_odd)
    ultimately show ?thesis using u by simp
  qed
  moreover have "byte_of_char c \<noteq> 0xff" using c u by auto
  ultimately show ?thesis by (simp add: get_bit_def)
qed

lemma vec_append_capacity: "vec_append v x = Inr v' \<Longrightarrow> m_capacity v \<le> m_capacity v'"
  by (auto simp: vec_append_def ensure_capacity_def construct_at_end_def split: if_splits)

lemma unicode_to_ascii_ok:
  "ascii cs \<Longrightarrow> vec_growable v \<Longrightarrow>
   \<exists>v'. unicode_to_ascii (map byte_of_char (concat (map (\<lambda>c. [c, NUL]) cs))) v = Inr v'
     \<and> vec_growable v' \<and> vec_list v' = vec_list v @ cs \<and> m_capacity v \<le> m_capacity v'"
proof (induction cs arbitrary: v)
  case (Cons c cs)
  obtain v1 where v1: "vec_append v c = Inr v1" "vec_growable v1" "vec_list v1 = vec_list v @ [c]"
    using vec_append_ok [OF Cons.prems(2)] by blast
  obtain v2 where v2: "unicode_to_ascii (map byte_of_char (concat (map (\<lambda>c. [c, NUL]) cs))) v1 = Inr v2"
    "vec_growable v2" "vec_list v2 = vec_list v1 @ cs" "m_capacity v1 \<le> m_capacity v2"
    using Cons.IH [OF _ v1(2)] Cons.prems by auto
  have "byte_of_char NUL = 0" by (simp add: byte_of_char_def)
  then show ?case using v1 v2 vec_append_capacity [OF v1(1)] ascii_byte [of c] Cons.prems(1) by auto
qed auto

text \<open>The part of a name that the long entry \<open>i\<close> holds, and how it is padded.\<close>

definition name_part :: "string \<Rightarrow> nat \<Rightarrow> string" where
  "name_part cs i = chunk (i * 13) 13 cs"

definition pad13 :: "string \<Rightarrow> string" where
  "pad13 cs = cs @ replicate (13 - length cs) NUL"

definition long_entry :: "string \<Rightarrow> nat \<Rightarrow> nat \<Rightarrow> FatLongDirectoryEntry" where
  "long_entry cs n i =
     (let u = (\<lambda>cs. map byte_of_char (concat (map (\<lambda>c. [c, NUL]) cs))); p = pad13 (name_part cs i) in
      \<lparr>le_ord = (if i = n - 1 then word_of_nat (n - i) OR LAST_LONG_ENTRY else word_of_nat (n - i)),
       le_name1 = u (take 5 p), le_attrs = ATTR_LONG_NAME, le_type = 0, le_chksum = 0,
       le_name2 = u (take 6 (drop 5 p)), le_unused = 0, le_name3 = u (drop 11 p)\<rparr>)"

lemma long_entry_attrs [simp]: "le_attrs (long_entry cs n i) = ATTR_LONG_NAME"
  by (simp add: long_entry_def Let_def)

lemma length_name_part: "length (name_part cs i) \<le> 13"
  by (simp add: name_part_def chunk_def)

lemma length_pad13 [simp]: "length cs \<le> 13 \<Longrightarrow> length (pad13 cs) = 13"
  by (simp add: pad13_def)

lemma append_NULs:
  "vec_growable v \<Longrightarrow> \<exists>v'. rfold (\<lambda>_ v. vec_append v NUL) ns v = Inr v' \<and> vec_growable v'
     \<and> vec_list v' = vec_list v @ replicate (length ns) NUL"
proof (induction ns arbitrary: v)
  case (Cons n ns)
  obtain v1 where v1: "vec_append v NUL = Inr v1" "vec_growable v1" "vec_list v1 = vec_list v @ [NUL]"
    using vec_append_ok [OF Cons.prems] by blast
  then show ?case using Cons.IH [OF v1(2)] by (auto simp: replicate_append_same)
qed auto

lemma long_entry_for_ok:
  assumes "i * 13 < length cs"
  shows "long_entry_for (mk_str cs) n i = Inr (long_entry cs n i)"
proof -
  let ?p = "name_part cs i"
  let ?stop = "if int ((i + 1) * 13) > int (length cs) then int (length cs) else int ((i + 1) * 13)"
  have len: "0 < length ?p" "length ?p \<le> 13" using assms by (simp_all add: name_part_def chunk_def)
  have sub: "substr (mk_str cs) (int (i * 13)) (int ((i + 1) * 13)) = Inr (mk_str ?p)"
  proof (cases "(i + 1) * 13 \<le> length cs")
    case True
    then show ?thesis using substr_ok [of "i * 13" "(i + 1) * 13" cs]
      by (simp add: name_part_def chunk_def)
  next
    case False
    then show ?thesis using substr_ok [of "i * 13" "length cs" cs] assms
      by (simp add: name_part_def chunk_def substr_def)
  qed
  obtain v0 where v0: "vec_of_data 1 (?p @ [NUL]) (length ?p) = Inr v0" "vec_ok v0" "vec_list v0 = ?p"
    "m_size v0 = length ?p" "m_capacity v0 = length ?p"
    using vec_of_data_ok [of "length ?p" "?p @ [NUL]"] by auto
  then have "vec_growable v0" using len by (simp add: vec_growable_def)
  then obtain v where v: "rfold (\<lambda>_ v. vec_append v NUL) [length ?p..<13] v0 = Inr v" "vec_growable v"
    "vec_list v = pad13 ?p"
    using append_NULs [of v0 "[length ?p..<13]"] v0(3) by (auto simp: pad13_def)
  then have "m_size v = 13" using vec_okD(3) [of v] len by (simp add: vec_growable_def)
  then show ?thesis using sub v0(1) v len
    by (simp add: long_entry_for_def length_ascii_to_unicode long_entry_def Let_def del: of_nat_mult of_nat_add of_nat_Suc)
qed

lemma vec_plus_ok:
  assumes "vec_ok v" "vec_ok w" "m_size v + m_size w \<le> 2 * m_capacity v"
  shows "\<exists>u. vec_plus v w = Inr u \<and> vec_ok u \<and> vec_list u = vec_list v @ vec_list w \<and> m_capacity v \<le> m_capacity u"
proof -
  obtain c where c: "vec_initialize_from v = Inr c" "vec_ok c" "vec_list c = vec_list v"
    "m_capacity c = m_capacity v" "m_size c = m_size v" using vec_initialize_from_ok [OF assms(1)] by blast
  have "m_size w \<le> length (vec_list w)" using vec_okD(3) [OF assms(2)] by simp
  from vec_concat_ok(1) [OF c(2) this] show ?thesis using c assms(3) vec_okD(3) [OF assms(2)]
    by (auto simp: vec_plus_def)
qed

lemma get_name_ok:
  assumes "ascii cs" "NUL \<notin> set cs"
  shows "get_name (long_entry cs n i) = Inr (mk_str (name_part cs i))"
proof -
  let ?p = "pad13 (name_part cs i)"
  have asc: "ascii ?p" using assms(1)
    by (simp add: pad13_def name_part_def chunk_def ascii_sublists) (simp add: ascii_def)
  have len: "length ?p = 13" using length_pad13 [OF length_name_part] .
  have new: "vec_growable (vec_new :: char vec)" "vec_list (vec_new :: char vec) = []" "m_capacity (vec_new :: char vec) = 8"
    by (simp_all add: vec_new_def)
  obtain c1 where c1: "unicode_to_ascii (le_name1 (long_entry cs n i)) vec_new = Inr c1" "vec_ok c1"
    "vec_list c1 = take 5 ?p" "8 \<le> m_capacity c1"
    using unicode_to_ascii_ok [OF ascii_sublists(1) [OF asc, of 5] new(1)] new
    by (auto simp: long_entry_def Let_def vec_growable_def)
  obtain c2 where c2: "unicode_to_ascii (le_name2 (long_entry cs n i)) vec_new = Inr c2" "vec_ok c2"
    "vec_list c2 = take 6 (drop 5 ?p)"
    using unicode_to_ascii_ok [OF ascii_sublists(1) [OF ascii_sublists(2) [OF asc, of 5], of 6] new(1)] new
    by (auto simp: long_entry_def Let_def vec_growable_def)
  obtain c3 where c3: "unicode_to_ascii (le_name3 (long_entry cs n i)) vec_new = Inr c3" "vec_ok c3"
    "vec_list c3 = drop 11 ?p"
    using unicode_to_ascii_ok [OF ascii_sublists(2) [OF asc, of 11] new(1)] new
    by (auto simp: long_entry_def Let_def vec_growable_def)
  have sz: "m_size c1 = 5" "m_size c2 = 6" "m_size c3 = 2"
    using vec_okD(3) [OF c1(2)] vec_okD(3) [OF c2(2)] vec_okD(3) [OF c3(2)] c1(3) c2(3) c3(3) len by simp_all
  obtain c12 where c12: "vec_plus c1 c2 = Inr c12" "vec_ok c12" "vec_list c12 = take 11 ?p" "8 \<le> m_capacity c12"
    using vec_plus_ok [OF c1(2) c2(2)] c1 c2 sz take_add [of 5 6 ?p] by auto
  then have sz12: "m_size c12 = 11" using vec_okD(3) [OF c12(2)] len by simp
  obtain c where c: "vec_plus c12 c3 = Inr c" "vec_ok c" "vec_list c = ?p" "8 \<le> m_capacity c"
    using vec_plus_ok [OF c12(2) c3(2)] c12 c3(3) sz12 sz(3) append_take_drop_id [of 11 ?p] by auto
  obtain c' where c': "vec_append c NUL = Inr c'" "vec_list c' = ?p @ [NUL]"
    using vec_append_ok [of c NUL] c by (auto simp: vec_growable_def)
  have "NUL \<notin> set (name_part cs i)"
    using assms(2) by (auto simp: name_part_def chunk_def dest: in_set_takeD in_set_dropD)
  then have "String_of_cstr (?p @ [NUL]) = Inr (mk_str (name_part cs i))"
    using String_of_cstr_ok [of "name_part cs i" "replicate (13 - length (name_part cs i)) NUL"]
    by (simp add: pad13_def replicate_append_same [symmetric])
  then show ?thesis using c1(1) c2(1) c3(1) c12(1) c(1) c' by (simp add: get_name_def)
qed

section \<open>Slots\<close>

lemma length_unicode: "length (map byte_of_char (concat (map (\<lambda>c. [c, NUL]) cs))) = 2 * length cs"
  by (induction cs) simp_all

lemma length_bytes_of_long [simp]: "length (bytes_of_long (long_entry cs n i)) = 32"
  using length_name_part [of cs i]
  by (simp add: bytes_of_long_def long_entry_def Let_def length_unicode del: length_map)

lemma long_of_bytes_of_long:
  "length (le_name1 e) = 10 \<Longrightarrow> length (le_name2 e) = 12 \<Longrightarrow> length (le_name3 e) = 4 \<Longrightarrow>
   long_of_bytes (bytes_of_long e) = e"
  by (cases e) (simp add: long_of_bytes_def bytes_of_long_def chunk_def nth_append u16_at_def le16_def)

lemma long_of_bytes_long_entry [simp]: "long_of_bytes (bytes_of_long (long_entry cs n i)) = long_entry cs n i"
  using length_name_part [of cs i]
  by (intro long_of_bytes_of_long) (simp_all add: long_entry_def Let_def length_unicode del: length_map)

lemma raw_of_bytes_of_raw: "length (re_name e) = 11 \<Longrightarrow> raw_of_bytes (bytes_of_raw e) = e"
  by (cases e) (simp add: raw_of_bytes_def bytes_of_raw_def chunk_def nth_append u16_at_def u32_at_def
      le16_def le32_def)

lemma length_bytes_of_raw [simp]: "length (re_name e) = 11 \<Longrightarrow> length (bytes_of_raw e) = 32"
  by (simp add: bytes_of_raw_def)

lemma slot_blit:
  assumes "32 * k + 32 \<le> length buff" "length bs = 32"
  shows "slot (blit (32 * k) bs buff) j = (if j = k then bs else slot buff j)"
proof -
  consider "j = k" | "j < k" | "k < j" by linarith
  then show ?thesis
  proof cases
    case 2
    then have "32 * j + 32 \<le> 32 * k" by linarith
    then show ?thesis using assms chunk_blit_before [of "32 * k" bs buff "32 * j" 32] 2 by (simp add: slot_def)
  next
    case 3
    then have "32 * k + 32 \<le> 32 * j" by linarith
    then show ?thesis using assms chunk_blit_after [of "32 * k" bs buff "32 * j" 32] 3 by (simp add: slot_def)
  qed (use assms in \<open>simp add: slot_def\<close>)
qed

lemma slot_append:
  "length a = 32 * n \<Longrightarrow> slot (a @ b) j = (if j < n then slot a j else slot b (j - n))"
  by (auto simp: slot_def chunk_def diff_mult_distrib2)

text \<open>The slots \<open>k\<close> to \<open>k + n\<close> of a buffer hold the entry with the name \<open>cs\<close>.\<close>

definition entry_at :: "u8 list \<Rightarrow> nat \<Rightarrow> nat \<Rightarrow> string \<Rightarrow> FatRawDirectoryEntry \<Rightarrow> bool" where
  "entry_at b k n cs raw \<longleftrightarrow> (\<forall>j<n. slot b (k + j) = bytes_of_long (long_entry cs n (n - 1 - j)))
     \<and> slot b (k + n) = bytes_of_raw raw"

definition long_count :: "string \<Rightarrow> nat \<Rightarrow> bool" where
  "long_count cs n \<longleftrightarrow> length cs \<le> n * 13 \<and> n * 13 < length cs + 13"

lemma put_long_entries_ok:
  assumes "long_count cs n" "32 * (k + n) \<le> length buff"
  shows "\<exists>b. put_long_entries (mk_str cs) n (32 * k) buff = Inr b \<and> length b = length buff
    \<and> (\<forall>j. slot b j = (if k \<le> j \<and> j < k + n
         then bytes_of_long (long_entry cs n (n - 1 - (j - k))) else slot buff j))"
proof -
  let ?f = "\<lambda>i buff. rbind (long_entry_for (mk_str cs) n i) (\<lambda>e.
    put_bytes (32 * k + (n - 1 - i) * 32) (bytes_of_long e) buff)"
  have "\<exists>b. rfold ?f [0..<m] buff = Inr b \<and> length b = length buff
    \<and> (\<forall>j. slot b j = (if k + (n - m) \<le> j \<and> j < k + n
         then bytes_of_long (long_entry cs n (n - 1 - (j - k))) else slot buff j))" if "m \<le> n" for m
    using that
  proof (induction m)
    case (Suc m)
    then obtain b where b: "rfold ?f [0..<m] buff = Inr b" "length b = length buff"
      "\<And>j. slot b j = (if k + (n - m) \<le> j \<and> j < k + n
         then bytes_of_long (long_entry cs n (n - 1 - (j - k))) else slot buff j)" by auto
    have "m * 13 < length cs" using Suc.prems assms(1) by (simp add: long_count_def)
    then have e: "long_entry_for (mk_str cs) n m = Inr (long_entry cs n m)" by (rule long_entry_for_ok)
    let ?q = "k + (n - 1 - m)"
    have q: "32 * k + (n - 1 - m) * 32 = 32 * ?q" "32 * ?q + 32 \<le> length b"
      using assms(2) b(2) Suc.prems by auto
    have fm: "?f m b = Inr (blit (32 * ?q) (bytes_of_long (long_entry cs n m)) b)"
      using e q(2) unfolding q(1) by (simp add: put_bytes_def)
    have sl: "slot (blit (32 * ?q) (bytes_of_long (long_entry cs n m)) b) j
        = (if k + (n - Suc m) \<le> j \<and> j < k + n
           then bytes_of_long (long_entry cs n (n - 1 - (j - k))) else slot buff j)" for j
    proof (cases "j = ?q")
      case True
      then have "n - 1 - (j - k) = m" "k + (n - Suc m) \<le> j" "j < k + n" using Suc.prems by auto
      then show ?thesis using True slot_blit [OF q(2)] by simp
    next
      case False
      then have "(k + (n - Suc m) \<le> j) = (k + (n - m) \<le> j)" using Suc.prems by auto
      then show ?thesis using False slot_blit [OF q(2)] b(3) [of j] by simp
    qed
    have len: "length (blit (32 * ?q) (bytes_of_long (long_entry cs n m)) b) = length buff"
      using q(2) b(2) by simp
    have "rfold ?f [0..<Suc m] buff = ?f m b" using b(1) by (simp add: rfold_snoc)
    with fm show ?case by (intro exI conjI allI, simp only:) (use len sl in blast)+
  qed auto
  from this [of n] show ?thesis by (simp add: put_long_entries_def)
qed

lemma not_last_bit: "m < 64 \<Longrightarrow> (word_of_nat m :: u8) AND 0x40 = 0"
proof -
  assume "m < 64"
  then have "\<not> bit m 6" by (simp add: bit_iff_odd)
  then have "\<not> bit (word_of_nat m :: u8) 6" by (simp add: bit_simps)
  then show ?thesis using and_exp_eq_0_iff_not_bit [of "word_of_nat m :: u8" 6] by simp
qed

lemma is_last_long_entry: "n < 64 \<Longrightarrow> i < n \<Longrightarrow> is_last_long (long_entry cs n i) \<longleftrightarrow> i = n - 1"
proof -
  assume n: "n < 64" "i < n"
  have "(w OR 0x40) AND 0x40 \<noteq> 0" for w :: u8
    using and_exp_eq_0_iff_not_bit [of "w OR 0x40" 6] bit_exp_iff [of 6 6, where 'a = u8]
    by (simp add: bit_or_iff)
  then show ?thesis using n not_last_bit [of "n - i"] by (simp add: is_last_long_def long_entry_def Let_def)
qed

text \<open>Reading the name backwards from the short entry gives the name that was stored.\<close>

lemma long_name_loop_ok:
  assumes "ascii cs" "NUL \<notin> set cs" "long_count cs n" "n < 64" "entry_at b k n cs raw"
  shows "i < n \<Longrightarrow> long_name_loop b raw' (k + (n - i)) (mk_str (take (i * 13) cs)) = Inr (mk_str cs)"
proof (induction "n - i" arbitrary: i)
  case (Suc m)
  have q: "k + (n - i) = Suc (k + (n - 1 - i))" using Suc.prems by simp
  have "slot b (k + (n - 1 - i)) = bytes_of_long (long_entry cs n (n - 1 - (n - 1 - i)))"
    using assms(5) Suc.prems unfolding entry_at_def by (metis diff_less_Suc Suc_diff_1 less_nat_zero_code not_gr_zero diff_less zero_less_one le_less_trans diff_le_self)
  moreover have "n - 1 - (n - 1 - i) = i" using Suc.prems by simp
  ultimately have s: "slot b (k + (n - 1 - i)) = bytes_of_long (long_entry cs n i)" by simp
  have tk: "take (i * 13) cs @ name_part cs i = take (Suc i * 13) cs"
    using take_add [of "i * 13" 13 cs] by (simp add: name_part_def chunk_def add.commute)
  have step: "long_name_loop b raw' (k + (n - i)) (mk_str (take (i * 13) cs))
      = (if i = n - 1 then Inr (mk_str (take (Suc i * 13) cs))
         else long_name_loop b raw' (k + (n - 1 - i)) (mk_str (take (Suc i * 13) cs)))"
    using s get_name_ok [OF assms(1,2), of n i] is_last_long_entry [OF assms(4) Suc.prems, of cs] tk
    unfolding q by (simp add: str_plus_ok)
  show ?case
  proof (cases "i = n - 1")
    case True
    then have "take (Suc i * 13) cs = cs" using assms(3) Suc.prems by (simp add: long_count_def)
    then show ?thesis using step True by simp
  next
    case False
    then have "Suc i < n" "m = n - Suc i" "k + (n - 1 - i) = k + (n - Suc i)" using Suc by auto
    then show ?thesis using step False Suc.hyps(1) [of "Suc i"] by simp
  qed
qed simp

section \<open>Reading a directory\<close>

lemma raw_first_byte: "length b = 32 \<Longrightarrow> re_name (raw_of_bytes b) ! 0 = b ! 0"
  by (simp add: raw_of_bytes_def chunk_def)

lemma find_loop_absent:
  assumes "c \<notin> set cs" "n \<le> length cs"
  shows "find_loop (cs @ [NUL]) [c, NUL] 1 n i = Inr (-1)"
proof (induction "n - i" arbitrary: i)
  case 0
  then show ?case by (subst find_loop.simps) simp
next
  case (Suc m)
  then have i: "i < length cs" using assms(2) by simp
  have dr: "drop i (cs @ [NUL]) = cs ! i # drop (Suc i) (cs @ [NUL])"
    using i by (metis Cons_nth_drop_Suc length_append_singleton less_Suc_eq nth_append)
  have "strncmp (drop i (cs @ [NUL])) [c, NUL] 1 = Inr (schar (cs ! i) - schar c)"
    unfolding dr by (simp add: strncmp_def)
  moreover have "cs ! i \<noteq> c" using assms(1) i by auto
  ultimately have "find_loop (cs @ [NUL]) [c, NUL] 1 n i = find_loop (cs @ [NUL]) [c, NUL] 1 n (i + 1)"
    using i assms(2) Suc.hyps(2) by (subst find_loop.simps) (simp del: drop_append, linarith)
  then show ?case using Suc by simp
qed

lemma name_lower_ok:
  assumes "length nm = 11" "CHR '' '' \<notin> set nm" "map char_of_byte (re_name raw) = nm"
  shows "name_lower raw = Inr (mk_str (map lower_char (take 8 nm @ ''.'' @ drop 8 nm)))"
proof -
  have a: "init_from nm 11 = Inr (mk_str nm)" using assms(1) by (simp add: init_from_ok)
  have b: "str_find (mk_str nm) (mk_str '' '') 0 = Inr (-1)"
    using find_loop_absent [OF assms(2), of "length nm" 0] by (simp add: str_find_def)
  have c: "substr (mk_str nm) 0 8 = Inr (mk_str (take 8 nm))" using substr_ok [of 0 8 nm] assms(1) by simp
  have d: "substr (mk_str nm) 8 (-1) = Inr (mk_str (drop 8 nm))" using substr_rest [of nm 8] assms(1) by simp
  have "nm ! 8 \<in> set nm" using assms(1) by simp
  then have e2: "nm ! 8 \<noteq> CHR '' ''" using assms(2) by auto
  have e: "str_index (mk_str (drop 8 nm)) 0 = Inr (nm ! 8)" using assms(1) by (simp add: str_index_ok)
  show ?thesis using a b c d e e2 assms(3) by (simp add: name_lower_def str_plus_ok str_lower_ok)
qed

lemma is_fake_no:
  assumes "length (re_name raw) = 11" "CHR '' '' \<notin> set (map char_of_byte (re_name raw))"
  shows "is_fake_direcotry raw = Inr False"
proof -
  let ?r = "map lower_char (take 8 (map char_of_byte (re_name raw)) @ ''.'' @ drop 8 (map char_of_byte (re_name raw)))"
  have nl: "name_lower raw = Inr (mk_str ?r)" using name_lower_ok [of _ raw] assms by simp
  have len: "length ?r = 12" using assms(1) by simp
  have "?r \<noteq> s" if "length s < 12" for s using len that by (metis less_irrefl)
  from this [of "''.''"] this [of "''..''"] have "?r \<noteq> ''.''" "?r \<noteq> ''..''" by simp_all
  then show ?thesis unfolding is_fake_direcotry_def nl rbind_Inr str_eq_ok by simp
qed

text \<open>What one slot contributes: no entry, or the entry that ends in it.\<close>

definition ends_at :: "u8 list \<Rightarrow> nat \<Rightarrow> bool" where
  "ends_at data i \<longleftrightarrow> re_name (raw_of_bytes (slot data i)) ! 0 = 0"

definition slot_entry :: "u8 list \<Rightarrow> nat \<Rightarrow> FatDirectoryEntry option result" where
  "slot_entry data i =
     (let current = raw_of_bytes (slot data i) in
      if is_long_name current then Inr None
      else rbind (is_fake_direcotry current) (\<lambda>fake.
        if fake \<or> re_name current ! 0 = 0xE5 then Inr None
        else rbind (create_entry_from data i) (\<lambda>e. Inr (Some e))))"

lemma read_directory_step:
  "read_directory_loop data sz i v =
     (if 32 * i \<ge> sz then Inl NotReached
      else if ends_at data i then Inr v
      else rbind (slot_entry data i) (\<lambda>x. case x of
             None \<Rightarrow> read_directory_loop data sz (Suc i) v
           | Some e \<Rightarrow> rbind (vec_append v e) (read_directory_loop data sz (Suc i))))"
  unfolding ends_at_def slot_entry_def Let_def
  by (subst read_directory_loop.simps) (auto simp: Let_def rbind_assoc intro!: rbind_cong)

lemma long_name_loop_cong:
  "(\<And>j. j < i \<Longrightarrow> slot a j = slot b j) \<Longrightarrow> long_name_loop a raw i name = long_name_loop b raw i name"
  by (induction i arbitrary: name) (auto simp: Let_def intro!: rbind_cong)

lemma slot_entry_cong:
  "(\<And>j. j \<le> i \<Longrightarrow> slot a j = slot b j) \<Longrightarrow> slot_entry a i = slot_entry b i"
proof -
  assume a: "\<And>j. j \<le> i \<Longrightarrow> slot a j = slot b j"
  have "create_entry_from a i = create_entry_from b i"
    using long_name_loop_cong [of i a b] a by (simp add: create_entry_from_def)
  then show ?thesis unfolding slot_entry_def a [OF order_refl] by (simp only:)
qed

lemma vec_append_growable: "vec_append v e = Inr u \<Longrightarrow> vec_growable v \<Longrightarrow> vec_growable u \<and> vec_list u = vec_list v @ [e]"
  using vec_append_ok [of v e] by auto

text \<open>
  Reading a buffer that agrees with \<open>data\<close> before the end mark in slot \<open>k\<close> gets to this slot
  with what reading \<open>data\<close> returned.
\<close>

lemma read_directory_reaches:
  assumes "\<And>j. j < k \<Longrightarrow> slot data' j = slot data j" "ends_at data k" "32 * k < sz'"
  shows "read_directory_loop data sz i v = Inr w \<Longrightarrow> i \<le> k \<Longrightarrow> (\<And>j. j < k \<Longrightarrow> \<not> ends_at data j) \<Longrightarrow>
    vec_growable v \<Longrightarrow>
    read_directory_loop data' sz' i v = read_directory_loop data' sz' k w \<and> vec_growable w"
proof (induction "k - i" arbitrary: i v)
  case 0
  then have "i = k" by simp
  then have "w = v" using 0(2) assms(2) by (subst (asm) read_directory_step) (simp split: if_splits)
  then show ?case using \<open>i = k\<close> 0 by simp
next
  case (Suc m)
  then have ik: "i < k" "\<not> ends_at data i" by auto
  have same: "slot_entry data' i = slot_entry data i" "ends_at data' i = ends_at data i"
    using slot_entry_cong [of i data' data] assms(1) ik(1) by (auto simp: ends_at_def)
  from Suc.prems(1) ik(2) obtain x where x: "slot_entry data i = Inr x"
    and rest: "(case x of None \<Rightarrow> read_directory_loop data sz (Suc i) v
       | Some e \<Rightarrow> rbind (vec_append v e) (read_directory_loop data sz (Suc i))) = Inr w"
    by (subst (asm) read_directory_step) (auto split: if_splits)
  have sz: "\<not> sz' \<le> 32 * i" using ik(1) assms(3) by simp
  show ?case
  proof (cases x)
    case None
    then have "read_directory_loop data' sz' i v = read_directory_loop data' sz' (Suc i) v"
      by (subst read_directory_step) (simp add: same x ik(2) sz del: mult_Suc_right)
    then show ?thesis using Suc.hyps(1) [of "Suc i" v] Suc.hyps(2) rest None Suc.prems(3,4) ik(1) by simp
  next
    case (Some e)
    then obtain u where u: "vec_append v e = Inr u" "read_directory_loop data sz (Suc i) u = Inr w"
      using rest by auto
    have "read_directory_loop data' sz' i v = read_directory_loop data' sz' (Suc i) u"
      by (subst read_directory_step) (simp add: same x ik(2) sz Some u(1) del: mult_Suc_right)
    then show ?thesis using Suc.hyps(1) [of "Suc i" u] Suc.hyps(2) u vec_append_growable [OF u(1) Suc.prems(4)]
        Suc.prems(3) ik(1) by simp
  qed
qed

text \<open>The long entries of a name are passed over.\<close>

lemma long_slot:
  assumes "entry_at b k n cs raw" "j < n" "n < 64"
  shows "\<not> ends_at b (k + j)" "slot_entry b (k + j) = Inr None"
proof -
  let ?e = "long_entry cs n (n - 1 - j)"
  have s: "slot b (k + j) = bytes_of_long ?e" using assms(1,2) by (simp add: entry_at_def)
  have nth: "bytes_of_long ?e ! 0 = le_ord ?e" "bytes_of_long ?e ! 11 = ATTR_LONG_NAME"
    using length_name_part [of cs "n - 1 - j"]
    by (simp_all add: bytes_of_long_def nth_append long_entry_def Let_def length_unicode del: length_map)
  have "unat (word_of_nat (Suc j) :: u8) = Suc j"
    using assms(2,3) by (simp add: unsigned_of_nat take_bit_nat_eq_self del: of_nat_Suc)
  then have "word_of_nat (Suc j) \<noteq> (0 :: u8)" by (metis nat.distinct(1) unsigned_0)
  then have "le_ord ?e \<noteq> 0" using assms(2) by (auto simp: long_entry_def Let_def or_eq_0_iff)
  then show "\<not> ends_at b (k + j)" using s nth(1) raw_first_byte [of "bytes_of_long ?e"]
    by (simp add: ends_at_def)
  show "slot_entry b (k + j) = Inr None"
    using s nth(2) by (simp add: slot_entry_def is_long_name_def raw_of_bytes_def)
qed

text \<open>The short entry that \<^verbatim>\<open>create_entry\<close> writes behind the long ones.\<close>

definition raw_for :: "string \<Rightarrow> u8 \<Rightarrow> u32 \<Rightarrow> FatRawDirectoryEntry" where
  "raw_for cs ty c =
     \<lparr>re_name = map byte_of_char (take 11 cs @ replicate (11 - length cs) NUL),
      re_attr = (if ty = Type_File then 0 else ATTR_DIRECTORY),
      NTRes = 0, CreateTimeTenth = 0, CreateTime = 0, CreateDate = 0, LastAccessDate = 0,
      ClusterIdxHigh = ucast (drop_bit 16 c AND 0xffff), WriteTime = 0, WriteDate = 0,
      ClusterIdxLow = ucast (c AND 0xffff), FileSize = 0\<rparr>"

lemma raw_entry_for_ok: "raw_entry_for (mk_str cs) ty c = Inr (raw_for cs ty c)"
proof -
  have "take 11 (take (min (length cs) 13) cs @ replicate (13 - min (length cs) 13) NUL)
      = take 11 cs @ replicate (11 - length cs) NUL"
    by (simp add: take_replicate min_def)
  then show ?thesis by (simp add: raw_entry_for_def memcpy_eq raw_for_def)
qed

lemma length_raw_for [simp]: "length (re_name (raw_for cs ty c)) = 11"
  by (simp add: raw_for_def)

lemma raw_cluster_idx_for [simp]: "raw_cluster_idx (raw_for cs ty c) = c"
proof (rule bit_word_eqI)
  fix m :: nat
  assume m: "m < LENGTH(32)"
  consider "m < 16" | "16 \<le> m" by linarith
  then show "bit (raw_cluster_idx (raw_for cs ty c)) m = bit c m"
    by cases (use m in \<open>auto simp: raw_cluster_idx_def raw_for_def word_and_0xFFFF bit_simps\<close>)
qed

text \<open>Names for which the stored entry can be read back.\<close>

definition valid_name :: "string \<Rightarrow> bool" where
  "valid_name cs \<longleftrightarrow> cs \<noteq> [] \<and> ascii cs \<and> NUL \<notin> set cs \<and> CHR '' '' \<notin> set cs \<and> length cs \<le> 819"

lemma long_count_bounds:
  "long_count cs n \<Longrightarrow> valid_name cs \<Longrightarrow> 0 < n \<and> n < 64"
  by (cases n) (auto simp: long_count_def valid_name_def)

definition new_entry :: "string \<Rightarrow> u8 \<Rightarrow> u32 \<Rightarrow> FatDirectoryEntry" where
  "new_entry cs ty c =
     \<lparr>fde_name = mk_str cs, fde_type = (if ty = Type_File then Type_File else Type_Directory),
      fde_size = 0, fde_cluster_idx = c\<rparr>"

lemma new_slot:
  assumes "entry_at b k n cs (raw_for cs ty c)" "valid_name cs" "long_count cs n"
  shows "\<not> ends_at b (k + n)" "slot_entry b (k + n) = Inr (Some (new_entry cs ty c))"
proof -
  let ?r = "raw_for cs ty c"
  have n: "0 < n" "n < 64" using long_count_bounds [OF assms(3,2)] by auto
  have raw: "raw_of_bytes (slot b (k + n)) = ?r"
    using assms(1) raw_of_bytes_of_raw [of ?r] by (simp add: entry_at_def)
  obtain x xs where cs: "cs = x # xs" using assms(2) by (cases cs) (auto simp: valid_name_def)
  have x: "x \<noteq> NUL" "of_char x < (128 :: nat)" using assms(2) cs by (auto simp: valid_name_def)
  have first: "re_name ?r ! 0 = byte_of_char x" by (simp add: raw_for_def cs)
  have "byte_of_char NUL = 0" by (simp add: byte_of_char_def)
  then have "byte_of_char x \<noteq> 0" using x(1) char_of_byte_of_char by metis
  then show "\<not> ends_at b (k + n)" using raw first by (simp add: ends_at_def)
  have "unat (byte_of_char x) = of_char x" by (simp add: byte_of_char_def unsigned_of_nat take_bit_nat_eq_self)
  then have E5: "byte_of_char x \<noteq> 0xE5" using x(2) by auto
  have "set (map char_of_byte (re_name ?r)) \<subseteq> set cs \<union> {NUL}"
    by (auto simp: raw_for_def dest: in_set_takeD split: if_splits)
  then have "CHR '' '' \<notin> set (map char_of_byte (re_name ?r))" using assms(2) by (auto simp: valid_name_def)
  then have fake: "is_fake_direcotry ?r = Inr False" by (intro is_fake_no) simp_all
  have nl: "\<not> is_long_name ?r" by (simp add: is_long_name_def raw_for_def)
  have "long_name_loop b ?r (k + (n - 0)) (mk_str (take (0 * 13) cs)) = Inr (mk_str cs)"
    using long_name_loop_ok [OF _ _ assms(3) n(2) assms(1) n(1), of ?r] assms(2) by (simp add: valid_name_def)
  then have "create_entry_from b (k + n) = Inr (new_entry cs ty c)"
    unfolding create_entry_from_def raw by (simp add: new_entry_def)
      (simp add: raw_for_def get_dir_entry_type_def raw_is_directory_def)
  then show "slot_entry b (k + n) = Inr (Some (new_entry cs ty c))"
    unfolding slot_entry_def raw Let_def using fake first E5 nl by (simp del: rbind_Inr_iff)
qed

lemma read_directory_skips:
  assumes "entry_at b k n cs raw" "n < 64" "32 * (k + n) < sz"
  shows "j \<le> n \<Longrightarrow> read_directory_loop b sz (k + j) w = read_directory_loop b sz (k + n) w"
proof (induction "n - j" arbitrary: j)
  case (Suc m)
  then have j: "j < n" by simp
  have "\<not> sz \<le> 32 * (k + j)" using assms(3) j by simp
  then have "read_directory_loop b sz (k + j) w = read_directory_loop b sz (k + Suc j) w"
    using long_slot [OF assms(1) j assms(2)] by (subst read_directory_step) simp
  then show ?case using Suc.hyps(1) [of "Suc j"] Suc.hyps(2) j by simp
qed simp

text \<open>
  A new entry in place of the end mark, with an end mark behind it, is read as one more entry
  of the directory.
\<close>

lemma read_directory_insert:
  assumes "read_directory_loop data sz 0 vec_new = Inr w" "ends_at data k" "\<And>j. j < k \<Longrightarrow> \<not> ends_at data j"
    "\<And>j. j < k \<Longrightarrow> slot data' j = slot data j" "entry_at data' k n cs (raw_for cs ty c)"
    "ends_at data' (k + n + 1)" "32 * (k + n + 1) < sz" "valid_name cs" "long_count cs n"
  shows "\<exists>w'. read_directory_loop data' sz 0 vec_new = Inr w' \<and> vec_list w' = vec_list w @ [new_entry cs ty c]"
proof -
  have n: "n < 64" using long_count_bounds [OF assms(9,8)] by simp
  have sz: "32 * k < sz" "32 * (k + n) < sz" using assms(7) by auto
  have "read_directory_loop data' sz 0 vec_new = read_directory_loop data' sz k w" "vec_growable w"
    using read_directory_reaches [OF assms(4,2) sz(1) assms(1)] assms(3) by (simp_all add: vec_new_def)
  moreover have "read_directory_loop data' sz k w = read_directory_loop data' sz (k + n) w"
    using read_directory_skips [OF assms(5) n sz(2), of 0 w] by simp
  moreover obtain w' where w': "vec_append w (new_entry cs ty c) = Inr w'" "vec_list w' = vec_list w @ [new_entry cs ty c]"
    using vec_append_ok [OF calculation(2)] by blast
  moreover have "read_directory_loop data' sz (k + n) w = read_directory_loop data' sz (k + n + 1) w'"
    using new_slot [OF assms(5,8,9)] sz(2) w'(1) by (subst read_directory_step) simp
  moreover have "read_directory_loop data' sz (k + n + 1) w' = Inr w'"
    using assms(6,7) by (subst read_directory_step) simp
  ultimately show ?thesis by simp
qed

end
