(* ===== verification/Fat32_Files.thy ===== *)
theory Fat32_Files
  imports Fat32_Directory
begin

text \<open>
  What the operations of \<^verbatim>\<open>Fat32FS\<close> do to directories and files: the search for a slot is a
  search in the content of the directory's chain, creating an entry adds it to what reading the
  directory returns, and writing a file changes the content of its chain and the size in its
  entry and nothing else.
\<close>

section \<open>Slots of a chain\<close>

abbreviation slots_per_cluster :: "Fat32FS \<Rightarrow> nat" where
  "slots_per_cluster fs \<equiv> 16 * spc fs"

lemma cluster_size_slots: "fat_ok fs d \<Longrightarrow> unat (cluster_size fs) = 32 * slots_per_cluster fs"
  by (simp add: unat_cluster_size)

lemma slot_take: "32 * i + 32 \<le> n \<Longrightarrow> slot (take n b) i = slot b i"
  by (simp add: slot_def chunk_def drop_take min_def)

lemma slot_concat:
  assumes "0 < n" "\<And>c. c \<in> set cs \<Longrightarrow> length (f c) = 32 * n"
  shows "j < n * length cs \<Longrightarrow> slot (concat (map f cs)) j = slot (f (cs ! (j div n))) (j mod n)"
  using assms(2)
proof (induction cs arbitrary: j)
  case (Cons c cs)
  show ?case
  proof (cases "j < n")
    case True
    then show ?thesis using Cons.prems(2) slot_append [of "f c" n "concat (map f cs)" j] by simp
  next
    case False
    then have "j div n = Suc ((j - n) div n)" "j mod n = (j - n) mod n"
      using assms(1) by (simp_all add: le_div_geq le_mod_geq)
    then show ?thesis using False Cons slot_append [of "f c" n "concat (map f cs)" j] by simp
  qed
qed simp

lemma slot_chain:
  assumes "fat_ok fs d" "j < slots_per_cluster fs * length cs"
  shows "slot (chain_bytes fs d' cs) j
    = slot (cluster_bytes fs d' (cs ! (j div slots_per_cluster fs))) (j mod slots_per_cluster fs)"
  using slot_concat [of "slots_per_cluster fs" cs "cluster_bytes fs d'" j] assms fat_okD(2) [OF assms(1)]
  by (simp add: cluster_size_slots [OF assms(1)] algebra_simps)

lemma find_first: "P k \<Longrightarrow> k < m \<Longrightarrow> (\<And>j. j < k \<Longrightarrow> \<not> P j) \<Longrightarrow> find P [0..<m] = Some k"
  unfolding find_Some_iff by (rule exI [of _ k]) simp

lemma find_slot_eq:
  "find_slot p buff js = map_option (\<lambda>i. 32 * i) (find (\<lambda>i. p (raw_of_bytes (slot buff i))) js)"
  by (induction js) auto

text \<open>One cluster read into a fresh buffer.\<close>

lemma read_one_cluster:
  assumes "fat_ok fs d" "cluster_ok fs d c" "bb_room pool (pages_for (unat (cluster_size fs)))"
  obtains b data where "new_buffer pool (unat (cluster_size fs)) = Inr b"
    "read_cluster fs d c (bb_data b) 0 = Inr data" "take (unat (cluster_size fs)) data = cluster_bytes fs d c"
    "unat (cluster_size fs) \<le> length data"
proof -
  have z: "0 < unat (cluster_size fs)" using fat_okD(2) [OF assms(1)] by (simp add: unat_cluster_size [OF assms(1)])
  obtain b where b: "new_buffer pool (unat (cluster_size fs)) = Inr b"
    "length (bb_data b) = 4096 * pages_for (unat (cluster_size fs))"
    using new_buffer_ok [OF z assms(3)] by blast
  have len: "0 + unat (cluster_size fs) \<le> length (bb_data b)" using b(2) pages_for_le by simp
  show thesis
  proof
    show "new_buffer pool (unat (cluster_size fs)) = Inr b" by (fact b(1))
    show "read_cluster fs d c (bb_data b) 0 = Inr (blit 0 (cluster_bytes fs d c) (bb_data b))"
      by (rule read_cluster_ok [OF assms(1,2) len])
  qed (use len assms(1) in \<open>simp_all add: blit_def\<close>)
qed

lemma find_in_diretory_step:
  assumes "fat_ok fs d" "bb_room pool (pages_for (unat (cluster_size fs)))" "cluster_ok fs d c"
  shows "find_in_diretory_loop fs pool d p c
    = (case find (\<lambda>k. p (raw_of_bytes (slot (cluster_bytes fs d c) k))) [0..<slots_per_cluster fs] of
         Some i \<Rightarrow> Some (Inr (Some (c, 32 * i)))
       | None \<Rightarrow> (if fat_entry fs d c \<ge> FAT_ENTRY_EOF then Some (Inr None)
                 else find_in_diretory_loop fs pool d p (fat_entry fs d c AND 0x0fffffff)))"
proof -
  let ?N = "slots_per_cluster fs" and ?z = "unat (cluster_size fs)"
  have N: "?z div 32 = ?N" by (simp add: unat_cluster_size [OF assms(1)])
  have z: "?z = 32 * ?N" by (rule cluster_size_slots [OF assms(1)])
  obtain b data where b: "new_buffer pool ?z = Inr b" "read_cluster fs d c (bb_data b) 0 = Inr data"
    "take ?z data = cluster_bytes fs d c"
    using read_one_cluster [OF assms(1,3,2)] by metis
  have "slot data i = slot (cluster_bytes fs d c) i" if "i < ?N" for i
    using slot_take [of i ?z data] b(3) z that by simp
  then have "find (\<lambda>k. p (raw_of_bytes (slot data k))) [0..<?N]
      = find (\<lambda>k. p (raw_of_bytes (slot (cluster_bytes fs d c) k))) [0..<?N]"
    by (intro find_cong) simp_all
  then show ?thesis using b(1,2) N assms(3)
    by (subst find_in_diretory_loop.simps)
      (simp add: find_slot_eq entry_in_fat_ok [OF assms(1)] cluster_ok_def split: option.splits)
qed

lemma find_in_diretory_ok:
  assumes "fat_ok fs d" "bb_room pool (pages_for (unat (cluster_size fs)))"
  shows "fat_chain fs d (c # cs) \<Longrightarrow> list_all (cluster_ok fs d) (c # cs) \<Longrightarrow>
    find_in_diretory fs pool d p c = Inr (map_option
      (\<lambda>k. ((c # cs) ! (k div slots_per_cluster fs), 32 * (k mod slots_per_cluster fs)))
      (find (\<lambda>k. p (raw_of_bytes (slot (chain_bytes fs d (c # cs)) k)))
        [0..<slots_per_cluster fs * length (c # cs)]))"
proof (induction cs arbitrary: c)
  case Nil
  let ?f = "find (\<lambda>k. p (raw_of_bytes (slot (cluster_bytes fs d c) k))) [0..<slots_per_cluster fs]"
  have "i < slots_per_cluster fs" if "?f = Some i" for i using that by (auto simp: find_Some_iff)
  then show ?case using find_in_diretory_step [OF assms, of c p] Nil
    by (cases ?f) (simp_all add: find_in_diretory_def)
next
  case (Cons a cs)
  let ?N = "slots_per_cluster fs" and ?P = "\<lambda>b k. p (raw_of_bytes (slot b k))"
  have N: "0 < ?N" using fat_okD(2) [OF assms(1)] by simp
  have ext: "find (?P (chain_bytes fs d (c # a # cs))) [0..<?N * length (c # a # cs)]
     = (case find (?P (cluster_bytes fs d c)) [0..<?N] of Some i \<Rightarrow> Some i
        | None \<Rightarrow> map_option (\<lambda>k. ?N + k) (find (?P (chain_bytes fs d (a # cs))) [0..<?N * length (a # cs)]))"
  proof -
    have "[0..<?N * length (c # a # cs)] = [0..<?N] @ map (\<lambda>k. ?N + k) [0..<?N * length (a # cs)]"
      using upt_add_eq_append [of 0 ?N "?N * length (a # cs)"] map_add_upt [of ?N "?N * length (a # cs)"]
      by (simp add: add.commute)
    moreover have "length (cluster_bytes fs d c) = 32 * ?N" using assms(1) cluster_size_slots [OF assms(1)] by simp
    then have "slot (chain_bytes fs d (c # a # cs)) k = (if k < ?N then slot (cluster_bytes fs d c) k
        else slot (chain_bytes fs d (a # cs)) (k - ?N))" for k
      using slot_append [of "cluster_bytes fs d c" ?N "chain_bytes fs d (a # cs)" k] by simp
    then have "find (?P (chain_bytes fs d (c # a # cs))) [0..<?N] = find (?P (cluster_bytes fs d c)) [0..<?N]"
      "find (\<lambda>k. ?P (chain_bytes fs d (c # a # cs)) (?N + k)) [0..<?N * length (a # cs)]
        = find (?P (chain_bytes fs d (a # cs))) [0..<?N * length (a # cs)]"
      by (auto intro!: find_cong)
    ultimately show ?thesis by (simp add: find_append_eq find_map_eq del: concat.simps list.map split: option.split)
  qed
  have nxt: "fat_entry fs d c < FAT_ENTRY_EOF" "fat_entry fs d c AND 0x0fffffff = a" "fat_chain fs d (a # cs)"
    using Cons.prems(1) by auto
  have "find_in_diretory fs pool d p c = (case find (?P (cluster_bytes fs d c)) [0..<?N] of
      Some i \<Rightarrow> Inr (Some (c, 32 * i)) | None \<Rightarrow> find_in_diretory fs pool d p a)"
    using find_in_diretory_step [OF assms, of c p] Cons.prems(2) nxt(2) linorder_not_le [THEN iffD2, OF nxt(1)]
    by (simp add: find_in_diretory_def split: option.split)
  moreover have "i div ?N = 0" "i mod ?N = i" if "find (?P (cluster_bytes fs d c)) [0..<?N] = Some i" for i
    using that by (auto simp: find_Some_iff)
  moreover have "(?N + k) div ?N = Suc (k div ?N)" "(?N + k) mod ?N = k mod ?N" for k
    using N by (simp_all add: le_div_geq le_mod_geq)
  ultimately show ?case
    unfolding ext using Cons.IH [OF nxt(3)] Cons.prems(2)
    by (auto simp: option.map_comp comp_def split: option.splits)
qed

section \<open>Creating an entry\<close>

lemma long_entries_needed:
  assumes "valid_name cs"
  obtains w where "div_ceil (word_of_nat (length cs)) 13 = Inr w" "long_count cs (unat w)"
proof -
  have l: "length cs < 2 ^ 32" using assms by (simp add: valid_name_def)
  let ?l = "word_of_nat (length cs) :: u32"
  have u: "unat ?l = length cs" using l by (simp add: unsigned_of_nat take_bit_nat_eq_self)
  show thesis
  proof (cases "?l mod 13 = 0")
    case True
    then have "length cs mod 13 = 0" using u by (simp add: word_unat_eq_iff unat_mod)
    then have "long_count cs (length cs div 13)" by (simp add: long_count_def mult.commute) presburger
    then show thesis using True u by (intro that [of "?l div 13"]) (simp_all add: div_ceil_def unat_div)
  next
    case False
    then have m: "length cs mod 13 \<noteq> 0" using u by (simp add: word_unat_eq_iff unat_mod)
    have "unat (?l div 13 + 1) = length cs div 13 + 1"
      using u assms unat_add_lem [of "?l div 13" 1] div_le_dividend [of "length cs" 13]
      by (simp add: unat_div valid_name_def)
    moreover have "long_count cs (length cs div 13 + 1)"
    proof -
      have "length cs mod 13 < 13" "0 < length cs mod 13" using m by simp_all
      moreover have "(length cs div 13 + 1) * 13 = length cs div 13 * 13 + 13" by simp
      ultimately show ?thesis using div_mult_mod_eq [of "length cs" 13]
        unfolding long_count_def by linarith
    qed
    ultimately show thesis using False by (intro that [of "?l div 13 + 1"]) (simp_all add: div_ceil_def)
  qed
qed

lemma write_entry_slots:
  assumes "long_count cs n" "32 * (k + n + 1) \<le> length data"
  obtains data1 data2 where "put_long_entries (mk_str cs) n (32 * k) data = Inr data1"
    "put_bytes (32 * k + n * 32) (bytes_of_raw (raw_for cs ty c)) data1 = Inr data2"
    "length data2 = length data" "entry_at data2 k n cs (raw_for cs ty c)"
    "\<And>j. \<not> (k \<le> j \<and> j \<le> k + n) \<Longrightarrow> slot data2 j = slot data j"
proof -
  have "32 * (k + n) \<le> length data" using assms(2) by simp
  from put_long_entries_ok [OF assms(1) this] obtain b where
    b: "put_long_entries (mk_str cs) n (32 * k) data = Inr b" "length b = length data"
      "\<And>j. slot b j = (if k \<le> j \<and> j < k + n
         then bytes_of_long (long_entry cs n (n - 1 - (j - k))) else slot data j)" by blast
  let ?r = "bytes_of_raw (raw_for cs ty c)" and ?b2 = "blit (32 * (k + n)) (bytes_of_raw (raw_for cs ty c)) b"
  have len: "32 * (k + n) + 32 \<le> length b" using assms(2) b(2) by simp
  have sl: "slot ?b2 j = (if j = k + n then ?r else slot b j)" for j
    using slot_blit [OF len, of ?r j] by simp
  show thesis
  proof
    show "put_bytes (32 * k + n * 32) ?r b = Inr ?b2" using len by (simp add: put_bytes_def algebra_simps)
    show "entry_at ?b2 k n cs (raw_for cs ty c)" using sl b(3) by (simp add: entry_at_def)
    show "slot ?b2 j = slot data j" if "\<not> (k \<le> j \<and> j \<le> k + n)" for j
      using that sl [of j] b(3) [of j] by auto
  qed (use b len in simp_all)
qed

text \<open>What the update of one cluster means for the slots of the chain.\<close>

lemma chain_slots_update:
  assumes "fat_ok fs d" "distinct cs" "k < slots_per_cluster fs * length cs"
    "\<And>c. c \<in> set cs \<Longrightarrow> cluster_bytes fs d' c
       = (if c = cs ! (k div slots_per_cluster fs) then b else cluster_bytes fs d c)"
    "j < slots_per_cluster fs * length cs"
  shows "slot (chain_bytes fs d' cs) j
    = (if j div slots_per_cluster fs = k div slots_per_cluster fs then slot b (j mod slots_per_cluster fs)
       else slot (chain_bytes fs d cs) j)"
proof -
  let ?N = "slots_per_cluster fs"
  have "j div ?N < length cs" "k div ?N < length cs"
    using assms(3,5) by (simp_all add: less_mult_imp_div_less mult.commute)
  then show ?thesis
    using slot_chain [OF assms(1,5), of d'] slot_chain [OF assms(1,5), of d] assms(2,4)
    by (simp add: nth_eq_iff_index_eq)
qed

lemma same_cluster: "0 < N \<Longrightarrow> k mod N + i < N \<Longrightarrow> (k + i) div N = k div N \<and> (k + i) mod N = k mod N + i"
  for k i N :: nat
proof -
  assume a: "0 < N" "k mod N + i < N"
  have eq: "k + i = (k mod N + i) + k div N * N" using div_mult_mod_eq [of k N] by linarith
  have "(k mod N + i + k div N * N) div N = k div N + (k mod N + i) div N"
    by (rule div_mult_self1) (use a in simp)
  moreover have "(k mod N + i + k div N * N) mod N = (k mod N + i) mod N" by (rule mod_mult_self1)
  ultimately show ?thesis using a unfolding eq [symmetric] by simp
qed

lemma fat_chain_nonzero:
  "fat_chain fs d cs \<Longrightarrow> list_all (cluster_ok fs d) cs \<Longrightarrow> c \<in> set cs \<Longrightarrow> fat_entry fs d c \<noteq> 0"
proof (induction fs d cs rule: fat_chain.induct)
  case (3 fs d a a' cs)
  have "fat_entry fs d a \<noteq> 0"
  proof
    assume "fat_entry fs d a = 0"
    then have "a' = 0" using 3(2) by auto
    then show False using 3(3) by (simp add: cluster_ok_def)
  qed
  then show ?case using 3 by auto
qed auto

lemma write_cluster_take:
  "fat_ok fs d \<Longrightarrow> unat (cluster_size fs) \<le> length b \<Longrightarrow>
   write_cluster fs d' c (take (unat (cluster_size fs)) b) = write_cluster fs d' c b"
  unfolding write_cluster_def
  by (rule write_sectors_take) (simp_all add: unat_ucast_spc unat_cluster_size)

lemma ends_at_cong: "slot a i = slot b i \<Longrightarrow> ends_at a i = ends_at b i"
  by (simp add: ends_at_def)

text \<open>A directory: the chain of its clusters, and the buffer that reading it goes through.\<close>

definition directory_at :: "Fat32FS \<Rightarrow> buffer_pool \<Rightarrow> drive \<Rightarrow> u32 list \<Rightarrow> bool" where
  "directory_at fs pool d cs \<longleftrightarrow> fat_ok fs d \<and> fat_chain fs d cs \<and> list_all (cluster_ok fs d) cs
     \<and> bb_room pool (pages_for (length cs * unat (cluster_size fs)))
     \<and> bb_room pool (pages_for (unat (cluster_size fs)))"

lemma directory_buffer:
  assumes "directory_at fs pool d (c # cs)"
  obtains b where "read_whole_buffer fs pool d c = Inr b"
    "bb_size b = 32 * (slots_per_cluster fs * length (c # cs))"
    "\<And>j. j < slots_per_cluster fs * length (c # cs) \<Longrightarrow> slot (bb_data b) j = slot (chain_bytes fs d (c # cs)) j"
proof -
  have f: "fat_ok fs d" using assms by (simp add: directory_at_def)
  obtain b where b: "read_whole_buffer fs pool d c = Inr b"
    "bb_size b = length (c # cs) * unat (cluster_size fs)" "take (bb_size b) (bb_data b) = chain_bytes fs d (c # cs)"
    using read_whole_buffer_ok [of fs d c cs pool] assms by (auto simp: directory_at_def)
  have sz: "bb_size b = 32 * (slots_per_cluster fs * length (c # cs))"
    using b(2) by (simp only: cluster_size_slots [OF f]) (simp add: algebra_simps)
  show thesis
  proof
    fix j assume "j < slots_per_cluster fs * length (c # cs)"
    then have "32 * j + 32 \<le> bb_size b" using sz by linarith
    then show "slot (bb_data b) j = slot (chain_bytes fs d (c # cs)) j"
      using slot_take [of j "bb_size b" "bb_data b"] b(3) by simp
  qed (use b(1) sz in auto)
qed

text \<open>
  Slot \<open>k\<close> of a directory is its first end mark, the slots up to \<open>k + n\<close> are in the same cluster
  and another end mark follows them.
\<close>

definition room_for_entry :: "Fat32FS \<Rightarrow> drive \<Rightarrow> u32 list \<Rightarrow> nat \<Rightarrow> nat \<Rightarrow> bool" where
  "room_for_entry fs d cs k n \<longleftrightarrow> ends_at (chain_bytes fs d cs) k
     \<and> (\<forall>j<k. \<not> ends_at (chain_bytes fs d cs) j)
     \<and> k mod slots_per_cluster fs + n < slots_per_cluster fs
     \<and> k + n + 1 < slots_per_cluster fs * length cs \<and> ends_at (chain_bytes fs d cs) (k + n + 1)"

lemma free_cluster_facts:
  assumes "fat_ok fs d" "find_free_cluster fs d = Inr f" "cluster_ok fs d f"
  shows "fat_entry fs d f = 0" "f \<noteq> 0" "in_fat fs f"
proof -
  have ex: "\<exists>i < unat (FAT_size_in_sectors fs) * 128. is_free fs d i" and
    f: "f = word_of_nat (LEAST i. is_free fs d i)"
    using find_free_cluster_eq [OF assms(1)] assms(2) by (auto split: if_splits)
  show "fat_entry fs d f = 0" unfolding f by (rule LeastI_ex) (use ex in blast)
  show "f \<noteq> 0" "in_fat fs f" using assms(3) by (auto simp: cluster_ok_def)
qed

text \<open>Finding the slot, reading its cluster and writing the entry into the buffer.\<close>

lemma prepare_entry:
  assumes "directory_at fs pool d (c # ds)" "room_for_entry fs d (c # ds) k n" "long_count cs n"
  obtains b data data1 data2 where
    "find_in_diretory fs pool d (\<lambda>e. re_name e ! 0 = 0) c
       = Inr (Some ((c # ds) ! (k div slots_per_cluster fs), 32 * (k mod slots_per_cluster fs)))"
    "new_buffer pool (unat (cluster_size fs)) = Inr b"
    "read_cluster fs d ((c # ds) ! (k div slots_per_cluster fs)) (bb_data b) 0 = Inr data"
    "put_long_entries (mk_str cs) n (32 * (k mod slots_per_cluster fs)) data = Inr data1"
    "put_bytes (32 * (k mod slots_per_cluster fs) + n * 32) (bytes_of_raw (raw_for cs ty f)) data1 = Inr data2"
    "unat (cluster_size fs) \<le> length data2"
    "entry_at data2 (k mod slots_per_cluster fs) n cs (raw_for cs ty f)"
    "\<And>j. j < slots_per_cluster fs \<Longrightarrow>
       \<not> (k mod slots_per_cluster fs \<le> j \<and> j \<le> k mod slots_per_cluster fs + n) \<Longrightarrow>
       slot data2 j = slot (cluster_bytes fs d ((c # ds) ! (k div slots_per_cluster fs))) j"
proof -
  let ?N = "slots_per_cluster fs" and ?z = "unat (cluster_size fs)" and ?cs = "c # ds"
  let ?x = "?cs ! (k div ?N)" and ?q = "k mod ?N"
  have fat: "fat_ok fs d" and chain: "fat_chain fs d ?cs" and okc: "list_all (cluster_ok fs d) ?cs"
    and room: "bb_room pool (pages_for ?z)" using assms(1) by (simp_all add: directory_at_def)
  have N: "?z = 32 * ?N" using cluster_size_slots [OF fat] .
  have k: "k < ?N * length ?cs" "?q + n < ?N" using assms(2) by (simp_all add: room_for_entry_def)
  then have m: "k div ?N < length ?cs" by (simp add: less_mult_imp_div_less mult.commute)
  have x: "cluster_ok fs d ?x" using okc nth_mem [OF m] by (auto simp: list_all_iff simp del: nth_mem)
  have "find (ends_at (chain_bytes fs d ?cs)) [0..<?N * length ?cs] = Some k"
    by (rule find_first) (use k(1) assms(2) in \<open>simp_all add: room_for_entry_def del: concat.simps list.map\<close>)
  then have "find (\<lambda>k. re_name (raw_of_bytes (slot (chain_bytes fs d ?cs) k)) ! 0 = 0) [0..<?N * length ?cs] = Some k"
    unfolding ends_at_def [abs_def] .
  then have found: "find_in_diretory fs pool d (\<lambda>e. re_name e ! 0 = 0) c = Inr (Some (?x, 32 * ?q))"
    using find_in_diretory_ok [OF fat room chain okc, of "\<lambda>e. re_name e ! 0 = 0"] by simp
  obtain b data where b: "new_buffer pool ?z = Inr b" "read_cluster fs d ?x (bb_data b) 0 = Inr data"
    "take ?z data = cluster_bytes fs d ?x" "?z \<le> length data"
    using read_one_cluster [OF fat x room] by metis
  have on: "32 * (?q + n + 1) \<le> length data" using b(4) N k(2) by simp
  obtain data1 data2 where put: "put_long_entries (mk_str cs) n (32 * ?q) data = Inr data1"
    "put_bytes (32 * ?q + n * 32) (bytes_of_raw (raw_for cs ty f)) data1 = Inr data2"
    "length data2 = length data" "entry_at data2 ?q n cs (raw_for cs ty f)"
    "\<And>j. \<not> (?q \<le> j \<and> j \<le> ?q + n) \<Longrightarrow> slot data2 j = slot data j"
    using write_entry_slots [OF assms(3) on, of ty f] by metis
  have "slot data2 j = slot (cluster_bytes fs d ?x) j" if "j < ?N" "\<not> (?q \<le> j \<and> j \<le> ?q + n)" for j
    using put(5) [OF that(2)] slot_take [of j ?z data] b(3) that(1) N by simp
  then show thesis using that found b put by metis
qed

text \<open>What \<^verbatim>\<open>create_entry\<close> leaves on the drive.\<close>

lemma create_entry_effect:
  assumes path: "dirname path = Inr dir" "base_name path = Inr (mk_str cs)" "valid_name cs" "long_count cs n"
    and dir: "find_directory fs pool d dir = Inr (Some res)" "fde_cluster_idx res = c"
      "directory_at fs pool d (c # ds)" "room_for_entry fs d (c # ds) k n"
    and free: "find_free_cluster fs d = Inr f" "cluster_ok fs d f"
  obtains d' data2 where "fat_create_entry fs pool d path ty = Inr (True, d')"
    "fat_ok fs d'" "\<And>j. cluster_ok fs d' j = cluster_ok fs d j"
    "\<And>j. in_fat fs j \<Longrightarrow> fat_entry fs d' j = (if j = f then FAT_ENTRY_EOF else fat_entry fs d j)"
    "\<And>j. cluster_ok fs d j \<Longrightarrow> cluster_bytes fs d' j
       = (if j = f then replicate (unat (cluster_size fs)) 0
          else if j = (c # ds) ! (k div slots_per_cluster fs) then take (unat (cluster_size fs)) data2
          else cluster_bytes fs d j)"
    "entry_at data2 (k mod slots_per_cluster fs) n cs (raw_for cs ty f)"
    "\<And>j. j < slots_per_cluster fs \<Longrightarrow>
       \<not> (k mod slots_per_cluster fs \<le> j \<and> j \<le> k mod slots_per_cluster fs + n) \<Longrightarrow>
       slot data2 j = slot (cluster_bytes fs d ((c # ds) ! (k div slots_per_cluster fs))) j"
proof -
  let ?N = "slots_per_cluster fs" and ?z = "unat (cluster_size fs)" and ?cs = "c # ds"
  let ?x = "?cs ! (k div ?N)" and ?q = "k mod ?N"
  have fat: "fat_ok fs d" and okc: "list_all (cluster_ok fs d) ?cs" using dir(3) by (simp_all add: directory_at_def)
  have N: "?z = 32 * ?N" using cluster_size_slots [OF fat] .
  have k: "k < ?N * length ?cs" "?q + n < ?N" using dir(4) by (simp_all add: room_for_entry_def)
  then have "?x \<in> set ?cs" by (intro nth_mem) (simp add: less_mult_imp_div_less mult.commute)
  then have x: "cluster_ok fs d ?x" using okc by (auto simp: list_all_iff)
  note f = free_cluster_facts [OF fat free]
  obtain b data data1 data2 where p:
    "find_in_diretory fs pool d (\<lambda>e. re_name e ! 0 = 0) c = Inr (Some (?x, 32 * ?q))"
    "new_buffer pool ?z = Inr b" "read_cluster fs d ?x (bb_data b) 0 = Inr data"
    "put_long_entries (mk_str cs) n (32 * ?q) data = Inr data1"
    "put_bytes (32 * ?q + n * 32) (bytes_of_raw (raw_for cs ty f)) data1 = Inr data2"
    "?z \<le> length data2" "entry_at data2 ?q n cs (raw_for cs ty f)"
    "\<And>j. j < ?N \<Longrightarrow> \<not> (?q \<le> j \<and> j \<le> ?q + n) \<Longrightarrow> slot data2 j = slot (cluster_bytes fs d ?x) j"
    using prepare_entry [OF dir(3,4) path(4), of ty f] by blast
  obtain w where w: "div_ceil (word_of_nat (length cs)) 13 = Inr w" "long_count cs (unat w)"
    using long_entries_needed [OF path(3)] .
  then have wn: "unat w = n" using path(4) by (auto simp: long_count_def)
  have left: "\<not> n + 1 > (?z - 32 * ?q) div 4" using N k(2) by simp
  have zb: "bb_size b = ?z" "?z \<le> length (bb_data b)" using new_buffer_Inr [OF p(2)] by auto
  define zs where "zs = replicate ?z (0 :: u8) @ drop ?z (bb_data b)"
  have zs: "memset (bb_data b) 0 (bb_size b) = Inr zs" "take ?z zs = replicate ?z 0" "?z \<le> length zs"
    using zb by (simp_all add: memset_eq zs_def)
  have "length (take ?z data2) = ?z" "length (replicate ?z (0 :: u8)) = ?z" using p(6) by simp_all
  with fat x f(3) free(2) obtain d' where d': "rbind (write_cluster fs d ?x (take ?z data2)) (\<lambda>d.
      rbind (update_FAT fs d f FAT_ENTRY_EOF) (\<lambda>d. write_cluster fs d f (replicate ?z 0))) = Inr d'"
    and ok': "\<And>j. (fat_ok fs d' \<and> cluster_ok fs d' j) = (fat_ok fs d \<and> cluster_ok fs d j)"
    and bytes': "\<And>j. fat_ok fs d \<and> cluster_ok fs d j \<Longrightarrow> cluster_bytes fs d' j
      = (if j = f then replicate ?z 0 else if j = ?x then take ?z data2 else cluster_bytes fs d j)"
    and entry': "\<And>j. fat_ok fs d \<and> in_fat fs j \<Longrightarrow> fat_entry fs d' j = (if j = f then FAT_ENTRY_EOF else fat_entry fs d j)"
    using fat.enter_block [of fs d ?x "take ?z data2" f "replicate ?z 0" FAT_ENTRY_EOF] by blast
  obtain d1 d2 where "write_cluster fs d ?x data2 = Inr d1" "update_FAT fs d1 f FAT_ENTRY_EOF = Inr d2"
    "write_cluster fs d2 f zs = Inr d'"
    using d' write_cluster_take [OF fat p(6)] write_cluster_take [OF fat zs(3)] zs(2) by auto
  then have run: "fat_create_entry fs pool d path ty = Inr (True, d')"
    unfolding fat_create_entry_def
    using path(1,2) dir(1,2) p(1-5) free(1) f(2) w(1) wn left zs(1) raw_entry_for_ok [of cs ty f] zb(1)
    by (simp add: Let_def del: rbind_Inr_iff)
  have fat': "fat_ok fs d'" using ok' [of ?x] fat x by simp
  show thesis
  proof (rule that [OF run fat' _ _ _ p(7,8)])
    show "cluster_ok fs d' j = cluster_ok fs d j" for j using ok' [of j] fat fat' by simp
  qed (use entry' bytes' fat in auto)
qed

text \<open>The slots of the directory afterwards.\<close>

lemma create_entry_slots:
  assumes "fat_ok fs d" "distinct cs" "k mod slots_per_cluster fs + n < slots_per_cluster fs"
    "k + n < slots_per_cluster fs * length cs"
    "\<And>c. c \<in> set cs \<Longrightarrow> cluster_bytes fs d' c
       = (if c = cs ! (k div slots_per_cluster fs) then take (unat (cluster_size fs)) data2 else cluster_bytes fs d c)"
    "\<And>j. j < slots_per_cluster fs \<Longrightarrow>
       \<not> (k mod slots_per_cluster fs \<le> j \<and> j \<le> k mod slots_per_cluster fs + n) \<Longrightarrow>
       slot data2 j = slot (cluster_bytes fs d (cs ! (k div slots_per_cluster fs))) j"
  shows "i \<le> n \<Longrightarrow> slot (chain_bytes fs d' cs) (k + i) = slot data2 (k mod slots_per_cluster fs + i)"
    and "j < slots_per_cluster fs * length cs \<Longrightarrow> \<not> (k \<le> j \<and> j \<le> k + n) \<Longrightarrow>
      slot (chain_bytes fs d' cs) j = slot (chain_bytes fs d cs) j"
proof -
  let ?N = "slots_per_cluster fs" and ?z = "unat (cluster_size fs)"
  have N: "0 < ?N" "?z = 32 * ?N" using fat_okD(2) [OF assms(1)] cluster_size_slots [OF assms(1)] by simp_all
  have k: "k < ?N * length cs" using assms(4) by simp
  have upd: "slot (chain_bytes fs d' cs) j = (if j div ?N = k div ?N then slot data2 (j mod ?N)
      else slot (chain_bytes fs d cs) j)" if "j < ?N * length cs" for j
    using chain_slots_update [OF assms(1,2) k assms(5) that] slot_take [of "j mod ?N" ?z data2]
      mod_less_divisor [OF N(1), of j] N(2) by simp
  show "slot (chain_bytes fs d' cs) (k + i) = slot data2 (k mod ?N + i)" if "i \<le> n"
    using upd [of "k + i"] same_cluster [OF N(1), of k i] assms(3,4) that by simp
  show "slot (chain_bytes fs d' cs) j = slot (chain_bytes fs d cs) j"
    if j: "j < ?N * length cs" "\<not> (k \<le> j \<and> j \<le> k + n)"
  proof (cases "j div ?N = k div ?N")
    case True
    have "k = k div ?N * ?N + k mod ?N" "j = k div ?N * ?N + j mod ?N"
      using True div_mult_mod_eq [of k ?N] div_mult_mod_eq [of j ?N] by (simp_all only:)
    then have "\<not> (k mod ?N \<le> j mod ?N \<and> j mod ?N \<le> k mod ?N + n)" using j(2) by linarith
    then have "slot data2 (j mod ?N) = slot (cluster_bytes fs d (cs ! (k div ?N))) (j mod ?N)"
      using assms(6) mod_less_divisor [OF N(1)] by blast
    then show ?thesis using upd [OF j(1)] slot_chain [OF assms(1) j(1), of d] True by simp
  qed (use upd [OF j(1)] in simp)
qed

text \<open>
  C8: Creating an entry in a directory, for a name of 1 to 819 ASCII characters without a space or a NUL: when
  the directory's end mark is followed by room for the name's long entries and the short one in the same
  cluster, with another end mark behind them in the same chain, there are buffers for reading the directory, and the
  table has a free cluster on the volume, \<^verbatim>\<open>create_entry\<close> succeeds; reading the directory, which could be read before,
  then returns the entries it returned before and the new one, with exactly the given name, its type, size 0 and the free
  cluster. This cluster is a chain of its own, filled with zeroes, and no cluster outside the
  directory changes.
\<close>

theorem create_entry_adds_entry:
  assumes path: "dirname path = Inr dir" "base_name path = Inr (mk_str cs)" "valid_name cs" "long_count cs n"
    and dir: "find_directory fs pool d dir = Inr (Some res)" "fde_cluster_idx res = c"
      "directory_at fs pool d (c # ds)" "room_for_entry fs d (c # ds) k n"
    and free: "find_free_cluster fs d = Inr f" "cluster_ok fs d f"
    and before: "read_directory fs pool d c = Inr entries"
  shows "\<exists>d' entries'. fat_create_entry fs pool d path ty = Inr (True, d')
    \<and> read_directory fs pool d' c = Inr entries' \<and> vec_list entries' = vec_list entries @ [new_entry cs ty f]
    \<and> fat_chain fs d' [f] \<and> cluster_bytes fs d' f = replicate (unat (cluster_size fs)) 0
    \<and> (\<forall>x. cluster_ok fs d x \<longrightarrow> x \<noteq> f \<longrightarrow> x \<notin> set (c # ds) \<longrightarrow> cluster_bytes fs d' x = cluster_bytes fs d x)"
proof -
  let ?N = "slots_per_cluster fs" and ?cs = "c # ds"
  have fat: "fat_ok fs d" and chain: "fat_chain fs d ?cs" and okc: "list_all (cluster_ok fs d) ?cs"
    using dir(3) by (simp_all add: directory_at_def)
  have k: "k + n + 1 < ?N * length ?cs" "k mod ?N + n < ?N" "ends_at (chain_bytes fs d ?cs) k"
    "\<forall>j<k. \<not> ends_at (chain_bytes fs d ?cs) j" "ends_at (chain_bytes fs d ?cs) (k + n + 1)"
    using dir(4) by (simp_all add: room_for_entry_def)
  note f = free_cluster_facts [OF fat free]
  have fcs: "f \<notin> set ?cs" using fat_chain_nonzero [OF chain okc] f(1) by auto
  obtain d' data2 where run: "fat_create_entry fs pool d path ty = Inr (True, d')"
    and e: "fat_ok fs d'" "\<And>j. cluster_ok fs d' j = cluster_ok fs d j"
      "\<And>j. in_fat fs j \<Longrightarrow> fat_entry fs d' j = (if j = f then FAT_ENTRY_EOF else fat_entry fs d j)"
      "\<And>j. cluster_ok fs d j \<Longrightarrow> cluster_bytes fs d' j = (if j = f then replicate (unat (cluster_size fs)) 0
         else if j = ?cs ! (k div ?N) then take (unat (cluster_size fs)) data2 else cluster_bytes fs d j)"
      "entry_at data2 (k mod ?N) n cs (raw_for cs ty f)"
      "\<And>j. j < ?N \<Longrightarrow> \<not> (k mod ?N \<le> j \<and> j \<le> k mod ?N + n) \<Longrightarrow>
         slot data2 j = slot (cluster_bytes fs d (?cs ! (k div ?N))) j"
    using create_entry_effect [OF path dir free, of ty] by blast
  have "cluster_bytes fs d' x = (if x = ?cs ! (k div ?N) then take (unat (cluster_size fs)) data2
      else cluster_bytes fs d x)" if "x \<in> set ?cs" for x
    using e(4) [of x] that okc fcs by (auto simp: list_all_iff)
  note slots = create_entry_slots [OF fat fat_chain_distinct [OF chain] k(2) add_lessD1 [OF k(1)] this e(6)]
  have "fat_chain fs d' ?cs" using e(3) fcs fat_chain_in_fat [OF chain]
    by (intro fat_chain_cong [OF chain]) auto
  then have dir': "directory_at fs pool d' ?cs" using dir(3) e(1,2) by (simp add: directory_at_def list_all_iff)
  obtain b1 where b1: "read_whole_buffer fs pool d c = Inr b1" "bb_size b1 = 32 * (?N * length ?cs)"
    "\<And>j. j < ?N * length ?cs \<Longrightarrow> slot (bb_data b1) j = slot (chain_bytes fs d ?cs) j"
    using directory_buffer [OF dir(3)] by metis
  obtain b2 where b2: "read_whole_buffer fs pool d' c = Inr b2" "bb_size b2 = 32 * (?N * length ?cs)"
    "\<And>j. j < ?N * length ?cs \<Longrightarrow> slot (bb_data b2) j = slot (chain_bytes fs d' ?cs) j"
    using directory_buffer [OF dir'] by metis
  have "\<exists>w'. read_directory_loop (bb_data b2) (bb_size b1) 0 vec_new = Inr w'
      \<and> vec_list w' = vec_list entries @ [new_entry cs ty f]"
  proof (rule read_directory_insert)
    show "read_directory_loop (bb_data b1) (bb_size b1) 0 vec_new = Inr entries"
      using before b1(1) by (simp add: read_directory_def)
    show "ends_at (bb_data b1) k" using k ends_at_cong [OF b1(3) [of k]] by simp
    show "\<not> ends_at (bb_data b1) j" if "j < k" for j
      using k ends_at_cong [OF b1(3) [of j]] that by simp
    show "slot (bb_data b2) j = slot (bb_data b1) j" if "j < k" for j
      using slots(2) [of j] b1(3) b2(3) that k(1) by simp
    show "entry_at (bb_data b2) k n cs (raw_for cs ty f)" using e(5) slots(1) b2(3) k(1) by (simp add: entry_at_def)
    have "slot (bb_data b2) (k + n + 1) = slot (chain_bytes fs d ?cs) (k + n + 1)"
      using slots(2) [of "k + n + 1"] b2(3) k(1) by simp
    from ends_at_cong [OF this] show "ends_at (bb_data b2) (k + n + 1)" using k(5) by simp
    show "32 * (k + n + 1) < bb_size b1" unfolding b1(2) by (rule mult_less_mono2 [OF k(1)]) simp
  qed (fact path)+
  then obtain entries' where "read_directory fs pool d' c = Inr entries'"
    "vec_list entries' = vec_list entries @ [new_entry cs ty f]"
    using b1(2) b2(1,2) by (auto simp: read_directory_def)
  moreover have "fat_chain fs d' [f]" "cluster_bytes fs d' f = replicate (unat (cluster_size fs)) 0"
    using e(3) [of f] e(4) [of f] f(3) free(2) by simp_all
  moreover have "?cs ! (k div ?N) \<in> set ?cs"
    using k(1) by (intro nth_mem) (simp add: less_mult_imp_div_less mult.commute)
  then have "\<forall>x. cluster_ok fs d x \<longrightarrow> x \<noteq> f \<longrightarrow> x \<notin> set ?cs \<longrightarrow> cluster_bytes fs d' x = cluster_bytes fs d x"
    using e(4) by auto
  ultimately show ?thesis using run by blast
qed

section \<open>Writing files\<close>

lemma sectors_bytes_add: "sectors_bytes d s (n + m) = sectors_bytes d s n @ sectors_bytes d (s + n) m"
  by (induction m) (simp_all add: sectors_bytes_Suc add.assoc)

text \<open>Writing the first \<open>n\<close> sectors of a cluster.\<close>

lemma write_part_ok:
  assumes "fat_ok fs d" "cluster_ok fs d c" "0 < n" "unat n \<le> spc fs" "off + unat n * 512 \<le> length data"
  obtains d' where "write_sectors d (cluster_to_sector fs c) n data off = Inr d'" "fat_ok fs d'"
    "\<And>x. cluster_ok fs d' x = cluster_ok fs d x"
    "cluster_bytes fs d' c = chunk off (unat n * 512) data @ drop (unat n * 512) (cluster_bytes fs d c)"
    "\<And>x. cluster_ok fs d x \<Longrightarrow> x \<noteq> c \<Longrightarrow> cluster_bytes fs d' x = cluster_bytes fs d x"
    "\<And>x. in_fat fs x \<Longrightarrow> fat_entry fs d' x = fat_entry fs d x"
proof -
  let ?s = "first_sector fs c"
  have fs: "unat (cluster_to_sector fs c) = ?s" by (rule cluster_to_sector_eq [OF assms(1,2)])
  have so: "sectors_ok d (cluster_to_sector fs c) n"
    using assms(2-4) fat_okD(3) [OF assms(1)]
    by (auto simp: sectors_ok_def cluster_ok_def fs word_le_nat_alt)
  obtain d' where d': "write_sectors d (cluster_to_sector fs c) n data off = Inr d'" "capacity d' = capacity d"
    "\<And>u. sector_bytes d' u = (if ?s \<le> u \<and> u < ?s + unat n
       then chunk (off + (u - ?s) * 512) 512 data else sector_bytes d u)"
    using write_sectors_ok [OF so assms(5)] unfolding fs by metis
  have sp: "spc fs = unat n + (spc fs - unat n)" using assms(4) by simp
  show thesis
  proof
    have "sectors_bytes d' ?s (unat n) = chunk off (unat n * 512) data"
      using write_read_sectors [OF so assms(5) d'(1)] by (simp add: fs)
    moreover have "sectors_bytes d' (?s + unat n) (spc fs - unat n) = sectors_bytes d (?s + unat n) (spc fs - unat n)"
      by (rule sectors_bytes_cong) (simp add: d'(3))
    moreover have "drop (unat n * 512) (cluster_bytes fs d c) = sectors_bytes d (?s + unat n) (spc fs - unat n)"
      unfolding cluster_bytes_def by (subst sp) (simp add: sectors_bytes_add)
    ultimately show "cluster_bytes fs d' c = chunk off (unat n * 512) data @ drop (unat n * 512) (cluster_bytes fs d c)"
      unfolding cluster_bytes_def [of fs d'] by (subst sp) (simp add: sectors_bytes_add)
  next
    fix x assume x: "cluster_ok fs d x" "x \<noteq> c"
    show "cluster_bytes fs d' x = cluster_bytes fs d x"
      unfolding cluster_bytes_def
    proof (rule sectors_bytes_cong)
      fix u assume "first_sector fs x \<le> u" "u < first_sector fs x + spc fs"
      then have "\<not> (?s \<le> u \<and> u < ?s + spc fs)" by (rule cluster_sectors_disjoint [OF x(1) assms(2) x(2)])
      then have "\<not> (?s \<le> u \<and> u < ?s + unat n)" using assms(4) by linarith
      then show "sector_bytes d' u = sector_bytes d u" by (simp only: d'(3) if_False)
    qed
  next
    fix x assume "in_fat fs x"
    then show "fat_entry fs d' x = fat_entry fs d x"
      using fat_before_clusters [OF assms(1), of x c] by (simp add: fat_entry_def d'(3))
  qed (use d'(1) assms(1) fat_ok_capacity [OF d'(2)] cluster_ok_capacity [OF d'(2)] in auto)
qed

lemma in_fat_not_eof: "fat_ok fs d \<Longrightarrow> in_fat fs c \<Longrightarrow> \<not> c \<ge> FAT_ENTRY_EOF"
  using fat_okD(5) [of fs d] by (simp add: in_fat_def word_le_nat_alt)

lemma write_step:
  assumes "fat_ok fs d" "cluster_ok fs d c" "length data = 512 * l" "l < 2 ^ 23" "i * spc fs < l"
  obtains d' where
    "write_clusters_loop fs data (i # is) c d = write_clusters_loop fs data is (fat_entry fs d c AND 0x0fffffff) d'"
    "fat_ok fs d'" "\<And>x. cluster_ok fs d' x = cluster_ok fs d x"
    "cluster_bytes fs d' c = chunk (i * unat (cluster_size fs)) (512 * min (spc fs) (l - i * spc fs)) data
       @ drop (512 * min (spc fs) (l - i * spc fs)) (cluster_bytes fs d c)"
    "\<And>x. cluster_ok fs d x \<Longrightarrow> x \<noteq> c \<Longrightarrow> cluster_bytes fs d' x = cluster_bytes fs d x"
    "\<And>x. in_fat fs x \<Longrightarrow> fat_entry fs d' x = fat_entry fs d x"
proof -
  let ?k = "min (spc fs) (l - i * spc fs)"
  define n where "n = math_min (sectors_per_cluster fs) (word_of_nat (l - i * spc fs))"
  have "unat (word_of_nat (l - i * spc fs) :: u32) = l - i * spc fs"
    using assms(4) by (simp add: unsigned_of_nat take_bit_nat_eq_self)
  then have "unat n = ?k" by (auto simp: n_def math_min_def word_less_nat_alt min_def)
  then have n: "unat (ucast n :: u16) = ?k" "0 < (ucast n :: u16)"
    using fat_okD(2,3) [OF assms(1)] assms(5)
    by (simp_all add: unsigned_ucast_eq take_bit_nat_eq_self word_less_nat_alt)
  have off: "size_sub (length data) (i * spc fs * 512) div 512 = l - i * spc fs"
    using assms(3,5) by (simp add: diff_mult_distrib)
  have z: "i * unat (cluster_size fs) = i * spc fs * 512" by (simp add: unat_cluster_size [OF assms(1)])
  have room: "i * spc fs * 512 + unat (ucast n :: u16) * 512 \<le> length data"
    using n(1) assms(3,5) by (simp add: min_def) linarith
  have cin: "in_fat fs c" using assms(2) by (simp add: cluster_ok_def)
  obtain d' where d': "write_sectors d (cluster_to_sector fs c) (ucast n) data (i * spc fs * 512) = Inr d'"
    "fat_ok fs d'" "\<And>x. cluster_ok fs d' x = cluster_ok fs d x"
    "cluster_bytes fs d' c = chunk (i * spc fs * 512) (?k * 512) data @ drop (?k * 512) (cluster_bytes fs d c)"
    "\<And>x. cluster_ok fs d x \<Longrightarrow> x \<noteq> c \<Longrightarrow> cluster_bytes fs d' x = cluster_bytes fs d x"
    "\<And>x. in_fat fs x \<Longrightarrow> fat_entry fs d' x = fat_entry fs d x"
    using write_part_ok [OF assms(1,2) n(2) _ room] n(1) by auto
  show thesis
  proof
    show "write_clusters_loop fs data (i # is) c d = write_clusters_loop fs data is (fat_entry fs d c AND 0x0fffffff) d'"
      using in_fat_not_eof [OF assms(1) cin] off d'(1) entry_in_fat_ok [OF d'(2) cin] d'(6) [OF cin]
      by (simp add: Let_def n_def)
    show "cluster_bytes fs d' c = chunk (i * unat (cluster_size fs)) (512 * ?k) data
       @ drop (512 * ?k) (cluster_bytes fs d c)" using d'(4) unfolding z by (simp only: mult.commute)
  qed (use d' in simp_all)
qed

lemma drop_chunk: "drop i xs = chunk i n xs @ drop (i + n) xs"
  by (simp add: chunk_def) (metis append_take_drop_id drop_drop add.commute)

text \<open>
  Writing \<open>l\<close> sectors of data into a chain, from cluster number \<open>i\<close> of the \<open>m\<close> it takes on.
\<close>

lemma write_clusters_loop_ok:
  assumes "length data = 512 * l" "l < 2 ^ 23" "(m - 1) * spc fs < l" "l \<le> m * spc fs"
  shows "fat_ok fs d \<Longrightarrow> fat_chain fs d (c # cs) \<Longrightarrow> list_all (cluster_ok fs d) (c # cs) \<Longrightarrow>
    i < m \<Longrightarrow> m \<le> i + length (c # cs) \<Longrightarrow>
    \<exists>d'. write_clusters_loop fs data [i..<m] c d = Inr d' \<and> fat_ok fs d'
      \<and> (\<forall>x. cluster_ok fs d' x = cluster_ok fs d x)
      \<and> (\<forall>x. in_fat fs x \<longrightarrow> fat_entry fs d' x = fat_entry fs d x)
      \<and> (\<forall>x. cluster_ok fs d x \<longrightarrow> x \<notin> set (c # cs) \<longrightarrow> cluster_bytes fs d' x = cluster_bytes fs d x)
      \<and> take (length data - i * unat (cluster_size fs)) (chain_bytes fs d' (c # cs)) = drop (i * unat (cluster_size fs)) data"
proof (induction cs arbitrary: c i d)
  case (Nil c i d)
  have m: "m = Suc i" using Nil.prems(4,5) by simp
  let ?z = "unat (cluster_size fs)" and ?n = "512 * min (spc fs) (l - i * spc fs)"
  have "i * spc fs < l" using assms(3) m by simp
  moreover have "cluster_ok fs d c" using Nil.prems(3) by simp
  ultimately obtain d' where d': "write_clusters_loop fs data [i] c d = Inr d'" "fat_ok fs d'"
    "\<And>x. cluster_ok fs d' x = cluster_ok fs d x"
    "cluster_bytes fs d' c = chunk (i * ?z) ?n data @ drop ?n (cluster_bytes fs d c)"
    "\<And>x. cluster_ok fs d x \<Longrightarrow> x \<noteq> c \<Longrightarrow> cluster_bytes fs d' x = cluster_bytes fs d x"
    "\<And>x. in_fat fs x \<Longrightarrow> fat_entry fs d' x = fat_entry fs d x"
    using write_step [OF Nil.prems(1) _ assms(1,2), of c i "[]"] by (metis write_clusters_loop.simps(1))
  have "?n = length data - i * ?z" using assms(1,4) m by (simp add: unat_cluster_size [OF Nil.prems(1)] diff_mult_distrib2)
  then have "take (length data - i * ?z) (chain_bytes fs d' [c]) = drop (i * ?z) data"
    using d'(4) by (simp add: chunk_def)
  then show ?case using d' m by (intro exI [of _ d']) (simp add: upt_rec)
next
  case (Cons a cs c i d)
  let ?z = "unat (cluster_size fs)" and ?n = "512 * min (spc fs) (l - i * spc fs)"
  have dist: "distinct (c # a # cs)" by (rule fat_chain_distinct [OF Cons.prems(2)])
  have "i * spc fs \<le> (m - 1) * spc fs" using Cons.prems(4) by (intro mult_le_mono1) simp
  then have il: "i * spc fs < l" using assms(3) by (rule le_less_trans)
  have c: "cluster_ok fs d c" "in_fat fs c" using Cons.prems(3) by (simp_all add: cluster_ok_def)
  obtain d1 where d1: "write_clusters_loop fs data (i # [Suc i..<m]) c d
      = write_clusters_loop fs data [Suc i..<m] (fat_entry fs d c AND 0x0fffffff) d1"
    "fat_ok fs d1" "\<And>x. cluster_ok fs d1 x = cluster_ok fs d x"
    "cluster_bytes fs d1 c = chunk (i * ?z) ?n data @ drop ?n (cluster_bytes fs d c)"
    "\<And>x. cluster_ok fs d x \<Longrightarrow> x \<noteq> c \<Longrightarrow> cluster_bytes fs d1 x = cluster_bytes fs d x"
    "\<And>x. in_fat fs x \<Longrightarrow> fat_entry fs d1 x = fat_entry fs d x"
    using write_step [OF Cons.prems(1) c(1) assms(1,2) il] by metis
  have run: "write_clusters_loop fs data [i..<m] c d = write_clusters_loop fs data [Suc i..<m] a d1"
    using d1(1) Cons.prems(2,4) by (simp add: upt_conv_Cons)
  show ?case
  proof (cases "Suc i < m")
    case True
    have a: "fat_chain fs d (a # cs)" using Cons.prems(2) by simp
    have ch: "fat_chain fs d1 (a # cs)" "list_all (cluster_ok fs d1) (a # cs)"
      using fat_chain_cong [OF a, of d1] d1(6) fat_chain_in_fat [OF a] Cons.prems(3) d1(3)
      by (simp_all add: list_all_iff)
    obtain d' where d': "write_clusters_loop fs data [Suc i..<m] a d1 = Inr d'" "fat_ok fs d'"
      "\<And>x. cluster_ok fs d' x = cluster_ok fs d1 x"
      "\<And>x. in_fat fs x \<Longrightarrow> fat_entry fs d' x = fat_entry fs d1 x"
      "\<And>x. cluster_ok fs d1 x \<Longrightarrow> x \<notin> set (a # cs) \<Longrightarrow> cluster_bytes fs d' x = cluster_bytes fs d1 x"
      "take (length data - Suc i * ?z) (chain_bytes fs d' (a # cs)) = drop (Suc i * ?z) data"
      using Cons.IH [OF d1(2) ch True] Cons.prems(5) by auto
    have "Suc i * spc fs \<le> (m - 1) * spc fs" using True by (intro mult_le_mono1) simp
    then have "?n = ?z" "Suc i * ?z < length data"
      using assms(1,3) by (simp_all add: unat_cluster_size [OF Cons.prems(1)] min_def)
    then have cb: "cluster_bytes fs d' c = chunk (i * ?z) ?z data"
      using d'(5) [of c] d1(3,4) c(1) dist Cons.prems(1) by simp
    have len: "length (chunk (i * ?z) ?z data) = ?z" using \<open>Suc i * ?z < _\<close> by simp
    have "take (length data - i * ?z) (chain_bytes fs d' (c # a # cs))
        = chunk (i * ?z) ?z data @ take (length data - Suc i * ?z) (chain_bytes fs d' (a # cs))"
      using cb len \<open>Suc i * ?z < _\<close> by (simp add: ac_simps)
    also have "\<dots> = drop (i * ?z) data" using drop_chunk [of "i * ?z" data ?z] d'(6) by (simp add: add.commute)
    finally show ?thesis using run d' d1 dist by (intro exI [of _ d']) auto
  next
    case False
    then have m: "m = Suc i" using Cons.prems(4) by simp
    have "?n = length data - i * ?z" using assms(1,4) m by (simp add: unat_cluster_size [OF Cons.prems(1)] diff_mult_distrib2)
    then have "take (length data - i * ?z) (chain_bytes fs d1 (c # a # cs)) = drop (i * ?z) data"
      using d1(4) by (simp add: chunk_def)
    then show ?thesis using run d1 m by (intro exI [of _ d1]) auto
  qed
qed

lemma slot_blit_field:
  assumes "32 * q + 32 \<le> length buff" "off + length bs \<le> 32"
  shows "slot (blit (32 * q + off) bs buff) j = (if j = q then blit off bs (slot buff q) else slot buff j)"
proof (rule nth_equalityI)
  show "length (slot (blit (32 * q + off) bs buff) j) = length (if j = q then blit off bs (slot buff q) else slot buff j)"
    using assms by (simp add: slot_def chunk_def min_def)
  fix i assume i: "i < length (slot (blit (32 * q + off) bs buff) j)"
  then have i32: "i < 32" "32 * j + i < length buff" using assms by (auto simp: slot_def chunk_def)
  have "j \<noteq> q \<Longrightarrow> \<not> (32 * q + off \<le> 32 * j + i \<and> 32 * j + i < 32 * q + off + length bs)"
    using i32(1) assms(2) by linarith
  then show "slot (blit (32 * q + off) bs buff) j ! i = (if j = q then blit off bs (slot buff q) else slot buff j) ! i"
    using assms i32 by (auto simp: slot_def chunk_def nth_blit)
qed

lemma raw_of_bytes_size:
  "length s = 32 \<Longrightarrow> raw_of_bytes (blit 28 (le32 w) s) = (raw_of_bytes s)\<lparr>FileSize := w\<rparr>"
proof -
  assume l: "length s = 32"
  have n: "blit 28 (le32 w) s ! i = s ! i" if "i < 28" for i using l that by (simp add: nth_blit)
  have "chunk 0 11 (blit 28 (le32 w) s) = chunk 0 11 s" using l by (intro chunk_blit_before) simp_all
  moreover have "u32_at (blit 28 (le32 w) s) 28 = w" using l by (intro u32_at_eq) simp_all
  moreover have "u16_at (blit 28 (le32 w) s) i = u16_at s i" if "i < 27" for i
    using n [of i] n [of "i + 1"] that by (simp add: u16_at_def)
  ultimately show ?thesis using n [of 11] n [of 12] n [of 13] by (simp add: raw_of_bytes_def)
qed

lemma update_file_size_ok:
  assumes "directory_at fs pool d (p # ps)" "k < slots_per_cluster fs * length (p # ps)"
    "raw_cluster_idx (raw_of_bytes (slot (chain_bytes fs d (p # ps)) k)) = fde_cluster_idx e"
    "\<And>j. j < k \<Longrightarrow> raw_cluster_idx (raw_of_bytes (slot (chain_bytes fs d (p # ps)) j)) \<noteq> fde_cluster_idx e"
  obtains d' where "update_file_size fs pool d p e sz = Inr (True, d')" "fat_ok fs d'"
    "\<And>x. cluster_ok fs d' x = cluster_ok fs d x" "\<And>x. in_fat fs x \<Longrightarrow> fat_entry fs d' x = fat_entry fs d x"
    "\<And>x. cluster_ok fs d x \<Longrightarrow> x \<notin> set (p # ps) \<Longrightarrow> cluster_bytes fs d' x = cluster_bytes fs d x"
    "\<And>j. j < slots_per_cluster fs * length (p # ps) \<Longrightarrow> slot (chain_bytes fs d' (p # ps)) j
       = (if j = k then blit 28 (le32 (word_of_nat sz)) (slot (chain_bytes fs d (p # ps)) k)
          else slot (chain_bytes fs d (p # ps)) j)"
proof -
  let ?N = "slots_per_cluster fs" and ?z = "unat (cluster_size fs)" and ?cs = "p # ps"
  let ?x = "?cs ! (k div ?N)" and ?q = "k mod ?N"
  have fat: "fat_ok fs d" and chain: "fat_chain fs d ?cs" and okc: "list_all (cluster_ok fs d) ?cs"
    and room: "bb_room pool (pages_for ?z)" using assms(1) by (simp_all add: directory_at_def)
  have N: "0 < ?N" "?z = 32 * ?N" using fat_okD(2) [OF fat] cluster_size_slots [OF fat] by simp_all
  have "?x \<in> set ?cs" using assms(2) by (intro nth_mem) (simp add: less_mult_imp_div_less mult.commute)
  then have x: "?x \<in> set ?cs" "cluster_ok fs d ?x" using okc by (auto simp: list_all_iff)
  have q: "?q < ?N" using N(1) by simp
  define P where "P = (\<lambda>r. fde_cluster_idx e = raw_cluster_idx r)"
  have "find (\<lambda>k. P (raw_of_bytes (slot (chain_bytes fs d ?cs) k))) [0..<?N * length ?cs] = Some k"
  proof (rule find_first)
    show "\<not> P (raw_of_bytes (slot (chain_bytes fs d ?cs) j))" if "j < k" for j
      using assms(4) [OF that] unfolding P_def by metis
  qed (use assms(2,3) in \<open>simp_all only: P_def\<close>)
  then have found: "find_in_diretory fs pool d P p = Inr (Some (?x, 32 * ?q))"
    using find_in_diretory_ok [OF fat room chain okc, of P] by simp
  obtain b data where b: "new_buffer pool ?z = Inr b" "read_cluster fs d ?x (bb_data b) 0 = Inr data"
    "take ?z data = cluster_bytes fs d ?x" "?z \<le> length data"
    using read_one_cluster [OF fat x(2) room] by metis
  have qd: "32 * ?q + 32 \<le> length data" "32 * ?q + 32 \<le> ?z" using b(4) N(2) q by auto
  have sl: "slot data j = slot (cluster_bytes fs d ?x) j" if "j < ?N" for j
    using slot_take [of j ?z data] b(3) that N(2) by simp
  let ?w = "le32 (word_of_nat sz)" and ?data' = "blit (32 * ?q + 28) (le32 (word_of_nat sz)) data"
  have len': "?z \<le> length ?data'" using b(4) qd(1) by simp
  obtain d' where d': "write_cluster fs d ?x ?data' = Inr d'" "capacity d' = capacity d"
    "\<And>c'. cluster_ok fs d c' \<Longrightarrow> cluster_bytes fs d' c' = (if c' = ?x then take ?z ?data' else cluster_bytes fs d c')"
    "\<And>c'. in_fat fs c' \<Longrightarrow> fat_entry fs d' c' = fat_entry fs d c'"
    by (rule write_cluster_ok [OF fat x(2) len']) (rule that)
  have upd: "slot (chain_bytes fs d' ?cs) j = (if j div ?N = k div ?N then slot ?data' (j mod ?N)
      else slot (chain_bytes fs d ?cs) j)" if "j < ?N * length ?cs" for j
  proof -
    have "cluster_bytes fs d' c' = (if c' = ?x then take ?z ?data' else cluster_bytes fs d c')" if "c' \<in> set ?cs" for c'
    proof (rule d'(3))
      show "cluster_ok fs d c'" using that okc by (auto simp: list_all_iff)
    qed
    from chain_slots_update [OF fat fat_chain_distinct [OF chain] assms(2) this that]
    show ?thesis using slot_take [of "j mod ?N" ?z ?data'] mod_less_divisor [OF N(1), of j] N(2) by simp
  qed
  have sk: "slot (chain_bytes fs d ?cs) k = slot data ?q"
    using slot_chain [OF fat assms(2), of d] sl [OF q] by simp
  have run: "update_file_size fs pool d p e sz = Inr (True, d')"
    using found b(1,2) d'(1) sk assms(3) qd(1)
    by (simp add: update_file_size_def P_def slot_def put_bytes_def del: rbind_Inr_iff)
  show thesis
  proof (rule that [OF run])
    fix j assume j: "j < ?N * length ?cs"
    have sd: "slot ?data' i = (if i = ?q then blit 28 ?w (slot data ?q) else slot data i)" for i
      using slot_blit_field [OF qd(1), of 28 ?w i] by simp
    show "slot (chain_bytes fs d' ?cs) j = (if j = k then blit 28 ?w (slot (chain_bytes fs d ?cs) k)
        else slot (chain_bytes fs d ?cs) j)"
    proof (cases "j div ?N = k div ?N")
      case True
      have "j = k div ?N * ?N + j mod ?N" using div_mult_mod_eq [of j ?N] True by simp
      moreover have "k = k div ?N * ?N + ?q" using div_mult_mod_eq [of k ?N] by simp
      ultimately have "j = k \<longleftrightarrow> j mod ?N = ?q" by linarith
      moreover have "slot data (j mod ?N) = slot (chain_bytes fs d ?cs) j"
        using sl [OF mod_less_divisor [OF N(1), of j]] slot_chain [OF fat j, of d] True by simp
      ultimately show ?thesis using upd [OF j] sd [of "j mod ?N"] sk True by simp
    qed (use upd [OF j] in auto)
  qed (use d' x(1) fat fat_ok_capacity [OF d'(2)] cluster_ok_capacity [OF d'(2)] in auto)
qed

lemma clusters_needed:
  assumes "fat_ok fs d" "l < 2 ^ 23" "0 < l"
  obtains w where "div_ceil (word_of_nat (512 * l)) (sectors_per_cluster fs * 512) = Inr w"
    "0 < unat w" "(unat w - 1) * spc fs < l" "l \<le> unat w * spc fs"
proof -
  let ?a = "word_of_nat (512 * l) :: u32" and ?s = "sectors_per_cluster fs * 512" and ?k = "spc fs"
  have k: "0 < ?k" using fat_okD(2) [OF assms(1)] .
  have a: "unat ?a = 512 * l" using assms(2) by (simp add: unsigned_of_nat take_bit_nat_eq_self del: of_nat_mult)
  have s: "unat ?s = 512 * ?k" using unat_cluster_size [OF assms(1)] by (simp add: cluster_size_def mult.commute)
  have dv: "unat (?a div ?s) = l div ?k" "unat (?a mod ?s) = 512 * (l mod ?k)"
    using a s mult_mod_right [of 512 l ?k, symmetric] by (simp_all only: unat_div unat_mod div_mult_mult1 if_False)
  have s0: "?s \<noteq> 0" using s k by auto
  have dm: "l div ?k * ?k + l mod ?k = l" by simp
  show thesis
  proof (cases "l mod ?k = 0")
    case True
    then have "?a mod ?s = 0" using dv(2) by (simp add: word_unat_eq_iff)
    then have "div_ceil ?a ?s = Inr (?a div ?s)" using s0 by (simp add: div_ceil_def Let_def del: of_nat_mult)
    moreover have q: "0 < l div ?k" using True dm assms(3) by (cases "l div ?k") auto
    moreover have "(l div ?k - 1) * ?k < l div ?k * ?k" using q k by (intro mult_less_mono1) auto
    then have "(l div ?k - 1) * ?k < l" using dm True by linarith
    ultimately show thesis using that [of "?a div ?s"] dv(1) dm True by simp
  next
    case False
    then have "?a mod ?s \<noteq> 0" using dv(2) by (auto simp: word_unat_eq_iff)
    then have "div_ceil ?a ?s = Inr (?a div ?s + 1)" using s0 by (simp add: div_ceil_def Let_def del: of_nat_mult)
    moreover have "l div ?k < 2 ^ 32 - 1" 
      using le_less_trans [OF div_le_dividend [of l ?k] assms(2)] by simp
    then have "unat (?a div ?s + 1) = l div ?k + 1" using dv(1) unat_add_lem [of "?a div ?s" 1] by simp
    moreover have "l mod ?k < ?k" using k by simp
    ultimately show thesis using that [of "?a div ?s + 1"] dm False by simp
  qed
qed

lemma length_chain_slot:
  assumes "fat_ok fs d" "j < slots_per_cluster fs * length cs"
  shows "length (slot (chain_bytes fs d cs) j) = 32"
proof -
  have "32 * j + 32 \<le> length (chain_bytes fs d cs)"
    using assms(2) unfolding length_chain_bytes [OF assms(1)] cluster_size_slots [OF assms(1)] by linarith
  then show ?thesis unfolding slot_def by (rule length_chunk)
qed

lemma write_to_existing_ok:
  assumes chain: "fde_cluster_idx e = c" "fat_chain fs d (c # cs)" "list_all (cluster_ok fs d) (c # cs)"
    and fits: "length data = 512 * l" "0 < l" "length data \<le> length (c # cs) * unat (cluster_size fs)"
    and dir: "directory_at fs pool d (p # ps)" "set (p # ps) \<inter> set (c # cs) = {}"
      "k < slots_per_cluster fs * length (p # ps)"
      "raw_cluster_idx (raw_of_bytes (slot (chain_bytes fs d (p # ps)) k)) = c"
      "\<And>j. j < k \<Longrightarrow> raw_cluster_idx (raw_of_bytes (slot (chain_bytes fs d (p # ps)) j)) \<noteq> c"
  shows "\<exists>d'. write_to_existing_file fs pool d e data p = Inr (0, d') \<and> fat_ok fs d' \<and> fat_chain fs d' (c # cs)
    \<and> directory_at fs pool d' (p # ps) \<and> (\<forall>x. cluster_ok fs d' x = cluster_ok fs d x)
    \<and> take (length data) (chain_bytes fs d' (c # cs)) = data
    \<and> (\<forall>j < slots_per_cluster fs * length (p # ps). slot (chain_bytes fs d' (p # ps)) j
         = (if j = k then blit 28 (le32 (word_of_nat (length data))) (slot (chain_bytes fs d (p # ps)) k)
            else slot (chain_bytes fs d (p # ps)) j))
    \<and> (\<forall>x. cluster_ok fs d x \<longrightarrow> x \<notin> set (c # cs) \<union> set (p # ps) \<longrightarrow> cluster_bytes fs d' x = cluster_bytes fs d x)"
proof -
  let ?N = "slots_per_cluster fs" and ?z = "unat (cluster_size fs)"
  have fat: "fat_ok fs d" and pch: "fat_chain fs d (p # ps)" and pok: "list_all (cluster_ok fs d) (p # ps)"
    using dir(1) by (simp_all add: directory_at_def)
  have "length data < 2 ^ 32"
    using chain_size_bound [OF fat fat_chain_distinct [OF chain(2)] chain(3)] fits(3) by linarith
  then have l: "l < 2 ^ 23" using fits(1) by simp
  obtain w where w: "div_ceil (word_of_nat (512 * l)) (sectors_per_cluster fs * 512) = Inr w"
    "0 < unat w" "(unat w - 1) * spc fs < l" "l \<le> unat w * spc fs"
    using clusters_needed [OF fat l fits(2)] .
  have "512 * l \<le> length (c # cs) * (512 * spc fs)" using fits(1,3) unat_cluster_size [OF fat] by simp
  then have "l \<le> length (c # cs) * spc fs" by simp
  then have "(unat w - 1) * spc fs < length (c # cs) * spc fs" using w(3) by linarith
  then have "unat w - 1 < length (c # cs)" by (rule mult_less_cancel2 [THEN iffD1, THEN conjunct2])
  then have wl: "unat w \<le> 0 + length (c # cs)" by simp
  obtain d1 where d1: "write_clusters_loop fs data [0..<unat w] c d = Inr d1" "fat_ok fs d1"
    "\<And>x. cluster_ok fs d1 x = cluster_ok fs d x"
    "\<And>x. in_fat fs x \<Longrightarrow> fat_entry fs d1 x = fat_entry fs d x"
    "\<And>x. cluster_ok fs d x \<Longrightarrow> x \<notin> set (c # cs) \<Longrightarrow> cluster_bytes fs d1 x = cluster_bytes fs d x"
    "take (length data) (chain_bytes fs d1 (c # cs)) = data"
    using write_clusters_loop_ok [OF fits(1) l w(3,4) fat chain(2,3) w(2) wl] by auto
  have "fat_chain fs d1 (p # ps)"
    using d1(4) fat_chain_in_fat [OF pch] by (intro fat_chain_cong [OF pch]) auto
  then have dir1: "directory_at fs pool d1 (p # ps)"
    using dir(1) d1(2,3) by (simp add: directory_at_def list_all_iff)
  have "cluster_bytes fs d1 x = cluster_bytes fs d x" if "x \<in> set (p # ps)" for x
    using d1(5) [of x] that pok dir(2) by (auto simp: list_all_iff)
  then have same: "chain_bytes fs d1 (p # ps) = chain_bytes fs d (p # ps)"
    by (intro arg_cong [where f = concat] map_cong) simp_all
  obtain d2 where d2: "update_file_size fs pool d1 p e (length data) = Inr (True, d2)" "fat_ok fs d2"
    "\<And>x. cluster_ok fs d2 x = cluster_ok fs d1 x" "\<And>x. in_fat fs x \<Longrightarrow> fat_entry fs d2 x = fat_entry fs d1 x"
    "\<And>x. cluster_ok fs d1 x \<Longrightarrow> x \<notin> set (p # ps) \<Longrightarrow> cluster_bytes fs d2 x = cluster_bytes fs d1 x"
    "\<And>j. j < ?N * length (p # ps) \<Longrightarrow> slot (chain_bytes fs d2 (p # ps)) j
       = (if j = k then blit 28 (le32 (word_of_nat (length data))) (slot (chain_bytes fs d1 (p # ps)) k)
          else slot (chain_bytes fs d1 (p # ps)) j)"
  proof (rule update_file_size_ok [OF dir1 dir(3), of e "length data"])
    show "raw_cluster_idx (raw_of_bytes (slot (chain_bytes fs d1 (p # ps)) k)) = fde_cluster_idx e"
      unfolding same chain(1) by (rule dir(4))
    show "raw_cluster_idx (raw_of_bytes (slot (chain_bytes fs d1 (p # ps)) j)) \<noteq> fde_cluster_idx e" if "j < k" for j
      unfolding same chain(1) by (rule dir(5) [OF that])
  qed (rule that)
  have run: "write_to_existing_file fs pool d e data p = Inr (0, d2)"
    using chain(1) fits(1) w(1) d1(1) d2(1)
    by (simp add: write_to_existing_file_def del: rbind_Inr_iff of_nat_mult)
  have cok: "cluster_ok fs d x" if "x \<in> set (c # cs)" for x using chain(3) that by (auto simp: list_all_iff)
  have "fat_chain fs d2 (c # cs)"
    using d1(4) d2(4) fat_chain_in_fat [OF chain(2)] by (intro fat_chain_cong [OF chain(2)]) auto
  moreover have "cluster_bytes fs d2 x = cluster_bytes fs d1 x" if "x \<in> set (c # cs)" for x
    using d2(5) [of x] d1(3) cok [OF that] that dir(2) by auto
  then have "chain_bytes fs d2 (c # cs) = chain_bytes fs d1 (c # cs)"
    by (intro arg_cong [where f = concat] map_cong) simp_all
  moreover have "fat_chain fs d2 (p # ps)"
    using d1(4) d2(4) fat_chain_in_fat [OF pch] by (intro fat_chain_cong [OF pch]) auto
  then have "directory_at fs pool d2 (p # ps)"
    using dir(1) d1(3) d2(2,3) by (simp add: directory_at_def list_all_iff)
  moreover have "cluster_ok fs d2 x = cluster_ok fs d x" for x using d1(3) d2(3) by simp
  moreover have "cluster_bytes fs d2 x = cluster_bytes fs d x"
    if "cluster_ok fs d x" "x \<notin> set (c # cs) \<union> set (p # ps)" for x
    using d1(5) [OF that(1)] d2(5) [of x] d1(3) that by auto
  ultimately show ?thesis using run d1(6) d2(2,6) same by (intro exI [of _ d2]) simp
qed

text \<open>
  C9: Writing a file: when the data is a positive number of sectors that fits in the chain of an
  existing file, and the file's entry is the first of its directory with this cluster, the
  write succeeds. The chain is the same, its content starts with the data, the entry in the
  directory has the new size and is otherwise unchanged like all other slots of the directory,
  and no other cluster changes.
\<close>

theorem write_file_contents:
  assumes found: "find_file fs pool d path = Inr (Some e)" "parent_dir_cluster fs pool d path = Inr p"
    and chain: "fde_cluster_idx e = c" "fat_chain fs d (c # cs)" "list_all (cluster_ok fs d) (c # cs)"
    and fits: "length data = 512 * l" "0 < l" "length data \<le> length (c # cs) * unat (cluster_size fs)"
    and dir: "directory_at fs pool d (p # ps)" "set (p # ps) \<inter> set (c # cs) = {}"
      "k < slots_per_cluster fs * length (p # ps)"
      "raw_cluster_idx (raw_of_bytes (slot (chain_bytes fs d (p # ps)) k)) = c"
      "\<And>j. j < k \<Longrightarrow> raw_cluster_idx (raw_of_bytes (slot (chain_bytes fs d (p # ps)) j)) \<noteq> c"
  shows "\<exists>d'. fat_write_file fs pool d path data = Inr (0, d') \<and> fat_chain fs d' (c # cs)
    \<and> take (length data) (chain_bytes fs d' (c # cs)) = data
    \<and> (\<forall>j < slots_per_cluster fs * length (p # ps).
         raw_of_bytes (slot (chain_bytes fs d' (p # ps)) j)
           = (let r = raw_of_bytes (slot (chain_bytes fs d (p # ps)) j)
              in if j = k then r\<lparr>FileSize := word_of_nat (length data)\<rparr> else r))
    \<and> (\<forall>x. cluster_ok fs d x \<longrightarrow> x \<notin> set (c # cs) \<union> set (p # ps) \<longrightarrow> cluster_bytes fs d' x = cluster_bytes fs d x)"
proof -
  have fat: "fat_ok fs d" using dir(1) by (simp add: directory_at_def)
  obtain d' where d': "write_to_existing_file fs pool d e data p = Inr (0, d')" "fat_chain fs d' (c # cs)"
    "take (length data) (chain_bytes fs d' (c # cs)) = data"
    "\<forall>j < slots_per_cluster fs * length (p # ps). slot (chain_bytes fs d' (p # ps)) j
         = (if j = k then blit 28 (le32 (word_of_nat (length data))) (slot (chain_bytes fs d (p # ps)) k)
            else slot (chain_bytes fs d (p # ps)) j)"
    "\<forall>x. cluster_ok fs d x \<longrightarrow> x \<notin> set (c # cs) \<union> set (p # ps) \<longrightarrow> cluster_bytes fs d' x = cluster_bytes fs d x"
    using write_to_existing_ok [OF chain fits dir] by blast
  have "raw_of_bytes (slot (chain_bytes fs d' (p # ps)) j)
      = (let r = raw_of_bytes (slot (chain_bytes fs d (p # ps)) j)
         in if j = k then r\<lparr>FileSize := word_of_nat (length data)\<rparr> else r)"
    if "j < slots_per_cluster fs * length (p # ps)" for j
    using length_chain_slot [OF fat that] unfolding d'(4) [rule_format, OF that] Let_def
    by (cases "j = k") (simp_all add: raw_of_bytes_size)
  moreover have "fat_write_file fs pool d path data = Inr (0, d')"
    using found d'(1) by (simp add: fat_write_file_def)
  ultimately show ?thesis using d'(2,3,5) by (intro exI [of _ d']) simp
qed

section \<open>Two small volumes\<close>

text \<open>
  The geometry of \<open>small_fs\<close> again: clusters 2 to \<open>n - 1\<close> are chains of one cluster, the rest is
  free, and all sectors but the table are zero. In \<open>one_file_drive\<close> the root directory holds the
  file \<^verbatim>\<open>a\<close>, in cluster 3.
\<close>

definition tiny_table :: "nat \<Rightarrow> nat \<Rightarrow> u16" where
  "tiny_table n i = (if i < 4 then 0xFFFF else if i < 2 * n then (if even i then 0xFFF8 else 0x0FFF) else 0)"

definition tiny_drive :: "nat \<Rightarrow> drive" where
  "tiny_drive n = \<lparr>capacity = 10, sector_words = (\<lambda>s i. if s = 1 then tiny_table n i else 0), write_cache = []\<rparr>"

definition one_file_drive :: drive where
  "one_file_drive = put_sector (tiny_drive 4) 3
     (bytes_of_long (long_entry ''a'' 1 0) @ bytes_of_raw (raw_for ''a'' Type_File 3) @ replicate 448 0)"

definition roomy_pool :: buffer_pool where
  "roomy_pool = \<lparr>bb_room = \<lambda>_. True, bb_ram = \<lambda>_. 0\<rparr>"

definition path_a :: path where
  "path_a = \<lparr>m_parts = \<lparr>m_data = [Some (mk_str ''a'')], m_capacity = 1, m_size = 1\<rparr>, m_type = Absolute\<rparr>"

lemma roomy: "bb_room roomy_pool n"
  by (simp add: roomy_pool_def)

lemma small_cluster_bytes: "2 \<le> unat c \<Longrightarrow> cluster_bytes small_fs d c = sector_bytes d (unat c + 1)"
  by (simp add: cluster_bytes_def first_sector_def small_fs_def sectors_bytes_def upt_rec)

lemma tiny_ok:
  assumes "capacity d = 10"
  shows "fat_ok small_fs d" "cluster_ok small_fs d c \<longleftrightarrow> 2 \<le> unat c \<and> unat c \<le> 8"
  using assms by (auto simp: fat_ok_def cluster_ok_def in_fat_def first_sector_def small_fs_def cluster_size_def)

lemma tiny_zero: "s \<noteq> 1 \<Longrightarrow> sector_bytes (tiny_drive n) s = replicate 512 0"
  by (rule replicate_eqI [OF length_sector_bytes])
    (auto simp: sector_bytes_def tiny_drive_def bytes_of_word_eq le16_def)

lemma tiny_entry:
  "sector_words d 1 = tiny_table n \<Longrightarrow> unat c < 128 \<Longrightarrow> fat_entry small_fs d c
     = ucast (tiny_table n (2 * unat c)) OR push_bit 16 (ucast (tiny_table n (2 * unat c + 1)))"
  by (simp add: fat_entry_def u32_at_sector small_fs_def)

lemma tiny_chain:
  assumes "sector_words d 1 = tiny_table n" "2 \<le> unat c" "unat c < n" "n \<le> 128"
  shows "fat_chain small_fs d [c]"
  using assms tiny_entry [OF assms(1), of c] by (simp add: tiny_table_def in_fat_def) (simp add: small_fs_def)

lemma tiny_words: "sector_words (tiny_drive n) 1 = tiny_table n" "sector_words one_file_drive 1 = tiny_table 4"
  "capacity (tiny_drive n) = 10" "capacity one_file_drive = 10"
  by (simp_all add: tiny_drive_def one_file_drive_def put_sector_def)

lemma tiny_directory:
  assumes "sector_words d 1 = tiny_table n" "2 < n" "n \<le> 128" "capacity d = 10"
  shows "directory_at small_fs roomy_pool d [2]"
  using tiny_chain [OF assms(1), of 2] tiny_ok [OF assms(4)] assms(2,3)
  by (simp add: directory_at_def roomy_pool_def)

lemma spc_small: "spc small_fs = 1"
  by (simp add: small_fs_def)

lemma slot_zeroes: "j < 16 \<Longrightarrow> slot (replicate 512 0) j = replicate 32 0"
  by (simp add: slot_def chunk_def min_def)

lemma ends_at_zeroes: "j < 16 \<Longrightarrow> ends_at (replicate 512 0) j"
  by (simp add: ends_at_def slot_zeroes raw_first_byte)

lemma read_zeroes: "read_directory_loop (replicate 512 0) 512 0 vec_new = Inr vec_new"
  using ends_at_zeroes [of 0] by (subst read_directory_step) simp

lemma path_a_parts: "num_parts path_a = 1" "get_part path_a 0 = Inr (mk_str ''a'')" "base_name path_a = Inr (mk_str ''a'')"
  by (simp_all add: path_a_def num_parts_def get_part_def vec_access_def base_name_def)

lemma path_root: "dirname path_a = Inr \<lparr>m_parts = vec_new, m_type = Absolute\<rparr>"
  by (simp add: dirname_def path_a_parts Path_of_string_def parts_from_string_def type_from_string_def
      str_index_ok parts_loop.simps)

theorem create_entry_adds_entry_witness:
  "\<exists>d' es. fat_create_entry small_fs roomy_pool (tiny_drive 3) path_a Type_File = Inr (True, d')
     \<and> read_directory small_fs roomy_pool d' 2 = Inr es \<and> vec_list es = [new_entry ''a'' Type_File 3]"
proof -
  let ?d = "tiny_drive 3"
  have dir: "directory_at small_fs roomy_pool ?d [2]" using tiny_directory [OF tiny_words(1), of 3] by (simp add: tiny_words)
  have zero: "chain_bytes small_fs ?d [2] = replicate 512 0" by (simp add: small_cluster_bytes tiny_zero)
  have name: "valid_name ''a''" "long_count ''a'' 1" by (simp_all add: valid_name_def long_count_def)
  have root: "find_directory small_fs roomy_pool ?d \<lparr>m_parts = vec_new, m_type = Absolute\<rparr>
      = Inr (Some \<lparr>fde_name = mk_str ''/'', fde_type = Type_Directory, fde_size = 0, fde_cluster_idx = 2\<rparr>)"
    by (simp add: find_directory_def fat_find_def num_parts_def vec_new_def small_fs_def)
  have room: "room_for_entry small_fs ?d [2] 0 1"
    unfolding room_for_entry_def zero spc_small using ends_at_zeroes by simp
  have e: "is_free small_fs ?d n \<longleftrightarrow> tiny_table 3 (2 * n) = 0 \<and> tiny_table 3 (2 * n + 1) = 0" if "n < 128" for n
    using that tiny_entry [OF tiny_words(1), of "word_of_nat n"]
    by (simp add: unsigned_of_nat take_bit_nat_eq_self or_eq_0_iff push_bit_eq_0_iff) (simp add: tiny_table_def)
  have "is_free small_fs ?d 3" using e [of 3] by (simp add: tiny_table_def)
  moreover have "\<not> is_free small_fs ?d n" if "n < 3" for n
    using e [of n] that by (auto simp: tiny_table_def)
  ultimately have least: "(LEAST n. is_free small_fs ?d n) = 3"
    by (intro Least_equality) (auto simp: not_le intro: leI)
  have "\<exists>n < unat (FAT_size_in_sectors small_fs) * 128. is_free small_fs ?d n"
    using \<open>is_free small_fs ?d 3\<close> by (intro exI [of _ 3]) (simp add: small_fs_def)
  then have free: "find_free_cluster small_fs ?d = Inr 3" "cluster_ok small_fs ?d 3"
    using find_free_cluster_eq [OF tiny_ok(1) [OF tiny_words(3)]] least tiny_ok(2) [OF tiny_words(3)] by simp_all
  have "read_directory small_fs roomy_pool ?d 2 = Inr vec_new"
  proof -
    obtain b where b: "read_whole_buffer small_fs roomy_pool ?d 2 = Inr b"
      "bb_size b = 512" "take 512 (bb_data b) = replicate 512 0"
      using read_whole_buffer_ok [of small_fs ?d 2 "[]" roomy_pool] dir zero
      by (auto simp: directory_at_def cluster_size_def small_fs_def)
    have "ends_at (bb_data b) 0"
      using ends_at_cong [of "replicate 512 0" 0 "bb_data b"] slot_take [of 0 512 "bb_data b"] b(3) ends_at_zeroes [of 0]
      by simp
    then show ?thesis using b(1,2) by (simp add: read_directory_def) (subst read_directory_step, simp)
  qed
  from create_entry_adds_entry [OF path_root path_a_parts(3) name root _ dir room free this, of Type_File]
  show ?thesis by (auto simp: vec_new_def)
qed

text \<open>The directory of \<open>one_file_drive\<close>.\<close>

abbreviation one_file_bytes :: "u8 list" where
  "one_file_bytes \<equiv> bytes_of_long (long_entry ''a'' 1 0) @ bytes_of_raw (raw_for ''a'' Type_File 3) @ replicate 448 0"

lemma one_file_slots:
  "slot one_file_bytes 0 = bytes_of_long (long_entry ''a'' 1 0)"
  "slot one_file_bytes 1 = bytes_of_raw (raw_for ''a'' Type_File 3)"
  "2 \<le> j \<Longrightarrow> j < 16 \<Longrightarrow> slot one_file_bytes j = replicate 32 0"
  by (auto simp: slot_def chunk_def min_def)

lemma one_file_root: "cluster_bytes small_fs one_file_drive 2 = one_file_bytes"
  by (simp add: small_cluster_bytes one_file_drive_def)

lemma one_file_read:
  "\<exists>es. read_directory small_fs roomy_pool one_file_drive 2 = Inr es \<and> vec_list es = [new_entry ''a'' Type_File 3]"
proof -
  have dir: "directory_at small_fs roomy_pool one_file_drive [2]"
    using tiny_directory [OF tiny_words(2)] by (simp add: tiny_words)
  obtain b where b: "read_whole_buffer small_fs roomy_pool one_file_drive 2 = Inr b" "bb_size b = 32 * 16"
    "\<And>j. j < 16 \<Longrightarrow> slot (bb_data b) j = slot one_file_bytes j"
    using directory_buffer [OF dir] by (auto simp: spc_small one_file_root)
  have "\<exists>w'. read_directory_loop (bb_data b) 512 0 vec_new = Inr w'
      \<and> vec_list w' = vec_list (vec_new :: FatDirectoryEntry vec) @ [new_entry ''a'' Type_File 3]"
  proof (rule read_directory_insert [OF read_zeroes, of 0])
    show "entry_at (bb_data b) 0 1 ''a'' (raw_for ''a'' Type_File 3)"
      using b(3) one_file_slots by (simp add: entry_at_def)
    show "ends_at (bb_data b) (0 + 1 + 1)"
      using ends_at_cong [of "bb_data b" 2 "replicate 512 0"] b(3) [of 2] one_file_slots(3) [of 2] slot_zeroes [of 2]
        ends_at_zeroes [of 2] by (simp add: numeral_2_eq_2)
  qed (use ends_at_zeroes [of 0] in \<open>simp_all add: valid_name_def long_count_def\<close>)
  then show ?thesis using b(1,2) by (auto simp: read_directory_def vec_new_def)
qed

lemma one_file_found: "find_file small_fs roomy_pool one_file_drive path_a = Inr (Some (new_entry ''a'' Type_File 3))"
proof -
  obtain es where es: "read_directory small_fs roomy_pool one_file_drive 2 = Inr es"
    "vec_list es = [new_entry ''a'' Type_File 3]"
    using one_file_read by blast
  have "root_cluster small_fs = 2" by (simp add: small_fs_def)
  then show ?thesis using es str_eq_ok [of "''a''" "''a''"] path_a_parts(1,2)
    by (simp add: find_file_def fat_find_def new_entry_def del: rbind_Inr_iff)
qed

lemma one_file_chain: "fat_chain small_fs one_file_drive [3]" "list_all (cluster_ok small_fs one_file_drive) [3]"
  and one_file_directory: "directory_at small_fs roomy_pool one_file_drive [2]"
  and small_size: "unat (cluster_size small_fs) = 512"
  using tiny_chain [OF tiny_words(2), of 3] tiny_directory [OF tiny_words(2)]
  by (simp_all add: tiny_ok(2) [OF tiny_words(4)] tiny_words) (simp add: cluster_size_def small_fs_def)

lemma one_file_clusters:
  assumes "j < 16"
  shows "raw_cluster_idx (raw_of_bytes (slot (chain_bytes small_fs one_file_drive [2]) j)) = 3 \<longleftrightarrow> j = 1"
proof -
  consider "j = 0" | "j = 1" | "2 \<le> j" by linarith
  then show ?thesis
  proof cases
    case 1
    have "raw_cluster_idx (raw_of_bytes (bytes_of_long (long_entry ''a'' 1 0))) \<noteq> 3" by code_simp
    then show ?thesis using 1 one_file_slots(1) by (simp add: one_file_root)
  next
    case 2
    then show ?thesis using one_file_slots(2) raw_of_bytes_of_raw [of "raw_for ''a'' Type_File 3"]
      by (simp add: one_file_root)
  next
    case 3
    have "raw_cluster_idx (raw_of_bytes (replicate 32 0)) = 0" by code_simp
    then show ?thesis using 3 assms one_file_slots(3) by (simp add: one_file_root)
  qed
qed

theorem write_file_contents_witness:
  "\<exists>d'. fat_write_file small_fs roomy_pool one_file_drive path_a (replicate 512 7) = Inr (0, d')
     \<and> sector_bytes d' 4 = replicate 512 7
     \<and> FileSize (raw_of_bytes (slot (sector_bytes d' 3) 1)) = 512"
proof -
  let ?d = one_file_drive
  have parent: "parent_dir_cluster small_fs roomy_pool ?d path_a = Inr 2"
    by (simp add: parent_dir_cluster_def path_a_parts) (simp add: small_fs_def)
  obtain d' where d': "fat_write_file small_fs roomy_pool ?d path_a (replicate 512 7) = Inr (0, d')"
    "take 512 (chain_bytes small_fs d' [3]) = replicate 512 7"
    "FileSize (raw_of_bytes (slot (chain_bytes small_fs d' [2]) 1)) = 512"
    using write_file_contents [OF one_file_found parent _ one_file_chain _ _ _ one_file_directory _ _
        one_file_clusters [of 1, THEN iffD2], of "replicate 512 7" 1] one_file_clusters
    by (auto simp: new_entry_def small_size spc_small)
  moreover have "cluster_bytes small_fs d' 3 = sector_bytes d' 4" "cluster_bytes small_fs d' 2 = sector_bytes d' 3"
    by (simp_all add: small_cluster_bytes)
  ultimately show ?thesis by simp
qed

end
