(* ===== verification/Char_File.thy ===== *)
theory Char_File
  imports Fat32_Files
begin

text \<open>
  An open file of the FAT32 file system: \<^verbatim>\<open>kernel/FileSystem/CharFile.cpp\<close>, the part of
  \<^verbatim>\<open>Fat32FS.cpp\<close> it calls, and \<^verbatim>\<open>FileUtils.cpp\<close>. The file keeps its position, its size as of the
  time it was opened, and a cache of its contents, which is filled by the first read.
\<close>

section \<open>State\<close>

record CharDirectoryEntry = DirectoryEntry +
  m_file_size :: u32
  m_cluster_idx :: u32

text \<open>
  The member \<^verbatim>\<open>m_content_cache\<close> is a shared pointer to the buffer that nothing else refers to.
  \<^verbatim>\<open>shared_ptr::reset\<close> deletes the counter and the buffer but keeps both pointers, which is the
  case \<open>Dangling\<close>.
\<close>

datatype content_cache = NoCache | Cached "u8 list" | Dangling

record CharFile =
  m_dir_entry :: CharDirectoryEntry
  m_file_len :: nat
  m_file_idx :: nat
  m_content_cache :: content_cache

text \<open>An unsigned number returned as an \<^verbatim>\<open>int\<close>.\<close>

definition as_int :: "nat \<Rightarrow> int" where
  "as_int n = sint (word_of_nat n :: u32)"

abbreviation E_TOO_BIG :: int where "E_TOO_BIG \<equiv> 3"
abbreviation SEEK_SET :: int where "SEEK_SET \<equiv> 0"
abbreviation SEEK_CUR :: int where "SEEK_CUR \<equiv> 1"
abbreviation SEEK_END :: int where "SEEK_END \<equiv> 2"

section \<open>The file system below\<close>

definition to_char_directory_entry :: "FatDirectoryEntry \<Rightarrow> path \<Rightarrow> CharDirectoryEntry" where
  "to_char_directory_entry e path =
     \<lparr>de_path = path, de_type = fde_type e, m_file_size = word_of_nat (fde_size e),
      m_cluster_idx = fde_cluster_idx e\<rparr>"

definition FatDirectoryEntry_of_char :: "CharDirectoryEntry \<Rightarrow> FatDirectoryEntry result" where
  "FatDirectoryEntry_of_char cde =
     rbind (base_name (de_path cde)) (\<lambda>name.
       Inr \<lparr>fde_name = name, fde_type = de_type cde, fde_size = unat (m_file_size cde),
            fde_cluster_idx = m_cluster_idx cde\<rparr>)"

definition CharFile_new :: "CharDirectoryEntry \<Rightarrow> nat \<Rightarrow> CharFile" where
  "CharFile_new dir_entry sz =
     \<lparr>m_dir_entry = dir_entry, m_file_len = sz, m_file_idx = 0, m_content_cache = NoCache\<rparr>"

definition Fat32FS_open :: "Fat32FS \<Rightarrow> buffer_pool \<Rightarrow> drive \<Rightarrow> path \<Rightarrow> CharFile option result" where
  "Fat32FS_open fs pool d path =
     rbind (find_file fs pool d path) (\<lambda>found.
       case found of
         None \<Rightarrow> Inr None
       | Some res \<Rightarrow> Inr (Some (CharFile_new (to_char_directory_entry res path) (fde_size res))))"

definition char_read_file :: "Fat32FS \<Rightarrow> drive \<Rightarrow> CharDirectoryEntry \<Rightarrow> u8 list \<Rightarrow> u8 list result" where
  "char_read_file fs d entry data = read_whole_entry fs d (m_cluster_idx entry) data"

definition char_write_file :: "Fat32FS \<Rightarrow> buffer_pool \<Rightarrow> drive \<Rightarrow> CharDirectoryEntry \<Rightarrow> u8 list
    \<Rightarrow> (int \<times> drive) result" where
  "char_write_file fs pool d entry data =
     rbind (parent_dir_cluster fs pool d (de_path entry)) (\<lambda>parent.
     rbind (FatDirectoryEntry_of_char entry) (\<lambda>fat_dirent.
       write_to_existing_file fs pool d fat_dirent data parent))"

section \<open>Operations of an open file\<close>

text \<open>
  A read gives the return value and the bytes that it copies to the start of the caller's
  buffer. \<^verbatim>\<open>read_file\<close> of this file system always returns \<^verbatim>\<open>true\<close>.
\<close>

definition fill_cache :: "Fat32FS \<Rightarrow> buffer_pool \<Rightarrow> drive \<Rightarrow> CharFile \<Rightarrow> CharFile result" where
  "fill_cache fs pool d f =
     (case m_content_cache f of
        NoCache \<Rightarrow>
          rbind (round_up (word_of_nat (m_file_len f)) (cluster_size fs)) (\<lambda>sz.
          rbind (new_buffer pool (unat sz)) (\<lambda>buff.
          rbind (char_read_file fs d (m_dir_entry f) (bb_data buff)) (\<lambda>data.
            Inr (f\<lparr>m_content_cache := Cached data\<rparr>))))
      | _ \<Rightarrow> Inr f)"

definition CharFile_read :: "Fat32FS \<Rightarrow> buffer_pool \<Rightarrow> drive \<Rightarrow> nat \<Rightarrow> CharFile
    \<Rightarrow> (int \<times> u8 list \<times> CharFile) result" where
  "CharFile_read fs pool d count f =
     (if count = 0 then Inr (0, [], f)
      else rbind (fill_cache fs pool d f) (\<lambda>f.
        if count > size_sub (m_file_len f) (m_file_idx f) then Inr (- E_TOO_BIG, [], f)
        else case m_content_cache f of
            Cached data \<Rightarrow> rbind (get_bytes (m_file_idx f) count data) (\<lambda>bs.
                Inr (as_int count, bs, f\<lparr>m_file_idx := m_file_idx f + count\<rparr>))
          | _ \<Rightarrow> Inl BadAccess))"

definition reset_cache :: "content_cache \<Rightarrow> content_cache result" where
  "reset_cache c = (case c of NoCache \<Rightarrow> Inr NoCache | Cached _ \<Rightarrow> Inr Dangling | Dangling \<Rightarrow> Inl BadAccess)"

definition padded_data :: "u8 list \<Rightarrow> nat \<Rightarrow> u8 vec result" where
  "padded_data data count =
     rbind (vec_of_data 1 data count) (\<lambda>to_write.
       rfold (\<lambda>_ v. vec_append v 0) [0..<SECTOR_SIZE_BYTES - count mod SECTOR_SIZE_BYTES] to_write)"

definition CharFile_write :: "Fat32FS \<Rightarrow> buffer_pool \<Rightarrow> drive \<Rightarrow> u8 list \<Rightarrow> nat \<Rightarrow> CharFile
    \<Rightarrow> (int \<times> CharFile \<times> drive) result" where
  "CharFile_write fs pool d data count f =
     rbind (reset_cache (m_content_cache f)) (\<lambda>cache.
     rbind (padded_data data count) (\<lambda>to_write.
     rbind (char_write_file fs pool d (m_dir_entry f) (vec_list to_write)) (\<lambda>(rc, d').
       Inr (as_int count, f\<lparr>m_content_cache := cache, m_file_idx := wrap32 (m_file_idx f + count)\<rparr>, d'))))"

definition CharFile_lseek :: "int \<Rightarrow> int \<Rightarrow> CharFile \<Rightarrow> (int \<times> CharFile) result" where
  "CharFile_lseek offset whence f =
     rbind (if whence = SEEK_CUR then Inr (nat ((int (m_file_idx f) + offset) mod 2 ^ 32))
            else if whence = SEEK_SET then Inr (nat (offset mod 2 ^ 32))
            else if whence = SEEK_END then
              rbind (assert_that (offset \<le> 0)) (\<lambda>_. Inr (nat ((int (m_file_len f) + offset) mod 2 ^ 32)))
            else Inl NotReached) (\<lambda>idx.
     rbind (assert_that (idx \<le> m_file_len f)) (\<lambda>_.
       Inr (as_int idx, f\<lparr>m_file_idx := idx\<rparr>)))"

text \<open>The fresh memory of \<^verbatim>\<open>new char[sz + 1]\<close> is the argument \<open>raw\<close>.\<close>

definition CharFile_get_content :: "Fat32FS \<Rightarrow> buffer_pool \<Rightarrow> drive \<Rightarrow> (nat \<Rightarrow> u8) \<Rightarrow> CharFile
    \<Rightarrow> (u8 list \<times> CharFile) result" where
  "CharFile_get_content fs pool d raw f =
     (let sz = m_file_len f; buff = map raw [0..<sz + 1] in
      rbind (CharFile_read fs pool d sz f) (\<lambda>(_, bs, f').
      rbind (put_bytes 0 bs buff) (\<lambda>buff'.
        Inr (buff'[sz := 0], f'))))"

section \<open>Reading whole files\<close>

text \<open>
  \<^verbatim>\<open>read_all\<close> reads into the buffer of a vector whose size stays zero; \<^verbatim>\<open>read_all_big\<close> into a
  page buffer. A short read gives the null pointer.
\<close>

definition read_all :: "Fat32FS \<Rightarrow> buffer_pool \<Rightarrow> drive \<Rightarrow> CharFile \<Rightarrow> (u8 vec option \<times> CharFile) result" where
  "read_all fs pool d f =
     (let sz = m_file_len f; buff = vec_with_capacity sz in
      rbind (CharFile_read fs pool d sz f) (\<lambda>(res, bs, f').
      rbind (put_bytes 0 (map Some bs) (m_data buff)) (\<lambda>cells.
        Inr (if res \<noteq> as_int sz then None else Some (buff\<lparr>m_data := cells\<rparr>), f'))))"

definition read_all_big :: "Fat32FS \<Rightarrow> buffer_pool \<Rightarrow> drive \<Rightarrow> CharFile \<Rightarrow> (BigBuffer option \<times> CharFile) result" where
  "read_all_big fs pool d f =
     (let sz = m_file_len f in
      rbind (new_buffer pool sz) (\<lambda>buff.
      rbind (CharFile_read fs pool d sz f) (\<lambda>(res, bs, f').
      rbind (put_bytes 0 bs (bb_data buff)) (\<lambda>data.
        Inr (if res \<noteq> as_int sz then None else Some (buff\<lparr>bb_data := data\<rparr>), f')))))"

text \<open>The VFS's \<^verbatim>\<open>open\<close> is an argument; the missing file's code is returned without its sign.\<close>

definition file_size :: "(path \<Rightarrow> CharFile option result) \<Rightarrow> str \<Rightarrow> int result" where
  "file_size VFS_open_file path =
     rbind (Path_of_string path) (\<lambda>p.
     rbind (VFS_open_file p) (\<lambda>f.
       Inr (case f of None \<Rightarrow> E_NOTFOUND | Some char_f \<Rightarrow> as_int (m_file_len char_f))))"

section \<open>An open file is its contents and a position\<close>

datatype file_op = ReadOp nat | SeekOp int int

fun file_step :: "Fat32FS \<Rightarrow> buffer_pool \<Rightarrow> drive \<Rightarrow> file_op \<Rightarrow> CharFile \<Rightarrow> ((int \<times> u8 list) \<times> CharFile) result" where
  "file_step fs pool d (ReadOp n) f = rbind (CharFile_read fs pool d n f) (\<lambda>(r, bs, f'). Inr ((r, bs), f'))"
| "file_step fs pool d (SeekOp off whence) f = rbind (CharFile_lseek off whence f) (\<lambda>(r, f'). Inr ((r, []), f'))"

definition seek_target :: "nat \<Rightarrow> nat \<Rightarrow> int \<Rightarrow> int \<Rightarrow> int" where
  "seek_target len pos off whence =
     (if whence = SEEK_CUR then int pos + off else if whence = SEEK_SET then off else int len + off)"

fun file_spec :: "u8 list \<Rightarrow> file_op \<Rightarrow> nat \<Rightarrow> ((int \<times> u8 list) \<times> nat) result" where
  "file_spec content (ReadOp n) pos =
     (if pos + n \<le> length content then Inr ((int n, chunk pos n content), pos + n)
      else Inr ((- E_TOO_BIG, []), pos))"
| "file_spec content (SeekOp off whence) pos =
     (if whence \<notin> {SEEK_SET, SEEK_CUR, SEEK_END} then Inl NotReached
      else if whence = SEEK_END \<and> 0 < off then Inl AssertionFailed
      else let t = seek_target (length content) pos off whence in
        if 0 \<le> t \<and> t \<le> int (length content) then Inr ((t, []), nat t) else Inl AssertionFailed)"

text \<open>An operation whose arguments are values of the types of the code.\<close>

fun op_ok :: "file_op \<Rightarrow> bool" where
  "op_ok (ReadOp n) \<longleftrightarrow> n < 2 ^ 32"
| "op_ok (SeekOp off whence) \<longleftrightarrow> - (2 ^ 31) \<le> off \<and> off < 2 ^ 31"

text \<open>A file of positive size whose chain has just the clusters that the size needs.\<close>

definition holds_file :: "Fat32FS \<Rightarrow> buffer_pool \<Rightarrow> drive \<Rightarrow> u32 \<Rightarrow> u8 list \<Rightarrow> bool" where
  "holds_file fs pool d c content \<longleftrightarrow> fat_ok fs d \<and> content \<noteq> [] \<and> length content < 2 ^ 31
     \<and> (\<exists>cs. fat_chain fs d (c # cs) \<and> list_all (cluster_ok fs d) (c # cs)
          \<and> content = take (length content) (chain_bytes fs d (c # cs))
          \<and> length (c # cs) * unat (cluster_size fs) < length content + unat (cluster_size fs)
          \<and> bb_room pool (pages_for (length (c # cs) * unat (cluster_size fs))))"

definition file_rel :: "Fat32FS \<Rightarrow> buffer_pool \<Rightarrow> drive \<Rightarrow> u8 list \<Rightarrow> CharFile \<Rightarrow> nat \<Rightarrow> bool" where
  "file_rel fs pool d content f pos \<longleftrightarrow> holds_file fs pool d (m_cluster_idx (m_dir_entry f)) content
     \<and> m_file_len f = length content \<and> m_file_idx f = pos \<and> pos \<le> length content
     \<and> (case m_content_cache f of NoCache \<Rightarrow> True
          | Cached data \<Rightarrow> take (length content) data = content \<and> length content \<le> length data
          | Dangling \<Rightarrow> False)"

lemma as_int_id: "n < 2 ^ 31 \<Longrightarrow> as_int n = int n"
  unfolding as_int_def by (subst signed_of_nat) (simp add: signed_take_bit_int_eq_self)

lemma round_up_unique:
  assumes "n \<le> k * unat z" "k * unat z < n + unat z" "k * unat z < 2 ^ 32"
  shows "\<exists>w. round_up (word_of_nat n) z = Inr w \<and> unat w = k * unat z"
proof -
  let ?z = "unat z"
  have z: "0 < ?z" using assms(1,2) by linarith
  have n: "unat (word_of_nat n :: u32) = n"
    using assms by (simp add: unsigned_of_nat take_bit_nat_eq_self)
  have mod: "unat (word_of_nat n mod z) = n mod ?z" using n by (simp add: unat_mod_distrib)
  have eq: "n = n div ?z * ?z + n mod ?z" by (rule div_mult_mod_eq [symmetric])
  have r: "n mod ?z < ?z" using z by simp
  show ?thesis
  proof (cases "n mod ?z = 0")
    case True
    then have "n div ?z * ?z = n" using eq by linarith
    moreover have "k = n div ?z"
    proof -
      have "k * ?z < Suc (n div ?z) * ?z" "n div ?z * ?z \<le> k * ?z" using assms(1,2) eq True by simp_all
      then have "k < Suc (n div ?z)" "n div ?z \<le> k" using z by (simp_all only: mult_less_cancel2 mult_le_cancel2)
      then show ?thesis by linarith
    qed
    ultimately have "k * ?z = n" by simp
    moreover have "word_of_nat n mod z = 0" using mod True by (simp add: word_unat_eq_iff)
    ultimately show ?thesis using z n
      by (intro exI [of _ "word_of_nat n"]) (auto simp: round_up_def word_unat_eq_iff)
  next
    case False
    have "n div ?z < k" and "k < n div ?z + 2"
    proof -
      have "n div ?z * ?z < k * ?z" using assms(1) eq False by linarith
      moreover have "k * ?z < (n div ?z + 2) * ?z" using assms(2) eq r unfolding add_mult_distrib by linarith
      ultimately show "n div ?z < k" "k < n div ?z + 2" using z by (simp_all only: mult_less_cancel2)
    qed
    then have "k = n div ?z + 1" by linarith
    then have "k * ?z = n div ?z * ?z + ?z" by simp
    then have k: "k * ?z = n + (?z - n mod ?z)" using eq r by linarith
    have "unat (z - word_of_nat n mod z) = ?z - n mod ?z"
      using mod r by (simp add: unat_sub word_le_nat_alt)
    then have "unat (word_of_nat n + (z - word_of_nat n mod z)) = k * ?z"
      using n k assms(3) unat_add_lem [of "word_of_nat n" "z - word_of_nat n mod z"] by simp
    moreover have "word_of_nat n mod z \<noteq> 0" using mod False by (simp add: word_unat_eq_iff)
    ultimately show ?thesis using z
      by (intro exI [of _ "word_of_nat n + (z - word_of_nat n mod z)"]) (auto simp: round_up_def word_unat_eq_iff)
  qed
qed

lemma fill_cache_ok:
  assumes "file_rel fs pool d content f pos"
  shows "\<exists>data. fill_cache fs pool d f = Inr (f\<lparr>m_content_cache := Cached data\<rparr>)
    \<and> take (length content) data = content \<and> length content \<le> length data"
proof (cases "m_content_cache f")
  case NoCache
  let ?c = "m_cluster_idx (m_dir_entry f)" and ?z = "unat (cluster_size fs)"
  obtain cs where cs: "fat_ok fs d" "fat_chain fs d (?c # cs)" "list_all (cluster_ok fs d) (?c # cs)"
    "content = take (length content) (chain_bytes fs d (?c # cs))" "content \<noteq> []"
    "length (?c # cs) * ?z < length content + ?z"
    "bb_room pool (pages_for (length (?c # cs) * ?z))"
    using assms by (auto simp: file_rel_def holds_file_def)
  let ?n = "length (?c # cs) * ?z"
  have len: "length (chain_bytes fs d (?c # cs)) = ?n"
    using length_chain_bytes [OF cs(1), of d "?c # cs"] by (simp only: mult.commute)
  have le: "length content \<le> ?n"
    using arg_cong [OF cs(4), of length] len by (simp only: length_take min_def split: if_splits)
  have "?n < 2 ^ 32" using chain_size_bound [OF cs(1) fat_chain_distinct [OF cs(2)] cs(3)] .
  then obtain w where w: "round_up (word_of_nat (length content)) (cluster_size fs) = Inr w" "unat w = ?n"
    using round_up_unique [OF le cs(6)] by blast
  have "0 < length content" using cs(5) by simp
  then have "0 < ?n" using le by linarith
  then obtain b where b: "new_buffer pool ?n = Inr b" "length (bb_data b) = 4096 * pages_for ?n"
    using new_buffer_ok [OF _ cs(7)] by blast
  have "?z * length (?c # cs) \<le> length (bb_data b)"
    using pages_for_le [of ?n] b(2) by (simp only: mult.commute)
  from read_whole_entry_ok [OF cs(1-3) this]
  have "fill_cache fs pool d f
      = Inr (f\<lparr>m_content_cache := Cached (blit 0 (chain_bytes fs d (?c # cs)) (bb_data b))\<rparr>)"
    using NoCache w b(1) assms
    by (simp add: fill_cache_def file_rel_def char_read_file_def del: length_Cons mult_Suc)
  moreover have "take (length content) (blit 0 (chain_bytes fs d (?c # cs)) (bb_data b)) = content"
    using le len cs(4) by (simp add: blit_def del: concat.simps list.map length_Cons mult_Suc)
  moreover have "length content \<le> length (blit 0 (chain_bytes fs d (?c # cs)) (bb_data b))"
    using le len by (simp add: blit_def del: concat.simps list.map length_Cons mult_Suc)
  ultimately show ?thesis by blast
next
  case (Cached data)
  then have "f\<lparr>m_content_cache := Cached data\<rparr> = f" by simp
  then show ?thesis using Cached assms
    by (intro exI [of _ data]) (simp add: fill_cache_def file_rel_def)
qed (use assms in \<open>simp add: file_rel_def\<close>)

lemma read_step:
  assumes rel: "file_rel fs pool d content f pos" and n: "n < 2 ^ 32"
  shows "\<exists>f'. CharFile_read fs pool d n f = (if pos + n \<le> length content
      then Inr (int n, chunk pos n content, f') else Inr (- E_TOO_BIG, [], f'))
    \<and> file_rel fs pool d content f' (if pos + n \<le> length content then pos + n else pos)"
proof (cases "n = 0")
  case True
  then show ?thesis using rel by (auto simp: CharFile_read_def chunk_def file_rel_def)
next
  case False
  have pos: "m_file_len f = length content" "m_file_idx f = pos" "pos \<le> length content"
    using rel by (simp_all add: file_rel_def)
  obtain data where data: "fill_cache fs pool d f = Inr (f\<lparr>m_content_cache := Cached data\<rparr>)"
    "take (length content) data = content" "length content \<le> length data"
    using fill_cache_ok [OF rel] by blast
  have fits: "n > size_sub (m_file_len f) (m_file_idx f) \<longleftrightarrow> \<not> pos + n \<le> length content"
    using pos by auto
  show ?thesis
  proof (cases "pos + n \<le> length content")
    case True
    have "length content < 2 ^ 31" using rel by (simp add: file_rel_def holds_file_def)
    then have "n < 2 ^ 31" using True by linarith
    moreover have "chunk pos n content = chunk pos n data"
      using True by (subst data(2) [symmetric]) (simp add: chunk_def drop_take min_def)
    ultimately show ?thesis using False True fits data pos rel as_int_id [of n]
      by (auto simp: CharFile_read_def file_rel_def)
  next
    case notfit: False
    then show ?thesis using False fits data pos rel
      by (auto simp: CharFile_read_def file_rel_def)
  qed
qed

lemma wrap_target:
  fixes t len :: int
  assumes "- (2 ^ 31) \<le> t" "t < 2 ^ 32" "0 \<le> len" "len < 2 ^ 31"
  shows "nat (t mod 2 ^ 32) \<le> nat len \<longleftrightarrow> 0 \<le> t \<and> t \<le> len"
    and "0 \<le> t \<Longrightarrow> nat (t mod 2 ^ 32) = nat t"
proof -
  show "0 \<le> t \<Longrightarrow> nat (t mod 2 ^ 32) = nat t" using assms(2) by simp
  show "nat (t mod 2 ^ 32) \<le> nat len \<longleftrightarrow> 0 \<le> t \<and> t \<le> len"
  proof (cases "0 \<le> t")
    case False
    have "t mod 2 ^ 32 = (t + 2 ^ 32) mod 2 ^ 32" by simp
    also have "\<dots> = t + 2 ^ 32" using False assms(1) by (intro mod_pos_pos_trivial) simp_all
    finally have "t mod 2 ^ 32 = t + 2 ^ 32" .
    then show ?thesis using False assms by (simp add: nat_le_eq_zle)
  qed (use assms in \<open>simp add: nat_le_iff\<close>)
qed

lemma lseek_step:
  assumes rel: "file_rel fs pool d content f pos" and op: "- (2 ^ 31) \<le> off" "off < 2 ^ 31"
  shows "CharFile_lseek off whence f = map_sum id (\<lambda>((r, _), p). (r, f\<lparr>m_file_idx := p\<rparr>))
    (file_spec content (SeekOp off whence) pos)"
proof -
  let ?n = "length content"
  have pos: "m_file_len f = ?n" "m_file_idx f = pos" "pos \<le> ?n" "?n < 2 ^ 31"
    using rel by (simp_all add: file_rel_def holds_file_def)
  let ?g = "\<lambda>t. rbind (assert_that (nat (t mod 2 ^ 32) \<le> ?n)) (\<lambda>_.
      Inr (as_int (nat (t mod 2 ^ 32)), f\<lparr>m_file_idx := nat (t mod 2 ^ 32)\<rparr>))"
  have seek: "?g t = (if 0 \<le> t \<and> t \<le> int ?n then Inr (t, f\<lparr>m_file_idx := nat t\<rparr>) else Inl AssertionFailed)"
    if "- (2 ^ 31) \<le> t" "t < 2 ^ 32" for t
    using wrap_target [OF that, of "int ?n"] pos(4) as_int_id [of "nat t"] by (auto simp: assert_that_def)
  have "int pos \<le> int ?n" "int ?n < 2 ^ 31" using pos(3,4) by simp_all
  then have "int pos + off < 2 ^ 32" "int ?n + off < 2 ^ 32" "off < 2 ^ 32"
    "- (2 ^ 31) \<le> int pos + off" "- (2 ^ 31) \<le> int ?n + off"
    using op by simp_all
  note targets = seek [OF this(4,1)] seek [OF this(5,2)] seek [OF op(1) this(3)]
  have "CharFile_lseek off whence f =
      (if whence = SEEK_CUR then ?g (int pos + off) else if whence = SEEK_SET then ?g off
       else if whence = SEEK_END then (if off \<le> 0 then ?g (int ?n + off) else Inl AssertionFailed)
       else Inl NotReached)"
    unfolding CharFile_lseek_def pos(1,2) by simp
  then show ?thesis unfolding targets by (simp add: seek_target_def Let_def)
qed

interpretation open_file: stepwise_refinement "file_rel fs pool d content" "file_step fs pool d"
    "file_spec content" "\<lambda>op _. op_ok op"
  for fs pool d content
proof
  fix f pos op e
  assume rel: "file_rel fs pool d content f pos" and ok: "op_ok op" and spec: "file_spec content op pos = Inl e"
  show "file_step fs pool d op f = Inl e"
  proof (cases op)
    case (SeekOp off whence)
    then show ?thesis using spec ok lseek_step [OF rel, of off whence] by auto
  qed (use spec in \<open>auto split: if_splits\<close>)
next
  fix f pos op r pos'
  assume rel: "file_rel fs pool d content f pos" and ok: "op_ok op" and run: "file_spec content op pos = Inr (r, pos')"
  show "\<exists>f'. file_step fs pool d op f = Inr (r, f') \<and> file_rel fs pool d content f' pos'"
  proof (cases op)
    case (ReadOp n)
    then have n: "n < 2 ^ 32" using ok by simp
    show ?thesis using run ReadOp read_step [OF rel n] by (auto split: if_splits)
  next
    case (SeekOp off whence)
    then have op: "- (2 ^ 31) \<le> off" "off < 2 ^ 31" and
      ran: "file_spec content (SeekOp off whence) pos = Inr (r, pos')"
      using ok run by simp_all
    from ran have "pos' \<le> length content" "snd r = []" by (auto simp: Let_def split: if_splits)
    moreover have "CharFile_lseek off whence f = Inr (fst r, f\<lparr>m_file_idx := pos'\<rparr>)"
      using lseek_step [OF rel op, of whence] ran by (cases r) auto
    ultimately show ?thesis using SeekOp rel by (cases r) (auto simp: file_rel_def)
  qed
qed

text \<open>
  C11: An open file that is not empty, shorter than 2 to the 31 bytes, and whose chain has just the clusters its
  size needs, with room for a buffer of that size, is its contents with a position: under every sequence of
  reads and seeks whose arguments are values of 32 bits, the values returned, the bytes delivered and the panics are
  those of the specification, which reads a slice of the contents and moves behind it, refuses a read that is longer than
  the rest with \<^verbatim>\<open>-E_TOO_BIG\<close> and lets a seek reach every position from the first byte to the end. (An
  empty file and a chain that is too long are outside of this: reading them fails.)
\<close>

theorem file_is_contents_and_position:
  assumes "holds_file fs pool d (m_cluster_idx entry) content" "list_all op_ok ops"
  shows "map_sum id fst (run_ops (file_step fs pool d) ops (CharFile_new entry (length content)))
    = map_sum id fst (run_ops (file_spec content) ops 0)"
proof -
  have "file_rel fs pool d content (CharFile_new entry (length content)) 0"
    using assms(1) by (simp add: file_rel_def CharFile_new_def)
  from open_file.run_refines [OF this ops_ok_all [OF assms(2)]] show ?thesis .
qed

theorem file_is_contents_and_position_witness:
  "map_sum id fst (run_ops (file_step small_fs roomy_pool one_file_drive) [ReadOp 2, SeekOp (-1) SEEK_END, ReadOp 2, ReadOp 1]
      (CharFile_new (to_char_directory_entry (new_entry ''a'' Type_File 3) path_a) 5))
    = Inr [(2, [0, 0]), (4, []), (- E_TOO_BIG, []), (1, [0])]"
proof -
  let ?d = one_file_drive and ?e = "to_char_directory_entry (new_entry ''a'' Type_File 3) path_a"
  let ?five = "replicate 5 0 :: u8 list"
  have c: "m_cluster_idx ?e = 3" by (simp add: to_char_directory_entry_def new_entry_def)
  have bytes: "chain_bytes small_fs ?d [3] = replicate 512 0"
    by (simp add: small_cluster_bytes one_file_drive_def tiny_zero)
  have "holds_file small_fs roomy_pool ?d 3 ?five"
    unfolding holds_file_def using one_file_chain one_file_directory bytes
    by (intro conjI exI [of _ "[]"]) (simp_all add: directory_at_def small_size roomy)
  then have "map_sum id fst (run_ops (file_step small_fs roomy_pool ?d) [ReadOp 2, SeekOp (-1) SEEK_END, ReadOp 2, ReadOp 1]
      (CharFile_new ?e (length ?five)))
    = map_sum id fst (run_ops (file_spec ?five) [ReadOp 2, SeekOp (-1) SEEK_END, ReadOp 2, ReadOp 1] 0)"
    by (intro file_is_contents_and_position) (simp_all add: c)
  then show ?thesis by (simp add: seek_target_def chunk_def numeral_2_eq_2)
qed

end
