(* ===== verification/File_Contents.thy ===== *)
theory File_Contents
  imports Char_File
begin

text \<open>
  Writing through an open file and opening it again: the theories of the table, the
  directories and the open files put together. A write changes the size field of one short
  entry, so what a directory reads back as differs in this entry's size only.
\<close>

section \<open>A directory in which one size changes\<close>

definition resize :: "u32 \<Rightarrow> u32 \<Rightarrow> FatDirectoryEntry \<Rightarrow> FatDirectoryEntry" where
  "resize c w e = (if fde_cluster_idx e = c then e\<lparr>fde_size := unat w\<rparr> else e)"

lemma resize_simps [simp]:
  "fde_name (resize c w e) = fde_name e" "fde_type (resize c w e) = fde_type e"
  "fde_cluster_idx (resize c w e) = fde_cluster_idx e"
  by (simp_all add: resize_def)









lemma first_named_in: "first_named part es = Inr (Some e) \<Longrightarrow> e \<in> set es"
  by (induction es) (auto split: if_splits)

section \<open>Files of the root directory\<close>





section \<open>Written, opened again, read back\<close>

lemma padded_ok:
  assumes "0 < count" "count \<le> length data"
  obtains v where "padded_data data count = Inr v" "vec_list v = take count data @ replicate (512 - count mod 512) 0"
proof -
  have zeroes: "vec_growable v \<Longrightarrow> \<exists>v'. rfold (\<lambda>_ v. vec_append v 0) is v = Inr v'
      \<and> vec_list v' = vec_list v @ replicate (length is) (0 :: u8)" for "is" v
  proof (induction "is" arbitrary: v)
    case (Cons i "is")
    obtain v1 where v1: "vec_append v 0 = Inr v1" "vec_growable v1" "vec_list v1 = vec_list v @ [0]"
      using vec_append_ok [OF Cons.prems] by blast
    with Cons.IH [OF v1(2)] show ?case by (auto simp: replicate_app_Cons_same)
  qed simp
  obtain v where v: "vec_of_data 1 data count = Inr v" "vec_ok v" "vec_list v = take count data" "m_capacity v = count"
    using vec_of_data_ok [OF assms(2)] by blast
  then have "vec_growable v" using assms(1) by (simp add: vec_growable_def)
  then show ?thesis using zeroes [of v "[0..<512 - count mod 512]"] v(1,3) that
    by (auto simp: padded_data_def simp del: upt_rec_numeral)
qed





section \<open>The cache of an open file\<close>

lemma fill_cache_keeps:
  "fill_cache fs pool d f = Inr g \<Longrightarrow>
    m_content_cache g \<noteq> NoCache \<and> m_dir_entry g = m_dir_entry f \<and> m_file_len g = m_file_len f"
  by (cases "m_content_cache f") (auto simp: fill_cache_def)

lemma read_keeps:
  assumes "CharFile_read fs pool d n f = Inr (r, bs, f')" "0 < n"
  shows "m_content_cache f' \<noteq> NoCache" "m_dir_entry f' = m_dir_entry f" "m_file_len f' = m_file_len f"
proof -
  obtain g where g: "fill_cache fs pool d f = Inr g" "f' = g \<or> (\<exists>i. f' = g\<lparr>m_file_idx := i\<rparr>)"
    using assms by (auto simp: CharFile_read_def split: if_splits content_cache.splits)
  from fill_cache_keeps [OF g(1)] g(2)
  show "m_content_cache f' \<noteq> NoCache" "m_dir_entry f' = m_dir_entry f" "m_file_len f' = m_file_len f" by auto
qed

text \<open>
  A write drops the cache of the file by deleting it without clearing the pointer: after a
  read of the file and a write through it, every further read of bytes that are there, and every
  further write, accesses deleted memory.
\<close>

theorem read_after_write_faults:
  assumes "CharFile_read fs pool d n f = Inr (r, bs, f1)" "0 < n" "CharFile_write fs pool d data m f1 = Inr (s, f2, d')"
  shows "(\<forall>i fs' pool' d''. 0 < i \<longrightarrow> i \<le> size_sub (m_file_len f2) (m_file_idx f2) \<longrightarrow>
      CharFile_read fs' pool' d'' i f2 = Inl BadAccess)
    \<and> (\<forall>data' i fs' pool' d''. CharFile_write fs' pool' d'' data' i f2 = Inl BadAccess)"
proof -
  have "m_content_cache f1 \<noteq> NoCache"
    by (rule read_keeps(1) [OF assms(1,2)])
  then have "m_content_cache f2 = Dangling"
    using assms(3) by (auto simp: CharFile_write_def reset_cache_def split: content_cache.splits)
  then show ?thesis by (auto simp: CharFile_read_def CharFile_write_def fill_cache_def reset_cache_def)
qed

text \<open>A one-cluster volume with a file of 512 bytes that is open, read, written and read again.\<close>

theorem read_after_write_faults_witness:
  "\<exists>f1 f2 d'. CharFile_read small_fs roomy_pool one_file_drive 1
        (CharFile_new (to_char_directory_entry (new_entry ''a'' Type_File 3) path_a) 512) = Inr (1, [0], f1)
     \<and> CharFile_write small_fs roomy_pool one_file_drive [7] 1 f1 = Inr (1, f2, d')
     \<and> CharFile_read small_fs roomy_pool d' 1 f2 = Inl BadAccess"
proof -
  let ?d = one_file_drive and ?e = "to_char_directory_entry (new_entry ''a'' Type_File 3) path_a"
  let ?zero = "replicate 512 0 :: u8 list"
  have c: "m_cluster_idx ?e = 3" "de_path ?e = path_a" by (simp_all add: to_char_directory_entry_def new_entry_def)
  have bytes: "chain_bytes small_fs ?d [3] = ?zero"
    by (simp add: small_cluster_bytes one_file_drive_def tiny_zero)
  have "holds_file small_fs roomy_pool ?d 3 ?zero"
    unfolding holds_file_def using one_file_chain one_file_directory bytes
    by (intro conjI exI [of _ "[]"]) (simp_all add: directory_at_def small_size roomy)
  then have rel: "file_rel small_fs roomy_pool ?d ?zero (CharFile_new ?e 512) 0"
    by (simp add: file_rel_def CharFile_new_def c)
  obtain f1 where f1: "CharFile_read small_fs roomy_pool ?d 1 (CharFile_new ?e 512) = Inr (1, [0], f1)"
    "file_rel small_fs roomy_pool ?d ?zero f1 1"
    using read_step [OF rel, of 1] by (auto simp: chunk_def)
  have entry: "m_dir_entry f1 = ?e"
    using read_keeps(2) [OF f1(1)] by (simp add: CharFile_new_def)
  have cached: "\<exists>data. m_content_cache f1 = Cached data"
    using f1(2) read_keeps(1) [OF f1(1)] by (cases "m_content_cache f1") (simp_all add: file_rel_def)
  obtain v where v: "padded_data [7] 1 = Inr v" "vec_list v = 7 # replicate 511 0"
    using padded_ok [of 1 "[7]"] by auto
  obtain fe where fe: "FatDirectoryEntry_of_char ?e = Inr fe" "fde_cluster_idx fe = 3"
    using c path_a_parts(3) by (simp add: FatDirectoryEntry_of_char_def)
  obtain d' where d': "write_to_existing_file small_fs roomy_pool ?d fe (7 # replicate 511 0) 2 = Inr (0, d')"
    using write_to_existing_ok [OF fe(2) one_file_chain, of "7 # replicate 511 0" 1 roomy_pool 2 "[]" 1]
      one_file_directory one_file_clusters by (auto simp: small_size spc_small)
  have parent: "parent_dir_cluster small_fs roomy_pool ?d path_a = Inr 2"
    by (simp add: parent_dir_cluster_def path_a_parts) (simp add: small_fs_def)
  obtain f2 where f2: "CharFile_write small_fs roomy_pool ?d [7] 1 f1 = Inr (1, f2, d')"
    "m_file_len f2 = m_file_len f1" "m_file_idx f2 = wrap32 (m_file_idx f1 + 1)"
    using v d' parent cached entry c fe(1) as_int_id [of 1]
    by (auto simp: CharFile_write_def reset_cache_def char_write_file_def)
  have "1 \<le> size_sub (m_file_len f2) (m_file_idx f2)"
    using f1(2) f2(2,3) by (simp add: file_rel_def)
  then show ?thesis using f1(1) f2(1) read_after_write_faults [OF f1(1) _ f2(1)] by auto
qed

end
