(* ===== verification/Input_Devices.thy ===== *)
theory Input_Devices
  imports CStrings Bits_Math
begin

text \<open>
  The keyboard and the mouse: the scan codes and event rings of \<^verbatim>\<open>kernel/drivers/PS2Keyboard.cpp\<close>
  and \<^verbatim>\<open>PS2Mouse.cpp\<close>, the key events of \<^verbatim>\<open>libc/PS2KeyboardCommon.cpp\<close> and the devices of
  \<^verbatim>\<open>kernel/HAL\<close> that processes read. The bytes of the controller are arguments of the interrupt
  handlers; its programming is port I/O. Locks are left out: no step is interrupted by another.
\<close>

section \<open>Key events\<close>

record ModifiersState =
  ms_shift :: bool
  ms_caps_lock :: bool

record KeyEvent =
  keycode :: u8
  released :: bool
  modifiers :: ModifiersState

abbreviation ESC :: u8 where "ESC \<equiv> 128"
abbreviation BackSpace :: u8 where "BackSpace \<equiv> 139"
abbreviation L_CTRL :: u8 where "L_CTRL \<equiv> 140"
abbreviation L_SHIFT :: u8 where "L_SHIFT \<equiv> 141"
abbreviation R_SHIFT :: u8 where "R_SHIFT \<equiv> 142"
abbreviation L_ALT :: u8 where "L_ALT \<equiv> 143"
abbreviation CapsLock :: u8 where "CapsLock \<equiv> 144"
abbreviation NumLock :: u8 where "NumLock \<equiv> 145"
abbreviation ScrollLock :: u8 where "ScrollLock \<equiv> 146"

text \<open>The function keys F1 to F10 are 129 to 138.\<close>

definition key_map_set1 :: "u8 list" where
  "key_map_set1 =
     (let keys = [0, ESC] @ map byte_of_char ''1234567890'' @ map byte_of_char ''-='' @ [BackSpace, 9]
            @ map byte_of_char ''qwertyuiop[]'' @ [10, L_CTRL] @ map byte_of_char ''asdfghjkl;''
            @ map byte_of_char [CHR 0x27, CHR 0x60] @ [L_SHIFT] @ map byte_of_char [CHR 0x5C]
            @ map byte_of_char ''zxcvbnm,./'' @ [R_SHIFT, 0, L_ALT] @ map byte_of_char '' '' @ [CapsLock]
            @ [129, 130, 131, 132, 133, 134, 135, 136, 137, 138] @ [NumLock, ScrollLock]
      in keys @ replicate (128 - length keys) 0)"

definition from_single :: "u8 \<Rightarrow> u8 result" where
  "from_single v = (if unat v < length key_map_set1 then Inr (key_map_set1 ! unat v) else Inl BadAccess)"

definition nums_upper :: string where
  "nums_upper = '')!@#$%^&*(''"

definition ascii_to_upper :: "u8 \<Rightarrow> u8 result" where
  "ascii_to_upper v =
     rbind (assert_that (\<not> get_bit v 7)) (\<lambda>_.
       Inr (if byte_of_char CHR ''0'' \<le> v \<and> v \<le> byte_of_char CHR ''9''
            then byte_of_char (nums_upper ! unat (v - byte_of_char CHR ''0''))
            else if byte_of_char CHR ''a'' \<le> v \<and> v \<le> byte_of_char CHR ''z'' then v - 0x20
            else if v = byte_of_char CHR ''-'' then byte_of_char CHR ''_''
            else if v = byte_of_char CHR ''='' then byte_of_char CHR ''+''
            else if v = byte_of_char CHR ''['' then byte_of_char CHR ''{''
            else if v = byte_of_char CHR '']'' then byte_of_char CHR ''}''
            else if v = byte_of_char CHR '';'' then byte_of_char CHR '':''
            else if v = byte_of_char CHR 0x27 then byte_of_char CHR 0x22
            else if v = byte_of_char CHR 0x5C then byte_of_char CHR ''|''
            else if v = byte_of_char CHR '','' then byte_of_char CHR ''<''
            else if v = byte_of_char CHR ''.'' then byte_of_char CHR ''>''
            else if v = byte_of_char CHR ''/'' then byte_of_char CHR ''?''
            else if v = byte_of_char CHR 0x60 then byte_of_char CHR ''~''
            else v))"

abbreviation KEYCODE_BACKSPACE :: u8 where "KEYCODE_BACKSPACE \<equiv> 139"

definition to_ascii :: "KeyEvent \<Rightarrow> u8 result" where
  "to_ascii e =
     (if get_bit (keycode e) 7 then Inr (if keycode e = KEYCODE_BACKSPACE then 8 else 0)
      else if ms_caps_lock (modifiers e) \<or> ms_shift (modifiers e) then ascii_to_upper (keycode e)
      else Inr (keycode e))"

section \<open>The keyboard\<close>

abbreviation KEYCODES_BUFFER_LEN :: nat where "KEYCODES_BUFFER_LEN \<equiv> 20"
abbreviation MAX_NUM_KEYCODE_BYTES :: nat where "MAX_NUM_KEYCODE_BYTES \<equiv> 6"
abbreviation SCAN_CODE_MULTIBYTE :: u8 where "SCAN_CODE_MULTIBYTE \<equiv> 0xE0"

record PS2Keyboard =
  kb_buffer :: "KeyEvent list"
  kb_head :: u8
  kb_tail :: u8
  kb_pending :: u8
  kb_modifiers :: ModifiersState
  kb_bytes :: "u8 list"
  kb_byte_idx :: u8

text \<open>The uninitialised scan code bytes are the argument.\<close>

definition PS2Keyboard_new :: "u8 list \<Rightarrow> PS2Keyboard" where
  "PS2Keyboard_new raw =
     \<lparr>kb_buffer = replicate KEYCODES_BUFFER_LEN
        \<lparr>keycode = 0, released = False, modifiers = \<lparr>ms_shift = False, ms_caps_lock = False\<rparr>\<rparr>,
      kb_head = 0, kb_tail = 0, kb_pending = 0,
      kb_modifiers = \<lparr>ms_shift = False, ms_caps_lock = False\<rparr>, kb_bytes = raw, kb_byte_idx = 0\<rparr>"

definition insert_key_state :: "KeyEvent \<Rightarrow> PS2Keyboard \<Rightarrow> PS2Keyboard result" where
  "insert_key_state e k =
     (if unat (kb_tail k) < length (kb_buffer k)
      then Inr (k\<lparr>kb_pending := kb_pending k + 1, kb_buffer := (kb_buffer k)[unat (kb_tail k) := e],
                  kb_tail := (kb_tail k + 1) mod 20\<rparr>)
      else Inl BadAccess)"

definition keyboard_consume :: "PS2Keyboard \<Rightarrow> (KeyEvent \<times> PS2Keyboard) result" where
  "keyboard_consume k =
     rbind (assert_that (kb_pending k > 0)) (\<lambda>_.
       if unat (kb_head k) < length (kb_buffer k)
       then Inr (kb_buffer k ! unat (kb_head k),
                 k\<lparr>kb_pending := kb_pending k - 1, kb_head := (kb_head k + 1) mod 20\<rparr>)
       else Inl BadAccess)"

definition keyboard_can_consume :: "PS2Keyboard \<Rightarrow> bool" where
  "keyboard_can_consume k \<longleftrightarrow> kb_pending k \<noteq> 0"

definition add_keycode_byte :: "u8 \<Rightarrow> PS2Keyboard \<Rightarrow> PS2Keyboard result" where
  "add_keycode_byte v k =
     rbind (assert_that (unat (kb_byte_idx k) < MAX_NUM_KEYCODE_BYTES)) (\<lambda>_.
       Inr (k\<lparr>kb_bytes := (kb_bytes k)[unat (kb_byte_idx k) := v], kb_byte_idx := kb_byte_idx k + 1\<rparr>))"

definition handle_whole_keycode :: "u8 \<Rightarrow> bool \<Rightarrow> PS2Keyboard \<Rightarrow> PS2Keyboard result" where
  "handle_whole_keycode key_code rel k =
     rbind (insert_key_state \<lparr>keycode = key_code, released = rel, modifiers = kb_modifiers k\<rparr> k) (\<lambda>k.
       Inr (k\<lparr>kb_byte_idx := 0\<rparr>))"

definition update_modifiers :: "u8 \<Rightarrow> bool \<Rightarrow> ModifiersState \<Rightarrow> ModifiersState" where
  "update_modifiers key_code rel m =
     (let m1 = (if key_code = L_SHIFT \<or> key_code = R_SHIFT then m\<lparr>ms_shift := \<not> rel\<rparr> else m)
      in if key_code = CapsLock \<and> rel then m1\<lparr>ms_caps_lock := \<not> ms_caps_lock m1\<rparr> else m1)"

definition on_scan_byte :: "u8 \<Rightarrow> PS2Keyboard \<Rightarrow> PS2Keyboard result" where
  "on_scan_byte v k =
     rbind (add_keycode_byte v k) (\<lambda>k.
       if kb_byte_idx k = 1 then
         (if v = SCAN_CODE_MULTIBYTE then Inr k
          else let rel = get_bit v 7 in
            rbind (from_single (v AND NOT (push_bit 7 1))) (\<lambda>key_code.
            rbind (handle_whole_keycode key_code rel k) (\<lambda>k.
              Inr (k\<lparr>kb_modifiers := update_modifiers key_code rel (kb_modifiers k)\<rparr>))))
       else if kb_byte_idx k = 2 then Inr (k\<lparr>kb_byte_idx := 0\<rparr>)
       else Inl NotReached)"

section \<open>The keyboard's devices\<close>

text \<open>
  A read blocks in \<^verbatim>\<open>block_current\<close> until \<^verbatim>\<open>can_consume\<close>; the state in which it waits is \<open>None\<close>.
  The ASCII device drops releases and keys without a character, and may then wait for the next.
\<close>

definition keyboard_read :: "PS2Keyboard \<Rightarrow> (KeyEvent \<times> PS2Keyboard) option result" where
  "keyboard_read k =
     (if \<not> keyboard_can_consume k then Inr None
      else rbind (keyboard_consume k) (\<lambda>r. Inr (Some r)))"

definition KeyboardDevice_read :: "nat \<Rightarrow> PS2Keyboard \<Rightarrow> (nat \<times> KeyEvent \<times> PS2Keyboard) option result" where
  "KeyboardDevice_read count k =
     rbind (assert_that (count = 1)) (\<lambda>_.
     rbind (keyboard_read k) (\<lambda>r. Inr (map_option (\<lambda>(e, k'). (1, e, k')) r)))"

definition KeyboardDevice_can_read :: "PS2Keyboard \<Rightarrow> bool" where
  "KeyboardDevice_can_read k = keyboard_can_consume k"

fun ascii_read_loop :: "nat \<Rightarrow> PS2Keyboard \<Rightarrow> (u8 option \<times> PS2Keyboard) result" where
  "ascii_read_loop 0 k = Inr (None, k)"
| "ascii_read_loop (Suc n) k =
     rbind (keyboard_consume k) (\<lambda>(e, k').
       if released e then ascii_read_loop n k'
       else rbind (to_ascii e) (\<lambda>c.
         if c = 0 then ascii_read_loop n k' else Inr (Some c, k')))"

definition AsciiKeyboardDevice_read :: "nat \<Rightarrow> PS2Keyboard \<Rightarrow> (u8 option \<times> PS2Keyboard) result" where
  "AsciiKeyboardDevice_read count k =
     rbind (assert_that (count = 1)) (\<lambda>_. ascii_read_loop (unat (kb_pending k)) k)"

definition KeyboardDevice_write :: "string \<Rightarrow> nat \<Rightarrow> int result" where
  "KeyboardDevice_write data count = Inl NotImplemented"

definition KeyboardDevice_ioctl :: "u32 \<Rightarrow> int result" where
  "KeyboardDevice_ioctl request = Inl NotImplemented"

section \<open>The mouse\<close>

abbreviation MOUSE_EVENTS_BUFFER_LEN :: nat where "MOUSE_EVENTS_BUFFER_LEN \<equiv> 20"

record RawMouseEvent =
  delta_x :: u32
  delta_y :: u32
  left_button :: bool
  right_button :: bool

record PS2Mouse =
  mouse_buffer :: "RawMouseEvent list"
  mouse_idx :: u8
  mouse_pending :: u8

definition PS2Mouse_new :: PS2Mouse where
  "PS2Mouse_new =
     \<lparr>mouse_buffer = replicate MOUSE_EVENTS_BUFFER_LEN
        \<lparr>delta_x = 0, delta_y = 0, left_button = False, right_button = False\<rparr>,
      mouse_idx = 0, mouse_pending = 0\<rparr>"

definition insert_mouse_event :: "RawMouseEvent \<Rightarrow> PS2Mouse \<Rightarrow> PS2Mouse result" where
  "insert_mouse_event e m =
     (if unat (mouse_idx m) < length (mouse_buffer m)
      then Inr (m\<lparr>mouse_pending := mouse_pending m + 1, mouse_buffer := (mouse_buffer m)[unat (mouse_idx m) := e],
                  mouse_idx := (mouse_idx m + 1) mod 20\<rparr>)
      else Inl BadAccess)"

text \<open>The index minus one is an \<^verbatim>\<open>int\<close>, which the unsigned modulus converts to 32 bits.\<close>

definition mouse_consume :: "PS2Mouse \<Rightarrow> (RawMouseEvent \<times> PS2Mouse) result" where
  "mouse_consume m =
     rbind (assert_that (mouse_pending m > 0)) (\<lambda>_.
       let idx = ucast ((ucast (mouse_idx m) - 1 :: u32) mod 20) in
       if unat idx < length (mouse_buffer m)
       then Inr (mouse_buffer m ! unat idx, m\<lparr>mouse_pending := mouse_pending m - 1, mouse_idx := idx\<rparr>)
       else Inl BadAccess)"

definition mouse_can_consume :: "PS2Mouse \<Rightarrow> bool" where
  "mouse_can_consume m \<longleftrightarrow> mouse_pending m \<noteq> 0"

definition mouse_event_of :: "u8 \<Rightarrow> u8 \<Rightarrow> u8 \<Rightarrow> RawMouseEvent" where
  "mouse_event_of b1 b2 b3 =
     \<lparr>delta_x = (if \<not> bit b1 4 then ucast b2 else 0xffffff00 OR ucast b2),
      delta_y = (if \<not> bit b1 5 then ucast b3 else 0xffffff00 OR ucast b3),
      left_button = bit b1 0, right_button = bit b1 1\<rparr>"

definition isr_ps2_mouse_handler :: "u8 \<Rightarrow> u8 \<Rightarrow> u8 \<Rightarrow> u8 \<Rightarrow> PS2Mouse \<Rightarrow> PS2Mouse result" where
  "isr_ps2_mouse_handler status b1 b2 b3 m =
     (if \<not> (status AND 1 \<noteq> 0 \<and> status AND 0x20 \<noteq> 0) then Inr m
      else insert_mouse_event (mouse_event_of b1 b2 b3) m)"

definition MouseDevice_read :: "nat \<Rightarrow> PS2Mouse \<Rightarrow> (nat \<times> RawMouseEvent \<times> PS2Mouse) option result" where
  "MouseDevice_read count m =
     rbind (assert_that (count = 1)) (\<lambda>_.
       if \<not> mouse_can_consume m then Inr None
       else rbind (mouse_consume m) (\<lambda>(e, m'). Inr (Some (1, e, m'))))"

definition MouseDevice_can_read :: "PS2Mouse \<Rightarrow> bool" where
  "MouseDevice_can_read m = mouse_can_consume m"

section \<open>The keyboard is a queue of decoded keys\<close>

datatype keyboard_op = Scan u8 | Consume

fun keyboard_step :: "keyboard_op \<Rightarrow> PS2Keyboard \<Rightarrow> (KeyEvent option \<times> PS2Keyboard) result" where
  "keyboard_step (Scan b) k = rbind (on_scan_byte b k) (\<lambda>k'. Inr (None, k'))"
| "keyboard_step Consume k = rbind (keyboard_consume k) (\<lambda>(e, k'). Inr (Some e, k'))"

text \<open>
  The abstract keyboard: the events not yet consumed, the modifiers, and whether the last byte
  was the prefix of a two-byte code, whose second byte is dropped.
\<close>

record key_queue =
  kq_events :: "KeyEvent list"
  kq_modifiers :: ModifiersState
  kq_prefix :: bool

definition key_of :: "u8 \<Rightarrow> u8" where
  "key_of b = key_map_set1 ! unat (take_bit 7 b)"

fun keyboard_spec :: "keyboard_op \<Rightarrow> key_queue \<Rightarrow> (KeyEvent option \<times> key_queue) result" where
  "keyboard_spec (Scan b) q =
     Inr (None,
       if kq_prefix q then q\<lparr>kq_prefix := False\<rparr>
       else if b = SCAN_CODE_MULTIBYTE then q\<lparr>kq_prefix := True\<rparr>
       else q\<lparr>kq_events := kq_events q @ [\<lparr>keycode = key_of b, released = bit b 7, modifiers = kq_modifiers q\<rparr>],
              kq_modifiers := update_modifiers (key_of b) (bit b 7) (kq_modifiers q)\<rparr>)"
| "keyboard_spec Consume q =
     (case kq_events q of [] \<Rightarrow> Inl AssertionFailed
      | e # es \<Rightarrow> Inr (Some e, q\<lparr>kq_events := es\<rparr>))"

text \<open>The ring has twenty cells and does not check for an overrun.\<close>

fun room_for_op :: "keyboard_op \<Rightarrow> key_queue \<Rightarrow> bool" where
  "room_for_op (Scan b) q \<longleftrightarrow> length (kq_events q) < 20"
| "room_for_op Consume q \<longleftrightarrow> True"

definition keyboard_rel :: "PS2Keyboard \<Rightarrow> key_queue \<Rightarrow> bool" where
  "keyboard_rel k q \<longleftrightarrow> length (kb_buffer k) = 20 \<and> length (kb_bytes k) = 6 \<and> unat (kb_head k) < 20
     \<and> length (kq_events q) \<le> 20 \<and> unat (kb_pending k) = length (kq_events q)
     \<and> unat (kb_tail k) = (unat (kb_head k) + length (kq_events q)) mod 20
     \<and> (\<forall>i < length (kq_events q). kb_buffer k ! ((unat (kb_head k) + i) mod 20) = kq_events q ! i)
     \<and> kb_modifiers k = kq_modifiers q \<and> kb_byte_idx k = (if kq_prefix q then 1 else 0)"

lemma length_key_map: "length key_map_set1 = 128"
  by code_simp

lemma ring_succ: "unat w < 20 \<Longrightarrow> unat ((w + 1) mod 20) = (unat w + 1) mod 20" for w :: u8
  by (simp add: unat_mod_distrib unat_word_ariths)

lemma ring_distinct: "i < n \<Longrightarrow> n < 20 \<Longrightarrow> (h + i) mod 20 \<noteq> (h + n) mod (20 :: nat)"
  using mod_eq_dvd_iff_nat [of "h + i" "h + n" 20] by (auto dest: dvd_imp_le)

lemma from_single_key: "from_single (v AND - 129) = Inr (key_of v)" for v :: u8
proof -
  have "(- 129 :: u8) = mask 7" by (simp add: mask_eq_exp_minus_1)
  then have "v AND - 129 = take_bit 7 v" by (simp only: take_bit_eq_mask)
  moreover have "unat (take_bit 7 v) < 128"
    using unsigned_take_bit_eq [of 7 v, where 'a = nat] by (simp add: take_bit_eq_mod)
  ultimately show ?thesis by (simp add: from_single_def key_of_def length_key_map)
qed

lemma insert_key_ok:
  assumes "keyboard_rel k q" "length (kq_events q) < 20"
  shows "\<exists>k'. insert_key_state e k = Inr k' \<and> keyboard_rel k' (q\<lparr>kq_events := kq_events q @ [e]\<rparr>)"
proof -
  let ?n = "length (kq_events q)" and ?h = "unat (kb_head k)"
  have r: "length (kb_buffer k) = 20" "unat (kb_pending k) = ?n" "unat (kb_tail k) = (?h + ?n) mod 20" "?h < 20"
    using assms(1) by (simp_all add: keyboard_rel_def)
  then have t: "unat (kb_tail k) < 20" by simp
  have "unat (kb_pending k + 1) = ?n + 1" using r(2) assms(2) by (simp add: unat_word_ariths)
  moreover have "unat ((kb_tail k + 1) mod 20) = (?h + (?n + 1)) mod 20"
    using ring_succ [OF t] r(3) by (simp add: mod_Suc_eq)
  moreover have "(kb_buffer k)[(?h + ?n) mod 20 := e] ! ((?h + i) mod 20) = (kq_events q @ [e]) ! i" if "i < ?n + 1" for i
  proof (cases "i = ?n")
    case False
    then have "i < ?n" using that by simp
    then show ?thesis using assms(1) ring_distinct [of i ?n ?h] assms(2) by (simp add: keyboard_rel_def nth_append)
  qed (use r(1) in simp)
  ultimately show ?thesis using assms r t by (auto simp: insert_key_state_def keyboard_rel_def)
qed

lemma consume_key_ok:
  assumes "keyboard_rel k q"
  shows "kq_events q = [] \<Longrightarrow> keyboard_consume k = Inl AssertionFailed"
    and "kq_events q = e # es \<Longrightarrow> \<exists>k'. keyboard_consume k = Inr (e, k') \<and> keyboard_rel k' (q\<lparr>kq_events := es\<rparr>)"
proof -
  have pend: "unat (kb_pending k) = length (kq_events q)" using assms by (simp add: keyboard_rel_def)
  show "kq_events q = [] \<Longrightarrow> keyboard_consume k = Inl AssertionFailed"
    using pend by (simp add: keyboard_consume_def word_less_nat_alt)
  assume q: "kq_events q = e # es"
  let ?h = "unat (kb_head k)"
  have h: "?h < 20" using assms by (simp add: keyboard_rel_def)
  have cells: "kb_buffer k ! ((?h + i) mod 20) = (e # es) ! i" if "i < Suc (length es)" for i
    using assms that q by (simp add: keyboard_rel_def)
  have "kb_pending k > 0" using pend q by (simp add: word_less_nat_alt)
  moreover have "unat (kb_pending k - 1) = length es"
    using pend q by (simp add: unat_sub word_le_nat_alt)
  moreover have "kb_buffer k ! (((?h + 1) mod 20 + i) mod 20) = es ! i" if "i < length es" for i
    using cells [of "Suc i"] that by (simp add: mod_simps)
  moreover have "kb_buffer k ! ?h = e" using cells [of 0] h by simp
  moreover have "(?h + length (e # es)) mod 20 = ((?h + 1) mod 20 + length es) mod 20" by (simp add: mod_simps)
  ultimately show "\<exists>k'. keyboard_consume k = Inr (e, k') \<and> keyboard_rel k' (q\<lparr>kq_events := es\<rparr>)"
    using assms q h ring_succ [OF h] by (simp add: keyboard_consume_def keyboard_rel_def)
qed

lemma scan_ok:
  assumes rel: "keyboard_rel k q" and room: "length (kq_events q) < 20"
  shows "\<exists>k'. on_scan_byte b k = Inr k' \<and> keyboard_rel k' (snd (projr (keyboard_spec (Scan b) q)))"
proof (cases "kq_prefix q")
  case True
  then have idx: "kb_byte_idx k = 1" using rel by (simp add: keyboard_rel_def)
  have "add_keycode_byte b k = Inr (k\<lparr>kb_bytes := (kb_bytes k)[1 := b], kb_byte_idx := 2\<rparr>)"
    using idx by (simp add: add_keycode_byte_def)
  then show ?thesis using rel True by (auto simp: on_scan_byte_def keyboard_rel_def)
next
  case False
  then have idx: "kb_byte_idx k = 0" using rel by (simp add: keyboard_rel_def)
  let ?k = "k\<lparr>kb_bytes := (kb_bytes k)[0 := b], kb_byte_idx := 1\<rparr>"
  have add: "add_keycode_byte b k = Inr ?k"
    using idx by (simp add: add_keycode_byte_def)
  show ?thesis
  proof (cases "b = SCAN_CODE_MULTIBYTE")
    case True
    then show ?thesis using rel False add by (auto simp: on_scan_byte_def keyboard_rel_def)
  next
    case nomulti: False
    let ?e = "\<lparr>keycode = key_of b, released = bit b 7, modifiers = kq_modifiers q\<rparr>"
    have mods: "kb_modifiers k = kq_modifiers q" using rel by (simp add: keyboard_rel_def)
    obtain k' where k': "insert_key_state ?e k = Inr k'" "keyboard_rel k' (q\<lparr>kq_events := kq_events q @ [?e]\<rparr>)"
      using insert_key_ok [OF rel room] by blast
    have "insert_key_state ?e ?k = Inr (k'\<lparr>kb_bytes := (kb_bytes k)[0 := b], kb_byte_idx := 1\<rparr>)"
      using k'(1) by (auto simp: insert_key_state_def split: if_splits)
    then have "on_scan_byte b k = Inr (k'\<lparr>kb_bytes := (kb_bytes k)[0 := b], kb_byte_idx := 0,
        kb_modifiers := update_modifiers (key_of b) (bit b 7) (kb_modifiers k')\<rparr>)"
      using add nomulti mods
      by (simp add: on_scan_byte_def handle_whole_keycode_def Let_def from_single_key del: rbind_Inr_iff)
    then show ?thesis using k'(2) False nomulti rel by (auto simp: keyboard_rel_def)
  qed
qed

interpretation keyboard: stepwise_refinement keyboard_rel keyboard_step keyboard_spec room_for_op
proof
  fix k q op e
  assume "keyboard_rel k q" "room_for_op op q" "keyboard_spec op q = Inl e"
  then show "keyboard_step op k = Inl e"
    using consume_key_ok(1) [of k q] by (cases op) (auto split: list.splits)
next
  fix k q op r q'
  assume rel: "keyboard_rel k q" and room: "room_for_op op q" and spec: "keyboard_spec op q = Inr (r, q')"
  show "\<exists>k'. keyboard_step op k = Inr (r, k') \<and> keyboard_rel k' q'"
  proof (cases op)
    case (Scan b)
    then show ?thesis using scan_ok [OF rel, of b] room spec by auto
  next
    case Consume
    then show ?thesis using consume_key_ok(2) [OF rel] spec by (auto split: list.splits)
  qed
qed

definition empty_queue :: key_queue where
  "empty_queue = \<lparr>kq_events = [], kq_modifiers = \<lparr>ms_shift = False, ms_caps_lock = False\<rparr>, kq_prefix = False\<rparr>"

lemma new_keyboard: "length raw = 6 \<Longrightarrow> keyboard_rel (PS2Keyboard_new raw) empty_queue"
  by (simp add: keyboard_rel_def PS2Keyboard_new_def empty_queue_def)

text \<open>
  C35: The keyboard is a queue of decoded keys: for every sequence of scan bytes and reads from a
  new keyboard in which no more than twenty events wait at a time, no step fails but a read of
  the empty queue, and every read returns the oldest event not yet read, with the key of the
  scan code's table, whether it was released, and the modifiers as they were at that time.
\<close>

theorem keyboard_is_queue:
  assumes "length raw = 6" "ops_ok keyboard_spec room_for_op ops empty_queue"
  shows "map_sum id fst (run_ops keyboard_step ops (PS2Keyboard_new raw))
    = map_sum id fst (run_ops keyboard_spec ops empty_queue)"
  by (rule keyboard.run_refines [OF new_keyboard [OF assms(1)] assms(2)])

text \<open>Shift down, the key a, shift up, then the key a: the first a has the modifier.\<close>

theorem keyboard_is_queue_witness:
  "map_sum id fst (run_ops keyboard_step [Scan 0x2A, Scan 0x1E, Scan 0xAA, Consume, Consume] (PS2Keyboard_new (replicate 6 0)))
    = Inr [None, None, None,
        Some \<lparr>keycode = L_SHIFT, released = False, modifiers = \<lparr>ms_shift = False, ms_caps_lock = False\<rparr>\<rparr>,
        Some \<lparr>keycode = 97, released = False, modifiers = \<lparr>ms_shift = True, ms_caps_lock = False\<rparr>\<rparr>]"
proof -
  let ?ops = "[Scan 0x2A, Scan 0x1E, Scan 0xAA, Consume, Consume]"
  have keys: "key_of 0x2A = L_SHIFT" "key_of 0x1E = 97" "key_of 0xAA = L_SHIFT" by code_simp+
  have "ops_ok keyboard_spec room_for_op ?ops empty_queue"
    by (simp add: empty_queue_def keys)
  moreover have "map_sum id fst (run_ops keyboard_spec ?ops empty_queue) = Inr [None, None, None,
        Some \<lparr>keycode = L_SHIFT, released = False, modifiers = \<lparr>ms_shift = False, ms_caps_lock = False\<rparr>\<rparr>,
        Some \<lparr>keycode = 97, released = False, modifiers = \<lparr>ms_shift = True, ms_caps_lock = False\<rparr>\<rparr>]"
    by (simp add: empty_queue_def keys update_modifiers_def)
  ultimately show ?thesis using keyboard_is_queue [of "replicate 6 0" ?ops] by simp
qed

section \<open>Typed text\<close>

lemma to_ascii_total: "\<exists>c. to_ascii e = Inr c"
  by (auto simp: to_ascii_def ascii_to_upper_def assert_that_def)

fun next_char :: "KeyEvent list \<Rightarrow> u8 option \<times> KeyEvent list" where
  "next_char [] = (None, [])"
| "next_char (e # es) =
     (if released e \<or> projr (to_ascii e) = 0 then next_char es else (Some (projr (to_ascii e)), es))"

text \<open>The ASCII device reads the next event that is a key pressed with a character.\<close>

lemma ascii_read_ok:
  "keyboard_rel k q \<Longrightarrow> kq_events q = es \<Longrightarrow>
    \<exists>k'. ascii_read_loop (length es) k = Inr (fst (next_char es), k')
      \<and> keyboard_rel k' (q\<lparr>kq_events := snd (next_char es)\<rparr>)"
proof (induction es arbitrary: k q)
  case Nil
  then have "q\<lparr>kq_events := []\<rparr> = q" by (cases q) simp
  with Nil(1) show ?case by simp
next
  case (Cons e es)
  obtain k1 where k1: "keyboard_consume k = Inr (e, k1)" "keyboard_rel k1 (q\<lparr>kq_events := es\<rparr>)"
    using consume_key_ok(2) [OF Cons.prems] by blast
  obtain c where c: "to_ascii e = Inr c" using to_ascii_total by blast
  show ?case using Cons.IH [OF k1(2)] k1 c by (auto simp del: rbind_Inr_iff)
qed

definition press :: "u8 \<Rightarrow> KeyEvent" where
  "press b = \<lparr>keycode = key_of b, released = False, modifiers = \<lparr>ms_shift = False, ms_caps_lock = False\<rparr>\<rparr>"

definition release :: "u8 \<Rightarrow> KeyEvent" where
  "release b = (press b)\<lparr>released := True\<rparr>"

text \<open>The scan code of a key with a character.\<close>

definition text_key :: "u8 \<Rightarrow> bool" where
  "text_key b \<longleftrightarrow> b < 128 \<and> b \<noteq> 0x60 \<and> key_of b \<noteq> 0 \<and> key_of b < 128"

lemma small_byte: "b < 128 \<Longrightarrow> take_bit 7 b = b \<and> \<not> bit b 7" for b :: u8
proof -
  assume "b < 128"
  then have "unat (take_bit 7 b) = unat b"
    by (simp add: unsigned_take_bit_eq take_bit_nat_eq_self word_less_nat_alt)
  then have "take_bit 7 b = b" by (simp add: word_unat_eq_iff)
  then show ?thesis using bit_take_bit_iff [of 7 b 7] by simp
qed

lemma text_key_spec:
  assumes "text_key b" "\<not> kq_prefix q" "kq_modifiers q = \<lparr>ms_shift = False, ms_caps_lock = False\<rparr>"
  shows "keyboard_spec (Scan b) q = Inr (None, q\<lparr>kq_events := kq_events q @ [press b]\<rparr>)"
    and "keyboard_spec (Scan (b OR 128)) q = Inr (None, q\<lparr>kq_events := kq_events q @ [release b]\<rparr>)"
proof -
  have b: "b < 128" "b \<noteq> 0x60" using assms(1) by (simp_all add: text_key_def)
  have tb: "take_bit 7 (b OR 128) = b" using small_byte [OF b(1)] by (simp add: take_bit_or)
  have up: "bit (b OR 128) 7" by (simp add: bit_or_iff)
  have "b OR 128 \<noteq> 0xE0"
  proof
    assume "b OR 128 = 0xE0"
    then have "take_bit 7 (0xE0 :: u8) = b" using tb by simp
    then show False using b(2) by simp
  qed
  moreover have "b \<noteq> 0xE0" using b(1) by auto
  moreover note small_byte [OF b(1)] tb up
  moreover have mods: "update_modifiers (key_of b) r m = m" for r m
    using assms(1) by (auto simp: update_modifiers_def text_key_def)
  ultimately show "keyboard_spec (Scan b) q = Inr (None, q\<lparr>kq_events := kq_events q @ [press b]\<rparr>)"
    "keyboard_spec (Scan (b OR 128)) q = Inr (None, q\<lparr>kq_events := kq_events q @ [release b]\<rparr>)"
    using assms(2,3) by (auto simp: press_def release_def key_of_def)
qed

lemma typing_ok:
  assumes "\<forall>b \<in> set codes. text_key b"
  shows "keyboard_rel k q \<Longrightarrow> \<not> kq_prefix q \<Longrightarrow> kq_modifiers q = \<lparr>ms_shift = False, ms_caps_lock = False\<rparr> \<Longrightarrow>
    length (kq_events q) + 2 * length codes \<le> 20 \<Longrightarrow>
    \<exists>k'. rfold on_scan_byte (concat (map (\<lambda>b. [b, b OR 128]) codes)) k = Inr k'
      \<and> keyboard_rel k' (q\<lparr>kq_events := kq_events q @ concat (map (\<lambda>b. [press b, release b]) codes)\<rparr>)"
  using assms
proof (induction codes arbitrary: k q)
  case Nil
  then show ?case by simp
next
  case (Cons b codes)
  let ?q1 = "q\<lparr>kq_events := kq_events q @ [press b]\<rparr>" and ?q2 = "q\<lparr>kq_events := kq_events q @ [press b, release b]\<rparr>"
  have b: "text_key b" using Cons.prems(5) by simp
  obtain k1 where k1: "on_scan_byte b k = Inr k1" "keyboard_rel k1 ?q1"
    using scan_ok [OF Cons.prems(1), of b] Cons.prems(4) text_key_spec(1) [OF b Cons.prems(2,3)] by auto
  obtain k2 where k2: "on_scan_byte (b OR 128) k1 = Inr k2" "keyboard_rel k2 ?q2"
    using scan_ok [OF k1(2), of "b OR 128"] Cons.prems(2-4) text_key_spec(2) [OF b, of ?q1] by auto
  show ?case using Cons.IH [OF k2(2)] Cons.prems(2-5) k1(1) k2(1) by simp
qed

lemma next_char_skips: "\<forall>e \<in> set es. released e \<Longrightarrow> next_char (es @ fs) = next_char fs"
  by (induction es) auto

lemma next_char_press:
  assumes "text_key b"
  shows "next_char (press b # es) = (Some (key_of b), es)"
proof -
  have "key_of b \<noteq> 0" "\<not> bit (key_of b) 7" using assms small_byte [of "key_of b"] by (simp_all add: text_key_def)
  then show ?thesis by (simp add: press_def to_ascii_def)
qed

definition ascii_step :: "unit \<Rightarrow> PS2Keyboard \<Rightarrow> (u8 option \<times> PS2Keyboard) result" where
  "ascii_step _ k = AsciiKeyboardDevice_read 1 k"

lemma ascii_reads_ok:
  assumes "\<forall>b \<in> set codes. text_key b"
  shows "keyboard_rel k q \<Longrightarrow> kq_events q = pre @ concat (map (\<lambda>b. [press b, release b]) codes) \<Longrightarrow>
    \<forall>e \<in> set pre. released e \<Longrightarrow>
    \<exists>k'. run_ops ascii_step (replicate (length codes) ()) k = Inr (map (\<lambda>b. Some (key_of b)) codes, k')"
  using assms
proof (induction codes arbitrary: k q pre)
  case (Cons b codes)
  let ?rest = "concat (map (\<lambda>b. [press b, release b]) codes)"
  have b: "text_key b" using Cons.prems(4) by simp
  have nc: "next_char (kq_events q) = (Some (key_of b), [release b] @ ?rest)"
    using Cons.prems(2,3) next_char_skips [of pre] next_char_press [OF b] by simp
  have "unat (kb_pending k) = length (kq_events q)" using Cons.prems(1) by (simp add: keyboard_rel_def)
  then obtain k' where k': "ascii_step () k = Inr (Some (key_of b), k')"
    "keyboard_rel k' (q\<lparr>kq_events := [release b] @ ?rest\<rparr>)"
    using ascii_read_ok [OF Cons.prems(1) refl] nc by (auto simp: ascii_step_def AsciiKeyboardDevice_read_def)
  show ?case using Cons.IH [OF k'(2), of "[release b]"] Cons.prems(4) k'(1) by (auto simp: release_def)
qed simp

text \<open>
  C13: Typed text is read: when up to ten keys that have a character are pressed and released on a
  new keyboard, the scan codes are accepted and as many reads of the ASCII device as keys return
  the characters of the keys in the order in which they were typed, without blocking.
\<close>

theorem typed_text_is_read:
  assumes "length raw = 6" "length codes \<le> 10" "\<forall>b \<in> set codes. text_key b"
  shows "\<exists>k k'. rfold on_scan_byte (concat (map (\<lambda>b. [b, b OR 128]) codes)) (PS2Keyboard_new raw) = Inr k
    \<and> run_ops ascii_step (replicate (length codes) ()) k = Inr (map (\<lambda>b. Some (key_of b)) codes, k')"
proof -
  obtain k where k: "rfold on_scan_byte (concat (map (\<lambda>b. [b, b OR 128]) codes)) (PS2Keyboard_new raw) = Inr k"
    "keyboard_rel k (empty_queue\<lparr>kq_events := concat (map (\<lambda>b. [press b, release b]) codes)\<rparr>)"
    using typing_ok [OF assms(3) new_keyboard [OF assms(1)]] assms(2) by (auto simp: empty_queue_def)
  then show ?thesis using ascii_reads_ok [OF assms(3) k(2), of "[]"] by auto
qed

text \<open>The keys o and k.\<close>

theorem typed_text_is_read_witness:
  "\<exists>k k'. rfold on_scan_byte [0x18, 0x98, 0x25, 0xA5] (PS2Keyboard_new (replicate 6 0)) = Inr k
    \<and> run_ops ascii_step [(), ()] k = Inr (map (Some \<circ> byte_of_char) ''ok'', k')"
proof -
  have keys: "key_of 0x18 = byte_of_char CHR ''o''" "key_of 0x25 = byte_of_char CHR ''k''"
    "text_key 0x18" "text_key 0x25" by code_simp+
  show ?thesis using typed_text_is_read [of "replicate 6 0" "[0x18, 0x25]"] keys by simp
qed

section \<open>Mouse events\<close>

text \<open>The third and fourth bits of the first byte are the signs of nine-bit movements.\<close>

lemma mouse_delta:
  "sint (delta_x (mouse_event_of b1 b2 b3)) = (if bit b1 4 then int (unat b2) - 256 else int (unat b2))"
  "sint (delta_y (mouse_event_of b1 b2 b3)) = (if bit b1 5 then int (unat b3) - 256 else int (unat b3))"
proof -
  have small: "0 \<le> uint b" "uint b < 256" for b :: u8
    using unsigned_less [of b, where 'a = int] by simp_all
  have pos: "sint (ucast b :: u32) = int (unat b)" for b :: u8
  proof -
    have "signed_take_bit 31 (uint b) = uint b"
      using small [of b] order_trans [OF _ small(1) [of b], of "- (2 ^ 31)"] by (intro signed_take_bit_int_eq_self) simp_all
    then show ?thesis by (simp add: signed_ucast_eq)
  qed
  have "0xffffff00 OR ucast b = (ucast b - 256 :: u32)" for b :: u8
  proof -
    have "(0xffffff00 :: u32) AND ucast b = 0"
    proof -
      have m: "(0xffffff00 :: u32) = NOT (mask 8)" by (simp add: mask_eq_exp_minus_1)
      show ?thesis unfolding m by (rule bit_word_eqI) (auto simp: bit_simps dest: bit_imp_le_length)
    qed
    then have "0xffffff00 OR ucast b = (0xffffff00 + ucast b :: u32)"
      by (rule disjunctive_add_eq_or [symmetric])
    then show ?thesis by simp
  qed
  then have or: "0xffffff00 OR ucast b = (word_of_int (uint b - 256) :: u32)" for b :: u8
    by simp
  have neg: "sint (0xffffff00 OR ucast b :: u32) = int (unat b) - 256" for b :: u8
  proof -
    have "signed_take_bit 31 (uint b - 256) = uint b - 256"
      using small [of b] order_trans [OF _ small(1) [of b], of "- (2 ^ 31) + 256"]
      by (intro signed_take_bit_int_eq_self) simp_all
    then show ?thesis unfolding or by (subst signed_of_int) simp
  qed
  show "sint (delta_x (mouse_event_of b1 b2 b3)) = (if bit b1 4 then int (unat b2) - 256 else int (unat b2))"
    "sint (delta_y (mouse_event_of b1 b2 b3)) = (if bit b1 5 then int (unat b3) - 256 else int (unat b3))"
    by (simp_all add: mouse_event_of_def pos neg)
qed

text \<open>
  The newest event is read first. The index wraps around to 15 instead of 19 when the ring is
  read backwards over its start, so an event in the last cell is not the one read.
\<close>

lemma mouse_newest_first:
  assumes "insert_mouse_event e m = Inr m1" "length (mouse_buffer m) = 20" "unat (mouse_idx m) < 20"
    "mouse_pending m \<noteq> 255"
  shows "\<exists>m2. mouse_consume m1 = Inr (if mouse_idx m = 19 then mouse_buffer m ! 15 else e, m2)"
proof -
  let ?i = "unat (mouse_idx m)"
  have m1: "m1 = m\<lparr>mouse_pending := mouse_pending m + 1, mouse_buffer := (mouse_buffer m)[?i := e],
      mouse_idx := (mouse_idx m + 1) mod 20\<rparr>"
    using assms(1-3) by (simp add: insert_mouse_event_def)
  have "unat (mouse_pending m) \<noteq> 255" using assms(4) by (simp add: word_unat_eq_iff)
  then have "unat (mouse_pending m) + 1 < 256" using unat_u8_less [of "mouse_pending m"] by linarith
  then have "mouse_pending m + 1 \<noteq> 0" by (simp add: word_unat_eq_iff unat_word_ariths)
  then have pend: "mouse_pending m1 > 0" using m1 by (simp add: word_gt_0)
  show ?thesis
  proof (cases "mouse_idx m = 19")
    case True
    then have "mouse_idx m1 = 0" using m1 by simp
    then show ?thesis using True pend m1 assms(2) by (simp add: mouse_consume_def)
  next
    case False
    then have i: "?i < 19" using assms(3) by (simp add: word_unat_eq_iff)
    have "unat (mouse_idx m1) = ?i + 1" using m1 i by (simp add: unat_mod_distrib unat_word_ariths)
    then have "unat ((ucast (mouse_idx m1) - 1 :: u32) mod 20) = ?i"
      using i by (simp add: unat_mod_distrib unat_sub word_le_nat_alt unat_ucast_up)
    then have "unat (ucast ((ucast (mouse_idx m1) - 1 :: u32) mod 20) :: u8) = ?i"
      using i by (simp add: unsigned_ucast_eq take_bit_nat_eq_self)
    then show ?thesis using False pend m1 assms(2) i by (simp add: mouse_consume_def Let_def)
  qed
qed

end
