(* ===== verification/Terminal.thy ===== *)
theory Terminal
  imports CStrings
begin

text \<open>
  The text screen: \<^verbatim>\<open>kernel/drivers/VgaText.cpp\<close>, \<^verbatim>\<open>libc/VgaTextCommon.cpp\<close>, the terminal of
  \<^verbatim>\<open>kernel/HAL/VgaTTY.cpp\<close> and the device of \<^verbatim>\<open>VgaTextDevice.cpp\<close>. The text buffer of the card is a
  list of 80 * 25 cells; the cursor is the number the code writes to the card's registers.
\<close>

section \<open>The text buffer\<close>

abbreviation VGA_WIDTH :: nat where "VGA_WIDTH \<equiv> 80"
abbreviation VGA_HEIGHT :: nat where "VGA_HEIGHT \<equiv> 25"

record vga_text =
  vga_cells :: "u16 list"
  vga_cursor :: u16

definition compose_color :: "u8 \<Rightarrow> u8 \<Rightarrow> u8" where
  "compose_color fg bg = fg OR push_bit 4 bg"

definition compose_entry :: "u8 \<Rightarrow> u8 \<Rightarrow> u16" where
  "compose_entry uc color = ucast uc OR push_bit 8 (ucast color)"

definition decompose_entry :: "u16 \<Rightarrow> u8 \<times> u8" where
  "decompose_entry entry = (ucast (entry AND 0xff), ucast (drop_bit 8 entry AND 0xffff))"

definition put_cell :: "nat \<Rightarrow> u16 \<Rightarrow> vga_text \<Rightarrow> vga_text result" where
  "put_cell i e v =
     (if i < length (vga_cells v) then Inr (v\<lparr>vga_cells := (vga_cells v)[i := e]\<rparr>) else Inl BadAccess)"

definition VgaText_clear :: "u8 \<Rightarrow> vga_text \<Rightarrow> vga_text result" where
  "VgaText_clear color v =
     rfold (\<lambda>y v. rfold (\<lambda>x v. put_cell (y * VGA_WIDTH + x) (compose_entry (byte_of_char CHR '' '') color) v)
       [0..<VGA_WIDTH] v) [0..<VGA_HEIGHT] v"

definition VgaText_update_cursor :: "nat \<Rightarrow> nat \<Rightarrow> vga_text \<Rightarrow> vga_text" where
  "VgaText_update_cursor x y v =
     (let pos = word_of_nat (y * VGA_WIDTH + x) :: u16 in
      v\<lparr>vga_cursor := ucast (ucast (pos AND 0xFF) :: u8) OR push_bit 8 (ucast (ucast (drop_bit 8 pos AND 0xFF) :: u8))\<rparr>)"

definition VgaText_putchar :: "u8 \<Rightarrow> u8 \<Rightarrow> nat \<Rightarrow> nat \<Rightarrow> vga_text \<Rightarrow> vga_text result" where
  "VgaText_putchar c color x y v = put_cell (y * VGA_WIDTH + x) (compose_entry c color) v"

definition VgaText_get_entry :: "nat \<Rightarrow> nat \<Rightarrow> vga_text \<Rightarrow> u16 result" where
  "VgaText_get_entry x y v =
     (let i = y * VGA_WIDTH + x in if i < length (vga_cells v) then Inr (vga_cells v ! i) else Inl BadAccess)"

section \<open>The terminal\<close>

text \<open>The screen that the terminal draws on is the field \<open>tty_text\<close>.\<close>

record VgaTTY =
  tty_row :: nat
  tty_column :: nat
  tty_color :: u8
  tty_text :: vga_text

definition VgaTTY_new :: "vga_text \<Rightarrow> VgaTTY result" where
  "VgaTTY_new v =
     (let color = compose_color 7 0 in
      rbind (VgaText_clear color v) (\<lambda>v'.
        Inr \<lparr>tty_row = 0, tty_column = 0, tty_color = color, tty_text = v'\<rparr>))"

text \<open>The coordinates are passed on as bytes.\<close>

definition tty_putchar_at :: "u8 \<Rightarrow> u8 \<Rightarrow> nat \<Rightarrow> nat \<Rightarrow> VgaTTY \<Rightarrow> VgaTTY result" where
  "tty_putchar_at c color x y t =
     rbind (VgaText_putchar c color (unat (word_of_nat x :: u8)) (unat (word_of_nat y :: u8)) (tty_text t)) (\<lambda>v.
       Inr (t\<lparr>tty_text := v\<rparr>))"

definition tty_get_entry :: "nat \<Rightarrow> nat \<Rightarrow> VgaTTY \<Rightarrow> u16 result" where
  "tty_get_entry x y t = VgaText_get_entry (unat (word_of_nat x :: u8)) (unat (word_of_nat y :: u8)) (tty_text t)"

definition tty_update_cursor :: "nat \<Rightarrow> nat \<Rightarrow> VgaTTY \<Rightarrow> VgaTTY" where
  "tty_update_cursor x y t =
     t\<lparr>tty_text := VgaText_update_cursor (unat (word_of_nat x :: u8)) (unat (word_of_nat y :: u8)) (tty_text t)\<rparr>"

definition tty_clear :: "u8 \<Rightarrow> VgaTTY \<Rightarrow> VgaTTY result" where
  "tty_clear color t =
     rfold (\<lambda>y t. rfold (\<lambda>x t. tty_putchar_at (byte_of_char CHR '' '') color x y t) [0..<VGA_WIDTH] t)
       [0..<VGA_HEIGHT] t"

definition tty_set_color :: "u8 \<Rightarrow> VgaTTY \<Rightarrow> VgaTTY" where
  "tty_set_color color t = t\<lparr>tty_color := color\<rparr>"

definition tty_newline :: "VgaTTY \<Rightarrow> VgaTTY" where
  "tty_newline t = t\<lparr>tty_column := 0, tty_row := tty_row t + 1\<rparr>"

definition move_up :: "nat \<Rightarrow> nat \<Rightarrow> VgaTTY \<Rightarrow> VgaTTY result" where
  "move_up y x t =
     rbind (tty_get_entry x (y + 1) t) (\<lambda>nextline_entry.
       let (uc, color) = decompose_entry nextline_entry in tty_putchar_at uc color x y t)"

definition scrolldown :: "VgaTTY \<Rightarrow> VgaTTY result" where
  "scrolldown t =
     rbind (rfold (\<lambda>y t. rfold (move_up y) [0..<VGA_WIDTH] t) [0..<VGA_HEIGHT - 1] t) (\<lambda>t.
       rfold (\<lambda>x t. tty_putchar_at (byte_of_char CHR '' '') (tty_color t) x (VGA_HEIGHT - 1) t) [0..<VGA_WIDTH] t)"

abbreviation NEWLINE :: u8 where "NEWLINE \<equiv> 10"
abbreviation BACKSPACE :: u8 where "BACKSPACE \<equiv> 8"

definition tty_putchar :: "u8 \<Rightarrow> VgaTTY \<Rightarrow> VgaTTY result" where
  "tty_putchar c t =
     rbind
       (if c = NEWLINE then Inr (tty_newline t)
        else if c = BACKSPACE then
          (let t1 = (if tty_column t > 0 then t\<lparr>tty_column := tty_column t - 1\<rparr>
                     else if tty_row t > 0 then t\<lparr>tty_row := tty_row t - 1, tty_column := VGA_WIDTH - 1\<rparr>
                     else t\<lparr>tty_column := 0\<rparr>)
           in tty_putchar_at (byte_of_char CHR '' '') (tty_color t1) (tty_column t1) (tty_row t1) t1)
        else rbind (tty_putchar_at c (tty_color t) (tty_column t) (tty_row t) t) (\<lambda>t1.
          let t2 = t1\<lparr>tty_column := tty_column t1 + 1\<rparr>
          in Inr (if tty_column t2 = VGA_WIDTH then tty_newline t2 else t2))) (\<lambda>t3.
     rbind
       (if tty_row t3 = VGA_HEIGHT
        then rbind (scrolldown t3) (\<lambda>t4. Inr (t4\<lparr>tty_row := VGA_HEIGHT - 1, tty_column := 0\<rparr>))
        else Inr t3) (\<lambda>t5.
       Inr (tty_update_cursor (tty_column t5) (tty_row t5) t5)))"

definition tty_write :: "u8 list \<Rightarrow> nat \<Rightarrow> VgaTTY \<Rightarrow> VgaTTY result" where
  "tty_write data sz t =
     rfold (\<lambda>i t. if i < length data then tty_putchar (data ! i) t else Inl BadAccess) [0..<sz] t"

section \<open>The devices\<close>

abbreviation TTY_E_INVALID :: int where "TTY_E_INVALID \<equiv> 4"

text \<open>The number of bytes comes back as an \<^verbatim>\<open>int\<close>.\<close>

definition VgaTTYDevice_write :: "u8 list \<Rightarrow> nat \<Rightarrow> VgaTTY \<Rightarrow> (int \<times> VgaTTY) result" where
  "VgaTTYDevice_write data count t = rbind (tty_write data count t) (\<lambda>t'. Inr (sint (word_of_nat count :: u32), t'))"

definition VgaTTYDevice_read :: "nat \<Rightarrow> int" where
  "VgaTTYDevice_read count = TTY_E_INVALID"

definition VgaTTYDevice_ioctl :: "u32 \<Rightarrow> int" where
  "VgaTTYDevice_ioctl request = TTY_E_INVALID"

record ioctl_data =
  io_row :: u8
  io_col :: u8
  io_value :: u16

definition VgaTextDevice_ioctl :: "u32 \<Rightarrow> ioctl_data \<Rightarrow> vga_text \<Rightarrow> (int \<times> ioctl_data \<times> vga_text) result" where
  "VgaTextDevice_ioctl request data v =
     (let row = unat (io_row data); col = unat (io_col data) in
      if row \<ge> VGA_HEIGHT \<or> col \<ge> VGA_WIDTH then Inr (1, data, v)
      else if request = 1 then
        (let (c, color) = decompose_entry (io_value data) in
         rbind (VgaText_putchar c color col row v) (\<lambda>v'. Inr (0, data, v')))
      else if request = 2 then Inl NotImplemented
      else if request = 3 then
        rbind (VgaText_get_entry col row v) (\<lambda>entry.
          let (c, color) = decompose_entry entry in Inr (0, data\<lparr>io_value := ucast c\<rparr>, v))
      else if request = 5 then
        rbind (VgaText_get_entry col row v) (\<lambda>entry. Inr (0, data\<lparr>io_value := entry\<rparr>, v))
      else if request = 6 then Inr (0, data, VgaText_update_cursor col row v)
      else if request = 4 then
        rbind (VgaText_clear (ucast (io_value data)) v) (\<lambda>v'. Inr (0, data, v'))
      else Inl NotReached)"

section \<open>Cells\<close>

lemma entry_parts: "decompose_entry e = (uc, color) \<Longrightarrow> compose_entry uc color = e"
proof -
  assume d: "decompose_entry e = (uc, color)"
  have uc: "uc = ucast e" and co: "color = ucast (drop_bit 8 e)"
    using d by (simp_all add: decompose_entry_def word_and_0xFF word_and_0xFFFF)
      (rule bit_word_eqI, auto simp: bit_simps)+
  show "compose_entry uc color = e"
    unfolding uc co by (rule bit_word_eqI) (auto simp: compose_entry_def bit_simps)
qed

definition tty_ok :: "VgaTTY \<Rightarrow> bool" where
  "tty_ok t \<longleftrightarrow> length (vga_cells (tty_text t)) = 2000 \<and> tty_row t < 25 \<and> tty_column t < 80"

abbreviation tty_cells :: "VgaTTY \<Rightarrow> u16 list" where
  "tty_cells t \<equiv> vga_cells (tty_text t)"

definition set_cells :: "u16 list \<Rightarrow> VgaTTY \<Rightarrow> VgaTTY" where
  "set_cells cs t = t\<lparr>tty_text := (tty_text t)\<lparr>vga_cells := cs\<rparr>\<rparr>"

lemma set_cells_simps [simp]:
  "tty_cells (set_cells cs t) = cs" "tty_row (set_cells cs t) = tty_row t"
  "tty_column (set_cells cs t) = tty_column t" "tty_color (set_cells cs t) = tty_color t"
  "set_cells cs (set_cells ds t) = set_cells cs t" "set_cells (tty_cells t) t = t"
  by (simp_all add: set_cells_def)

lemma unat_coord: "n < 80 \<Longrightarrow> unat (word_of_nat n :: u8) = n"
  by (simp add: unsigned_of_nat take_bit_nat_eq_self)

lemma putchar_at_ok:
  assumes "length (tty_cells t) = 2000" "x < 80" "y < 25"
  shows "tty_putchar_at c color x y t = Inr (set_cells ((tty_cells t)[y * 80 + x := compose_entry c color]) t)"
  using assms unat_coord [of x] unat_coord [of y]
  by (simp add: tty_putchar_at_def VgaText_putchar_def put_cell_def set_cells_def)

lemma get_entry_ok:
  assumes "length (tty_cells t) = 2000" "x < 80" "y < 25"
  shows "tty_get_entry x y t = Inr (tty_cells t ! (y * 80 + x))"
  using assms unat_coord [of x] unat_coord [of y] by (simp add: tty_get_entry_def VgaText_get_entry_def Let_def)

lemma move_up_ok:
  assumes "length (tty_cells t) = 2000" "x < 80" "y < 24"
  shows "move_up y x t = Inr (set_cells ((tty_cells t)[y * 80 + x := tty_cells t ! (y * 80 + x + 80)]) t)"
proof -
  obtain uc color where e: "decompose_entry (tty_cells t ! (y * 80 + x + 80)) = (uc, color)"
    by (cases "decompose_entry (tty_cells t ! (y * 80 + x + 80))") auto
  have g: "tty_get_entry x (y + 1) t = Inr (tty_cells t ! (y * 80 + x + 80))"
    using get_entry_ok [of t x "y + 1"] assms by (simp add: ac_simps)
  show ?thesis using putchar_at_ok [of t x y uc color] assms entry_parts [OF e] e g
    by (simp add: move_up_def del: rbind_Inr_iff)
qed

section \<open>Scrolling\<close>

text \<open>After \<open>i\<close> cells: the cells of the next line are in place up to \<open>i\<close>.\<close>

definition shifted :: "nat \<Rightarrow> u16 list \<Rightarrow> u16 list" where
  "shifted i cs = take i (drop 80 cs) @ drop i cs"

lemma length_shifted: "i + 80 \<le> length cs \<Longrightarrow> length (shifted i cs) = length cs"
  by (simp add: shifted_def)

lemma nth_shifted:
  "i + 80 \<le> length cs \<Longrightarrow> j < length cs \<Longrightarrow> shifted i cs ! j = (if j < i then cs ! (j + 80) else cs ! j)"
  by (simp add: shifted_def nth_append add.commute)

lemma shifted_step:
  assumes "i + 80 < length cs"
  shows "(shifted i cs)[i := shifted i cs ! (i + 80)] = shifted (Suc i) cs"
proof (rule nth_equalityI)
  show "length ((shifted i cs)[i := shifted i cs ! (i + 80)]) = length (shifted (Suc i) cs)"
    using assms by (simp add: length_shifted)
  fix j
  assume "j < length ((shifted i cs)[i := shifted i cs ! (i + 80)])"
  then show "(shifted i cs)[i := shifted i cs ! (i + 80)] ! j = shifted (Suc i) cs ! j"
    using assms by (auto simp: nth_list_update nth_shifted length_shifted)
qed

lemma move_row:
  assumes "length cs = 2000" "y < 24"
  shows "n \<le> 80 \<Longrightarrow> rfold (move_up y) [0..<n] (set_cells (shifted (y * 80) cs) t)
    = Inr (set_cells (shifted (y * 80 + n) cs) t)"
proof (induction n)
  case (Suc n)
  let ?s = "shifted (y * 80 + n) cs"
  have "y * 80 + n + 80 < 2000" using assms(2) Suc.prems by simp
  then show ?case using Suc assms move_up_ok [of "set_cells ?s t" n y] shifted_step [of "y * 80 + n" cs]
    by (simp add: rfold_snoc length_shifted)
qed simp

lemma move_rows:
  assumes "length cs = 2000"
  shows "n \<le> 24 \<Longrightarrow> rfold (\<lambda>y t. rfold (move_up y) [0..<80] t) [0..<n] (set_cells cs t)
    = Inr (set_cells (shifted (n * 80) cs) t)"
proof (induction n)
  case 0
  then show ?case by (simp add: shifted_def)
next
  case (Suc n)
  have step: "rfold (move_up n) [0..<80] (set_cells (shifted (n * 80) cs) t)
      = Inr (set_cells (shifted (n * 80 + 80) cs) t)"
    using move_row [OF assms, of n 80 t] Suc.prems by simp
  have e: "n * 80 + 80 = Suc n * 80" by simp
  show ?case using Suc step unfolding e by (simp add: rfold_snoc del: mult_Suc upt_rec_numeral)
qed

lemma blit_replicate_Suc:
  "b + n < length cs \<Longrightarrow> (blit b (replicate n e) cs)[b + n := e] = blit b (replicate (Suc n) e) cs"
proof (rule nth_equalityI)
  fix j assume "b + n < length cs" "j < length ((blit b (replicate n e) cs)[b + n := e])"
  then show "(blit b (replicate n e) cs)[b + n := e] ! j = blit b (replicate (Suc n) e) cs ! j"
    using nth_blit [of b "replicate n e" cs j] nth_blit [of b "replicate (Suc n) e" cs j]
    by (auto simp: nth_list_update simp del: replicate_Suc)
qed simp

lemma fill_row:
  assumes "length cs = 2000" "y < 25" "\<And>cs. color (set_cells cs t) = color t"
  shows "n \<le> 80 \<Longrightarrow> rfold (\<lambda>x t. tty_putchar_at c (color t) x y t) [0..<n] (set_cells cs t)
    = Inr (set_cells (blit (y * 80) (replicate n (compose_entry c (color t))) cs) t)"
proof (induction n)
  case 0
  then show ?case by (simp add: blit_def)
next
  case (Suc n)
  let ?e = "compose_entry c (color t)"
  have len: "y * 80 + n < 2000" using assms(2) Suc.prems by simp
  have "(blit (y * 80) (replicate n ?e) cs)[y * 80 + n := ?e] = blit (y * 80) (replicate (Suc n) ?e) cs"
    using blit_replicate_Suc [of "y * 80" n cs ?e] assms(1) len by simp
  then show ?case
    using Suc assms putchar_at_ok [of "set_cells (blit (y * 80) (replicate n ?e) cs) t" n y c "color t"] len
    by (simp add: rfold_snoc del: replicate_Suc)
qed

definition blank_row :: "u8 \<Rightarrow> u16 list" where
  "blank_row color = replicate 80 (compose_entry (byte_of_char CHR '' '') color)"

text \<open>Scrolling drops the first line and adds a blank one.\<close>

lemma scrolldown_ok:
  assumes "length (tty_cells t) = 2000"
  shows "scrolldown t = Inr (set_cells (drop 80 (tty_cells t) @ blank_row (tty_color t)) t)"
proof -
  let ?cs = "tty_cells t"
  have rows: "rfold (\<lambda>y t. rfold (move_up y) [0..<80] t) [0..<24] t = Inr (set_cells (shifted 1920 ?cs) t)"
    using move_rows [OF assms, of 24 t] by simp
  have "rfold (\<lambda>x t. tty_putchar_at (byte_of_char CHR '' '') (tty_color t) x 24 t) [0..<80] (set_cells (shifted 1920 ?cs) t)
      = Inr (set_cells (blit 1920 (blank_row (tty_color t)) (shifted 1920 ?cs)) t)"
    using fill_row [where color = tty_color and t = t and cs = "shifted 1920 ?cs" and y = 24 and n = 80
        and c = "byte_of_char CHR '' ''"] assms
    by (simp add: length_shifted blank_row_def)
  moreover have "blit 1920 (blank_row (tty_color t)) (shifted 1920 ?cs) = drop 80 ?cs @ blank_row (tty_color t)"
    using assms by (simp add: blit_def shifted_def blank_row_def)
  ultimately show ?thesis using rows by (simp add: scrolldown_def del: upt_rec_numeral)
qed

section \<open>The terminal as lines of text\<close>

record text_screen =
  sc_lines :: "u16 list list"
  sc_row :: nat
  sc_col :: nat
  sc_color :: u8

definition sc_put :: "nat \<Rightarrow> nat \<Rightarrow> u8 \<Rightarrow> text_screen \<Rightarrow> text_screen" where
  "sc_put y x c s = s\<lparr>sc_lines := (sc_lines s)[y := (sc_lines s ! y)[x := compose_entry c (sc_color s)]]\<rparr>"

definition sc_scroll :: "text_screen \<Rightarrow> text_screen" where
  "sc_scroll s =
     (if sc_row s = 25 then s\<lparr>sc_lines := tl (sc_lines s) @ [blank_row (sc_color s)], sc_row := 24, sc_col := 0\<rparr>
      else s)"

definition sc_char :: "u8 \<Rightarrow> text_screen \<Rightarrow> text_screen" where
  "sc_char c s =
     sc_scroll
       (if c = NEWLINE then s\<lparr>sc_row := sc_row s + 1, sc_col := 0\<rparr>
        else if c = BACKSPACE then
          (let (y, x) = (if 0 < sc_col s then (sc_row s, sc_col s - 1)
                         else if 0 < sc_row s then (sc_row s - 1, 79) else (0, 0))
           in (sc_put y x (byte_of_char CHR '' '') s)\<lparr>sc_row := y, sc_col := x\<rparr>)
        else if sc_col s = 79 then (sc_put (sc_row s) 79 c s)\<lparr>sc_row := sc_row s + 1, sc_col := 0\<rparr>
        else (sc_put (sc_row s) (sc_col s) c s)\<lparr>sc_col := sc_col s + 1\<rparr>)"

datatype tty_op = PutChar u8 | SetColor u8

text \<open>An operation returns where the cursor is.\<close>

fun tty_step :: "tty_op \<Rightarrow> VgaTTY \<Rightarrow> (u16 \<times> VgaTTY) result" where
  "tty_step (PutChar c) t = rbind (tty_putchar c t) (\<lambda>t'. Inr (vga_cursor (tty_text t'), t'))"
| "tty_step (SetColor color) t = Inr (0, tty_set_color color t)"

fun tty_spec :: "tty_op \<Rightarrow> text_screen \<Rightarrow> (u16 \<times> text_screen) result" where
  "tty_spec (PutChar c) s = (let s' = sc_char c s in Inr (word_of_nat (sc_row s' * 80 + sc_col s'), s'))"
| "tty_spec (SetColor color) s = Inr (0, s\<lparr>sc_color := color\<rparr>)"

definition grid :: "u16 list list \<Rightarrow> bool" where
  "grid ls \<longleftrightarrow> length ls = 25 \<and> (\<forall>l \<in> set ls. length l = 80)"

definition tty_rel :: "VgaTTY \<Rightarrow> text_screen \<Rightarrow> bool" where
  "tty_rel t s \<longleftrightarrow> grid (sc_lines s) \<and> tty_cells t = concat (sc_lines s) \<and> tty_color t = sc_color s
     \<and> tty_row t = sc_row s \<and> tty_column t = sc_col s \<and> sc_row s < 25 \<and> sc_col s < 80"

lemma length_concat_rows: "\<forall>l \<in> set ls. length l = 80 \<Longrightarrow> length (concat ls) = 80 * length ls"
  by (induction ls) auto

lemma concat_update:
  "\<forall>l \<in> set ls. length l = 80 \<Longrightarrow> y < length ls \<Longrightarrow> x < 80 \<Longrightarrow>
    (concat ls)[y * 80 + x := e] = concat (ls[y := (ls ! y)[x := e]])"
proof (induction ls arbitrary: y)
  case (Cons l ls)
  then show ?case by (cases y) (auto simp: list_update_append)
qed simp

lemma grid_update: "grid ls \<Longrightarrow> grid (ls[y := (ls ! y)[x := e]])"
proof (cases "y < length ls")
  case True
  then show "grid ls \<Longrightarrow> ?thesis" by (auto simp: grid_def dest!: set_update_subset_insert [THEN subsetD])
qed (simp add: list_update_beyond)

lemma length_cells: "tty_rel t s \<Longrightarrow> length (tty_cells t) = 2000"
  using length_concat_rows [of "sc_lines s"] by (simp add: tty_rel_def grid_def)

lemma put_rel:
  assumes "grid (sc_lines s)" "tty_cells t = concat (sc_lines s)" "tty_color t = sc_color s" "y < 25" "x < 80"
  shows "\<exists>t'. tty_putchar_at c (tty_color t) x y t = Inr t' \<and> tty_cells t' = concat (sc_lines (sc_put y x c s))
    \<and> grid (sc_lines (sc_put y x c s)) \<and> tty_color t' = tty_color t \<and> tty_row t' = tty_row t \<and> tty_column t' = tty_column t"
proof -
  have len: "length (tty_cells t) = 2000" using assms(1,2) length_concat_rows [of "sc_lines s"] by (simp add: grid_def)
  show ?thesis using putchar_at_ok [OF len assms(5,4)] concat_update [of "sc_lines s" y x] assms grid_update
    by (simp add: sc_put_def grid_def)
qed

lemma cursor_ok: "y < 25 \<Longrightarrow> x < 80 \<Longrightarrow>
  vga_cursor (tty_text (tty_update_cursor x y t)) = word_of_nat (y * 80 + x)"
proof -
  assume "y < 25" "x < 80"
  moreover have "ucast (ucast (p AND 0xFF) :: u8) OR push_bit 8 (ucast (ucast (drop_bit 8 p AND 0xFF) :: u8)) = p" for p :: u16
    unfolding word_and_0xFF by (rule bit_word_eqI) (auto simp: bit_simps)
  ultimately show ?thesis using unat_coord [of x] unat_coord [of y]
    by (simp add: tty_update_cursor_def VgaText_update_cursor_def Let_def)
qed

lemma update_cursor_keeps [simp]:
  "tty_cells (tty_update_cursor x y t) = tty_cells t" "tty_row (tty_update_cursor x y t) = tty_row t"
  "tty_column (tty_update_cursor x y t) = tty_column t" "tty_color (tty_update_cursor x y t) = tty_color t"
  by (simp_all add: tty_update_cursor_def VgaText_update_cursor_def Let_def)

text \<open>The second half of \<^verbatim>\<open>putchar\<close>: scrolling when the row is behind the last.\<close>

lemma scroll_rel:
  assumes "grid (sc_lines s)" "tty_cells t = concat (sc_lines s)" "tty_color t = sc_color s"
    "tty_row t = sc_row s" "tty_column t = sc_col s" "sc_row s \<le> 25" "sc_col s < 80"
  shows "\<exists>t'. (if tty_row t = 25 then rbind (scrolldown t) (\<lambda>t4. Inr (t4\<lparr>tty_row := 25 - 1, tty_column := 0\<rparr>)) else Inr t)
    = Inr t' \<and> tty_rel t' (sc_scroll s)"
proof (cases "sc_row s = 25")
  case True
  have len: "length (tty_cells t) = 2000" using assms(1,2) length_concat_rows [of "sc_lines s"] by (simp add: grid_def)
  obtain l ls where ls: "sc_lines s = l # ls" "length l = 80" using assms(1) by (cases "sc_lines s") (auto simp: grid_def)
  then have "grid (ls @ [blank_row (sc_color s)])" using assms(1) by (auto simp: grid_def blank_row_def)
  then show ?thesis using True assms(2-5) ls scrolldown_ok [OF len]
    by (simp add: tty_rel_def sc_scroll_def set_cells_def)
next
  case False
  then show ?thesis using assms by (simp add: tty_rel_def sc_scroll_def)
qed

lemma putchar_rel:
  assumes "tty_rel t s"
  shows "\<exists>t'. tty_putchar c t = Inr t' \<and> tty_rel t' (sc_char c s)
    \<and> vga_cursor (tty_text t') = word_of_nat (sc_row (sc_char c s) * 80 + sc_col (sc_char c s))"
proof -
  have r: "grid (sc_lines s)" "tty_cells t = concat (sc_lines s)" "tty_color t = sc_color s"
    "tty_row t = sc_row s" "tty_column t = sc_col s" "sc_row s < 25" "sc_col s < 80"
    using assms by (simp_all add: tty_rel_def)
  have finish: "\<exists>t'. tty_putchar c t = Inr t' \<and> tty_rel t' (sc_char c s)
      \<and> vga_cursor (tty_text t') = word_of_nat (sc_row (sc_char c s) * 80 + sc_col (sc_char c s))"
    if t3: "(if c = NEWLINE then Inr (tty_newline t)
        else if c = BACKSPACE then
          (let t1 = (if tty_column t > 0 then t\<lparr>tty_column := tty_column t - 1\<rparr>
                     else if tty_row t > 0 then t\<lparr>tty_row := tty_row t - 1, tty_column := 80 - 1\<rparr>
                     else t\<lparr>tty_column := 0\<rparr>)
           in tty_putchar_at (byte_of_char CHR '' '') (tty_color t1) (tty_column t1) (tty_row t1) t1)
        else rbind (tty_putchar_at c (tty_color t) (tty_column t) (tty_row t) t) (\<lambda>t1.
          let t2 = t1\<lparr>tty_column := tty_column t1 + 1\<rparr>
          in Inr (if tty_column t2 = 80 then tty_newline t2 else t2))) = Inr t3"
      and s3: "grid (sc_lines s3)" "tty_cells t3 = concat (sc_lines s3)" "tty_color t3 = sc_color s3"
        "tty_row t3 = sc_row s3" "tty_column t3 = sc_col s3" "sc_row s3 \<le> 25" "sc_col s3 < 80" "sc_char c s = sc_scroll s3"
    for t3 s3
  proof -
    obtain t' where t': "(if tty_row t3 = 25 then rbind (scrolldown t3) (\<lambda>t4. Inr (t4\<lparr>tty_row := 25 - 1, tty_column := 0\<rparr>)) else Inr t3)
      = Inr t'" "tty_rel t' (sc_scroll s3)" using scroll_rel [OF s3(1-7)] by blast
    have "tty_putchar c t = Inr (tty_update_cursor (tty_column t') (tty_row t') t')"
      unfolding tty_putchar_def t3 rbind_Inr t'(1) ..
    moreover have "tty_rel (tty_update_cursor (tty_column t') (tty_row t') t') (sc_scroll s3)"
      using t'(2) by (simp add: tty_rel_def)
    ultimately show ?thesis using t'(2) s3(8) cursor_ok [of "tty_row t'" "tty_column t'" t'] by (simp add: tty_rel_def)
  qed
  show ?thesis
  proof (cases "c = NEWLINE")
    case True
    show ?thesis by (rule finish [where ?t3.0 = "tty_newline t" and ?s3.0 = "s\<lparr>sc_row := sc_row s + 1, sc_col := 0\<rparr>"])
      (use True r in \<open>simp_all add: tty_newline_def sc_char_def\<close>)
  next
    case notnl: False
    show ?thesis
    proof (cases "c = BACKSPACE")
      case True
      define yx where "yx = (if 0 < sc_col s then (sc_row s, sc_col s - 1)
         else if 0 < sc_row s then (sc_row s - 1, 79) else (0, 0))"
      let ?y = "fst yx" and ?x = "snd yx"
      let ?t1 = "t\<lparr>tty_row := ?y, tty_column := ?x\<rparr>"
      have yx: "?y < 25" "?x < 80" using r(6,7) by (auto simp: yx_def)
      have t1: "(if tty_column t > 0 then t\<lparr>tty_column := tty_column t - 1\<rparr>
                     else if tty_row t > 0 then t\<lparr>tty_row := tty_row t - 1, tty_column := 80 - 1\<rparr>
                     else t\<lparr>tty_column := 0\<rparr>) = ?t1"
        using r(4,5) by (cases t) (auto simp: yx_def)
      obtain t3 where t3: "tty_putchar_at (byte_of_char CHR '' '') (tty_color ?t1) ?x ?y ?t1 = Inr t3"
        "tty_cells t3 = concat (sc_lines (sc_put ?y ?x (byte_of_char CHR '' '') s))"
        "grid (sc_lines (sc_put ?y ?x (byte_of_char CHR '' '') s))" "tty_color t3 = tty_color t"
        "tty_row t3 = ?y" "tty_column t3 = ?x"
        using put_rel [of s ?t1 ?y ?x "byte_of_char CHR '' ''"] r(1-3) yx by auto
      have sc: "sc_char c s = sc_scroll ((sc_put ?y ?x (byte_of_char CHR '' '') s)\<lparr>sc_row := ?y, sc_col := ?x\<rparr>)"
        using True notnl unfolding sc_char_def yx_def by (simp split: prod.split)
      show ?thesis
        by (rule finish [where ?t3.0 = t3 and ?s3.0 = "(sc_put ?y ?x (byte_of_char CHR '' '') s)\<lparr>sc_row := ?y, sc_col := ?x\<rparr>"])
          (use True notnl t1 t3 yx r(3) sc in \<open>simp_all add: sc_put_def\<close>)
    next
      case False
      obtain t1 where t1: "tty_putchar_at c (tty_color t) (tty_column t) (tty_row t) t = Inr t1"
        "tty_cells t1 = concat (sc_lines (sc_put (sc_row s) (sc_col s) c s))"
        "grid (sc_lines (sc_put (sc_row s) (sc_col s) c s))" "tty_color t1 = tty_color t"
        "tty_row t1 = tty_row t" "tty_column t1 = tty_column t"
        using put_rel [of s t "sc_row s" "sc_col s" c] r by auto
      let ?t2 = "t1\<lparr>tty_column := tty_column t1 + 1\<rparr>"
      show ?thesis
        by (rule finish [where ?t3.0 = "if tty_column ?t2 = 80 then tty_newline ?t2 else ?t2"
              and ?s3.0 = "if sc_col s = 79 then (sc_put (sc_row s) 79 c s)\<lparr>sc_row := sc_row s + 1, sc_col := 0\<rparr>
                else (sc_put (sc_row s) (sc_col s) c s)\<lparr>sc_col := sc_col s + 1\<rparr>"])
          (use False notnl t1 r in \<open>auto simp: sc_char_def sc_put_def tty_newline_def\<close>)
    qed
  qed
qed

interpretation terminal: stepwise_refinement tty_rel tty_step tty_spec "\<lambda>_ _. True"
proof
  fix t s op e
  assume "tty_rel t s" "tty_spec op s = Inl e"
  then show "tty_step op t = Inl e" by (cases op) (auto simp: Let_def)
next
  fix t s op r s'
  assume rel: "tty_rel t s" and spec: "tty_spec op s = Inr (r, s')"
  show "\<exists>t'. tty_step op t = Inr (r, t') \<and> tty_rel t' s'"
  proof (cases op)
    case (PutChar c)
    then show ?thesis using putchar_rel [OF rel, of c] spec by (auto simp: Let_def)
  next
    case (SetColor color)
    then show ?thesis using rel spec by (auto simp: tty_rel_def tty_set_color_def)
  qed
qed

lemma fill_cells:
  "b + n \<le> length (vga_cells v) \<Longrightarrow> rfold (\<lambda>x v. put_cell (b + x) e v) [0..<n] v
    = Inr (v\<lparr>vga_cells := blit b (replicate n e) (vga_cells v)\<rparr>)"
proof (induction n)
  case (Suc n)
  then show ?case using blit_replicate_Suc [of b n "vga_cells v" e]
    by (simp add: rfold_snoc put_cell_def del: replicate_Suc)
qed (simp add: blit_def)

lemma clear_rows:
  "length (vga_cells v) = 2000 \<Longrightarrow> n \<le> 25 \<Longrightarrow>
    rfold (\<lambda>y v. rfold (\<lambda>x v. put_cell (y * 80 + x) e v) [0..<80] v) [0..<n] v
    = Inr (v\<lparr>vga_cells := replicate (n * 80) e @ drop (n * 80) (vga_cells v)\<rparr>)"
proof (induction n)
  case (Suc n)
  let ?v = "v\<lparr>vga_cells := replicate (n * 80) e @ drop (n * 80) (vga_cells v)\<rparr>"
  have "blit (n * 80) (replicate 80 e) (vga_cells ?v) = replicate (Suc n * 80) e @ drop (Suc n * 80) (vga_cells v)"
    by (simp add: blit_def replicate_add add.commute [of 80])
  then show ?case using Suc fill_cells [of "n * 80" 80 ?v e]
    by (simp add: rfold_snoc del: mult_Suc replicate_Suc upt_rec_numeral)
qed simp

lemma clear_ok:
  assumes "length (vga_cells v) = 2000"
  shows "VgaText_clear color v
    = Inr (v\<lparr>vga_cells := replicate 2000 (compose_entry (byte_of_char CHR '' '') color)\<rparr>)"
  using clear_rows [OF assms, of 25] assms by (simp add: VgaText_clear_def del: upt_rec_numeral)

definition blank_screen :: text_screen where
  "blank_screen = \<lparr>sc_lines = replicate 25 (blank_row 7), sc_row = 0, sc_col = 0, sc_color = 7\<rparr>"

lemma concat_replicate_row: "concat (replicate n (replicate m e)) = replicate (n * m) e"
  by (induction n) (simp_all add: replicate_add)

lemma new_terminal:
  assumes "length (vga_cells v) = 2000"
  shows "\<exists>t. VgaTTY_new v = Inr t \<and> tty_rel t blank_screen"
  using clear_ok [OF assms]
  by (simp add: VgaTTY_new_def compose_color_def tty_rel_def concat_replicate_row blank_screen_def grid_def blank_row_def)

text \<open>
  C12: The terminal shows lines of text: on a new terminal every sequence of characters and colour
  changes succeeds and leaves the text buffer as the abstract screen has it: a character goes to
  the cursor, a full line and a newline go on in the next line, a line below the last one drops
  the first line and adds a blank one, a backspace blanks the cell before the cursor. After every
  character the card's cursor is at the next cell.
\<close>

theorem terminal_shows_lines:
  assumes "length (vga_cells v) = 2000"
  shows "\<exists>t rs t' s'. VgaTTY_new v = Inr t \<and> run_ops tty_spec ops blank_screen = Inr (rs, s')
    \<and> run_ops tty_step ops t = Inr (rs, t') \<and> tty_cells t' = concat (sc_lines s')
    \<and> tty_row t' = sc_row s' \<and> tty_column t' = sc_col s'"
proof -
  obtain t where t: "VgaTTY_new v = Inr t" "tty_rel t blank_screen" using new_terminal [OF assms] by blast
  have total: "\<exists>rs s'. run_ops tty_spec ops s = Inr (rs, s')" for s
  proof (induction ops arbitrary: s)
    case (Cons op ops)
    obtain r s1 where "tty_spec op s = Inr (r, s1)" by (cases op) (auto simp: Let_def)
    moreover obtain rs s' where "run_ops tty_spec ops s1 = Inr (rs, s')" using Cons by blast
    ultimately show ?case by simp
  qed simp
  have ok: "ops_ok tty_spec (\<lambda>_ _. True) ops s" for s
    by (rule ops_ok_all) (simp add: list_all_iff)
  obtain rs s' where s': "run_ops tty_spec ops blank_screen = Inr (rs, s')" using total by blast
  then show ?thesis using terminal.run_related [OF t(2) ok s'] t(1) by (auto simp: tty_rel_def)
qed

theorem terminal_shows_lines_witness:
  "\<exists>t rs t'. VgaTTY_new \<lparr>vga_cells = replicate 2000 0, vga_cursor = 0\<rparr> = Inr t
    \<and> run_ops tty_step [PutChar 72, PutChar 105, PutChar NEWLINE] t = Inr (rs, t')
    \<and> rs = [1, 2, 80] \<and> tty_row t' = 1 \<and> tty_column t' = 0"
  using terminal_shows_lines [of "\<lparr>vga_cells = replicate 2000 0, vga_cursor = 0\<rparr>"
      "[PutChar 72, PutChar 105, PutChar NEWLINE]"]
  by (auto simp: blank_screen_def sc_char_def sc_put_def sc_scroll_def Let_def)

lemma rows_of_cells: "concat (map (\<lambda>y. chunk (y * 80) 80 cs) [0..<n]) = take (n * 80) cs"
  by (induction n) (simp_all add: chunk_def take_add add.commute [of 80])

lemma tty_rel_exists: "tty_ok t \<Longrightarrow> \<exists>s. tty_rel t s"
proof -
  assume ok: "tty_ok t"
  let ?ls = "map (\<lambda>y. chunk (y * 80) 80 (tty_cells t)) [0..<25]"
  have "grid ?ls" using ok by (auto simp: grid_def tty_ok_def simp del: upt_rec_numeral)
  moreover have "concat ?ls = tty_cells t" using rows_of_cells [of "tty_cells t" 25] ok by (simp add: tty_ok_def)
  ultimately have "tty_rel t \<lparr>sc_lines = ?ls, sc_row = tty_row t, sc_col = tty_column t, sc_color = tty_color t\<rparr>"
    using ok unfolding tty_rel_def tty_ok_def by simp
  then show ?thesis ..
qed

lemma tty_rel_ok: "tty_rel t s \<Longrightarrow> tty_ok t"
  using length_cells [of t s] by (simp add: tty_ok_def tty_rel_def)

text \<open>
  C36: The terminal keeps its type: from a state whose text buffer has 80 * 25 cells and whose
  position is on the screen, writing through the device any bytes, control characters included,
  succeeds with the number of bytes (as a signed number of 32 bits, so negative from 2 to the 31
  on), accesses no cell outside of the buffer and ends in such a state.
\<close>

theorem terminal_write_typed:
  assumes "tty_ok t" "count \<le> length data"
  shows "\<exists>t'. VgaTTYDevice_write data count t = Inr (sint (word_of_nat count :: u32), t') \<and> tty_ok t'"
proof -
  have "n \<le> count \<Longrightarrow> \<exists>t'. tty_write data n t = Inr t' \<and> tty_ok t'" for n
  proof (induction n)
    case (Suc n)
    then obtain t1 where t1: "tty_write data n t = Inr t1" "tty_ok t1" by auto
    obtain s where "tty_rel t1 s" using tty_rel_exists [OF t1(2)] ..
    then obtain t2 where "tty_putchar (data ! n) t1 = Inr t2" "tty_ok t2"
      using putchar_rel [of t1 s "data ! n"] tty_rel_ok by blast
    then show ?case using t1(1) Suc.prems assms(2) by (simp add: tty_write_def rfold_snoc)
  qed (use assms(1) in \<open>simp add: tty_write_def\<close>)
  then show ?thesis by (force simp: VgaTTYDevice_write_def)
qed

theorem terminal_write_typed_witness:
  "\<exists>t'. VgaTTYDevice_write [BACKSPACE, 65, NEWLINE] 3
      \<lparr>tty_row = 24, tty_column = 0, tty_color = 7, tty_text = \<lparr>vga_cells = replicate 2000 0, vga_cursor = 0\<rparr>\<rparr>
    = Inr (3, t') \<and> tty_ok t'"
  using terminal_write_typed [of "\<lparr>tty_row = 24, tty_column = 0, tty_color = 7,
      tty_text = \<lparr>vga_cells = replicate 2000 0, vga_cursor = 0\<rparr>\<rparr>" 3 "[BACKSPACE, 65, NEWLINE]"]
  by (simp add: tty_ok_def)

text \<open>A program's requests to the text device never reach a cell outside of the screen.\<close>

lemma text_ioctl_in_screen:
  assumes "length (vga_cells v) = 2000"
  shows "VgaTextDevice_ioctl request data v \<noteq> Inl BadAccess"
    and "VgaTextDevice_ioctl request data v = Inr (rc, data', v') \<Longrightarrow> length (vga_cells v') = 2000"
proof -
  have i: "unat (io_row data) * 80 + unat (io_col data) < 2000"
    if "unat (io_row data) < 25" "unat (io_col data) < 80" using that by linarith
  show "VgaTextDevice_ioctl request data v \<noteq> Inl BadAccess"
    using i clear_ok [OF assms, of "ucast (io_value data)"] assms
    by (auto simp: VgaTextDevice_ioctl_def Let_def VgaText_putchar_def put_cell_def VgaText_get_entry_def split: prod.splits)
  show "VgaTextDevice_ioctl request data v = Inr (rc, data', v') \<Longrightarrow> length (vga_cells v') = 2000"
    using clear_ok [OF assms, of "ucast (io_value data)"] assms
    by (auto simp: VgaTextDevice_ioctl_def Let_def VgaText_putchar_def put_cell_def VgaText_get_entry_def
        VgaText_update_cursor_def split: prod.splits if_splits)
qed

end
