(* ===== verification/Window_Messages.thy ===== *)
theory Window_Messages
  imports Processes Input_Devices
begin

text \<open>
  The messages between the window server and its clients:
  \<^verbatim>\<open>userspace/LibWindowServer/IPC.cpp\<close> and \<^verbatim>\<open>IOEvent.cpp\<close> over the kernel's message calls of
  \<open>Processes\<close>. A request is two messages, a code and a packed structure. What one side sends, the
  other receives, when no message of a third process comes between the two.
\<close>

section \<open>Events and requests\<close>

record MouseEvent =
  me_x :: u16
  me_y :: u16
  left_click :: bool
  right_click :: bool

text \<open>The tag of \<^verbatim>\<open>IOEvent\<close> says which member of its union is the event.\<close>

datatype IOEvent = Uninitialized | Key_Event KeyEvent | Mouse_Event MouseEvent

definition as_key_event :: "IOEvent \<Rightarrow> KeyEvent result" where
  "as_key_event e = (case e of Key_Event k \<Rightarrow> Inr k | _ \<Rightarrow> Inl AssertionFailed)"

definition as_mouse_event :: "IOEvent \<Rightarrow> MouseEvent result" where
  "as_mouse_event e = (case e of Mouse_Event m \<Rightarrow> Inr m | _ \<Rightarrow> Inl AssertionFailed)"

record CreateWindowRequest =
  req_width :: u16
  req_height :: u16

record CreateWindowResponse =
  window_guid :: u32
  resp_buff_guid :: u32

datatype Code = CreateWindowRequest_code | CreateWindowResponse_code | DrawWindow_code | SendIOEvent_code

fun code_value :: "Code \<Rightarrow> u32" where
  "code_value CreateWindowRequest_code = 0"
| "code_value CreateWindowResponse_code = 1"
| "code_value DrawWindow_code = 2"
| "code_value SendIOEvent_code = 3"

section \<open>The bytes of the structures\<close>

text \<open>
  The structures lie in memory as the compiler lays them out: twelve bytes for an \<^verbatim>\<open>IOEvent\<close>, the
  tag in the first four. The bytes that the member in use does not cover are never read; they
  are zero here.
\<close>

definition byte_of_bool :: "bool \<Rightarrow> u8" where
  "byte_of_bool b = (if b then 1 else 0)"

definition key_event_bytes :: "KeyEvent \<Rightarrow> u8 list" where
  "key_event_bytes k = [keycode k, byte_of_bool (released k),
     byte_of_bool (ms_shift (modifiers k)) + 2 * byte_of_bool (ms_caps_lock (modifiers k))]"

definition mouse_event_bytes :: "MouseEvent \<Rightarrow> u8 list" where
  "mouse_event_bytes m = le16 (me_x m) @ le16 (me_y m) @ [byte_of_bool (left_click m), byte_of_bool (right_click m)]"

fun io_event_bytes :: "IOEvent \<Rightarrow> u8 list" where
  "io_event_bytes Uninitialized = le32 0 @ replicate 8 0"
| "io_event_bytes (Key_Event k) = le32 1 @ key_event_bytes k @ replicate 5 0"
| "io_event_bytes (Mouse_Event m) = le32 2 @ mouse_event_bytes m @ replicate 2 0"

fun io_event_of_bytes :: "u8 list \<Rightarrow> IOEvent option" where
  "io_event_of_bytes [t0, t1, t2, t3, a, b, c, d, e, f, g, h] =
     (let tag = of_le32 t0 t1 t2 t3
      in if tag = 0 then Some Uninitialized
         else if tag = 1 then Some (Key_Event \<lparr>keycode = a, released = (b \<noteq> 0),
           modifiers = \<lparr>ms_shift = bit c 0, ms_caps_lock = bit c 1\<rparr>\<rparr>)
         else if tag = 2 then Some (Mouse_Event \<lparr>me_x = of_le16 a b, me_y = of_le16 c d,
           left_click = (e \<noteq> 0), right_click = (f \<noteq> 0)\<rparr>)
         else None)"
| "io_event_of_bytes _ = None"

definition request_bytes :: "CreateWindowRequest \<Rightarrow> u8 list" where
  "request_bytes r = le16 (req_width r) @ le16 (req_height r)"

fun request_of_bytes :: "u8 list \<Rightarrow> CreateWindowRequest option" where
  "request_of_bytes [a, b, c, d] = Some \<lparr>req_width = of_le16 a b, req_height = of_le16 c d\<rparr>"
| "request_of_bytes _ = None"

definition response_bytes :: "CreateWindowResponse \<Rightarrow> u8 list" where
  "response_bytes r = le32 (window_guid r) @ le32 (resp_buff_guid r)"

fun response_of_bytes :: "u8 list \<Rightarrow> CreateWindowResponse option" where
  "response_of_bytes [a, b, c, d, e, f, g, h] =
     Some \<lparr>window_guid = of_le32 a b c d, resp_buff_guid = of_le32 e f g h\<rparr>"
| "response_of_bytes _ = None"

fun u32_of_bytes :: "u8 list \<Rightarrow> u32 option" where
  "u32_of_bytes [a, b, c, d] = Some (of_le32 a b c d)"
| "u32_of_bytes _ = None"

section \<open>The calls\<close>

text \<open>
  A process that asks for a message sleeps until there is one. Sending appends to the queue and
  receiving takes its head, so what is received does not depend on when a message arrived; the
  queue therefore holds the messages that arrive during the sleep as well, and asking when it is
  empty does not return.
\<close>

definition std_send_message :: "nat \<Rightarrow> nat \<Rightarrow> u8 list \<Rightarrow> sched \<Rightarrow> (int \<times> sched) result" where
  "std_send_message self pid msg s = syscall_send_message s self pid msg (length msg)"

definition std_get_message :: "nat \<Rightarrow> nat \<Rightarrow> sched \<Rightarrow> ((nat \<times> u8 list \<times> nat) \<times> sched) result" where
  "std_get_message self sz s =
     rbind (get_proc s self) (\<lambda>x.
       if has_pending_message x then resume_get_message s self (replicate sz 0) sz else Inl Diverges)"

text \<open>The body that all the senders of a request share: the code, then the structure.\<close>

definition send_with_code :: "nat \<Rightarrow> nat \<Rightarrow> Code \<Rightarrow> u8 list \<Rightarrow> sched \<Rightarrow> (bool \<times> sched) result" where
  "send_with_code self pid code body s =
     rbind (std_send_message self pid (le32 (code_value code)) s) (\<lambda>(rc, s1).
       if rc \<noteq> E_OK then Inr (False, s1)
       else rbind (std_send_message self pid body s1) (\<lambda>(rc, s2). Inr (rc = E_OK, s2)))"

definition send_create_window_request :: "nat \<Rightarrow> nat \<Rightarrow> CreateWindowRequest \<Rightarrow> sched \<Rightarrow> (bool \<times> sched) result" where
  "send_create_window_request self windowserver_pid request =
     send_with_code self windowserver_pid CreateWindowRequest_code (request_bytes request)"

definition send_create_window_response :: "nat \<Rightarrow> nat \<Rightarrow> CreateWindowResponse \<Rightarrow> sched \<Rightarrow> (bool \<times> sched) result" where
  "send_create_window_response self gui_pid resp =
     send_with_code self gui_pid CreateWindowResponse_code (response_bytes resp)"

definition send_draw_request :: "nat \<Rightarrow> nat \<Rightarrow> u32 \<Rightarrow> sched \<Rightarrow> (bool \<times> sched) result" where
  "send_draw_request self windowserver_pid guid =
     send_with_code self windowserver_pid DrawWindow_code (le32 guid)"

definition send_key_event :: "nat \<Rightarrow> nat \<Rightarrow> KeyEvent \<Rightarrow> sched \<Rightarrow> (bool \<times> sched) result" where
  "send_key_event self gui_pid event =
     send_with_code self gui_pid SendIOEvent_code (io_event_bytes (Key_Event event))"

definition send_mouse_event :: "nat \<Rightarrow> nat \<Rightarrow> MouseEvent \<Rightarrow> sched \<Rightarrow> (bool \<times> sched) result" where
  "send_mouse_event self gui_pid event =
     send_with_code self gui_pid SendIOEvent_code (io_event_bytes (Mouse_Event event))"

text \<open>
  A structure from a given sender; \<open>None\<close> is the return value \<^verbatim>\<open>false\<close>. \<open>parse\<close> reads the buffer,
  \<open>sz\<close> is the size of the structure.
\<close>

definition recv_struct :: "nat \<Rightarrow> nat \<Rightarrow> nat \<Rightarrow> (u8 list \<Rightarrow> 'a option) \<Rightarrow> sched \<Rightarrow> ('a option \<times> sched) result" where
  "recv_struct self pid sz parse s =
     rbind (std_get_message self sz s) (\<lambda>((n, buf, tmp_pid), s1).
       if n \<noteq> sz then Inr (None, s1)
       else if tmp_pid \<noteq> pid then Inr (None, s1)
       else Inr (parse buf, s1))"

definition recv_create_window_request ::
  "nat \<Rightarrow> nat \<Rightarrow> bool \<Rightarrow> sched \<Rightarrow> (CreateWindowRequest option \<times> sched) result" where
  "recv_create_window_request self gui_pid recv_code s =
     rbind (assert_that (\<not> recv_code)) (\<lambda>_. recv_struct self gui_pid 4 request_of_bytes s)"

definition recv_draw_request :: "nat \<Rightarrow> nat \<Rightarrow> bool \<Rightarrow> sched \<Rightarrow> (u32 option \<times> sched) result" where
  "recv_draw_request self gui_pid recv_code s =
     rbind (assert_that (\<not> recv_code)) (\<lambda>_. recv_struct self gui_pid 4 u32_of_bytes s)"

text \<open>The code that precedes a structure, where the caller has not read it yet.\<close>

definition recv_code_then :: "nat \<Rightarrow> nat \<Rightarrow> Code \<Rightarrow> bool \<Rightarrow> (sched \<Rightarrow> ('a option \<times> sched) result) \<Rightarrow>
    sched \<Rightarrow> ('a option \<times> sched) result" where
  "recv_code_then self pid code recv_code k s =
     (if \<not> recv_code then k s
      else rbind (recv_struct self pid 4 u32_of_bytes s) (\<lambda>(c, s1).
             if c \<noteq> Some (code_value code) then Inr (None, s1) else k s1))"

definition recv_create_window_response ::
  "nat \<Rightarrow> nat \<Rightarrow> bool \<Rightarrow> sched \<Rightarrow> (CreateWindowResponse option \<times> sched) result" where
  "recv_create_window_response self windowserver_pid recv_code =
     recv_code_then self windowserver_pid CreateWindowResponse_code recv_code
       (recv_struct self windowserver_pid 8 response_of_bytes)"

definition recv_io_event :: "nat \<Rightarrow> nat \<Rightarrow> bool \<Rightarrow> sched \<Rightarrow> (IOEvent option \<times> sched) result" where
  "recv_io_event self windowserver_pid recv_code =
     recv_code_then self windowserver_pid SendIOEvent_code recv_code
       (recv_struct self windowserver_pid 12 io_event_of_bytes)"

section \<open>Structures survive the way through bytes\<close>

lemma bytes_roundtrip [simp]:
  "request_of_bytes (request_bytes r) = Some r"
  "response_of_bytes (response_bytes p) = Some p"
  "u32_of_bytes (le32 w) = Some w"
  "length (request_bytes r) = 4" "length (response_bytes p) = 8"
  by (simp_all add: request_bytes_def response_bytes_def le16_def le32_def)

lemma length_io_event_bytes [simp]: "length (io_event_bytes e) = 12"
  by (cases e) (simp_all add: key_event_bytes_def mouse_event_bytes_def)

lemma replicate_small: "replicate 2 x = [x, x]" "replicate 5 x = [x, x, x, x, x]" "replicate 8 x = [x, x, x, x, x, x, x, x]"
  by (simp_all add: numeral_eq_Suc)

lemma bool_of_byte [simp]: "byte_of_bool b \<noteq> 0 \<longleftrightarrow> b"
  by (simp add: byte_of_bool_def)

lemma tag_bytes:
  "le32 w @ xs = ucast w # ucast (drop_bit 8 w) # ucast (drop_bit 16 w) # ucast (drop_bit 24 w) # xs"
  by (simp add: le32_def)

lemma io_event_roundtrip: "io_event_of_bytes (io_event_bytes e) = Some e"
proof (cases e)
  case Uninitialized
  then show ?thesis by (simp add: tag_bytes replicate_small Let_def of_le32_def)
next
  case (Key_Event k)
  have "bit (byte_of_bool a + 2 * byte_of_bool b) 0 = a" "bit (byte_of_bool a + 2 * byte_of_bool b) 1 = b" for a b
    by (cases a; cases b; simp add: byte_of_bool_def)+
  then show ?thesis using Key_Event
    by (cases k; cases "modifiers k")
      (simp add: tag_bytes key_event_bytes_def replicate_small Let_def of_le32_def bool_of_byte)
next
  case (Mouse_Event m)
  then show ?thesis
    by (simp add: tag_bytes mouse_event_bytes_def le16_def replicate_small Let_def of_le32_def byte_of_bool_def)
qed

section \<open>Through the kernel's queue\<close>

definition listed :: "sched \<Rightarrow> nat \<Rightarrow> bool" where
  "listed s q \<longleftrightarrow> q \<in> set (m_runanble_list s @ m_blocked_list s) \<and> procs s q \<noteq> None"

lemma listed_procs: "listed s q \<Longrightarrow> procs s q \<noteq> None"
  by (simp add: listed_def)

definition queue_of :: "sched \<Rightarrow> nat \<Rightarrow> message list" where
  "queue_of s q = (case procs s q of None \<Rightarrow> [] | Some x \<Rightarrow> p_messages x)"

definition set_queue :: "nat \<Rightarrow> message list \<Rightarrow> sched \<Rightarrow> sched" where
  "set_queue q ms s = upd_proc q (p_messages_update (\<lambda>_. ms)) s"

lemma queue_set_queue [simp]: "procs s q \<noteq> None \<Longrightarrow> queue_of (set_queue q ms s) p = (if p = q then ms else queue_of s p)"
  by (auto simp: queue_of_def set_queue_def upd_proc_def)

lemma set_queue_simps [simp]:
  "procs (set_queue q ms s) p = None \<longleftrightarrow> procs s p = None" "listed (set_queue q ms s) p = listed s p"
  "get_process (set_queue q ms s) = get_process s"
  by (auto simp: listed_def set_queue_def upd_proc_def get_process_def fun_eq_iff cong: option.case_cong)

lemma set_queue_twice [simp]: "set_queue q ms (set_queue q ms' s) = set_queue q ms s"
  by (auto simp: set_queue_def upd_proc_def option.map_comp o_def)

lemma set_queue_same: "procs s q \<noteq> None \<Longrightarrow> queue_of s q = ms \<Longrightarrow> set_queue q ms s = s"
  by (auto simp: set_queue_def upd_proc_def queue_of_def fun_upd_idem)

lemma std_send_ok:
  assumes "listed s q"
  shows "std_send_message self q msg s = Inr (E_OK, set_queue q (queue_of s q @ [\<lparr>msg_pid = self, msg_data = msg\<rparr>]) s)"
proof -
  obtain y where y: "procs s q = Some y" using assms by (auto simp: listed_def)
  have "get_process s q = Some q" using assms by (simp add: listed_def get_process_iff)
  then show ?thesis
    using y by (simp add: std_send_message_def syscall_send_message_def get_proc_def put_message_ok set_queue_def
        upd_proc_def queue_of_def)
qed

lemma std_get_ok:
  assumes "procs s q \<noteq> None" "queue_of s q = m # ms" "length (msg_data m) = sz"
  shows "std_get_message q sz s = Inr ((sz, msg_data m, msg_pid m), set_queue q ms s)"
proof -
  obtain x where x: "procs s q = Some x" "p_messages x = m # ms"
    using assms by (auto simp: queue_of_def)
  then show ?thesis
    using consume_message_ok [OF x(2), of "replicate sz 0"] assms(3)
    by (simp add: std_get_message_def resume_get_message_def get_proc_def has_pending_message_def set_queue_def
        upd_proc_def blit_def)
qed

lemma send_with_code_ok:
  assumes "listed s q"
  shows "send_with_code self q code body s = Inr (True, set_queue q (queue_of s q @
    [\<lparr>msg_pid = self, msg_data = le32 (code_value code)\<rparr>, \<lparr>msg_pid = self, msg_data = body\<rparr>]) s)"
  using assms std_send_ok [of "set_queue q ms s" q for ms]
  by (simp add: send_with_code_def std_send_ok queue_set_queue [OF listed_procs [OF assms]])

lemma recv_struct_ok:
  assumes "procs s q \<noteq> None" "queue_of s q = \<lparr>msg_pid = c, msg_data = d\<rparr> # ms" "length d = sz"
  shows "recv_struct q p sz parse s = Inr (if c = p then parse d else None, set_queue q ms s)"
  using std_get_ok [OF assms(1,2)] assms(3) by (simp add: recv_struct_def)

lemma recv_code_ok:
  assumes "procs s q \<noteq> None" "queue_of s q = \<lparr>msg_pid = c, msg_data = le32 (code_value code)\<rparr> # ms"
  shows "recv_code_then q c code True k s = k (set_queue q ms s)"
  using recv_struct_ok [OF assms, of 4 c u32_of_bytes] by (simp add: recv_code_then_def)

lemma send_unknown: "get_process s q = None \<Longrightarrow> send_with_code self q code body s = Inr (False, s)"
  by (simp add: send_with_code_def std_send_message_def syscall_send_message_def)

section \<open>Properties\<close>

text \<open>
  C23: the structures of the window protocol arrive as they were sent. With an empty queue, what
  a process sends with one of the four senders is what the other takes out with the
  corresponding receiver, after the code of the request where the receiver leaves that to its
  caller, and the queue is empty again.
\<close>

theorem window_messages_arrive:
  assumes "listed s q" "queue_of s q = []"
  shows "(\<exists>s1 s2. send_create_window_request c q r s = Inr (True, s1)
      \<and> recv_struct q c 4 u32_of_bytes s1 = Inr (Some (code_value CreateWindowRequest_code), s2)
      \<and> recv_create_window_request q c False s2 = Inr (Some r, s))
    \<and> (\<exists>s1 s2. send_draw_request c q guid s = Inr (True, s1)
      \<and> recv_struct q c 4 u32_of_bytes s1 = Inr (Some (code_value DrawWindow_code), s2)
      \<and> recv_draw_request q c False s2 = Inr (Some guid, s))
    \<and> (\<exists>s1. send_create_window_response c q p s = Inr (True, s1) \<and> recv_create_window_response q c True s1 = Inr (Some p, s))
    \<and> (\<exists>s1. send_key_event c q k s = Inr (True, s1) \<and> recv_io_event q c True s1 = Inr (Some (Key_Event k), s))
    \<and> (\<exists>s1. send_mouse_event c q m s = Inr (True, s1) \<and> recv_io_event q c True s1 = Inr (Some (Mouse_Event m), s))"
proof -
  have q: "procs s q \<noteq> None" using assms(1) by (simp add: listed_def)
  note same = set_queue_same [OF q assms(2)]
  note io = send_with_code_ok [OF assms(1)] recv_struct_ok recv_code_ok
  have "\<exists>s1 s2. send_create_window_request c q r s = Inr (True, s1)
      \<and> recv_struct q c 4 u32_of_bytes s1 = Inr (Some (code_value CreateWindowRequest_code), s2)
      \<and> recv_create_window_request q c False s2 = Inr (Some r, s)"
    using q assms(2) same by (simp add: send_create_window_request_def recv_create_window_request_def io)
  moreover have "\<exists>s1 s2. send_draw_request c q guid s = Inr (True, s1)
      \<and> recv_struct q c 4 u32_of_bytes s1 = Inr (Some (code_value DrawWindow_code), s2)
      \<and> recv_draw_request q c False s2 = Inr (Some guid, s)"
    using q assms(2) same by (simp add: send_draw_request_def recv_draw_request_def io)
  moreover have "\<exists>s1. send_create_window_response c q p s = Inr (True, s1) \<and> recv_create_window_response q c True s1 = Inr (Some p, s)"
    using q assms(2) same by (simp add: send_create_window_response_def recv_create_window_response_def io)
  moreover have "\<exists>s1. send_key_event c q k s = Inr (True, s1) \<and> recv_io_event q c True s1 = Inr (Some (Key_Event k), s)"
    using q assms(2) same by (simp add: send_key_event_def recv_io_event_def io io_event_roundtrip del: io_event_bytes.simps)
  moreover have "\<exists>s1. send_mouse_event c q m s = Inr (True, s1) \<and> recv_io_event q c True s1 = Inr (Some (Mouse_Event m), s)"
    using q assms(2) same by (simp add: send_mouse_event_def recv_io_event_def io io_event_roundtrip del: io_event_bytes.simps)
  ultimately show ?thesis by blast
qed

theorem window_messages_arrive_witness:
  "\<exists>s1. send_mouse_event 2 4 \<lparr>me_x = 7, me_y = 300, left_click = True, right_click = False\<rparr> waiting_machine = Inr (True, s1)
    \<and> recv_io_event 4 2 True s1
      = Inr (Some (Mouse_Event \<lparr>me_x = 7, me_y = 300, left_click = True, right_click = False\<rparr>), waiting_machine)"
proof -
  have "listed waiting_machine 4" "queue_of waiting_machine 4 = []"
    by (simp_all add: listed_def queue_of_def waiting_machine_def small_machine_def fresh_proc_def)
  from window_messages_arrive [OF this, of 2 _ _ _ _ "\<lparr>me_x = 7, me_y = 300, left_click = True, right_click = False\<rparr>"]
  show ?thesis by blast
qed

end
