(* ===== verification/Window_Drawing.thy ===== *)
theory Window_Drawing
  imports Bits_Math Input_Devices Address_Spaces
begin

text \<open>
  The drawing of the window server: rectangles (\<^verbatim>\<open>Geometry.h\<close>), the screen
  (\<^verbatim>\<open>userspace/WindowServer/Vga.cpp\<close>) with its device (\<^verbatim>\<open>kernel/HAL/VgaDevice.cpp\<close>) and the
  mouse pointer (\<^verbatim>\<open>Mouse.cpp\<close>). The frame buffer is the list of its pixels, row after row. A
  rectangle that does not fit on the screen stops the server, one that does changes exactly its
  own pixels, and the pointer gives the picture under it back when it moves on.
\<close>

section \<open>Points and rectangles\<close>

record Point =
  pt_x :: int
  pt_y :: int

record Rectangle =
  rect_x :: int
  rect_y :: int
  rect_width :: u32
  rect_height :: u32

definition intersects :: "Rectangle \<Rightarrow> Point \<Rightarrow> bool" where
  "intersects r p \<longleftrightarrow> pt_x p \<ge> rect_x r \<and> pt_y p \<ge> rect_y r
     \<and> pt_x p \<le> sint (word_of_int (rect_x r) + rect_width r)
     \<and> pt_y p \<le> sint (word_of_int (rect_y r) + rect_height r)"

section \<open>The screen\<close>

text \<open>The device of the kernel.\<close>

record VgaDevice =
  vd_width :: u16
  vd_height :: u16
  vd_pitch :: u16

definition VgaDevice_new :: VgaDevice where
  "VgaDevice_new = \<lparr>vd_width = 1280, vd_height = 720, vd_pitch = 1280 * 4\<rparr>"

text \<open>\<^verbatim>\<open>GET_DIMENSIONS\<close> is the only request; its data are width, height and pitch.\<close>

definition VgaDevice_ioctl :: "VgaDevice \<Rightarrow> u32 \<Rightarrow> int \<times> (u32 \<times> u32 \<times> u32) option" where
  "VgaDevice_ioctl d request =
     (if request = 0 then (E_OK, Some (ucast (vd_width d), ucast (vd_height d), ucast (vd_pitch d)))
      else (E_INVALID, None))"

definition VgaDevice_mmap :: "VgaDevice \<Rightarrow> u32 \<Rightarrow> u32 \<Rightarrow> mm \<Rightarrow> (int \<times> mm) result" where
  "VgaDevice_mmap d virtual_addr sz m =
     (let fb_size = ucast (vd_pitch d) * ucast (vd_height d) * 2
      in if sz \<noteq> fb_size then Inr (E_INVALID_SIZE, m)
         else rbind (MM_the m 0) (\<lambda>m1. MM_map m1 virtual_addr 0xf8000000 fb_size True True))"

text \<open>
  The screen of the server. \<open>frame\<close> stands for the pixels behind the mapped device, \<open>fd\<close> for
  the descriptor that opening it gives.
\<close>

record VGA =
  vga_width :: u32
  vga_height :: u32
  vga_pitch :: u32
  frame_buffer :: "u32 list"

abbreviation FRAME_BUFFER_MAP_ADDR :: u32 where "FRAME_BUFFER_MAP_ADDR \<equiv> 0x60000000"

definition VGA_new :: "int \<Rightarrow> VgaDevice \<Rightarrow> u32 list \<Rightarrow> mm \<Rightarrow> (VGA \<times> mm) result" where
  "VGA_new fd d frame m =
     rbind (assert_that (fd \<ge> 0)) (\<lambda>_.
       case VgaDevice_ioctl d 0 of
         (rc, None) \<Rightarrow> Inl AssertionFailed
       | (rc, Some (w, h, p)) \<Rightarrow>
           rbind (assert_that (rc = E_OK)) (\<lambda>_.
           rbind (VgaDevice_mmap d FRAME_BUFFER_MAP_ADDR (p * h * 2) m) (\<lambda>(map_rc, m1).
           rbind (assert_that (map_rc = E_OK)) (\<lambda>_.
             Inr (\<lparr>vga_width = w, vga_height = h, vga_pitch = p, frame_buffer = frame\<rparr>, m1)))))"

text \<open>The sizes given to \<^verbatim>\<open>memset\<close> and \<^verbatim>\<open>memcpy\<close> are in bytes, four for a pixel.\<close>

definition VGA_clear :: "VGA \<Rightarrow> VGA result" where
  "VGA_clear v =
     (let n = unat (vga_height v * vga_pitch v * 2) div 4
      in if n \<le> length (frame_buffer v)
         then Inr (v\<lparr>frame_buffer := replicate n 0xaaaaaaaa @ drop n (frame_buffer v)\<rparr>)
         else Inl BadAccess)"

definition VGA_draw_all :: "u32 list \<Rightarrow> VGA \<Rightarrow> VGA result" where
  "VGA_draw_all window_buffer v =
     (let n = unat (vga_height v * vga_pitch v) div 4
      in if n \<le> length (frame_buffer v) \<and> n \<le> length window_buffer
         then Inr (v\<lparr>frame_buffer := take n window_buffer @ drop n (frame_buffer v)\<rparr>)
         else Inl BadAccess)"

text \<open>
  The two nested loops over the pixels of a rectangle. The counters have 16 bits and the bounds
  are sums computed as \<^verbatim>\<open>int\<close>, so the loop would not end for a bound above 65535.
\<close>

partial_function (option) for_cols :: "(u16 \<Rightarrow> 's \<Rightarrow> 's result) \<Rightarrow> nat \<Rightarrow> u16 \<Rightarrow> 's \<Rightarrow> 's result option" where
  "for_cols body stop col s =
     (if unat col < stop
      then case body col s of
             Inl e \<Rightarrow> Some (Inl e)
           | Inr s' \<Rightarrow> for_cols body stop (col + 1) s'
      else Some (Inr s))"

definition for_pixels ::
  "(u16 \<Rightarrow> u16 \<Rightarrow> 's \<Rightarrow> 's result) \<Rightarrow> u16 \<Rightarrow> u16 \<Rightarrow> u16 \<Rightarrow> u16 \<Rightarrow> 's \<Rightarrow> 's result" where
  "for_pixels body x y w h s =
     loop (for_cols (\<lambda>row s. loop (for_cols (body row) (unat x + unat w) x s)) (unat y + unat h) y s)"

definition in_bounds :: "VGA \<Rightarrow> u16 \<Rightarrow> u16 \<Rightarrow> u16 \<Rightarrow> u16 \<Rightarrow> bool" where
  "in_bounds v x y w h \<longleftrightarrow>
     \<not> (unat x + unat w \<ge> unat (vga_width v) \<or> unat y + unat h \<ge> unat (vga_height v))"

definition draw_pixel :: "u32 list \<Rightarrow> VGA \<Rightarrow> u16 \<Rightarrow> u16 \<Rightarrow> u16 \<Rightarrow> u16 \<Rightarrow> u16 \<Rightarrow> u32 list \<Rightarrow> u32 list result" where
  "draw_pixel window_buffer v x y w row col fb =
     (let s = (unat row - unat y) * unat w + (unat col - unat x);
          d = unat (ucast row * vga_width v + ucast col)
      in if s < length window_buffer \<and> d < length fb then Inr (fb[d := window_buffer ! s])
         else Inl BadAccess)"

definition VGA_draw :: "u32 list \<Rightarrow> u16 \<Rightarrow> u16 \<Rightarrow> u16 \<Rightarrow> u16 \<Rightarrow> VGA \<Rightarrow> VGA result" where
  "VGA_draw window_buffer x y w h v =
     (if \<not> in_bounds v x y w h then Inl NotReached
      else rbind (for_pixels (draw_pixel window_buffer v x y w) x y w h (frame_buffer v)) (\<lambda>fb.
             Inr (v\<lparr>frame_buffer := fb\<rparr>)))"

definition copy_pixel :: "VGA \<Rightarrow> u16 \<Rightarrow> u16 \<Rightarrow> u16 \<Rightarrow> u16 \<Rightarrow> u16 \<Rightarrow> u32 list \<Rightarrow> u32 list result" where
  "copy_pixel v x y w row col dst =
     (let d = (unat row - unat y) * unat w + (unat col - unat x);
          s = unat (ucast row * vga_width v + ucast col)
      in if d < length dst \<and> s < length (frame_buffer v) then Inr (dst[d := frame_buffer v ! s])
         else Inl BadAccess)"

definition copy_framebuffer_section :: "u32 list \<Rightarrow> u16 \<Rightarrow> u16 \<Rightarrow> u16 \<Rightarrow> u16 \<Rightarrow> VGA \<Rightarrow> u32 list result" where
  "copy_framebuffer_section dst x y w h v =
     (if \<not> in_bounds v x y w h then Inl NotReached
      else for_pixels (copy_pixel v x y w) x y w h dst)"

section \<open>The mouse pointer\<close>

record Mouse =
  m_x :: u16
  m_y :: u16
  m_hidden_by_mouse :: "u32 list"

abbreviation MOUSE_SPRITE_SIZE :: nat where "MOUSE_SPRITE_SIZE \<equiv> 7"

definition sprite :: string where
  "sprite = ''*******'' @ ''****** '' @ ''*****  '' @ ''****   '' @ ''*** *  '' @ ''**   * '' @ ''*     *''"

definition sprite_template :: "u32 list" where
  "sprite_template = map (\<lambda>c. if c = CHR ''*'' then 0xffffffff else 0) sprite"

definition Mouse_new :: "u32 \<Rightarrow> u32 \<Rightarrow> Mouse" where
  "Mouse_new x y = \<lparr>m_x = ucast x, m_y = ucast y, m_hidden_by_mouse = replicate (MOUSE_SPRITE_SIZE * MOUSE_SPRITE_SIZE) 0\<rparr>"

definition current_sprite :: "u32 list \<Rightarrow> u32 list" where
  "current_sprite hidden = map2 (\<lambda>t p. if t \<noteq> 0 then t else p) sprite_template hidden"

definition Mouse_draw :: "RawMouseEvent \<Rightarrow> Mouse \<Rightarrow> VGA \<Rightarrow> (Mouse \<times> VGA) result" where
  "Mouse_draw event mo v =
     (let x = word_of_int (math_clamp (int (unat (m_x mo)) + sint (delta_x event)) 0 (sint (vga_width v - 7 - 1)));
          y = word_of_int (math_clamp (int (unat (m_y mo)) - sint (delta_y event)) 0 (sint (vga_height v - 7 - 1)))
      in rbind (VGA_draw (m_hidden_by_mouse mo) (m_x mo) (m_y mo) 7 7 v) (\<lambda>v1.
         rbind (copy_framebuffer_section (m_hidden_by_mouse mo) x y 7 7 v1) (\<lambda>hidden.
         rbind (VGA_draw (current_sprite hidden) x y 7 7 v1) (\<lambda>v2.
           Inr (\<lparr>m_x = x, m_y = y, m_hidden_by_mouse = hidden\<rparr>, v2)))))"

definition Mouse_point :: "Mouse \<Rightarrow> Point" where
  "Mouse_point mo = \<lparr>pt_x = int (unat (m_x mo)), pt_y = int (unat (m_y mo))\<rparr>"

section \<open>Painting a part of a picture\<close>

definition overlay :: "(nat \<Rightarrow> bool) \<Rightarrow> (nat \<Rightarrow> 'a) \<Rightarrow> 'a list \<Rightarrow> 'a list" where
  "overlay P f xs = map (\<lambda>d. if P d then f d else xs ! d) [0..<length xs]"

lemma length_overlay [simp]: "length (overlay P f xs) = length xs"
  by (simp add: overlay_def)

lemma nth_overlay [simp]: "d < length xs \<Longrightarrow> overlay P f xs ! d = (if P d then f d else xs ! d)"
  by (simp add: overlay_def)

lemma overlay_twice: "overlay P f (overlay Q f xs) = overlay (\<lambda>d. P d \<or> Q d) f xs"
  by (rule nth_equalityI) auto

lemma overlay_none: "(\<And>d. d < length xs \<Longrightarrow> \<not> P d) \<Longrightarrow> overlay P f xs = xs"
  by (rule nth_equalityI) auto

lemma overlay_cong: "(\<And>d. d < length xs \<Longrightarrow> P d = Q d) \<Longrightarrow> (\<And>d. d < length xs \<Longrightarrow> Q d \<Longrightarrow> f d = g d) \<Longrightarrow> overlay P f xs = overlay Q g xs"
  by (rule nth_equalityI) auto

lemma list_update_overlay: "xs[i := f i] = overlay (\<lambda>d. d = i) f xs"
  by (rule nth_equalityI) (auto simp: nth_list_update)

lemma ex_from_Suc:
  fixes u :: nat
  assumes "u < stop"
  shows "(\<exists>c. u + 1 \<le> c \<and> c < stop \<and> Q c) \<or> Q u \<longleftrightarrow> (\<exists>c. u \<le> c \<and> c < stop \<and> Q c)"
proof
  assume "\<exists>c. u \<le> c \<and> c < stop \<and> Q c"
  then obtain c where "u \<le> c" "c < stop" "Q c" by blast
  then show "(\<exists>c. u + 1 \<le> c \<and> c < stop \<and> Q c) \<or> Q u" by (cases "c = u") (auto intro: exI [of _ c])
qed (use assms in \<open>auto dest: Suc_leD\<close>)

text \<open>A loop whose body paints the pixels that belong to its counter.\<close>

lemma for_cols_paints:
  assumes "stop \<le> 65535" "unat col \<le> stop"
    "\<And>c ys. unat col \<le> unat c \<Longrightarrow> unat c < stop \<Longrightarrow> length ys = length xs \<Longrightarrow> body c ys = Inr (overlay (P (unat c)) f ys)"
  shows "for_cols body stop col xs = Some (Inr (overlay (\<lambda>d. \<exists>c. unat col \<le> c \<and> c < stop \<and> P c d) f xs))"
  using assms
proof (induction "stop - unat col" arbitrary: col xs)
  case 0
  then show ?case by (subst for_cols.simps) (auto simp: overlay_none)
next
  case (Suc k)
  have lt: "unat col < stop" using Suc.hyps(2) by simp
  have nx: "unat (col + 1) = unat col + 1" using lt Suc.prems(1) by (simp add: unat_word_ariths)
  have "for_cols body stop (col + 1) (overlay (P (unat col)) f xs)
      = Some (Inr (overlay (\<lambda>d. \<exists>c. unat (col + 1) \<le> c \<and> c < stop \<and> P c d) f (overlay (P (unat col)) f xs)))"
    using Suc.hyps(2) Suc.prems nx lt by (intro Suc.hyps(1)) auto
  moreover have "(\<exists>c. unat (col + 1) \<le> c \<and> c < stop \<and> P c d) \<or> P (unat col) d
      \<longleftrightarrow> (\<exists>c. unat col \<le> c \<and> c < stop \<and> P c d)" for d
    unfolding nx by (rule ex_from_Suc [OF lt])
  ultimately show ?case
    using lt Suc.prems(3) [of col xs] by (subst for_cols.simps) (simp add: overlay_twice)
qed

lemma for_pixels_paints:
  assumes "unat x + unat w \<le> 65535" "unat y + unat h \<le> 65535"
    "\<And>r c ys. unat y \<le> unat r \<Longrightarrow> unat r < unat y + unat h \<Longrightarrow> unat x \<le> unat c \<Longrightarrow> unat c < unat x + unat w \<Longrightarrow>
       length ys = length xs \<Longrightarrow> body r c ys = Inr (overlay (P (unat r) (unat c)) f ys)"
  shows "for_pixels body x y w h xs
    = Inr (overlay (\<lambda>d. \<exists>r c. unat y \<le> r \<and> r < unat y + unat h \<and> unat x \<le> c \<and> c < unat x + unat w \<and> P r c d) f xs)"
proof -
  let ?row = "\<lambda>r d. \<exists>c. unat x \<le> c \<and> c < unat x + unat w \<and> P r c d"
  have "for_cols (body r) (unat x + unat w) x ys = Some (Inr (overlay (?row (unat r)) f ys))"
    if "unat y \<le> unat r" "unat r < unat y + unat h" "length ys = length xs" for r ys
    using assms(1,3) that by (intro for_cols_paints) auto
  then have "for_cols (\<lambda>row s. loop (for_cols (body row) (unat x + unat w) x s)) (unat y + unat h) y xs
      = Some (Inr (overlay (\<lambda>d. \<exists>r. unat y \<le> r \<and> r < unat y + unat h \<and> ?row r d) f xs))"
    using assms(2) by (intro for_cols_paints) auto
  moreover have "(\<lambda>d. \<exists>r. unat y \<le> r \<and> r < unat y + unat h \<and> ?row r d)
      = (\<lambda>d. \<exists>r c. unat y \<le> r \<and> r < unat y + unat h \<and> unat x \<le> c \<and> c < unat x + unat w \<and> P r c d)"
    by (intro ext iffI; elim exE conjE; intro exI conjI; assumption)
  ultimately show ?thesis by (simp only: for_pixels_def loop_Some)
qed

section \<open>A rectangle on the screen\<close>

definition vga_ok :: "VGA \<Rightarrow> bool" where
  "vga_ok v \<longleftrightarrow> 8 \<le> unat (vga_width v) \<and> unat (vga_width v) \<le> 32768 \<and> 8 \<le> unat (vga_height v) \<and> unat (vga_height v) \<le> 32768
     \<and> unat (vga_width v) * unat (vga_height v) \<le> length (frame_buffer v)"

definition in_rect :: "nat \<Rightarrow> u16 \<Rightarrow> u16 \<Rightarrow> u16 \<Rightarrow> u16 \<Rightarrow> nat \<Rightarrow> bool" where
  "in_rect W x y w h d \<longleftrightarrow> unat y \<le> d div W \<and> d div W < unat y + unat h
     \<and> unat x \<le> d mod W \<and> d mod W < unat x + unat w"

definition rect_index :: "nat \<Rightarrow> u16 \<Rightarrow> u16 \<Rightarrow> u16 \<Rightarrow> nat \<Rightarrow> nat" where
  "rect_index W x y w d = (d div W - unat y) * unat w + (d mod W - unat x)"

definition paint :: "u32 list \<Rightarrow> u16 \<Rightarrow> u16 \<Rightarrow> u16 \<Rightarrow> u16 \<Rightarrow> VGA \<Rightarrow> VGA" where
  "paint buf x y w h v = v\<lparr>frame_buffer :=
     overlay (in_rect (unat (vga_width v)) x y w h) (\<lambda>d. buf ! rect_index (unat (vga_width v)) x y w d) (frame_buffer v)\<rparr>"

lemma pixel_index:
  fixes r c :: u16
  assumes "vga_ok v" "unat r < unat (vga_height v)" "unat c < unat (vga_width v)"
  shows "unat (ucast r * vga_width v + ucast c) = unat r * unat (vga_width v) + unat c"
    "unat r * unat (vga_width v) + unat c < unat (vga_width v) * unat (vga_height v)"
    "unat r * unat (vga_width v) + unat c < length (frame_buffer v)"
proof -
  have "unat r * unat (vga_width v) + unat c < Suc (unat r) * unat (vga_width v)" using assms(3) by simp
  also have "\<dots> \<le> unat (vga_height v) * unat (vga_width v)" using assms(2) by (intro mult_right_mono) auto
  finally show b: "unat r * unat (vga_width v) + unat c < unat (vga_width v) * unat (vga_height v)"
    by (simp add: mult.commute)
  then show "unat r * unat (vga_width v) + unat c < length (frame_buffer v)" using assms(1) by (simp add: vga_ok_def)
  have "unat (vga_width v) * unat (vga_height v) \<le> 32768 * 32768" using assms(1) by (intro mult_mono) (auto simp: vga_ok_def)
  then have "unat r * unat (vga_width v) + unat c < 4294967296" using b by simp
  then show "unat (ucast r * vga_width v + ucast c) = unat r * unat (vga_width v) + unat c"
    using unat_ucast_up [of r, where 'b = 32] unat_ucast_up [of c, where 'b = 32] by (simp add: unat_word_ariths)
qed

lemma in_bounds_rect:
  assumes "vga_ok v" "in_bounds v x y w h"
  shows "unat x + unat w < unat (vga_width v)" "unat y + unat h < unat (vga_height v)"
    "unat x + unat w \<le> 65535" "unat y + unat h \<le> 65535"
  using assms by (auto simp: in_bounds_def vga_ok_def)

lemma rect_offset:
  assumes "unat y \<le> r" "r < unat y + unat h" "unat x \<le> c" "c < unat x + unat w"
  shows "(r - unat y) * unat w + (c - unat x) < unat w * unat h"
proof -
  have "(r - unat y) * unat w + (c - unat x) < Suc (r - unat y) * unat w" using assms by simp
  also have "\<dots> \<le> unat h * unat w" using assms by (intro mult_right_mono) auto
  finally show ?thesis by (simp add: mult.commute)
qed

text \<open>Drawing a rectangle that fits.\<close>

lemma VGA_draw_eq:
  assumes ok: "vga_ok v" and inb: "in_bounds v x y w h" and len: "unat w * unat h \<le> length buf"
  shows "VGA_draw buf x y w h v = Inr (paint buf x y w h v)"
proof -
  let ?W = "unat (vga_width v)"
  let ?src = "\<lambda>d. buf ! rect_index ?W x y w d"
  note b = in_bounds_rect [OF ok inb]
  have "draw_pixel buf v x y w r c ys = Inr (overlay (\<lambda>d. d = unat r * ?W + unat c) ?src ys)"
    if "unat y \<le> unat r" "unat r < unat y + unat h" "unat x \<le> unat c" "unat c < unat x + unat w"
      "length ys = length (frame_buffer v)" for r c ys
  proof -
    have "unat r < unat (vga_height v)" "unat c < ?W" using that b by auto
    note ix = pixel_index [OF ok this]
    have "(unat r - unat y) * unat w + (unat c - unat x) < length buf"
      using rect_offset [OF that(1-4)] len by simp
    moreover have "rect_index ?W x y w (unat r * ?W + unat c) = (unat r - unat y) * unat w + (unat c - unat x)"
      using \<open>unat c < ?W\<close> by (simp add: rect_index_def)
    ultimately show ?thesis
      using ix that(5) list_update_overlay [of ys "unat r * ?W + unat c" ?src]
      by (simp add: draw_pixel_def Let_def)
  qed
  then have "for_pixels (draw_pixel buf v x y w) x y w h (frame_buffer v)
      = Inr (overlay (\<lambda>d. \<exists>r c. unat y \<le> r \<and> r < unat y + unat h \<and> unat x \<le> c \<and> c < unat x + unat w
          \<and> d = r * ?W + c) ?src (frame_buffer v))"
    using b by (intro for_pixels_paints) auto
  moreover have "(\<exists>r c. unat y \<le> r \<and> r < unat y + unat h \<and> unat x \<le> c \<and> c < unat x + unat w \<and> d = r * ?W + c)
      \<longleftrightarrow> in_rect ?W x y w h d" for d
  proof
    assume "in_rect ?W x y w h d"
    then show "\<exists>r c. unat y \<le> r \<and> r < unat y + unat h \<and> unat x \<le> c \<and> c < unat x + unat w \<and> d = r * ?W + c"
      by (intro exI [of _ "d div ?W"] exI [of _ "d mod ?W"]) (simp add: in_rect_def)
  qed (use b in \<open>auto simp: in_rect_def\<close>)
  ultimately show ?thesis using inb by (simp add: VGA_draw_def paint_def)
qed

text \<open>Reading a rectangle that fits.\<close>

definition section_of :: "VGA \<Rightarrow> u16 \<Rightarrow> u16 \<Rightarrow> u16 \<Rightarrow> u16 \<Rightarrow> u32 list" where
  "section_of v x y w h = map (\<lambda>i. frame_buffer v ! ((unat y + i div unat w) * unat (vga_width v) + (unat x + i mod unat w)))
     [0..<unat w * unat h]"

lemma copy_section_eq:
  assumes ok: "vga_ok v" and inb: "in_bounds v x y w h" and len: "length dst = unat w * unat h"
  shows "copy_framebuffer_section dst x y w h v = Inr (section_of v x y w h)"
proof -
  let ?W = "unat (vga_width v)"
  let ?src = "\<lambda>i. frame_buffer v ! ((unat y + i div unat w) * ?W + (unat x + i mod unat w))"
  note b = in_bounds_rect [OF ok inb]
  have "copy_pixel v x y w r c ys = Inr (overlay (\<lambda>d. d = (unat r - unat y) * unat w + (unat c - unat x)) ?src ys)"
    if "unat y \<le> unat r" "unat r < unat y + unat h" "unat x \<le> unat c" "unat c < unat x + unat w"
      "length ys = length dst" for r c ys
  proof -
    have "unat r < unat (vga_height v)" "unat c < ?W" using that b by auto
    note ix = pixel_index [OF ok this]
    let ?d = "(unat r - unat y) * unat w + (unat c - unat x)"
    have "?d < length ys" using rect_offset [OF that(1-4)] len that(5) by simp
    moreover have "unat c - unat x < unat w" using that by linarith
    then have "?d div unat w = unat r - unat y" "?d mod unat w = unat c - unat x" by simp_all
    then have "?src ?d = frame_buffer v ! (unat r * ?W + unat c)" using that by simp
    ultimately show ?thesis
      using ix list_update_overlay [of ys ?d ?src] by (simp add: copy_pixel_def Let_def)
  qed
  then have "for_pixels (copy_pixel v x y w) x y w h dst
      = Inr (overlay (\<lambda>d. \<exists>r c. unat y \<le> r \<and> r < unat y + unat h \<and> unat x \<le> c \<and> c < unat x + unat w
          \<and> d = (r - unat y) * unat w + (c - unat x)) ?src dst)"
    using b by (intro for_pixels_paints) auto
  moreover have "overlay (\<lambda>d. \<exists>r c. unat y \<le> r \<and> r < unat y + unat h \<and> unat x \<le> c \<and> c < unat x + unat w
          \<and> d = (r - unat y) * unat w + (c - unat x)) ?src dst = section_of v x y w h"
  proof (rule nth_equalityI)
    fix i assume "i < length (overlay (\<lambda>d. \<exists>r c. unat y \<le> r \<and> r < unat y + unat h \<and> unat x \<le> c \<and> c < unat x + unat w
          \<and> d = (r - unat y) * unat w + (c - unat x)) ?src dst)"
    then have i: "i < unat w * unat h" using len by simp
    then have w: "0 < unat w" using not_gr_zero by fastforce
    have "i div unat w < unat h" using i by (simp add: less_mult_imp_div_less mult.commute)
    then have "\<exists>r c. unat y \<le> r \<and> r < unat y + unat h \<and> unat x \<le> c \<and> c < unat x + unat w
        \<and> i = (r - unat y) * unat w + (c - unat x)"
      using w by (intro exI [of _ "unat y + i div unat w"] exI [of _ "unat x + i mod unat w"]) simp
    then show "overlay (\<lambda>d. \<exists>r c. unat y \<le> r \<and> r < unat y + unat h \<and> unat x \<le> c \<and> c < unat x + unat w
          \<and> d = (r - unat y) * unat w + (c - unat x)) ?src dst ! i = section_of v x y w h ! i"
      using i len by (simp add: section_of_def)
  qed (simp add: len section_of_def)
  ultimately show ?thesis using inb by (simp add: copy_framebuffer_section_def)
qed

lemma VGA_draw_outside: "\<not> in_bounds v x y w h \<Longrightarrow> VGA_draw buf x y w h v = Inl NotReached"
  by (simp add: VGA_draw_def)

lemma paint_simps [simp]:
  "vga_width (paint buf x y w h v) = vga_width v" "vga_height (paint buf x y w h v) = vga_height v"
  "vga_pitch (paint buf x y w h v) = vga_pitch v" "vga_ok (paint buf x y w h v) = vga_ok v"
  "in_bounds (paint buf x y w h v) x' y' w' h' = in_bounds v x' y' w' h'"
  by (simp_all add: paint_def vga_ok_def in_bounds_def)

lemma length_section_of [simp]: "length (section_of v x y w h) = unat w * unat h"
  by (simp add: section_of_def)

text \<open>What was read from a rectangle restores it.\<close>

lemma paint_section:
  assumes "vga_ok v" "in_bounds v x y w h"
  shows "paint (section_of v x y w h) x y w h (paint buf x y w h v) = v"
proof -
  let ?W = "unat (vga_width v)"
  have "section_of v x y w h ! rect_index ?W x y w d = frame_buffer v ! d" if "in_rect ?W x y w h d" for d
  proof -
    let ?r = "d div ?W" and ?c = "d mod ?W"
    have r: "unat y \<le> ?r" "?r < unat y + unat h" "unat x \<le> ?c" "?c < unat x + unat w"
      using that by (simp_all add: in_rect_def)
    then have c: "?c - unat x < unat w" by linarith
    have "section_of v x y w h ! rect_index ?W x y w d
        = frame_buffer v ! ((unat y + (?r - unat y)) * ?W + (unat x + (?c - unat x)))"
      using rect_offset [OF r] c by (simp add: section_of_def rect_index_def)
    also have "(unat y + (?r - unat y)) * ?W + (unat x + (?c - unat x)) = d" using r by simp
    finally show ?thesis .
  qed
  then have "overlay (in_rect ?W x y w h) (\<lambda>d. section_of v x y w h ! rect_index ?W x y w d)
      (overlay (in_rect ?W x y w h) f (frame_buffer v)) = frame_buffer v" for f
    by (intro nth_equalityI) auto
  then show ?thesis by (simp add: paint_def)
qed

section \<open>The pointer over a picture\<close>

definition mouse_fits :: "Mouse \<Rightarrow> VGA \<Rightarrow> bool" where
  "mouse_fits mo v \<longleftrightarrow> in_bounds v (m_x mo) (m_y mo) 7 7 \<and> length (m_hidden_by_mouse mo) = 49"

definition pointer_over :: "VGA \<Rightarrow> Mouse \<Rightarrow> VGA \<Rightarrow> bool" where
  "pointer_over b mo v \<longleftrightarrow> vga_ok b \<and> mouse_fits mo b \<and> m_hidden_by_mouse mo = section_of b (m_x mo) (m_y mo) 7 7
     \<and> v = paint (current_sprite (m_hidden_by_mouse mo)) (m_x mo) (m_y mo) 7 7 b"

definition moved :: "u16 \<Rightarrow> int \<Rightarrow> nat \<Rightarrow> int" where
  "moved x delta n = max 0 (min (int (unat x) + delta) (int n - 8))"

lemma clamp_moved:
  fixes s :: u32 and x :: u16
  assumes "8 \<le> unat s" "unat s \<le> 32768"
  shows "math_clamp (int (unat x) + d) 0 (sint (s - 7 - 1)) = moved x d (unat s)"
    "unat (word_of_int (moved x d (unat s)) :: u16) + 7 < unat s"
    "int (unat (word_of_int (moved x d (unat s)) :: u16)) = moved x d (unat s)"
proof -
  have s: "8 \<le> int (unat s)" "int (unat s) \<le> 32768" using assms by linarith+
  have k: "sint (word_of_int k :: u32) = k" if "0 \<le> k" "k < 65536" for k
    using that by (simp add: signed_of_int signed_take_bit_int_eq_self)
  have e: "s - 7 - 1 = word_of_int (int (unat s) - 8)" by simp
  have "sint (s - 7 - 1) = int (unat s) - 8" unfolding e by (rule k) (use assms in linarith)+
  then show "math_clamp (int (unat x) + d) 0 (sint (s - 7 - 1)) = moved x d (unat s)"
    using s by (auto simp: math_clamp_def moved_def Let_def)
  have b: "0 \<le> moved x d (unat s)" "moved x d (unat s) \<le> int (unat s) - 8" "moved x d (unat s) < 65536"
    using s by (auto simp: moved_def min_def)
  then have u: "uint (word_of_int (moved x d (unat s)) :: u16) = moved x d (unat s)"
    by (simp add: unsigned_of_int take_bit_int_eq_self)
  then show e: "int (unat (word_of_int (moved x d (unat s)) :: u16)) = moved x d (unat s)" by simp
  show "unat (word_of_int (moved x d (unat s)) :: u16) + 7 < unat s" using e b(2) by linarith
qed

lemma length_current_sprite: "length h = 49 \<Longrightarrow> length (current_sprite h) = 49"
  by (simp add: current_sprite_def sprite_template_def sprite_def)

lemma mouse_draw_eq:
  assumes ok: "vga_ok v" and fits: "mouse_fits mo v"
  obtains mo' v' where "Mouse_draw e mo v = Inr (mo', v')"
    "pointer_over (paint (m_hidden_by_mouse mo) (m_x mo) (m_y mo) 7 7 v) mo' v'"
    "int (unat (m_x mo')) = moved (m_x mo) (sint (delta_x e)) (unat (vga_width v))"
    "int (unat (m_y mo')) = moved (m_y mo) (- sint (delta_y e)) (unat (vga_height v))"
proof -
  let ?b = "paint (m_hidden_by_mouse mo) (m_x mo) (m_y mo) 7 7 v"
  have w: "8 \<le> unat (vga_width v)" "unat (vga_width v) \<le> 32768" "8 \<le> unat (vga_height v)" "unat (vga_height v) \<le> 32768"
    using ok by (simp_all add: vga_ok_def)
  define x :: u16 where "x = word_of_int (moved (m_x mo) (sint (delta_x e)) (unat (vga_width v)))"
  define y :: u16 where "y = word_of_int (moved (m_y mo) (- sint (delta_y e)) (unat (vga_height v)))"
  note cx = clamp_moved [OF w(1,2), of "m_x mo" "sint (delta_x e)", folded x_def]
  note cy = clamp_moved [OF w(3,4), of "m_y mo" "- sint (delta_y e)", folded y_def]
  have inb: "in_bounds v x y 7 7" using cx(2) cy(2) by (simp add: in_bounds_def)
  have d1: "VGA_draw (m_hidden_by_mouse mo) (m_x mo) (m_y mo) 7 7 v = Inr ?b"
    using fits by (intro VGA_draw_eq [OF ok]) (simp_all add: mouse_fits_def)
  have d2: "copy_framebuffer_section (m_hidden_by_mouse mo) x y 7 7 ?b = Inr (section_of ?b x y 7 7)"
    using fits ok inb by (intro copy_section_eq) (simp_all add: mouse_fits_def)
  let ?h = "section_of ?b x y 7 7"
  have d3: "VGA_draw (current_sprite ?h) x y 7 7 ?b = Inr (paint (current_sprite ?h) x y 7 7 ?b)"
    using ok inb by (intro VGA_draw_eq) (simp_all add: length_current_sprite)
  have "Mouse_draw e mo v = Inr (\<lparr>m_x = x, m_y = y, m_hidden_by_mouse = ?h\<rparr>, paint (current_sprite ?h) x y 7 7 ?b)"
    using d1 d2 d3 cx(1) cy(1) by (simp add: Mouse_draw_def x_def y_def Let_def)
  then show thesis
    by (rule that) (use ok inb cx(3) cy(3) in \<open>simp_all add: pointer_over_def mouse_fits_def\<close>)
qed

section \<open>Properties\<close>

text \<open>
  C16: drawing stays in its rectangle. A rectangle that does not fit on the screen stops the
  server; one that does, with a buffer of enough pixels, is drawn, the loops end, every pixel
  of the rectangle is the pixel of the buffer at the same place, and every other pixel keeps
  its colour.
\<close>

theorem draw_changes_rectangle:
  assumes "vga_ok v" "unat w * unat h \<le> length buf"
  shows "if unat x + unat w < unat (vga_width v) \<and> unat y + unat h < unat (vga_height v)
    then \<exists>fb. VGA_draw buf x y w h v = Inr (v\<lparr>frame_buffer := fb\<rparr>) \<and> length fb = length (frame_buffer v)
      \<and> (\<forall>d<length fb. let r = d div unat (vga_width v); c = d mod unat (vga_width v)
           in fb ! d = (if unat y \<le> r \<and> r < unat y + unat h \<and> unat x \<le> c \<and> c < unat x + unat w
                        then buf ! ((r - unat y) * unat w + (c - unat x)) else frame_buffer v ! d))
    else VGA_draw buf x y w h v = Inl NotReached"
proof (cases "in_bounds v x y w h")
  case True
  then show ?thesis
    using VGA_draw_eq [OF assms(1) True assms(2)]
    by (auto simp: in_bounds_def paint_def in_rect_def rect_index_def Let_def)
qed (auto simp: in_bounds_def VGA_draw_outside)

definition small_screen :: VGA where
  "small_screen = \<lparr>vga_width = 16, vga_height = 8, vga_pitch = 64, frame_buffer = replicate 256 0xaaaaaaaa\<rparr>"

lemma small_screen_ok: "vga_ok small_screen"
  by (simp add: vga_ok_def small_screen_def)

theorem draw_changes_rectangle_witness:
  "(\<exists>fb. VGA_draw [1, 2] 3 2 2 1 small_screen = Inr (small_screen\<lparr>frame_buffer := fb\<rparr>) \<and> fb ! 35 = 1 \<and> fb ! 36 = 2
      \<and> fb ! 37 = 0xaaaaaaaa)
   \<and> VGA_draw [1, 2] 14 2 2 1 small_screen = Inl NotReached"
proof -
  have "\<exists>fb. VGA_draw [1, 2] 3 2 2 1 small_screen = Inr (small_screen\<lparr>frame_buffer := fb\<rparr>)
      \<and> length fb = length (frame_buffer small_screen)
      \<and> (\<forall>d<length fb. let r = d div 16; c = d mod 16
           in fb ! d = (if 2 \<le> r \<and> r < 3 \<and> 3 \<le> c \<and> c < 5 then [1, 2] ! ((r - 2) * 2 + (c - 3)) else frame_buffer small_screen ! d))"
    using draw_changes_rectangle [OF small_screen_ok, of 2 1 "[1, 2]" 3 2] by (simp add: small_screen_def Let_def cong: if_cong)
  then obtain fb where fb: "VGA_draw [1, 2] 3 2 2 1 small_screen = Inr (small_screen\<lparr>frame_buffer := fb\<rparr>)"
    "length fb = 256"
    "\<And>d. d < 256 \<Longrightarrow> fb ! d = (if 2 \<le> d div 16 \<and> d div 16 < 3 \<and> 3 \<le> d mod 16 \<and> d mod 16 < 5
        then [1, 2] ! ((d div 16 - 2) * 2 + (d mod 16 - 3)) else 0xaaaaaaaa)"
    by (auto simp: small_screen_def Let_def)
  moreover have "VGA_draw [1, 2] 14 2 2 1 small_screen = Inl NotReached"
    using draw_changes_rectangle [OF small_screen_ok, of 2 1 "[1, 2]" 14 2] by (simp add: small_screen_def)
  ultimately show ?thesis using fb(3) [of 35] fb(3) [of 36] fb(3) [of 37] by auto
qed

text \<open>
  C17: the pointer moves over the picture without changing it. When the screen shows a picture
  with the pointer over it, an event moves the pointer by its distances, up to the edges of the
  screen, and the screen then shows the same picture with the pointer at the new place.
\<close>

theorem pointer_keeps_picture:
  assumes "pointer_over b mo v"
  shows "\<exists>mo' v'. Mouse_draw e mo v = Inr (mo', v') \<and> pointer_over b mo' v'
    \<and> int (unat (m_x mo')) = max 0 (min (int (unat (m_x mo)) + sint (delta_x e)) (int (unat (vga_width b)) - 8))
    \<and> int (unat (m_y mo')) = max 0 (min (int (unat (m_y mo)) - sint (delta_y e)) (int (unat (vga_height b)) - 8))"
proof -
  have v: "vga_ok v" "mouse_fits mo v" "vga_width v = vga_width b" "vga_height v = vga_height b"
    using assms by (auto simp: pointer_over_def mouse_fits_def)
  have "paint (m_hidden_by_mouse mo) (m_x mo) (m_y mo) 7 7 v = b"
    using assms paint_section [of b "m_x mo" "m_y mo" 7 7] by (auto simp: pointer_over_def mouse_fits_def)
  then obtain mo' v' where "Mouse_draw e mo v = Inr (mo', v')" "pointer_over b mo' v'"
      "int (unat (m_x mo')) = moved (m_x mo) (sint (delta_x e)) (unat (vga_width b))"
      "int (unat (m_y mo')) = moved (m_y mo) (- sint (delta_y e)) (unat (vga_height b))"
    using mouse_draw_eq [OF v(1,2), of e] v(3,4) by metis
  then show ?thesis by (intro exI conjI) (assumption | simp add: moved_def)+
qed

theorem pointer_keeps_picture_witness:
  "\<exists>mo v mo' v'. pointer_over small_screen mo v
    \<and> Mouse_draw \<lparr>delta_x = 3, delta_y = 5, left_button = False, right_button = False\<rparr> mo v = Inr (mo', v')
    \<and> pointer_over small_screen mo' v' \<and> int (unat (m_x mo')) = 3 \<and> int (unat (m_y mo')) = 0"
proof -
  let ?mo = "\<lparr>m_x = 0, m_y = 0, m_hidden_by_mouse = section_of small_screen 0 0 7 7\<rparr>"
  have "pointer_over small_screen ?mo (paint (current_sprite (section_of small_screen 0 0 7 7)) 0 0 7 7 small_screen)"
    using small_screen_ok by (simp add: pointer_over_def mouse_fits_def in_bounds_def small_screen_def)
  from this pointer_keeps_picture [OF this,
      of "\<lparr>delta_x = 3, delta_y = 5, left_button = False, right_button = False\<rparr>"]
  show ?thesis by (auto simp: small_screen_def)
qed

text \<open>
  The first event after the start draws the pointer too, but the pixels it gives back are the
  zeros of the constructor: a black square stays where the pointer was placed first.
\<close>

theorem first_move_leaves_square:
  assumes "vga_ok v" "unat (vga_width v) \<ge> 16" "unat (vga_height v) \<ge> 16"
  shows "\<exists>mo' v'. Mouse_draw e (Mouse_new (vga_width v div 2) (vga_height v div 2)) v = Inr (mo', v')
    \<and> pointer_over (paint (replicate 49 0) (ucast (vga_width v div 2)) (ucast (vga_height v div 2)) 7 7 v) mo' v'"
proof -
  have u: "unat (ucast (a div 2) :: u16) = unat a div 2" if "unat a \<le> 32768" for a :: u32
    using that by (simp add: unat_div unsigned_ucast_eq take_bit_nat_eq_self)
  have half: "n div 2 + 7 < n" if "16 \<le> n" for n :: nat using that by linarith
  let ?mo = "Mouse_new (vga_width v div 2) (vga_height v div 2)"
  have "mouse_fits ?mo v"
    using assms u half by (simp add: mouse_fits_def Mouse_new_def in_bounds_def vga_ok_def not_le)
  then obtain mo' v' where "Mouse_draw e ?mo v = Inr (mo', v')"
      "pointer_over (paint (m_hidden_by_mouse ?mo) (m_x ?mo) (m_y ?mo) 7 7 v) mo' v'"
    by (rule mouse_draw_eq [OF assms(1)])
  then show ?thesis by (simp add: Mouse_new_def)
qed

end
