(* ===== verification/Window_Server.thy ===== *)
theory Window_Server
  imports Window_Messages Window_Drawing Shared_Memory
begin

text \<open>
  The window server: \<^verbatim>\<open>userspace/WindowServer/Window.cpp\<close> and \<^verbatim>\<open>WindowServerHandler.cpp\<close>, on
  the drawing of \<open>Window_Drawing\<close>, the messages of \<open>Window_Messages\<close> and the kernel's shared
  memory. One iteration of the endless loop of \<^verbatim>\<open>run\<close> is \<open>run_step\<close>; the invariant \<open>server_ok\<close> says
  that every window fits on the screen and that one of them has the focus.
\<close>

section \<open>Windows\<close>

record Window =
  w_id :: u32
  w_owner_pid :: nat
  w_buff_guid :: u32
  w_buff_addr :: u32
  w_buff_size :: u32
  w_x :: u16
  w_y :: u16
  w_width :: u16
  w_height :: u16
  w_focused :: bool

definition rectangle :: "Window \<Rightarrow> Rectangle" where
  "rectangle w = \<lparr>rect_x = int (unat (w_x w)), rect_y = int (unat (w_y w)),
     rect_width = ucast (w_width w), rect_height = ucast (w_height w)\<rparr>"

definition banner_rectangle :: "Window \<Rightarrow> Rectangle" where
  "banner_rectangle w = \<lparr>rect_x = int (unat (w_x w)), rect_y = int (unat (w_y w)) - 15,
     rect_width = ucast (w_width w), rect_height = 15\<rparr>"

definition move_x :: "u32 \<Rightarrow> Window \<Rightarrow> Window" where
  "move_x delta w = w\<lparr>w_x := w_x w + ucast delta\<rparr>"

definition move_y :: "u32 \<Rightarrow> Window \<Rightarrow> Window" where
  "move_y delta w = w\<lparr>w_y := w_y w + ucast delta\<rparr>"

section \<open>The server\<close>

datatype MouseStateType = Normal | WindowDrag

text \<open>
  Beside the fields of \<^verbatim>\<open>WindowServerHandler\<close>: the process and the kernel it runs on, the kernel's
  next number for \<^verbatim>\<open>GenerateGUID\<close>, the pixels behind an address of shared memory, which the clients
  write, and the two static offsets of \<^verbatim>\<open>Window.cpp\<close>.
\<close>

record server =
  sv_pid :: nat
  sv_kernel :: shm_state
  sv_guid :: u32
  sv_pixels :: "u32 \<Rightarrow> u32 list"
  sv_vga :: VGA
  sv_windows :: "Window list"
  sv_mouse :: Mouse
  sv_focused_idx :: int
  sv_mouse_state :: "MouseStateType \<times> u32"
  sv_x_offset :: u32
  sv_y_offset :: u32

definition generate_guid :: "server \<Rightarrow> u32 \<times> server" where
  "generate_guid sv = (sv_guid sv, sv\<lparr>sv_guid := sv_guid sv + 1\<rparr>)"

abbreviation DEFAULT_X :: u32 where "DEFAULT_X \<equiv> 100"
abbreviation DEFAULT_Y :: u32 where "DEFAULT_Y \<equiv> 100"

definition Window_new :: "CreateWindowRequest \<Rightarrow> nat \<Rightarrow> server \<Rightarrow> (Window \<times> server) result" where
  "Window_new request pid sv =
     (let (id, sv1) = generate_guid sv; (buff_guid, sv2) = generate_guid sv1;
          buff_size = ucast (req_height request) * ucast (req_width request) * 4
      in rbind (round_up buff_size PAGE_SIZE) (\<lambda>sz.
         rbind (syscall_create_shared_memory (sv_pid sv) (unat buff_guid) sz (sv_kernel sv2)) (\<lambda>((rc, addr), k).
         rbind (assert_that (rc = E_OK)) (\<lambda>_.
           Inr (\<lparr>w_id = id, w_owner_pid = pid, w_buff_guid = buff_guid,
                 w_buff_addr = (case addr of None \<Rightarrow> 0 | Some a \<Rightarrow> a), w_buff_size = buff_size,
                 w_x = ucast DEFAULT_X + ucast (sv_x_offset sv), w_y = ucast DEFAULT_Y + ucast (sv_y_offset sv),
                 w_width = req_width request, w_height = req_height request, w_focused = False\<rparr>,
                sv2\<lparr>sv_kernel := k, sv_x_offset := sv_x_offset sv + 150, sv_y_offset := sv_y_offset sv + 50\<rparr>)))))"

definition WindowServerHandler_new ::
  "nat \<Rightarrow> shm_state \<Rightarrow> u32 \<Rightarrow> (u32 \<Rightarrow> u32 list) \<Rightarrow> int \<Rightarrow> int \<Rightarrow> VGA \<Rightarrow> server result" where
  "WindowServerHandler_new pid k guid pixels keyboard_fd mouse_fd v =
     rbind (assert_that (keyboard_fd \<ge> 0)) (\<lambda>_.
     rbind (assert_that (mouse_fd \<ge> 0)) (\<lambda>_.
     rbind (VGA_clear v) (\<lambda>v1.
       Inr \<lparr>sv_pid = pid, sv_kernel = k, sv_guid = guid, sv_pixels = pixels, sv_vga = v1, sv_windows = [],
            sv_mouse = Mouse_new (vga_width v div 2) (vga_height v div 2), sv_focused_idx = - 1,
            sv_mouse_state = (Normal, 0), sv_x_offset = 0, sv_y_offset = 0\<rparr>)))"

section \<open>The windows of the server\<close>

fun get_window_from :: "Window list \<Rightarrow> u32 \<Rightarrow> Window result" where
  "get_window_from [] window_id = Inl NotReached"
| "get_window_from (w # ws) window_id = (if w_id w = window_id then Inr w else get_window_from ws window_id)"

definition get_window :: "u32 \<Rightarrow> server \<Rightarrow> Window result" where
  "get_window window_id sv = get_window_from (sv_windows sv) window_id"

fun set_window_in :: "Window list \<Rightarrow> u32 \<Rightarrow> Window \<Rightarrow> Window list result" where
  "set_window_in [] window_id w' = Inl NotReached"
| "set_window_in (w # ws) window_id w' =
     (if w_id w = window_id then Inr (w' # ws)
      else rbind (set_window_in ws window_id w') (\<lambda>ws'. Inr (w # ws')))"

definition set_window :: "u32 \<Rightarrow> Window \<Rightarrow> server \<Rightarrow> server result" where
  "set_window window_id w sv =
     rbind (set_window_in (sv_windows sv) window_id w) (\<lambda>ws. Inr (sv\<lparr>sv_windows := ws\<rparr>))"

definition draw_window :: "Window \<Rightarrow> server \<Rightarrow> server result" where
  "draw_window w sv =
     (let b = banner_rectangle w;
          window_banner = replicate (unat (ucast (w_width w) * rect_height b))
            (if w_focused w then 0x00ff0000 else 0x0000ffff)
      in rbind (VGA_draw window_banner (word_of_int (rect_x b)) (word_of_int (rect_y b))
                  (ucast (rect_width b)) (ucast (rect_height b)) (sv_vga sv)) (\<lambda>v1.
         rbind (VGA_draw (sv_pixels sv (w_buff_addr w)) (w_x w) (w_y w) (w_width w) (w_height w) v1) (\<lambda>v2.
           Inr (sv\<lparr>sv_vga := v2\<rparr>))))"

text \<open>The index of the focused window, and changing its mark.\<close>

definition focused_window :: "server \<Rightarrow> nat result" where
  "focused_window sv =
     rbind (assert_that (sv_focused_idx sv \<ge> 0)) (\<lambda>_.
     rbind (assert_that (nat (sv_focused_idx sv) < length (sv_windows sv))) (\<lambda>_.
       Inr (nat (sv_focused_idx sv))))"

definition set_focused :: "bool \<Rightarrow> server \<Rightarrow> server result" where
  "set_focused b sv =
     rbind (focused_window sv) (\<lambda>i. Inr (sv\<lparr>sv_windows := (sv_windows sv)[i := (sv_windows sv ! i)\<lparr>w_focused := b\<rparr>]\<rparr>))"

definition set_focused_window :: "nat \<Rightarrow> server \<Rightarrow> server result" where
  "set_focused_window index sv =
     rbind (if sv_focused_idx sv \<noteq> - 1
            then rbind (set_focused False sv) (\<lambda>sv1.
                   draw_window (sv_windows sv1 ! nat (sv_focused_idx sv1)) sv1)
            else Inr sv) (\<lambda>sv2.
       set_focused True (sv2\<lparr>sv_focused_idx := int index\<rparr>))"

definition point_in_screen :: "VGA \<Rightarrow> Point \<Rightarrow> bool" where
  "point_in_screen v p \<longleftrightarrow> pt_x p \<ge> 0 \<and> pt_y p \<ge> 0
     \<and> (word_of_int (pt_x p) :: u32) < vga_width v \<and> (word_of_int (pt_y p) :: u32) < vga_height v"

definition window_in_screen :: "VGA \<Rightarrow> Window \<Rightarrow> bool" where
  "window_in_screen v w \<longleftrightarrow>
     point_in_screen v \<lparr>pt_x = int (unat (w_x w)), pt_y = int (unat (w_y w)) - 15\<rparr>
     \<and> point_in_screen v \<lparr>pt_x = int (unat (w_x w)) + int (unat (w_width w)),
                         pt_y = int (unat (w_y w)) + int (unat (w_height w))\<rparr>"

section \<open>Mouse and keyboard\<close>

definition set_drag :: "u16 \<Rightarrow> server \<Rightarrow> server" where
  "set_drag wid sv = sv\<lparr>sv_mouse_state := (WindowDrag, ucast wid)\<rparr>"

definition set_normal :: "server \<Rightarrow> server" where
  "set_normal sv = sv\<lparr>sv_mouse_state := (Normal, 0)\<rparr>"

text \<open>A call that works on the processes of the kernel.\<close>

definition on_kernel :: "(sched \<Rightarrow> ('a \<times> sched) result) \<Rightarrow> server \<Rightarrow> ('a \<times> server) result" where
  "on_kernel f sv =
     rbind (f (shm_sched (sv_kernel sv))) (\<lambda>(r, s).
       Inr (r, sv\<lparr>sv_kernel := (sv_kernel sv)\<lparr>shm_sched := s\<rparr>\<rparr>))"

definition click_banner :: "nat \<Rightarrow> server \<Rightarrow> server result" where
  "click_banner i sv =
     (if intersects (banner_rectangle (sv_windows sv ! i)) (Mouse_point (sv_mouse sv))
      then rbind (set_focused_window i sv) (\<lambda>sv1.
             let sv2 = set_drag (ucast (w_id (sv_windows sv1 ! i))) sv1
             in draw_window (sv_windows sv2 ! i) sv2)
      else Inr sv)"

definition click_window :: "RawMouseEvent \<Rightarrow> nat \<Rightarrow> server \<Rightarrow> server result" where
  "click_window event i sv =
     (if intersects (rectangle (sv_windows sv ! i)) (Mouse_point (sv_mouse sv))
      then rbind (set_focused_window i sv) (\<lambda>sv1.
           let w = sv_windows sv1 ! i;
               translated = \<lparr>me_x = m_x (sv_mouse sv1) - w_x w, me_y = m_y (sv_mouse sv1) - w_y w,
                             left_click = left_button event, right_click = right_button event\<rparr>
           in rbind (on_kernel (send_mouse_event (sv_pid sv1) (w_owner_pid w) translated) sv1) (\<lambda>(_, sv2).
                draw_window (sv_windows sv2 ! i) sv2))
      else Inr sv)"

definition handle_mouse_event :: "RawMouseEvent \<Rightarrow> server \<Rightarrow> server result" where
  "handle_mouse_event event sv =
     (if left_button event
      then rfold (\<lambda>i sv. rbind (click_banner i sv) (click_window event i)) [0..<length (sv_windows sv)] sv
      else Inr sv)"

definition handle_window_drag :: "RawMouseEvent \<Rightarrow> u32 \<Rightarrow> server \<Rightarrow> server result" where
  "handle_window_drag event window_id sv =
     rbind (get_window (snd (sv_mouse_state sv)) sv) (\<lambda>w.
       let dragged = move_y (- delta_y event) (move_x (delta_x event) w)
       in if \<not> window_in_screen (sv_vga sv) dragged then Inr sv
          else
            let bh = rect_height (banner_rectangle w);
                background = replicate (unat (ucast (w_width w) * (ucast (w_height w) + bh))) 0xaaaaaaaa
            in rbind (VGA_draw background (w_x w) (ucast (ucast (w_y w) - bh)) (w_width w)
                        (ucast (ucast (w_height w) + bh)) (sv_vga sv)) (\<lambda>v1.
               rbind (set_window window_id dragged (sv\<lparr>sv_vga := v1\<rparr>)) (\<lambda>sv1.
                 rfold draw_window (sv_windows sv1) sv1)))"

text \<open>What \<^verbatim>\<open>read\<close> returns and the event it stores are arguments.\<close>

definition handle_pending_keyboard_event :: "int \<Rightarrow> KeyEvent \<Rightarrow> server \<Rightarrow> server result" where
  "handle_pending_keyboard_event read_rc event sv =
     rbind (assert_that (read_rc = 1)) (\<lambda>_.
       if sv_focused_idx sv = - 1 then Inr sv
       else rbind (focused_window sv) (\<lambda>i.
            rbind (on_kernel (send_key_event (sv_pid sv) (w_owner_pid (sv_windows sv ! i)) event) sv) (\<lambda>(_, sv1).
              Inr sv1)))"

definition handle_pending_mouse_event :: "int \<Rightarrow> RawMouseEvent \<Rightarrow> server \<Rightarrow> server result" where
  "handle_pending_mouse_event read_rc event sv =
     rbind (assert_that (read_rc = 1)) (\<lambda>_.
     rbind (Mouse_draw event (sv_mouse sv) (sv_vga sv)) (\<lambda>(mo, v).
       let sv1 = sv\<lparr>sv_mouse := mo, sv_vga := v\<rparr>
       in case fst (sv_mouse_state sv1) of
            WindowDrag \<Rightarrow>
              if \<not> left_button event then Inr (set_normal sv1)
              else handle_window_drag event (snd (sv_mouse_state sv1)) sv1
          | Normal \<Rightarrow> handle_mouse_event event sv1))"

section \<open>Messages\<close>

definition handle_create_window :: "nat \<Rightarrow> server \<Rightarrow> server result" where
  "handle_create_window pid sv =
     rbind (on_kernel (recv_create_window_request (sv_pid sv) pid False) sv) (\<lambda>(request, sv1).
     case request of
       None \<Rightarrow> Inl AssertionFailed
     | Some r \<Rightarrow>
         rbind (Window_new r pid sv1) (\<lambda>(w, sv2).
         rbind (on_kernel (send_create_window_response (sv_pid sv2) pid
                  \<lparr>window_guid = w_id w, resp_buff_guid = w_buff_guid w\<rparr>) sv2) (\<lambda>(rc, sv3).
         rbind (assert_that rc) (\<lambda>_.
         let sv4 = sv3\<lparr>sv_windows := sv_windows sv3 @ [w]\<rparr>
         in rbind (set_focused_window (length (sv_windows sv4) - 1) sv4) (\<lambda>sv5.
              if sv_focused_idx sv5 = - 1 then set_focused_window (length (sv_windows sv5) - 1) sv5
              else Inr sv5)))))"

definition handle_draw_window :: "nat \<Rightarrow> server \<Rightarrow> server result" where
  "handle_draw_window pid sv =
     rbind (on_kernel (recv_draw_request (sv_pid sv) pid False) sv) (\<lambda>(request, sv1).
     case request of
       None \<Rightarrow> Inl AssertionFailed
     | Some guid \<Rightarrow> rbind (get_window guid sv1) (\<lambda>w. draw_window w sv1))"

definition handle_message_code :: "u32 \<Rightarrow> nat \<Rightarrow> server \<Rightarrow> server result" where
  "handle_message_code code pid sv =
     (if code = code_value CreateWindowRequest_code then handle_create_window pid sv
      else if code = code_value DrawWindow_code then handle_draw_window pid sv
      else Inl NotReached)"

text \<open>What \<^verbatim>\<open>block_until_pending\<close> reports, with what the read of the ready device gives.\<close>

datatype pending =
    PendingMessageReady
  | KeyboardReady int KeyEvent
  | MouseReady int RawMouseEvent

fun run_step :: "pending \<Rightarrow> server \<Rightarrow> server result" where
  "run_step PendingMessageReady sv =
     rbind (on_kernel (std_get_message (sv_pid sv) 4) sv) (\<lambda>((n, buf, pid), sv1).
     rbind (assert_that (n = 4)) (\<lambda>_.
       case u32_of_bytes buf of
         None \<Rightarrow> Inl BadAccess
       | Some code \<Rightarrow> handle_message_code code pid sv1))"
| "run_step (KeyboardReady rc e) sv = handle_pending_keyboard_event rc e sv"
| "run_step (MouseReady rc e) sv = handle_pending_mouse_event rc e sv"

section \<open>Windows that fit\<close>

definition same_screen :: "VGA \<Rightarrow> VGA \<Rightarrow> bool" where
  "same_screen v v' \<longleftrightarrow> vga_width v' = vga_width v \<and> vga_height v' = vga_height v \<and> (vga_ok v \<longrightarrow> vga_ok v')"

lemma same_screen_refl [simp]: "same_screen v v"
  by (simp add: same_screen_def)

lemma same_screen_paint [simp]: "same_screen v (paint buf x y w h v)"
  by (simp add: same_screen_def)

definition win_fits :: "VGA \<Rightarrow> Window \<Rightarrow> bool" where
  "win_fits v w \<longleftrightarrow> unat (w_x w) + unat (w_width w) < unat (vga_width v) \<and> 15 \<le> unat (w_y w)
     \<and> unat (w_y w) + unat (w_height w) < unat (vga_height v)"

definition win_ok :: "VGA \<Rightarrow> (u32 \<Rightarrow> u32 list) \<Rightarrow> Window \<Rightarrow> bool" where
  "win_ok v px w \<longleftrightarrow> win_fits v w \<and> unat (w_width w) * unat (w_height w) \<le> length (px (w_buff_addr w))
     \<and> unat (w_id w) < 65536"

lemma win_ok_screen: "same_screen v v' \<Longrightarrow> win_ok v' px w = win_ok v px w"
  by (simp add: same_screen_def win_ok_def win_fits_def)

lemma win_ok_focused [simp]: "win_ok v px (w\<lparr>w_focused := b\<rparr>) = win_ok v px w"
  by (simp add: win_ok_def win_fits_def)

text \<open>The banner lies on the fifteen rows above the window.\<close>

lemma banner_top:
  fixes y :: u16
  assumes "15 \<le> unat y"
  shows "unat (word_of_int (int (unat y) - 15) :: u16) = unat y - 15" "unat (y - 15) = unat y - 15"
proof -
  show e: "unat (y - 15) = unat y - 15" using assms by (simp add: unat_sub_if')
  then show "unat (word_of_int (int (unat y) - 15) :: u16) = unat y - 15" by simp
qed

lemma banner_wraps:
  fixes y :: u16
  assumes "\<not> 15 \<le> unat y"
  shows "unat (word_of_int (int (unat y) - 15) :: u16) = unat y + 65521"
proof -
  have "word_of_int (int (unat y) - 15) = y - 15" by simp
  then show ?thesis using assms by (simp add: unat_sub_if')
qed

lemma banner_size: "unat (ucast w * 15 :: u32) = unat w * 15" for w :: u16
proof -
  have "unat w * 15 < 4294967296" using unat_u16_less [of w] by linarith
  then show ?thesis using unat_ucast_up [of w, where 'b = 32] by (simp add: unat_word_ariths)
qed

lemma ucast_down_up: "ucast (ucast w :: u32) = w" for w :: u16
  by (rule bit_word_eqI) (simp add: bit_simps)

lemma ucast_up_down: "unat w < 65536 \<Longrightarrow> ucast (ucast w :: u16) = w" for w :: u32
proof -
  assume "unat w < 65536"
  then have "take_bit 16 w = w"
    by (intro word_unat_eq_iff [THEN iffD2]) (simp add: unsigned_take_bit_eq take_bit_nat_eq_self)
  moreover have "(ucast (ucast w :: u16) :: u32) = take_bit 16 w" by (rule bit_word_eqI) (auto simp: bit_simps)
  ultimately show ?thesis by simp
qed

lemma draw_window_ok:
  assumes ok: "vga_ok (sv_vga sv)" and w: "win_ok (sv_vga sv) (sv_pixels sv) w"
  obtains v' where "draw_window w sv = Inr (sv\<lparr>sv_vga := v'\<rparr>)" "same_screen (sv_vga sv) v'"
proof -
  let ?v = "sv_vga sv" and ?by = "word_of_int (int (unat (w_y w)) - 15) :: u16"
  let ?buf = "replicate (unat (ucast (w_width w) * 15 :: u32)) (if w_focused w then 0x00ff0000 else 0x0000ffff)"
  have fit: "in_bounds ?v (w_x w) ?by (w_width w) 15" "in_bounds ?v (w_x w) (w_y w) (w_width w) (w_height w)"
    using w banner_top(1) [of "w_y w"] by (auto simp: win_ok_def win_fits_def in_bounds_def)
  have "VGA_draw ?buf (w_x w) ?by (w_width w) 15 ?v = Inr (paint ?buf (w_x w) ?by (w_width w) 15 ?v)"
    by (rule VGA_draw_eq [OF ok fit(1)]) (simp add: banner_size)
  moreover have "VGA_draw (sv_pixels sv (w_buff_addr w)) (w_x w) (w_y w) (w_width w) (w_height w) (paint ?buf (w_x w) ?by (w_width w) 15 ?v)
      = Inr (paint (sv_pixels sv (w_buff_addr w)) (w_x w) (w_y w) (w_width w) (w_height w) (paint ?buf (w_x w) ?by (w_width w) 15 ?v))"
    using ok fit(2) w by (intro VGA_draw_eq) (simp_all add: win_ok_def)
  ultimately show thesis
    by (intro that [of "paint (sv_pixels sv (w_buff_addr w)) (w_x w) (w_y w) (w_width w) (w_height w)
          (paint ?buf (w_x w) ?by (w_width w) 15 ?v)"])
      (simp_all add: draw_window_def banner_rectangle_def Let_def same_screen_def ucast_down_up
        del: rbind_Inr_iff split del: if_split)
qed

section \<open>One window has the focus\<close>

definition focus_on :: "nat \<Rightarrow> Window list \<Rightarrow> Window list" where
  "focus_on i ws = map (\<lambda>j. (ws ! j)\<lparr>w_focused := (j = i)\<rparr>) [0..<length ws]"

lemma length_focus_on [simp]: "length (focus_on i ws) = length ws"
  by (simp add: focus_on_def)

lemma nth_focus_on [simp]: "j < length ws \<Longrightarrow> focus_on i ws ! j = (ws ! j)\<lparr>w_focused := (j = i)\<rparr>"
  by (simp add: focus_on_def)

lemma focus_on_twice [simp]: "focus_on i (focus_on j ws) = focus_on i ws"
  by (rule nth_equalityI) simp_all

lemma focus_on_mem: "i < length ws \<Longrightarrow> (ws ! i)\<lparr>w_focused := True\<rparr> \<in> set (focus_on i ws)"
  using nth_mem [of i "focus_on i ws"] by simp

lemma ball_focus_on: "(\<And>w b. P (w\<lparr>w_focused := b\<rparr>) = P w) \<Longrightarrow> (\<forall>w\<in>set (focus_on i ws). P w) \<longleftrightarrow> (\<forall>w\<in>set ws. P w)"
  by (auto simp: focus_on_def all_set_conv_all_nth)

definition focus_ok :: "int \<Rightarrow> Window list \<Rightarrow> bool" where
  "focus_ok idx ws \<longleftrightarrow> idx = - 1 \<and> (\<forall>w\<in>set ws. \<not> w_focused w)
     \<or> (\<exists>i<length ws. idx = int i \<and> ws = focus_on i ws)"

lemma focus_ok_on: "i < length ws \<Longrightarrow> focus_ok (int i) (focus_on i ws)"
  unfolding focus_ok_def by (intro disjI2 exI [of _ i]) simp

lemma window_same_focus: "(w\<lparr>w_focused := b\<rparr> = w) \<longleftrightarrow> w_focused w = b" for w :: Window
  by (cases w) auto

lemma focus_on_same: "ws = focus_on i ws \<longleftrightarrow> (\<forall>j<length ws. w_focused (ws ! j) = (j = i))"
  by (auto simp: list_eq_iff_nth_eq window_same_focus eq_commute [of _ "_\<lparr>w_focused := _\<rparr>"])

lemma focus_ok_append:
  assumes "focus_ok idx ws" "\<not> w_focused w"
  shows "focus_ok idx (ws @ [w])"
  using assms(1) unfolding focus_ok_def
proof
  assume "\<exists>i<length ws. idx = int i \<and> ws = focus_on i ws"
  then obtain i where i: "i < length ws" "idx = int i" "\<forall>j<length ws. w_focused (ws ! j) = (j = i)"
    by (auto simp: focus_on_same)
  then have "ws @ [w] = focus_on i (ws @ [w])"
    unfolding focus_on_same using assms(2) by (auto simp: nth_append)
  then show "idx = - 1 \<and> (\<forall>w\<in>set (ws @ [w]). \<not> w_focused w) \<or> (\<exists>i<length (ws @ [w]). idx = int i \<and> ws @ [w] = focus_on i (ws @ [w]))"
    using i by (intro disjI2 exI [of _ i]) simp
qed (use assms(2) in auto)

lemma set_focused_window_ok:
  assumes ok: "vga_ok (sv_vga sv)" and ws: "\<forall>w\<in>set (sv_windows sv). win_ok (sv_vga sv) (sv_pixels sv) w"
    and f: "focus_ok (sv_focused_idx sv) (sv_windows sv)" and i: "i < length (sv_windows sv)"
  obtains v' where "set_focused_window i sv
      = Inr (sv\<lparr>sv_windows := focus_on i (sv_windows sv), sv_focused_idx := int i, sv_vga := v'\<rparr>)" "same_screen (sv_vga sv) v'"
  using f unfolding focus_ok_def
proof (elim disjE conjE exE)
  assume n: "sv_focused_idx sv = - 1" "\<forall>w\<in>set (sv_windows sv). \<not> w_focused w"
  have "(sv_windows sv)[i := (sv_windows sv ! i)\<lparr>w_focused := True\<rparr>] = focus_on i (sv_windows sv)"
    using n(2) i by (intro nth_equalityI) (auto simp: nth_list_update window_same_focus eq_commute [of _ "_\<lparr>w_focused := _\<rparr>"])
  then show thesis
    using n(1) i by (intro that [of "sv_vga sv"]) (simp_all add: set_focused_window_def set_focused_def focused_window_def)
next
  fix j
  assume j: "j < length (sv_windows sv)" "sv_focused_idx sv = int j" "sv_windows sv = focus_on j (sv_windows sv)"
  let ?ws = "(sv_windows sv)[j := (sv_windows sv ! j)\<lparr>w_focused := False\<rparr>]"
  let ?sv1 = "sv\<lparr>sv_windows := ?ws\<rparr>"
  have "win_ok (sv_vga ?sv1) (sv_pixels ?sv1) (?ws ! j)" using ws j(1) by simp
  then obtain v' where v': "draw_window (?ws ! j) ?sv1 = Inr (?sv1\<lparr>sv_vga := v'\<rparr>)" "same_screen (sv_vga sv) v'"
    using draw_window_ok [of ?sv1 "?ws ! j" thesis] draw_window_ok [of ?sv1 "?ws ! j"] ok by auto
  have "?ws[i := (?ws ! i)\<lparr>w_focused := True\<rparr>] = focus_on i (sv_windows sv)"
    using j(1,3) i unfolding focus_on_same
    by (intro nth_equalityI) (auto simp: nth_list_update window_same_focus eq_commute [of _ "_\<lparr>w_focused := _\<rparr>"])
  then show thesis
    using v' j(1,2) i by (intro that [of v']) (simp_all add: set_focused_window_def set_focused_def focused_window_def)
qed

section \<open>The invariant\<close>

definition procs_known :: "sched \<Rightarrow> bool" where
  "procs_known s \<longleftrightarrow> (\<forall>q\<in>set (m_runanble_list s @ m_blocked_list s). procs s q \<noteq> None)"

definition server_ok :: "server \<Rightarrow> bool" where
  "server_ok sv \<longleftrightarrow> vga_ok (sv_vga sv) \<and> mouse_fits (sv_mouse sv) (sv_vga sv)
     \<and> (\<forall>w\<in>set (sv_windows sv). win_ok (sv_vga sv) (sv_pixels sv) w)
     \<and> focus_ok (sv_focused_idx sv) (sv_windows sv)
     \<and> (fst (sv_mouse_state sv) = WindowDrag \<longrightarrow> (\<exists>w\<in>set (sv_windows sv). w_id w = snd (sv_mouse_state sv)))
     \<and> procs_known (shm_sched (sv_kernel sv))"

lemma mouse_fits_screen: "same_screen v v' \<Longrightarrow> mouse_fits mo v' = mouse_fits mo v"
  by (simp add: same_screen_def mouse_fits_def in_bounds_def)

lemma server_ok_screen: "server_ok sv \<Longrightarrow> same_screen (sv_vga sv) v' \<Longrightarrow> server_ok (sv\<lparr>sv_vga := v'\<rparr>)"
  using win_ok_screen [of "sv_vga sv" v'] mouse_fits_screen [of "sv_vga sv" v']
  by (simp add: server_ok_def) (simp add: same_screen_def)

text \<open>Sending an event never fails and touches message queues only.\<close>

lemma procs_known_set_queue [simp]: "procs_known (set_queue q ms s) = procs_known s"
proof -
  have "set (m_runanble_list (set_queue q ms s) @ m_blocked_list (set_queue q ms s)) = set (m_runanble_list s @ m_blocked_list s)"
    by (simp add: set_queue_def upd_proc_def)
  then show ?thesis by (simp only: procs_known_def set_queue_simps)
qed

lemma send_total:
  assumes "procs_known s"
  obtains b s' where "send_with_code self q code body s = Inr (b, s')" "procs_known s'"
proof (cases "get_process s q")
  case None
  then show thesis using assms that send_unknown by blast
next
  case (Some r)
  then have "listed s q" using assms by (auto simp: listed_def get_process_iff procs_known_def split: if_splits)
  from send_with_code_ok [OF this] show thesis using assms that procs_known_set_queue by blast
qed

lemma on_kernel_send:
  assumes "server_ok sv" "f = send_with_code self q code body"
  obtains b k where "on_kernel f sv = Inr (b, sv\<lparr>sv_kernel := k\<rparr>)" "server_ok (sv\<lparr>sv_kernel := k\<rparr>)"
proof -
  obtain b s' where s': "send_with_code self q code body (shm_sched (sv_kernel sv)) = Inr (b, s')" "procs_known s'"
    by (rule send_total [of "shm_sched (sv_kernel sv)" self q code body]) (use assms(1) in \<open>simp add: server_ok_def\<close>)
  show thesis
    by (rule that [of b "(sv_kernel sv)\<lparr>shm_sched := s'\<rparr>"]) (use s' assms in \<open>auto simp: on_kernel_def server_ok_def\<close>)
qed

lemma draw_window_keeps:
  assumes "server_ok sv" "w \<in> set (sv_windows sv)"
  obtains v' where "draw_window w sv = Inr (sv\<lparr>sv_vga := v'\<rparr>)" "server_ok (sv\<lparr>sv_vga := v'\<rparr>)"
proof -
  have "vga_ok (sv_vga sv)" "win_ok (sv_vga sv) (sv_pixels sv) w" using assms by (auto simp: server_ok_def)
  then obtain v' where "draw_window w sv = Inr (sv\<lparr>sv_vga := v'\<rparr>)" "same_screen (sv_vga sv) v'"
    by (rule draw_window_ok)
  then show thesis using server_ok_screen [OF assms(1)] that by blast
qed

lemma set_focused_window_keeps:
  assumes ok: "server_ok sv" and i: "i < length (sv_windows sv)"
  obtains v' where "set_focused_window i sv
      = Inr (sv\<lparr>sv_windows := focus_on i (sv_windows sv), sv_focused_idx := int i, sv_vga := v'\<rparr>)"
    "server_ok (sv\<lparr>sv_windows := focus_on i (sv_windows sv), sv_focused_idx := int i, sv_vga := v'\<rparr>)"
proof -
  obtain v' where v': "set_focused_window i sv
      = Inr (sv\<lparr>sv_windows := focus_on i (sv_windows sv), sv_focused_idx := int i, sv_vga := v'\<rparr>)" "same_screen (sv_vga sv) v'"
    using set_focused_window_ok [of sv i] ok i by (auto simp: server_ok_def)
  let ?sv = "sv\<lparr>sv_windows := focus_on i (sv_windows sv), sv_focused_idx := int i\<rparr>"
  have "(\<exists>w\<in>set (focus_on i (sv_windows sv)). w_id w = d) \<longleftrightarrow> (\<exists>w\<in>set (sv_windows sv). w_id w = d)" for d
    using ball_focus_on [of "\<lambda>w. w_id w \<noteq> d" i "sv_windows sv"] by auto
  then have "server_ok ?sv"
    using ok focus_ok_on [OF i] ball_focus_on [of "win_ok (sv_vga sv) (sv_pixels sv)" i "sv_windows sv"]
    by (simp add: server_ok_def)
  from server_ok_screen [OF this] v' show thesis by (intro that [of v']) simp_all
qed

lemma click_banner_keeps:
  assumes ok: "server_ok sv" and i: "i < length (sv_windows sv)"
  shows "\<exists>sv'. click_banner i sv = Inr sv' \<and> server_ok sv' \<and> length (sv_windows sv') = length (sv_windows sv)"
proof (cases "intersects (banner_rectangle (sv_windows sv ! i)) (Mouse_point (sv_mouse sv))")
  case True
  obtain v' where s: "set_focused_window i sv
      = Inr (sv\<lparr>sv_windows := focus_on i (sv_windows sv), sv_focused_idx := int i, sv_vga := v'\<rparr>)"
    "server_ok (sv\<lparr>sv_windows := focus_on i (sv_windows sv), sv_focused_idx := int i, sv_vga := v'\<rparr>)"
    by (rule set_focused_window_keeps [OF ok i])
  let ?sv1 = "sv\<lparr>sv_windows := focus_on i (sv_windows sv), sv_focused_idx := int i, sv_vga := v'\<rparr>"
  let ?w = "sv_windows ?sv1 ! i" and ?sv2 = "set_drag (ucast (w_id (sv_windows ?sv1 ! i))) ?sv1"
  have w: "?w \<in> set (sv_windows ?sv1)" using focus_on_mem [OF i] i by simp
  then have "unat (w_id ?w) < 65536" using s(2) by (auto simp: server_ok_def win_ok_def)
  then have "ucast (ucast (w_id ?w) :: u16) = w_id ?w"
    by (rule ucast_up_down)
  then have ok2: "server_ok ?sv2" using s(2) w by (auto simp: server_ok_def set_drag_def)
  obtain v2 where "draw_window ?w ?sv2 = Inr (?sv2\<lparr>sv_vga := v2\<rparr>)" "server_ok (?sv2\<lparr>sv_vga := v2\<rparr>)"
    by (rule draw_window_keeps [OF ok2, of ?w]) (use w in \<open>simp_all add: set_drag_def\<close>)
  then show ?thesis using True s(1) by (simp add: click_banner_def set_drag_def Let_def)
qed (use ok in \<open>simp add: click_banner_def\<close>)

lemma click_window_keeps:
  assumes ok: "server_ok sv" and i: "i < length (sv_windows sv)"
  shows "\<exists>sv'. click_window e i sv = Inr sv' \<and> server_ok sv' \<and> length (sv_windows sv') = length (sv_windows sv)"
proof (cases "intersects (rectangle (sv_windows sv ! i)) (Mouse_point (sv_mouse sv))")
  case True
  obtain v' where s: "set_focused_window i sv
      = Inr (sv\<lparr>sv_windows := focus_on i (sv_windows sv), sv_focused_idx := int i, sv_vga := v'\<rparr>)"
    "server_ok (sv\<lparr>sv_windows := focus_on i (sv_windows sv), sv_focused_idx := int i, sv_vga := v'\<rparr>)"
    by (rule set_focused_window_keeps [OF ok i])
  let ?sv1 = "sv\<lparr>sv_windows := focus_on i (sv_windows sv), sv_focused_idx := int i, sv_vga := v'\<rparr>"
  let ?w = "sv_windows ?sv1 ! i"
  let ?ev = "\<lparr>me_x = m_x (sv_mouse ?sv1) - w_x ?w, me_y = m_y (sv_mouse ?sv1) - w_y ?w,
      left_click = left_button e, right_click = right_button e\<rparr>"
  obtain b k where k: "on_kernel (send_mouse_event (sv_pid ?sv1) (w_owner_pid ?w) ?ev) ?sv1 = Inr (b, ?sv1\<lparr>sv_kernel := k\<rparr>)"
      "server_ok (?sv1\<lparr>sv_kernel := k\<rparr>)"
    by (rule on_kernel_send [OF s(2)]) (auto simp: send_mouse_event_def fun_eq_iff)
  have w: "?w \<in> set (sv_windows (?sv1\<lparr>sv_kernel := k\<rparr>))" using focus_on_mem [OF i] i by simp
  obtain v2 where "draw_window ?w (?sv1\<lparr>sv_kernel := k\<rparr>) = Inr (?sv1\<lparr>sv_kernel := k, sv_vga := v2\<rparr>)"
      "server_ok (?sv1\<lparr>sv_kernel := k, sv_vga := v2\<rparr>)"
    by (rule draw_window_keeps [OF k(2) w])
  then show ?thesis using True s(1) k(1) by (simp add: click_window_def Let_def)
qed (use ok in \<open>simp add: click_window_def\<close>)

lemma handle_mouse_event_keeps:
  assumes "server_ok sv"
  shows "\<exists>sv'. handle_mouse_event e sv = Inr sv' \<and> server_ok sv'"
proof (cases "left_button e")
  case True
  let ?P = "\<lambda>s. server_ok s \<and> length (sv_windows s) = length (sv_windows sv)"
  have "\<exists>sv'. rfold (\<lambda>i sv. rbind (click_banner i sv) (click_window e i)) [0..<length (sv_windows sv)] sv = Inr sv' \<and> ?P sv'"
  proof (rule rfold_total)
    fix i s assume i: "i \<in> set [0..<length (sv_windows sv)]" "?P s"
    then obtain s1 where s1: "click_banner i s = Inr s1" "server_ok s1" "length (sv_windows s1) = length (sv_windows s)"
      using click_banner_keeps [of s i] by auto
    then show "\<exists>s'. rbind (click_banner i s) (click_window e i) = Inr s' \<and> ?P s'"
      using click_window_keeps [OF s1(2), of i e] i by auto
  qed (use assms in simp)
  then show ?thesis using True by (auto simp: handle_mouse_event_def)
qed (use assms in \<open>simp add: handle_mouse_event_def\<close>)

section \<open>Dragging a window\<close>

lemma get_window_index:
  "get_window_from ws d = Inr w \<Longrightarrow> \<exists>j<length ws. ws ! j = w \<and> w_id w = d \<and> (\<forall>w'. set_window_in ws d w' = Inr (ws[j := w']))"
proof (induction ws)
  case (Cons a ws)
  show ?case
  proof (cases "w_id a = d")
    case True
    then show ?thesis using Cons.prems by (intro exI [of _ 0]) simp
  next
    case False
    then obtain j where "j < length ws" "ws ! j = w" "w_id w = d" "\<forall>w'. set_window_in ws d w' = Inr (ws[j := w'])"
      using Cons by auto
    then show ?thesis using False by (intro exI [of _ "Suc j"]) simp
  qed
qed simp

lemma get_window_exists: "w \<in> set ws \<Longrightarrow> \<exists>w'. get_window_from ws (w_id w) = Inr w'"
  by (induction ws) auto

lemma point_in_screen_iff:
  assumes "vga_ok v" "- 15 \<le> x" "x < 200000" "- 15 \<le> y" "y < 200000"
  shows "point_in_screen v \<lparr>pt_x = x, pt_y = y\<rparr> \<longleftrightarrow> 0 \<le> x \<and> x < int (unat (vga_width v)) \<and> 0 \<le> y \<and> y < int (unat (vga_height v))"
proof -
  have "(word_of_int k :: u32) < s \<longleftrightarrow> k < int (unat s)" if "0 \<le> k" "k < 200000" for k and s :: u32
  proof -
    have "uint (word_of_int k :: u32) = k" using that by (simp add: unsigned_of_int take_bit_int_eq_self)
    then show ?thesis by (simp add: word_less_def)
  qed
  then show ?thesis using assms by (auto simp: point_in_screen_def)
qed

lemma window_in_screen_iff:
  assumes "vga_ok v"
  shows "window_in_screen v w \<longleftrightarrow> win_fits v w"
proof -
  have b: "int (unat (w_x w)) < 65536" "int (unat (w_y w)) < 65536" "int (unat (w_width w)) < 65536" "int (unat (w_height w)) < 65536"
    using unat_u16_less [of "w_x w"] unat_u16_less [of "w_y w"] unat_u16_less [of "w_width w"] unat_u16_less [of "w_height w"]
    by linarith+
  have 1: "point_in_screen v \<lparr>pt_x = int (unat (w_x w)), pt_y = int (unat (w_y w)) - 15\<rparr> \<longleftrightarrow>
      0 \<le> int (unat (w_x w)) \<and> int (unat (w_x w)) < int (unat (vga_width v))
      \<and> 0 \<le> int (unat (w_y w)) - 15 \<and> int (unat (w_y w)) - 15 < int (unat (vga_height v))"
    by (rule point_in_screen_iff [OF assms]) (use b in linarith)+
  have 2: "point_in_screen v \<lparr>pt_x = int (unat (w_x w)) + int (unat (w_width w)), pt_y = int (unat (w_y w)) + int (unat (w_height w))\<rparr>
      \<longleftrightarrow> 0 \<le> int (unat (w_x w)) + int (unat (w_width w)) \<and> int (unat (w_x w)) + int (unat (w_width w)) < int (unat (vga_width v))
      \<and> 0 \<le> int (unat (w_y w)) + int (unat (w_height w)) \<and> int (unat (w_y w)) + int (unat (w_height w)) < int (unat (vga_height v))"
    by (rule point_in_screen_iff [OF assms]) (use b in linarith)+
  show ?thesis unfolding window_in_screen_def 1 2 win_fits_def by (intro iffI conjI; elim conjE; linarith)
qed

lemma focus_ok_update:
  assumes "focus_ok idx ws" "w_focused w = w_focused (ws ! j)"
  shows "focus_ok idx (ws[j := w])"
proof -
  have "\<forall>k<length ws. w_focused (ws[j := w] ! k) = w_focused (ws ! k)"
  proof (intro allI impI)
    fix k show "w_focused (ws[j := w] ! k) = w_focused (ws ! k)" if "k < length ws"
      using assms(2) that by (cases "j = k") simp_all
  qed
  then have "(\<forall>w\<in>set (ws[j := w]). \<not> w_focused w) = (\<forall>w\<in>set ws. \<not> w_focused w)"
    "(ws[j := w] = focus_on i (ws[j := w])) = (ws = focus_on i ws)" for i
    unfolding focus_on_same all_set_conv_all_nth by simp_all
  then show ?thesis using assms(1) unfolding focus_ok_def by simp
qed

lemma drag_words:
  fixes x h w :: u16
  shows "15 \<le> unat x \<Longrightarrow> unat (ucast (ucast x - 15 :: u32) :: u16) = unat x - 15"
    "unat h \<le> 32768 \<Longrightarrow> unat (ucast (ucast h + 15 :: u32) :: u16) = unat h + 15"
    "unat h \<le> 32768 \<Longrightarrow> unat w \<le> 32768 \<Longrightarrow> unat (ucast w * (ucast h + 15) :: u32) = unat w * (unat h + 15)"
proof -
  have u: "unat (ucast z :: u32) = unat z" for z :: u16 by (rule unat_ucast_up) simp
  have d: "unat (ucast z :: u16) = unat z mod 65536" for z :: u32
    by (simp only: unsigned_ucast_eq take_bit_eq_mod) simp
  show "unat (ucast (ucast x - 15 :: u32) :: u16) = unat x - 15" if "15 \<le> unat x"
  proof -
    have "unat (ucast x - 15 :: u32) = unat x - 15" using that u [of x] by (simp add: unat_sub_if')
    moreover have "unat x - 15 < 65536" using unat_u16_less [of x] by linarith
    ultimately show ?thesis unfolding d by simp
  qed
  have "unat h + 15 < 4294967296" using unat_u16_less [of h] by linarith
  then have p: "unat (ucast h + 15 :: u32) = unat h + 15" using u [of h] by (simp add: unat_word_ariths)
  then show "unat (ucast (ucast h + 15 :: u32) :: u16) = unat h + 15" if "unat h \<le> 32768"
    unfolding d using that by simp
  show "unat (ucast w * (ucast h + 15) :: u32) = unat w * (unat h + 15)" if "unat h \<le> 32768" "unat w \<le> 32768"
  proof -
    have "unat w * (unat h + 15) \<le> 32768 * (32768 + 15)" using that by (intro mult_le_mono) auto
    then show ?thesis using u [of w] p by (simp add: unat_word_ariths(2))
  qed
qed

text \<open>The place a drag moves a window to, in 16 bits.\<close>

definition dragged :: "RawMouseEvent \<Rightarrow> Window \<Rightarrow> Window" where
  "dragged e w = w\<lparr>w_x := w_x w + ucast (delta_x e), w_y := w_y w - ucast (delta_y e)\<rparr>"

lemma ucast_add: "ucast (a + b) = (ucast a + ucast b :: u16)" for a b :: u32
proof (rule word_unat_eq_iff [THEN iffD2])
  have d: "unat (ucast z :: u16) = unat z mod 65536" for z :: u32
    by (simp only: unsigned_ucast_eq take_bit_eq_mod) simp
  have "unat (a + b) mod 65536 = (unat a + unat b) mod 65536"
    by (simp add: unat_word_ariths mod_mod_cancel)
  then show "unat (ucast (a + b) :: u16) = unat (ucast a + ucast b :: u16)"
    by (simp add: d unat_word_ariths(1) mod_add_eq)
qed

lemma ucast_minus: "ucast (- a) = - (ucast a :: u16)" for a :: u32
  using ucast_add [of "- a" a] by (simp add: eq_neg_iff_add_eq_0)

lemma dragged_eq: "move_y (- delta_y e) (move_x (delta_x e) w) = dragged e w"
  by (simp add: move_x_def move_y_def dragged_def ucast_minus)

lemma drag_ok:
  assumes ok: "server_ok sv" and st: "fst (sv_mouse_state sv) = WindowDrag"
  shows "\<exists>j sv'. j < length (sv_windows sv) \<and> w_id (sv_windows sv ! j) = snd (sv_mouse_state sv)
    \<and> handle_window_drag e (snd (sv_mouse_state sv)) sv = Inr sv' \<and> server_ok sv'
    \<and> sv_windows sv' = (if win_fits (sv_vga sv) (dragged e (sv_windows sv ! j))
        then (sv_windows sv)[j := dragged e (sv_windows sv ! j)] else sv_windows sv)"
proof -
  let ?v = "sv_vga sv" and ?d = "snd (sv_mouse_state sv)"
  have v: "vga_ok ?v" using ok by (simp add: server_ok_def)
  obtain w where w: "get_window_from (sv_windows sv) ?d = Inr w"
    using get_window_exists ok st unfolding server_ok_def by metis
  from get_window_index [OF this] obtain j where j: "j < length (sv_windows sv)" "sv_windows sv ! j = w" "w_id w = ?d"
      "\<And>w'. set_window_in (sv_windows sv) ?d w' = Inr ((sv_windows sv)[j := w'])" by blast
  have wok: "win_ok ?v (sv_pixels sv) w" using ok j(1,2) by (auto simp: server_ok_def)
  show ?thesis
  proof (cases "win_fits ?v (dragged e w)")
    case False
    then have "handle_window_drag e ?d sv = Inr sv"
      using w window_in_screen_iff [OF v] by (simp add: handle_window_drag_def get_window_def dragged_eq Let_def)
    then show ?thesis using False j ok by auto
  next
    case True
    let ?bg = "replicate (unat (ucast (w_width w) * (ucast (w_height w) + 15) :: u32)) (0xaaaaaaaa :: u32)"
    let ?y = "ucast (ucast (w_y w) - 15 :: u32) :: u16" and ?h = "ucast (ucast (w_height w) + 15 :: u32) :: u16"
    have b: "unat (w_x w) + unat (w_width w) < unat (vga_width ?v)" "15 \<le> unat (w_y w)"
        "unat (w_y w) + unat (w_height w) < unat (vga_height ?v)" "unat (vga_width ?v) \<le> 32768" "unat (vga_height ?v) \<le> 32768"
      using wok v by (auto simp: win_ok_def win_fits_def vga_ok_def)
    have y: "unat ?y = unat (w_y w) - 15" using drag_words(1) b(2) by blast
    have h: "unat ?h = unat (w_height w) + 15" "unat (ucast (w_width w) * (ucast (w_height w) + 15) :: u32) = unat (w_width w) * (unat (w_height w) + 15)"
      using drag_words(2,3) b by auto
    have "in_bounds ?v (w_x w) ?y (w_width w) ?h" using b y h(1) by (simp add: in_bounds_def)
    then have "VGA_draw ?bg (w_x w) ?y (w_width w) ?h ?v = Inr (paint ?bg (w_x w) ?y (w_width w) ?h ?v)"
      using h by (intro VGA_draw_eq [OF v]) simp_all
    moreover let ?sv1 = "sv\<lparr>sv_vga := paint ?bg (w_x w) ?y (w_width w) ?h ?v, sv_windows := (sv_windows sv)[j := dragged e w]\<rparr>"
    have ok1: "server_ok ?sv1"
    proof -
      have "win_ok ?v (sv_pixels sv) (dragged e w)" using wok True by (simp add: win_ok_def dragged_def)
      then have "\<forall>w\<in>set ((sv_windows sv)[j := dragged e w]). win_ok ?v (sv_pixels sv) w"
        using ok set_update_subset_insert [of "sv_windows sv" j "dragged e w"] by (auto simp: server_ok_def)
      moreover have "\<exists>w'\<in>set ((sv_windows sv)[j := dragged e w]). w_id w' = ?d"
        using j(1,3) by (intro bexI [of _ "dragged e w"]) (simp_all add: dragged_def set_update_memI)
      moreover have "focus_ok (sv_focused_idx sv) ((sv_windows sv)[j := dragged e w])"
        using ok j(2) by (intro focus_ok_update) (simp_all add: server_ok_def dragged_def)
      ultimately have "server_ok (sv\<lparr>sv_windows := (sv_windows sv)[j := dragged e w]\<rparr>)"
        using ok by (simp add: server_ok_def)
      from server_ok_screen [OF this, of "paint ?bg (w_x w) ?y (w_width w) ?h ?v"]
      have "server_ok (sv\<lparr>sv_windows := (sv_windows sv)[j := dragged e w], sv_vga := paint ?bg (w_x w) ?y (w_width w) ?h ?v\<rparr>)"
        by simp
      moreover have "sv\<lparr>sv_windows := ws, sv_vga := v\<rparr> = sv\<lparr>sv_vga := v, sv_windows := ws\<rparr>" for ws v by (cases sv) simp
      ultimately show ?thesis by simp
    qed
    have "\<exists>sv'. rfold draw_window (sv_windows ?sv1) ?sv1 = Inr sv' \<and> server_ok sv' \<and> sv_windows sv' = sv_windows ?sv1"
    proof (rule rfold_total)
      fix x s assume "x \<in> set (sv_windows ?sv1)" "server_ok s \<and> sv_windows s = sv_windows ?sv1"
      then have s: "server_ok s" "x \<in> set (sv_windows s)" "sv_windows s = sv_windows ?sv1" by simp_all
      obtain v' where "draw_window x s = Inr (s\<lparr>sv_vga := v'\<rparr>)" "server_ok (s\<lparr>sv_vga := v'\<rparr>)"
        by (rule draw_window_keeps [OF s(1,2)])
      then show "\<exists>s'. draw_window x s = Inr s' \<and> server_ok s' \<and> sv_windows s' = sv_windows ?sv1" using s(3) by simp
    qed (use ok1 in simp)
    then obtain sv' where "rfold draw_window (sv_windows ?sv1) ?sv1 = Inr sv'" "server_ok sv'" "sv_windows sv' = sv_windows ?sv1" by blast
    ultimately have "handle_window_drag e ?d sv = Inr sv'"
      using w True window_in_screen_iff [OF v] j(4)
      by (simp add: handle_window_drag_def get_window_def dragged_eq Let_def banner_rectangle_def set_window_def)
    then show ?thesis using \<open>server_ok sv'\<close> \<open>sv_windows sv' = sv_windows ?sv1\<close> j True by auto
  qed
qed

section \<open>Whole steps\<close>

lemma mouse_draw_keeps:
  assumes "server_ok sv"
  obtains mo v where "Mouse_draw e (sv_mouse sv) (sv_vga sv) = Inr (mo, v)" "server_ok (sv\<lparr>sv_mouse := mo, sv_vga := v\<rparr>)"
    "vga_width v = vga_width (sv_vga sv)" "vga_height v = vga_height (sv_vga sv)"
proof -
  have v: "vga_ok (sv_vga sv)" "mouse_fits (sv_mouse sv) (sv_vga sv)" using assms by (simp_all add: server_ok_def)
  obtain mo v' where m: "Mouse_draw e (sv_mouse sv) (sv_vga sv) = Inr (mo, v')"
    "pointer_over (paint (m_hidden_by_mouse (sv_mouse sv)) (m_x (sv_mouse sv)) (m_y (sv_mouse sv)) 7 7 (sv_vga sv)) mo v'"
    by (rule mouse_draw_eq [OF v])
  then have s: "same_screen (sv_vga sv) v'" "mouse_fits mo v'"
    by (auto simp: pointer_over_def same_screen_def mouse_fits_def)
  then have "server_ok (sv\<lparr>sv_mouse := mo, sv_vga := v'\<rparr>)"
    using assms win_ok_screen [OF s(1)] by (auto simp: server_ok_def same_screen_def)
  then show thesis using m(1) s(1) that by (simp add: same_screen_def)
qed

lemma mouse_step_ok:
  assumes "server_ok sv"
  shows "\<exists>sv'. run_step (MouseReady 1 e) sv = Inr sv' \<and> server_ok sv'"
proof -
  obtain mo v where m: "Mouse_draw e (sv_mouse sv) (sv_vga sv) = Inr (mo, v)" "server_ok (sv\<lparr>sv_mouse := mo, sv_vga := v\<rparr>)"
    "vga_width v = vga_width (sv_vga sv)" "vga_height v = vga_height (sv_vga sv)"
    by (rule mouse_draw_keeps [OF assms])
  let ?sv1 = "sv\<lparr>sv_mouse := mo, sv_vga := v\<rparr>"
  have "server_ok (set_normal ?sv1)" using m(2) by (simp add: server_ok_def set_normal_def)
  then show ?thesis
    using m drag_ok [OF m(2), of e] handle_mouse_event_keeps [OF m(2), of e]
    by (cases "fst (sv_mouse_state sv)") (auto simp: handle_pending_mouse_event_def Let_def)
qed

lemma keyboard_step_eq:
  assumes "server_ok sv"
  shows "run_step (KeyboardReady 1 e) sv =
    (if sv_focused_idx sv = - 1 then Inr sv
     else rbind (on_kernel (send_key_event (sv_pid sv) (w_owner_pid (sv_windows sv ! nat (sv_focused_idx sv))) e) sv) (\<lambda>(_, sv1). Inr sv1))"
  using assms by (auto simp: handle_pending_keyboard_event_def focused_window_def server_ok_def focus_ok_def)

lemma keyboard_step_ok:
  assumes "server_ok sv"
  shows "\<exists>sv'. run_step (KeyboardReady 1 e) sv = Inr sv' \<and> server_ok sv'"
proof (cases "sv_focused_idx sv = - 1")
  case False
  obtain b k where "on_kernel (send_key_event (sv_pid sv) (w_owner_pid (sv_windows sv ! nat (sv_focused_idx sv))) e) sv
      = Inr (b, sv\<lparr>sv_kernel := k\<rparr>)" "server_ok (sv\<lparr>sv_kernel := k\<rparr>)"
    by (rule on_kernel_send [OF assms]) (auto simp: send_key_event_def fun_eq_iff)
  then show ?thesis using False unfolding keyboard_step_eq [OF assms] by simp
qed (use assms keyboard_step_eq [OF assms] in simp)

text \<open>Taking a message out of the server's own queue.\<close>

lemma take_code:
  assumes "procs (shm_sched (sv_kernel sv)) (sv_pid sv) \<noteq> None"
    "queue_of (shm_sched (sv_kernel sv)) (sv_pid sv) = \<lparr>msg_pid = c, msg_data = le32 code\<rparr> # ms"
  shows "run_step PendingMessageReady sv = handle_message_code code c
    (sv\<lparr>sv_kernel := (sv_kernel sv)\<lparr>shm_sched := set_queue (sv_pid sv) ms (shm_sched (sv_kernel sv))\<rparr>\<rparr>)"
  using std_get_ok [OF assms, of 4] by (simp add: on_kernel_def)

section \<open>Creating a window\<close>

lemma may_create_set_queue: "may_create idt ds p n (k\<lparr>shm_sched := set_queue q ms (shm_sched k)\<rparr>) = may_create idt ds p n k"
  by (auto simp: may_create_def set_queue_def upd_proc_def)

lemma next_shm_keeps:
  "queue_of (upd_proc p (p_next_shm_update f) s) q = queue_of s q"
  "listed (upd_proc p (p_next_shm_update f) s) q = listed s q"
  "procs_known (upd_proc p (p_next_shm_update f) s) = procs_known s"
  by (auto simp: queue_of_def listed_def procs_known_def upd_proc_def split: option.split)

text \<open>The window that a request leads to.\<close>

definition placed :: "CreateWindowRequest \<Rightarrow> nat \<Rightarrow> u32 \<Rightarrow> server \<Rightarrow> Window" where
  "placed r c a sv = \<lparr>w_id = sv_guid sv, w_owner_pid = c, w_buff_guid = sv_guid sv + 1, w_buff_addr = a,
     w_buff_size = ucast (req_height r) * ucast (req_width r) * 4,
     w_x = 100 + ucast (sv_x_offset sv), w_y = 100 + ucast (sv_y_offset sv),
     w_width = req_width r, w_height = req_height r, w_focused = False\<rparr>"

lemma Window_new_ok:
  assumes may: "may_create idt ds (sv_pid sv) n (sv_kernel sv)"
    and sz: "round_up (ucast (req_height r) * ucast (req_width r) * 4) PAGE_SIZE = Inr (word_of_nat (n * 4096))"
    and free: "shm_get (shm_entries (sv_kernel sv)) (unat (sv_guid sv + 1)) = None"
  obtains a k where "Window_new r c sv = Inr (placed r c a sv, sv\<lparr>sv_guid := sv_guid sv + 2, sv_kernel := k,
        sv_x_offset := sv_x_offset sv + 150, sv_y_offset := sv_y_offset sv + 50\<rparr>)"
    "shm_sched k = upd_proc (sv_pid sv) (p_next_shm_update (\<lambda>b. b + word_of_nat (n * 4096))) (shm_sched (sv_kernel sv))"
    "shm_get (shm_entries k) (unat (sv_guid sv + 1)) = Some \<lparr>shm_guid = unat (sv_guid sv + 1), shm_pid = sv_pid sv,
        shm_virt_addr = a, shm_size = word_of_nat (n * 4096)\<rparr>"
proof -
  let ?k = "sv_kernel sv"
  obtain x m' fs where "procs (shm_sched ?k) (sv_pid sv) = Some x" "shm_range (p_next_shm x) n" "mm_inv idt ds m'" "cr3 m' = cr3 (shm_mm ?k)"
    and cr: "syscall_create_shared_memory (sv_pid sv) (unat (sv_guid sv + 1)) (word_of_nat (n * 4096)) ?k =
       (if shm_get (shm_entries ?k) (unat (sv_guid sv + 1)) = None
        then Inr ((E_OK, Some (p_next_shm x)),
          ?k\<lparr>shm_mm := m',
             shm_entries := shm_entries ?k @ [\<lparr>shm_guid = unat (sv_guid sv + 1), shm_pid = sv_pid sv, shm_virt_addr = p_next_shm x,
                                               shm_size = word_of_nat (n * 4096)\<rparr>],
             shm_sched := upd_proc (sv_pid sv) (p_next_shm_update (\<lambda>a. a + word_of_nat (n * 4096))) (shm_sched ?k)\<rparr>)
        else Inr ((E_TAKEN, None), ?k\<lparr>shm_mm := m'\<rparr>))"
    and "length fs = n" "distinct fs" "\<forall>f\<in>set fs. frame_free (shm_mm ?k) f"
    and "\<forall>i<n. mapping m' (cr3 (shm_mm ?k)) (p_next_shm x + word_of_nat (i * 4096)) = Some (fs ! i, True, True)"
    by (rule create_shared_memory_ok [OF may]) (rule that)
  let ?k' = "?k\<lparr>shm_mm := m',
      shm_entries := shm_entries ?k @ [\<lparr>shm_guid = unat (sv_guid sv + 1), shm_pid = sv_pid sv, shm_virt_addr = p_next_shm x,
                                        shm_size = word_of_nat (n * 4096)\<rparr>],
      shm_sched := upd_proc (sv_pid sv) (p_next_shm_update (\<lambda>a. a + word_of_nat (n * 4096))) (shm_sched ?k)\<rparr>"
  have "Window_new r c sv = Inr (placed r c (p_next_shm x) sv, sv\<lparr>sv_guid := sv_guid sv + 2, sv_kernel := ?k',
        sv_x_offset := sv_x_offset sv + 150, sv_y_offset := sv_y_offset sv + 50\<rparr>)"
    using cr sz free
    by (simp add: Window_new_def generate_guid_def Let_def placed_def add.assoc del: of_nat_mult rbind_Inr_iff)
  then show thesis
    by (rule that) (use free in \<open>simp_all add: shm_get_append del: of_nat_mult\<close>)
qed

section \<open>Properties\<close>

fun is_input :: "pending \<Rightarrow> bool" where
  "is_input PendingMessageReady = False"
| "is_input (KeyboardReady rc e) = (rc = 1)"
| "is_input (MouseReady rc e) = (rc = 1)"

text \<open>
  C14: the user cannot stop the window server from a good state: every window fits on the screen with its banner,
  has a number below 65536 and a buffer with at least its pixels, the pointer is on the screen, the window with the focus
  index is the only one marked as focused, a window that is being dragged is there, the kernel has an entry
  for every process of the scheduler, and the screen has between 8 and 32768 pixels each way, all in the frame
  buffer. From such a state every sequence of key and mouse events, clicks and
  drags included, is handled without a failed assertion, and such a state is reached again.
\<close>

theorem input_never_stops_server:
  assumes "server_ok sv" "\<forall>p\<in>set ps. is_input p"
  shows "\<exists>sv'. rfold run_step ps sv = Inr sv' \<and> server_ok sv'"
proof (rule rfold_total)
  fix p s assume "p \<in> set ps" "server_ok s"
  then have "is_input p" "server_ok s" using assms(2) by blast+
  then show "\<exists>s'. run_step p s = Inr s' \<and> server_ok s'"
    using mouse_step_ok [of s] keyboard_step_ok [of s]
    by (induction p rule: is_input.induct) (simp_all del: run_step.simps)
qed (rule assms(1))

text \<open>
  Dragging moves the window by the distances of the event. While the button is held, the
  first window with the dragged number is moved, its place computed in 16 bits, when it lies on
  the screen at the new place with its banner, and stays where it is otherwise; the other windows do not change.
\<close>

theorem drag_moves_window:
  assumes "server_ok sv" "fst (sv_mouse_state sv) = WindowDrag" "left_button e"
  shows "\<exists>j sv'. j < length (sv_windows sv) \<and> w_id (sv_windows sv ! j) = snd (sv_mouse_state sv)
    \<and> run_step (MouseReady 1 e) sv = Inr sv' \<and> server_ok sv'
    \<and> (let w = sv_windows sv ! j; x = w_x w + ucast (delta_x e); y = w_y w - ucast (delta_y e)
       in sv_windows sv' =
         (if unat x + unat (w_width w) < unat (vga_width (sv_vga sv)) \<and> 15 \<le> unat y
             \<and> unat y + unat (w_height w) < unat (vga_height (sv_vga sv))
          then (sv_windows sv)[j := w\<lparr>w_x := x, w_y := y\<rparr>] else sv_windows sv))"
proof -
  obtain mo v where m: "Mouse_draw e (sv_mouse sv) (sv_vga sv) = Inr (mo, v)" "server_ok (sv\<lparr>sv_mouse := mo, sv_vga := v\<rparr>)"
    "vga_width v = vga_width (sv_vga sv)" "vga_height v = vga_height (sv_vga sv)"
    by (rule mouse_draw_keeps [OF assms(1)])
  have "run_step (MouseReady 1 e) sv = handle_window_drag e (snd (sv_mouse_state sv)) (sv\<lparr>sv_mouse := mo, sv_vga := v\<rparr>)"
    using m(1) assms(2,3) by (simp add: handle_pending_mouse_event_def Let_def)
  then show ?thesis
    using drag_ok [OF m(2), of e] assms(2) m(3,4)
    unfolding Let_def win_fits_def dragged_def by (simp split del: if_split cong: if_cong)
qed

text \<open>
  A key goes to the program whose window has the focus: when its queue is empty, it
  receives the key that was read as an event of the window server.
\<close>

theorem key_reaches_focused_window:
  assumes "server_ok sv" "sv_focused_idx sv = int i" "i < length (sv_windows sv)"
    "owner = w_owner_pid (sv_windows sv ! i)"
    "listed (shm_sched (sv_kernel sv)) owner" "queue_of (shm_sched (sv_kernel sv)) owner = []"
  shows "\<exists>sv'. run_step (KeyboardReady 1 e) sv = Inr sv'
    \<and> recv_io_event owner (sv_pid sv) True (shm_sched (sv_kernel sv'))
      = Inr (Some (Key_Event e), shm_sched (sv_kernel sv))"
proof -
  let ?s = "shm_sched (sv_kernel sv)"
  have q: "procs ?s owner \<noteq> None" using assms(5) by (rule listed_procs)
  have "run_step (KeyboardReady 1 e) sv =
      rbind (on_kernel (send_key_event (sv_pid sv) owner e) sv) (\<lambda>(_, sv1). Inr sv1)"
    unfolding keyboard_step_eq [OF assms(1)] using assms(2,4) by simp
  then show ?thesis
    using q assms(6) set_queue_same [OF q assms(6)]
    by (simp add: on_kernel_def send_key_event_def send_with_code_ok [OF assms(5)] recv_io_event_def recv_code_ok
        recv_struct_ok io_event_roundtrip del: io_event_bytes.simps rbind_Inr_iff)
qed

text \<open>
  A window that is not on the screen stops the server. When a program asks to draw a window
  that sticks out of the screen, or has no room for the banner above it, the drawing runs into
  the bounds check, which ends the server and with it every window.
\<close>

theorem window_outside_stops_server:
  assumes "vga_ok (sv_vga sv)" "get_window guid sv = Inr w" "\<not> win_fits (sv_vga sv) w"
    "unat (w_width w) * unat (w_height w) \<le> length (sv_pixels sv (w_buff_addr w))"
    "procs (shm_sched (sv_kernel sv)) (sv_pid sv) \<noteq> None"
    "queue_of (shm_sched (sv_kernel sv)) (sv_pid sv)
      = [\<lparr>msg_pid = c, msg_data = le32 (code_value DrawWindow_code)\<rparr>, \<lparr>msg_pid = c, msg_data = le32 guid\<rparr>]"
  shows "run_step PendingMessageReady sv = Inl NotReached"
proof -
  let ?k = "(sv_kernel sv)\<lparr>shm_sched := set_queue (sv_pid sv) [] (shm_sched (sv_kernel sv))\<rparr>"
  have "run_step PendingMessageReady sv = rbind (get_window guid (sv\<lparr>sv_kernel := ?k\<rparr>)) (\<lambda>w. draw_window w (sv\<lparr>sv_kernel := ?k\<rparr>))"
    using take_code [OF assms(5,6)] assms(5)
    by (simp add: handle_message_code_def handle_draw_window_def on_kernel_def recv_draw_request_def recv_struct_ok
        del: rbind_Inr_iff)
  also have "\<dots> = draw_window w (sv\<lparr>sv_kernel := ?k\<rparr>)" using assms(2) by (simp add: get_window_def)
  also have "\<dots> = Inl NotReached"
  proof -
    let ?v = "sv_vga sv" and ?y = "word_of_int (int (unat (w_y w)) - 15) :: u16"
    let ?b = "replicate (unat (ucast (w_width w) * 15 :: u32)) (if w_focused w then 0x00ff0000 else 0x0000ffff) :: u32 list"
    show ?thesis
    proof (cases "in_bounds ?v (w_x w) ?y (w_width w) 15")
      case True
      have "15 \<le> unat (w_y w)"
      proof (rule ccontr)
        assume "\<not> 15 \<le> unat (w_y w)"
        then have "unat ?y = unat (w_y w) + 65521" by (rule banner_wraps)
        then show False using True assms(1) by (auto simp: in_bounds_def vga_ok_def)
      qed
      then have "\<not> in_bounds ?v (w_x w) (w_y w) (w_width w) (w_height w)" using assms(3) by (auto simp: win_fits_def in_bounds_def)
      moreover have "VGA_draw ?b (w_x w) ?y (w_width w) 15 ?v = Inr (paint ?b (w_x w) ?y (w_width w) 15 ?v)"
        by (rule VGA_draw_eq [OF assms(1) True]) (simp add: banner_size)
      ultimately show ?thesis
        by (simp add: draw_window_def banner_rectangle_def Let_def ucast_down_up VGA_draw_outside split del: if_split)
    qed (simp add: draw_window_def banner_rectangle_def Let_def ucast_down_up VGA_draw_outside split del: if_split)
  qed
  finally show ?thesis .
qed

text \<open>
  C18: two programs that talk to the server at the same time stop it. A request is two messages;
  when another program's message comes between them, the server takes it for the second part,
  and its check of the sender fails an assertion.
\<close>

theorem interleaved_requests_stop_server:
  assumes "procs (shm_sched (sv_kernel sv)) (sv_pid sv) \<noteq> None" "c \<noteq> c'"
    "code \<in> {code_value CreateWindowRequest_code, code_value DrawWindow_code}"
    "queue_of (shm_sched (sv_kernel sv)) (sv_pid sv)
      = \<lparr>msg_pid = c, msg_data = le32 code\<rparr> # \<lparr>msg_pid = c', msg_data = le32 code'\<rparr> # ms"
  shows "run_step PendingMessageReady sv = Inl AssertionFailed"
  using take_code [OF assms(1,4)] assms(1-3)
  by (auto simp: handle_message_code_def handle_draw_window_def handle_create_window_def on_kernel_def recv_draw_request_def
      recv_create_window_request_def recv_struct_ok simp del: rbind_Inr_iff)

text \<open>
  C15: a request for a window is served by a server in a good state, when the new window fits on the screen at
  the next place, has a number below 65536 and gets a buffer with its pixels, the two messages of the request are the
  server's queue, the client is another process known to the scheduler with an empty queue, the name of the buffer is not taken, and the memory manager has two
  free frames for each page of it and unmapped addresses at the server's next place for shared memory. The
  server then makes the window with its own shared memory for the pixels, answers with the number of
  the window and the name of that memory, under which the kernel has registered the window's buffer, and gives it the
  focus; the other windows stay, and the state is good again.
\<close>

theorem create_window_served:
  assumes "server_ok sv" "procs (shm_sched (sv_kernel sv)) (sv_pid sv) \<noteq> None"
    "queue_of (shm_sched (sv_kernel sv)) (sv_pid sv)
      = [\<lparr>msg_pid = c, msg_data = le32 (code_value CreateWindowRequest_code)\<rparr>, \<lparr>msg_pid = c, msg_data = request_bytes r\<rparr>]"
    "c \<noteq> sv_pid sv" "listed (shm_sched (sv_kernel sv)) c" "queue_of (shm_sched (sv_kernel sv)) c = []"
    "may_create idt ds (sv_pid sv) n (sv_kernel sv)"
    "round_up (ucast (req_height r) * ucast (req_width r) * 4) PAGE_SIZE = Inr (word_of_nat (n * 4096))"
    "shm_get (shm_entries (sv_kernel sv)) (unat (sv_guid sv + 1)) = None"
    "\<forall>a. win_ok (sv_vga sv) (sv_pixels sv) (placed r c a sv)"
  shows "\<exists>a sv' s'. run_step PendingMessageReady sv = Inr sv' \<and> server_ok sv'
    \<and> sv_windows sv' = focus_on (length (sv_windows sv)) (sv_windows sv @ [placed r c a sv])
    \<and> sv_focused_idx sv' = int (length (sv_windows sv))
    \<and> recv_create_window_response c (sv_pid sv) True (shm_sched (sv_kernel sv'))
        = Inr (Some \<lparr>window_guid = sv_guid sv, resp_buff_guid = sv_guid sv + 1\<rparr>, s')
    \<and> shm_get (shm_entries (sv_kernel sv')) (unat (sv_guid sv + 1))
        = Some \<lparr>shm_guid = unat (sv_guid sv + 1), shm_pid = sv_pid sv, shm_virt_addr = a, shm_size = word_of_nat (n * 4096)\<rparr>"
proof -
  let ?s = "shm_sched (sv_kernel sv)" and ?p = "sv_pid sv"
  define k0 where "k0 = (sv_kernel sv)\<lparr>shm_sched := set_queue ?p [] ?s\<rparr>"
  let ?sv0 = "sv\<lparr>sv_kernel := k0\<rparr>"
  have k0: "shm_sched k0 = set_queue ?p [] ?s" "shm_entries k0 = shm_entries (sv_kernel sv)" by (simp_all add: k0_def)
  have "may_create idt ds (sv_pid ?sv0) n (sv_kernel ?sv0)"
    using assms(7) may_create_set_queue by (simp add: k0_def)
  then obtain a k where w: "Window_new r c ?sv0 = Inr (placed r c a ?sv0, ?sv0\<lparr>sv_guid := sv_guid ?sv0 + 2, sv_kernel := k,
        sv_x_offset := sv_x_offset ?sv0 + 150, sv_y_offset := sv_y_offset ?sv0 + 50\<rparr>)"
    "shm_sched k = upd_proc ?p (p_next_shm_update (\<lambda>b. b + word_of_nat (n * 4096))) (shm_sched k0)"
    "shm_get (shm_entries k) (unat (sv_guid sv + 1)) = Some \<lparr>shm_guid = unat (sv_guid sv + 1), shm_pid = ?p,
        shm_virt_addr = a, shm_size = word_of_nat (n * 4096)\<rparr>"
    by (rule Window_new_ok [of idt ds ?sv0 n r]) (use assms(8,9) k0(2) in simp_all)
  let ?w = "placed r c a sv"
  let ?resp = "\<lparr>window_guid = sv_guid sv, resp_buff_guid = sv_guid sv + 1\<rparr>"
  have sched: "listed (shm_sched k) c" "queue_of (shm_sched k) c = []" "procs_known (shm_sched k)"
    using assms(1,2,4-6) unfolding w(2) next_shm_keeps k0(1) by (simp_all add: server_ok_def)
  define k1 where "k1 = k\<lparr>shm_sched := set_queue c [\<lparr>msg_pid = ?p, msg_data = le32 (code_value CreateWindowResponse_code)\<rparr>,
      \<lparr>msg_pid = ?p, msg_data = response_bytes ?resp\<rparr>] (shm_sched k)\<rparr>"
  let ?sv3 = "?sv0\<lparr>sv_guid := sv_guid sv + 2, sv_kernel := k1, sv_x_offset := sv_x_offset sv + 150, sv_y_offset := sv_y_offset sv + 50\<rparr>"
  let ?sv4 = "?sv3\<lparr>sv_windows := sv_windows sv @ [?w]\<rparr>"
  have "placed r c a ?sv0 = ?w" by (simp add: placed_def)
  have ids: "w_id ?w = sv_guid sv" "w_buff_guid ?w = sv_guid sv + 1" by (simp_all add: placed_def)
  have "procs_known (shm_sched k1)" using sched(3) by (simp add: k1_def)
  then have ok4: "server_ok ?sv4"
    using assms(1,10) focus_ok_append [of "sv_focused_idx sv" "sv_windows sv" ?w]
    by (auto simp: server_ok_def placed_def)
  obtain v' where f: "set_focused_window (length (sv_windows sv)) ?sv4
      = Inr (?sv4\<lparr>sv_windows := focus_on (length (sv_windows sv)) (sv_windows ?sv4), sv_focused_idx := int (length (sv_windows sv)), sv_vga := v'\<rparr>)"
    "server_ok (?sv4\<lparr>sv_windows := focus_on (length (sv_windows sv)) (sv_windows ?sv4), sv_focused_idx := int (length (sv_windows sv)), sv_vga := v'\<rparr>)"
    by (rule set_focused_window_keeps [OF ok4, of "length (sv_windows sv)"]) simp
  let ?sv5 = "?sv4\<lparr>sv_windows := focus_on (length (sv_windows sv)) (sv_windows ?sv4), sv_focused_idx := int (length (sv_windows sv)), sv_vga := v'\<rparr>"
  have "on_kernel (send_create_window_response ?p c ?resp) (?sv0\<lparr>sv_guid := sv_guid sv + 2, sv_kernel := k,
      sv_x_offset := sv_x_offset sv + 150, sv_y_offset := sv_y_offset sv + 50\<rparr>) = Inr (True, ?sv3)"
    using send_with_code_ok [OF sched(1)] sched(2) by (simp add: on_kernel_def send_create_window_response_def k1_def)
  moreover have "run_step PendingMessageReady sv
      = handle_create_window c (sv\<lparr>sv_kernel := (sv_kernel sv)\<lparr>shm_sched := set_queue ?p [\<lparr>msg_pid = c, msg_data = request_bytes r\<rparr>] ?s\<rparr>\<rparr>)"
    using take_code [OF assms(2,3)] by (simp add: handle_message_code_def)
  moreover have "on_kernel (recv_create_window_request ?p c False)
      (sv\<lparr>sv_kernel := (sv_kernel sv)\<lparr>shm_sched := set_queue ?p [\<lparr>msg_pid = c, msg_data = request_bytes r\<rparr>] ?s\<rparr>\<rparr>) = Inr (Some r, ?sv0)"
    using assms(2) by (simp add: on_kernel_def recv_create_window_request_def recv_struct_ok k0_def)
  ultimately have "run_step PendingMessageReady sv = Inr ?sv5"
    using w(1) f(1) \<open>placed r c a ?sv0 = ?w\<close> ids
    by (simp add: handle_create_window_def Let_def del: rbind_Inr_iff run_step.simps)
  moreover have "recv_create_window_response c ?p True (shm_sched k1) = Inr (Some ?resp, set_queue c [] (shm_sched k))"
    using listed_procs [OF sched(1)] by (simp add: recv_create_window_response_def k1_def recv_code_ok recv_struct_ok)
  ultimately show ?thesis
    using f(2) w(3) by (intro exI [of _ a] exI [of _ ?sv5] exI [of _ "set_queue c [] (shm_sched k)"])
      (simp add: k1_def del: of_nat_mult run_step.simps)
qed

section \<open>A small desktop\<close>

text \<open>Process 2 is the server, process 3 owns a window of ten by ten pixels.\<close>

definition gui_machine :: "message list \<Rightarrow> sched" where
  "gui_machine ms = small_machine\<lparr>m_runanble_list := [3],
     procs := [2 \<mapsto> (fresh_proc Running ''WindowServer'')\<lparr>p_next_shm := 0x40000000, p_messages := ms\<rparr>,
               3 \<mapsto> fresh_proc Runnable ''gui'']\<rparr>"

definition desk_window :: "u16 \<Rightarrow> Window" where
  "desk_window x = \<lparr>w_id = 1, w_owner_pid = 3, w_buff_guid = 2, w_buff_addr = 0x40000000, w_buff_size = 400,
     w_x = x, w_y = 100, w_width = 10, w_height = 10, w_focused = True\<rparr>"

definition desk :: "message list \<Rightarrow> mm \<Rightarrow> Window list \<Rightarrow> int \<Rightarrow> MouseStateType \<times> u32 \<Rightarrow> server" where
  "desk ms m ws idx st' =
     \<lparr>sv_pid = 2, sv_kernel = \<lparr>shm_sched = gui_machine ms, shm_entries = [], shm_mm = m\<rparr>, sv_guid = 5,
      sv_pixels = (\<lambda>_. replicate 100 7),
      sv_vga = \<lparr>vga_width = 400, vga_height = 300, vga_pitch = 1600, frame_buffer = replicate 240000 0xaaaaaaaa\<rparr>,
      sv_windows = ws, sv_mouse = Mouse_new 200 150, sv_focused_idx = idx, sv_mouse_state = st',
      sv_x_offset = 0, sv_y_offset = 0\<rparr>"

lemma desk_simps [simp]:
  "sv_pid (desk ms m ws idx d) = 2" "sv_windows (desk ms m ws idx d) = ws" "sv_focused_idx (desk ms m ws idx d) = idx"
  "sv_mouse_state (desk ms m ws idx d) = d" "shm_sched (sv_kernel (desk ms m ws idx d)) = gui_machine ms"
  "shm_entries (sv_kernel (desk ms m ws idx d)) = []" "shm_mm (sv_kernel (desk ms m ws idx d)) = m"
  "sv_guid (desk ms m ws idx d) = 5"
  by (simp_all add: desk_def)

lemma gui_machine_simps [simp]:
  "procs (gui_machine ms) 2 \<noteq> None" "queue_of (gui_machine ms) 2 = ms" "listed (gui_machine ms) 3"
  "queue_of (gui_machine ms) 3 = []" "procs_known (gui_machine ms)"
  by (simp_all add: gui_machine_def queue_of_def listed_def procs_known_def small_machine_def fresh_proc_def)

lemma desk_screen_ok: "vga_ok (sv_vga (desk ms m ws idx d))"
  by (simp add: desk_def vga_ok_def)

lemma desk_ok:
  assumes "fst d = WindowDrag \<Longrightarrow> snd d = 1"
  shows "server_ok (desk ms m [desk_window 100] 0 d)"
proof -
  have "mouse_fits (sv_mouse (desk ms m ws idx d)) (sv_vga (desk ms m ws idx d))" for ws idx
    by (simp add: desk_def mouse_fits_def in_bounds_def Mouse_new_def)
  moreover have "win_ok (sv_vga (desk ms m ws idx d)) (sv_pixels (desk ms m ws idx d)) (desk_window 100)" for ws idx
    by (simp add: desk_def win_ok_def win_fits_def desk_window_def)
  moreover have "focus_ok 0 [desk_window 100]"
    by (auto simp: focus_ok_def focus_on_def desk_window_def)
  moreover have "w_id (desk_window 100) = 1" by (simp add: desk_window_def)
  ultimately show ?thesis using desk_screen_ok assms by (simp add: server_ok_def)
qed

lemma desk_examples:
  "server_ok (desk ms m [desk_window 100] 0 (Normal, 0))" "server_ok (desk ms m [desk_window 100] 0 (WindowDrag, 1))"
  by (rule desk_ok, simp)+

theorem input_never_stops_server_witness:
  "\<exists>sv'. rfold run_step
      [MouseReady 1 \<lparr>delta_x = - 95, delta_y = 45, left_button = True, right_button = False\<rparr>,
       KeyboardReady 1 \<lparr>keycode = 65, released = False, modifiers = \<lparr>ms_shift = False, ms_caps_lock = False\<rparr>\<rparr>]
      (desk [] boot_machine [desk_window 100] 0 (Normal, 0)) = Inr sv' \<and> server_ok sv'"
  by (rule input_never_stops_server) (simp_all add: desk_examples)

lemma desk_dimensions [simp]:
  "vga_width (sv_vga (desk ms m ws idx d)) = 400" "vga_height (sv_vga (desk ms m ws idx d)) = 300"
  by (simp_all add: desk_def)

theorem drag_moves_window_witness:
  "\<exists>sv'. run_step (MouseReady 1 \<lparr>delta_x = 20, delta_y = 30, left_button = True, right_button = False\<rparr>)
      (desk [] boot_machine [desk_window 100] 0 (WindowDrag, 1)) = Inr sv'
    \<and> sv_windows sv' = [(desk_window 100)\<lparr>w_x := 120, w_y := 70\<rparr>]"
proof -
  let ?e = "\<lparr>delta_x = 20, delta_y = 30, left_button = True, right_button = False\<rparr>"
  have w: "w_x (desk_window 100) = 100" "w_y (desk_window 100) = 100" "w_width (desk_window 100) = 10" "w_height (desk_window 100) = 10"
    by (simp_all add: desk_window_def)
  obtain sv' where "run_step (MouseReady 1 ?e) (desk [] boot_machine [desk_window 100] 0 (WindowDrag, 1)) = Inr sv'"
      "sv_windows sv' = [(desk_window 100)\<lparr>w_x := 120, w_y := 70\<rparr>]"
    using drag_moves_window [OF desk_examples(2) [of "[]" boot_machine], of ?e] w by (auto simp: Let_def simp del: run_step.simps)
  then show ?thesis by blast
qed

theorem key_reaches_focused_window_witness:
  "\<exists>sv'. run_step (KeyboardReady 1 \<lparr>keycode = 65, released = False, modifiers = \<lparr>ms_shift = False, ms_caps_lock = True\<rparr>\<rparr>)
      (desk [] boot_machine [desk_window 100] 0 (Normal, 0)) = Inr sv'
    \<and> recv_io_event 3 2 True (shm_sched (sv_kernel sv'))
      = Inr (Some (Key_Event \<lparr>keycode = 65, released = False, modifiers = \<lparr>ms_shift = False, ms_caps_lock = True\<rparr>\<rparr>), gui_machine [])"
proof -
  have "w_owner_pid (desk_window 100) = 3" by (simp add: desk_window_def)
  then show ?thesis
    using key_reaches_focused_window [OF desk_examples(1) [of "[]" boot_machine], of 0 3
        "\<lparr>keycode = 65, released = False, modifiers = \<lparr>ms_shift = False, ms_caps_lock = True\<rparr>\<rparr>"]
    by (simp del: run_step.simps)
qed

theorem window_outside_stops_server_witness:
  "run_step PendingMessageReady (desk [\<lparr>msg_pid = 3, msg_data = le32 (code_value DrawWindow_code)\<rparr>, \<lparr>msg_pid = 3, msg_data = le32 1\<rparr>]
     boot_machine [desk_window 395] 0 (Normal, 0)) = Inl NotReached"
proof (rule window_outside_stops_server [of _ 1 "desk_window 395" 3])
  show "vga_ok (sv_vga (desk [\<lparr>msg_pid = 3, msg_data = le32 (code_value DrawWindow_code)\<rparr>, \<lparr>msg_pid = 3, msg_data = le32 1\<rparr>]
      boot_machine [desk_window 395] 0 (Normal, 0)))" by (rule desk_screen_ok)
qed (simp_all add: get_window_def, simp_all add: desk_window_def desk_def win_fits_def)

theorem interleaved_requests_stop_server_witness:
  "run_step PendingMessageReady (desk [\<lparr>msg_pid = 3, msg_data = le32 2\<rparr>, \<lparr>msg_pid = 9, msg_data = le32 2\<rparr>]
     boot_machine [desk_window 100] 0 (Normal, 0)) = Inl AssertionFailed"
  by (rule interleaved_requests_stop_server [of _ 3 9 2 2 "[]"]) simp_all

theorem create_window_served_witness:
  "\<exists>m a sv' s'. MemoryManager_init (MemoryManager_new boot_machine) boot_memory = Inr m
    \<and> run_step PendingMessageReady (desk [\<lparr>msg_pid = 3, msg_data = le32 0\<rparr>,
         \<lparr>msg_pid = 3, msg_data = request_bytes \<lparr>req_width = 10, req_height = 10\<rparr>\<rparr>] m [desk_window 100] 0 (Normal, 0)) = Inr sv'
    \<and> map w_focused (sv_windows sv') = [False, True]
    \<and> recv_create_window_response 3 2 True (shm_sched (sv_kernel sv')) = Inr (Some \<lparr>window_guid = 5, resp_buff_guid = 6\<rparr>, s')
    \<and> shm_get (shm_entries (sv_kernel sv')) 6 = Some \<lparr>shm_guid = 6, shm_pid = 2, shm_virt_addr = a, shm_size = 0x1000\<rparr>"
proof -
  obtain m where m: "MemoryManager_init (MemoryManager_new boot_machine) boot_memory = Inr m"
    "mm_inv 0x102000 {0x101000} m" "cr3 m = 0x101000"
    "\<And>b. own_index (PageDirectory_get_index b) \<Longrightarrow> mapping m 0x101000 b = None"
    "frame_free m 0x500000" "frame_free m 0x501000" "20 \<le> card {f. frame_free m f}" "next_page_directory_allocation m = 0x300000"
    by (rule boot_started) (rule that)
  let ?r = "\<lparr>req_width = 10, req_height = 10\<rparr>"
  let ?ms = "[\<lparr>msg_pid = 3, msg_data = le32 0\<rparr>, \<lparr>msg_pid = 3, msg_data = request_bytes ?r\<rparr>]"
  let ?sv = "desk ?ms m [desk_window 100] 0 (Normal, 0)"
  have may: "may_create 0x102000 {0x101000} 2 1 (sv_kernel ?sv)"
    using m sharing_range shm_range_pages [OF sharing_range(1)]
    by (auto simp: may_create_def gui_machine_def)
  have fits: "win_ok (sv_vga ?sv) (sv_pixels ?sv) (placed ?r 3 a ?sv)" for a
    by (simp add: desk_def placed_def win_ok_def win_fits_def)
  have ok: "server_ok ?sv" by (rule desk_ok) simp
  obtain a sv' s' where r: "run_step PendingMessageReady ?sv = Inr sv'"
      "sv_windows sv' = focus_on (length (sv_windows ?sv)) (sv_windows ?sv @ [placed ?r 3 a ?sv])"
      "recv_create_window_response 3 (sv_pid ?sv) True (shm_sched (sv_kernel sv'))
        = Inr (Some \<lparr>window_guid = sv_guid ?sv, resp_buff_guid = sv_guid ?sv + 1\<rparr>, s')"
      "shm_get (shm_entries (sv_kernel sv')) (unat (sv_guid ?sv + 1))
        = Some \<lparr>shm_guid = unat (sv_guid ?sv + 1), shm_pid = sv_pid ?sv, shm_virt_addr = a, shm_size = word_of_nat (1 * 4096)\<rparr>"
    using create_window_served [OF ok, of 3 ?r "0x102000" "{0x101000}" 1] may fits
    by (auto simp: round_up_def simp del: run_step.simps)
  then show ?thesis using m(1) by (auto simp: focus_on_def simp del: run_step.simps)
qed

end
