(* ===== verification/Virtual_Memory.thy ===== *)
theory Virtual_Memory
  imports Bits_Math Shared_Memory
begin

text \<open>
  Memory as the code above the memory manager uses it: it allocates pages and writes bytes. The two
  operations are an interface (\<open>memory_ops\<close>), which \<open>kernel_memory\<close> provides: the memory manager and
  the bytes behind the addresses of the current address space. The abstract memory \<open>vm_memory\<close> has only
  the pages by their numbers; the locale \<open>memory_refinement\<close> says what it takes to follow it.
\<close>

section \<open>The interface and its two providers\<close>

record 'm memory_ops =
  mo_allocate :: "u32 \<Rightarrow> bool \<Rightarrow> 'm \<Rightarrow> 'm result"
  mo_store :: "u32 \<Rightarrow> u8 \<Rightarrow> 'm \<Rightarrow> 'm result"

text \<open>A copy or a fill is a loop over bytes.\<close>

fun store_bytes :: "'m memory_ops \<Rightarrow> u32 \<Rightarrow> u8 list \<Rightarrow> 'm \<Rightarrow> 'm result" where
  "store_bytes mo a [] m = Inr m"
| "store_bytes mo a (b # bs) m = rbind (mo_store mo a b m) (store_bytes mo (a + 1) bs)"

text \<open>
  The kernel: \<^verbatim>\<open>MemoryManager::the().allocate\<close> with \<^verbatim>\<open>UserAllowed::YES\<close>, which asserts that it found a frame, and
  stores, which fault where nothing is mapped. The kernel may write to pages that the program may only read.
\<close>

record kernel_space =
  ks_mm :: mm
  ks_bytes :: "u32 \<Rightarrow> u8"

definition kernel_allocate :: "u32 \<Rightarrow> bool \<Rightarrow> kernel_space \<Rightarrow> kernel_space result" where
  "kernel_allocate a writable s = rbind (the_allocate (ks_mm s) a writable True) (\<lambda>mm. Inr (s\<lparr>ks_mm := mm\<rparr>))"

definition kernel_store :: "u32 \<Rightarrow> u8 \<Rightarrow> kernel_space \<Rightarrow> kernel_space result" where
  "kernel_store a b s =
     (if mapping (ks_mm s) (cr3 (ks_mm s)) a = None then Inl BadAccess
      else Inr (s\<lparr>ks_bytes := (ks_bytes s)(a := b)\<rparr>))"

definition kernel_memory :: "kernel_space memory_ops" where
  "kernel_memory = \<lparr>mo_allocate = kernel_allocate, mo_store = kernel_store\<rparr>"

text \<open>
  The abstract memory: the pages by their numbers with the permission to write and to be used by programs, and
  a number of pages for which there are certainly frames. It says nothing about pages in the kernel's own tables
  and about an allocation without room: there it fails, and the memory manager may do anything.
\<close>

record virtual_memory =
  vm_pages :: "nat \<Rightarrow> (bool \<times> bool) option"
  vm_bytes :: "u32 \<Rightarrow> u8"
  vm_room :: nat

abbreviation page_of :: "u32 \<Rightarrow> nat" where "page_of a \<equiv> unat a div 4096"

definition own_page :: "nat \<Rightarrow> bool" where
  "own_page p \<longleftrightarrow> p div 1024 \<noteq> 0 \<and> p div 1024 \<noteq> 768"

definition vm_allocate :: "u32 \<Rightarrow> bool \<Rightarrow> virtual_memory \<Rightarrow> virtual_memory result" where
  "vm_allocate a writable m =
     (if own_page (page_of a) \<and> vm_pages m (page_of a) = None \<and> 0 < vm_room m
      then Inr (m\<lparr>vm_pages := (vm_pages m)(page_of a \<mapsto> (writable, True)), vm_room := vm_room m - 1\<rparr>)
      else Inl AssertionFailed)"

definition vm_store :: "u32 \<Rightarrow> u8 \<Rightarrow> virtual_memory \<Rightarrow> virtual_memory result" where
  "vm_store a b m =
     (if \<not> own_page (page_of a) then Inl AssertionFailed
      else if vm_pages m (page_of a) = None then Inl BadAccess
      else Inr (m\<lparr>vm_bytes := (vm_bytes m)(a := b)\<rparr>))"

definition vm_memory :: "virtual_memory memory_ops" where
  "vm_memory = \<lparr>mo_allocate = vm_allocate, mo_store = vm_store\<rparr>"

lemma memory_ops_simps [simp]:
  "mo_allocate vm_memory = vm_allocate" "mo_store vm_memory = vm_store"
  "mo_allocate kernel_memory = kernel_allocate" "mo_store kernel_memory = kernel_store"
  by (simp_all add: vm_memory_def kernel_memory_def)

abbreviation vm_mapped :: "virtual_memory \<Rightarrow> nat \<Rightarrow> bool" where
  "vm_mapped m p \<equiv> own_page p \<and> vm_pages m p \<noteq> None"

section \<open>Storing bytes\<close>

definition stored :: "u32 \<Rightarrow> u8 list \<Rightarrow> (u32 \<Rightarrow> u8) \<Rightarrow> u32 \<Rightarrow> u8" where
  "stored a bs f = (\<lambda>x. if unat (x - a) < length bs then bs ! unat (x - a) else f x)"

lemma unat_minus_one_32: "unat (- 1 :: u32) = 4294967295"
  by (simp add: unsigned_minus_1_eq_mask mask_eq_exp_minus_1)

lemma unat_small: "n < 4294967296 \<Longrightarrow> unat (word_of_nat n :: u32) = n"
  by (simp add: unat_of_nat)

lemma unat_diff_Suc:
  assumes "x \<noteq> (a :: u32)"
  shows "unat (x - a) = Suc (unat (x - (a + 1)))"
proof -
  have e: "x - (a + 1) = x - a - 1" by simp
  have "x - a \<noteq> 0" using assms by simp
  then show ?thesis using unat_minus_one [of "x - a"] unat_gt_0 [of "x - a"] unfolding e by simp
qed

lemma stored_Cons:
  assumes "length (b # bs) \<le> 4294967296"
  shows "stored (a + 1) bs (f(a := b)) = stored a (b # bs) f"
proof
  fix x
  show "stored (a + 1) bs (f(a := b)) x = stored a (b # bs) f x"
  proof (cases "x = a")
    case True
    have "x - (a + 1) = - 1" using True by simp
    then have "unat (x - (a + 1)) = 4294967295" using unat_minus_one_32 by simp
    then show ?thesis using True assms by (simp add: stored_def)
  next
    case False
    then have "unat (x - a) = Suc (unat (x - (a + 1)))" by (rule unat_diff_Suc)
    then show ?thesis using False unfolding stored_def by (simp only: length_Cons Suc_less_eq nth_Cons_Suc fun_upd_other not_False_eq_True simp_thms if_cancel cong: if_cong)
  qed
qed

lemma store_bytes_ok:
  assumes "length bs \<le> 4294967296" "\<And>i. i < length bs \<Longrightarrow> vm_mapped m (page_of (a + word_of_nat i))"
  shows "store_bytes vm_memory a bs m = Inr (m\<lparr>vm_bytes := stored a bs (vm_bytes m)\<rparr>)"
  using assms
proof (induction bs arbitrary: a m)
  case Nil
  then show ?case by (simp add: stored_def)
next
  case (Cons b bs)
  have a: "vm_mapped m (page_of a)" using Cons.prems(2) [of 0] by simp
  have "vm_mapped m (page_of (a + 1 + word_of_nat i))" if "i < length bs" for i
    using Cons.prems(2) [of "Suc i"] that by (simp add: add.assoc [symmetric])
  then have "store_bytes vm_memory (a + 1) bs (m\<lparr>vm_bytes := (vm_bytes m)(a := b)\<rparr>)
      = Inr (m\<lparr>vm_bytes := stored (a + 1) bs ((vm_bytes m)(a := b))\<rparr>)"
    using Cons.IH [where m = "m\<lparr>vm_bytes := (vm_bytes m)(a := b)\<rparr>" and a = "a + 1"] Cons.prems(1) by (simp del: fun_upd_apply)
  then show ?case using a unfolding stored_Cons [OF Cons.prems(1)] by (simp add: vm_store_def del: fun_upd_apply)
qed

lemma page_of_plus: "unat a + i < 4294967296 \<Longrightarrow> page_of (a + word_of_nat i) = (unat a + i) div 4096" for a :: u32
  using unat_add_small [of a i] by simp

lemma segment_base: "unat (va AND NOT 0xFFF) = page_of va * 4096" for va :: u32
proof -
  have e: "va AND NOT 0xFFF = push_bit 12 (drop_bit 12 va)"
  proof (rule bit_word_eqI)
    fix n assume "n < LENGTH(32)"
    have m: "(0xFFF :: u32) = mask 12" by (simp add: mask_eq_exp_minus_1)
    show "bit (va AND NOT 0xFFF) n = bit (push_bit 12 (drop_bit 12 va)) n"
      using \<open>n < LENGTH(32)\<close> unfolding m by (auto simp: bit_simps)
  qed
  have d: "unat (drop_bit 12 va) = page_of va" by (simp only: drop_bit_eq_div) (simp add: unat_div)
  have "page_of va * 4096 < 4294967296" using unat_u32_less [of va] div_times_less_eq_dividend [of "unat va" 4096] by linarith
  then show ?thesis unfolding e by (simp add: push_bit_eq_mult unat_word_ariths d mult.commute)
qed

lemma stored_append:
  assumes "length as + length bs \<le> 4294967296"
  shows "stored (a + word_of_nat (length as)) bs (stored a as f) = stored a (as @ bs) f"
  using assms
proof (induction as arbitrary: a f)
  case Nil
  then show ?case by (simp add: stored_def)
next
  case (Cons x xs)
  have "stored (a + 1 + word_of_nat (length xs)) bs (stored (a + 1) xs (f(a := x))) = stored (a + 1) (xs @ bs) (f(a := x))"
    using Cons.prems by (intro Cons.IH) simp
  moreover have "stored (a + 1) xs (f(a := x)) = stored a (x # xs) f"
    using Cons.prems by (intro stored_Cons) simp
  moreover have "stored (a + 1) (xs @ bs) (f(a := x)) = stored a (x # xs @ bs) f"
    using Cons.prems by (intro stored_Cons) simp
  ultimately show ?case by (simp add: add.assoc)
qed

lemma word_mod_page: "unat (va AND 0xFFF) = unat va mod 4096" for va :: u32
proof -
  have m: "(0xFFF :: u32) = mask 12" by (simp add: mask_eq_exp_minus_1)
  show ?thesis unfolding m take_bit_eq_mask [symmetric] unsigned_take_bit_eq by (simp only: take_bit_eq_mod) simp
qed

lemma stored_at: "i < length bs \<Longrightarrow> length bs \<le> 4294967296 \<Longrightarrow> stored a bs f (a + word_of_nat i) = bs ! i"
  using unat_small [of i] by (simp add: stored_def)

section \<open>Reading and writing blocks\<close>

definition reads :: "(u32 \<Rightarrow> u8) \<Rightarrow> u32 \<Rightarrow> nat \<Rightarrow> u8 list" where
  "reads f a n = map (\<lambda>i. f (a + word_of_nat i)) [0..<n]"

lemma word_offset: "x = a + word_of_nat (unat (x - a))" for x a :: u32 by simp

lemma in_block:
  fixes x a :: u32
  assumes "unat (x - a) < n" "unat a + n \<le> 4294967296"
  shows "unat a \<le> unat x" "unat x < unat a + n" "unat (x - a) = unat x - unat a"
proof -
  have "unat (a + word_of_nat (unat (x - a))) = unat a + unat (x - a)" using assms by (intro unat_add_small [where n = "unat (x - a)"]) linarith
  then have "unat x = unat a + unat (x - a)" by (simp only: word_offset [of x a, symmetric])
  then show "unat a \<le> unat x" "unat x < unat a + n" "unat (x - a) = unat x - unat a" using assms(1) by simp_all
qed

lemma stored_commute:
  assumes "unat a + length as \<le> unat b" "unat b + length bs \<le> 4294967296"
  shows "stored a as (stored b bs f) = stored b bs (stored a as f)"
proof
  fix x
  have "\<not> (unat (x - a) < length as \<and> unat (x - b) < length bs)"
    using in_block [of x a "length as"] in_block [of x b "length bs"] assms by fastforce
  then show "stored a as (stored b bs f) x = stored b bs (stored a as f) x" by (auto simp: stored_def)
qed

lemma reads_stored:
  assumes "unat a + length as \<le> 4294967296" "i + n \<le> length as"
  shows "reads (stored a as f) (a + word_of_nat i) n = chunk i n as"
proof (rule nth_equalityI)
  show "length (reads (stored a as f) (a + word_of_nat i) n) = length (chunk i n as)"
    using assms by (simp add: reads_def)
  fix k assume "k < length (reads (stored a as f) (a + word_of_nat i) n)"
  then have k: "k < n" by (simp add: reads_def)
  have "stored a as f (a + word_of_nat (i + k)) = as ! (i + k)" using assms k by (intro stored_at) auto
  then show "reads (stored a as f) (a + word_of_nat i) n ! k = chunk i n as ! k"
    using k assms by (simp add: reads_def chunk_def add.assoc)
qed

lemma reads_outside:
  assumes "unat a + length as \<le> 4294967296" "unat p + n \<le> 4294967296" "unat p + n \<le> unat a \<or> unat a + length as \<le> unat p"
  shows "reads (stored a as f) p n = reads f p n"
proof -
  have "stored a as f (p + word_of_nat k) = f (p + word_of_nat k)" if "k < n" for k
  proof -
    have "unat (p + word_of_nat k) = unat p + k" using that assms(2) by (intro unat_add_small) simp
    then have "\<not> unat (p + word_of_nat k - a) < length as"
      using in_block(1,2) [OF _ assms(1), of "p + word_of_nat k"] that assms(3) by linarith
    then show ?thesis by (simp add: stored_def)
  qed
  then show ?thesis by (simp add: reads_def)
qed

lemma reads_stored_all: "unat a + length as \<le> 4294967296 \<Longrightarrow> reads (stored a as f) a (length as) = as"
  using reads_stored [of a as 0 "length as" f] by (simp add: chunk_def)

lemma store_on_page:
  assumes "P * 4096 \<le> unat a" "unat a + length bs \<le> (P + 1) * 4096" "P < 1048575" "vm_mapped m P"
  shows "store_bytes vm_memory a bs m = Inr (m\<lparr>vm_bytes := stored a bs (vm_bytes m)\<rparr>)"
proof (rule store_bytes_ok)
  show "length bs \<le> 4294967296" using assms(2,3) by simp
  fix i assume i: "i < length bs"
  have "(unat a + i) div 4096 = P" using assms(1,2) i by (intro div_nat_eqI) auto
  then show "vm_mapped m (page_of (a + word_of_nat i))"
    using page_of_plus [of a i] assms i by simp
qed

lemma store_bytes_faults:
  assumes "i < length bs" "\<forall>j\<le>i. own_page (page_of (a + word_of_nat j))" "vm_pages m (page_of (a + word_of_nat i)) = None"
  shows "store_bytes vm_memory a bs m = Inl BadAccess"
  using assms
proof (induction bs arbitrary: a m i)
  case (Cons b bs)
  have own: "own_page (page_of a)" using Cons.prems(2) [rule_format, of 0] by simp
  show ?case
  proof (cases i)
    case 0
    then show ?thesis using Cons.prems own by (simp add: vm_store_def)
  next
    case (Suc j)
    have "own_page (page_of (a + 1 + word_of_nat k))" if "k \<le> j" for k
      using Cons.prems(2) [rule_format, of "Suc k"] that Suc by (simp add: add.assoc)
    moreover have "vm_pages m (page_of (a + 1 + word_of_nat j)) = None" using Cons.prems(3) Suc by (simp add: add.assoc)
    ultimately have "store_bytes vm_memory (a + 1) bs (m\<lparr>vm_bytes := f\<rparr>) = Inl BadAccess" for f
      using Cons.prems(1) Suc by (intro Cons.IH [of j]) auto
    then show ?thesis using own by (simp add: vm_store_def)
  qed
qed simp

lemma reads_cong: "(\<And>i. i < n \<Longrightarrow> f (a + word_of_nat i) = g (a + word_of_nat i)) \<Longrightarrow> reads f a n = reads g a n"
  by (simp add: reads_def)

section \<open>Following the abstract memory\<close>

text \<open>
  A result follows an abstract one: a value a related value, a fault of memory the same fault; nothing is said when
  the abstract run fails otherwise.
\<close>

definition follows :: "('a \<Rightarrow> 'b \<Rightarrow> bool) \<Rightarrow> 'a result \<Rightarrow> 'b result \<Rightarrow> bool" where
  "follows R x y = (case x of Inr a \<Rightarrow> \<exists>b. y = Inr b \<and> R a b | Inl e \<Rightarrow> e = BadAccess \<longrightarrow> y = Inl BadAccess)"

lemma follows_simps [simp]:
  "follows R (Inr a) y \<longleftrightarrow> (\<exists>b. y = Inr b \<and> R a b)" "follows R (Inl e) y \<longleftrightarrow> (e = BadAccess \<longrightarrow> y = Inl BadAccess)"
  by (simp_all add: follows_def)

lemma follows_rbind:
  "follows R x y \<Longrightarrow> (\<And>a b. R a b \<Longrightarrow> follows S (f a) (g b)) \<Longrightarrow> follows S (rbind x f) (rbind y g)"
  by (cases x) auto

lemma follows_same: "(\<And>a. x = Inr a \<Longrightarrow> follows S (f a) (g a)) \<Longrightarrow> follows S (rbind x f) (rbind x g)"
  by (cases x) auto

locale memory_refinement =
  fixes am :: "'a memory_ops" and cm :: "'c memory_ops" and R :: "'a \<Rightarrow> 'c \<Rightarrow> bool"
  assumes allocate_law: "R m s \<Longrightarrow> follows R (mo_allocate am a w m) (mo_allocate cm a w s)"
    and store_law: "R m s \<Longrightarrow> follows R (mo_store am a b m) (mo_store cm a b s)"
begin

lemma store_bytes_follows: "R m s \<Longrightarrow> follows R (store_bytes am a bs m) (store_bytes cm a bs s)"
  by (induction bs arbitrary: a m s) (auto intro: follows_rbind store_law)

end

text \<open>
  The memory manager follows the abstract memory while it keeps its invariant and has twice as many free frames as
  there is room: a page may need a page table. What was mapped at the start (\<open>mm0\<close>) stays mapped to its frame, and
  a page mapped since then has a frame that no other page has, so that a byte is behind one address only.
\<close>

definition page_view_of :: "u32 \<Rightarrow> u32 set \<Rightarrow> mm \<Rightarrow> virtual_memory \<Rightarrow> kernel_space \<Rightarrow> bool" where
  "page_view_of idt ds mm0 m s \<longleftrightarrow> mm_inv idt ds (ks_mm s) \<and> cr3 (ks_mm s) = cr3 mm0 \<and> ks_bytes s = vm_bytes m
     \<and> 2 * vm_room m \<le> card {f. frame_free (ks_mm s) f}
     \<and> (\<forall>a. own_page (page_of a) \<longrightarrow> vm_pages m (page_of a) = map_option snd (mapping (ks_mm s) (cr3 mm0) a))
     \<and> (\<forall>a x. own_page (page_of a) \<longrightarrow> mapping mm0 (cr3 mm0) a = Some x \<longrightarrow> mapping (ks_mm s) (cr3 mm0) a = Some x)
     \<and> (\<forall>a b f x y. own_page (page_of a) \<longrightarrow> own_page (page_of b) \<longrightarrow> mapping mm0 (cr3 mm0) a = None
          \<longrightarrow> mapping (ks_mm s) (cr3 mm0) a = Some (f, x) \<longrightarrow> mapping (ks_mm s) (cr3 mm0) b = Some (f, y) \<longrightarrow> page_of a = page_of b)"

lemma page_view_frames:
  "page_view_of idt ds mm0 m s \<Longrightarrow> own_page (page_of a) \<Longrightarrow> own_page (page_of b) \<Longrightarrow> mapping mm0 (cr3 mm0) a = None
    \<Longrightarrow> mapping (ks_mm s) (cr3 mm0) a = Some (f, x) \<Longrightarrow> mapping (ks_mm s) (cr3 mm0) b = Some (f, y) \<Longrightarrow> page_of a = page_of b"
  unfolding page_view_of_def by blast

lemma page_view_mapping:
  "page_view_of idt ds mm0 m s \<Longrightarrow> own_page (page_of a)
    \<Longrightarrow> vm_pages m (page_of a) = map_option snd (mapping (ks_mm s) (cr3 mm0) a)"
  by (simp add: page_view_of_def)

lemma te_addr_page: "te_addr a = te_addr b \<longleftrightarrow> page_of a = page_of b" for a b :: u32
proof -
  have m: "(0xFFF :: u32) = mask 12" by (simp add: mask_eq_exp_minus_1)
  have t: "te_addr x = x AND NOT 0xFFF" for x :: u32
    unfolding m by (rule bit_word_eqI) (auto simp: bit_te_addr bit_simps)
  show ?thesis unfolding t word_unat_eq_iff segment_base by simp
qed

lemma own_page_index: "own_index (PageDirectory_get_index a) \<longleftrightarrow> own_page (page_of a)"
proof -
  have m: "(0x3FF :: u32) = mask 10" by (simp add: mask_eq_exp_minus_1)
  have "unat (drop_bit 22 a) = page_of a div 1024" by (simp only: drop_bit_eq_div) (simp add: unat_div)
  moreover have "page_of a div 1024 < 1024" using unat_u32_less [of a] by linarith
  ultimately have "unat (PageDirectory_get_index a) = page_of a div 1024"
    unfolding PageDirectory_get_index_def m take_bit_eq_mask [symmetric] unsigned_take_bit_eq
    by (simp add: take_bit_nat_eq_self)
  moreover have "PageDirectory_get_index a AND 0x3FF = PageDirectory_get_index a"
    by (simp add: PageDirectory_get_index_def ac_simps)
  ultimately show ?thesis by (simp add: own_index_def own_page_def word_unat_eq_iff)
qed

lemma kernel_allocate_follows:
  assumes view: "page_view_of idt ds mm0 m s"
  shows "follows (page_view_of idt ds mm0) (vm_allocate a w m) (kernel_allocate a w s)"
proof (cases "own_page (page_of a) \<and> vm_pages m (page_of a) = None \<and> 0 < vm_room m")
  case True
  let ?mm = "ks_mm s" and ?p = "te_addr a"
  have inv: "mm_inv idt ds ?mm" and room: "2 * vm_room m \<le> card {f. frame_free ?mm f}" using view by (simp_all add: page_view_of_def)
  have own: "own_index (PageDirectory_get_index a)" using True by (simp add: own_page_index)
  have c0: "cr3 ?mm = cr3 mm0" using view by (simp add: page_view_of_def)
  have none: "mapping ?mm (cr3 ?mm) a = None" using page_view_mapping [OF view, of a] True c0 by simp
  have "2 \<le> card {f. frame_free ?mm f}" using room True by linarith
  then obtain f g where fg: "frame_free ?mm f" "frame_free ?mm g" "f \<noteq> g"
    using card_le_Suc0_iff_eq [of "{f. frame_free ?mm f}"] by fastforce
  then have tab: "is_present (phys ?mm (cr3 ?mm) (PageDirectory_get_index a)) \<or> (\<exists>g. g \<noteq> f \<and> frame_free ?mm g)" by metis
  obtain mm' p h where mm': "MM_allocate ?mm a w True = Inr mm'" and pf: "frame_free ?mm p" and mi: "mm_inv idt ds mm'" "cr3 mm' = cr3 ?mm"
    and mp: "\<And>d b. d \<in> ds \<Longrightarrow> mapping mm' d b =
       (if te_addr b = te_addr a \<and> (d = cr3 ?mm \<or> shares ?mm d (PageDirectory_get_index a)) then Some (p, w, True)
        else mapping ?mm d b)"
    and fr: "\<And>g. frame_free mm' g \<longleftrightarrow> frame_free ?mm g \<and> g \<noteq> p \<and> g \<noteq> h"
    by (rule MM_allocate_maps [OF inv own none fg(1) tab, of w True]) (rule that)
  have mp0: "mapping mm' (cr3 mm0) b = (if te_addr b = te_addr a then Some (p, w, True) else mapping ?mm (cr3 mm0) b)" for b
    using mp [of "cr3 mm0" b] mm_invD(4) [OF inv] c0 by simp
  have old: "mapping mm0 (cr3 mm0) b = None" if "te_addr b = te_addr a" for b
    using view none True that c0 mapping_te_addr [of ?mm "cr3 mm0" b] mapping_te_addr [of ?mm "cr3 mm0" a]
    unfolding page_view_of_def by (metis not_None_eq te_addr_page)
  have unused: "mapping ?mm (cr3 mm0) b \<noteq> Some (p, x)" if "own_page (page_of b)" for b x
    using mapped_not_free [OF inv, of "cr3 mm0" b p x] mm_invD(4) [OF inv] c0 pf that by (auto simp: own_page_index)
  have one: "page_of b = page_of c"
    if "own_page (page_of b)" "own_page (page_of c)" "mapping mm0 (cr3 mm0) b = None"
      "mapping mm' (cr3 mm0) b = Some (q, x)" "mapping mm' (cr3 mm0) c = Some (q, y)" for b c q x y
    using that unused page_view_frames [OF view that(1-3)] unfolding mp0 te_addr_page
    by (metis option.inject prod.inject)
  have "{f. frame_free mm' f} = {f. frame_free ?mm f} - {p, h}" using fr by auto
  moreover have "card {f. frame_free ?mm f} \<le> card ({f. frame_free ?mm f} - {p, h}) + 2"
    using card_Diff_subset_Int [of "{f. frame_free ?mm f}" "{p, h}"] diff_card_le_card_Diff [of "{p, h}" "{f. frame_free ?mm f}"]
      card_insert_le_m1 [of 2 "{h}" p] by (simp add: card_insert_if split: if_splits)
  ultimately have "2 * (vm_room m - 1) \<le> card {f. frame_free mm' f}" using room by simp
  then have "page_view_of idt ds mm0 (m\<lparr>vm_pages := (vm_pages m)(page_of a \<mapsto> (w, True)), vm_room := vm_room m - 1\<rparr>) (s\<lparr>ks_mm := mm'\<rparr>)"
    using view old c0 one unfolding page_view_of_def by (simp add: mi mp0 te_addr_page)
  then show ?thesis using mm' True by (simp add: vm_allocate_def kernel_allocate_def the_allocate_def MM_the_same [OF inv])
qed (auto simp: vm_allocate_def)

text \<open>The abstract memory of a kernel's memory with \<open>n\<close> pages to come.\<close>

definition start_view :: "kernel_space \<Rightarrow> nat \<Rightarrow> virtual_memory" where
  "start_view s n =
     \<lparr>vm_pages = (\<lambda>p. map_option snd (mapping (ks_mm s) (cr3 (ks_mm s)) (word_of_nat (p * 4096)))),
      vm_bytes = ks_bytes s, vm_room = n\<rparr>"

lemma start_view_simps [simp]: "vm_bytes (start_view s n) = ks_bytes s" "vm_room (start_view s n) = n"
  by (simp_all add: start_view_def)

lemma page_address: "p < 1048576 \<Longrightarrow> page_of (word_of_nat (p * 4096)) = p"
  using unat_small [of "p * 4096"] by (simp del: of_nat_mult)

lemma start_view_pages: "vm_pages (start_view s n) (page_of a) = map_option snd (mapping (ks_mm s) (cr3 (ks_mm s)) a)"
proof -
  have "page_of a < 1048576" using unat_u32_less [of a] by linarith
  then have "te_addr (word_of_nat (page_of a * 4096)) = te_addr a" unfolding te_addr_page by (rule page_address)
  then have "mapping (ks_mm s) (cr3 (ks_mm s)) (word_of_nat (page_of a * 4096)) = mapping (ks_mm s) (cr3 (ks_mm s)) a"
    by (metis mapping_te_addr)
  then show ?thesis by (simp add: start_view_def del: of_nat_mult)
qed

lemma start_view_free: "p < 1048576 \<Longrightarrow> (\<And>a. page_of a = p \<Longrightarrow> mapping (ks_mm s) (cr3 (ks_mm s)) a = None)
    \<Longrightarrow> vm_pages (start_view s n) p = None"
  using page_address [of p] by (simp add: start_view_def del: of_nat_mult)

lemma start_view_of:
  "mm_inv idt ds (ks_mm s) \<Longrightarrow> 2 * n \<le> card {f. frame_free (ks_mm s) f} \<Longrightarrow> page_view_of idt ds (ks_mm s) (start_view s n) s"
  by (simp add: page_view_of_def start_view_pages)

interpretation kernel: memory_refinement vm_memory kernel_memory "page_view_of idt ds mm0" for idt ds mm0
proof
  show "follows (page_view_of idt ds mm0) (mo_allocate vm_memory a w m) (mo_allocate kernel_memory a w s)"
    if "page_view_of idt ds mm0 m s" for m s a w
    using kernel_allocate_follows [OF that] by simp
  show "follows (page_view_of idt ds mm0) (mo_store vm_memory a b m) (mo_store kernel_memory a b s)"
    if "page_view_of idt ds mm0 m s" for m s a b
    using that by (auto simp: vm_store_def kernel_store_def page_view_of_def)
qed

end
