(* ===== verification/Loader.thy ===== *)
theory Loader
  imports Virtual_Memory
begin

text \<open>
  The loader: \<^verbatim>\<open>kernel/Loader/ElfParser.cpp\<close> and \<^verbatim>\<open>loader.cpp\<close>. An executable file is a list of
  bytes; its segments are copied to where they belong in the address space, each page allocated
  first, and the stack and the arguments get a page each.
\<close>

section \<open>The file\<close>

text \<open>Reading the packed structures; the file is in a buffer, and what lies behind it is not read.\<close>

definition rd8 :: "u8 list \<Rightarrow> nat \<Rightarrow> u8 result" where
  "rd8 d i = (if i < length d then Inr (d ! i) else Inl BadAccess)"

definition rd16 :: "u8 list \<Rightarrow> nat \<Rightarrow> u16 result" where
  "rd16 d i = (if i + 1 < length d then Inr (of_le16 (d ! i) (d ! (i + 1))) else Inl BadAccess)"

definition rd32 :: "u8 list \<Rightarrow> nat \<Rightarrow> u32 result" where
  "rd32 d i = (if i + 3 < length d then Inr (of_le32 (d ! i) (d ! (i + 1)) (d ! (i + 2)) (d ! (i + 3))) else Inl BadAccess)"

definition rd_bytes :: "u8 list \<Rightarrow> nat \<Rightarrow> nat \<Rightarrow> u8 list result" where
  "rd_bytes d i n = (if i + n \<le> length d then Inr (chunk i n d) else Inl BadAccess)"

record ElfHeader =
  magic :: u32
  bitclass :: u8
  endianess :: u8
  elf_version :: u8
  elf_type :: u16
  entry :: u32
  program_header_offset :: u32
  header_size :: u16
  program_header_table_entry_size :: u16
  num_program_headers :: u16

definition read_elf_header :: "u8 list \<Rightarrow> ElfHeader result" where
  "read_elf_header d =
     rbind (rd32 d 0) (\<lambda>mg. rbind (rd8 d 4) (\<lambda>bc. rbind (rd8 d 5) (\<lambda>en. rbind (rd8 d 6) (\<lambda>ev.
     rbind (rd16 d 16) (\<lambda>ty. rbind (rd32 d 24) (\<lambda>ent. rbind (rd32 d 28) (\<lambda>pho.
     rbind (rd16 d 40) (\<lambda>hs. rbind (rd16 d 42) (\<lambda>phs. rbind (rd16 d 44) (\<lambda>nph.
       Inr \<lparr>magic = mg, bitclass = bc, endianess = en, elf_version = ev, elf_type = ty, entry = ent,
            program_header_offset = pho, header_size = hs, program_header_table_entry_size = phs,
            num_program_headers = nph\<rparr>))))))))))"

record ProgramHeader =
  ph_type :: u32
  ph_offset :: u32
  ph_virtual_address :: u32
  ph_size_in_file :: u32
  ph_size_in_memory :: u32
  ph_flags :: u32
  ph_alignment :: u32

definition read_program_header :: "u8 list \<Rightarrow> u32 \<Rightarrow> ProgramHeader result" where
  "read_program_header d off =
     (let i = unat off in
      rbind (rd32 d i) (\<lambda>ty. rbind (rd32 d (i + 4)) (\<lambda>o'. rbind (rd32 d (i + 8)) (\<lambda>va.
      rbind (rd32 d (i + 16)) (\<lambda>fs. rbind (rd32 d (i + 20)) (\<lambda>ms. rbind (rd32 d (i + 24)) (\<lambda>fl.
      rbind (rd32 d (i + 28)) (\<lambda>al.
        Inr \<lparr>ph_type = ty, ph_offset = o', ph_virtual_address = va, ph_size_in_file = fs, ph_size_in_memory = ms,
             ph_flags = fl, ph_alignment = al\<rparr>))))))))"

definition header_valid :: "ElfHeader \<Rightarrow> bool" where
  "header_valid h \<longleftrightarrow> magic h = 0x464c457f \<and> bitclass h = 1 \<and> endianess h = 1 \<and> elf_version h = 1
     \<and> elf_type h = 2 \<and> header_size h = 52 \<and> program_header_table_entry_size h = 32"

definition program_header_offsets :: "ElfHeader \<Rightarrow> u32 list" where
  "program_header_offsets h =
     map (\<lambda>i. program_header_offset h + word_of_nat i * ucast (program_header_table_entry_size h))
       [0..<unat (num_program_headers h)]"

definition Elf_from :: "u8 list \<Rightarrow> (ElfHeader \<times> u32 list) result" where
  "Elf_from d =
     rbind (read_elf_header d) (\<lambda>h.
     rbind (assert_that (header_valid h)) (\<lambda>_. Inr (h, program_header_offsets h)))"

section \<open>Loading a segment\<close>

definition Writable :: nat where "Writable = 2"

text \<open>
  The operations on memory are a parameter \<open>mo\<close>; the code runs with \<open>kernel_memory\<close>, the memory manager.
  The loop over the pages of a segment; the result has the number of pages.
\<close>

partial_function (option) allocate_segment :: "'m memory_ops \<Rightarrow> u32 \<Rightarrow> u32 \<Rightarrow> bool \<Rightarrow> u32 \<Rightarrow> u32 \<Rightarrow> 'm \<Rightarrow> (u32 \<times> 'm) result option" where
  "allocate_segment mo va mem_size writable sz page_index m =
     (if sz < mem_size
      then case mo_allocate mo ((va AND NOT 0xFFF) + page_index * PAGE_SIZE) writable m of
             Inl e \<Rightarrow> Some (Inl e)
           | Inr m' \<Rightarrow> allocate_segment mo va mem_size writable (sz + PAGE_SIZE) (page_index + 1) m'
      else Some (Inr (page_index, m)))"

definition load_segment :: "'m memory_ops \<Rightarrow> u8 list \<Rightarrow> ProgramHeader \<Rightarrow> 'm \<Rightarrow> 'm result" where
  "load_segment mo d ph m =
     (if ph_type ph \<noteq> 1 then Inr m
      else
        rbind (assert_that (ph_alignment ph = PAGE_SIZE)) (\<lambda>_.
        let va = ph_virtual_address ph; writable = get_bit (ph_flags ph) Writable
        in rbind (loop (allocate_segment mo va (ph_size_in_memory ph) writable 0 0 m)) (\<lambda>(n, m1).
           rbind (rd_bytes d (unat (ph_offset ph)) (unat (ph_size_in_file ph))) (\<lambda>data.
           rbind (store_bytes mo va data m1) (\<lambda>m2.
             let left = n * PAGE_SIZE - ph_size_in_file ph - (va AND 0xFFF)
             in store_bytes mo (va + ph_size_in_file ph) (replicate (unat left) 0) m2)))))"

definition load_segments :: "'m memory_ops \<Rightarrow> u8 list \<Rightarrow> u32 list \<Rightarrow> 'm \<Rightarrow> 'm result" where
  "load_segments mo d offsets m =
     rfold (\<lambda>off m. rbind (read_program_header d off) (\<lambda>ph. load_segment mo d ph m)) offsets m"

section \<open>Arguments\<close>

definition allocate_from_buffer :: "nat \<Rightarrow> u32 \<Rightarrow> u32 \<times> u32" where
  "allocate_from_buffer len cur = (cur, cur + word_of_nat len)"

text \<open>An argument is its bytes without the terminator.\<close>

fun clone_strings :: "'m memory_ops \<Rightarrow> u32 \<Rightarrow> u8 list list \<Rightarrow> u32 \<Rightarrow> 'm \<Rightarrow> 'm result" where
  "clone_strings mo slot [] cur m = Inr m"
| "clone_strings mo slot (s # ss) cur m =
     (case allocate_from_buffer (length s + 1) cur of
        (p, cur') \<Rightarrow>
          rbind (store_bytes mo slot (le32 p) m) (\<lambda>m1.
          rbind (store_bytes mo p (s @ [0]) m1) (\<lambda>m2. clone_strings mo (slot + 4) ss cur' m2)))"

definition clone_args_into_userspace :: "'m memory_ops \<Rightarrow> u32 \<Rightarrow> u32 \<Rightarrow> u8 list list \<Rightarrow> u32 \<Rightarrow> 'm \<Rightarrow> 'm result" where
  "clone_args_into_userspace mo argv_dst argc_dst argv_src argv_mem_start m =
     (if argv_src = [] then rbind (store_bytes mo argv_dst (le32 0) m) (store_bytes mo argc_dst (le32 0))
      else
        case allocate_from_buffer (length argv_src * 4) argv_mem_start of
          (p, cur) \<Rightarrow>
            rbind (store_bytes mo argv_dst (le32 p) m) (\<lambda>m1.
            rbind (clone_strings mo p argv_src cur m1) (\<lambda>m2.
              store_bytes mo argc_dst (le32 (word_of_nat (length argv_src))) m2)))"

section \<open>Loading a program\<close>

abbreviation USERSPACE_STACK :: u32 where "USERSPACE_STACK \<equiv> 0xb0000000"

text \<open>The result is what \<^verbatim>\<open>jump_to_usermode\<close> gets: the entry point and the stack pointer.\<close>

definition load_and_jump_userspace :: "'m memory_ops \<Rightarrow> u8 list \<Rightarrow> u8 list list \<Rightarrow> 'm \<Rightarrow> ((u32 \<times> u32) \<times> 'm) result" where
  "load_and_jump_userspace mo d argv m =
     rbind (Elf_from d) (\<lambda>(h, offsets).
     rbind (load_segments mo d offsets m) (\<lambda>m1.
     rbind (mo_allocate mo (USERSPACE_STACK - PAGE_SIZE) True m1) (\<lambda>m2.
     let args_end = USERSPACE_STACK + PAGE_SIZE * 2; args_start = args_end - PAGE_SIZE
     in rbind (mo_allocate mo args_start True m2) (\<lambda>m3.
        rbind (clone_args_into_userspace mo (args_start + 4) (args_start + 8) argv (args_start + 16) m3) (\<lambda>m4.
          Inr ((entry h, USERSPACE_STACK - 16), m4))))))"

section \<open>Pages of a segment\<close>

definition seg_pages :: "ProgramHeader \<Rightarrow> nat" where
  "seg_pages ph = (unat (ph_size_in_memory ph) + 4095) div 4096"

definition seg_range :: "ProgramHeader \<Rightarrow> nat set" where
  "seg_range ph = {page_of (ph_virtual_address ph) ..< page_of (ph_virtual_address ph) + seg_pages ph}"

definition with_pages :: "nat set \<Rightarrow> bool \<Rightarrow> virtual_memory \<Rightarrow> virtual_memory" where
  "with_pages P w m = m\<lparr>vm_pages := (\<lambda>p. if p \<in> P then Some (w, True) else vm_pages m p), vm_room := vm_room m - card P\<rparr>"

lemma with_pages_simps [simp]:
  "vm_pages (with_pages P w m) p = (if p \<in> P then Some (w, True) else vm_pages m p)" "vm_bytes (with_pages P w m) = vm_bytes m"
  "vm_room (with_pages P w m) = vm_room m - card P"
  by (simp_all add: with_pages_def)

abbreviation vm_free :: "virtual_memory \<Rightarrow> nat \<Rightarrow> bool" where
  "vm_free m p \<equiv> own_page p \<and> vm_pages m p = None"

text \<open>The pages from a given one on.\<close>

lemma allocate_segment_eq:
  assumes mem: "unat mem \<le> 0xFFFFF000" and n: "n = (unat mem + 4095) div 4096" and k: "k \<le> n"
    and fit: "page_of va + n \<le> 1048576" and free: "\<forall>p\<in>{page_of va + k ..< page_of va + n}. vm_free m p" and room: "n - k \<le> vm_room m"
  shows "allocate_segment vm_memory va mem w (word_of_nat (k * 4096)) (word_of_nat k) m
    = Some (Inr (word_of_nat n, with_pages {page_of va + k ..< page_of va + n} w m))"
  using k free room
proof (induction "n - k" arbitrary: k m)
  case 0
  then have "k = n" by simp
  moreover have "unat (word_of_nat (n * 4096) :: u32) = n * 4096"
    using mem n by (intro unat_small) auto
  then have "\<not> word_of_nat (n * 4096) < mem"
    using n by (simp add: word_less_nat_alt del: of_nat_mult)
  ultimately show ?case by (subst allocate_segment.simps) (simp add: with_pages_def del: of_nat_mult)
next
  case (Suc j)
  then have kn: "k < n" by simp
  have km: "k * 4096 < unat mem" using kn n by (simp add: less_eq_div_iff_mult_less_eq Suc_le_eq [symmetric])
  then have u: "unat (word_of_nat (k * 4096) :: u32) = k * 4096" using mem by (intro unat_small) simp
  have lt: "word_of_nat (k * 4096) < mem" using km u by (simp add: word_less_nat_alt del: of_nat_mult)
  have "page_of va * 4096 + k * 4096 < 4294967296" using kn fit by simp
  then have "unat ((va AND NOT 0xFFF) + word_of_nat (k * 4096)) = page_of va * 4096 + k * 4096"
    using unat_add_small [of "va AND NOT 0xFFF" "k * 4096"] segment_base [of va] by (simp del: of_nat_mult)
  then have "page_of ((va AND NOT 0xFFF) + word_of_nat (k * 4096)) = page_of va + k"
    by simp
  moreover have "word_of_nat (k * 4096) = (word_of_nat k * PAGE_SIZE :: u32)" by simp
  ultimately have pg: "page_of ((va AND NOT 0xFFF) + word_of_nat k * PAGE_SIZE) = page_of va + k"
    by (simp only:)
  let ?m1 = "m\<lparr>vm_pages := (vm_pages m)(page_of va + k \<mapsto> (w, True)), vm_room := vm_room m - 1\<rparr>"
  have al: "vm_allocate ((va AND NOT 0xFFF) + word_of_nat k * PAGE_SIZE) w m = Inr ?m1"
    using Suc.prems(2,3) kn unfolding vm_allocate_def pg by simp
  have "allocate_segment vm_memory va mem w (word_of_nat (Suc k * 4096)) (word_of_nat (Suc k)) ?m1
      = Some (Inr (word_of_nat n, with_pages {page_of va + Suc k ..< page_of va + n} w ?m1))"
    using Suc.hyps(2) kn Suc.prems(2,3) by (intro Suc.hyps(1)) auto
  moreover have "word_of_nat (Suc k * 4096) = (word_of_nat (k * 4096) + PAGE_SIZE :: u32)" "word_of_nat (Suc k) = (word_of_nat k + 1 :: u32)"
    by simp_all
  moreover have "with_pages {page_of va + Suc k ..< page_of va + n} w ?m1 = with_pages {page_of va + k ..< page_of va + n} w m"
  proof -
    have "card {page_of va + k ..< page_of va + n} = Suc (card {page_of va + Suc k ..< page_of va + n})" using kn by simp
    moreover have "(\<lambda>p. if p \<in> {page_of va + Suc k ..< page_of va + n} then Some (w, True) else vm_pages ?m1 p)
        = (\<lambda>p. if p \<in> {page_of va + k ..< page_of va + n} then Some (w, True) else vm_pages m p)"
      using kn by (auto simp: fun_eq_iff)
    ultimately show ?thesis unfolding with_pages_def by (cases m) simp
  qed
  ultimately show ?case using lt al
    by (subst allocate_segment.simps) (simp add: add.commute [of "word_of_nat (k * 4096)" PAGE_SIZE] del: of_nat_mult of_nat_Suc)
qed

section \<open>A segment in memory\<close>

text \<open>What the headers of a well-formed program satisfy.\<close>

definition seg_ok :: "u8 list \<Rightarrow> ProgramHeader \<Rightarrow> bool" where
  "seg_ok d ph \<longleftrightarrow> ph_alignment ph = 4096 \<and> unat (ph_size_in_memory ph) \<le> 0xFFFFF000
     \<and> page_of (ph_virtual_address ph) + seg_pages ph \<le> 1048576
     \<and> unat (ph_offset ph) + unat (ph_size_in_file ph) \<le> length d
     \<and> unat (ph_virtual_address ph) mod 4096 + unat (ph_size_in_file ph) \<le> seg_pages ph * 4096"

definition seg_image :: "u8 list \<Rightarrow> ProgramHeader \<Rightarrow> u8 list" where
  "seg_image d ph = chunk (unat (ph_offset ph)) (unat (ph_size_in_file ph)) d
     @ replicate (seg_pages ph * 4096 - unat (ph_size_in_file ph) - unat (ph_virtual_address ph) mod 4096) 0"

definition placed :: "u8 list \<Rightarrow> ProgramHeader \<Rightarrow> virtual_memory \<Rightarrow> virtual_memory" where
  "placed d ph m =
     (if ph_type ph = 1
      then (with_pages (seg_range ph) (bit (ph_flags ph) 2) m)
             \<lparr>vm_bytes := stored (ph_virtual_address ph) (seg_image d ph) (vm_bytes m)\<rparr>
      else m)"


lemma length_seg_image:
  assumes "seg_ok d ph"
  shows "length (seg_image d ph) = seg_pages ph * 4096 - unat (ph_virtual_address ph) mod 4096"
  using assms by (simp add: seg_ok_def seg_image_def)

lemma seg_address:
  assumes "seg_ok d ph" "i < length (seg_image d ph)"
  shows "unat (ph_virtual_address ph + word_of_nat i) = unat (ph_virtual_address ph) + i"
    "page_of (ph_virtual_address ph + word_of_nat i) \<in> seg_range ph"
proof -
  let ?va = "unat (ph_virtual_address ph)"
  have i: "?va mod 4096 + i < seg_pages ph * 4096" using assms length_seg_image [OF assms(1)] by linarith
  have e: "?va = page_of (ph_virtual_address ph) * 4096 + ?va mod 4096" by simp
  have p: "page_of (ph_virtual_address ph) + seg_pages ph \<le> 1048576" using assms(1) by (simp add: seg_ok_def)
  have b: "?va + i < 4294967296" using i e p by linarith
  show "unat (ph_virtual_address ph + word_of_nat i) = ?va + i" using b by (rule unat_add_small)
  have "(?va + i) div 4096 < page_of (ph_virtual_address ph) + seg_pages ph"
    using i e by (intro less_mult_imp_div_less) (unfold add_mult_distrib, linarith)
  moreover have "page_of (ph_virtual_address ph) \<le> (?va + i) div 4096" by (intro div_le_mono) simp
  ultimately show "page_of (ph_virtual_address ph + word_of_nat i) \<in> seg_range ph"
    using page_of_plus [OF b] by (simp add: seg_range_def)
qed

lemma load_segment_placed:
  assumes ok: "ph_type ph = 1 \<longrightarrow> seg_ok d ph"
    and free: "ph_type ph = 1 \<longrightarrow> (\<forall>p\<in>seg_range ph. vm_free m p) \<and> seg_pages ph \<le> vm_room m"
  shows "load_segment vm_memory d ph m = Inr (placed d ph m)"
proof (cases "ph_type ph = 1")
  case True
  define va mem fs n where defs: "va = ph_virtual_address ph" "mem = ph_size_in_memory ph" "fs = ph_size_in_file ph"
    "n = seg_pages ph"
  let ?data = "chunk (unat (ph_offset ph)) (unat fs) d" and ?left = "n * 4096 - unat fs - unat va mod 4096"
  let ?m1 = "with_pages (seg_range ph) (bit (ph_flags ph) 2) m"
  note seg = ok [rule_format, OF True]
  have ok': "ph_alignment ph = PAGE_SIZE" "unat mem \<le> 0xFFFFF000" "n = (unat mem + 4095) div 4096"
    "page_of va + n \<le> 1048576" "unat (ph_offset ph) + unat fs \<le> length d" "unat va mod 4096 + unat fs \<le> n * 4096"
    using seg by (simp_all add: seg_ok_def seg_pages_def defs)
  have al: "allocate_segment vm_memory va mem (bit (ph_flags ph) 2) 0 0 m = Some (Inr (word_of_nat n, ?m1))"
    using allocate_segment_eq [OF ok'(2,3) _ ok'(4), of 0] free True by (simp add: seg_range_def defs)
  have im: "seg_image d ph = ?data @ replicate ?left 0" by (simp add: seg_image_def defs)
  have ld: "length ?data = unat fs" using ok'(5) by simp
  have pg: "vm_mapped ?m1 (page_of (va + word_of_nat i))" if "i < unat fs + ?left" for i
    using seg_address(2) [OF seg, of i] that ld im defs(1) free True by simp
  have s1: "store_bytes vm_memory va ?data ?m1 = Inr (?m1\<lparr>vm_bytes := stored va ?data (vm_bytes m)\<rparr>)"
    using pg ld unat_u32_less [of fs] by (subst store_bytes_ok) (simp_all add: less_imp_le)
  have nb: "n * 4096 < 4294967296" using ok'(2,3) by linarith
  have un: "unat (word_of_nat n * PAGE_SIZE :: u32) = n * 4096"
    using unat_small [OF nb] by simp
  have "unat (word_of_nat n * PAGE_SIZE - fs :: u32) = n * 4096 - unat fs"
    using ok'(6) un by (subst unat_sub) (auto simp: word_le_nat_alt)
  then have ul: "unat (word_of_nat n * PAGE_SIZE - fs - (va AND 0xFFF) :: u32) = ?left"
    using ok'(6) word_mod_page [of va] by (subst unat_sub) (auto simp: word_le_nat_alt)
  have pg2: "vm_mapped ?m1 (page_of (va + fs + word_of_nat i))" if "i < ?left" for i
  proof -
    have e: "va + fs + word_of_nat i = va + word_of_nat (unat fs + i)" by simp
    have "unat fs + i < unat fs + ?left" using that by simp
    from pg [OF this] show ?thesis unfolding e .
  qed
  have "stored (va + fs) (replicate ?left 0) (stored va ?data (vm_bytes m)) = stored va (seg_image d ph) (vm_bytes m)"
    using stored_append [of ?data "replicate ?left 0" va "vm_bytes m"] ld nb ok'(6) unfolding im by simp
  then have s2: "store_bytes vm_memory (va + fs) (replicate ?left 0) (?m1\<lparr>vm_bytes := stored va ?data (vm_bytes m)\<rparr>)
      = Inr (?m1\<lparr>vm_bytes := stored va (seg_image d ph) (vm_bytes m)\<rparr>)"
    using pg2 nb by (subst store_bytes_ok) auto
  show ?thesis
    using al s1 s2 ok'(1,5) True unfolding load_segment_def placed_def
    by (simp add: defs(1-3) [symmetric] ul Writable_def rd_bytes_def loop_def)
next
  case False
  then show ?thesis by (simp add: load_segment_def placed_def)
qed

section \<open>All segments\<close>

abbreviation seg_of :: "ProgramHeader \<Rightarrow> nat set" where
  "seg_of ph \<equiv> if ph_type ph = 1 then seg_range ph else {}"

definition seg_union :: "ProgramHeader list \<Rightarrow> nat set" where
  "seg_union phs = (\<Union>ph\<in>set phs. seg_of ph)"

lemma seg_union_simps [simp]: "seg_union [] = {}" "seg_union (ph # phs) = seg_of ph \<union> seg_union phs"
  by (simp_all add: seg_union_def)

definition segs_ok :: "u8 list \<Rightarrow> ProgramHeader list \<Rightarrow> bool" where
  "segs_ok d phs \<longleftrightarrow> (\<forall>ph\<in>set phs. ph_type ph = 1 \<longrightarrow> seg_ok d ph)"

text \<open>No two segments have a page in common.\<close>

fun segs_disjoint :: "ProgramHeader list \<Rightarrow> bool" where
  "segs_disjoint [] \<longleftrightarrow> True"
| "segs_disjoint (ph # phs) \<longleftrightarrow> (\<forall>q\<in>set phs. seg_of ph \<inter> seg_of q = {}) \<and> segs_disjoint phs"

lemma seg_union_bound: "segs_ok d phs \<Longrightarrow> p \<in> seg_union phs \<Longrightarrow> p < 1048576"
  by (force simp: segs_ok_def seg_ok_def seg_union_def seg_range_def split: if_splits)

lemma segs_disjoint_Cons: "segs_disjoint (ph # phs) \<longleftrightarrow> seg_of ph \<inter> seg_union phs = {} \<and> segs_disjoint phs"
  by (auto simp: seg_union_def)

definition seg_count :: "ProgramHeader list \<Rightarrow> nat" where
  "seg_count phs = sum_list (map (\<lambda>ph. if ph_type ph = 1 then seg_pages ph else 0) phs)"

lemma seg_count_simps [simp]:
  "seg_count [] = 0" "seg_count (ph # phs) = (if ph_type ph = 1 then seg_pages ph else 0) + seg_count phs"
  by (simp_all add: seg_count_def)

definition all_placed :: "u8 list \<Rightarrow> ProgramHeader list \<Rightarrow> virtual_memory \<Rightarrow> virtual_memory" where
  "all_placed d phs m = fold (placed d) phs m"

lemma placed_pages: "vm_pages (placed d ph m) p = (if p \<in> seg_of ph then Some (bit (ph_flags ph) 2, True) else vm_pages m p)"
  "vm_room (placed d ph m) = vm_room m - (if ph_type ph = 1 then seg_pages ph else 0)"
  by (simp_all add: placed_def seg_range_def)

lemma placed_outside:
  assumes "ph_type ph = 1 \<longrightarrow> seg_ok d ph" "page_of x \<notin> seg_of ph"
  shows "vm_bytes (placed d ph m) x = vm_bytes m x"
proof (cases "ph_type ph = 1")
  case True
  have "\<not> unat (x - ph_virtual_address ph) < length (seg_image d ph)"
  proof
    assume "unat (x - ph_virtual_address ph) < length (seg_image d ph)"
    from seg_address(2) [OF assms(1) [rule_format, OF True] this] show False using assms(2) True by simp
  qed
  then show ?thesis using True by (simp add: placed_def stored_def)
next
  case False
  then show ?thesis by (simp add: placed_def)
qed

lemma all_placed_outside:
  assumes "segs_ok d phs" "page_of x \<notin> seg_union phs"
  shows "vm_bytes (all_placed d phs m) x = vm_bytes m x"
  using assms
proof (induction phs arbitrary: m)
  case Nil
  then show ?case by (simp add: all_placed_def)
next
  case (Cons ph phs)
  have "vm_bytes (all_placed d phs (placed d ph m)) x = vm_bytes (placed d ph m) x"
    using Cons.prems by (intro Cons.IH) (auto simp: segs_ok_def)
  moreover have "vm_bytes (placed d ph m) x = vm_bytes m x"
    using Cons.prems by (intro placed_outside) (auto simp: segs_ok_def)
  ultimately show ?case by (simp add: all_placed_def)
qed

lemma all_placed_pages_outside: "p \<notin> seg_union phs \<Longrightarrow> vm_pages (all_placed d phs m) p = vm_pages m p"
  by (induction phs arbitrary: m) (simp_all add: all_placed_def placed_pages split: if_splits)

lemma all_placed_room: "vm_room (all_placed d phs m) = vm_room m - seg_count phs"
  by (induction phs arbitrary: m) (simp_all add: all_placed_def placed_pages)

lemma all_placed_inside:
  assumes "segs_ok d phs" "segs_disjoint phs" "ph \<in> set phs" "ph_type ph = 1"
  shows "p \<in> seg_range ph \<Longrightarrow> vm_pages (all_placed d phs m) p = Some (bit (ph_flags ph) 2, True)"
    "i < length (seg_image d ph) \<Longrightarrow> vm_bytes (all_placed d phs m) (ph_virtual_address ph + word_of_nat i) = seg_image d ph ! i"
  using assms
proof (induction phs arbitrary: m)
  case (Cons q phs)
  {
    case 1
    then show ?case
    proof (cases "ph \<in> set phs")
      case False
      then have "q = ph" "p \<notin> seg_union phs" using 1 unfolding segs_disjoint_Cons by auto
      then show ?thesis using 1 all_placed_pages_outside [of p phs d "placed d ph m"] by (simp add: all_placed_def placed_pages)
    qed (use Cons.IH(1) [of "placed d q m"] in \<open>auto simp: all_placed_def segs_ok_def\<close>)
  next
    case 2
    show ?case
    proof (cases "ph \<in> set phs")
      case False
      then have q: "q = ph" using 2 by simp
      have ok: "seg_ok d ph" "segs_ok d phs" using 2 q by (simp_all add: segs_ok_def)
      have "page_of (ph_virtual_address ph + word_of_nat i) \<in> seg_range ph" using 2 ok by (intro seg_address)
      then have "page_of (ph_virtual_address ph + word_of_nat i) \<notin> seg_union phs"
        using 2 q unfolding segs_disjoint_Cons by auto
      then have "vm_bytes (all_placed d phs (placed d ph m)) (ph_virtual_address ph + word_of_nat i)
          = vm_bytes (placed d ph m) (ph_virtual_address ph + word_of_nat i)"
        using ok by (intro all_placed_outside)
      moreover have "length (seg_image d ph) \<le> 4294967296"
        using length_seg_image [OF ok(1)] ok(1) unfolding seg_ok_def by linarith
      ultimately show ?thesis using q 2 by (simp add: all_placed_def placed_def stored_at)
    qed (use 2 Cons.IH(2) [of "placed d q m"] in \<open>auto simp: all_placed_def segs_ok_def\<close>)
  }
qed simp_all

lemma load_segments_placed:
  assumes "segs_ok d phs" "segs_disjoint phs" "\<forall>p\<in>seg_union phs. vm_free m p" "seg_count phs \<le> vm_room m"
    "map (read_program_header d) offsets = map Inr phs"
  shows "load_segments vm_memory d offsets m = Inr (all_placed d phs m)"
  using assms
proof (induction phs arbitrary: m offsets)
  case Nil
  then show ?case by (simp add: load_segments_def all_placed_def)
next
  case (Cons ph phs)
  obtain off offs where o: "offsets = off # offs" "read_program_header d off = Inr ph"
    "map (read_program_header d) offs = map Inr phs" using Cons.prems(5) by auto
  have 1: "load_segment vm_memory d ph m = Inr (placed d ph m)"
    using Cons.prems(1,3,4) by (intro load_segment_placed) (auto simp: segs_ok_def)
  have "vm_free (placed d ph m) p" if "p \<in> seg_union phs" for p
    using that Cons.prems(2,3) unfolding segs_disjoint_Cons placed_pages by (auto split: if_splits)
  then have "load_segments vm_memory d offs (placed d ph m) = Inr (all_placed d phs (placed d ph m))"
    using Cons.prems(1,2,4) o(3) by (intro Cons.IH) (auto simp: segs_ok_def placed_pages)
  then show ?case using o 1 by (simp add: load_segments_def all_placed_def)
qed


section \<open>The arguments in memory\<close>

text \<open>The strings one after the other, and the addresses at which they start.\<close>

definition strings_at :: "u8 list list \<Rightarrow> u8 list" where
  "strings_at ss = concat (map (\<lambda>s. s @ [0]) ss)"

fun string_starts :: "nat \<Rightarrow> u8 list list \<Rightarrow> nat list" where
  "string_starts c [] = []"
| "string_starts c (s # ss) = c # string_starts (c + length s + 1) ss"

definition slots_at :: "nat \<Rightarrow> u8 list list \<Rightarrow> u8 list" where
  "slots_at c ss = concat (map (\<lambda>p. le32 (word_of_nat p)) (string_starts c ss))"

lemma length_string_starts [simp]: "length (string_starts c ss) = length ss"
  by (induction c ss rule: string_starts.induct) simp_all

lemma slots_at_simps [simp]: "slots_at c [] = []"
    "slots_at c (s # ss) = le32 (word_of_nat c) @ slots_at (c + length s + 1) ss"
  by (simp_all add: slots_at_def)

lemma strings_at_simps [simp]: "strings_at [] = []" "strings_at (s # ss) = s @ 0 # strings_at ss"
  by (simp_all add: strings_at_def)

lemma length_slots_at [simp]: "length (slots_at c ss) = 4 * length ss"
  by (induction c ss rule: string_starts.induct) simp_all

lemma clone_strings_ok:
  assumes "unat slot + 4 * length ss \<le> unat cur" "unat cur + length (strings_at ss) \<le> (P + 1) * 4096"
    "P * 4096 \<le> unat slot" "P < 1048575" "vm_mapped m P"
  shows "clone_strings vm_memory slot ss cur m
    = Inr (m\<lparr>vm_bytes := stored slot (slots_at (unat cur) ss) (stored cur (strings_at ss) (vm_bytes m))\<rparr>)"
  using assms
proof (induction ss arbitrary: slot cur m)
  case Nil
  then show ?case by (simp add: stored_def)
next
  case (Cons s ss)
  have top: "(P + 1) * 4096 < 4294967296" using Cons.prems(4) by simp
  have on_page: "vm_mapped m' (page_of (a + word_of_nat i))"
    if "P * 4096 \<le> unat a" "unat a + i < (P + 1) * 4096" "vm_pages m' = vm_pages m" for a i m'
  proof -
    have "(unat a + i) div 4096 = P" using that by (intro div_nat_eqI) auto
    then show ?thesis using page_of_plus [of a i] that top Cons.prems(5) by simp
  qed
  let ?f = "vm_bytes m" and ?s = "s @ [0 :: u8]" and ?cur' = "cur + word_of_nat (length s + 1)"
  let ?m1 = "m\<lparr>vm_bytes := stored slot (le32 cur) ?f\<rparr>"
  let ?m2 = "m\<lparr>vm_bytes := stored cur ?s (stored slot (le32 cur) ?f)\<rparr>"
  have s1: "store_bytes vm_memory slot (le32 cur) m = Inr ?m1"
    using on_page [of slot _ m] Cons.prems(1,2,3) by (subst store_bytes_ok) auto
  have s2: "store_bytes vm_memory cur ?s ?m1 = Inr ?m2"
    using on_page [of cur _ ?m1] Cons.prems(1,2,3) top by (subst store_bytes_ok) auto
  have c: "unat ?cur' = unat cur + (length s + 1)" using Cons.prems(2) top by (intro unat_add_small) simp
  have sl: "unat (slot + 4) = unat slot + 4" using Cons.prems(1,2) top unat_add_small [of slot 4] by simp
  have h: "unat (slot + 4) + 4 * length ss \<le> unat ?cur'" "unat ?cur' + length (strings_at ss) \<le> (P + 1) * 4096"
    "P * 4096 \<le> unat (slot + 4)"
    unfolding sl c using Cons.prems(1-3) by simp_all
  have "clone_strings vm_memory (slot + 4) ss ?cur' ?m2 = Inr (?m2\<lparr>vm_bytes := stored (slot + 4) (slots_at (unat ?cur') ss)
      (stored ?cur' (strings_at ss) (vm_bytes ?m2))\<rparr>)"
    using Cons.prems(4,5) by (intro Cons.IH h) simp_all
  moreover have "stored ?cur' (strings_at ss) (vm_bytes ?m2) = stored slot (le32 cur) (stored cur (strings_at (s # ss)) ?f)"
    using stored_append [of ?s "strings_at ss" cur "stored slot (le32 cur) ?f"] Cons.prems(1,2) top
      stored_commute [of slot "le32 cur" cur "strings_at (s # ss)" ?f] by simp
  moreover have "stored (slot + 4) (slots_at (unat ?cur') ss) (stored slot (le32 cur) (stored cur (strings_at (s # ss)) ?f))
      = stored slot (slots_at (unat cur) (s # ss)) (stored cur (strings_at (s # ss)) ?f)"
    using stored_append [of "le32 cur" "slots_at (unat ?cur') ss" slot] Cons.prems(1,2) top c by simp
  ultimately show ?case using s1 s2 by (simp add: allocate_from_buffer_def)
qed


lemma nth_string_start: "i < length ss \<Longrightarrow> string_starts c ss ! i = c + length (strings_at (take i ss))"
  by (induction ss arbitrary: c i) (auto simp: nth_Cons' take_Cons')

lemma chunk_slots: "i < length ss \<Longrightarrow> chunk (4 * i) 4 (slots_at c ss) = le32 (word_of_nat (string_starts c ss ! i))"
proof (induction ss arbitrary: c i)
  case (Cons s ss)
  show ?case
  proof (cases i)
    case (Suc j)
    have "chunk (4 * i) 4 (slots_at c (s # ss)) = chunk (4 * j) 4 (slots_at (c + length s + 1) ss)"
      using Suc by (simp add: chunk_def)
    then show ?thesis using Cons.IH [of j "c + length s + 1"] Cons.prems Suc by simp
  qed (simp add: chunk_def)
qed simp

lemma chunk_strings: "i < length ss
    \<Longrightarrow> chunk (length (strings_at (take i ss))) (length (ss ! i) + 1) (strings_at ss) = ss ! i @ [0]"
proof -
  assume i: "i < length ss"
  have "strings_at ss = strings_at (take i ss @ ss ! i # drop (Suc i) ss)" using i by (simp add: id_take_nth_drop [symmetric])
  also have "\<dots> = strings_at (take i ss) @ (ss ! i @ [0]) @ strings_at (drop (Suc i) ss)" by (simp add: strings_at_def)
  finally show ?thesis by (simp add: chunk_def)
qed

lemma string_in_strings: "i < length ss \<Longrightarrow> length (strings_at (take i ss)) + (length (ss ! i) + 1) \<le> length (strings_at ss)"
proof -
  assume i: "i < length ss"
  have "strings_at ss = strings_at (take i ss @ ss ! i # drop (Suc i) ss)" using i by (simp add: id_take_nth_drop [symmetric])
  also have "\<dots> = strings_at (take i ss) @ (ss ! i @ [0]) @ strings_at (drop (Suc i) ss)" by (simp add: strings_at_def)
  finally show ?thesis by simp
qed

abbreviation args_page :: nat where "args_page \<equiv> 0xB0001"
abbreviation stack_page :: nat where "stack_page \<equiv> 0xAFFFF"

definition args_fit :: "u8 list list \<Rightarrow> bool" where
  "args_fit argv \<longleftrightarrow> 16 + 4 * length argv + length (strings_at argv) \<le> 4096 \<and> (\<forall>s\<in>set argv. 0 \<notin> set s)"

lemma own_pages [simp]: "own_page args_page" "own_page stack_page"
  by (simp_all add: own_page_def)

definition args_placed :: "u8 list list \<Rightarrow> (u32 \<Rightarrow> u8) \<Rightarrow> u32 \<Rightarrow> u8" where
  "args_placed argv f =
     (if argv = [] then stored 0xB0001008 (le32 0) (stored 0xB0001004 (le32 0) f)
      else stored 0xB0001008 (le32 (word_of_nat (length argv)))
             (stored 0xB0001010 (slots_at (0xB0001010 + 4 * length argv) argv)
                (stored (0xB0001010 + word_of_nat (4 * length argv)) (strings_at argv)
                   (stored 0xB0001004 (le32 0xB0001010) f))))"

lemma clone_args_ok:
  assumes "args_fit argv" "vm_pages m args_page \<noteq> None"
  shows "clone_args_into_userspace vm_memory 0xB0001004 0xB0001008 argv 0xB0001010 m
    = Inr (m\<lparr>vm_bytes := args_placed argv (vm_bytes m)\<rparr>)"
proof (cases "argv = []")
  case True
  then show ?thesis using assms(2)
    by (simp add: clone_args_into_userspace_def args_placed_def store_on_page [where P = args_page])
next
  case False
  let ?n = "4 * length argv"
  define cur :: u32 where "cur = 0xB0001010 + word_of_nat ?n"
  have n: "16 + ?n + length (strings_at argv) \<le> 4096" using assms(1) by (simp add: args_fit_def)
  have u: "unat cur = 0xB0001010 + ?n" using n unat_add_small [of "0xB0001010" ?n] by (simp add: cur_def)
  have prog: "clone_args_into_userspace vm_memory 0xB0001004 0xB0001008 argv 0xB0001010 m
      = rbind (store_bytes vm_memory 0xB0001004 (le32 0xB0001010) m) (\<lambda>m1. rbind (clone_strings vm_memory 0xB0001010 argv cur m1)
          (store_bytes vm_memory 0xB0001008 (le32 (word_of_nat (length argv)))))"
    using False by (simp add: clone_args_into_userspace_def allocate_from_buffer_def cur_def mult.commute)
  have "clone_strings vm_memory 0xB0001010 argv cur (m\<lparr>vm_bytes := stored 0xB0001004 (le32 0xB0001010) (vm_bytes m)\<rparr>)
      = Inr (m\<lparr>vm_bytes := stored 0xB0001010 (slots_at (unat cur) argv)
          (stored cur (strings_at argv) (stored 0xB0001004 (le32 0xB0001010) (vm_bytes m)))\<rparr>)"
    using assms(2) n by (subst clone_strings_ok [where P = args_page]) (simp_all add: u)
  then show ?thesis using assms(2) False unfolding prog
    by (simp add: args_placed_def cur_def [symmetric] u store_on_page [where P = args_page] del: of_nat_mult)
qed

lemma args_placed_reads:
  assumes "args_fit argv"
  shows "reads (args_placed argv f) 0xB0001008 4 = le32 (word_of_nat (length argv))"
    "reads (args_placed argv f) 0xB0001004 4 = le32 (if argv = [] then 0 else 0xB0001010)"
    "i < length argv \<Longrightarrow> \<exists>p. reads (args_placed argv f) (0xB0001010 + word_of_nat (4 * i)) 4 = le32 p
       \<and> reads (args_placed argv f) p (length (argv ! i) + 1) = argv ! i @ [0]"
    "page_of x \<noteq> args_page \<Longrightarrow> args_placed argv f x = f x"
proof -
  let ?n = "4 * length argv"
  define cur :: u32 where "cur = 0xB0001010 + word_of_nat ?n"
  have n: "16 + ?n + length (strings_at argv) \<le> 4096" using assms by (simp add: args_fit_def)
  have u: "unat cur = 0xB0001010 + ?n" using n unat_add_small [of "0xB0001010" ?n] by (simp add: cur_def)
  let ?g = "stored cur (strings_at argv) (stored 0xB0001004 (le32 0xB0001010) f)"
  let ?h = "stored 0xB0001010 (slots_at (unat cur) argv) ?g"
  have e: "args_placed argv f = stored 0xB0001008 (le32 (word_of_nat (length argv))) ?h" if "argv \<noteq> []"
    using that by (simp add: args_placed_def cur_def [symmetric] u del: of_nat_mult)
  have w: "word_of_nat (length argv) = (0 :: u32)" "slots_at c argv = []" if "argv = []" for c using that by simp_all
  show "reads (args_placed argv f) 0xB0001008 4 = le32 (word_of_nat (length argv))"
    using reads_stored_all [of "0xB0001008" "le32 (word_of_nat (length argv))"] e by (cases "argv = []") (simp_all add: args_placed_def)
  show "reads (args_placed argv f) 0xB0001004 4 = le32 (if argv = [] then 0 else 0xB0001010)"
    using reads_stored_all [of "0xB0001004" "le32 _"] e n
    by (cases "argv = []") (simp_all add: args_placed_def reads_outside u)
  {
    assume i: "i < length argv"
    let ?p = "cur + word_of_nat (length (strings_at (take i argv)))"
    have s: "length (strings_at (take i argv)) + (length (argv ! i) + 1) \<le> length (strings_at argv)"
      using i by (rule string_in_strings)
    have up: "unat ?p = unat cur + length (strings_at (take i argv))" using s n u by (intro unat_add_small) simp
    have ne: "argv \<noteq> []" using i by auto
    have ua: "unat (0xB0001010 + word_of_nat (4 * i) :: u32) = 0xB0001010 + 4 * i"
      using unat_add_small [of "0xB0001010" "4 * i"] n i by simp
    have "word_of_nat (string_starts (unat cur) argv ! i) = ?p" using i by (simp add: nth_string_start)
    then have "reads ?h (0xB0001010 + word_of_nat (4 * i)) 4 = le32 ?p"
      using chunk_slots [OF i, of "unat cur"] n i by (subst reads_stored) simp_all
    then have 1: "reads (args_placed argv f) (0xB0001010 + word_of_nat (4 * i)) 4 = le32 ?p"
      unfolding e [OF ne] using ua n i by (subst reads_outside) simp_all
    have "reads ?g ?p (length (argv ! i) + 1) = argv ! i @ [0]"
      using chunk_strings [OF i] s n u by (subst reads_stored) simp_all
    then have 2: "reads (args_placed argv f) ?p (length (argv ! i) + 1) = argv ! i @ [0]"
      unfolding e [OF ne] using up u n s by (subst reads_outside, simp_all)+
    show "\<exists>p. reads (args_placed argv f) (0xB0001010 + word_of_nat (4 * i)) 4 = le32 p
       \<and> reads (args_placed argv f) p (length (argv ! i) + 1) = argv ! i @ [0]"
      using 1 2 by (intro exI conjI)
  }
  {
    assume x: "page_of x \<noteq> args_page"
    have out: "stored a as g x = g x" if "0xB0001000 \<le> unat a" "unat a + length as \<le> 0xB0002000" for a as g
    proof -
      have "\<not> unat (x - a) < length as"
      proof
        assume l: "unat (x - a) < length as"
        have "0xB0001000 \<le> unat x" "unat x < 0xB0002000" using in_block(1,2) [OF l] that by simp_all
        then have "page_of x = args_page" by (intro div_nat_eqI) auto
        then show False using x by simp
      qed
      then show ?thesis by (simp add: stored_def)
    qed
    show "args_placed argv f x = f x"
      using e n u by (cases "argv = []") (simp_all add: args_placed_def out)
  }
qed

section \<open>The whole program in memory\<close>

lemma reads_seg_image:
  assumes "segs_ok d phs" "segs_disjoint phs" "ph \<in> set phs" "ph_type ph = 1"
  shows "reads (vm_bytes (all_placed d phs m)) (ph_virtual_address ph) (length (seg_image d ph)) = seg_image d ph"
  using all_placed_inside(2) [OF assms] by (intro nth_equalityI) (simp_all add: reads_def)

definition program_placed :: "u8 list \<Rightarrow> ProgramHeader list \<Rightarrow> u8 list list \<Rightarrow> virtual_memory \<Rightarrow> virtual_memory" where
  "program_placed d phs argv m =
     (let m1 = all_placed d phs m
      in m1\<lparr>vm_pages := (vm_pages m1)(stack_page \<mapsto> (True, True), args_page \<mapsto> (True, True)),
            vm_bytes := args_placed argv (vm_bytes m1), vm_room := vm_room m1 - 2\<rparr>)"

lemma program_placed_simps [simp]:
  "vm_pages (program_placed d phs argv m) p =
     (if p = args_page \<or> p = stack_page then Some (True, True) else vm_pages (all_placed d phs m) p)"
  "vm_bytes (program_placed d phs argv m) = args_placed argv (vm_bytes (all_placed d phs m))"
  by (simp_all add: program_placed_def Let_def)

lemma load_program_placed:
  assumes header: "read_elf_header d = Inr h" "header_valid h"
    and segments: "map (read_program_header d) (program_header_offsets h) = map Inr phs"
      "segs_ok d phs" "segs_disjoint phs" "stack_page \<notin> seg_union phs" "args_page \<notin> seg_union phs"
    and free: "\<forall>p \<in> seg_union phs \<union> {stack_page, args_page}. vm_free m p" and room: "seg_count phs + 2 \<le> vm_room m"
    and argv: "args_fit argv"
  shows "load_and_jump_userspace vm_memory d argv m = Inr ((entry h, USERSPACE_STACK - 16), program_placed d phs argv m)"
proof -
  let ?m1 = "all_placed d phs m"
  let ?m3 = "?m1\<lparr>vm_pages := (vm_pages ?m1)(stack_page \<mapsto> (True, True), args_page \<mapsto> (True, True)), vm_room := vm_room ?m1 - 2\<rparr>"
  have l: "load_segments vm_memory d (program_header_offsets h) m = Inr ?m1"
    using segments free room by (intro load_segments_placed) auto
  have np: "vm_pages ?m1 stack_page = None" "vm_pages ?m1 args_page = None"
    using free segments(4,5) by (simp_all add: all_placed_pages_outside)
  have rm: "2 \<le> vm_room ?m1" using room by (simp add: all_placed_room)
  have "clone_args_into_userspace vm_memory 0xB0001004 0xB0001008 argv 0xB0001010 ?m3 = Inr (?m3\<lparr>vm_bytes := args_placed argv (vm_bytes ?m3)\<rparr>)"
    by (rule clone_args_ok [OF argv]) simp
  moreover have "?m3\<lparr>vm_bytes := args_placed argv (vm_bytes ?m3)\<rparr> = program_placed d phs argv m"
    by (simp add: program_placed_def Let_def)
  ultimately show ?thesis
    using header l np rm own_pages by (simp add: load_and_jump_userspace_def Elf_from_def vm_allocate_def numeral_2_eq_2 [symmetric])
qed

lemma program_placed_segment:
  assumes "segs_ok d phs" "segs_disjoint phs" "args_page \<notin> seg_union phs" "stack_page \<notin> seg_union phs" "args_fit argv"
    and ph: "ph \<in> set phs" "ph_type ph = 1"
  shows "reads (vm_bytes (program_placed d phs argv m)) (ph_virtual_address ph) (length (seg_image d ph)) = seg_image d ph"
    "p \<in> seg_range ph \<Longrightarrow> vm_pages (program_placed d phs argv m) p = Some (bit (ph_flags ph) 2, True)"
proof -
  let ?m1 = "all_placed d phs m"
  have ok: "seg_ok d ph" using assms(1) ph by (simp add: segs_ok_def)
  have sub: "seg_range ph \<subseteq> seg_union phs" using ph by (auto simp: seg_union_def)
  have "reads (args_placed argv (vm_bytes ?m1)) (ph_virtual_address ph) (length (seg_image d ph))
      = reads (vm_bytes ?m1) (ph_virtual_address ph) (length (seg_image d ph))"
  proof (rule reads_cong)
    fix i assume "i < length (seg_image d ph)"
    have u: "page_of (ph_virtual_address ph + word_of_nat i) \<in> seg_union phs"
      using seg_address(2) [OF ok \<open>i < _\<close>] sub by (rule subsetD [rotated])
    have "page_of (ph_virtual_address ph + word_of_nat i) \<noteq> args_page"
    proof
      assume e: "page_of (ph_virtual_address ph + word_of_nat i) = args_page"
      show False using u assms(3) unfolding e by contradiction
    qed
    then show "args_placed argv (vm_bytes ?m1) (ph_virtual_address ph + word_of_nat i) = vm_bytes ?m1 (ph_virtual_address ph + word_of_nat i)"
      by (rule args_placed_reads(4) [OF assms(5)])
  qed
  then show "reads (vm_bytes (program_placed d phs argv m)) (ph_virtual_address ph) (length (seg_image d ph)) = seg_image d ph"
    using reads_seg_image [OF assms(1,2) ph] by simp
  show "vm_pages (program_placed d phs argv m) p = Some (bit (ph_flags ph) 2, True)" if "p \<in> seg_range ph"
    using all_placed_inside(1) [OF assms(1,2) ph that] that sub assms(3,4) by auto
qed

section \<open>On the kernel's memory\<close>

lemma rfold_follows:
  assumes "\<And>x m s. R m s \<Longrightarrow> follows R (f x m) (g x s)"
  shows "R m s \<Longrightarrow> follows R (rfold f xs m) (rfold g xs s)"
proof (induction xs arbitrary: m s)
  case (Cons x xs)
  then show ?case using assms by (simp add: follows_rbind [where R = R])
qed simp

context memory_refinement begin

lemma allocate_segment_follows:
  "allocate_segment mo va mem w sz k m = Some r \<Longrightarrow> mo = am \<Longrightarrow> R m s
    \<Longrightarrow> (\<exists>e. r = Inl e \<and> e \<noteq> BadAccess)
      \<or> (\<exists>r'. allocate_segment cm va mem w sz k s = Some r' \<and> follows (rel_prod (=) R) r r')"
proof (induction arbitrary: s rule: allocate_segment.raw_induct [rotated, consumes 1, case_names 1])
  case (1 f mo va mem w sz k m r)
  let ?a = "(va AND NOT 0xFFF) + k * PAGE_SIZE"
  note law = allocate_law [OF 1(4), of ?a w]
  show ?case
  proof (cases "sz < mem")
    case False
    then show ?thesis using 1(2,4) by (subst allocate_segment.simps) auto
  next
    case True
    show ?thesis
    proof (cases "mo_allocate am ?a w m")
      case (Inl e)
      then have "r = Inl e" using 1(2,3) True by simp
      then show ?thesis using law Inl True by (subst allocate_segment.simps) auto
    next
      case (Inr m1)
      then obtain s1 where s1: "mo_allocate cm ?a w s = Inr s1" "R m1 s1" using law by auto
      have "f mo va mem w (sz + PAGE_SIZE) (k + 1) m1 = Some r" using 1(2,3) True Inr by simp
      from 1(1) [OF this 1(3) s1(2)] show ?thesis using True s1 by (subst allocate_segment.simps) auto
    qed
  qed
qed

lemma load_segment_follows: "R m s \<Longrightarrow> follows R (load_segment am d ph m) (load_segment cm d ph s)"
proof -
  assume rel: "R m s"
  let ?al = "\<lambda>mo. allocate_segment mo (ph_virtual_address ph) (ph_size_in_memory ph) (get_bit (ph_flags ph) Writable) 0 0"
  have "follows (rel_prod (=) R) (loop (?al am m)) (loop (?al cm s))"
  proof (cases "?al am m")
    case (Some r)
    then show ?thesis using allocate_segment_follows [OF Some refl rel] by auto
  qed (simp add: loop_def)
  then show ?thesis using rel
    by (auto simp: load_segment_def Let_def rel_prod_sel intro!: follows_rbind follows_same store_bytes_follows)
qed

lemma load_segments_follows: "R m s \<Longrightarrow> follows R (load_segments am d offs m) (load_segments cm d offs s)"
  unfolding load_segments_def by (rule rfold_follows) (auto intro!: follows_same load_segment_follows)

lemma clone_strings_follows: "R m s \<Longrightarrow> follows R (clone_strings am slot ss cur m) (clone_strings cm slot ss cur s)"
  by (induction ss arbitrary: slot cur m s) (auto simp: allocate_from_buffer_def intro!: follows_rbind store_bytes_follows)

lemma clone_args_follows:
  "R m s \<Longrightarrow> follows R (clone_args_into_userspace am a c argv start m) (clone_args_into_userspace cm a c argv start s)"
  by (auto simp: clone_args_into_userspace_def allocate_from_buffer_def
      intro!: follows_rbind store_bytes_follows clone_strings_follows)

lemma load_program_follows:
  "R m s \<Longrightarrow> follows (rel_prod (=) R) (load_and_jump_userspace am d argv m) (load_and_jump_userspace cm d argv s)"
  by (auto simp: load_and_jump_userspace_def Let_def split: prod.splits
      intro!: follows_same follows_rbind load_segments_follows clone_args_follows allocate_law)

end

lemma crossing_segment_abstract:
  assumes "ph_type ph = 1" "ph_alignment ph = 4096" "unat (ph_size_in_memory ph) \<le> 0xFFFFF000"
    and "page_of (ph_virtual_address ph) + seg_pages ph < 1048576"
    and "unat (ph_offset ph) + unat (ph_size_in_file ph) \<le> length d"
    and "0 < ph_size_in_memory ph"
    and "seg_pages ph * 4096 < unat (ph_virtual_address ph) mod 4096 + unat (ph_size_in_file ph)"
    and free: "\<forall>p\<in>insert (page_of (ph_virtual_address ph) + seg_pages ph) (seg_range ph). vm_free m p" and room: "seg_pages ph \<le> vm_room m"
  shows "load_segment vm_memory d ph m = Inl BadAccess"
proof -
  let ?va = "unat (ph_virtual_address ph)" and ?m1 = "with_pages (seg_range ph) (bit (ph_flags ph) 2) m"
  let ?data = "chunk (unat (ph_offset ph)) (unat (ph_size_in_file ph)) d"
  have al: "allocate_segment vm_memory (ph_virtual_address ph) (ph_size_in_memory ph) (bit (ph_flags ph) 2) 0 0 m
      = Some (Inr (word_of_nat (seg_pages ph), ?m1))"
    using allocate_segment_eq [OF assms(3) refl, of 0 "ph_virtual_address ph" m] assms(4) free room
    by (simp add: seg_range_def seg_pages_def)
  define i where "i = seg_pages ph * 4096 - ?va mod 4096"
  have "1 \<le> seg_pages ph" using assms(6) unat_gt_0 [of "ph_size_in_memory ph"] by (simp add: seg_pages_def word_gt_0 less_eq_div_iff_mult_less_eq)
  then have "?va mod 4096 \<le> seg_pages ph * 4096" using mod_less_divisor [of 4096 ?va] by linarith
  then have a: "?va + i = (page_of (ph_virtual_address ph) + seg_pages ph) * 4096"
    using div_mult_mod_eq [of ?va 4096] unfolding i_def add_mult_distrib by linarith
  then have "?va + i < 4294967296" using assms(4) by simp
  then have "page_of (ph_virtual_address ph + word_of_nat i) = page_of (ph_virtual_address ph) + seg_pages ph"
    using page_of_plus a by simp
  moreover have "i < length ?data"
    using assms(5,7) \<open>?va mod 4096 \<le> seg_pages ph * 4096\<close> unfolding i_def by (subst length_chunk) linarith+
  moreover have "own_page (page_of (ph_virtual_address ph + word_of_nat j))" if "j \<le> i" for j
  proof -
    have "?va + j \<le> ?va + i" using that by simp
    then have "(?va + j) div 4096 \<le> page_of (ph_virtual_address ph) + seg_pages ph" using div_le_mono [of "?va + j" "?va + i" 4096] unfolding a by simp
    moreover have "page_of (ph_virtual_address ph) \<le> (?va + j) div 4096" by (intro div_le_mono) simp
    moreover have "page_of (ph_virtual_address ph + word_of_nat j) = (?va + j) div 4096"
      using \<open>?va + j \<le> ?va + i\<close> \<open>?va + i < 4294967296\<close> by (intro page_of_plus) simp
    ultimately have "page_of (ph_virtual_address ph + word_of_nat j) \<in> insert (page_of (ph_virtual_address ph) + seg_pages ph) (seg_range ph)"
      by (auto simp: seg_range_def)
    then show ?thesis using free by blast
  qed
  ultimately have "store_bytes vm_memory (ph_virtual_address ph) ?data ?m1 = Inl BadAccess"
    using free by (intro store_bytes_faults [of i]) (auto simp: seg_range_def)
  then show ?thesis using assms(1,2,5) al by (simp add: load_segment_def Writable_def rd_bytes_def loop_def)
qed


text \<open>A program of one page with two instructions, started with two arguments.\<close>

definition example_program :: "u8 list" where
  "example_program = [0x7f, 0x45, 0x4c, 0x46, 1, 1, 1, 0, 0, 0, 0, 0, 0, 0, 0, 0, 2, 0, 3, 0, 1, 0, 0, 0, 0x54, 0x80, 4, 8,
     52, 0, 0, 0, 0, 0, 0, 0, 0, 0, 0, 0, 52, 0, 32, 0, 1, 0, 0, 0, 0, 0, 0, 0,
     1, 0, 0, 0, 84, 0, 0, 0, 0x54, 0x80, 4, 8, 0x54, 0x80, 4, 8, 2, 0, 0, 0, 16, 0, 0, 0, 5, 0, 0, 0, 0, 0x10, 0, 0,
     0x90, 0xc3]"

lemma mapped_frame: "map_option snd z = Some y \<Longrightarrow> \<exists>f. z = Some (f, y)" by auto

section \<open>Properties\<close>

text \<open>
  C19: a program whose header is valid and whose segments lie in the file, in pages of their own and apart from the
  pages of the stack and of the arguments, is loaded by the memory manager: when the pages are outside the kernel's
  own tables and not mapped yet, when there are two free frames for each page (one may become a page table) and
  when the arguments fit their page, then every segment's memory holds the bytes of the file followed by zeros to
  the end of its last page, each of its pages, of the stack and of the arguments has a frame that no other page has,
  the stack and the arguments can be written, the program finds the number of its arguments, their table and
  each argument as a string, no other page outside the kernel's tables and no other byte is changed, the memory
  manager keeps its invariant, and the program is started at its entry point with the top of its stack.
\<close>

theorem program_is_loaded:
  assumes inv: "mm_inv idt ds (ks_mm s)"
    and header: "read_elf_header d = Inr h" "header_valid h"
    and segments: "map (read_program_header d) (program_header_offsets h) = map Inr phs"
      "segs_ok d phs" "segs_disjoint phs" "stack_page \<notin> seg_union phs" "args_page \<notin> seg_union phs"
    and own: "\<forall>p\<in>seg_union phs. own_page p"
    and free: "\<forall>a. page_of a \<in> seg_union phs \<union> {stack_page, args_page} \<longrightarrow> mapping (ks_mm s) (cr3 (ks_mm s)) a = None"
    and frames: "2 * (seg_count phs + 2) \<le> card {f. frame_free (ks_mm s) f}"
    and argv: "args_fit argv"
  shows "\<exists>s'. load_and_jump_userspace kernel_memory d argv s = Inr ((entry h, USERSPACE_STACK - 16), s')
    \<and> mm_inv idt ds (ks_mm s') \<and> cr3 (ks_mm s') = cr3 (ks_mm s)
    \<and> (\<forall>ph\<in>set phs. ph_type ph = 1 \<longrightarrow>
          reads (ks_bytes s') (ph_virtual_address ph) (length (seg_image d ph)) = seg_image d ph
        \<and> (\<forall>a. page_of a \<in> seg_range ph \<longrightarrow>
              (\<exists>f. mapping (ks_mm s') (cr3 (ks_mm s')) a = Some (f, bit (ph_flags ph) 2, True))))
    \<and> (\<forall>a. page_of a \<in> {stack_page, args_page} \<longrightarrow> (\<exists>f. mapping (ks_mm s') (cr3 (ks_mm s')) a = Some (f, True, True)))
    \<and> (\<forall>a b f x y. page_of a \<in> seg_union phs \<union> {stack_page, args_page} \<longrightarrow> own_page (page_of b) \<longrightarrow>
          mapping (ks_mm s') (cr3 (ks_mm s')) a = Some (f, x) \<longrightarrow> mapping (ks_mm s') (cr3 (ks_mm s')) b = Some (f, y) \<longrightarrow>
          page_of a = page_of b)
    \<and> reads (ks_bytes s') 0xB0001008 4 = le32 (word_of_nat (length argv))
    \<and> reads (ks_bytes s') 0xB0001004 4 = le32 (if argv = [] then 0 else 0xB0001010)
    \<and> (\<forall>i<length argv. \<exists>p. reads (ks_bytes s') (0xB0001010 + word_of_nat (4 * i)) 4 = le32 p
          \<and> reads (ks_bytes s') p (length (argv ! i) + 1) = argv ! i @ [0])
    \<and> (\<forall>a. own_page (page_of a) \<longrightarrow> page_of a \<notin> seg_union phs \<union> {stack_page, args_page} \<longrightarrow>
          mapping (ks_mm s') (cr3 (ks_mm s')) a = mapping (ks_mm s) (cr3 (ks_mm s)) a)
    \<and> (\<forall>a. page_of a \<notin> seg_union phs \<union> {args_page} \<longrightarrow> ks_bytes s' a = ks_bytes s a)"
proof -
  let ?m = "start_view s (seg_count phs + 2)" and ?all = "seg_union phs \<union> {stack_page, args_page}"
  let ?m' = "program_placed d phs argv ?m"
  have view: "page_view_of idt ds (ks_mm s) ?m s" using inv frames by (rule start_view_of)
  have own': "own_page p" if "p \<in> ?all" for p using that own own_pages by auto
  have vfree: "vm_pages ?m p = None" if "p \<in> ?all" for p
    using that free seg_union_bound [OF segments(2)] by (intro start_view_free) auto
  have "load_and_jump_userspace vm_memory d argv ?m = Inr ((entry h, USERSPACE_STACK - 16), ?m')"
    using own' vfree by (intro load_program_placed [OF header segments _ _ argv]) auto
  then obtain s' where run: "load_and_jump_userspace kernel_memory d argv s = Inr ((entry h, USERSPACE_STACK - 16), s')"
      and view': "page_view_of idt ds (ks_mm s) ?m' s'"
    using kernel.load_program_follows [OF view, of d argv] by auto
  have s': "mm_inv idt ds (ks_mm s')" "cr3 (ks_mm s') = cr3 (ks_mm s)" "ks_bytes s' = vm_bytes ?m'"
    using view' by (simp_all add: page_view_of_def)
  note pages = page_view_mapping [OF view', folded s'(2)]
  note seg = program_placed_segment [OF segments(2,3,5,4) argv]
  note args = args_placed_reads [OF argv, where f = "vm_bytes (all_placed d phs ?m)"]
  have 1: "\<exists>f. mapping (ks_mm s') (cr3 (ks_mm s')) a = Some (f, bit (ph_flags ph) 2, True)"
    if "ph \<in> set phs" "ph_type ph = 1" "page_of a \<in> seg_range ph" for ph a
  proof -
    have "page_of a \<in> seg_union phs" using that by (auto simp: seg_union_def)
    then have "vm_pages ?m' (page_of a) = map_option snd (mapping (ks_mm s') (cr3 (ks_mm s')) a)" using own by (intro pages) blast
    then show ?thesis unfolding seg(2) [OF that] by (rule mapped_frame [OF sym])
  qed
  have 2: "\<exists>f. mapping (ks_mm s') (cr3 (ks_mm s')) a = Some (f, True, True)" if "page_of a \<in> {stack_page, args_page}" for a
  proof (rule mapped_frame)
    have "vm_pages ?m' (page_of a) = map_option snd (mapping (ks_mm s') (cr3 (ks_mm s')) a)" using that by (intro pages own') blast
    moreover have "vm_pages ?m' (page_of a) = Some (True, True)" using that by auto
    ultimately show "map_option snd (mapping (ks_mm s') (cr3 (ks_mm s')) a) = Some (True, True)" by (simp only:)
  qed
  have 3: "page_of a = page_of b" if "page_of a \<in> ?all" "own_page (page_of b)"
      "mapping (ks_mm s') (cr3 (ks_mm s')) a = Some (f, x)" "mapping (ks_mm s') (cr3 (ks_mm s')) b = Some (f, y)" for a b f x y
    using page_view_frames [OF view' own' [OF that(1)] that(2)] free that unfolding s'(2) by blast
  have 4: "mapping (ks_mm s') (cr3 (ks_mm s')) a = mapping (ks_mm s) (cr3 (ks_mm s)) a"
    if "own_page (page_of a)" "page_of a \<notin> ?all" for a
    using pages [OF that(1)] that start_view_pages [of s _ a] view' unfolding page_view_of_def s'(2)
    by (cases "mapping (ks_mm s) (cr3 (ks_mm s)) a") (auto simp: all_placed_pages_outside)
  have 5: "ks_bytes s' a = ks_bytes s a" if "page_of a \<notin> seg_union phs \<union> {args_page}" for a
  proof -
    have "page_of a \<noteq> args_page" "page_of a \<notin> seg_union phs" using that by auto
    from args(4) [OF this(1)] all_placed_outside [OF segments(2) this(2)] show ?thesis by (simp only: s'(3) program_placed_simps start_view_simps)
  qed
  have bs: "ks_bytes s' = args_placed argv (vm_bytes (all_placed d phs ?m))" by (simp only: s'(3) program_placed_simps)
  note bytes = seg(1) [of _ ?m, folded s'(3)] args(1-3) [folded bs]
  show ?thesis
    by (rule exI [of _ s'], intro conjI allI ballI impI, rule run, rule s', rule s')
      (assumption | rule bytes 1 2 | erule (2) 3 | erule (1) 4 | erule 5)+
qed

theorem program_is_loaded_witness:
  "\<exists>m s'. MemoryManager_init (MemoryManager_new boot_machine) boot_memory = Inr m
    \<and> load_and_jump_userspace kernel_memory example_program [[108, 115], [47]] \<lparr>ks_mm = m, ks_bytes = \<lambda>_. 0\<rparr>
        = Inr ((0x08048054, 0xAFFFFFF0), s')
    \<and> reads (ks_bytes s') 0xB0001008 4 = [2, 0, 0, 0]"
proof -
  obtain m where m: "MemoryManager_init (MemoryManager_new boot_machine) boot_memory = Inr m"
    "mm_inv 0x102000 {0x101000} m" "cr3 m = 0x101000"
    "\<And>b. own_index (PageDirectory_get_index b) \<Longrightarrow> mapping m 0x101000 b = None"
    "frame_free m 0x500000" "frame_free m 0x501000" "20 \<le> card {f. frame_free m f}" "next_page_directory_allocation m = 0x300000"
    by (rule boot_started) (rule that)
  define h where "h = \<lparr>magic = 0x464c457f, bitclass = 1, endianess = 1, elf_version = 1, elf_type = 2, entry = 0x08048054,
    program_header_offset = 52, header_size = 52, program_header_table_entry_size = 32, num_program_headers = 1\<rparr>"
  define ph where "ph = \<lparr>ph_type = 1, ph_offset = 84, ph_virtual_address = 0x08048054, ph_size_in_file = 2,
    ph_size_in_memory = 16, ph_flags = 5, ph_alignment = 4096\<rparr>"
  let ?s = "\<lparr>ks_mm = m, ks_bytes = \<lambda>_. 0\<rparr> :: kernel_space"
  have 0: "mm_inv 0x102000 {0x101000} (ks_mm ?s)" using m(2) by simp
  have 1: "read_elf_header example_program = Inr h" by (simp add: h_def) code_simp
  have 2: "header_valid h" by (simp add: h_def header_valid_def)
  have 3: "map (read_program_header example_program) (program_header_offsets h) = map Inr [ph]"
    by (simp add: h_def ph_def) code_simp
  have 4: "segs_ok example_program [ph]"
    by (simp add: segs_ok_def seg_ok_def seg_pages_def ph_def example_program_def)
  have r: "seg_union [ph] = {0x08048}" by (auto simp: seg_range_def ph_def seg_pages_def)
  have 5: "segs_disjoint [ph]" "stack_page \<notin> seg_union [ph]" "args_page \<notin> seg_union [ph]" by (simp_all add: r del: seg_union_simps)
  have 6: "\<forall>p\<in>seg_union [ph]. own_page p" by (simp add: r own_page_def del: seg_union_simps)
  have "own_page p" if "p \<in> seg_union [ph] \<union> {stack_page, args_page}" for p using that 6 own_pages by auto
  then have 7: "\<forall>a. page_of a \<in> seg_union [ph] \<union> {stack_page, args_page} \<longrightarrow> mapping (ks_mm ?s) (cr3 (ks_mm ?s)) a = None"
    using m(3,4) own_page_index by simp
  have 8: "2 * (seg_count [ph] + 2) \<le> card {f. frame_free (ks_mm ?s) f}" using m(7) by (simp add: ph_def seg_pages_def)
  have 9: "args_fit [[108, 115], [47]]" by (simp add: args_fit_def)
  show ?thesis
    using program_is_loaded [OF 0 1 2 3 4 5 6 7 8 9] m(1) by (auto simp: h_def le32_def)
qed

text \<open>
  C22: the loader allocates as many pages as the size of a segment needs from a page boundary on, so a segment that
  starts inside a page and whose contents reach past the last of those pages, which the format allows, makes the
  kernel write to a page that is not mapped. The page after the segment's last is outside the kernel's own tables
  and not mapped, like those of the segment, and there are enough frames.
\<close>

theorem crossing_segment_faults:
  assumes "ph_type ph = 1" "ph_alignment ph = 4096" "unat (ph_size_in_memory ph) \<le> 0xFFFFF000"
    and "page_of (ph_virtual_address ph) + seg_pages ph < 1048576"
    and "unat (ph_offset ph) + unat (ph_size_in_file ph) \<le> length d"
    and "0 < ph_size_in_memory ph"
    and "seg_pages ph * 4096 < unat (ph_virtual_address ph) mod 4096 + unat (ph_size_in_file ph)"
    and inv: "mm_inv idt ds (ks_mm s)" and frames: "2 * seg_pages ph \<le> card {f. frame_free (ks_mm s) f}"
    and own: "\<forall>p\<in>insert (page_of (ph_virtual_address ph) + seg_pages ph) (seg_range ph). own_page p"
    and free: "\<forall>a. page_of a \<in> insert (page_of (ph_virtual_address ph) + seg_pages ph) (seg_range ph)
        \<longrightarrow> mapping (ks_mm s) (cr3 (ks_mm s)) a = None"
  shows "load_segment kernel_memory d ph s = Inl BadAccess"
proof -
  let ?m = "start_view s (seg_pages ph)" and ?all = "insert (page_of (ph_virtual_address ph) + seg_pages ph) (seg_range ph)"
  have "vm_pages ?m p = None" if "p \<in> ?all" for p
    using that free assms(4) by (intro start_view_free) (auto simp: seg_range_def)
  then have "load_segment vm_memory d ph ?m = Inl BadAccess"
    using own by (intro crossing_segment_abstract [OF assms(1-7)]) auto
  then show ?thesis using kernel.load_segment_follows [OF start_view_of [OF inv frames], of d ph] by simp
qed

theorem crossing_segment_faults_witness:
  "\<exists>m. MemoryManager_init (MemoryManager_new boot_machine) boot_memory = Inr m
    \<and> load_segment kernel_memory (replicate 512 1) \<lparr>ph_type = 1, ph_offset = 0, ph_virtual_address = 0x08048F00,
        ph_size_in_file = 512, ph_size_in_memory = 512, ph_flags = 5, ph_alignment = 4096\<rparr> \<lparr>ks_mm = m, ks_bytes = \<lambda>_. 0\<rparr>
      = Inl BadAccess"
proof -
  obtain m where m: "MemoryManager_init (MemoryManager_new boot_machine) boot_memory = Inr m"
    "mm_inv 0x102000 {0x101000} m" "cr3 m = 0x101000"
    "\<And>b. own_index (PageDirectory_get_index b) \<Longrightarrow> mapping m 0x101000 b = None"
    "frame_free m 0x500000" "frame_free m 0x501000" "20 \<le> card {f. frame_free m f}" "next_page_directory_allocation m = 0x300000"
    by (rule boot_started) (rule that)
  define ph where "ph = \<lparr>ph_type = 1, ph_offset = 0, ph_virtual_address = 0x08048F00,
    ph_size_in_file = 512, ph_size_in_memory = 512, ph_flags = 5, ph_alignment = 4096\<rparr>"
  have r: "insert (page_of (ph_virtual_address ph) + seg_pages ph) (seg_range ph) = {0x8048, 0x8049}"
    by (auto simp: seg_range_def ph_def seg_pages_def)
  have own: "own_page 0x8048" "own_page 0x8049" by (simp_all add: own_page_def)
  have none: "mapping m 0x101000 a = None" if "page_of a = 0x8048 \<or> page_of a = 0x8049" for a
    using that own m(4) own_page_index by metis
  have "load_segment kernel_memory (replicate 512 1) ph \<lparr>ks_mm = m, ks_bytes = \<lambda>_. 0\<rparr> = Inl BadAccess"
    by (rule crossing_segment_faults [of _ _ "0x102000" "{0x101000}"], unfold r)
      (use m own none in \<open>simp_all add: ph_def seg_pages_def\<close>)
  then show ?thesis using m(1) unfolding ph_def by auto
qed

end
