(* ===== verification/Fork_Exec.thy ===== *)
theory Fork_Exec
  imports Processes Loader
begin

text \<open>
  Starting a program: \<^verbatim>\<open>syscall_ForkAndExec\<close> and \<^verbatim>\<open>auxiliary_loader\<close> of \<^verbatim>\<open>kernel/process.cpp\<close>. The
  path and the arguments go from the parent to the child through one global structure; the child is
  a task of its own and other tasks run between its steps.
\<close>

section \<open>State\<close>

abbreviation MAX_PATH_LEN :: nat where "MAX_PATH_LEN \<equiv> 256"

text \<open>\<^verbatim>\<open>userspace_loader_data\<close>, the flag that guards it, the next pid and the scheduler.\<close>

record fork_state =
  glob_load_path :: string
  glob_argv :: "u8 list list"
  glob_userspace_loader_locked :: bool
  g_next_pid :: u32
  fork_sched :: sched

section \<open>Operations\<close>

definition copy_into_loader_data :: "string \<Rightarrow> u8 list list \<Rightarrow> fork_state \<Rightarrow> fork_state result" where
  "copy_into_loader_data path argv s =
     rbind (strncpy (glob_load_path s) path MAX_PATH_LEN) (\<lambda>p. Inr (s\<lparr>glob_load_path := p, glob_argv := argv\<rparr>))"

definition Process_create :: "string \<Rightarrow> str \<Rightarrow> nat option list option \<Rightarrow> fork_state \<Rightarrow> (nat \<times> proc \<times> fork_state) result" where
  "Process_create name cwd descriptors s =
     rbind (Process_new name cwd descriptors) (\<lambda>x.
       Inr (unat (g_next_pid s), x, s\<lparr>g_next_pid := g_next_pid s + 1\<rparr>))"

definition syscall_ForkAndExec :: "string \<Rightarrow> string \<Rightarrow> u8 list list \<Rightarrow> fork_state \<Rightarrow> (nat \<times> fork_state) result" where
  "syscall_ForkAndExec path name argv s =
     (case m_current_process (fork_sched s) of
        None \<Rightarrow> Inl BadAccess
      | Some c \<Rightarrow>
          rbind (get_proc (fork_sched s) c) (\<lambda>parent.
          rbind (assert_that (\<not> glob_userspace_loader_locked s)) (\<lambda>_.
          rbind (copy_into_loader_data path argv (s\<lparr>glob_userspace_loader_locked := True\<rparr>)) (\<lambda>s1.
          rbind (Process_create name (p_cwd parent) (Some (p_fds parent)) s1) (\<lambda>(pid, child, s2).
          rbind (add_process pid child (fork_sched s2)) (\<lambda>sc.
            Inr (pid, s2\<lparr>fork_sched := sc\<rparr>)))))))"

text \<open>
  \<^verbatim>\<open>auxiliary_loader\<close> in the pieces between which other tasks may run: it clears the flag, then the file at
  the path is opened and read, and only then are the arguments taken from the structure.
\<close>

definition auxiliary_loader_unlock :: "fork_state \<Rightarrow> fork_state" where
  "auxiliary_loader_unlock s = s\<lparr>glob_userspace_loader_locked := False\<rparr>"

definition auxiliary_loader_path :: "fork_state \<Rightarrow> string result" where
  "auxiliary_loader_path s = rbind (strlen (glob_load_path s)) (\<lambda>n. Inr (take n (glob_load_path s)))"

definition auxiliary_loader_argv :: "fork_state \<Rightarrow> u8 list list" where
  "auxiliary_loader_argv s = glob_argv s"

text \<open>What a child has done so far; \<open>Loaded\<close> has the program and the arguments it was started with.\<close>

datatype child_stage = Created | Unlocked | Opened string | Loaded string "u8 list list"

record child =
  asked_path :: string
  asked_argv :: "u8 list list"
  stage :: child_stage

inductive fork_step :: "fork_state \<times> (nat \<rightharpoonup> child) \<Rightarrow> fork_state \<times> (nat \<rightharpoonup> child) \<Rightarrow> bool" where
  step_fork: "NUL \<notin> set path \<Longrightarrow> length path < MAX_PATH_LEN
    \<Longrightarrow> syscall_ForkAndExec (path @ [NUL]) name argv s = Inr (pid, s')
    \<Longrightarrow> fork_step (s, k) (s', k(pid \<mapsto> \<lparr>asked_path = path, asked_argv = argv, stage = Created\<rparr>))"
| step_unlock: "k pid = Some c \<Longrightarrow> stage c = Created
    \<Longrightarrow> fork_step (s, k) (auxiliary_loader_unlock s, k(pid \<mapsto> c\<lparr>stage := Unlocked\<rparr>))"
| step_open: "k pid = Some c \<Longrightarrow> stage c = Unlocked \<Longrightarrow> auxiliary_loader_path s = Inr p
    \<Longrightarrow> fork_step (s, k) (s, k(pid \<mapsto> c\<lparr>stage := Opened p\<rparr>))"
| step_load: "k pid = Some c \<Longrightarrow> stage c = Opened p
    \<Longrightarrow> fork_step (s, k) (s, k(pid \<mapsto> c\<lparr>stage := Loaded p (auxiliary_loader_argv s)\<rparr>))"
| step_schedule: "sched_step (fork_sched s) sc \<Longrightarrow> fork_step (s, k) (s\<lparr>fork_sched := sc\<rparr>, k)"

inductive_cases fork_stepE: "fork_step (s, k) r"

section \<open>The path in the structure\<close>

lemma memset_all: "n = length p \<Longrightarrow> memset p c n = Inr (replicate n c)"
  by (induction p c n rule: memset.induct) auto

lemma strncpy_padded:
  assumes "NUL \<notin> set cs" "length cs < length dest"
  shows "strncpy dest (cs @ [NUL]) (length dest) = Inr (cs @ replicate (length dest - length cs) NUL)"
  using assms
proof (induction cs arbitrary: dest)
  case Nil
  then show ?case by (cases dest) (simp_all add: memset_all del: memset.simps)
next
  case (Cons c cs)
  then obtain d ds where "dest = d # ds" by (cases dest) simp_all
  then show ?case using Cons by auto
qed

lemma strlen_padded: "NUL \<notin> set cs \<Longrightarrow> 0 < n \<Longrightarrow> strlen (cs @ replicate n NUL) = Inr (length cs)"
  by (induction cs) (auto simp: gr0_conv_Suc)

definition loader_holds :: "string \<Rightarrow> u8 list list \<Rightarrow> fork_state \<Rightarrow> bool" where
  "loader_holds path argv s \<longleftrightarrow> auxiliary_loader_path s = Inr path \<and> auxiliary_loader_argv s = argv"

lemma copy_into_loader_data_ok:
  assumes "NUL \<notin> set path" "length path < MAX_PATH_LEN" "length (glob_load_path s) = MAX_PATH_LEN"
  shows "copy_into_loader_data (path @ [NUL]) argv s
    = Inr (s\<lparr>glob_load_path := path @ replicate (MAX_PATH_LEN - length path) NUL, glob_argv := argv\<rparr>)"
  using strncpy_padded [OF assms(1), of "glob_load_path s"] assms(2,3) by (simp add: copy_into_loader_data_def)

lemma loader_holds_padded:
  assumes "NUL \<notin> set path" "length path < MAX_PATH_LEN" "glob_load_path s = path @ replicate (MAX_PATH_LEN - length path) NUL"
  shows "loader_holds path (glob_argv s) s"
  using assms by (simp add: loader_holds_def auxiliary_loader_path_def auxiliary_loader_argv_def strlen_padded)

lemma fork_effect:
  assumes "NUL \<notin> set path" "length path < MAX_PATH_LEN" "length (glob_load_path s) = MAX_PATH_LEN"
    and "syscall_ForkAndExec (path @ [NUL]) name argv s = Inr (pid, s')"
  shows "\<not> glob_userspace_loader_locked s" "glob_userspace_loader_locked s'" "loader_holds path argv s'"
    "pid = unat (g_next_pid s)" "g_next_pid s' = g_next_pid s + 1" "length (glob_load_path s') = MAX_PATH_LEN"
proof -
  let ?p = "path @ replicate (MAX_PATH_LEN - length path) NUL"
  note copy = copy_into_loader_data_ok [OF assms(1,2), of "s\<lparr>glob_userspace_loader_locked := True\<rparr>" argv]
  obtain sc where s': "s' = s\<lparr>glob_userspace_loader_locked := True, glob_load_path := ?p, glob_argv := argv,
      g_next_pid := g_next_pid s + 1, fork_sched := sc\<rparr>"
    and l: "\<not> glob_userspace_loader_locked s" and pid: "pid = unat (g_next_pid s)"
    using assms(4) copy assms(3) by (auto simp: syscall_ForkAndExec_def Process_create_def split: option.splits)
  show "\<not> glob_userspace_loader_locked s" by (rule l)
  show "loader_holds path argv s'" using loader_holds_padded [OF assms(1,2), of s'] by (simp add: s')
  show "glob_userspace_loader_locked s'" "pid = unat (g_next_pid s)" "g_next_pid s' = g_next_pid s + 1"
    "length (glob_load_path s') = MAX_PATH_LEN" using pid assms(2) by (simp_all add: s')
qed

section \<open>Starting a program\<close>

lemma fork_ok:
  assumes ok: "sched_ok (fork_sched s)" "\<not> glob_userspace_loader_locked s" "length (glob_load_path s) = MAX_PATH_LEN"
    and parent: "m_current_process (fork_sched s) = Some c" "procs (fork_sched s) c = Some x" "length (p_fds x) = NUM_FILE_DESCRIPTORS"
    and path: "NUL \<notin> set path" "length path < MAX_PATH_LEN"
    and room: "procs (fork_sched s) (unat (g_next_pid s)) = None" "card (dom (procs (fork_sched s))) < 10000"
  shows "\<exists>s' y. syscall_ForkAndExec (path @ [NUL]) name argv s = Inr (unat (g_next_pid s), s')
    \<and> sched_ok (fork_sched s')
    \<and> m_runanble_list (fork_sched s') = m_runanble_list (fork_sched s) @ [unat (g_next_pid s)]
    \<and> m_current_process (fork_sched s') = Some c
    \<and> procs (fork_sched s') = (procs (fork_sched s))(unat (g_next_pid s) \<mapsto> y)
    \<and> p_state y = Runnable \<and> p_name y = name \<and> p_cwd y = p_cwd x \<and> p_fds y = p_fds x"
proof -
  let ?y = "\<lparr>p_state = Runnable, p_blocker = None, p_name = name, p_cwd = p_cwd x, p_fds = p_fds x, p_waiter = None,
    p_messages = [], p_ready = (0, PendingMessage), p_next_shm = SHARED_MEMORY_START\<rparr> :: proc"
  obtain sc where sc: "add_process (unat (g_next_pid s)) ?y (fork_sched s) = Inr sc" "sched_ok sc"
    "m_runanble_list sc = m_runanble_list (fork_sched s) @ [unat (g_next_pid s)]"
    using add_process_ok [OF ok(1) room(1) _ room(2), of ?y] by auto
  have ps: "procs sc = (procs (fork_sched s))(unat (g_next_pid s) \<mapsto> ?y)" "m_current_process sc = m_current_process (fork_sched s)"
    using sc(1) by (auto simp: add_process_def)
  have copy: "copy_into_loader_data (path @ [NUL]) argv (s\<lparr>glob_userspace_loader_locked := True\<rparr>)
      = Inr (s\<lparr>glob_userspace_loader_locked := True,
          glob_load_path := path @ replicate (MAX_PATH_LEN - length path) NUL, glob_argv := argv\<rparr>)"
    using copy_into_loader_data_ok [OF path, of "s\<lparr>glob_userspace_loader_locked := True\<rparr>"] ok(3) by simp
  have "Process_new name (p_cwd x) (Some (p_fds x)) = Inr ?y" using parent(3) by (simp add: Process_new_def)
  then have "\<exists>s'. syscall_ForkAndExec (path @ [NUL]) name argv s = Inr (unat (g_next_pid s), s') \<and> fork_sched s' = sc"
    using parent ok(2) copy sc(1) by (auto simp: syscall_ForkAndExec_def Process_create_def get_proc_def)
  then obtain s' where s': "syscall_ForkAndExec (path @ [NUL]) name argv s = Inr (unat (g_next_pid s), s')" "fork_sched s' = sc"
    by blast
  show ?thesis using s' sc(2,3) ps parent(1) by (intro exI [of _ s'] exI [of _ ?y]) simp
qed

text \<open>What holds between the flag, the structure and the children that did not run yet.\<close>

definition fork_inv :: "fork_state \<times> (nat \<rightharpoonup> child) \<Rightarrow> bool" where
  "fork_inv r \<longleftrightarrow> length (glob_load_path (fst r)) = MAX_PATH_LEN
     \<and> (\<forall>pid c. snd r pid = Some c \<longrightarrow> stage c = Created \<longrightarrow>
          glob_userspace_loader_locked (fst r) \<and> loader_holds (asked_path c) (asked_argv c) (fst r)
          \<and> (\<forall>q d. snd r q = Some d \<longrightarrow> stage d = Created \<longrightarrow> q = pid))"

lemma fork_step_inv: "fork_step r r' \<Longrightarrow> fork_inv r \<Longrightarrow> fork_inv r'"
proof (induction rule: fork_step.induct)
  case (step_fork path name argv s pid s' k)
  note e = fork_effect [OF step_fork(1,2) _ step_fork(3)]
  then show ?case using step_fork(4) by (auto simp: fork_inv_def)
next
  case (step_unlock k pid c s)
  then show ?case by (fastforce simp: fork_inv_def auxiliary_loader_unlock_def)
qed (fastforce simp: fork_inv_def loader_holds_def auxiliary_loader_path_def auxiliary_loader_argv_def)+

lemma fork_reachable_inv:
  assumes "fork_step\<^sup>*\<^sup>* (s0, Map.empty) r" "length (glob_load_path s0) = MAX_PATH_LEN"
  shows "fork_inv r"
  using assms(1)
proof (induction rule: rtranclp_induct)
  case base
  then show ?case using assms(2) by (simp add: fork_inv_def)
qed (rule fork_step_inv)

section \<open>Properties\<close>


definition fork_machine :: fork_state where
  "fork_machine = \<lparr>glob_load_path = replicate MAX_PATH_LEN NUL, glob_argv = [], glob_userspace_loader_locked = False,
     g_next_pid = 10, fork_sched = upd_proc 2 (p_fds_update (\<lambda>_. replicate NUM_FILE_DESCRIPTORS None)) small_machine\<rparr>"

lemma fork_machine_ok:
  "sched_ok (fork_sched fork_machine)" "\<not> glob_userspace_loader_locked fork_machine" "length (glob_load_path fork_machine) = MAX_PATH_LEN"
  "m_current_process (fork_sched fork_machine) = Some 2" "g_next_pid fork_machine = 10"
  "dom (procs (fork_sched fork_machine)) = {1, 2, 3}"
  "procs (fork_sched fork_machine) 2 = Some ((fresh_proc Running ''a'')\<lparr>p_fds := replicate NUM_FILE_DESCRIPTORS None\<rparr>)"
proof -
  let ?s = "fork_sched fork_machine"
  have ps: "procs ?s = [1 \<mapsto> fresh_proc Runnable ''idle'',
      2 \<mapsto> (fresh_proc Running ''a'')\<lparr>p_fds := replicate NUM_FILE_DESCRIPTORS None\<rparr>, 3 \<mapsto> fresh_proc Runnable ''b'']"
    by (simp add: fork_machine_def upd_proc_def small_machine_def fun_upd_twist)
  have f: "m_runanble_list ?s = [3]" "m_blocked_list ?s = []" "m_idle_process ?s = Some 1" "m_current_process ?s = Some 2"
    "current_TCB ?s = Some 2" "m_tick_since_switch ?s = 5"
    by (simp_all add: fork_machine_def upd_proc_def small_machine_def split: option.split)
  show "m_current_process ?s = Some 2" by (rule f)
  show "\<not> glob_userspace_loader_locked fork_machine" "length (glob_load_path fork_machine) = MAX_PATH_LEN" "g_next_pid fork_machine = 10"
    by (simp_all add: fork_machine_def)
  show "dom (procs ?s) = {1, 2, 3}" "procs ?s 2 = Some ((fresh_proc Running ''a'')\<lparr>p_fds := replicate NUM_FILE_DESCRIPTORS None\<rparr>)"
    unfolding ps by auto
  have "waiter_of ?s q = None" for q by (simp add: waiter_of_def ps fresh_proc_def)
  then have "waiters_ok ?s" by (simp add: waiters_ok_def)
  then show "sched_ok ?s"
    by (simp add: sched_ok_def base_ok_def places_ok_def idle_ok_def current_ok_def f) (simp add: ps st_def fresh_proc_def)
qed


text \<open>
  C20: a child is safe until its first step and no longer. As long as a child has not run, the structure holds its
  path and its arguments and no other program can be started; but the child clears the flag before it reads the
  structure, so when a second program is started between this and the opening of the file, the child loads the
  second program with the second program's arguments.
\<close>

theorem child_safe_until_unlock:
  assumes run: "fork_step\<^sup>*\<^sup>* (s0, Map.empty) (s, k)" "length (glob_load_path s0) = MAX_PATH_LEN"
    and child: "k pid = Some c"
  shows "(stage c = Created \<longrightarrow> loader_holds (asked_path c) (asked_argv c) s
        \<and> (\<forall>path name argv r. syscall_ForkAndExec path name argv s \<noteq> Inr r))
    \<and> (\<forall>path name argv q s'. stage c = Unlocked \<and> NUL \<notin> set path \<and> length path < MAX_PATH_LEN \<and> q \<noteq> pid
        \<and> syscall_ForkAndExec (path @ [NUL]) name argv s = Inr (q, s')
        \<longrightarrow> (\<exists>k'. fork_step\<^sup>*\<^sup>* (s, k) (s', k') \<and> k' pid = Some (c\<lparr>stage := Loaded path argv\<rparr>)))"
proof (intro conjI impI allI)
  have inv: "fork_inv (s, k)" using fork_reachable_inv [OF run] .
  assume created: "stage c = Created"
  then show "loader_holds (asked_path c) (asked_argv c) s" using inv child by (auto simp: fork_inv_def)
  have "glob_userspace_loader_locked s" using inv child created by (auto simp: fork_inv_def)
  then show "syscall_ForkAndExec path name argv s \<noteq> Inr r" for path name argv r
    by (auto simp: syscall_ForkAndExec_def split: option.splits)
next
  fix path name argv q s'
  assume a: "stage c = Unlocked \<and> NUL \<notin> set path \<and> length path < MAX_PATH_LEN \<and> q \<noteq> pid
    \<and> syscall_ForkAndExec (path @ [NUL]) name argv s = Inr (q, s')"
  have "length (glob_load_path s) = MAX_PATH_LEN" using fork_reachable_inv [OF run] by (simp add: fork_inv_def)
  then have h: "auxiliary_loader_path s' = Inr path" "auxiliary_loader_argv s' = argv"
    using fork_effect(3) [of path s name argv q s'] a by (auto simp: loader_holds_def)
  let ?k1 = "k(q \<mapsto> \<lparr>asked_path = path, asked_argv = argv, stage = Created\<rparr>)"
  let ?k2 = "?k1(pid \<mapsto> c\<lparr>stage := Opened path\<rparr>)"
  have 1: "fork_step (s, k) (s', ?k1)" using a by (intro step_fork) auto
  have 2: "fork_step (s', ?k1) (s', ?k2)" using a child h by (intro step_open) auto
  have "fork_step (s', ?k2) (s', ?k2(pid \<mapsto> c\<lparr>stage := Opened path, stage := Loaded path (auxiliary_loader_argv s')\<rparr>))"
    by (rule step_load) auto
  then have 3: "fork_step (s', ?k2) (s', ?k2(pid \<mapsto> c\<lparr>stage := Loaded path argv\<rparr>))" by (simp add: h)
  have "fork_step\<^sup>*\<^sup>* (s, k) (s', ?k2(pid \<mapsto> c\<lparr>stage := Loaded path argv\<rparr>))"
    using 1 2 3 by (meson converse_rtranclp_into_rtranclp rtranclp.rtrancl_refl)
  then show "\<exists>k'. fork_step\<^sup>*\<^sup>* (s, k) (s', k') \<and> k' pid = Some (c\<lparr>stage := Loaded path argv\<rparr>)"
    by (intro exI [of _ "?k2(pid \<mapsto> c\<lparr>stage := Loaded path argv\<rparr>)"]) simp
qed

theorem child_safe_until_unlock_witness:
  "\<exists>s k. fork_step\<^sup>*\<^sup>* (fork_machine, Map.empty) (s, k)
    \<and> k 10 = Some \<lparr>asked_path = ''/bin/ls'', asked_argv = [], stage = Loaded ''/bin/vi'' [[97]]\<rparr>"
proof -
  note m = fork_machine_ok
  have room: "procs (fork_sched fork_machine) (unat (g_next_pid fork_machine)) = None" "card (dom (procs (fork_sched fork_machine))) < 10000"
    using m(5,6) domIff [of 10 "procs (fork_sched fork_machine)"] by simp_all
  obtain s1 y where s1: "syscall_ForkAndExec (''/bin/ls'' @ [NUL]) ''ls'' [] fork_machine = Inr (10, s1)" "sched_ok (fork_sched s1)"
    "m_current_process (fork_sched s1) = Some 2" "procs (fork_sched s1) = (procs (fork_sched fork_machine))(10 \<mapsto> y)"
    using fork_ok [OF m(1-4) m(7) _ _ _ room, of "''/bin/ls''" "''ls''" "[]"] m(5) by auto
  note e = fork_effect [OF _ _ m(3) s1(1)]
  let ?c = "\<lparr>asked_path = ''/bin/ls'', asked_argv = [], stage = Created\<rparr> :: child"
  let ?s2 = "auxiliary_loader_unlock s1" and ?k2 = "[10 \<mapsto> ?c, 10 \<mapsto> ?c\<lparr>stage := Unlocked\<rparr>]"
  have "fork_step (fork_machine, Map.empty) (s1, [10 \<mapsto> ?c])" using s1(1) by (intro step_fork) auto
  moreover have "fork_step (s1, [10 \<mapsto> ?c]) (?s2, ?k2)" by (rule step_unlock) auto
  ultimately have r: "fork_step\<^sup>*\<^sup>* (fork_machine, Map.empty) (?s2, ?k2)" by auto
  have s2: "fork_sched ?s2 = fork_sched s1" "\<not> glob_userspace_loader_locked ?s2" "glob_load_path ?s2 = glob_load_path s1"
    "g_next_pid ?s2 = 11"
    using e(5) m(5) by (simp_all add: auxiliary_loader_unlock_def)
  have "procs (fork_sched fork_machine) 11 = None" using m(6) domIff [of 11 "procs (fork_sched fork_machine)"] by simp
  then have h: "sched_ok (fork_sched ?s2)" "length (glob_load_path ?s2) = MAX_PATH_LEN"
      "m_current_process (fork_sched ?s2) = Some 2"
      "procs (fork_sched ?s2) 2 = Some ((fresh_proc Running ''a'')\<lparr>p_fds := replicate NUM_FILE_DESCRIPTORS None\<rparr>)"
      "procs (fork_sched ?s2) (unat (g_next_pid ?s2)) = None"
    using s1(2-4) s2 m(7) e(6) by simp_all
  have "card (dom (procs (fork_sched ?s2))) < 10000" unfolding s2(1) s1(4) by (simp add: m(6))
  from fork_ok [OF h(1) s2(2) h(2-4) _ _ _ h(5) this, of "''/bin/vi''" "''vi''" "[[97]]"]
  have "\<exists>s'. syscall_ForkAndExec (''/bin/vi'' @ [NUL]) ''vi'' [[97]] ?s2 = Inr (11, s')"
    unfolding s2(4) by auto
  then obtain s3 where s3: "syscall_ForkAndExec (''/bin/vi'' @ [NUL]) ''vi'' [[97]] ?s2 = Inr (11, s3)" by blast
  have k: "?k2 10 = Some (?c\<lparr>stage := Unlocked\<rparr>)" by simp
  from conjunct2 [OF child_safe_until_unlock [OF r m(3) k], rule_format, of "''/bin/vi''" 11 "''vi''" "[[97]]" s3] s3
  obtain k' where "fork_step\<^sup>*\<^sup>* (?s2, ?k2) (s3, k')" "k' 10 = Some (?c\<lparr>stage := Unlocked, stage := Loaded ''/bin/vi'' [[97]]\<rparr>)"
    by auto
  then show ?thesis using r by (intro exI [of _ s3] exI [of _ k']) auto
qed

end
