(* ===== verification/Spec2Isabelle.thy ===== *)
theory Spec2Isabelle
  imports Processes Shared_Memory Network Heap_Allocator File_Contents
    Input_Devices Terminal Window_Server Fork_Exec
begin

text \<open>
  A verification development of DarkForest, a 32-bit x86 operating system written in C++: a
  kernel (\<^verbatim>\<open>src/kernel\<close>), a C library that the kernel and the programs share (\<^verbatim>\<open>src/libc\<close>) and
  programs that run on it (\<^verbatim>\<open>src/userspace\<close>).

  \<^bold>\<open>The parts and how they interact.\<close> The timer interrupt drives the scheduler, which keeps the
  processes in a runnable list, a blocked list and the current process; a blocked process holds
  a blocker, an object that says whether the process may go on. The system calls of a process
  use its table of open files, the memory manager, the virtual file system, which finds the mounted file system by
  the longest mount point, the registry of shared memory and the message queue of another
  process. The network manager takes frames from the card's receive ring and hands them to ARP,
  IPv4 and ICMP, which wake blockers of their own. All of these rest on the library: strings,
  vectors, lists, paths, formatted output, the heap allocator.

  \<^bold>\<open>Conventions\<close> (\<^verbatim>\<open>Prelude\<close>). Every operation that can assert, dereference a bad pointer or run
  into \<^verbatim>\<open>NotReached\<close> returns a value of the sum type \<open>'a result\<close>; \<open>Inl e\<close> is the panic, \<open>Inr v\<close>
  the value. Words have the width of the code where a wrap-around can be seen; \<^verbatim>\<open>size_t\<close> values
  are natural numbers with \<open>wrap32\<close> and \<open>size_sub\<close> written out where the code computes them.
  An object is a record, a class that has virtual functions is the record of these functions.

  \<^bold>\<open>The theories.\<close>
  \<^item> \<^verbatim>\<open>Bits_Math\<close>: \<^verbatim>\<open>libc/bits.h\<close>, \<^verbatim>\<open>libc/Math.cpp\<close>, the 64-bit division of \<^verbatim>\<open>libc/stdio.cpp\<close>. The
    shift-and-subtract division equals \<open>div\<close> and \<open>mod\<close>; the bit scans find the first bit.
  \<^item> \<^verbatim>\<open>CStrings\<close>: \<^verbatim>\<open>libc/cstring.cpp\<close>, \<^verbatim>\<open>libc/strings.cpp\<close>, \<^verbatim>\<open>libc/ctype.cpp\<close>, \<^verbatim>\<open>atoi\<close>. The buffers are
    lists with the bytes behind the terminator; reading past the end is \<open>BadAccess\<close>.
  \<^item> \<^verbatim>\<open>Vectors\<close>, \<^verbatim>\<open>Strings\<close>, \<^verbatim>\<open>Linked_List\<close>: \<^verbatim>\<open>libc/types/vector.h\<close>, \<^verbatim>\<open>String.cpp\<close>, \<^verbatim>\<open>list.h\<close>. Each
    has a representation invariant that all operations keep, and refines an abstract list: the
    locale \<open>growable_seq\<close> is interpreted on vectors, \<open>fifo_queue\<close> on linked lists.
  \<^item> \<^verbatim>\<open>Printf\<close>: \<^verbatim>\<open>libc/printf.h\<close>, \<^verbatim>\<open>libc/stdio_shared.cpp\<close>, \<^verbatim>\<open>itoa\<close>. \<^verbatim>\<open>snprintf\<close> stays in its
    buffer; numbers printed are read back by \<^verbatim>\<open>atoi\<close>.
  \<^item> \<^verbatim>\<open>Paths\<close>: \<^verbatim>\<open>libc/FileSystem/path.cpp\<close>, \<^verbatim>\<open>DirectoryEntry.cpp\<close>. Printing and parsing are
    inverse, removing a mount point splits a path, entries survive serialization.
  \<^item> \<^verbatim>\<open>Heap_Allocator\<close>: \<^verbatim>\<open>libc/HeapAllocator.cpp\<close> on a store of block headers. The free blocks and
    the blocks handed out stay disjoint on every trace of calls (locale \<open>block_allocator\<close>).
  \<^item> \<^verbatim>\<open>Scheduling\<close>: \<^verbatim>\<open>kernel/Scheduler.cpp\<close>, \<^verbatim>\<open>TaskBlocker.cpp\<close>, \<^verbatim>\<open>sleep.cpp\<close>, the handler of
    \<^verbatim>\<open>drivers/PIT.cpp\<close>. The queue invariant \<open>sched_ok\<close> holds in every state the step relation
    reaches; a runnable process runs after a bounded number of time slices; a sleeper wakes at
    its time.
  \<^item> \<^verbatim>\<open>File_Systems\<close>: \<^verbatim>\<open>kernel/FileSystem/VFS.cpp\<close>, \<^verbatim>\<open>DevFS.cpp\<close>, \<^verbatim>\<open>PtsFS.cpp\<close>, \<^verbatim>\<open>kernel/Pipe.cpp\<close>
    (locale \<open>byte_stream\<close> on pipes).
  \<^item> \<^verbatim>\<open>Processes\<close>: the system calls of \<^verbatim>\<open>kernel/process.cpp\<close> and
    \<^verbatim>\<open>kernel/MM/SharedMemoryManager.cpp\<close> (locale \<open>fifo\<close> on the message queue).
  \<^item> \<^verbatim>\<open>Network_Types\<close>, \<^verbatim>\<open>Network\<close>: \<^verbatim>\<open>libc/NetworkTypes.cpp\<close> and \<^verbatim>\<open>kernel/Network\<close> with the rings of
    \<^verbatim>\<open>drivers/RTL8139NetworkCard.cpp\<close>. No frame makes the handlers fail, except an IPv4 packet
    whose header is not complete; the checksums verify, an ARP answer reaches the requests that wait for it.

  \<^item> \<^verbatim>\<open>Memory_Manager\<close>, \<^verbatim>\<open>Address_Spaces\<close>: \<^verbatim>\<open>kernel/MM/MemoryManager.cpp\<close>, \<^verbatim>\<open>MM_types.h\<close>, \<^verbatim>\<open>task.cpp\<close>.
    The machine is the physical memory with the register CR3; a virtual access walks the page
    directory and page table in that memory, so the manager's writes through the recursive and
    the temporary mapping are writes into the tables it is changing. The invariant \<open>mm_inv\<close>
    (frames of tables and pages are not free, a page table has one place in the directories and is no page) holds after start-up and after
    every operation; allocation gives a frame nobody uses, and a cloned directory shares
    the pages below eight megabytes and the kernel's, and none of those in between. The locale \<open>page_space\<close> is interpreted on the
    manager's allocation and on the one its clients call.
  \<^item> \<^verbatim>\<open>Shared_Memory\<close>: the system calls of \<^verbatim>\<open>kernel/process.cpp\<close> that create and open shared
    memory, where processes, registry and memory manager meet: the opener sees the creator's frames.

  \<^item> \<^verbatim>\<open>Virtual_Memory\<close>, \<^verbatim>\<open>Loader\<close>, \<^verbatim>\<open>Fork_Exec\<close>: \<^verbatim>\<open>kernel/Loader\<close> and the part of \<^verbatim>\<open>kernel/process.cpp\<close> that
    starts programs. The loader's operations take the memory they work on as an argument, and the code runs with
    \<open>kernel_memory\<close>, the memory manager and the bytes behind the addresses. The proofs run the same
    operations on pages by number (\<open>vm_memory\<close>), and the locale \<open>memory_refinement\<close> carries the results over: it is
    interpreted on the memory manager, whose laws are its invariant and two free frames for each page to come. A
    well-formed program is in memory as its file says, with its arguments, each page in a frame of its own; a child
    finds its path and arguments as long as it has not run (\<open>fork_inv\<close>).

  \<^item> \<^verbatim>\<open>ATA_Disk\<close>, \<^verbatim>\<open>Fat32_Table\<close>, \<^verbatim>\<open>Fat32_Directory\<close>, \<^verbatim>\<open>Fat32_Files\<close>: \<^verbatim>\<open>kernel/drivers/ATADisk.cpp\<close> over a
    drive that follows the ATA protocol, and \<^verbatim>\<open>kernel/FileSystem/Fat32FS.cpp\<close>: the allocation
    table and its chains (locales \<open>block_store\<close> and \<open>volume\<close>), raw and long directory entries,
    search, creation and writing. Reading follows a chain to its end mark, a created entry is
    found under its name, a written file has the data and its size.
  \<^item> \<^verbatim>\<open>Char_File\<close>, \<^verbatim>\<open>File_Contents\<close>: \<^verbatim>\<open>kernel/FileSystem/CharFile.cpp\<close> and \<^verbatim>\<open>FileUtils.cpp\<close>. An open
    file refines its contents with a position (locale \<open>stepwise_refinement\<close>), and what is written
    is read back after the file is opened again.
  \<^item> \<^verbatim>\<open>Input_Devices\<close>, \<^verbatim>\<open>Terminal\<close>: the keyboard and mouse of \<^verbatim>\<open>kernel/drivers/PS2Keyboard.cpp\<close> and
    \<^verbatim>\<open>PS2Mouse.cpp\<close>, the text screen and terminal of \<^verbatim>\<open>VgaText.cpp\<close> and \<^verbatim>\<open>VgaTTY.cpp\<close>, with their
    devices of \<^verbatim>\<open>kernel/HAL\<close>. The keyboard refines a queue of decoded keys, the terminal lines of
    text (both by \<open>stepwise_refinement\<close>).

  \<^item> \<^verbatim>\<open>Window_Drawing\<close>, \<^verbatim>\<open>Window_Messages\<close>, \<^verbatim>\<open>Window_Server\<close>: \<^verbatim>\<open>userspace/WindowServer\<close> and
    \<^verbatim>\<open>userspace/LibWindowServer\<close>, with \<^verbatim>\<open>kernel/HAL/VgaDevice.cpp\<close>. A rectangle is drawn in its bounds or
    the server stops, the pointer leaves the picture under it as it was, requests and events
    arrive through the kernel's queues as they were sent, no user input makes the server fail while
    its windows fit on the screen and have numbers of 16 bits (\<open>server_ok\<close>), and a request for a window is answered with shared
    memory the kernel has registered.

  \<^bold>\<open>Loops.\<close> Loops over pointers are \<^theory_text>\<open>partial_function (option)\<close>, and the theorems prove that they
  return on every well-formed store. Loops with a counter are structural recursion on it; no
  fuel is used.

  \<^bold>\<open>Not modelled.\<close> Port I/O to hardware beyond the disk's protocol (PCI, PIC, the set-up of the
  network card and of the input controller), the descriptor tables, assembly and boot code, the
  system call stubs, the processor's translation cache (the code reloads CR3 or invalidates a
  page after each change of a table), locks and reference counts, the jump to user mode and the programs other
  than the window server. Interrupts come between operations, not within one: the code turns
  them off or takes a lock there.
\<close>

end
